(* ===== verification/Embr_Prelude.thy ===== *)
theory Embr_Prelude
  imports Main "HOL-Library.Word"
begin

text \<open>
  Shared vocabulary of the development.

  Machine types (\<^verbatim>\<open>uint8_t\<close> to \<^verbatim>\<open>uint64_t\<close>) are words of their width; a
  \<^verbatim>\<open>size_t\<close> that only measures a buffer is a \<open>nat\<close>, with the wrap-around
  written out where the code adds to it. Bytes in memory are \<open>u8 list\<close>.

  A C++ function that can throw returns a \<open>res\<close>: the value, the exception, or
  \<open>Undef\<close> where the code performs an access the language leaves undefined (an
  out-of-range vector index, a copy past the end of a buffer). A function that also
  acts on the outside world is an \<open>io\<close>: it takes the world and returns the outcome
  with the world it leaves behind; \<open>None\<close> stands for a call that never returns (a
  blocked system call, an endless retry loop). Exceptions keep the world, as
  unwinding does.
\<close>

section \<open>Types\<close>

type_synonym u8 = "8 word"
type_synonym u16 = "16 word"
type_synonym u32 = "32 word"
type_synonym u64 = "64 word"

text \<open>
  Exceptions carry the literal part of the message of the throw site; appended
  details (a number, \<^verbatim>\<open>strerror\<close>) are left out.
\<close>

datatype exn =
    Runtime_error string
  | Out_of_range string
  | Invalid_argument string
  | Logic_error string

datatype 'a res = Ok 'a | Throw exn | Undef

type_synonym ('w, 'a) io = "'w \<Rightarrow> ('a res \<times> 'w) option"

named_theorems io_simps \<open>equations that evaluate the monadic operations\<close>
named_theorems wp_simps \<open>equations that push \<open>wp\<close> through a program\<close>
named_theorems frame_simps \<open>what an operation leaves unchanged\<close>

section \<open>Results\<close>

primrec res_bind :: "'a res \<Rightarrow> ('a \<Rightarrow> 'b res) \<Rightarrow> 'b res" where
  "res_bind (Ok x) f = f x"
| "res_bind (Throw e) f = Throw e"
| "res_bind Undef f = Undef"

lemma res_bind_Ok_iff [io_simps]:
  "res_bind m f = Ok y \<longleftrightarrow> (\<exists>x. m = Ok x \<and> f x = Ok y)"
  by (cases m) auto

lemma res_bind_Undef_iff [io_simps]:
  "res_bind m f = Undef \<longleftrightarrow> m = Undef \<or> (\<exists>x. m = Ok x \<and> f x = Undef)"
  by (cases m) auto

lemma res_bind_Throw_iff [io_simps]:
  "res_bind m f = Throw e \<longleftrightarrow> m = Throw e \<or> (\<exists>x. m = Ok x \<and> f x = Throw e)"
  by (cases m) auto

lemma res_bind_assoc:
  "res_bind (res_bind m f) g = res_bind m (\<lambda>x. res_bind (f x) g)"
  by (cases m) auto

lemma res_bind_cong [fundef_cong]:
  "m = m' \<Longrightarrow> (\<And>x. m' = Ok x \<Longrightarrow> f x = g x) \<Longrightarrow> res_bind m f = res_bind m' g"
  by (cases m') auto

text \<open>The iteration of a fallible step over a list, as a range-for loop makes it.\<close>

primrec res_foldl :: "('s \<Rightarrow> 'a \<Rightarrow> 's res) \<Rightarrow> 's \<Rightarrow> 'a list \<Rightarrow> 's res" where
  "res_foldl f s [] = Ok s"
| "res_foldl f s (x # xs) = res_bind (f s x) (\<lambda>s'. res_foldl f s' xs)"

lemma res_foldl_append:
  "res_foldl f s (xs @ ys) = res_bind (res_foldl f s xs) (\<lambda>s'. res_foldl f s' ys)"
  by (induction xs arbitrary: s) (auto simp: res_bind_assoc)

section \<open>World-passing computations\<close>

definition io_ret :: "'a \<Rightarrow> ('w, 'a) io" where
  "io_ret x w = Some (Ok x, w)"

definition io_throw :: "exn \<Rightarrow> ('w, 'a) io" where
  "io_throw e w = Some (Throw e, w)"

definition io_undef :: "('w, 'a) io" where
  "io_undef w = Some (Undef, w)"

definition io_lift :: "'a res \<Rightarrow> ('w, 'a) io" where
  "io_lift r w = Some (r, w)"

definition io_bind :: "('w, 'a) io \<Rightarrow> ('a \<Rightarrow> ('w, 'b) io) \<Rightarrow> ('w, 'b) io" where
  "io_bind m f w =
     (case m w of
        None \<Rightarrow> None
      | Some (Ok x, w') \<Rightarrow> f x w'
      | Some (Throw e, w') \<Rightarrow> Some (Throw e, w')
      | Some (Undef, w') \<Rightarrow> Some (Undef, w'))"

text \<open>Run \<open>m\<close>, then \<open>c\<close> whatever the outcome: a destructor on scope exit.\<close>

definition io_finally :: "('w, 'a) io \<Rightarrow> ('w \<Rightarrow> 'w) \<Rightarrow> ('w, 'a) io" where
  "io_finally m c w = (case m w of None \<Rightarrow> None | Some (r, w') \<Rightarrow> Some (r, c w'))"

text \<open>\<^verbatim>\<open>catch (const std::runtime_error&)\<close>: other exceptions pass through.\<close>

definition io_catch_runtime :: "('w, 'a) io \<Rightarrow> ('w, 'a) io \<Rightarrow> ('w, 'a) io" where
  "io_catch_runtime m h w =
     (case m w of
        Some (Throw (Runtime_error _), w') \<Rightarrow> h w'
      | r \<Rightarrow> r)"

text \<open>\<^verbatim>\<open>catch (...) { c; throw; }\<close>: run \<open>c\<close> and rethrow.\<close>

definition io_catch_rethrow :: "('w, 'a) io \<Rightarrow> ('w \<Rightarrow> 'w) \<Rightarrow> ('w, 'a) io" where
  "io_catch_rethrow m c w =
     (case m w of
        Some (Throw e, w') \<Rightarrow> Some (Throw e, c w')
      | r \<Rightarrow> r)"

primrec io_for :: "'a list \<Rightarrow> ('a \<Rightarrow> ('w, unit) io) \<Rightarrow> ('w, unit) io" where
  "io_for [] f = io_ret ()"
| "io_for (x # xs) f = io_bind (f x) (\<lambda>_. io_for xs f)"

primrec io_foldl :: "('s \<Rightarrow> 'a \<Rightarrow> ('w, 's) io) \<Rightarrow> 's \<Rightarrow> 'a list \<Rightarrow> ('w, 's) io" where
  "io_foldl f s [] = io_ret s"
| "io_foldl f s (x # xs) = io_bind (f s x) (\<lambda>s'. io_foldl f s' xs)"

text \<open>Reading and changing the state.\<close>

definition io_get :: "('w \<Rightarrow> 'a) \<Rightarrow> ('w, 'a) io" where
  "io_get f w = Some (Ok (f w), w)"

definition io_modify :: "('w \<Rightarrow> 'w) \<Rightarrow> ('w, unit) io" where
  "io_modify f w = Some (Ok (), f w)"

text \<open>
  A loop without a bound: the body goes on with a new state or leaves with a result. A loop
  that goes on for ever has no outcome.
\<close>

partial_function (option) io_loop ::
  "('s \<Rightarrow> ('w, 's + 'r) io) \<Rightarrow> 's \<Rightarrow> 'w \<Rightarrow> ('r res \<times> 'w) option" where
  "io_loop body s w =
     Option.bind (body s w) (\<lambda>(q, w').
       case q of
         Ok c \<Rightarrow> (case c of Inl s' \<Rightarrow> io_loop body s' w' | Inr r \<Rightarrow> Some (Ok r, w'))
       | Throw e \<Rightarrow> Some (Throw e, w')
       | Undef \<Rightarrow> Some (Undef, w'))"

lemma io_loop_code [code]:
  "io_loop body s w =
     (case body s w of
        None \<Rightarrow> None
      | Some (q, w') \<Rightarrow>
          (case q of
             Ok c \<Rightarrow> (case c of Inl s' \<Rightarrow> io_loop body s' w' | Inr r \<Rightarrow> Some (Ok r, w'))
           | Throw e \<Rightarrow> Some (Throw e, w')
           | Undef \<Rightarrow> Some (Undef, w')))"
  by (subst io_loop.simps) (simp split: option.split prod.split)

lemma io_ret_apply [simp, io_simps]: "io_ret x w = Some (Ok x, w)"
  by (simp add: io_ret_def)

lemma io_throw_apply [simp, io_simps]: "io_throw e w = Some (Throw e, w)"
  by (simp add: io_throw_def)

lemma io_undef_apply [simp, io_simps]: "io_undef w = Some (Undef, w)"
  by (simp add: io_undef_def)

lemma io_lift_apply [simp, io_simps]: "io_lift r w = Some (r, w)"
  by (simp add: io_lift_def)

lemma io_bind_Ok [simp]: "m w = Some (Ok x, w') \<Longrightarrow> io_bind m f w = f x w'"
  by (simp add: io_bind_def)

lemma io_bind_Throw [simp]: "m w = Some (Throw e, w') \<Longrightarrow> io_bind m f w = Some (Throw e, w')"
  by (simp add: io_bind_def)

lemma io_bind_Undef [simp]: "m w = Some (Undef, w') \<Longrightarrow> io_bind m f w = Some (Undef, w')"
  by (simp add: io_bind_def)

lemma io_bind_None [simp]: "m w = None \<Longrightarrow> io_bind m f w = None"
  by (simp add: io_bind_def)

lemma io_bind_Ok_iff [io_simps]:
  "io_bind m f w = Some (Ok y, w'') \<longleftrightarrow>
     (\<exists>x w'. m w = Some (Ok x, w') \<and> f x w' = Some (Ok y, w''))"
  by (auto simp: io_bind_def split: option.splits res.splits prod.splits)

lemma io_bind_Throw_iff:
  "io_bind m f w = Some (Throw e, w'') \<longleftrightarrow>
     m w = Some (Throw e, w'') \<or>
     (\<exists>x w'. m w = Some (Ok x, w') \<and> f x w' = Some (Throw e, w''))"
  by (auto simp: io_bind_def split: option.splits res.splits prod.splits)

lemma io_bind_Undef_iff:
  "io_bind m f w = Some (Undef, w'') \<longleftrightarrow>
     m w = Some (Undef, w'') \<or>
     (\<exists>x w'. m w = Some (Ok x, w') \<and> f x w' = Some (Undef, w''))"
  by (auto simp: io_bind_def split: option.splits res.splits prod.splits)

lemma io_finally_iff [io_simps]:
  "io_finally m c w = Some (r, w'') \<longleftrightarrow> (\<exists>w'. m w = Some (r, w') \<and> w'' = c w')"
  by (auto simp: io_finally_def split: option.splits)

lemma io_finally_Some [simp]: "m w = Some (r, w') \<Longrightarrow> io_finally m c w = Some (r, c w')"
  by (simp add: io_finally_def)

lemma io_catch_runtime_Ok [simp]:
  "m w = Some (Ok x, w') \<Longrightarrow> io_catch_runtime m h w = Some (Ok x, w')"
  by (simp add: io_catch_runtime_def)

lemma io_catch_runtime_Throw [simp]:
  "m w = Some (Throw (Runtime_error s), w') \<Longrightarrow> io_catch_runtime m h w = h w'"
  by (simp add: io_catch_runtime_def)

lemma io_catch_runtime_Ok_iff:
  "io_catch_runtime m h w = Some (Ok y, w'') \<longleftrightarrow>
     m w = Some (Ok y, w'') \<or>
     (\<exists>s w'. m w = Some (Throw (Runtime_error s), w') \<and> h w' = Some (Ok y, w''))"
  by (auto simp: io_catch_runtime_def split: option.splits res.splits prod.splits exn.splits)

lemma io_catch_rethrow_Ok_iff [io_simps]:
  "io_catch_rethrow m c w = Some (Ok y, w'') \<longleftrightarrow> m w = Some (Ok y, w'')"
  by (auto simp: io_catch_rethrow_def split: option.splits res.splits prod.splits)

lemma io_catch_rethrow_Throw_iff:
  "io_catch_rethrow m c w = Some (Throw e, w'') \<longleftrightarrow>
     (\<exists>w'. m w = Some (Throw e, w') \<and> w'' = c w')"
  by (auto simp: io_catch_rethrow_def split: option.splits res.splits prod.splits)

lemma io_catch_rethrow_Ok [simp]:
  "m w = Some (Ok x, w') \<Longrightarrow> io_catch_rethrow m c w = Some (Ok x, w')"
  by (simp add: io_catch_rethrow_def)

text \<open>A relation that every step of a loop keeps holds across the loop.\<close>

lemma io_foldl_invariant:
  assumes "io_foldl f s xs w = Some (Ok s', w')" and "I s w"
    and "\<And>s x w s' w'. x \<in> set xs \<Longrightarrow> I s w \<Longrightarrow> f s x w = Some (Ok s', w') \<Longrightarrow> I s' w'"
  shows "I s' w'"
  using assms
proof (induction xs arbitrary: s w)
  case Nil
  then show ?case by simp
next
  case (Cons x xs)
  then obtain s1 w1 where 1: "f s x w = Some (Ok s1, w1)"
      and 2: "io_foldl f s1 xs w1 = Some (Ok s', w')"
    by (auto simp: io_simps)
  have "I s1 w1" by (rule Cons.prems(3) [OF _ Cons.prems(2) 1]) simp
  then show ?case by (rule Cons.IH [OF 2]) (rule Cons.prems(3), auto)
qed

section \<open>Postconditions\<close>

text \<open>
  \<open>wp b m Q w\<close>: if \<open>m\<close> run in \<open>w\<close> comes to an outcome, it satisfies \<open>Q\<close>; whether it
  has to come to one is \<open>\<not> b\<close>. So \<open>wp True\<close> is partial correctness over all the
  outcomes, exceptions included, and \<open>wp False\<close> adds that \<open>m\<close> returns.
\<close>

definition wp :: "bool \<Rightarrow> ('w, 'a) io \<Rightarrow> ('a res \<Rightarrow> 'w \<Rightarrow> bool) \<Rightarrow> 'w \<Rightarrow> bool" where
  "wp b m Q w = (case m w of None \<Rightarrow> b | Some (r, w') \<Rightarrow> Q r w')"

definition on_ok :: "('a \<Rightarrow> 'w \<Rightarrow> bool) \<Rightarrow> ('b res \<Rightarrow> 'w \<Rightarrow> bool) \<Rightarrow> 'a res \<Rightarrow> 'w \<Rightarrow> bool" where
  "on_ok F Q r w = (case r of Ok x \<Rightarrow> F x w | Throw e \<Rightarrow> Q (Throw e) w | Undef \<Rightarrow> Q Undef w)"

lemma on_ok_simps [simp]:
  "on_ok F Q (Ok x) w = F x w" "on_ok F Q (Throw e) w = Q (Throw e) w" "on_ok F Q Undef w = Q Undef w"
  by (simp_all add: on_ok_def)

lemma wpI: "(\<And>r w'. m w = Some (r, w') \<Longrightarrow> Q r w') \<Longrightarrow> wp True m Q w"
  by (auto simp: wp_def split: option.splits)

lemma wpD: "wp b m Q w \<Longrightarrow> m w = Some (r, w') \<Longrightarrow> Q r w'"
  by (simp add: wp_def)

lemma wp_total: "wp False m Q w \<longleftrightarrow> (\<exists>r w'. m w = Some (r, w') \<and> Q r w')"
  by (auto simp: wp_def split: option.splits)

lemma wp_mono: "wp b m Q w \<Longrightarrow> (\<And>r w'. Q r w' \<Longrightarrow> R r w') \<Longrightarrow> wp b m R w"
  by (auto simp: wp_def split: option.splits)

lemma wp_conj: "wp b m Q w \<Longrightarrow> wp True m R w \<Longrightarrow> wp b m (\<lambda>r w'. Q r w' \<and> R r w') w"
  by (auto simp: wp_def split: option.splits)

lemma wp_return [wp_simps]:
  "wp b (io_ret x) Q w = Q (Ok x) w" "wp b (io_throw e) Q w = Q (Throw e) w"
  "wp b io_undef Q w = Q Undef w" "wp b (io_lift r) Q w = Q r w"
  by (simp_all add: wp_def)

lemma wp_state [wp_simps]:
  "wp b (io_get f) Q w = Q (Ok (f w)) w" "wp b (io_modify g) R w = R (Ok ()) (g w)"
  by (simp_all add: wp_def io_get_def io_modify_def)

lemma wp_const [simp]: "wp b (\<lambda>w. Some (r, w)) Q w = Q r w"
  by (simp add: wp_def)

lemma wp_bind [wp_simps]: "wp b (io_bind m f) Q w = wp b m (on_ok (\<lambda>x. wp b (f x) Q) Q) w"
  by (simp add: wp_def io_bind_def split: option.splits res.splits prod.splits)

lemma wp_finally [wp_simps]: "wp b (io_finally m c) Q w = wp b m (\<lambda>r w'. Q r (c w')) w"
  by (simp add: wp_def io_finally_def split: option.splits)

lemma wp_if [wp_simps]: "wp b (if P then m else n) Q w = (if P then wp b m Q w else wp b n Q w)"
  by simp

definition on_runtime :: "('w, 'a) io \<Rightarrow> bool \<Rightarrow> ('a res \<Rightarrow> 'w \<Rightarrow> bool) \<Rightarrow> 'a res \<Rightarrow> 'w \<Rightarrow> bool" where
  "on_runtime h b Q r w = (if \<exists>s. r = Throw (Runtime_error s) then wp b h Q w else Q r w)"

lemma on_runtime_simps [simp]:
  "on_runtime h b Q (Ok x) w = Q (Ok x) w" "on_runtime h b Q (Throw (Runtime_error s)) w = wp b h Q w"
  "on_runtime h b Q Undef w = Q Undef w"
  by (simp_all add: on_runtime_def)

lemma wp_catch_runtime [wp_simps]: "wp b (io_catch_runtime m h) Q w = wp b m (on_runtime h b Q) w"
  by (simp add: wp_def io_catch_runtime_def on_runtime_def split: option.splits res.splits prod.splits exn.splits)

definition on_throw :: "('w \<Rightarrow> 'w) \<Rightarrow> ('a res \<Rightarrow> 'w \<Rightarrow> bool) \<Rightarrow> 'a res \<Rightarrow> 'w \<Rightarrow> bool" where
  "on_throw c Q r w = Q r (case r of Throw e \<Rightarrow> c w | _ \<Rightarrow> w)"

lemma on_throw_simps [simp]:
  "on_throw c Q (Ok x) w = Q (Ok x) w" "on_throw c Q (Throw e) w = Q (Throw e) (c w)"
  "on_throw c Q Undef w = Q Undef w"
  by (simp_all add: on_throw_def)

lemma wp_catch_rethrow [wp_simps]: "wp b (io_catch_rethrow m c) Q w = wp b m (on_throw c Q) w"
  by (simp add: wp_def io_catch_rethrow_def on_throw_def split: option.splits res.splits prod.splits)

text \<open>The invariant rule of an unbounded loop, for partial correctness.\<close>

definition on_turn :: "('s \<Rightarrow> 'w \<Rightarrow> bool) \<Rightarrow> ('r res \<Rightarrow> 'w \<Rightarrow> bool) \<Rightarrow> ('s + 'r) res \<Rightarrow> 'w \<Rightarrow> bool" where
  "on_turn I Q q w =
     (case q of
        Ok c \<Rightarrow> (case c of Inl s \<Rightarrow> I s w | Inr r \<Rightarrow> Q (Ok r) w)
      | Throw e \<Rightarrow> Q (Throw e) w
      | Undef \<Rightarrow> Q Undef w)"

lemma on_turn_simps [simp]:
  "on_turn I Q (Ok (Inl s)) w = I s w" "on_turn I Q (Ok (Inr r)) w = Q (Ok r) w"
  "on_turn I Q (Throw e) w = Q (Throw e) w" "on_turn I Q Undef w = Q Undef w"
  by (simp_all add: on_turn_def)

lemma wp_io_loop:
  assumes "I s w" and step: "\<And>s w. I s w \<Longrightarrow> wp True (body s) (on_turn I Q) w"
  shows "wp True (io_loop body s) Q w"
proof (rule wpI)
  fix r w' assume run: "io_loop body s w = Some (r, w')"
  let ?P = "\<lambda>b s w (r, w'). b = body \<longrightarrow> I s w \<longrightarrow> Q r w'"
  have "?P body s w (r, w')"
  proof (rule io_loop.raw_induct [where P = ?P, OF _ run])
    fix g b s w y
    assume IH: "\<And>b s w y. g b s w = Some y \<Longrightarrow> ?P b s w y"
      and eq: "Option.bind (b s w) (\<lambda>(q, w').
       case q of
         Ok c \<Rightarrow> (case c of Inl s' \<Rightarrow> g b s' w' | Inr r \<Rightarrow> Some (Ok r, w'))
       | Throw e \<Rightarrow> Some (Throw e, w')
       | Undef \<Rightarrow> Some (Undef, w')) = Some y"
    obtain r w' where y: "y = (r, w')" by (cases y)
    show "?P b s w y" unfolding y case_prod_conv
    proof (intro impI)
      assume b: "b = body" and i: "I s w"
      obtain q w1 where q: "body s w = Some (q, w1)"
        using eq b by (cases "body s w") auto
      from wpD [OF step [OF i] q] have t: "on_turn I Q q w1" .
      show "Q r w'"
      proof (cases q)
        case (Ok c)
        show ?thesis
        proof (cases c)
          case (Inl s')
          then have "g b s' w1 = Some (r, w')" using eq q b Ok y by simp
          from IH [OF this] show ?thesis using b t Ok Inl by simp
        qed (use eq q b Ok y t in simp)
      qed (use eq q b y t in simp_all)
    qed
  qed
  then show "Q r w'" using assms(1) by simp
qed

text \<open>The invariant rule of a loop over a list.\<close>

lemma wp_foldl:
  assumes "I xs s w"
    and "\<And>x ys s w. x \<in> set xs \<Longrightarrow> I (x # ys) s w \<Longrightarrow>
      wp b (f s x) (on_ok (\<lambda>s' w'. I ys s' w') Q) w"
    and "\<And>s w. I [] s w \<Longrightarrow> Q (Ok s) w"
  shows "wp b (io_foldl f s xs) Q w"
  using assms(1,2)
proof (induction xs arbitrary: s w)
  case Nil
  then show ?case by (simp add: wp_def assms(3))
next
  case (Cons x xs)
  have "wp b (f s x) (on_ok (\<lambda>s' w'. I xs s' w') Q) w"
    by (rule Cons.prems(2)) (use Cons.prems(1) in auto)
  then have "wp b (f s x) (on_ok (\<lambda>s'. wp b (io_foldl f s' xs) Q) Q) w"
  proof (rule wp_mono)
    fix r w' assume *: "on_ok (\<lambda>s' w'. I xs s' w') Q r w'"
    show "on_ok (\<lambda>s'. wp b (io_foldl f s' xs) Q) Q r w'"
    proof (cases r)
      case (Ok s')
      then have "wp b (io_foldl f s' xs) Q w'"
        using * by (intro Cons.IH) (auto intro: Cons.prems(2))
      then show ?thesis by (simp add: Ok)
    qed (use * in simp_all)
  qed
  then show ?case by (simp add: wp_bind)
qed

section \<open>Bytes of integers\<close>

text \<open>
  \<open>le_enc k x\<close> is the little-endian representation of \<open>x\<close> in \<open>k\<close> bytes, \<open>be_enc\<close>
  the network (big-endian) one that \<^verbatim>\<open>htonl\<close> and \<^verbatim>\<open>memcpy\<close> produce.
\<close>

primrec le_enc :: "nat \<Rightarrow> nat \<Rightarrow> u8 list" where
  "le_enc 0 x = []"
| "le_enc (Suc k) x = word_of_nat x # le_enc k (x div 256)"

primrec le_dec :: "u8 list \<Rightarrow> nat" where
  "le_dec [] = 0"
| "le_dec (b # bs) = unat b + 256 * le_dec bs"

definition be_enc :: "nat \<Rightarrow> nat \<Rightarrow> u8 list" where
  "be_enc k x = rev (le_enc k x)"

definition be_dec :: "u8 list \<Rightarrow> nat" where
  "be_dec bs = le_dec (rev bs)"

lemma length_le_enc [simp]: "length (le_enc k x) = k"
  by (induction k arbitrary: x) auto

lemma length_be_enc [simp]: "length (be_enc k x) = k"
  by (simp add: be_enc_def)

lemma unat_u8_of_nat: "unat (word_of_nat x :: u8) = x mod 256"
  by (simp add: unat_of_nat)

lemma u8_less [simp]: "unat (b :: u8) < 256"
  using unsigned_less [of b, where ?'a = nat] by simp

lemma le_dec_enc: "le_dec (le_enc k x) = x mod 256 ^ k"
proof (induction k arbitrary: x)
  case 0
  then show ?case by simp
next
  case (Suc k)
  have "x mod 256 ^ Suc k = x mod 256 + 256 * (x div 256 mod 256 ^ k)"
    by (simp add: mod_mult2_eq)
  then show ?case by (simp add: Suc unat_u8_of_nat)
qed

lemma be_dec_enc: "be_dec (be_enc k x) = x mod 256 ^ k"
  by (simp add: be_dec_def be_enc_def le_dec_enc)

lemma be_dec_enc_exact [simp]: "x < 256 ^ k \<Longrightarrow> be_dec (be_enc k x) = x"
  by (simp add: be_dec_enc)

lemma le_dec_enc_exact [simp]: "x < 256 ^ k \<Longrightarrow> le_dec (le_enc k x) = x"
  by (simp add: le_dec_enc)

lemma le_enc_dec: "le_enc (length bs) (le_dec bs) = bs"
proof (induction bs)
  case Nil
  then show ?case by simp
next
  case (Cons b bs)
  have "(word_of_nat (unat b + 256 * le_dec bs) :: u8) = b"
    unfolding word_unat_eq_iff unat_u8_of_nat by simp
  moreover have "(unat b + 256 * le_dec bs) div 256 = le_dec bs"
    by simp
  ultimately show ?case using Cons by simp
qed

lemma be_enc_dec: "length bs = k \<Longrightarrow> be_enc k (be_dec bs) = bs"
  using le_enc_dec[of "rev bs"] by (simp add: be_enc_def be_dec_def)

lemma le_dec_less: "le_dec bs < 256 ^ length bs"
proof (induction bs)
  case Nil
  then show ?case by simp
next
  case (Cons b bs)
  with u8_less [of b] show ?case
    unfolding le_dec.simps list.size power_Suc add_Suc_right add_0_right by linarith
qed

lemma be_dec_less: "be_dec bs < 256 ^ length bs"
  using le_dec_less[of "rev bs"] by (simp add: be_dec_def)

lemma le_enc_append: "le_enc (j + k) x = le_enc j x @ le_enc k (x div 256 ^ j)"
  by (induction j arbitrary: x) (auto simp: div_mult2_eq)

lemma be_enc_append: "be_enc (j + k) x = be_enc j (x div 256 ^ k) @ be_enc k x"
  using le_enc_append[of k j x] by (simp add: be_enc_def add.commute)

lemma le_enc_mod: "le_enc k (x mod 256 ^ k) = le_enc k x"
  using le_enc_dec [of "le_enc k x"] by (simp add: le_dec_enc)

lemma be_enc_mod: "be_enc k (x mod 256 ^ k) = be_enc k x"
  by (simp add: be_enc_def le_enc_mod)

text \<open>A loop counter below its bound does not wrap.\<close>

lemma unat_suc_less: "i < n \<Longrightarrow> unat (i + 1) = Suc (unat i)" for i n :: "'a::len word"
proof -
  assume "i < n"
  then have "unat i + 1 \<le> unat n" by (simp add: word_less_nat_alt)
  also have "\<dots> < 2 ^ LENGTH('a)" by (rule unsigned_less)
  finally show ?thesis by (simp add: unat_word_ariths)
qed

lemma inj_unat: "inj_on (unat :: 'a::len word \<Rightarrow> nat) A"
  by (simp add: inj_on_def word_unat_eq_iff)

lemma map_unat_inject: "map unat xs = map unat ys \<longleftrightarrow> xs = ys" for xs ys :: "'a::len word list"
  by (rule inj_map_eq_map) (rule inj_unat)

lemma distinct_map_unat: "distinct (map unat xs) \<longleftrightarrow> distinct xs" for xs :: "'a::len word list"
  by (simp add: distinct_map inj_unat)

section \<open>Characters and bytes\<close>

definition u8_of_char :: "char \<Rightarrow> u8" where
  "u8_of_char c = word_of_nat (of_char c)"

definition char_of_u8 :: "u8 \<Rightarrow> char" where
  "char_of_u8 b = char_of (unat b)"

definition bytes_of_string :: "string \<Rightarrow> u8 list" where
  "bytes_of_string s = map u8_of_char s"

definition string_of_bytes :: "u8 list \<Rightarrow> string" where
  "string_of_bytes bs = map char_of_u8 bs"

lemma char_of_u8_of_char [simp]: "char_of_u8 (u8_of_char c) = c"
  by (simp add: char_of_u8_def u8_of_char_def unat_u8_of_nat)

lemma u8_of_char_of_u8 [simp]: "u8_of_char (char_of_u8 b) = b"
  by (simp add: u8_of_char_def char_of_u8_def word_unat_eq_iff unat_u8_of_nat)

lemma string_of_bytes_of_string [simp]: "string_of_bytes (bytes_of_string s) = s"
  by (simp add: string_of_bytes_def bytes_of_string_def o_def)

lemma bytes_of_string_of_bytes [simp]: "bytes_of_string (string_of_bytes bs) = bs"
  by (simp add: string_of_bytes_def bytes_of_string_def o_def)

lemma length_bytes_of_string [simp]: "length (bytes_of_string s) = length s"
  by (simp add: bytes_of_string_def)

lemma length_string_of_bytes [simp]: "length (string_of_bytes bs) = length bs"
  by (simp add: string_of_bytes_def)

section \<open>Regions of byte lists\<close>

definition region :: "nat \<Rightarrow> nat \<Rightarrow> 'a list \<Rightarrow> 'a list" where
  "region off len xs = take len (drop off xs)"

text \<open>
  Overwrite at an offset, extending with zero bytes first, as \<^verbatim>\<open>pwrite\<close> does; a write
  of no bytes changes nothing.
\<close>

definition write_at :: "u8 list \<Rightarrow> nat \<Rightarrow> u8 list \<Rightarrow> u8 list" where
  "write_at f off bs =
     (if bs = [] then f
      else take off f @ replicate (off - length f) 0 @ bs @ drop (off + length bs) f)"

text \<open>The contents \<^verbatim>\<open>ftruncate\<close> leaves: cut, or zero filled.\<close>

definition resize_to :: "u8 list \<Rightarrow> nat \<Rightarrow> u8 list" where
  "resize_to f n = take n f @ replicate (n - length f) 0"

lemma length_region: "length (region off len xs) = min len (length xs - off)"
  by (simp add: region_def)

lemma length_region_le [simp]: "off + len \<le> length xs \<Longrightarrow> length (region off len xs) = len"
  by (simp add: region_def)

lemma region_length_same: "region off (length (region off len xs)) xs = region off len xs"
  by (simp add: region_def min_def)

lemma length_resize_to [simp]: "length (resize_to f n) = n"
  by (simp add: resize_to_def)

lemma length_write_at: "bs \<noteq> [] \<Longrightarrow> length (write_at f off bs) = max (length f) (off + length bs)"
  by (auto simp: write_at_def)

lemma length_write_at_in [simp]:
  "off + length bs \<le> length f \<Longrightarrow> length (write_at f off bs) = length f"
  by (simp add: write_at_def)

lemma write_at_Nil [simp]: "write_at f off [] = f"
  by (simp add: write_at_def)

lemma nth_write_at:
  assumes "off + length bs \<le> length f" and "i < length f"
  shows "write_at f off bs ! i =
           (if off \<le> i \<and> i < off + length bs then bs ! (i - off) else f ! i)"
proof -
  have "write_at f off bs = take off f @ bs @ drop (off + length bs) f"
    using assms by (simp add: write_at_def)
  moreover have "length (take off f) = off" using assms by simp
  ultimately show ?thesis
    using assms by (auto simp: nth_append)
qed

lemma region_write_at_same:
  "off + length bs \<le> length f \<Longrightarrow> region off (length bs) (write_at f off bs) = bs"
  by (simp add: region_def write_at_def)

lemma region_write_at_other:
  assumes "off + length bs \<le> length f" and "o2 + len \<le> length f"
    and "o2 + len \<le> off \<or> off + length bs \<le> o2"
  shows "region o2 len (write_at f off bs) = region o2 len f"
  using assms by (intro nth_equalityI) (auto simp: region_def nth_write_at)

lemma write_at_append:
  assumes "off \<le> length f"
  shows "write_at (write_at f off xs) (off + length xs) ys = write_at f off (xs @ ys)"
  using assms by (simp add: write_at_def add.assoc add.commute add.left_commute)

lemma region_append_first:
  "region off len (xs @ ys) = (if off + len \<le> length xs then region off len xs
     else region off len xs @ region (off - length xs) (len - (length xs - off)) ys)"
  by (auto simp: region_def)

lemma region_split:
  "region off (a + b) xs = region off a xs @ region (off + a) b xs"
  by (simp add: region_def take_add add.commute)

end
