(* ===== verification/Embr_Sys.thy ===== *)
theory Embr_Sys
  imports Embr_Prelude
begin

text \<open>
  The operating system as the code sees it: files by path, open descriptors with their
  position, \<^verbatim>\<open>errno\<close>, and the environment's choices. Every system call takes one entry
  of \<open>script\<close>: \<open>Xfer n\<close> lets it transfer up to \<open>n\<close> bytes (or simply succeed),
  \<open>Fail e\<close> makes it fail with that \<^verbatim>\<open>errno\<close>. A theorem about all scripts is thus one
  about all short counts, interruptions and errors. With the script used up, the call
  blocks for ever (\<open>None\<close>).

  Descriptors are never reused, so that a second close of the same one is visible in
  \<open>bad_closes\<close>. Paths name contents directly: the modelled code never unlinks or
  renames a file it holds open.

  Modelled here: \<^verbatim>\<open>util/exact_io.hpp\<close>, \<^verbatim>\<open>util/socket_fd.hpp\<close> (construction and
  destruction), \<^verbatim>\<open>util/constants.hpp\<close>.
\<close>

section \<open>Constants\<close>

definition EMBR_PORT :: u16 where "EMBR_PORT = 10007"
definition TRACKER_PORT :: u16 where "TRACKER_PORT = 10009"
definition HASH_SIZE :: nat where "HASH_SIZE = 32"
definition READ_BUF_SIZE :: nat where "READ_BUF_SIZE = 1 * 1024 * 1024"
definition CHUNK_SIZE :: nat where "CHUNK_SIZE = 1 * 1024 * 1024"
definition TOKEN_SIZE :: nat where "TOKEN_SIZE = 16"

definition EINTR :: nat where "EINTR = 4"
definition EAGAIN :: nat where "EAGAIN = 11"
definition ENOENT :: nat where "ENOENT = 2"
definition EBADF :: nat where "EBADF = 9"
definition EINVAL :: nat where "EINVAL = 22"

lemmas const_defs = HASH_SIZE_def CHUNK_SIZE_def TOKEN_SIZE_def READ_BUF_SIZE_def
lemmas errno_defs = EINTR_def EAGAIN_def ENOENT_def EBADF_def EINVAL_def

lemma CHUNK_SIZE_pos [simp]: "0 < CHUNK_SIZE"
  by (simp add: CHUNK_SIZE_def)

lemma EAGAIN_neq_EINTR [simp]: "EAGAIN \<noteq> EINTR" "EINTR \<noteq> EAGAIN"
  by (simp_all add: errno_defs)

section \<open>Paths\<close>

text \<open>\<^verbatim>\<open>rfind('/')\<close>: the position of the last slash.\<close>

primrec rfind_slash :: "string \<Rightarrow> nat option" where
  "rfind_slash [] = None"
| "rfind_slash (c # cs) =
     (case rfind_slash cs of
        Some i \<Rightarrow> Some (Suc i)
      | None \<Rightarrow> if c = CHR ''/'' then Some 0 else None)"

text \<open>The hidden file beside \<open>p\<close>: same directory, a dot before the name, a suffix after.\<close>

definition sibling :: "string \<Rightarrow> string \<Rightarrow> string" where
  "sibling suf p =
     (case rfind_slash p of
        None \<Rightarrow> ''.'' @ p @ suf
      | Some i \<Rightarrow> take (i + 1) p @ ''.'' @ drop (i + 1) p @ suf)"

lemma rfind_slash_None: "rfind_slash p = None \<longleftrightarrow> CHR ''/'' \<notin> set p"
  by (induction p) (auto split: option.splits)

lemma rfind_slash_bare: "CHR ''/'' \<notin> set p \<Longrightarrow> rfind_slash p = None"
  by (rule rfind_slash_None [THEN iffD2])

lemma rfind_slash_append:
  "CHR ''/'' \<notin> set n \<Longrightarrow> rfind_slash (d @ CHR ''/'' # n) = Some (length d)"
  by (induction d) (auto simp: rfind_slash_bare)

lemma rfind_slash_Some:
  "rfind_slash p = Some i \<Longrightarrow> \<exists>d n. p = d @ CHR ''/'' # n \<and> CHR ''/'' \<notin> set n \<and> length d = i"
proof (induction p arbitrary: i)
  case (Cons c p)
  show ?case
  proof (cases "rfind_slash p")
    case None
    then show ?thesis using Cons.prems
      by (intro exI [of _ "[]"] exI [of _ p]) (auto simp: rfind_slash_None [symmetric] split: if_splits)
  next
    case (Some j)
    with Cons.IH [OF Some] Cons.prems obtain d n where
      "c # p = (c # d) @ CHR ''/'' # n" "CHR ''/'' \<notin> set n" "length (c # d) = i" by auto
    then show ?thesis by blast
  qed
qed simp

lemma path_cases:
  obtains (bare) "CHR ''/'' \<notin> set p" "sibling suf p = ''.'' @ p @ suf"
  | (dir) d n where "p = d @ CHR ''/'' # n" "CHR ''/'' \<notin> set n"
      "sibling suf p = d @ CHR ''/'' # ''.'' @ n @ suf"
proof (cases "rfind_slash p")
  case None
  then show ?thesis using bare by (simp add: sibling_def rfind_slash_None [symmetric])
next
  case (Some i)
  from rfind_slash_Some [OF this] obtain d n where
    p: "p = d @ CHR ''/'' # n" "CHR ''/'' \<notin> set n" "length d = i" by blast
  then show ?thesis using Some by (intro dir [OF p(1,2)]) (auto simp: sibling_def)
qed

lemma length_sibling: "length (sibling suf p) = Suc (length p + length suf)"
  by (cases rule: path_cases [of p suf]) simp_all

lemma sibling_other: "sibling suf p \<noteq> p"
  using length_sibling [of suf p] by fastforce

text \<open>Different files have different siblings.\<close>

lemma sibling_inject:
  assumes "sibling suf p = sibling suf q" and "CHR ''/'' \<notin> set suf"
  shows "p = q"
proof (cases rule: path_cases [of p suf])
  case bare
  show ?thesis
  proof (cases rule: path_cases [of q suf])
    case b2: bare
    then show ?thesis using bare assms by simp
  next
    case (dir d n)
    then have "CHR ''/'' \<in> set (sibling suf q)" by simp
    moreover have "CHR ''/'' \<notin> set (sibling suf p)" using bare assms(2) by simp
    ultimately show ?thesis using assms(1) by simp
  qed
next
  case (dir d n)
  then have p: "rfind_slash (sibling suf p) = Some (length d)"
    using assms(2) by (simp add: rfind_slash_append)
  show ?thesis
  proof (cases rule: path_cases [of q suf])
    case bare
    then have "rfind_slash (sibling suf q) = None" using assms(2) by (simp add: rfind_slash_bare)
    then show ?thesis using p assms(1) by simp
  next
    case d2: (dir d' n')
    then have "rfind_slash (sibling suf q) = Some (length d')"
      using assms(2) by (simp add: rfind_slash_append)
    then have "length d = length d'" using p assms(1) by simp
    then show ?thesis using assms(1) dir d2 by simp
  qed
qed

section \<open>The world\<close>

datatype sysret = Xfer nat | Fail nat

record ofile =
  of_path :: string
  of_pos :: nat

record world =
  files :: "string \<Rightarrow> u8 list option"
  fds :: "int \<Rightarrow> ofile option"
  next_fd :: int
  bad_closes :: nat
  script :: "sysret list"
  errno :: nat

type_synonym ('w, 'a) raw = "'w \<Rightarrow> ('a \<times> 'w) option"

definition sys :: "('w, 'a) raw \<Rightarrow> ('w, 'a) io" where
  "sys m w = (case m w of None \<Rightarrow> None | Some (x, w') \<Rightarrow> Some (Ok x, w'))"

lemma sys_iff [io_simps]: "sys m w = Some (r, w') \<longleftrightarrow> (\<exists>x. m w = Some (x, w') \<and> r = Ok x)"
  by (auto simp: sys_def split: option.splits)

lemma sys_Some [simp]: "m w = Some (x, w') \<Longrightarrow> sys m w = Some (Ok x, w')"
  by (simp add: sys_def)

lemma sys_None [simp]: "m w = None \<Longrightarrow> sys m w = None"
  by (simp add: sys_def)

definition sys_next :: "('e world_scheme, sysret) raw" where
  "sys_next w = (case script w of [] \<Rightarrow> None | x # xs \<Rightarrow> Some (x, w\<lparr>script := xs\<rparr>))"

definition contents :: "'e world_scheme \<Rightarrow> string \<Rightarrow> u8 list" where
  "contents w p = (case files w p of None \<Rightarrow> [] | Some c \<Rightarrow> c)"

text \<open>\<^verbatim>\<open>open\<close> with or without \<^verbatim>\<open>O_CREAT\<close> and \<^verbatim>\<open>O_TRUNC\<close>; \<^verbatim>\<open>-1\<close> on failure.\<close>

definition sys_open :: "string \<Rightarrow> bool \<Rightarrow> bool \<Rightarrow> ('e world_scheme, int) raw" where
  "sys_open p creat trunc w =
     (case sys_next w of
        None \<Rightarrow> None
      | Some (Fail e, w1) \<Rightarrow> Some (-1, w1\<lparr>errno := e\<rparr>)
      | Some (Xfer _, w1) \<Rightarrow>
          (if files w1 p = None \<and> \<not> creat then Some (-1, w1\<lparr>errno := ENOENT\<rparr>)
           else Some (next_fd w1,
             w1\<lparr>files := (files w1)(p \<mapsto> (if trunc then [] else contents w1 p)),
                fds := (fds w1)(next_fd w1 \<mapsto> \<lparr>of_path = p, of_pos = 0\<rparr>),
                next_fd := next_fd w1 + 1\<rparr>)))"

definition sys_close :: "int \<Rightarrow> 'e world_scheme \<Rightarrow> 'e world_scheme" where
  "sys_close fd w =
     (case fds w fd of
        None \<Rightarrow> w\<lparr>bad_closes := Suc (bad_closes w), errno := EBADF\<rparr>
      | Some _ \<Rightarrow> w\<lparr>fds := (fds w)(fd := None)\<rparr>)"

definition sys_read :: "int \<Rightarrow> nat \<Rightarrow> ('e world_scheme, int \<times> u8 list) raw" where
  "sys_read fd len w =
     (case sys_next w of
        None \<Rightarrow> None
      | Some (Fail e, w1) \<Rightarrow> Some ((-1, []), w1\<lparr>errno := e\<rparr>)
      | Some (Xfer n, w1) \<Rightarrow>
          (case fds w1 fd of
             None \<Rightarrow> Some ((-1, []), w1\<lparr>errno := EBADF\<rparr>)
           | Some f \<Rightarrow>
               (let bs = region (of_pos f) (min (max 1 n) len) (contents w1 (of_path f))
                in Some ((int (length bs), bs),
                     w1\<lparr>fds := (fds w1)(fd \<mapsto> f\<lparr>of_pos := of_pos f + length bs\<rparr>)\<rparr>))))"

definition sys_write :: "int \<Rightarrow> u8 list \<Rightarrow> ('e world_scheme, int) raw" where
  "sys_write fd buf w =
     (case sys_next w of
        None \<Rightarrow> None
      | Some (Fail e, w1) \<Rightarrow> Some (-1, w1\<lparr>errno := e\<rparr>)
      | Some (Xfer n, w1) \<Rightarrow>
          (case fds w1 fd of
             None \<Rightarrow> Some (-1, w1\<lparr>errno := EBADF\<rparr>)
           | Some f \<Rightarrow>
               (let bs = take n buf
                in Some (int (length bs),
                     w1\<lparr>files := (files w1)(of_path f \<mapsto>
                            write_at (contents w1 (of_path f)) (of_pos f) bs),
                        fds := (fds w1)(fd \<mapsto> f\<lparr>of_pos := of_pos f + length bs\<rparr>)\<rparr>))))"

text \<open>\<^verbatim>\<open>stat\<close>, here only for \<^verbatim>\<open>st_size\<close>: the size, or \<open>None\<close> on failure.\<close>

definition sys_stat_size :: "string \<Rightarrow> ('e world_scheme, nat option) raw" where
  "sys_stat_size p w =
     (case sys_next w of
        None \<Rightarrow> None
      | Some (Fail e, w1) \<Rightarrow> Some (None, w1\<lparr>errno := e\<rparr>)
      | Some (Xfer _, w1) \<Rightarrow>
          (case files w1 p of
             None \<Rightarrow> Some (None, w1\<lparr>errno := ENOENT\<rparr>)
           | Some c \<Rightarrow> Some (Some (length c), w1)))"

text \<open>A length above the largest \<^verbatim>\<open>off_t\<close> becomes negative in the cast and is refused.\<close>

definition sys_ftruncate :: "int \<Rightarrow> nat \<Rightarrow> ('e world_scheme, int) raw" where
  "sys_ftruncate fd len w =
     (case sys_next w of
        None \<Rightarrow> None
      | Some (Fail e, w1) \<Rightarrow> Some (-1, w1\<lparr>errno := e\<rparr>)
      | Some (Xfer _, w1) \<Rightarrow>
          (if len \<ge> 2 ^ 63 then Some (-1, w1\<lparr>errno := EINVAL\<rparr>)
           else case fds w1 fd of
             None \<Rightarrow> Some (-1, w1\<lparr>errno := EBADF\<rparr>)
           | Some f \<Rightarrow>
               Some (0, w1\<lparr>files := (files w1)(of_path f \<mapsto>
                             resize_to (contents w1 (of_path f)) len)\<rparr>)))"

text \<open>
  \<^verbatim>\<open>mmap\<close> of a file range for reading: \<open>None\<close> for \<^verbatim>\<open>MAP_FAILED\<close> (a zero length is
  refused), else the mapped bytes. Bytes past the end of the file are not there:
  reading them faults, so a caller that reads \<open>len\<close> bytes must find them all.
\<close>

definition sys_mmap :: "int \<Rightarrow> nat \<Rightarrow> nat \<Rightarrow> ('e world_scheme, u8 list option) raw" where
  "sys_mmap fd off len w =
     (case sys_next w of
        None \<Rightarrow> None
      | Some (Fail e, w1) \<Rightarrow> Some (None, w1\<lparr>errno := e\<rparr>)
      | Some (Xfer _, w1) \<Rightarrow>
          (if len = 0 then Some (None, w1\<lparr>errno := EINVAL\<rparr>)
           else case fds w1 fd of
             None \<Rightarrow> Some (None, w1\<lparr>errno := EBADF\<rparr>)
           | Some f \<Rightarrow> Some (Some (region off len (contents w1 (of_path f))), w1)))"

text \<open>\<^verbatim>\<open>unlink\<close>; the callers ignore its result.\<close>

definition sys_unlink :: "string \<Rightarrow> ('e world_scheme, unit) raw" where
  "sys_unlink p w =
     (case sys_next w of
        None \<Rightarrow> None
      | Some (Fail e, w1) \<Rightarrow> Some ((), w1\<lparr>errno := e\<rparr>)
      | Some (Xfer _, w1) \<Rightarrow> Some ((), w1\<lparr>files := (files w1)(p := None)\<rparr>))"

lemmas sys_defs = sys_open_def sys_read_def sys_write_def sys_stat_size_def
  sys_ftruncate_def sys_mmap_def sys_unlink_def sys_next_def

section \<open>What calls leave unchanged\<close>

text \<open>
  \<open>same_os w w'\<close>: files, descriptors and their accounting are as before; only the
  script, \<^verbatim>\<open>errno\<close> and the rest of the world may differ. \<open>later w w'\<close>: the script of
  \<open>w'\<close> is what is left of that of \<open>w\<close>.
\<close>

definition same_os :: "'e world_scheme \<Rightarrow> 'f world_scheme \<Rightarrow> bool" where
  "same_os w w' \<longleftrightarrow> files w' = files w \<and> fds w' = fds w \<and> next_fd w' = next_fd w
     \<and> bad_closes w' = bad_closes w"

definition later :: "'e world_scheme \<Rightarrow> 'f world_scheme \<Rightarrow> bool" where
  "later w w' \<longleftrightarrow> (\<exists>k. script w' = drop k (script w))"

lemma same_os_refl [simp]: "same_os w w"
  by (simp add: same_os_def)

lemma same_os_trans: "same_os w1 w2 \<Longrightarrow> same_os w2 w3 \<Longrightarrow> same_os w1 w3"
  by (simp add: same_os_def)

lemma same_os_upd [simp]:
  "same_os w (w\<lparr>script := s\<rparr>)" "same_os w (w\<lparr>errno := e\<rparr>)"
  "same_os w (w\<lparr>script := s, errno := e\<rparr>)"
  by (simp_all add: same_os_def)

lemma later_refl [simp]: "later w w"
  unfolding later_def by (rule exI [of _ 0]) simp

lemma later_trans: "later w1 w2 \<Longrightarrow> later w2 w3 \<Longrightarrow> later w1 w3"
  by (auto simp: later_def)

lemma later_tl: "script w = x # xs \<Longrightarrow> script w' = xs \<Longrightarrow> later w w'"
  unfolding later_def by (rule exI [of _ 1]) simp

lemma contents_same_os: "same_os w w' \<Longrightarrow> contents w' p = contents w p"
  by (simp add: same_os_def contents_def)

section \<open>Fair environments\<close>

text \<open>
  In a fair environment no call fails and every transfer makes progress. \<open>fuel w\<close>
  counts the calls the script still answers.
\<close>

definition fair :: "'e world_scheme \<Rightarrow> bool" where
  "fair w \<longleftrightarrow> (\<forall>x \<in> set (script w). \<exists>n. x = Xfer n \<and> 0 < n)"

definition fuel :: "'e world_scheme \<Rightarrow> nat" where
  "fuel w = length (script w)"

lemma fair_later: "fair w \<Longrightarrow> later w w' \<Longrightarrow> fair w'"
  unfolding fair_def later_def by (metis in_set_dropD)

lemma fair_next:
  assumes "fair w" and "0 < fuel w"
  obtains n w1 where "sys_next w = Some (Xfer n, w1)" "0 < n" "w1 = w\<lparr>script := tl (script w)\<rparr>"
    "fair w1" "fuel w1 = fuel w - 1" "later w w1" "same_os w w1"
proof -
  from assms obtain x xs where s: "script w = x # xs"
    by (cases "script w") (auto simp: fuel_def)
  then obtain n where "x = Xfer n" "0 < n" using assms(1) by (auto simp: fair_def)
  moreover have "fair (w\<lparr>script := xs\<rparr>)" using assms(1) s by (auto simp: fair_def)
  ultimately show ?thesis
    using s by (intro that [of n "w\<lparr>script := xs\<rparr>"])
      (auto simp: sys_next_def fuel_def intro: later_tl)
qed

lemma sys_next_later: "sys_next w = Some (x, w1) \<Longrightarrow> later w w1 \<and> same_os w w1"
  by (auto simp: sys_next_def split: list.splits intro: later_tl)

section \<open>Exact reads and writes on a descriptor\<close>

partial_function (option) write_exact_loop ::
  "int \<Rightarrow> u8 list \<Rightarrow> nat \<Rightarrow> nat \<Rightarrow> 'e world_scheme \<Rightarrow> (unit res \<times> 'e world_scheme) option" where
  "write_exact_loop fd buf offset remaining w =
     (if remaining > 0 then
        Option.bind (sys_write fd (region offset remaining buf) w) (\<lambda>(n, w').
          if n = 0 then write_exact_loop fd buf offset remaining w'
          else if n < 0 then
            (if errno w' = EINTR then write_exact_loop fd buf offset remaining w'
             else Some (Throw (Runtime_error ''fd_write_exact: write failed: ''), w'))
          else write_exact_loop fd buf (offset + nat n) (remaining - nat n) w')
      else Some (Ok (), w))"

definition write_exact :: "int \<Rightarrow> u8 list \<Rightarrow> ('e world_scheme, unit) io" where
  "write_exact fd buf w = write_exact_loop fd buf 0 (length buf) w"

partial_function (option) read_exact_loop ::
  "int \<Rightarrow> u8 list \<Rightarrow> nat \<Rightarrow> 'e world_scheme \<Rightarrow> (u8 list res \<times> 'e world_scheme) option" where
  "read_exact_loop fd buf remaining w =
     (if remaining > 0 then
        Option.bind (sys_read fd remaining w) (\<lambda>((n, bs), w').
          if n = 0 then Some (Throw (Runtime_error ''fd_read_exact: unexpected EOF''), w')
          else if n < 0 then
            (if errno w' = EINTR then read_exact_loop fd buf remaining w'
             else Some (Throw (Runtime_error ''fd_read_exact: read failed: ''), w'))
          else read_exact_loop fd (buf @ bs) (remaining - nat n) w')
      else Some (Ok buf, w))"

definition read_exact :: "int \<Rightarrow> nat \<Rightarrow> ('e world_scheme, u8 list) io" where
  "read_exact fd len w = read_exact_loop fd [] len w"

text \<open>
  \<open>wrote fd f c bs w w'\<close>: relative to \<open>w\<close>, where \<open>fd\<close> is open as \<open>f\<close> on a file with
  contents \<open>c\<close>, exactly the bytes \<open>bs\<close> were written at its position.
\<close>

definition wrote :: "int \<Rightarrow> ofile \<Rightarrow> u8 list \<Rightarrow> u8 list \<Rightarrow> 'e world_scheme \<Rightarrow> 'e world_scheme \<Rightarrow> bool" where
  "wrote fd f c bs w w' \<longleftrightarrow>
     files w' = (files w)(of_path f \<mapsto> write_at c (of_pos f) bs) \<and>
     fds w' = (fds w)(fd \<mapsto> f\<lparr>of_pos := of_pos f + length bs\<rparr>) \<and>
     next_fd w' = next_fd w \<and> bad_closes w' = bad_closes w \<and> world.more w' = world.more w \<and> later w w'"

lemma wrote_refl:
  "fds w fd = Some f \<Longrightarrow> files w (of_path f) = Some c \<Longrightarrow> later w w' \<Longrightarrow> same_os w w'
     \<Longrightarrow> world.more w' = world.more w \<Longrightarrow> wrote fd f c [] w w'"
  by (auto simp: wrote_def same_os_def fun_upd_idem_iff)

lemma wrote_trans:
  assumes "wrote fd f c xs w w1"
    and "wrote fd (f\<lparr>of_pos := of_pos f + length xs\<rparr>) (write_at c (of_pos f) xs) ys w1 w2"
    and "of_pos f \<le> length c"
  shows "wrote fd f c (xs @ ys) w w2"
  using assms by (auto simp: wrote_def write_at_append add.assoc intro: later_trans)

lemma wrote_lookup:
  assumes "wrote fd f c bs w w'"
  shows "fds w' fd = Some (f\<lparr>of_pos := of_pos f + length bs\<rparr>)"
    and "files w' (of_path f) = Some (write_at c (of_pos f) bs)"
  using assms by (simp_all add: wrote_def)

lemma sys_write_cases:
  assumes "sys_write fd buf w = Some (n, w')" and "fds w fd = Some f"
    and "files w (of_path f) = Some c"
  shows "n < 0 \<and> wrote fd f c [] w w' \<or>
    (\<exists>k. n = int k \<and> k \<le> length buf \<and> wrote fd f c (take k buf) w w')"
proof -
  from assms(1) obtain x w1 where x: "sys_next w = Some (x, w1)"
    by (auto simp: sys_write_def split: option.splits)
  have w1: "same_os w w1" "later w w1" "world.more w1 = world.more w" "w1 = w\<lparr>script := script w1\<rparr>"
    using x by (auto simp: sys_next_def split: list.splits intro: later_tl)
  show ?thesis
  proof (cases x)
    case (Fail e)
    with assms x have "n = -1" "w' = w1\<lparr>errno := e\<rparr>" by (simp_all add: sys_write_def)
    then show ?thesis using w1 assms(2,3)
      by (intro disjI1 conjI wrote_refl) (auto simp: later_def same_os_def)
  next
    case (Xfer m)
    have "fds w1 fd = Some f" "files w1 (of_path f) = Some c"
      using w1(1) assms(2,3) by (simp_all add: same_os_def)
    with assms(1) x Xfer have "n = int (min (length buf) m)"
      and "wrote fd f c (take (min (length buf) m) buf) w w'"
      using w1 by (auto simp: sys_write_def wrote_def contents_def same_os_def later_def Let_def min_def)
    then show ?thesis by (intro disjI2 exI [of _ "min (length buf) m"]) auto
  qed
qed

lemma write_exact_loop_result:
  assumes run: "write_exact_loop fd buf off rm w = Some (r, w')"
    and "fds w fd = Some f" and "files w (of_path f) = Some c"
    and "off + rm = length buf" and "of_pos f \<le> length c"
  shows "r \<noteq> Undef \<and> (\<exists>k \<le> rm. wrote fd f c (region off k buf) w w' \<and> (r = Ok () \<longrightarrow> k = rm))"
proof -
  let ?P = "\<lambda>fd buf off rm w (r, w'). \<forall>f c. fds w fd = Some f \<longrightarrow> files w (of_path f) = Some c \<longrightarrow>
     off + rm = length buf \<longrightarrow> of_pos f \<le> length c \<longrightarrow>
     r \<noteq> Undef \<and> (\<exists>k \<le> rm. wrote fd f c (region off k buf) w w' \<and> (r = Ok () \<longrightarrow> k = rm))"
  have "?P fd buf off rm w (r, w')"
  proof (rule write_exact_loop.raw_induct [where P = ?P, OF _ run])
    fix g fd buf off rm w y
    assume IH: "\<And>fd buf off rm w y. g fd buf off rm w = Some y \<Longrightarrow> ?P fd buf off rm w y"
      and eq: "(if rm > 0 then
        Option.bind (sys_write fd (region off rm buf) w) (\<lambda>(n, w').
          if n = 0 then g fd buf off rm w'
          else if n < 0 then
            (if errno w' = EINTR then g fd buf off rm w'
             else Some (Throw (Runtime_error ''fd_write_exact: write failed: ''), w'))
          else g fd buf (off + nat n) (rm - nat n) w')
      else Some (Ok (), w)) = Some y"
    obtain r w' where y: "y = (r, w')" by (cases y)
    show "?P fd buf off rm w y" unfolding y case_prod_conv
    proof (intro allI impI)
      fix f c
      assume fd: "fds w fd = Some f" "files w (of_path f) = Some c"
        and len: "off + rm = length buf" and pos: "of_pos f \<le> length c"
      show "r \<noteq> Undef \<and> (\<exists>k\<le>rm. wrote fd f c (region off k buf) w w' \<and> (r = Ok () \<longrightarrow> k = rm))"
      proof (cases "rm = 0")
        case True
        with eq y fd show ?thesis
          by (auto simp: region_def intro!: wrote_refl)
      next
        case False
        then obtain n w1 where n: "sys_write fd (region off rm buf) w = Some (n, w1)"
          using eq by (cases "sys_write fd (region off rm buf) w") auto
        from sys_write_cases [OF n fd] consider
            (fail) "n < 0" "wrote fd f c [] w w1"
          | (some) k where "n = int k" "k \<le> rm" "wrote fd f c (region off k buf) w w1"
          using len by (auto simp: region_def min_def)
        then show ?thesis
        proof cases
          case fail
          have st: "fds w1 fd = Some f" "files w1 (of_path f) = Some c"
            using wrote_lookup [OF fail(2)] by simp_all
          have "(errno w1 = EINTR \<and> g fd buf off rm w1 = Some (r, w')) \<or>
                (r = Throw (Runtime_error ''fd_write_exact: write failed: '') \<and> w' = w1)"
            using eq False n fail(1) y by (auto split: if_splits)
          then show ?thesis
          proof (elim disjE conjE)
            assume "g fd buf off rm w1 = Some (r, w')"
            from IH [OF this] st len pos obtain k where "r \<noteq> Undef" "k \<le> rm"
              "wrote fd f c (region off k buf) w1 w'" "r = Ok () \<longrightarrow> k = rm" by auto
            then show ?thesis using wrote_trans [OF fail(2), of "region off k buf" w'] pos by auto
          next
            assume "r = Throw (Runtime_error ''fd_write_exact: write failed: '')" "w' = w1"
            then show ?thesis using fail(2) by (auto simp: region_def)
          qed
        next
          case some
          have st: "fds w1 fd = Some (f\<lparr>of_pos := of_pos f + k\<rparr>)"
            "files w1 (of_path f) = Some (write_at c (of_pos f) (region off k buf))"
            using wrote_lookup [OF some(3)] some(2) len by (simp_all add: length_region)
          have pos': "of_pos f + k \<le> length (write_at c (of_pos f) (region off k buf))"
            using pos some(2) len
            by (cases "region off k buf = []") (auto simp: length_write_at length_region region_def)
          have "g fd buf (off + k) (rm - k) w1 = Some (r, w')"
            using eq False n some(1) y by (auto split: if_splits)
          from IH [OF this] st pos' len some(2) obtain j where j: "r \<noteq> Undef" "j \<le> rm - k"
            "wrote fd (f\<lparr>of_pos := of_pos f + k\<rparr>) (write_at c (of_pos f) (region off k buf))
               (region (off + k) j buf) w1 w'" "r = Ok () \<longrightarrow> j = rm - k" by auto
          have "wrote fd f c (region off k buf @ region (off + k) j buf) w w'"
            by (rule wrote_trans [OF some(3)]) (use j(3) pos some(2) len in \<open>simp_all add: length_region\<close>)
          then show ?thesis using j some(2)
            by (intro conjI exI [of _ "k + j"]) (auto simp: region_split)
        qed
      qed
    qed
  qed
  with assms show ?thesis by auto
qed

lemma write_exact_result:
  assumes "write_exact fd buf w = Some (r, w')"
    and "fds w fd = Some f" and "files w (of_path f) = Some c" and "of_pos f \<le> length c"
  shows "r \<noteq> Undef" and "\<exists>k \<le> length buf. wrote fd f c (take k buf) w w' \<and> (r = Ok () \<longrightarrow> k = length buf)"
  using write_exact_loop_result [of fd buf 0 "length buf" w r w' f c] assms
  by (auto simp: write_exact_def region_def)

lemma write_exact_Ok:
  assumes "write_exact fd buf w = Some (Ok (), w')"
    and "fds w fd = Some f" and "files w (of_path f) = Some c" and "of_pos f \<le> length c"
  shows "wrote fd f c buf w w'"
  using write_exact_result(2) [OF assms] by auto

text \<open>
  \<open>advanced fd f k w w'\<close>: relative to \<open>w\<close>, the position of \<open>fd\<close> moved by \<open>k\<close> and
  nothing else of the file system changed.
\<close>

definition advanced :: "int \<Rightarrow> ofile \<Rightarrow> nat \<Rightarrow> 'e world_scheme \<Rightarrow> 'e world_scheme \<Rightarrow> bool" where
  "advanced fd f k w w' \<longleftrightarrow>
     files w' = files w \<and> fds w' = (fds w)(fd \<mapsto> f\<lparr>of_pos := of_pos f + k\<rparr>) \<and>
     next_fd w' = next_fd w \<and> bad_closes w' = bad_closes w \<and> world.more w' = world.more w \<and> later w w'"

lemma advanced_refl:
  "fds w fd = Some f \<Longrightarrow> later w w' \<Longrightarrow> same_os w w' \<Longrightarrow> world.more w' = world.more w \<Longrightarrow> advanced fd f 0 w w'"
  by (auto simp: advanced_def same_os_def fun_upd_idem_iff)

lemma advanced_trans:
  assumes "advanced fd f j w w1" and "advanced fd (f\<lparr>of_pos := of_pos f + j\<rparr>) k w1 w2"
  shows "advanced fd f (j + k) w w2"
  using assms by (auto simp: advanced_def add.assoc intro: later_trans)

lemma sys_read_cases:
  assumes "sys_read fd len w = Some ((n, bs), w')" and "fds w fd = Some f"
    and "files w (of_path f) = Some c" and "0 < len"
  shows "n < 0 \<and> advanced fd f 0 w w' \<or>
    n = int (length bs) \<and> bs = region (of_pos f) (length bs) c \<and> length bs \<le> len
      \<and> (bs = [] \<longrightarrow> length c \<le> of_pos f) \<and> (bs \<noteq> [] \<longrightarrow> of_pos f + length bs \<le> length c)
      \<and> advanced fd f (length bs) w w'"
proof -
  from assms(1) obtain x w1 where x: "sys_next w = Some (x, w1)"
    by (auto simp: sys_read_def split: option.splits)
  have w1: "same_os w w1" "later w w1" "world.more w1 = world.more w" "w1 = w\<lparr>script := script w1\<rparr>"
    using x by (auto simp: sys_next_def split: list.splits intro: later_tl)
  show ?thesis
  proof (cases x)
    case (Fail e)
    with assms x have "n = -1" "w' = w1\<lparr>errno := e\<rparr>" by (simp_all add: sys_read_def)
    then show ?thesis using w1 assms(2,3)
      by (intro disjI1 conjI advanced_refl) (auto simp: later_def same_os_def)
  next
    case (Xfer m)
    have st: "fds w1 fd = Some f" "files w1 (of_path f) = Some c"
      using w1(1) assms(2,3) by (simp_all add: same_os_def)
    with assms(1) x Xfer have b: "bs = region (of_pos f) (min (max 1 m) len) c"
      and n: "n = int (length bs)"
      and w': "w' = w1\<lparr>fds := (fds w1)(fd \<mapsto> f\<lparr>of_pos := of_pos f + length bs\<rparr>)\<rparr>"
      by (auto simp: sys_read_def contents_def Let_def)
    have "advanced fd f (length bs) w w'"
      using w1 w' by (auto simp: advanced_def same_os_def later_def)
    moreover have "bs = region (of_pos f) (length bs) c"
      using b by (simp only: region_length_same)
    moreover have "bs = [] \<longrightarrow> length c \<le> of_pos f"
      using b assms(4) by (auto simp: region_def)
    moreover have "bs \<noteq> [] \<longrightarrow> of_pos f + length bs \<le> length c"
      using b by (auto simp: region_def min_def)
    moreover have "length bs \<le> len" using b by (simp add: length_region)
    ultimately show ?thesis using n by blast
  qed
qed

definition read_out :: "u8 list \<Rightarrow> nat \<Rightarrow> nat \<Rightarrow> u8 list \<Rightarrow> nat \<Rightarrow> u8 list res \<Rightarrow> bool" where
  "read_out buf pos rm c k r \<longleftrightarrow>
     (case r of
        Ok bs \<Rightarrow> k = rm \<and> bs = buf @ region pos rm c \<and> (0 < rm \<longrightarrow> pos + rm \<le> length c)
      | Throw e \<Rightarrow> (\<exists>s. e = Runtime_error s)
      | Undef \<Rightarrow> False)"

lemma read_out_simps [simp]:
  "read_out buf pos rm c k (Ok bs) \<longleftrightarrow>
     k = rm \<and> bs = buf @ region pos rm c \<and> (0 < rm \<longrightarrow> pos + rm \<le> length c)"
  "read_out buf pos rm c k (Throw e) \<longleftrightarrow> (\<exists>s. e = Runtime_error s)"
  "\<not> read_out buf pos rm c k Undef"
  by (simp_all add: read_out_def)

lemma read_out_step:
  assumes "read_out (buf @ bs) (pos + length bs) (rm - length bs) c k r"
    and "bs = region pos (length bs) c" and "length bs \<le> rm" and "pos + length bs \<le> length c"
  shows "read_out buf pos rm c (length bs + k) r"
proof -
  have "region pos rm c = bs @ region (pos + length bs) (rm - length bs) c"
    using assms(2,3) region_split [of pos "length bs" "rm - length bs" c] by simp
  then show ?thesis using assms by (cases r) auto
qed

definition read_post :: "int \<Rightarrow> u8 list \<Rightarrow> nat \<Rightarrow> 'e world_scheme \<Rightarrow> u8 list res \<Rightarrow> 'e world_scheme \<Rightarrow> bool" where
  "read_post fd buf rm w r w' \<longleftrightarrow>
     (\<forall>f c. fds w fd = Some f \<longrightarrow> files w (of_path f) = Some c \<longrightarrow>
       (\<exists>k \<le> rm. advanced fd f k w w' \<and> read_out buf (of_pos f) rm c k r))"

lemma read_exact_loop_post:
  assumes run: "read_exact_loop fd buf rm w = Some (r, w')"
  shows "read_post fd buf rm w r w'"
proof -
  let ?P = "\<lambda>fd buf rm w (r, w'). read_post fd buf rm w r w'"
  have "?P fd buf rm w (r, w')"
  proof (rule read_exact_loop.raw_induct [where P = ?P, OF _ run])
    fix g fd buf rm w y
    assume IH: "\<And>fd buf rm w y. g fd buf rm w = Some y \<Longrightarrow> ?P fd buf rm w y"
      and eq: "(if rm > 0 then
        Option.bind (sys_read fd rm w) (\<lambda>((n, bs), w').
          if n = 0 then Some (Throw (Runtime_error ''fd_read_exact: unexpected EOF''), w')
          else if n < 0 then
            (if errno w' = EINTR then g fd buf rm w'
             else Some (Throw (Runtime_error ''fd_read_exact: read failed: ''), w'))
          else g fd (buf @ bs) (rm - nat n) w')
      else Some (Ok buf, w)) = Some y"
    obtain r w' where y: "y = (r, w')" by (cases y)
    show "?P fd buf rm w y" unfolding y case_prod_conv read_post_def
    proof (intro allI impI)
      fix f c
      assume fd: "fds w fd = Some f" "files w (of_path f) = Some c"
      show "\<exists>k \<le> rm. advanced fd f k w w' \<and> read_out buf (of_pos f) rm c k r"
      proof (cases "rm = 0")
        case True
        with eq y fd show ?thesis
          by (auto simp: region_def intro!: advanced_refl)
      next
        case False
        then obtain n bs w1 where n: "sys_read fd rm w = Some ((n, bs), w1)"
          using eq by (cases "sys_read fd rm w") auto
        from sys_read_cases [OF n fd] False consider
            (fail) "n < 0" "advanced fd f 0 w w1"
          | (some) "n = int (length bs)" "bs = region (of_pos f) (length bs) c" "length bs \<le> rm"
              "bs = [] \<longrightarrow> length c \<le> of_pos f" "bs \<noteq> [] \<longrightarrow> of_pos f + length bs \<le> length c"
              "advanced fd f (length bs) w w1" by blast
        then show ?thesis
        proof cases
          case fail
          have st: "fds w1 fd = Some f" "files w1 (of_path f) = Some c"
            using fail(2) fd by (simp_all add: advanced_def)
          have "(errno w1 = EINTR \<and> g fd buf rm w1 = Some (r, w')) \<or>
                (r = Throw (Runtime_error ''fd_read_exact: read failed: '') \<and> w' = w1)"
            using eq False n fail(1) y by (auto split: if_splits)
          then show ?thesis
          proof (elim disjE conjE)
            assume "g fd buf rm w1 = Some (r, w')"
            from IH [OF this] st obtain k where k: "k \<le> rm" "advanced fd f k w1 w'"
              "read_out buf (of_pos f) rm c k r"
              unfolding case_prod_conv read_post_def by blast
            have "advanced fd f (0 + k) w w'"
              by (rule advanced_trans [OF fail(2)]) (use k(2) in simp)
            then show ?thesis using k by auto
          next
            assume "r = Throw (Runtime_error ''fd_read_exact: read failed: '')" "w' = w1"
            then show ?thesis using fail(2) by auto
          qed
        next
          case some
          show ?thesis
          proof (cases "bs = []")
            case True
            then have "r = Throw (Runtime_error ''fd_read_exact: unexpected EOF'')" "w' = w1"
              using eq False n some(1) y by auto
            then show ?thesis using some(6) True by auto
          next
            case ne: False
            have st: "fds w1 fd = Some (f\<lparr>of_pos := of_pos f + length bs\<rparr>)"
              "files w1 (of_path f) = Some c"
              using some(6) fd by (simp_all add: advanced_def)
            have "g fd (buf @ bs) (rm - length bs) w1 = Some (r, w')"
              using eq False n some(1) ne y by (auto split: if_splits)
            from IH [OF this] st obtain k where k: "k \<le> rm - length bs"
              "advanced fd (f\<lparr>of_pos := of_pos f + length bs\<rparr>) k w1 w'"
              "read_out (buf @ bs) (of_pos f + length bs) (rm - length bs) c k r"
              unfolding case_prod_conv read_post_def by auto
            have "advanced fd f (length bs + k) w w'"
              by (rule advanced_trans [OF some(6) k(2)])
            moreover have "read_out buf (of_pos f) rm c (length bs + k) r"
              by (rule read_out_step [OF k(3) some(2,3)]) (use some(5) ne in simp)
            ultimately show ?thesis using k(1) some(3)
              by (intro exI [of _ "length bs + k"]) auto
          qed
        qed
      qed
    qed
  qed
  then show ?thesis by simp
qed

lemma read_exact_result:
  assumes "read_exact fd len w = Some (r, w')"
    and "fds w fd = Some f" and "files w (of_path f) = Some c"
  shows "\<exists>k \<le> len. advanced fd f k w w' \<and> read_out [] (of_pos f) len c k r"
  using read_exact_loop_post [of fd "[]" len w r w'] assms by (simp add: read_exact_def read_post_def)

lemma read_exact_Ok:
  assumes "read_exact fd len w = Some (Ok bs, w')"
    and "fds w fd = Some f" and "files w (of_path f) = Some c"
  shows "advanced fd f len w w'" and "bs = region (of_pos f) len c"
    and "0 < len \<Longrightarrow> of_pos f + len \<le> length c"
  using read_exact_result [OF assms] by auto

subsection \<open>Progress in a fair environment\<close>

lemma sys_write_live:
  assumes "fair w" and "0 < fuel w" and "fds w fd = Some f" and "buf \<noteq> []"
  shows "\<exists>k w'. sys_write fd buf w = Some (int k, w') \<and> 0 < k \<and> k \<le> length buf
           \<and> fair w' \<and> fuel w' = fuel w - 1 \<and> (\<exists>g. fds w' fd = Some g)"
proof -
  obtain n w1 where 1: "sys_next w = Some (Xfer n, w1)" "0 < n" "fair w1" "fuel w1 = fuel w - 1"
    "same_os w w1" using fair_next [OF assms(1,2)] by metis
  have "fds w1 fd = Some f" using 1(5) assms(3) by (simp add: same_os_def)
  with 1 assms(4) show ?thesis
    by (intro exI [of _ "min (length buf) n"])
      (auto simp: sys_write_def fair_def fuel_def Let_def min_def)
qed

lemma write_exact_loop_live:
  assumes "fair w" and "rm \<le> fuel w" and "fds w fd = Some f" and "off + rm = length buf"
  shows "\<exists>w'. write_exact_loop fd buf off rm w = Some (Ok (), w') \<and> fuel w - rm \<le> fuel w'"
  using assms
proof (induction rm arbitrary: off w f rule: less_induct)
  case (less rm)
  show ?case
  proof (cases "rm = 0")
    case True
    then show ?thesis by (simp add: write_exact_loop.simps)
  next
    case False
    with less.prems have "region off rm buf \<noteq> []" "0 < fuel w" "length (region off rm buf) = rm"
      by (auto simp: region_def)
    with sys_write_live [OF less.prems(1) _ less.prems(3), of "region off rm buf"]
    obtain k w1 g where k: "sys_write fd (region off rm buf) w = Some (int k, w1)" "0 < k" "k \<le> rm"
      "fair w1" "fuel w1 = fuel w - 1" "fds w1 fd = Some g" by auto
    have b: "rm - k \<le> fuel w1" "rm - k < rm" using k less.prems(2) by linarith+
    from less.IH [of "rm - k" w1 g "off + k"] k b less.prems(4)
    obtain w2 where "write_exact_loop fd buf (off + k) (rm - k) w1 = Some (Ok (), w2)"
      "fuel w1 - (rm - k) \<le> fuel w2" by fastforce
    then show ?thesis using False k
      by (intro exI [of _ w2]) (auto simp: write_exact_loop.simps [of fd buf off rm w])
  qed
qed

lemma write_exact_live:
  assumes "fair w" and "length buf \<le> fuel w" and "fds w fd = Some f"
  shows "\<exists>w'. write_exact fd buf w = Some (Ok (), w') \<and> fuel w - length buf \<le> fuel w'"
  using write_exact_loop_live [OF assms(1,2,3), of 0 buf] by (simp add: write_exact_def)

lemma sys_read_live:
  assumes "fair w" and "0 < fuel w" and "fds w fd = Some f" and "files w (of_path f) = Some c"
    and "0 < len" and "of_pos f < length c"
  shows "\<exists>bs w'. sys_read fd len w = Some ((int (length bs), bs), w') \<and> bs \<noteq> [] \<and> length bs \<le> len
           \<and> fair w' \<and> fuel w' = fuel w - 1 \<and> fds w' fd = Some (f\<lparr>of_pos := of_pos f + length bs\<rparr>)
           \<and> files w' (of_path f) = Some c"
proof -
  obtain n w1 where 1: "sys_next w = Some (Xfer n, w1)" "0 < n" "fair w1" "fuel w1 = fuel w - 1"
    "same_os w w1" using fair_next [OF assms(1,2)] by metis
  have "fds w1 fd = Some f" "files w1 (of_path f) = Some c"
    using 1(5) assms(3,4) by (simp_all add: same_os_def)
  with 1 assms(5,6) show ?thesis
    by (intro exI [of _ "region (of_pos f) (min (max 1 n) len) c"])
      (auto simp: sys_read_def fair_def fuel_def Let_def contents_def length_region region_def)
qed

lemma sys_read_eof:
  assumes "fair w" and "0 < fuel w" and "fds w fd = Some f" and "files w (of_path f) = Some c"
    and "length c \<le> of_pos f"
  shows "\<exists>w'. sys_read fd len w = Some ((0, []), w') \<and> fuel w' = fuel w - 1"
proof -
  obtain n w1 where 1: "sys_next w = Some (Xfer n, w1)" "fuel w1 = fuel w - 1" "same_os w w1"
    using fair_next [OF assms(1,2)] by metis
  have "fds w1 fd = Some f" "files w1 (of_path f) = Some c"
    using 1(3) assms(3,4) by (simp_all add: same_os_def)
  with 1 assms(5) show ?thesis
    by (auto simp: sys_read_def fuel_def Let_def contents_def region_def)
qed

text \<open>A read returns; it succeeds when the file is long enough.\<close>

lemma read_exact_loop_live:
  assumes "fair w" and "Suc rm \<le> fuel w" and "fds w fd = Some f" and "files w (of_path f) = Some c"
  shows "\<exists>r w'. read_exact_loop fd buf rm w = Some (r, w') \<and> fuel w - Suc rm \<le> fuel w' \<and>
    (of_pos f + rm \<le> length c \<longrightarrow> (\<exists>bs. r = Ok bs))"
  using assms
proof (induction rm arbitrary: buf w f rule: less_induct)
  case (less rm)
  show ?case
  proof (cases "rm = 0")
    case True
    then show ?thesis by (simp add: read_exact_loop.simps)
  next
    case False
    show ?thesis
    proof (cases "of_pos f < length c")
      case True
      with sys_read_live [OF less.prems(1) _ less.prems(3,4), of rm] less.prems False
      obtain bs w1 where k: "sys_read fd rm w = Some ((int (length bs), bs), w1)" "bs \<noteq> []"
        "length bs \<le> rm" "fair w1" "fuel w1 = fuel w - 1"
        "fds w1 fd = Some (f\<lparr>of_pos := of_pos f + length bs\<rparr>)" "files w1 (of_path f) = Some c" by auto
      have l: "0 < length bs" using k(2) by simp
      have b: "Suc (rm - length bs) \<le> fuel w1" "rm - length bs < rm" using k(3,5) l less.prems(2) by linarith+
      from less.IH [of "rm - length bs" w1 "f\<lparr>of_pos := of_pos f + length bs\<rparr>" "buf @ bs"] k b
      obtain r w2 where r: "read_exact_loop fd (buf @ bs) (rm - length bs) w1 = Some (r, w2)"
        "fuel w1 - Suc (rm - length bs) \<le> fuel w2"
        "of_pos f + length bs + (rm - length bs) \<le> length c \<longrightarrow> (\<exists>bs. r = Ok bs)" by auto
      have "fuel w - Suc rm \<le> fuel w2" using k(3,5) l r(2) by linarith
      then show ?thesis using False k r
        by (intro exI [of _ r] exI [of _ w2]) (auto simp: read_exact_loop.simps [of fd buf rm w])
    next
      case eof: False
      with sys_read_eof [OF less.prems(1) _ less.prems(3,4), of rm] less.prems(2)
      obtain w1 where "sys_read fd rm w = Some ((0, []), w1)" "fuel w1 = fuel w - 1" by auto
      then show ?thesis using False eof by (auto simp: read_exact_loop.simps [of fd buf rm w])
    qed
  qed
qed

lemma read_exact_live:
  assumes "fair w" and "Suc len \<le> fuel w" and "fds w fd = Some f" and "files w (of_path f) = Some c"
  shows "\<exists>r w'. read_exact fd len w = Some (r, w') \<and> fuel w - Suc len \<le> fuel w' \<and>
    (of_pos f + len \<le> length c \<longrightarrow> (\<exists>bs. r = Ok bs))"
  using read_exact_loop_live [OF assms] by (simp add: read_exact_def)

lemma write_exact_throws:
  assumes "write_exact fd buf w = Some (Throw e, w')"
  shows "\<exists>s. e = Runtime_error s"
proof -
  let ?P = "\<lambda>(fd :: int) (buf :: u8 list) (off :: nat) (rm :: nat) (w :: 'a world_scheme)
     (r :: unit res, w' :: 'a world_scheme). \<forall>e. r = Throw e \<longrightarrow> (\<exists>s. e = Runtime_error s)"
  have "?P fd buf 0 (length buf) w (Throw e, w')"
  proof (rule write_exact_loop.raw_induct [where P = ?P, OF _ assms [unfolded write_exact_def]])
    fix g fd buf off rm w y
    assume IH: "\<And>fd buf off rm w y. g fd buf off rm w = Some y \<Longrightarrow> ?P fd buf off rm w y"
      and eq: "(if rm > 0 then
        Option.bind (sys_write fd (region off rm buf) w) (\<lambda>(n, w').
          if n = 0 then g fd buf off rm w'
          else if n < 0 then
            (if errno w' = EINTR then g fd buf off rm w'
             else Some (Throw (Runtime_error ''fd_write_exact: write failed: ''), w'))
          else g fd buf (off + nat n) (rm - nat n) w')
      else Some (Ok (), w)) = Some y"
    show "?P fd buf off rm w y"
      using eq by (auto dest!: IH split: if_splits simp: bind_eq_Some_conv)
  qed
  then show ?thesis by simp
qed

section \<open>Rules for programs\<close>

text \<open>
  \<open>ready b w n\<close>: either nothing is promised of the environment (\<open>b\<close>), or it is fair and
  still answers \<open>n\<close> calls. The rules below say what each call does for either kind of
  environment, so one proof over \<open>wp b\<close> gives partial correctness in every environment
  and, with \<open>b\<close> false, success in a fair one.

  \<open>tidy w w'\<close>: every descriptor opened since was closed again, exactly once.
  \<open>holds fd f w w'\<close>: the same, but for \<open>fd\<close>, which is open as \<open>f\<close>.
\<close>

definition ready :: "bool \<Rightarrow> 'e world_scheme \<Rightarrow> nat \<Rightarrow> bool" where
  "ready b w n \<longleftrightarrow> b \<or> (fair w \<and> n \<le> fuel w)"

definition wf_fds :: "'e world_scheme \<Rightarrow> bool" where
  "wf_fds w \<longleftrightarrow> 0 \<le> next_fd w \<and> (\<forall>fd \<ge> next_fd w. fds w fd = None)"

definition tidy :: "'e world_scheme \<Rightarrow> 'e world_scheme \<Rightarrow> bool" where
  "tidy w w' \<longleftrightarrow> fds w' = fds w \<and> next_fd w \<le> next_fd w' \<and> bad_closes w' = bad_closes w \<and> later w w'"

definition holds :: "int \<Rightarrow> ofile \<Rightarrow> 'e world_scheme \<Rightarrow> 'e world_scheme \<Rightarrow> bool" where
  "holds fd f w w' \<longleftrightarrow> 0 \<le> fd \<and> fds w fd = None \<and> fds w' = (fds w)(fd \<mapsto> f) \<and> next_fd w \<le> next_fd w' \<and>
     fd < next_fd w' \<and> bad_closes w' = bad_closes w \<and> later w w'"

lemma ready_True [simp]: "ready True w n"
  by (simp add: ready_def)

lemma ready_mono: "ready b w n \<Longrightarrow> m \<le> n \<Longrightarrow> ready b w m"
  by (auto simp: ready_def)

lemma ready_step: "ready b w (k + n) \<Longrightarrow> later w w' \<Longrightarrow> fuel w - k \<le> fuel w' \<Longrightarrow> ready b w' n"
  by (auto simp: ready_def intro: fair_later)

lemma tidy_refl [simp]: "tidy w w"
  by (simp add: tidy_def)

lemma tidy_trans: "tidy w w1 \<Longrightarrow> tidy w1 w2 \<Longrightarrow> tidy w w2"
  by (auto simp: tidy_def intro: later_trans)

lemma tidy_same_os: "same_os w w' \<Longrightarrow> later w w' \<Longrightarrow> tidy w w'"
  by (simp add: tidy_def same_os_def)

lemma wf_fds_tidy: "wf_fds w \<Longrightarrow> tidy w w' \<Longrightarrow> wf_fds w'"
  by (auto simp: wf_fds_def tidy_def)

lemma holds_tidy: "holds fd f w w1 \<Longrightarrow> tidy w1 w2 \<Longrightarrow> holds fd f w w2"
  by (auto simp: holds_def tidy_def intro: later_trans)

lemma tidy_holds: "tidy w w1 \<Longrightarrow> holds fd f w1 w2 \<Longrightarrow> holds fd f w w2"
  by (auto simp: holds_def tidy_def intro: later_trans)

lemma holds_wf: "wf_fds w \<Longrightarrow> holds fd f w w' \<Longrightarrow> wf_fds w'"
  by (auto simp: wf_fds_def holds_def)

lemma holds_lookup: "holds fd f w w' \<Longrightarrow> fds w' fd = Some f \<and> 0 \<le> fd"
  by (simp add: holds_def)

lemma holds_close:
  "holds fd f w w' \<Longrightarrow> tidy w (sys_close fd w')"
  by (auto simp: holds_def tidy_def sys_close_def later_def)

lemma sys_close_simps [simp]:
  "files (sys_close fd w) = files w" "world.more (sys_close fd w) = world.more w"
  "script (sys_close fd w) = script w"
  by (simp_all add: sys_close_def split: option.splits)

lemma ready_close [simp]: "ready b (sys_close fd w) n = ready b w n"
  by (simp add: ready_def fair_def fuel_def)

lemma sys_next_cases:
  assumes "ready b w (Suc n)"
  obtains (none) "sys_next w = None" "b"
  | (fail) e w1 where "sys_next w = Some (Fail e, w1)" "b" "same_os w w1" "world.more w1 = world.more w" "later w w1"
  | (xfer) k w1 where "sys_next w = Some (Xfer k, w1)" "same_os w w1" "world.more w1 = world.more w"
      "later w w1" "ready b w1 n" "b \<or> 0 < k"
proof (cases "script w")
  case Nil
  then show ?thesis using assms none by (auto simp: sys_next_def ready_def fuel_def)
next
  case (Cons x xs)
  then have x: "sys_next w = Some (x, w\<lparr>script := xs\<rparr>)" "later w (w\<lparr>script := xs\<rparr>)"
    by (auto simp: sys_next_def intro: later_tl)
  have o: "same_os w (w\<lparr>script := xs\<rparr>)" "world.more (w\<lparr>script := xs\<rparr>) = world.more w"
    by simp_all
  show ?thesis
  proof (cases x)
    case (Xfer k)
    have "ready b (w\<lparr>script := xs\<rparr>) n" "b \<or> 0 < k"
      using assms Cons Xfer by (auto simp: ready_def fair_def fuel_def)
    then show ?thesis using xfer x(1) x(2) o Xfer by simp
  next
    case (Fail e)
    have b using assms Cons Fail by (auto simp: ready_def fair_def)
    then show ?thesis using fail x o Fail by simp
  qed
qed

lemma wp_open:
  assumes "wf_fds w" and "ready b w (Suc n)"
    and fail: "\<And>w'. b \<or> (\<not> creat \<and> files w p = None) \<Longrightarrow> tidy w w' \<Longrightarrow> files w' = files w \<Longrightarrow>
      world.more w' = world.more w \<Longrightarrow> ready b w' n \<Longrightarrow> Q (Ok (-1)) w'"
    and ok: "\<And>w' fd. creat \<or> files w p \<noteq> None \<Longrightarrow> holds fd \<lparr>of_path = p, of_pos = 0\<rparr> w w' \<Longrightarrow>
      files w' = (files w)(p \<mapsto> (if trunc then [] else contents w p)) \<Longrightarrow>
      world.more w' = world.more w \<Longrightarrow> ready b w' n \<Longrightarrow> Q (Ok fd) w'"
  shows "wp b (sys (sys_open p creat trunc)) Q w"
proof (rule sys_next_cases [OF assms(2)])
  assume "sys_next w = None" "b"
  then show ?thesis by (simp add: wp_def sys_def sys_open_def)
next
  fix e w1 assume *: "sys_next w = Some (Fail e, w1)" "b" "same_os w w1" "world.more w1 = world.more w" "later w w1"
  have "Q (Ok (-1)) (w1\<lparr>errno := e\<rparr>)"
    by (rule fail) (use * in \<open>auto simp: tidy_def ready_def later_def same_os_def\<close>)
  then show ?thesis using * by (simp add: wp_def sys_def sys_open_def)
next
  fix k w1 assume *: "sys_next w = Some (Xfer k, w1)" "same_os w w1" "world.more w1 = world.more w"
    "later w w1" "ready b w1 n"
  have f: "files w1 p = files w p" "contents w1 p = contents w p" "next_fd w1 = next_fd w"
    using *(2) contents_same_os by (auto simp: same_os_def)
  show ?thesis
  proof (cases "files w p = None \<and> \<not> creat")
    case True
    have "Q (Ok (-1)) (w1\<lparr>errno := ENOENT\<rparr>)"
      by (rule fail) (use True * in \<open>auto simp: tidy_def ready_def later_def same_os_def fair_def fuel_def\<close>)
    then show ?thesis using * True f by (simp add: wp_def sys_def sys_open_def)
  next
    case False
    let ?w' = "w1\<lparr>files := (files w1)(p \<mapsto> (if trunc then [] else contents w1 p)),
      fds := (fds w1)(next_fd w1 \<mapsto> \<lparr>of_path = p, of_pos = 0\<rparr>), next_fd := next_fd w1 + 1\<rparr>"
    have "Q (Ok (next_fd w)) ?w'"
      by (rule ok) (use False * f assms(1) in
        \<open>auto simp: holds_def ready_def later_def same_os_def fair_def fuel_def wf_fds_def\<close>)
    then show ?thesis using * False f by (auto simp: wp_def sys_def sys_open_def)
  qed
qed

lemma wp_stat_size:
  assumes "ready b w (Suc n)"
    and fail: "\<And>w'. b \<or> files w p = None \<Longrightarrow> same_os w w' \<Longrightarrow> later w w' \<Longrightarrow>
      world.more w' = world.more w \<Longrightarrow> ready b w' n \<Longrightarrow> Q (Ok None) w'"
    and ok: "\<And>w' c. files w p = Some c \<Longrightarrow> same_os w w' \<Longrightarrow> later w w' \<Longrightarrow>
      world.more w' = world.more w \<Longrightarrow> ready b w' n \<Longrightarrow> Q (Ok (Some (length c))) w'"
  shows "wp b (sys (sys_stat_size p)) Q w"
proof (rule sys_next_cases [OF assms(1)])
  assume "sys_next w = None" "b"
  then show ?thesis by (simp add: wp_def sys_def sys_stat_size_def)
next
  fix e w1 assume *: "sys_next w = Some (Fail e, w1)" "b" "same_os w w1" "world.more w1 = world.more w" "later w w1"
  have "Q (Ok None) (w1\<lparr>errno := e\<rparr>)"
    by (rule fail) (use * in \<open>auto simp: ready_def later_def same_os_def\<close>)
  then show ?thesis using * by (simp add: wp_def sys_def sys_stat_size_def)
next
  fix k w1 assume *: "sys_next w = Some (Xfer k, w1)" "same_os w w1" "world.more w1 = world.more w"
    "later w w1" "ready b w1 n"
  show ?thesis
  proof (cases "files w p")
    case None
    have "Q (Ok None) (w1\<lparr>errno := ENOENT\<rparr>)"
      by (rule fail) (use None * in \<open>auto simp: ready_def later_def same_os_def fair_def fuel_def\<close>)
    then show ?thesis using * None by (simp add: wp_def sys_def sys_stat_size_def same_os_def)
  next
    case (Some c)
    have "Q (Ok (Some (length c))) w1" by (rule ok [OF Some]) (use * in simp_all)
    then show ?thesis using * Some by (simp add: wp_def sys_def sys_stat_size_def same_os_def)
  qed
qed

lemma wp_mmap:
  assumes "ready b w (Suc n)" and fd: "fds w fd = Some f" "files w (of_path f) = Some c" and "0 < len"
    and fail: "\<And>w'. b \<Longrightarrow> same_os w w' \<Longrightarrow> later w w' \<Longrightarrow> world.more w' = world.more w \<Longrightarrow> Q (Ok None) w'"
    and ok: "\<And>w'. same_os w w' \<Longrightarrow> later w w' \<Longrightarrow> world.more w' = world.more w \<Longrightarrow> ready b w' n \<Longrightarrow>
      Q (Ok (Some (region off len c))) w'"
  shows "wp b (sys (sys_mmap fd off len)) Q w"
proof (rule sys_next_cases [OF assms(1)])
  assume "sys_next w = None" "b"
  then show ?thesis by (simp add: wp_def sys_def sys_mmap_def)
next
  fix e w1 assume *: "sys_next w = Some (Fail e, w1)" "b" "same_os w w1" "world.more w1 = world.more w" "later w w1"
  have "Q (Ok None) (w1\<lparr>errno := e\<rparr>)"
    by (rule fail) (use * in \<open>auto simp: later_def same_os_def\<close>)
  then show ?thesis using * by (simp add: wp_def sys_def sys_mmap_def)
next
  fix k w1 assume *: "sys_next w = Some (Xfer k, w1)" "same_os w w1" "world.more w1 = world.more w"
    "later w w1" "ready b w1 n"
  then have "contents w1 (of_path f) = c" "fds w1 fd = Some f"
    using contents_same_os [OF *(2)] fd by (simp_all add: contents_def same_os_def)
  moreover have "Q (Ok (Some (region off len c))) w1" by (rule ok) (use * in simp_all)
  ultimately show ?thesis using * assms(4) by (simp add: wp_def sys_def sys_mmap_def)
qed

lemma wp_write_exact:
  assumes h: "holds fd f w0 w" and c: "files w (of_path f) = Some c" and "of_pos f \<le> length c"
    and rd: "ready b w (length buf + n)"
    and ok: "\<And>w'. holds fd (f\<lparr>of_pos := of_pos f + length buf\<rparr>) w0 w' \<Longrightarrow>
      files w' = (files w)(of_path f \<mapsto> write_at c (of_pos f) buf) \<Longrightarrow>
      world.more w' = world.more w \<Longrightarrow> ready b w' n \<Longrightarrow> Q (Ok ()) w'"
    and fail: "\<And>w' s k. b \<Longrightarrow> k \<le> length buf \<Longrightarrow> holds fd (f\<lparr>of_pos := of_pos f + k\<rparr>) w0 w' \<Longrightarrow>
      files w' = (files w)(of_path f \<mapsto> write_at c (of_pos f) (take k buf)) \<Longrightarrow>
      world.more w' = world.more w \<Longrightarrow> Q (Throw (Runtime_error s)) w'"
  shows "wp b (write_exact fd buf) Q w"
proof -
  have fd: "fds w fd = Some f" using h by (simp add: holds_def)
  have out: "Q r w'" if run: "write_exact fd buf w = Some (r, w')"
    and nb: "\<not> b \<longrightarrow> r = Ok () \<and> fuel w - length buf \<le> fuel w'" for r w'
  proof -
    note R = write_exact_result [OF run fd c assms(3)]
    obtain k where k: "k \<le> length buf" "wrote fd f c (take k buf) w w'" "r = Ok () \<longrightarrow> k = length buf"
      using R(2) by blast
    have hk: "holds fd (f\<lparr>of_pos := of_pos f + k\<rparr>) w0 w'"
      using h k(1,2) by (auto simp: holds_def wrote_def min_def intro: later_trans)
    have "later w w'" using k(2) by (simp add: wrote_def)
    show ?thesis
    proof (cases r)
      case (Ok u)
      then have "k = length buf" using k(3) by simp
      moreover have "ready b w' n"
        using ready_step [OF rd \<open>later w w'\<close>] nb by (cases b) auto
      ultimately show ?thesis unfolding Ok using k(2) hk by (auto intro!: ok simp: wrote_def)
    next
      case (Throw e)
      then have b using nb by auto
      moreover have "\<exists>s. e = Runtime_error s" using write_exact_throws [OF run [unfolded Throw]] .
      ultimately show ?thesis using Throw k hk by (auto intro!: fail simp: wrote_def)
    qed (use R(1) in simp)
  qed
  show ?thesis
  proof (cases b)
    case True
    then show ?thesis by (auto intro!: wpI out)
  next
    case False
    then have "fair w" "length buf \<le> fuel w" using rd by (auto simp: ready_def)
    from write_exact_live [OF this fd] obtain w' where
      "write_exact fd buf w = Some (Ok (), w')" "fuel w - length buf \<le> fuel w'" by blast
    then show ?thesis using out by (simp add: wp_def)
  qed
qed

text \<open>Writing at the end of a file, the position of a descriptor that created it.\<close>

definition at_end :: "int \<Rightarrow> string \<Rightarrow> u8 list \<Rightarrow> 'e world_scheme \<Rightarrow> 'e world_scheme \<Rightarrow> bool" where
  "at_end fd p c w0 w \<longleftrightarrow> holds fd \<lparr>of_path = p, of_pos = length c\<rparr> w0 w \<and>
     files w = (files w0)(p \<mapsto> c) \<and> world.more w = world.more w0"

lemma at_end_close:
  "at_end fd p c w0 w \<Longrightarrow> tidy w0 (sys_close fd w) \<and> files (sys_close fd w) = (files w0)(p \<mapsto> c) \<and>
     world.more (sys_close fd w) = world.more w0"
  by (auto simp: at_end_def holds_close)

lemma wp_append:
  assumes e: "at_end fd p c w0 w" and rd: "ready b w (length buf + n)"
    and ok: "\<And>w'. at_end fd p (c @ buf) w0 w' \<Longrightarrow> ready b w' n \<Longrightarrow> Q (Ok ()) w'"
    and fail: "\<And>w' s. b \<Longrightarrow> tidy w0 (sys_close fd w') \<Longrightarrow> (\<And>q. q \<noteq> p \<Longrightarrow> files w' q = files w0 q) \<Longrightarrow>
      world.more w' = world.more w0 \<Longrightarrow> Q (Throw (Runtime_error s)) w'"
  shows "wp b (write_exact fd buf) Q w"
proof (rule wp_write_exact [where c = c and n = n and f = "\<lparr>of_path = p, of_pos = length c\<rparr>" and ?w0.0 = w0], goal_cases)
  case 1
  then show ?case using e by (simp add: at_end_def)
next
  case (5 w')
  have "write_at c (length c) buf = c @ buf" by (cases "buf = []") (simp_all add: write_at_def)
  with 5 e show ?case by (intro ok) (auto simp: at_end_def)
next
  case (6 w' s k)
  then show ?case using e by (intro fail) (auto simp: at_end_def dest: holds_close)
qed (use e rd in \<open>simp_all add: at_end_def\<close>)

lemma wp_append_all:
  assumes "at_end fd p c w0 w" and "ready b w (length (concat bufs) + n)"
    and ok: "\<And>w'. at_end fd p (c @ concat bufs) w0 w' \<Longrightarrow> ready b w' n \<Longrightarrow> Q (Ok ()) w'"
    and fail: "\<And>w' s. b \<Longrightarrow> tidy w0 (sys_close fd w') \<Longrightarrow> (\<And>q. q \<noteq> p \<Longrightarrow> files w' q = files w0 q) \<Longrightarrow>
      world.more w' = world.more w0 \<Longrightarrow> Q (Throw (Runtime_error s)) w'"
  shows "wp b (io_for bufs (write_exact fd)) Q w"
  using assms(1,2) ok
proof (induction bufs arbitrary: c w)
  case Nil
  then show ?case by (simp add: wp_return)
next
  case (Cons buf bufs)
  show ?case unfolding io_for.simps wp_bind
  proof (rule wp_append [OF Cons.prems(1), where n = "length (concat bufs) + n"], goal_cases)
    case 1
    then show ?case using Cons.prems(2) by (simp add: add.assoc)
  next
    case (2 w')
    have "wp b (io_for bufs (write_exact fd)) Q w'"
      by (rule Cons.IH [OF 2]) (use Cons.prems(3) in simp)
    then show ?case by simp
  next
    case (3 w' s)
    then show ?case using fail by simp
  qed
qed

lemma wp_read_exact:
  assumes h: "holds fd f w0 w" and c: "files w (of_path f) = Some c"
    and rd: "ready b w (Suc len + n)"
    and ok: "\<And>w'. holds fd (f\<lparr>of_pos := of_pos f + len\<rparr>) w0 w' \<Longrightarrow> files w' = files w \<Longrightarrow>
      world.more w' = world.more w \<Longrightarrow> ready b w' n \<Longrightarrow> 0 < len \<longrightarrow> of_pos f + len \<le> length c \<Longrightarrow>
      Q (Ok (region (of_pos f) len c)) w'"
    and fail: "\<And>w' s k. b \<or> length c < of_pos f + len \<Longrightarrow> holds fd (f\<lparr>of_pos := of_pos f + k\<rparr>) w0 w' \<Longrightarrow>
      files w' = files w \<Longrightarrow> world.more w' = world.more w \<Longrightarrow> ready b w' n \<Longrightarrow> Q (Throw (Runtime_error s)) w'"
  shows "wp b (read_exact fd len) Q w"
proof -
  have fd: "fds w fd = Some f" using h by (simp add: holds_def)
  have out: "Q r w'" if run: "read_exact fd len w = Some (r, w')"
    and nb: "\<not> b \<longrightarrow> fuel w - Suc len \<le> fuel w' \<and> (of_pos f + len \<le> length c \<longrightarrow> (\<exists>bs. r = Ok bs))" for r w'
  proof -
    obtain k where k: "k \<le> len" "advanced fd f k w w'" "read_out [] (of_pos f) len c k r"
      using read_exact_result [OF run fd c] by blast
    have hk: "holds fd (f\<lparr>of_pos := of_pos f + k\<rparr>) w0 w'"
      using h k(2) by (auto simp: holds_def advanced_def intro: later_trans)
    have "later w w'" using k(2) by (simp add: advanced_def)
    then have rd': "ready b w' n" using ready_step [OF rd] nb by (cases b) auto
    show ?thesis
    proof (cases r)
      case (Ok bs)
      then have "k = len" "bs = region (of_pos f) len c" "0 < len \<longrightarrow> of_pos f + len \<le> length c"
        using k(3) by simp_all
      then show ?thesis unfolding Ok using k(2) hk rd' by (simp add: ok advanced_def)
    next
      case (Throw e)
      then obtain s where "e = Runtime_error s" "b \<or> length c < of_pos f + len"
        using k(3) nb by (auto simp: not_le)
      then show ?thesis unfolding Throw using k(2) hk rd' by (simp add: fail [of k] advanced_def)
    qed (use k(3) in simp)
  qed
  show ?thesis
  proof (cases b)
    case True
    then show ?thesis by (auto intro!: wpI out)
  next
    case False
    then have "fair w" "Suc len \<le> fuel w" using rd by (auto simp: ready_def)
    from read_exact_live [OF this fd c] out show ?thesis by (fastforce simp: wp_def)
  qed
qed

text \<open>\<^verbatim>\<open>::close(fd)\<close> as a statement.\<close>

definition io_close :: "int \<Rightarrow> ('e world_scheme, unit) io" where
  "io_close fd w = Some (Ok (), sys_close fd w)"

lemma wp_close [wp_simps]: "wp b (io_close fd) Q w = Q (Ok ()) (sys_close fd w)"
  by (simp add: wp_def io_close_def)

section \<open>Owned descriptors\<close>

text \<open>
  \<^verbatim>\<open>SocketFd\<close>: construction refuses a negative descriptor, the destructor closes. A
  body that owns \<open>fd\<close> is run by \<open>with_fd\<close>, which closes it on every exit.
\<close>

definition SocketFd :: "int \<Rightarrow> int res" where
  "SocketFd fd = (if fd < 0 then Throw (Runtime_error ''invalid socket fd'') else Ok fd)"

definition with_fd :: "int \<Rightarrow> ('e world_scheme, 'a) io \<Rightarrow> ('e world_scheme, 'a) io" where
  "with_fd fd body = io_finally body (\<lambda>w. if fd \<ge> 0 then sys_close fd w else w)"

lemma SocketFd_Ok_iff [simp]: "SocketFd fd = Ok x \<longleftrightarrow> 0 \<le> fd \<and> x = fd"
  by (auto simp: SocketFd_def)

lemma SocketFd_not_Undef [simp]: "SocketFd fd \<noteq> Undef"
  by (simp add: SocketFd_def)

section \<open>A sample environment\<close>

text \<open>
  For the witnesses: nothing open, and every call succeeds and transfers one byte at a time.
\<close>

definition long_script :: "sysret list" where
  "long_script = replicate (2 ^ 27) (Xfer 1)"

lemma long_script: "length long_script = 2 ^ 27" "x \<in> set long_script \<Longrightarrow> x = Xfer 1"
  unfolding long_script_def by (rule length_replicate) (simp only: in_set_replicate)

definition sample_world :: "(string \<Rightarrow> u8 list option) \<Rightarrow> world" where
  "sample_world fs = \<lparr>files = fs, fds = Map.empty, next_fd = 3, bad_closes = 0, script = long_script, errno = 0\<rparr>"

lemma sample_world [simp]:
  "wf_fds (sample_world fs)" "files (sample_world fs) = fs" "fair (sample_world fs)" "fuel (sample_world fs) = 2 ^ 27"
  by (auto simp: sample_world_def wf_fds_def fair_def fuel_def long_script(1) dest: long_script(2))

lemma sample_ready: "n \<le> 2 ^ 27 \<Longrightarrow> ready b (sample_world fs) n"
  by (simp add: ready_def)

end
