(* ===== verification/Transport_Iface.thy ===== *)
theory Transport_Iface
  imports Embr_Sys
begin

text \<open>
  The abstract class \<^verbatim>\<open>Transport\<close> of \<^verbatim>\<open>transport/transport.hpp\<close> as a record of its four
  virtual functions, and \<^verbatim>\<open>send_exact\<close>, \<^verbatim>\<open>recv_exact\<close> over it. \<^verbatim>\<open>send\<close> and \<^verbatim>\<open>recv\<close>
  return the \<^verbatim>\<open>ssize_t\<close> of the code as an \<open>int\<close>, with \<^verbatim>\<open>errno\<close> in the world; \<^verbatim>\<open>recv\<close>
  also returns what it stored in the buffer.

  The locale \<open>stream_transport\<close> states what a connection promises its users: bytes are taken
  and delivered in order, each once. \<open>reliable_transport\<close> adds that the data-plane calls move
  exactly a file range. \<open>inbox\<close> is everything the peer's bytes still hold for this side, received
  or yet to arrive; \<open>outbox\<close> everything handed over for sending so far.
  \<open>live_transport\<close> adds that calls succeed in a fair environment.
\<close>

record 'w transport =
  t_send :: "u8 list \<Rightarrow> 'w \<Rightarrow> (int res \<times> 'w) option"
  t_recv :: "nat \<Rightarrow> 'w \<Rightarrow> ((int \<times> u8 list) res \<times> 'w) option"
  t_send_file :: "int \<Rightarrow> nat \<Rightarrow> nat \<Rightarrow> 'w \<Rightarrow> (unit res \<times> 'w) option"
  t_recv_file :: "int \<Rightarrow> nat \<Rightarrow> nat \<Rightarrow> 'w \<Rightarrow> (unit res \<times> 'w) option"

section \<open>Exact I/O over a transport\<close>

partial_function (option) send_exact_loop ::
  "'e world_scheme transport \<Rightarrow> u8 list \<Rightarrow> nat \<Rightarrow> 'e world_scheme
     \<Rightarrow> (unit res \<times> 'e world_scheme) option" where
  "send_exact_loop t buf sent w =
     (if sent < length buf then
        Option.bind (t_send t (drop sent buf) w) (\<lambda>(r, w').
          case r of
            Ok n \<Rightarrow>
              (if n = 0 then Some (Throw (Runtime_error ''send exact: connection closed''), w')
               else if n < 0 then
                 (if errno w' = EAGAIN then send_exact_loop t buf sent w'
                  else Some (Throw (Runtime_error ''send exact: send failed: ''), w'))
               else send_exact_loop t buf (sent + nat n) w')
          | Throw e \<Rightarrow> Some (Throw e, w')
          | Undef \<Rightarrow> Some (Undef, w'))
      else Some (Ok (), w))"

definition send_exact :: "'e world_scheme transport \<Rightarrow> u8 list \<Rightarrow> ('e world_scheme, unit) io" where
  "send_exact t buf w = send_exact_loop t buf 0 w"

partial_function (option) recv_exact_loop ::
  "'e world_scheme transport \<Rightarrow> nat \<Rightarrow> u8 list \<Rightarrow> 'e world_scheme
     \<Rightarrow> (u8 list res \<times> 'e world_scheme) option" where
  "recv_exact_loop t len buf w =
     (if length buf < len then
        Option.bind (t_recv t (len - length buf) w) (\<lambda>(r, w').
          case r of
            Ok (n, bs) \<Rightarrow>
              (if n = 0 then Some (Throw (Runtime_error ''recv exact: connection closed''), w')
               else if n < 0 then
                 (if errno w' = EAGAIN then recv_exact_loop t len buf w'
                  else Some (Throw (Runtime_error ''recv exact: recv failed: ''), w'))
               else recv_exact_loop t len (buf @ bs) w')
          | Throw e \<Rightarrow> Some (Throw e, w')
          | Undef \<Rightarrow> Some (Undef, w'))
      else Some (Ok buf, w))"

definition recv_exact :: "'e world_scheme transport \<Rightarrow> nat \<Rightarrow> ('e world_scheme, u8 list) io" where
  "recv_exact t len w = recv_exact_loop t len [] w"

section \<open>The contract of a connection\<close>

locale stream_transport =
  fixes t :: "'e world_scheme transport"
    and inbox :: "'e world_scheme \<Rightarrow> u8 list"
    and outbox :: "'e world_scheme \<Rightarrow> u8 list"
    and tinv :: "'e world_scheme \<Rightarrow> bool"
  assumes own_state: "world.more w = world.more w' \<Longrightarrow> inbox w = inbox w' \<and> outbox w = outbox w' \<and> tinv w = tinv w'"
    and send_law: "tinv w \<Longrightarrow> t_send t buf w = Some (rs, w') \<Longrightarrow>
      same_os w w' \<and> later w w' \<and> inbox w' = inbox w \<and> rs \<noteq> Undef \<and>
      (\<forall>n. rs = Ok n \<longrightarrow> 0 < n \<longrightarrow>
         tinv w' \<and> n \<le> int (length buf) \<and> outbox w' = outbox w @ take (nat n) buf) \<and>
      (\<forall>n. rs = Ok n \<longrightarrow> n < 0 \<longrightarrow> errno w' = EAGAIN \<longrightarrow> tinv w' \<and> outbox w' = outbox w)"
    and recv_law: "tinv w \<Longrightarrow> t_recv t len w = Some (rr, w') \<Longrightarrow>
      same_os w w' \<and> later w w' \<and> outbox w' = outbox w \<and> rr \<noteq> Undef \<and>
      (\<forall>n bs. rr = Ok (n, bs) \<longrightarrow> 0 < n \<longrightarrow>
         tinv w' \<and> n = int (length bs) \<and> length bs \<le> len \<and> inbox w = bs @ inbox w') \<and>
      (\<forall>n bs. rr = Ok (n, bs) \<longrightarrow> n < 0 \<longrightarrow> errno w' = EAGAIN \<longrightarrow> tinv w' \<and> inbox w' = inbox w)"

locale reliable_transport = stream_transport t inbox outbox tinv
  for t :: "'e world_scheme transport" and inbox outbox tinv +
  assumes send_file_law: "tinv w \<Longrightarrow> fds w fd = Some f \<Longrightarrow> files w (of_path f) = Some c \<Longrightarrow>
      t_send_file t fd off len w = Some (rf, w') \<Longrightarrow>
      same_os w w' \<and> later w w' \<and> inbox w' = inbox w \<and> rf \<noteq> Undef \<and>
      (rf = Ok () \<longrightarrow> tinv w' \<and> (0 < len \<longrightarrow> off + len \<le> length c) \<and>
         outbox w' = outbox w @ region off len c)"
    and recv_file_law: "tinv w \<Longrightarrow> fds w fd = Some f \<Longrightarrow> files w (of_path f) = Some c \<Longrightarrow>
      t_recv_file t fd off len w = Some (rf, w') \<Longrightarrow>
      fds w' = fds w \<and> next_fd w' = next_fd w \<and> bad_closes w' = bad_closes w \<and> later w w'
      \<and> outbox w' = outbox w \<and> rf \<noteq> Undef \<and>
      (\<exists>k \<le> min len (length (inbox w)).
         files w' = (files w)(of_path f \<mapsto> write_at c off (take k (inbox w))) \<and>
         (rf = Ok () \<longrightarrow> k = len \<and> tinv w' \<and> inbox w' = drop len (inbox w)))"

locale live_transport = reliable_transport t inbox outbox tinv
  for t :: "'e world_scheme transport" and inbox outbox tinv +
  assumes send_live: "tinv w \<Longrightarrow> fair w \<Longrightarrow> 0 < fuel w \<Longrightarrow> buf \<noteq> [] \<Longrightarrow>
      \<exists>n w'. t_send t buf w = Some (Ok n, w') \<and> 0 < n \<and> fuel w - 1 \<le> fuel w'"
    and recv_live: "tinv w \<Longrightarrow> fair w \<Longrightarrow> 0 < fuel w \<Longrightarrow> inbox w \<noteq> [] \<Longrightarrow> 0 < len \<Longrightarrow>
      \<exists>n bs w'. t_recv t len w = Some (Ok (n, bs), w') \<and> 0 < n \<and> fuel w - 1 \<le> fuel w'"
    and send_file_live: "tinv w \<Longrightarrow> fair w \<Longrightarrow> len \<le> fuel w \<Longrightarrow> fds w fd = Some f \<Longrightarrow>
      files w (of_path f) = Some c \<Longrightarrow> off + len \<le> length c \<Longrightarrow> off + len < 2 ^ 63 \<Longrightarrow>
      \<exists>w'. t_send_file t fd off len w = Some (Ok (), w') \<and> fuel w - len \<le> fuel w'"
    and recv_file_live: "tinv w \<Longrightarrow> fair w \<Longrightarrow> 2 * len + 2 \<le> fuel w \<Longrightarrow> fds w fd = Some f \<Longrightarrow>
      files w (of_path f) = Some c \<Longrightarrow> len \<le> length (inbox w) \<Longrightarrow> off + len < 2 ^ 63 \<Longrightarrow>
      \<exists>w'. t_recv_file t fd off len w = Some (Ok (), w') \<and> fuel w - (2 * len + 2) \<le> fuel w'"

section \<open>What the contract gives its users\<close>

context stream_transport
begin

definition moved_out :: "'e world_scheme \<Rightarrow> u8 list \<Rightarrow> 'e world_scheme \<Rightarrow> bool" where
  "moved_out w bs w' \<longleftrightarrow> same_os w w' \<and> later w w' \<and> inbox w' = inbox w \<and> tinv w' \<and>
     outbox w' = outbox w @ bs"

definition moved_in :: "'e world_scheme \<Rightarrow> u8 list \<Rightarrow> 'e world_scheme \<Rightarrow> bool" where
  "moved_in w bs w' \<longleftrightarrow> same_os w w' \<and> later w w' \<and> outbox w' = outbox w \<and> tinv w' \<and>
     inbox w = bs @ inbox w'"

lemma moved_out_refl: "tinv w \<Longrightarrow> moved_out w [] w"
  by (simp add: moved_out_def)

lemma moved_out_trans: "moved_out w xs w1 \<Longrightarrow> moved_out w1 ys w2 \<Longrightarrow> moved_out w (xs @ ys) w2"
  by (auto simp: moved_out_def intro: same_os_trans later_trans)

lemma moved_in_refl: "tinv w \<Longrightarrow> moved_in w [] w"
  by (simp add: moved_in_def)

lemma moved_in_trans: "moved_in w xs w1 \<Longrightarrow> moved_in w1 ys w2 \<Longrightarrow> moved_in w (xs @ ys) w2"
  by (auto simp: moved_in_def intro: same_os_trans later_trans)

lemma send_exact_loop_result:
  assumes run: "send_exact_loop t buf sent w = Some (r, w')" and "tinv w"
  shows "same_os w w' \<and> later w w' \<and> inbox w' = inbox w \<and> r \<noteq> Undef \<and>
     (r = Ok () \<longrightarrow> moved_out w (drop sent buf) w')"
proof -
  let ?Q = "\<lambda>t' buf sent w (r, w'). t' = t \<longrightarrow> tinv w \<longrightarrow>
     same_os w w' \<and> later w w' \<and> inbox w' = inbox w \<and> r \<noteq> Undef \<and>
     (r = Ok () \<longrightarrow> moved_out w (drop sent buf) w')"
  have "?Q t buf sent w (r, w')"
  proof (rule send_exact_loop.raw_induct [where P = ?Q, OF _ run])
    fix g t' buf sent w y
    assume IH: "\<And>t' buf sent w y. g t' buf sent w = Some y \<Longrightarrow> ?Q t' buf sent w y"
      and eq: "(if sent < length buf then
        Option.bind (t_send t' (drop sent buf) w) (\<lambda>(r, w').
          case r of
            Ok n \<Rightarrow>
              (if n = 0 then Some (Throw (Runtime_error ''send exact: connection closed''), w')
               else if n < 0 then
                 (if errno w' = EAGAIN then g t' buf sent w'
                  else Some (Throw (Runtime_error ''send exact: send failed: ''), w'))
               else g t' buf (sent + nat n) w')
          | Throw e \<Rightarrow> Some (Throw e, w')
          | Undef \<Rightarrow> Some (Undef, w'))
      else Some (Ok (), w)) = Some y"
    obtain r w' where y: "y = (r, w')" by (cases y)
    show "?Q t' buf sent w y" unfolding y case_prod_conv
    proof (intro impI)
      assume t': "t' = t" and inv: "tinv w"
      show "same_os w w' \<and> later w w' \<and> inbox w' = inbox w \<and> r \<noteq> Undef \<and>
         (r = Ok () \<longrightarrow> moved_out w (drop sent buf) w')"
      proof (cases "sent < length buf")
        case False
        with eq y inv show ?thesis by (auto simp: moved_out_refl)
      next
        case True
        then obtain q w1 where q: "t_send t (drop sent buf) w = Some (q, w1)"
          using eq t' by (cases "t_send t (drop sent buf) w") auto
        note L = send_law [OF inv q]
        have eq': "(case q of
            Ok n \<Rightarrow>
              (if n = 0 then Some (Throw (Runtime_error ''send exact: connection closed''), w1)
               else if n < 0 then
                 (if errno w1 = EAGAIN then g t buf sent w1
                  else Some (Throw (Runtime_error ''send exact: send failed: ''), w1))
               else g t buf (sent + nat n) w1)
          | Throw e \<Rightarrow> Some (Throw e, w1)
          | Undef \<Rightarrow> Some (Undef, w1)) = Some (r, w')"
          using eq [unfolded t'] True q y by simp
        then consider (stop) e where "r = Throw e" "w' = w1"
          | (again) "g t buf sent w1 = Some (r, w')" "tinv w1" "outbox w1 = outbox w"
          | (go) n where "g t buf (sent + nat n) w1 = Some (r, w')" "0 < n" "q = Ok n"
          using L by (cases q) (auto split: if_splits)
        then show ?thesis
        proof cases
          case stop
          then show ?thesis using L by auto
        next
          case again
          from IH [OF this(1)] again(2) have "same_os w1 w' \<and> later w1 w' \<and> inbox w' = inbox w1 \<and>
             r \<noteq> Undef \<and> (r = Ok () \<longrightarrow> moved_out w1 (drop sent buf) w')" by simp
          moreover have "moved_out w [] w1" using L again by (simp add: moved_out_def)
          ultimately show ?thesis using L
            by (auto dest: moved_out_trans intro: same_os_trans later_trans)
        next
          case go
          then have "moved_out w (take (nat n) (drop sent buf)) w1"
            using L by (simp add: moved_out_def)
          moreover from IH [OF go(1)] L go have "same_os w1 w' \<and> later w1 w' \<and> inbox w' = inbox w1 \<and>
             r \<noteq> Undef \<and> (r = Ok () \<longrightarrow> moved_out w1 (drop (sent + nat n) buf) w')" by simp
          moreover have "drop sent buf = take (nat n) (drop sent buf) @ drop (sent + nat n) buf"
            by (metis append_take_drop_id drop_drop add.commute)
          ultimately show ?thesis using L
            by (metis moved_out_trans same_os_trans later_trans)
        qed
      qed
    qed
  qed
  then show ?thesis using assms(2) by simp
qed

lemma send_exact_result:
  assumes "send_exact t buf w = Some (r, w')" and "tinv w"
  shows "same_os w w' \<and> later w w' \<and> inbox w' = inbox w \<and> r \<noteq> Undef"
    and "r = Ok () \<Longrightarrow> moved_out w buf w'"
  using send_exact_loop_result [of buf 0 w r w'] assms by (simp_all add: send_exact_def)

lemma recv_exact_loop_result:
  assumes run: "recv_exact_loop t len buf w = Some (r, w')" and "tinv w" and "length buf \<le> len"
  shows "same_os w w' \<and> later w w' \<and> outbox w' = outbox w \<and> r \<noteq> Undef \<and>
     (\<forall>bs. r = Ok bs \<longrightarrow> (\<exists>xs. bs = buf @ xs \<and> length bs = len \<and> moved_in w xs w'))"
proof -
  let ?Q = "\<lambda>t' len buf w (r, w'). t' = t \<longrightarrow> tinv w \<longrightarrow> length buf \<le> len \<longrightarrow>
     same_os w w' \<and> later w w' \<and> outbox w' = outbox w \<and> r \<noteq> Undef \<and>
     (\<forall>bs. r = Ok bs \<longrightarrow> (\<exists>xs. bs = buf @ xs \<and> length bs = len \<and> moved_in w xs w'))"
  have "?Q t len buf w (r, w')"
  proof (rule recv_exact_loop.raw_induct [where P = ?Q, OF _ run])
    fix g t' len buf w y
    assume IH: "\<And>t' len buf w y. g t' len buf w = Some y \<Longrightarrow> ?Q t' len buf w y"
      and eq: "(if length buf < len then
        Option.bind (t_recv t' (len - length buf) w) (\<lambda>(r, w').
          case r of
            Ok (n, bs) \<Rightarrow>
              (if n = 0 then Some (Throw (Runtime_error ''recv exact: connection closed''), w')
               else if n < 0 then
                 (if errno w' = EAGAIN then g t' len buf w'
                  else Some (Throw (Runtime_error ''recv exact: recv failed: ''), w'))
               else g t' len (buf @ bs) w')
          | Throw e \<Rightarrow> Some (Throw e, w')
          | Undef \<Rightarrow> Some (Undef, w'))
      else Some (Ok buf, w)) = Some y"
    obtain r w' where y: "y = (r, w')" by (cases y)
    show "?Q t' len buf w y" unfolding y case_prod_conv
    proof (intro impI)
      assume t': "t' = t" and inv: "tinv w" and le: "length buf \<le> len"
      show "same_os w w' \<and> later w w' \<and> outbox w' = outbox w \<and> r \<noteq> Undef \<and>
         (\<forall>bs. r = Ok bs \<longrightarrow> (\<exists>xs. bs = buf @ xs \<and> length bs = len \<and> moved_in w xs w'))"
      proof (cases "length buf < len")
        case False
        with eq y inv le show ?thesis by (auto intro: moved_in_refl)
      next
        case True
        then obtain q w1 where q: "t_recv t (len - length buf) w = Some (q, w1)"
          using eq t' by (cases "t_recv t (len - length buf) w") auto
        note L = recv_law [OF inv q]
        have eq': "(case q of
            Ok (n, bs) \<Rightarrow>
              (if n = 0 then Some (Throw (Runtime_error ''recv exact: connection closed''), w1)
               else if n < 0 then
                 (if errno w1 = EAGAIN then g t len buf w1
                  else Some (Throw (Runtime_error ''recv exact: recv failed: ''), w1))
               else g t len (buf @ bs) w1)
          | Throw e \<Rightarrow> Some (Throw e, w1)
          | Undef \<Rightarrow> Some (Undef, w1)) = Some (r, w')"
          using eq [unfolded t'] True q y by simp
        then consider (stop) e where "r = Throw e" "w' = w1"
          | (again) "g t len buf w1 = Some (r, w')" "tinv w1" "inbox w1 = inbox w"
          | (go) n bs where "g t len (buf @ bs) w1 = Some (r, w')" "0 < n" "q = Ok (n, bs)"
          using L by (cases q) (auto split: if_splits prod.splits)
        then show ?thesis
        proof cases
          case stop
          then show ?thesis using L by auto
        next
          case again
          from IH [OF this(1)] again(2) le have *: "same_os w1 w' \<and> later w1 w' \<and> outbox w' = outbox w1 \<and>
             r \<noteq> Undef \<and> (\<forall>bs. r = Ok bs \<longrightarrow> (\<exists>xs. bs = buf @ xs \<and> length bs = len \<and> moved_in w1 xs w'))"
            by simp
          have m: "moved_in w [] w1" using L again by (simp add: moved_in_def)
          have "moved_in w xs w'" if "moved_in w1 xs w'" for xs
            using moved_in_trans [OF m that] by simp
          then show ?thesis using * L by (auto intro: same_os_trans later_trans)
        next
          case go
          then have m: "moved_in w bs w1" "length (buf @ bs) \<le> len" "tinv w1"
            using L le by (auto simp: moved_in_def)
          from IH [OF go(1)] m(2,3) have *: "same_os w1 w' \<and> later w1 w' \<and> outbox w' = outbox w1 \<and>
             r \<noteq> Undef \<and> (\<forall>b. r = Ok b \<longrightarrow>
               (\<exists>xs. b = (buf @ bs) @ xs \<and> length b = len \<and> moved_in w1 xs w'))"
            by simp
          have "moved_in w (bs @ xs) w'" if "moved_in w1 xs w'" for xs
            by (rule moved_in_trans [OF m(1) that])
          then show ?thesis using * L by (auto intro: same_os_trans later_trans)
        qed
      qed
    qed
  qed
  then show ?thesis using assms(2,3) by simp
qed

lemma recv_exact_result:
  assumes "recv_exact t len w = Some (r, w')" and "tinv w"
  shows "same_os w w' \<and> later w w' \<and> outbox w' = outbox w \<and> r \<noteq> Undef"
    and "r = Ok bs \<Longrightarrow> length bs = len \<and> moved_in w bs w'"
  using recv_exact_loop_result [of len "[]" w r w'] assms by (auto simp: recv_exact_def)

end

context live_transport
begin

lemma send_exact_loop_live:
  assumes "tinv w" and "fair w" and "length buf - sent \<le> fuel w"
  shows "\<exists>w'. send_exact_loop t buf sent w = Some (Ok (), w') \<and> fuel w - (length buf - sent) \<le> fuel w'"
  using assms
proof (induction "length buf - sent" arbitrary: sent w rule: less_induct)
  case less
  show ?case
  proof (cases "sent < length buf")
    case False
    then show ?thesis by (simp add: send_exact_loop.simps)
  next
    case True
    then have "0 < fuel w" using less.prems(3) by linarith
    with send_live [OF less.prems(1,2), of "drop sent buf"] True
    obtain n w1 where n: "t_send t (drop sent buf) w = Some (Ok n, w1)" "0 < n" "fuel w - 1 \<le> fuel w1"
      by auto
    note L = send_law [OF less.prems(1) n(1)]
    have w1: "tinv w1" "fair w1" "n \<le> int (length (drop sent buf))"
      using L n(2) less.prems(2) by (auto intro: fair_later)
    have le: "length buf - (sent + nat n) < length buf - sent"
      "length buf - (sent + nat n) \<le> fuel w1"
      using True n(2,3) less.prems(3) by linarith+
    from less.hyps [OF le(1) w1(1,2) le(2)] obtain w2 where
      w2: "send_exact_loop t buf (sent + nat n) w1 = Some (Ok (), w2)"
      "fuel w1 - (length buf - (sent + nat n)) \<le> fuel w2" by auto
    then have "fuel w - (length buf - sent) \<le> fuel w2" using n True by linarith
    then show ?thesis using True n w2(1)
      by (intro exI [of _ w2]) (simp add: send_exact_loop.simps [of t buf sent w])
  qed
qed

lemma send_exact_live:
  assumes "tinv w" and "fair w" and "length buf \<le> fuel w"
  shows "\<exists>w'. send_exact t buf w = Some (Ok (), w') \<and> fuel w - length buf \<le> fuel w'"
  using send_exact_loop_live [of w buf 0] assms by (simp add: send_exact_def)

lemma recv_exact_loop_live:
  assumes "tinv w" and "fair w" and "len - length buf \<le> fuel w" and "len - length buf \<le> length (inbox w)"
  shows "\<exists>bs w'. recv_exact_loop t len buf w = Some (Ok bs, w') \<and> fuel w - (len - length buf) \<le> fuel w'"
  using assms
proof (induction "len - length buf" arbitrary: buf w rule: less_induct)
  case less
  show ?case
  proof (cases "length buf < len")
    case False
    then show ?thesis by (simp add: recv_exact_loop.simps)
  next
    case True
    then have "0 < fuel w" "inbox w \<noteq> []" "0 < len - length buf" using less.prems(3,4) by auto
    from recv_live [OF less.prems(1,2) this]
    obtain n bs w1 where n: "t_recv t (len - length buf) w = Some (Ok (n, bs), w1)" "0 < n"
      "fuel w - 1 \<le> fuel w1"
      by auto
    note L = recv_law [OF less.prems(1) n(1)]
    have w1: "tinv w1" "fair w1" "n = int (length bs)" "length bs \<le> len - length buf"
      "length (inbox w) = length bs + length (inbox w1)"
      using L n(2) less.prems(2) by (auto intro: fair_later)
    have le: "len - length (buf @ bs) < len - length buf"
      "len - length (buf @ bs) \<le> fuel w1" "len - length (buf @ bs) \<le> length (inbox w1)"
      using True n(2,3) w1(3,4,5) less.prems(3,4) by (simp_all, linarith+)
    from less.hyps [OF le(1) w1(1,2) le(2,3)] obtain b w2 where
      w2: "recv_exact_loop t len (buf @ bs) w1 = Some (Ok b, w2)"
      "fuel w1 - (len - length (buf @ bs)) \<le> fuel w2" by auto
    then have "fuel w - (len - length buf) \<le> fuel w2" using n w1(3) True by (simp, linarith)
    then show ?thesis using True n w2(1)
      by (intro exI [of _ b] exI [of _ w2]) (simp add: recv_exact_loop.simps [of t len buf w])
  qed
qed

lemma recv_exact_live:
  assumes "tinv w" and "fair w" and "len \<le> fuel w" and "len \<le> length (inbox w)"
  shows "\<exists>bs w'. recv_exact t len w = Some (Ok bs, w') \<and> fuel w - len \<le> fuel w'"
  using recv_exact_loop_live [of w len "[]"] assms by (simp add: recv_exact_def)

end

section \<open>Rules for programs over a connection\<close>

context live_transport
begin

text \<open>What a failed transfer leaves: a world whose connection may not be used further.\<close>

definition broken :: "'e world_scheme \<Rightarrow> 'e world_scheme \<Rightarrow> bool" where
  "broken w w' \<longleftrightarrow> tidy w w' \<and> files w' = files w"

lemma moved_out_ready:
  "moved_out w bs w' \<Longrightarrow> ready b w (k + n) \<Longrightarrow> \<not> b \<longrightarrow> fuel w - k \<le> fuel w' \<Longrightarrow> ready b w' n"
  by (cases b) (auto simp: moved_out_def intro: ready_step)

lemma moved_in_ready:
  "moved_in w bs w' \<Longrightarrow> ready b w (k + n) \<Longrightarrow> \<not> b \<longrightarrow> fuel w - k \<le> fuel w' \<Longrightarrow> ready b w' n"
  by (cases b) (auto simp: moved_in_def intro: ready_step)

lemma moved_out_tidy: "moved_out w bs w' \<Longrightarrow> tidy w w' \<and> files w' = files w"
  by (simp add: moved_out_def tidy_same_os same_os_def tidy_def)

lemma moved_in_tidy: "moved_in w bs w' \<Longrightarrow> tidy w w' \<and> files w' = files w"
  by (simp add: moved_in_def tidy_same_os same_os_def tidy_def)

lemma wp_send_file:
  assumes "tinv w" and fd: "fds w fd = Some f" "files w (of_path f) = Some c"
    and rng: "b \<or> off + len \<le> length c \<and> off + len < 2 ^ 63" and rd: "ready b w (len + n)"
    and ok: "\<And>w'. moved_out w (region off len c) w' \<Longrightarrow> 0 < len \<longrightarrow> off + len \<le> length c \<Longrightarrow>
      ready b w' n \<Longrightarrow> Q (Ok ()) w'"
    and fail: "\<And>w' e. b \<Longrightarrow> broken w w' \<Longrightarrow> Q (Throw e) w'"
  shows "wp b (t_send_file t fd off len) Q w"
proof -
  have out: "Q r w'" if run: "t_send_file t fd off len w = Some (r, w')"
    and nb: "\<not> b \<longrightarrow> r = Ok () \<and> fuel w - len \<le> fuel w'" for r w'
  proof -
    note L = send_file_law [OF assms(1) fd run]
    show ?thesis
    proof (cases r)
      case (Ok u)
      then have m: "moved_out w (region off len c) w'" using L by (simp add: moved_out_def)
      show ?thesis unfolding Ok using ok [OF m] L Ok moved_out_ready [OF m rd] nb by simp
    next
      case (Throw e)
      then show ?thesis using L nb fail by (auto simp: broken_def tidy_same_os same_os_def)
    qed (use L in simp)
  qed
  show ?thesis
  proof (cases b)
    case True
    then show ?thesis by (auto intro!: wpI out)
  next
    case False
    then have "fair w" "len \<le> fuel w" "off + len \<le> length c" "off + len < 2 ^ 63"
      using rd rng by (auto simp: ready_def)
    from send_file_live [OF assms(1) this(1,2) fd this(3,4)] out show ?thesis by (fastforce simp: wp_def)
  qed
qed

lemma wp_recv_file:
  assumes "tinv w" and fd: "fds w fd = Some f" "files w (of_path f) = Some c"
    and src: "b \<or> len \<le> length (inbox w) \<and> off + len < 2 ^ 63" and rd: "ready b w (2 * len + 2 + n)"
    and ok: "\<And>w'. tidy w w' \<Longrightarrow> files w' = (files w)(of_path f \<mapsto> write_at c off (take len (inbox w))) \<Longrightarrow>
      len \<le> length (inbox w) \<Longrightarrow> inbox w' = drop len (inbox w) \<Longrightarrow> outbox w' = outbox w \<Longrightarrow> tinv w' \<Longrightarrow>
      ready b w' n \<Longrightarrow> Q (Ok ()) w'"
    and fail: "\<And>w' e k. b \<Longrightarrow> tidy w w' \<Longrightarrow>
      files w' = (files w)(of_path f \<mapsto> write_at c off (take k (inbox w))) \<Longrightarrow> Q (Throw e) w'"
  shows "wp b (t_recv_file t fd off len) Q w"
proof -
  have out: "Q r w'" if run: "t_recv_file t fd off len w = Some (r, w')"
    and nb: "\<not> b \<longrightarrow> r = Ok () \<and> fuel w - (2 * len + 2) \<le> fuel w'" for r w'
  proof -
    note L = recv_file_law [OF assms(1) fd run]
    then obtain k where k: "k \<le> min len (length (inbox w))"
      "files w' = (files w)(of_path f \<mapsto> write_at c off (take k (inbox w)))"
      "r = Ok () \<longrightarrow> k = len \<and> tinv w' \<and> inbox w' = drop len (inbox w)" by blast
    have t: "tidy w w'" using L by (simp add: tidy_def)
    show ?thesis
    proof (cases r)
      case (Ok u)
      have "b \<or> fuel w - (2 * len + 2) \<le> fuel w'" using nb by blast
      then have "ready b w' n" using L ready_step [OF rd, of w'] by (cases b) simp_all
      then show ?thesis unfolding Ok using ok [OF t] L k Ok by simp
    next
      case (Throw e)
      then show ?thesis using nb fail t k(2) by auto
    qed (use L in simp)
  qed
  show ?thesis
  proof (cases b)
    case True
    then show ?thesis by (auto intro!: wpI out)
  next
    case False
    then have "fair w" "2 * len + 2 \<le> fuel w" "len \<le> length (inbox w)" "off + len < 2 ^ 63"
      using rd src by (auto simp: ready_def)
    from recv_file_live [OF assms(1) this(1,2) fd this(3,4)] out show ?thesis by (fastforce simp: wp_def)
  qed
qed

end

end
