(* ===== verification/Protocol.thy ===== *)
theory Protocol
  imports Transport_Iface
begin

text \<open>
  The wire protocol of \<^verbatim>\<open>core/protocol.hpp\<close> and \<^verbatim>\<open>core/protocol.cpp\<close>: message types,
  the writers that fill a preallocated payload buffer at a running position
  (\<^verbatim>\<open>put_u32\<close> \<dots>), the bounds-checked \<^verbatim>\<open>Reader\<close>, the builders \<^verbatim>\<open>make_*\<close> and parsers
  \<^verbatim>\<open>parse_*\<close>, and \<^verbatim>\<open>send_msg\<close>, \<^verbatim>\<open>recv_msg\<close> over a transport.

  A copy past the end of a buffer, on either side, is \<open>Undef\<close>. The locale
  \<open>field_codec\<close> states what a writer and a reader of one field owe each other; its
  interpretations on the four kinds of field carry the round trips of whole messages.
\<close>

section \<open>Constants and types\<close>

definition PROTOCOL_VERSION :: u8 where "PROTOCOL_VERSION = 0x02"
definition HEADER_SIZE :: nat where "HEADER_SIZE = 6"
definition FILE_SIZE_BYTES :: nat where "FILE_SIZE_BYTES = 8"
definition LEN_PREFIX_BYTES :: nat where "LEN_PREFIX_BYTES = 4"
definition MAX_PAYLOAD_SIZE :: u32 where "MAX_PAYLOAD_SIZE = 64 * 1024 * 1024"

datatype msg_type =
  INVALID | HANDSHAKE | FILE_META | CHUNK_REQ | CHUNK_HDR | RESERVED | COMPLETE | ERROR | CANCEL

fun msg_code :: "msg_type \<Rightarrow> u8" where
  "msg_code INVALID = 0x00"
| "msg_code HANDSHAKE = 0x01"
| "msg_code FILE_META = 0x02"
| "msg_code CHUNK_REQ = 0x03"
| "msg_code CHUNK_HDR = 0x04"
| "msg_code RESERVED = 0x05"
| "msg_code COMPLETE = 0x06"
| "msg_code ERROR = 0x07"
| "msg_code CANCEL = 0x08"

lemma msg_code_inject [simp]: "msg_code a = msg_code b \<longleftrightarrow> a = b"
  by (cases a; cases b; simp)

text \<open>The enumerators in the order of their codes, as comparisons of codes use it.\<close>

instantiation msg_type :: linorder
begin

definition less_eq_msg_type :: "msg_type \<Rightarrow> msg_type \<Rightarrow> bool" where
  "less_eq_msg_type a b \<longleftrightarrow> msg_code a \<le> msg_code b"

definition less_msg_type :: "msg_type \<Rightarrow> msg_type \<Rightarrow> bool" where
  "less_msg_type a b \<longleftrightarrow> msg_code a < msg_code b"

instance
proof
  fix x y z :: msg_type
  show "(x < y) = (x \<le> y \<and> \<not> y \<le> x)"
    by (simp only: less_eq_msg_type_def less_msg_type_def less_le_not_le)
  show "x \<le> x" by (simp add: less_eq_msg_type_def)
  show "x \<le> y \<Longrightarrow> y \<le> z \<Longrightarrow> x \<le> z" by (auto simp: less_eq_msg_type_def)
  show "x \<le> y \<Longrightarrow> y \<le> x \<Longrightarrow> x = y"
    by (metis less_eq_msg_type_def msg_code_inject order_antisym)
  show "x \<le> y \<or> y \<le> x" by (auto simp: less_eq_msg_type_def)
qed

end

text \<open>\<^verbatim>\<open>static_cast<MsgType>\<close> of a byte that is some enumerator's code.\<close>

definition msg_type_of :: "u8 \<Rightarrow> msg_type" where
  "msg_type_of b =
     (if b = 1 then HANDSHAKE else if b = 2 then FILE_META else if b = 3 then CHUNK_REQ
      else if b = 4 then CHUNK_HDR else if b = 5 then RESERVED else if b = 6 then COMPLETE
      else if b = 7 then ERROR else if b = 8 then CANCEL else INVALID)"

record message =
  m_type :: msg_type
  m_payload :: "u8 list"

record file_meta =
  file_name :: string
  file_size :: u64
  chunk_size :: u32
  chunk_count :: u32
  chunk_hashes :: "u8 list list"

record handshake_payload =
  token :: string

record chunk_req =
  req_index :: u32

record chunk_hdr =
  hdr_index :: u32

section \<open>Writers\<close>

type_synonym wbuf = "u8 list \<times> nat"

definition memcpy_at :: "wbuf \<Rightarrow> u8 list \<Rightarrow> wbuf res" where
  "memcpy_at b bs =
     (case b of (buf, pos) \<Rightarrow>
        if pos + length bs \<le> length buf then Ok (write_at buf pos bs, pos + length bs) else Undef)"

definition put_u32 :: "wbuf \<Rightarrow> u32 \<Rightarrow> wbuf res" where
  "put_u32 b val = memcpy_at b (be_enc 4 (unat val))"

definition put_u64 :: "wbuf \<Rightarrow> u64 \<Rightarrow> wbuf res" where
  "put_u64 b val =
     res_bind (put_u32 b (ucast (drop_bit 32 val))) (\<lambda>b. put_u32 b (ucast val))"

definition put_str :: "wbuf \<Rightarrow> string \<Rightarrow> wbuf res" where
  "put_str b str =
     res_bind (put_u32 b (word_of_nat (length str))) (\<lambda>b. memcpy_at b (bytes_of_string str))"

definition put_bytes :: "wbuf \<Rightarrow> u8 list \<Rightarrow> wbuf res" where
  "put_bytes b data = memcpy_at b data"

section \<open>The reader\<close>

record reader =
  r_data :: "u8 list"
  r_pos :: nat
  r_len :: nat

text \<open>\<^verbatim>\<open>pos + n\<close> is computed in \<^verbatim>\<open>size_t\<close>, so the model wraps it.\<close>

definition ensure :: "reader \<Rightarrow> nat \<Rightarrow> unit res" where
  "ensure r n =
     (if (r_pos r + n) mod 2 ^ 64 > r_len r
      then Throw (Runtime_error ''protocol: truncated payload'') else Ok ())"

definition fetch :: "reader \<Rightarrow> nat \<Rightarrow> (u8 list \<times> reader) res" where
  "fetch r n =
     (if r_pos r + n \<le> length (r_data r)
      then Ok (region (r_pos r) n (r_data r), r\<lparr>r_pos := r_pos r + n\<rparr>) else Undef)"

definition get_u32 :: "reader \<Rightarrow> (u32 \<times> reader) res" where
  "get_u32 r =
     res_bind (ensure r 4) (\<lambda>_.
     res_bind (fetch r 4) (\<lambda>(bs, r). Ok (word_of_nat (be_dec bs), r)))"

definition get_u64 :: "reader \<Rightarrow> (u64 \<times> reader) res" where
  "get_u64 r =
     res_bind (get_u32 r) (\<lambda>(hi, r).
     res_bind (get_u32 r) (\<lambda>(lo, r). Ok (or (push_bit 32 (ucast hi)) (ucast lo), r)))"

definition get_str :: "reader \<Rightarrow> (string \<times> reader) res" where
  "get_str r =
     res_bind (get_u32 r) (\<lambda>(str_len, r).
     res_bind (ensure r (unat str_len)) (\<lambda>_.
     res_bind (fetch r (unat str_len)) (\<lambda>(bs, r). Ok (string_of_bytes bs, r))))"

definition get_bytes :: "nat \<Rightarrow> reader \<Rightarrow> (u8 list \<times> reader) res" where
  "get_bytes n r = res_bind (ensure r n) (\<lambda>_. fetch r n)"

text \<open>The loop that fills a vector of \<open>n\<close> elements from the reader.\<close>

primrec get_n :: "(reader \<Rightarrow> ('a \<times> reader) res) \<Rightarrow> nat \<Rightarrow> reader \<Rightarrow> ('a list \<times> reader) res" where
  "get_n get 0 r = Ok ([], r)"
| "get_n get (Suc n) r =
     res_bind (get r) (\<lambda>(x, r). res_bind (get_n get n r) (\<lambda>(xs, r). Ok (x # xs, r)))"

section \<open>Builders and parsers\<close>

definition make_filemeta :: "file_meta \<Rightarrow> message res" where
  "make_filemeta m =
     (if length (chunk_hashes m) \<noteq> unat (chunk_count m)
      then Throw (Runtime_error ''make_filemeta: wrong number of chunk hashes - '')
      else
        let payload_size = FILE_SIZE_BYTES + LEN_PREFIX_BYTES + length (file_name m)
                           + 4 + 4 + unat (chunk_count m) * HASH_SIZE;
            buf = replicate payload_size 0
        in res_bind (put_u64 (buf, 0) (file_size m)) (\<lambda>b.
           res_bind (put_str b (file_name m)) (\<lambda>b.
           res_bind (put_u32 b (chunk_size m)) (\<lambda>b.
           res_bind (put_u32 b (chunk_count m)) (\<lambda>b.
           res_bind (res_foldl put_bytes b (chunk_hashes m)) (\<lambda>(buf, _).
             Ok \<lparr>m_type = FILE_META, m_payload = buf\<rparr>))))))"

definition make_complete :: message where
  "make_complete = \<lparr>m_type = COMPLETE, m_payload = []\<rparr>"

definition make_error :: "string \<Rightarrow> message" where
  "make_error reason = \<lparr>m_type = ERROR, m_payload = bytes_of_string reason\<rparr>"

definition make_handshake :: "handshake_payload \<Rightarrow> message res" where
  "make_handshake p =
     res_bind (put_str (replicate (LEN_PREFIX_BYTES + length (token p)) 0, 0) (token p))
       (\<lambda>(buf, _). Ok \<lparr>m_type = HANDSHAKE, m_payload = buf\<rparr>)"

definition make_chunk_req :: "chunk_req \<Rightarrow> message res" where
  "make_chunk_req req =
     res_bind (put_u32 (replicate 4 0, 0) (req_index req))
       (\<lambda>(buf, _). Ok \<lparr>m_type = CHUNK_REQ, m_payload = buf\<rparr>)"

definition make_chunk_hdr :: "chunk_hdr \<Rightarrow> message res" where
  "make_chunk_hdr hdr =
     res_bind (put_u32 (replicate 4 0, 0) (hdr_index hdr))
       (\<lambda>(buf, _). Ok \<lparr>m_type = CHUNK_HDR, m_payload = buf\<rparr>)"

definition reader_of :: "message \<Rightarrow> reader" where
  "reader_of msg = \<lparr>r_data = m_payload msg, r_pos = 0, r_len = length (m_payload msg)\<rparr>"

definition parse_filemeta :: "message \<Rightarrow> file_meta res" where
  "parse_filemeta msg =
     (if m_type msg \<noteq> FILE_META then Throw (Runtime_error ''parse_filemeta: wrong type'')
      else
        res_bind (get_u64 (reader_of msg)) (\<lambda>(size, r).
        res_bind (get_str r) (\<lambda>(name, r).
        res_bind (get_u32 r) (\<lambda>(csize, r).
        res_bind (get_u32 r) (\<lambda>(count, r).
        res_bind (ensure r (unat count * HASH_SIZE)) (\<lambda>_.
        res_bind (get_n (get_bytes HASH_SIZE) (unat count) r) (\<lambda>(hashes, r).
          Ok \<lparr>file_name = name, file_size = size, chunk_size = csize, chunk_count = count,
              chunk_hashes = hashes\<rparr>)))))))"

definition parse_error :: "message \<Rightarrow> string res" where
  "parse_error msg =
     (if m_type msg \<noteq> ERROR then Throw (Runtime_error ''parse_error: wrong type'')
      else Ok (string_of_bytes (m_payload msg)))"

definition parse_handshake :: "message \<Rightarrow> handshake_payload res" where
  "parse_handshake msg =
     (if m_type msg \<noteq> HANDSHAKE then Throw (Runtime_error ''parse_handshake: wrong type'')
      else res_bind (get_str (reader_of msg)) (\<lambda>(s, _). Ok \<lparr>token = s\<rparr>))"

definition parse_chunk_req :: "message \<Rightarrow> chunk_req res" where
  "parse_chunk_req msg =
     (if m_type msg \<noteq> CHUNK_REQ then Throw (Runtime_error ''parse_chunk_req: wrong type'')
      else res_bind (get_u32 (reader_of msg)) (\<lambda>(i, _). Ok \<lparr>req_index = i\<rparr>))"

definition parse_chunk_hdr :: "message \<Rightarrow> chunk_hdr res" where
  "parse_chunk_hdr msg =
     (if m_type msg \<noteq> CHUNK_HDR then Throw (Runtime_error ''parse_chunk_hdr: wrong type'')
      else res_bind (get_u32 (reader_of msg)) (\<lambda>(i, _). Ok \<lparr>hdr_index = i\<rparr>))"

section \<open>Messages over a transport\<close>

definition msg_header :: "message \<Rightarrow> u8 list" where
  "msg_header msg = [PROTOCOL_VERSION, msg_code (m_type msg)]
     @ be_enc 4 (unat (word_of_nat (length (m_payload msg)) :: u32))"

definition send_msg :: "'e world_scheme transport \<Rightarrow> message \<Rightarrow> ('e world_scheme, unit) io" where
  "send_msg t msg =
     io_bind (send_exact t (msg_header msg)) (\<lambda>_.
       if length (m_payload msg) > 0 then send_exact t (m_payload msg) else io_ret ())"

definition recv_msg :: "'e world_scheme transport \<Rightarrow> ('e world_scheme, message) io" where
  "recv_msg t =
     io_bind (recv_exact t HEADER_SIZE) (\<lambda>hdr.
       if hdr ! 0 \<noteq> PROTOCOL_VERSION
       then io_throw (Runtime_error ''recv_msg: unsupported protocol version '')
       else if hdr ! 1 < msg_code HANDSHAKE \<or> hdr ! 1 > msg_code CANCEL
       then io_throw (Runtime_error ''recv_msg: unknown message type '')
       else
         let payload_len = (word_of_nat (be_dec (region 2 4 hdr)) :: u32) in
         if payload_len > MAX_PAYLOAD_SIZE
         then io_throw (Runtime_error ''recv_msg: payload_len exceeds MAX_PAYLOAD_SIZE ('')
         else if payload_len > 0
         then io_bind (recv_exact t (unat payload_len)) (\<lambda>payload.
                io_ret \<lparr>m_type = msg_type_of (hdr ! 1), m_payload = payload\<rparr>)
         else io_ret \<lparr>m_type = msg_type_of (hdr ! 1), m_payload = []\<rparr>)"

section \<open>The contract of a field\<close>

text \<open>
  \<open>rest r\<close> is what a reader has left; \<open>skip n r\<close> the reader moved on by \<open>n\<close> bytes. A
  reader is well formed when its length is that of its data and small enough for
  \<^verbatim>\<open>size_t\<close> sums not to wrap.
\<close>

definition rest :: "reader \<Rightarrow> u8 list" where
  "rest r = drop (r_pos r) (r_data r)"

definition skip :: "nat \<Rightarrow> reader \<Rightarrow> reader" where
  "skip n r = r\<lparr>r_pos := r_pos r + n\<rparr>"

definition wf_reader :: "reader \<Rightarrow> bool" where
  "wf_reader r \<longleftrightarrow> r_len r = length (r_data r) \<and> r_pos r \<le> r_len r \<and> r_len r < 2 ^ 63"

definition truncated :: exn where
  "truncated = Runtime_error ''protocol: truncated payload''"

lemma wf_reader_of [simp]: "wf_reader (reader_of msg) \<longleftrightarrow> length (m_payload msg) < 2 ^ 63"
  by (simp add: wf_reader_def reader_of_def)

lemma rest_reader_of [simp]: "rest (reader_of msg) = m_payload msg"
  by (simp add: rest_def reader_of_def)

lemma skip_skip [simp]: "skip n (skip m r) = skip (m + n) r"
  by (simp add: skip_def add.assoc)

lemma skip_0 [simp]: "skip 0 r = r"
  by (simp add: skip_def)

lemma rest_skip [simp]: "rest (skip n r) = drop n (rest r)"
  by (simp add: rest_def skip_def add.commute)

lemma wf_skip [simp]: "wf_reader r \<Longrightarrow> n \<le> length (rest r) \<Longrightarrow> wf_reader (skip n r)"
  by (auto simp: wf_reader_def rest_def skip_def)

lemma ensure_wf:
  assumes "wf_reader r" and "n < 2 ^ 63"
  shows "ensure r n = (if n \<le> length (rest r) then Ok () else Throw truncated)"
proof -
  have "r_pos r + n < 2 ^ 64" using assms by (simp add: wf_reader_def)
  then have "(r_pos r + n) mod 2 ^ 64 = r_pos r + n" by simp
  then show ?thesis using assms(1)
    by (auto simp: ensure_def truncated_def wf_reader_def rest_def)
qed

lemma fetch_wf:
  "wf_reader r \<Longrightarrow> n \<le> length (rest r) \<Longrightarrow> fetch r n = Ok (take n (rest r), skip n r)"
  by (auto simp: wf_reader_def fetch_def rest_def skip_def region_def)

lemma memcpy_at_append:
  "res_bind (memcpy_at b xs) (\<lambda>b. memcpy_at b ys) = memcpy_at b (xs @ ys)"
proof (cases b)
  case (Pair buf pos)
  show ?thesis
  proof (cases "pos + length xs \<le> length buf")
    case True
    then show ?thesis using write_at_append [of pos buf xs ys] Pair
      by (simp add: memcpy_at_def add.assoc)
  next
    case False
    then show ?thesis using Pair by (simp add: memcpy_at_def)
  qed
qed

lemma memcpy_at_whole: "length bs = n \<Longrightarrow> memcpy_at (replicate n 0, 0) bs = Ok (bs, n)"
  by (cases "bs = []") (auto simp: memcpy_at_def write_at_def)

text \<open>The only failure of a decoder is the truncation exception.\<close>

definition decodes :: "'a res \<Rightarrow> bool" where
  "decodes m \<longleftrightarrow> (\<exists>y. m = Ok y) \<or> m = Throw truncated"

lemma decodes_Ok [simp]: "decodes (Ok y)"
  by (simp add: decodes_def)

lemma decodes_truncated [simp]: "decodes (Throw truncated)"
  by (simp add: decodes_def)

lemma decodes_not_Undef: "decodes m \<Longrightarrow> m \<noteq> Undef"
  by (auto simp: decodes_def)

text \<open>
  A field is written as its encoding, and read back exactly when the rest of the
  payload begins with the encoding of an admissible value. A reader that does not
  succeed throws: it never reads out of bounds.
\<close>

locale field_codec =
  fixes put :: "wbuf \<Rightarrow> 'a \<Rightarrow> wbuf res"
    and get :: "reader \<Rightarrow> ('a \<times> reader) res"
    and enc :: "'a \<Rightarrow> u8 list"
    and ok :: "'a \<Rightarrow> bool"
  assumes put_enc: "ok x \<Longrightarrow> put b x = memcpy_at b (enc x)"
    and get_iff: "wf_reader r \<Longrightarrow> get r = Ok (x, r') \<longleftrightarrow>
      ok x \<and> (\<exists>s. rest r = enc x @ s) \<and> r' = skip (length (enc x)) r"
    and get_total: "wf_reader r \<Longrightarrow> decodes (get r)"
begin

lemma get_wf: "wf_reader r \<Longrightarrow> get r = Ok (x, r') \<Longrightarrow> wf_reader r' \<and> rest r = enc x @ rest r'"
  by (auto simp: get_iff)

lemma get_safe: "wf_reader r \<Longrightarrow> get r \<noteq> Undef"
  using get_total decodes_not_Undef by blast

lemma decodes_step:
  assumes "wf_reader r" and "\<And>x r'. wf_reader r' \<Longrightarrow> decodes (f x r')"
  shows "decodes (res_bind (get r) (\<lambda>(x, r). f x r))"
proof (cases "get r")
  case (Ok y)
  then show ?thesis using get_wf [OF assms(1)] assms(2) by (cases y) auto
qed (use get_total [OF assms(1)] in \<open>auto simp: decodes_def\<close>)

lemma get_enc: "wf_reader r \<Longrightarrow> ok x \<Longrightarrow> rest r = enc x @ s \<Longrightarrow> get r = Ok (x, skip (length (enc x)) r)"
  by (auto simp: get_iff)

lemma put_then:
  "ok x \<Longrightarrow> res_bind (memcpy_at b bs) (\<lambda>b. put b x) = memcpy_at b (bs @ enc x)"
  by (simp add: put_enc memcpy_at_append)

lemma put_list:
  assumes "\<forall>x \<in> set xs. ok x"
  shows "res_bind (memcpy_at b bs) (\<lambda>b. res_foldl put b xs) = memcpy_at b (bs @ concat (map enc xs))"
  using assms
proof (induction xs arbitrary: bs)
  case Nil
  then show ?case by (cases "memcpy_at b bs") auto
next
  case (Cons x xs)
  have "res_bind (memcpy_at b bs) (\<lambda>b. res_foldl put b (x # xs))
      = res_bind (res_bind (memcpy_at b bs) (\<lambda>b. put b x)) (\<lambda>b. res_foldl put b xs)"
    by (simp add: res_bind_assoc)
  also have "\<dots> = res_bind (memcpy_at b (bs @ enc x)) (\<lambda>b. res_foldl put b xs)"
    using Cons.prems by (simp add: put_then)
  finally show ?case using Cons by simp
qed

lemma get_list_iff:
  assumes "wf_reader r"
  shows "get_n get n r = Ok (xs, r') \<longleftrightarrow>
     length xs = n \<and> (\<forall>x \<in> set xs. ok x) \<and> (\<exists>s. rest r = concat (map enc xs) @ s) \<and>
     r' = skip (length (concat (map enc xs))) r"
  using assms
proof (induction n arbitrary: r xs r')
  case 0
  then show ?case by auto
next
  case (Suc n)
  have "get_n get (Suc n) r = Ok (xs, r') \<longleftrightarrow>
     (\<exists>x r1 ys. get r = Ok (x, r1) \<and> get_n get n r1 = Ok (ys, r') \<and> xs = x # ys)"
    by (auto simp: res_bind_Ok_iff split: prod.splits)
  also have "\<dots> \<longleftrightarrow> (\<exists>x r1 ys. get r = Ok (x, r1) \<and> xs = x # ys \<and> length ys = n \<and>
     (\<forall>x \<in> set ys. ok x) \<and> (\<exists>s. rest r1 = concat (map enc ys) @ s) \<and>
     r' = skip (length (concat (map enc ys))) r1)"
    using Suc.IH get_wf [OF Suc.prems] by metis
  also have "\<dots> \<longleftrightarrow> length xs = Suc n \<and> (\<forall>x \<in> set xs. ok x) \<and>
     (\<exists>s. rest r = concat (map enc xs) @ s) \<and> r' = skip (length (concat (map enc xs))) r"
    using get_iff [OF Suc.prems] by (cases xs) auto
  finally show ?case .
qed

lemma get_list_total: "wf_reader r \<Longrightarrow> decodes (get_n get n r)"
proof (induction n arbitrary: r)
  case (Suc n)
  have "decodes (res_bind (get_n get n r') (\<lambda>(xs, r). Ok (x # xs, r)))" if "wf_reader r'" for x r'
    using Suc.IH [OF that] by (auto simp: decodes_def)
  with Suc.prems show ?case by (simp add: decodes_step)
qed simp

end

section \<open>The four kinds of field\<close>

definition u32_enc :: "u32 \<Rightarrow> u8 list" where
  "u32_enc x = be_enc 4 (unat x)"

definition u64_enc :: "u64 \<Rightarrow> u8 list" where
  "u64_enc x = be_enc 8 (unat x)"

definition str_enc :: "string \<Rightarrow> u8 list" where
  "str_enc s = be_enc 4 (length s) @ bytes_of_string s"

lemma length_u32_enc [simp]: "length (u32_enc x) = 4" by (simp add: u32_enc_def)
lemma length_u64_enc [simp]: "length (u64_enc x) = 8" by (simp add: u64_enc_def)
lemma length_str_enc [simp]: "length (str_enc s) = 4 + length s" by (simp add: str_enc_def)

lemma u32_dec_enc [simp]: "(word_of_nat (be_dec (u32_enc x)) :: u32) = x"
proof -
  have "unat x < 2 ^ 32" using unsigned_less [of x, where ?'a = nat] by simp
  then show ?thesis by (simp add: u32_enc_def)
qed

lemma u32_enc_dec [simp]: "length bs = 4 \<Longrightarrow> u32_enc (word_of_nat (be_dec bs)) = bs"
  using be_dec_less [of bs] be_enc_dec [of bs 4] by (simp add: u32_enc_def unat_of_nat)

definition u64_join :: "u32 \<Rightarrow> u32 \<Rightarrow> u64" where
  "u64_join hi lo = or (push_bit 32 (ucast hi)) (ucast lo)"

lemma u64_join_parts:
  "(ucast (drop_bit 32 (u64_join hi lo)) :: u32) = hi" "(ucast (u64_join hi lo) :: u32) = lo"
  by (rule bit_word_eqI, auto simp: u64_join_def bit_simps dest: bit_imp_le_length)+

lemma u64_join_split [simp]: "u64_join (ucast (drop_bit 32 x)) (ucast x) = x"
  by (rule bit_word_eqI) (auto simp: u64_join_def bit_simps)

lemma u64_enc_split: "u64_enc x = u32_enc (ucast (drop_bit 32 x)) @ u32_enc (ucast x)"
proof -
  have x: "unat x < 2 ^ 64" using unsigned_less [of x, where ?'a = nat] by simp
  have "unat (ucast (drop_bit 32 x) :: u32) = unat x div 2 ^ 32"
    using x by (simp add: unsigned_ucast_eq unat_drop_bit_eq take_bit_eq_mod less_mult_imp_div_less
        flip: drop_bit_eq_div)
      (simp add: drop_bit_eq_div less_mult_imp_div_less)
  moreover have "be_enc 4 (unat (ucast x :: u32)) = be_enc 4 (unat x)"
    using be_enc_mod [of 4 "unat x"] by (simp add: unsigned_ucast_eq take_bit_eq_mod)
  ultimately show ?thesis
    using be_enc_append [of 4 4 "unat x"] by (simp add: u64_enc_def u32_enc_def)
qed

lemma u64_enc_join: "u64_enc (u64_join hi lo) = u32_enc hi @ u32_enc lo"
  by (simp add: u64_enc_split u64_join_parts)

lemma get_u32_iff:
  assumes "wf_reader r"
  shows "get_u32 r = Ok (x, r') \<longleftrightarrow> (\<exists>s. rest r = u32_enc x @ s) \<and> r' = skip 4 r"
proof (cases "4 \<le> length (rest r)")
  case True
  then have "get_u32 r = Ok (word_of_nat (be_dec (take 4 (rest r))), skip 4 r)"
    using assms by (simp add: get_u32_def ensure_wf fetch_wf)
  moreover have "(\<exists>s. rest r = u32_enc x @ s) \<longleftrightarrow> take 4 (rest r) = u32_enc x"
    by (metis append_eq_conv_conj append_take_drop_id length_u32_enc)
  ultimately show ?thesis using True by auto
next
  case False
  then have "get_u32 r = Throw truncated" using assms by (simp add: get_u32_def ensure_wf)
  moreover from False have "\<nexists>s. rest r = u32_enc x @ s" by auto
  ultimately show ?thesis by simp
qed

lemma get_u32_total: "wf_reader r \<Longrightarrow> decodes (get_u32 r)"
  by (cases "4 \<le> length (rest r)") (auto simp: get_u32_def ensure_wf fetch_wf)

interpretation u32: field_codec put_u32 get_u32 u32_enc "\<lambda>_. True"
  using get_u32_total by unfold_locales (simp_all add: put_u32_def u32_enc_def [symmetric] get_u32_iff)

lemma get_u64_iff:
  assumes "wf_reader r"
  shows "get_u64 r = Ok (x, r') \<longleftrightarrow> (\<exists>s. rest r = u64_enc x @ s) \<and> r' = skip 8 r"
proof -
  have "get_u64 r = Ok (x, r') \<longleftrightarrow>
    (\<exists>hi lo r1. get_u32 r = Ok (hi, r1) \<and> get_u32 r1 = Ok (lo, r') \<and> x = u64_join hi lo)"
    by (auto simp: get_u64_def u64_join_def res_bind_Ok_iff split: prod.splits)
  also have "\<dots> \<longleftrightarrow> (\<exists>hi lo s. rest r = u32_enc hi @ u32_enc lo @ s \<and> x = u64_join hi lo) \<and> r' = skip 8 r"
  proof -
    have "wf_reader (skip 4 r)" if "rest r = u32_enc hi @ s" for hi s
      using that assms by simp
    then show ?thesis using assms by (fastforce simp: get_u32_iff)
  qed
  also have "\<dots> \<longleftrightarrow> (\<exists>s. rest r = u64_enc x @ s) \<and> r' = skip 8 r"
  proof -
    have "(\<exists>hi lo. u32_enc hi @ u32_enc lo @ s = y \<and> x = u64_join hi lo) \<longleftrightarrow> u64_enc x @ s = y" for s y
      using u64_enc_split [of x] u64_join_split [of x] u64_enc_join by (metis append_assoc)
    then show ?thesis by metis
  qed
  finally show ?thesis .
qed

lemma get_u64_total: "wf_reader r \<Longrightarrow> decodes (get_u64 r)"
  unfolding get_u64_def by (intro u32.decodes_step) auto

interpretation u64: field_codec put_u64 get_u64 u64_enc "\<lambda>_. True"
  using get_u64_total
  by unfold_locales (simp_all add: put_u64_def u32.put_enc u64_enc_split memcpy_at_append get_u64_iff)

definition str_ok :: "string \<Rightarrow> bool" where
  "str_ok s \<longleftrightarrow> length s < 2 ^ 32"

lemma u32_of_nat_enc: "n < 2 ^ 32 \<Longrightarrow> u32_enc (word_of_nat n) = be_enc 4 n"
  by (simp add: u32_enc_def unat_of_nat)

lemma put_str_enc: "str_ok s \<Longrightarrow> put_str b s = memcpy_at b (str_enc s)"
  by (simp add: put_str_def u32.put_enc str_ok_def u32_of_nat_enc memcpy_at_append str_enc_def)

lemma get_str_cases:
  assumes "wf_reader r"
  shows "get_str r = Throw truncated \<and> \<not> (\<exists>n s. rest r = u32_enc n @ s \<and> unat n \<le> length s) \<or>
    (\<exists>n s. rest r = u32_enc n @ s \<and> unat n \<le> length s \<and>
       get_str r = Ok (string_of_bytes (take (unat n) s), skip (4 + unat n) r))"
proof (cases "get_u32 r")
  case (Ok y)
  then obtain n r1 where n: "get_u32 r = Ok (n, r1)" by (cases y) auto
  with u32.get_wf [OF assms n] assms have r1: "wf_reader r1" "rest r = u32_enc n @ rest r1" "r1 = skip 4 r"
    by (auto simp: get_u32_iff)
  have lt: "unat n < 2 ^ 63"
    using unsigned_less [of n, where ?'a = nat] by simp
  have uniq: "m = n \<and> s = rest r1" if "rest r = u32_enc m @ s" for m s
    using that r1(2) u32_dec_enc by (metis append_eq_append_conv length_u32_enc)
  show ?thesis
  proof (cases "unat n \<le> length (rest r1)")
    case True
    then have "get_str r = Ok (string_of_bytes (take (unat n) (rest r1)), skip (4 + unat n) r)"
      using n r1(1) lt by (simp add: get_str_def ensure_wf fetch_wf r1(3))
    with True r1 show ?thesis by blast
  next
    case False
    then have "get_str r = Throw truncated" using n r1(1) lt by (simp add: get_str_def ensure_wf)
    with False uniq show ?thesis by blast
  qed
next
  case (Throw e)
  with get_u32_total [OF assms] have "get_str r = Throw truncated" by (auto simp: get_str_def decodes_def)
  moreover have "\<nexists>n s. rest r = u32_enc n @ s"
    using Throw u32.get_enc [OF assms] by force
  ultimately show ?thesis by blast
next
  case Undef
  then show ?thesis using u32.get_safe [OF assms] by simp
qed

lemma str_enc_parts:
  "(\<exists>s. bs = str_enc x @ s) \<and> str_ok x \<longleftrightarrow>
   (\<exists>n s. bs = u32_enc n @ s \<and> unat n \<le> length s \<and> x = string_of_bytes (take (unat n) s))"
  (is "?L \<longleftrightarrow> ?R")
proof
  assume ?L
  then obtain s where "bs = u32_enc (word_of_nat (length x)) @ bytes_of_string x @ s" "length x < 2 ^ 32"
    by (auto simp: str_enc_def str_ok_def u32_of_nat_enc)
  moreover have "unat (word_of_nat (length x) :: u32) = length x"
    using \<open>length x < 2 ^ 32\<close> by (simp add: unat_of_nat)
  ultimately show ?R by (intro exI [of _ "word_of_nat (length x)"] exI [of _ "bytes_of_string x @ s"]) simp
next
  assume ?R
  then obtain n s where ns: "bs = u32_enc n @ s" "unat n \<le> length s" "x = string_of_bytes (take (unat n) s)"
    by blast
  then have "length x = unat n" "bytes_of_string x = take (unat n) s" by simp_all
  moreover have "unat n < 2 ^ 32" using unsigned_less [of n, where ?'a = nat] by simp
  ultimately have "str_ok x" "bs = str_enc x @ drop (unat n) s"
    using ns(1) by (simp_all add: str_ok_def str_enc_def u32_enc_def)
  then show ?L by blast
qed

lemma get_str_iff:
  assumes "wf_reader r"
  shows "get_str r = Ok (x, r') \<longleftrightarrow>
    str_ok x \<and> (\<exists>s. rest r = str_enc x @ s) \<and> r' = skip (length (str_enc x)) r"
proof -
  have uniq: "m = n \<and> s = t" if "rest r = u32_enc m @ s" "rest r = u32_enc n @ t" for m n s t
    using that u32_dec_enc by (metis append_eq_append_conv length_u32_enc)
  have "get_str r = Ok (x, r') \<longleftrightarrow> (\<exists>n s. rest r = u32_enc n @ s \<and> unat n \<le> length s \<and>
     x = string_of_bytes (take (unat n) s)) \<and> r' = skip (4 + length x) r"
    using get_str_cases [OF assms]
  proof (elim disjE conjE exE)
    fix n s
    assume ns: "rest r = u32_enc n @ s" "unat n \<le> length s"
      "get_str r = Ok (string_of_bytes (take (unat n) s), skip (4 + unat n) r)"
    then have "length (string_of_bytes (take (unat n) s)) = unat n" by simp
    then show ?thesis using ns uniq [OF ns(1)] by (metis Pair_inject res.inject(1))
  qed auto
  then show ?thesis using str_enc_parts [of "rest r" x] by auto
qed

lemma get_str_total: "wf_reader r \<Longrightarrow> decodes (get_str r)"
  using get_str_cases by (fastforce simp: decodes_def)

interpretation str: field_codec put_str get_str str_enc str_ok
  using get_str_total by unfold_locales (simp_all add: put_str_enc get_str_iff)

definition hash_ok :: "u8 list \<Rightarrow> bool" where
  "hash_ok h \<longleftrightarrow> length h = HASH_SIZE"

lemma get_hash_iff:
  assumes "wf_reader r"
  shows "get_bytes HASH_SIZE r = Ok (h, r') \<longleftrightarrow>
    hash_ok h \<and> (\<exists>s. rest r = h @ s) \<and> r' = skip (length h) r"
proof (cases "HASH_SIZE \<le> length (rest r)")
  case True
  have "(\<exists>s. rest r = h @ s) \<and> hash_ok h \<longleftrightarrow> h = take HASH_SIZE (rest r)"
    using True by (metis append_eq_conv_conj append_take_drop_id hash_ok_def length_take min.absorb2)
  moreover have "get_bytes HASH_SIZE r = Ok (take HASH_SIZE (rest r), skip HASH_SIZE r)"
    using True assms by (simp add: get_bytes_def ensure_wf fetch_wf HASH_SIZE_def)
  ultimately show ?thesis by (metis Pair_inject hash_ok_def res.inject(1))
next
  case False
  then show ?thesis using assms
    by (auto simp: get_bytes_def ensure_wf hash_ok_def HASH_SIZE_def)
qed

lemma get_hash_total:
  "wf_reader r \<Longrightarrow> decodes (get_bytes HASH_SIZE r)"
  by (cases "HASH_SIZE \<le> length (rest r)") (auto simp: get_bytes_def ensure_wf fetch_wf HASH_SIZE_def)

interpretation hash: field_codec put_bytes "get_bytes HASH_SIZE" "\<lambda>h. h" hash_ok
  using get_hash_total by unfold_locales (simp_all add: put_bytes_def get_hash_iff)

section \<open>Builders and parsers meet the layout\<close>

text \<open>The payload layouts the header documents, as functions of the values.\<close>

definition filemeta_enc :: "file_meta \<Rightarrow> u8 list" where
  "filemeta_enc m = u64_enc (file_size m) @ str_enc (file_name m) @ u32_enc (chunk_size m)
     @ u32_enc (chunk_count m) @ concat (chunk_hashes m)"

definition filemeta_ok :: "file_meta \<Rightarrow> bool" where
  "filemeta_ok m \<longleftrightarrow> str_ok (file_name m) \<and> length (chunk_hashes m) = unat (chunk_count m)
     \<and> (\<forall>h \<in> set (chunk_hashes m). hash_ok h)"

lemma length_concat_hashes:
  "\<forall>h \<in> set hs. hash_ok h \<Longrightarrow> length (concat hs) = length hs * HASH_SIZE"
  by (induction hs) (auto simp: hash_ok_def)

lemma length_filemeta_enc:
  "filemeta_ok m \<Longrightarrow> length (filemeta_enc m)
     = FILE_SIZE_BYTES + LEN_PREFIX_BYTES + length (file_name m) + 4 + 4 + unat (chunk_count m) * HASH_SIZE"
  by (simp add: filemeta_enc_def filemeta_ok_def length_concat_hashes
      FILE_SIZE_BYTES_def LEN_PREFIX_BYTES_def)

lemma make_filemeta_writes:
  assumes "filemeta_ok m"
  shows "res_bind (put_u64 b (file_size m)) (\<lambda>b.
         res_bind (put_str b (file_name m)) (\<lambda>b.
         res_bind (put_u32 b (chunk_size m)) (\<lambda>b.
         res_bind (put_u32 b (chunk_count m)) (\<lambda>b.
           res_foldl put_bytes b (chunk_hashes m))))) = memcpy_at b (filemeta_enc m)"
proof -
  have ok: "str_ok (file_name m)" "\<forall>h \<in> set (chunk_hashes m). hash_ok h"
    using assms by (simp_all add: filemeta_ok_def)
  let ?a = "u64_enc (file_size m)"
  let ?b = "?a @ str_enc (file_name m)"
  let ?c = "?b @ u32_enc (chunk_size m)"
  let ?d = "?c @ u32_enc (chunk_count m)"
  have "res_bind (memcpy_at b ?a) (\<lambda>b. put_str b (file_name m)) = memcpy_at b ?b"
    by (rule str.put_then [OF ok(1)])
  moreover have "res_bind (memcpy_at b ?b) (\<lambda>b. put_u32 b (chunk_size m)) = memcpy_at b ?c"
    by (rule u32.put_then) simp
  moreover have "res_bind (memcpy_at b ?c) (\<lambda>b. put_u32 b (chunk_count m)) = memcpy_at b ?d"
    by (rule u32.put_then) simp
  moreover have "res_bind (memcpy_at b ?d) (\<lambda>b. res_foldl put_bytes b (chunk_hashes m))
      = memcpy_at b (?d @ concat (chunk_hashes m))"
    using hash.put_list [OF ok(2)] by simp
  ultimately show ?thesis
    by (simp add: u64.put_enc filemeta_enc_def flip: res_bind_assoc)
qed

lemma make_filemeta_Ok:
  assumes "filemeta_ok m"
  shows "make_filemeta m = Ok \<lparr>m_type = FILE_META, m_payload = filemeta_enc m\<rparr>"
proof -
  have "make_filemeta m = res_bind (res_bind (put_u64 (replicate (length (filemeta_enc m)) 0, 0) (file_size m)) (\<lambda>b.
         res_bind (put_str b (file_name m)) (\<lambda>b.
         res_bind (put_u32 b (chunk_size m)) (\<lambda>b.
         res_bind (put_u32 b (chunk_count m)) (\<lambda>b.
           res_foldl put_bytes b (chunk_hashes m))))))
      (\<lambda>(buf, _). Ok \<lparr>m_type = FILE_META, m_payload = buf\<rparr>)"
    using assms by (simp add: make_filemeta_def length_filemeta_enc [OF assms] filemeta_ok_def
        res_bind_assoc Let_def)
  also have "\<dots> = Ok \<lparr>m_type = FILE_META, m_payload = filemeta_enc m\<rparr>"
    unfolding make_filemeta_writes [OF assms] by (simp add: memcpy_at_whole)
  finally show ?thesis .
qed

lemma make_handshake_Ok:
  "str_ok (token p) \<Longrightarrow> make_handshake p = Ok \<lparr>m_type = HANDSHAKE, m_payload = str_enc (token p)\<rparr>"
  by (simp add: make_handshake_def str.put_enc memcpy_at_whole LEN_PREFIX_BYTES_def)

lemma make_chunk_req_Ok [simp]:
  "make_chunk_req q = Ok \<lparr>m_type = CHUNK_REQ, m_payload = u32_enc (req_index q)\<rparr>"
  using memcpy_at_whole [of "u32_enc (req_index q)" 4] by (simp add: make_chunk_req_def u32.put_enc)

lemma make_chunk_hdr_Ok [simp]:
  "make_chunk_hdr h = Ok \<lparr>m_type = CHUNK_HDR, m_payload = u32_enc (hdr_index h)\<rparr>"
  using memcpy_at_whole [of "u32_enc (hdr_index h)" 4] by (simp add: make_chunk_hdr_def u32.put_enc)

lemma ensure_hashes:
  "wf_reader r \<Longrightarrow> ensure r (unat (n :: u32) * HASH_SIZE)
     = (if unat n * HASH_SIZE \<le> length (rest r) then Ok () else Throw truncated)"
  by (rule ensure_wf) (use unsigned_less [of n, where ?'a = nat] in \<open>simp_all add: HASH_SIZE_def\<close>)

lemma parse_filemeta_complete:
  assumes "m_type msg = FILE_META" and "length (m_payload msg) < 2 ^ 63"
    and "filemeta_ok m" and "m_payload msg = filemeta_enc m @ s"
  shows "parse_filemeta msg = Ok m"
proof -
  let ?r = "reader_of msg"
  let ?s1 = "str_enc (file_name m) @ u32_enc (chunk_size m) @ u32_enc (chunk_count m)
     @ concat (chunk_hashes m) @ s"
  let ?s2 = "u32_enc (chunk_size m) @ u32_enc (chunk_count m) @ concat (chunk_hashes m) @ s"
  let ?s3 = "u32_enc (chunk_count m) @ concat (chunk_hashes m) @ s"
  let ?s4 = "concat (chunk_hashes m) @ s"
  have ok: "str_ok (file_name m)" "\<forall>h \<in> set (chunk_hashes m). hash_ok h"
    "length (chunk_hashes m) = unat (chunk_count m)"
    using assms(3) by (simp_all add: filemeta_ok_def)
  have r: "wf_reader ?r" "rest ?r = u64_enc (file_size m) @ ?s1"
    using assms by (simp_all add: filemeta_enc_def)
  obtain r1 where 1: "get_u64 ?r = Ok (file_size m, r1)" "wf_reader r1" "rest r1 = ?s1"
    using u64.get_enc [OF r(1) _ r(2)] u64.get_wf [OF r(1)] r(2) by fastforce
  obtain r2 where 2: "get_str r1 = Ok (file_name m, r2)" "wf_reader r2" "rest r2 = ?s2"
    using str.get_enc [OF 1(2) ok(1) 1(3)] str.get_wf [OF 1(2)] 1(3) by fastforce
  obtain r3 where 3: "get_u32 r2 = Ok (chunk_size m, r3)" "wf_reader r3" "rest r3 = ?s3"
    using u32.get_enc [OF 2(2) _ 2(3)] u32.get_wf [OF 2(2)] 2(3) by fastforce
  obtain r4 where 4: "get_u32 r3 = Ok (chunk_count m, r4)" "wf_reader r4" "rest r4 = ?s4"
    using u32.get_enc [OF 3(2) _ 3(3)] u32.get_wf [OF 3(2)] 3(3) by fastforce
  have 5: "ensure r4 (unat (chunk_count m) * HASH_SIZE) = Ok ()"
    using ensure_hashes [OF 4(2)] 4(3) ok length_concat_hashes [OF ok(2)] by simp
  obtain r5 where 6: "get_n (get_bytes HASH_SIZE) (unat (chunk_count m)) r4 = Ok (chunk_hashes m, r5)"
    using hash.get_list_iff [OF 4(2)] ok 4(3) by auto
  show ?thesis using assms(1) 1 2 3 4 5 6 by (simp add: parse_filemeta_def)
qed

lemma parse_filemeta_sound:
  assumes "length (m_payload msg) < 2 ^ 63" and "parse_filemeta msg = Ok m"
  shows "m_type msg = FILE_META \<and> filemeta_ok m \<and> (\<exists>s. m_payload msg = filemeta_enc m @ s)"
proof -
  let ?r = "reader_of msg"
  have r: "wf_reader ?r" using assms(1) by simp
  obtain size r1 name r2 cs r3 cnt r4 hs r5 where
    1: "get_u64 ?r = Ok (size, r1)" and 2: "get_str r1 = Ok (name, r2)"
    and 3: "get_u32 r2 = Ok (cs, r3)" and 4: "get_u32 r3 = Ok (cnt, r4)"
    and 5: "get_n (get_bytes HASH_SIZE) (unat cnt) r4 = Ok (hs, r5)"
    and m: "m = \<lparr>file_name = name, file_size = size, chunk_size = cs, chunk_count = cnt, chunk_hashes = hs\<rparr>"
    and ty: "m_type msg = FILE_META"
    using assms(2) by (auto simp: parse_filemeta_def res_bind_Ok_iff split: if_splits prod.splits)
  note w1 = u64.get_wf [OF r 1]
  note w2 = str.get_wf [OF conjunct1 [OF w1] 2]
  note w3 = u32.get_wf [OF conjunct1 [OF w2] 3]
  note w4 = u32.get_wf [OF conjunct1 [OF w3] 4]
  have "str_ok name" using 2 w1 by (simp add: get_str_iff)
  moreover have "length hs = unat cnt" "\<forall>h \<in> set hs. hash_ok h" "\<exists>s. rest r4 = concat hs @ s"
    using hash.get_list_iff [of r4 "unat cnt" hs r5] 5 w4 by auto
  ultimately show ?thesis using w1 w2 w3 w4 ty m
    by (auto simp: filemeta_ok_def filemeta_enc_def)
qed

lemma parse_filemeta_total:
  assumes "length (m_payload msg) < 2 ^ 63" and "m_type msg = FILE_META"
  shows "decodes (parse_filemeta msg)"
proof -
  have "decodes (res_bind (ensure r (unat count * HASH_SIZE)) (\<lambda>_.
          res_bind (get_n (get_bytes HASH_SIZE) (unat count) r) (\<lambda>(hashes, r). Ok (g hashes))))"
    if "wf_reader r" for r g and count :: u32
    using hash.get_list_total [OF that, of "unat count"]
    by (auto simp: ensure_hashes [OF that] decodes_def)
  moreover have "wf_reader (reader_of msg)" using assms(1) by simp
  ultimately show ?thesis unfolding parse_filemeta_def
    unfolding assms(2) by (simp, intro u64.decodes_step str.decodes_step u32.decodes_step)
qed

lemma parse_handshake_iff:
  assumes "length (m_payload msg) < 2 ^ 63"
  shows "parse_handshake msg = Ok p \<longleftrightarrow>
    m_type msg = HANDSHAKE \<and> str_ok (token p) \<and> (\<exists>s. m_payload msg = str_enc (token p) @ s)"
  using assms by (cases p) (auto simp: parse_handshake_def res_bind_Ok_iff get_str_iff split: prod.splits)

lemma parse_chunk_req_iff:
  assumes "length (m_payload msg) < 2 ^ 63"
  shows "parse_chunk_req msg = Ok q \<longleftrightarrow>
    m_type msg = CHUNK_REQ \<and> (\<exists>s. m_payload msg = u32_enc (req_index q) @ s)"
  using assms by (cases q) (auto simp: parse_chunk_req_def res_bind_Ok_iff get_u32_iff split: prod.splits)

lemma parse_chunk_hdr_iff:
  assumes "length (m_payload msg) < 2 ^ 63"
  shows "parse_chunk_hdr msg = Ok q \<longleftrightarrow>
    m_type msg = CHUNK_HDR \<and> (\<exists>s. m_payload msg = u32_enc (hdr_index q) @ s)"
  using assms by (cases q) (auto simp: parse_chunk_hdr_def res_bind_Ok_iff get_u32_iff split: prod.splits)

lemma parse_no_Undef:
  assumes "length (m_payload msg) < 2 ^ 63"
  shows "parse_filemeta msg \<noteq> Undef" "parse_handshake msg \<noteq> Undef"
    "parse_chunk_req msg \<noteq> Undef" "parse_chunk_hdr msg \<noteq> Undef" "parse_error msg \<noteq> Undef"
proof -
  have r: "wf_reader (reader_of msg)" using assms by simp
  show "parse_filemeta msg \<noteq> Undef"
  proof (cases "m_type msg = FILE_META")
    case True
    then show ?thesis using parse_filemeta_total [OF assms True] decodes_not_Undef by blast
  qed (simp add: parse_filemeta_def)
  show "parse_handshake msg \<noteq> Undef"
    using str.get_safe [OF r] by (auto simp: parse_handshake_def res_bind_Undef_iff split: prod.splits)
  show "parse_chunk_req msg \<noteq> Undef"
    using u32.get_safe [OF r] by (auto simp: parse_chunk_req_def res_bind_Undef_iff split: prod.splits)
  show "parse_chunk_hdr msg \<noteq> Undef"
    using u32.get_safe [OF r] by (auto simp: parse_chunk_hdr_def res_bind_Undef_iff split: prod.splits)
  show "parse_error msg \<noteq> Undef" by (simp add: parse_error_def)
qed

section \<open>Frames\<close>

text \<open>
  \<open>frame msg\<close> is what a message looks like on the wire; \<open>msg_ok\<close> what a receiver
  accepts.
\<close>

definition frame :: "message \<Rightarrow> u8 list" where
  "frame msg = [PROTOCOL_VERSION, msg_code (m_type msg)] @ be_enc 4 (length (m_payload msg)) @ m_payload msg"

definition msg_ok :: "message \<Rightarrow> bool" where
  "msg_ok msg \<longleftrightarrow> m_type msg \<noteq> INVALID \<and> length (m_payload msg) \<le> unat MAX_PAYLOAD_SIZE"

lemma unat_MAX_PAYLOAD_SIZE: "unat MAX_PAYLOAD_SIZE = 67108864"
  by (simp add: MAX_PAYLOAD_SIZE_def)

lemma msg_ok_length: "msg_ok msg \<Longrightarrow> length (m_payload msg) < 2 ^ 32"
  by (simp add: msg_ok_def unat_MAX_PAYLOAD_SIZE)

lemma length_frame [simp]: "length (frame msg) = HEADER_SIZE + length (m_payload msg)"
  by (simp add: frame_def HEADER_SIZE_def)

lemma length_msg_header [simp]: "length (msg_header msg) = HEADER_SIZE"
  by (simp add: msg_header_def HEADER_SIZE_def)

lemma frame_header:
  "length (m_payload msg) < 2 ^ 32 \<Longrightarrow> frame msg = msg_header msg @ m_payload msg"
  by (simp add: frame_def msg_header_def unat_of_nat)

lemma msg_type_of_code [simp]: "msg_type_of (msg_code t) = t"
  by (cases t) (simp_all add: msg_type_of_def)

lemma msg_code_valid: "1 \<le> msg_code t \<and> msg_code t \<le> 8 \<longleftrightarrow> t \<noteq> INVALID"
  by (cases t) simp_all

lemma u8_between: "1 \<le> b \<and> b \<le> 8 \<longleftrightarrow> b \<in> {1, 2, 3, 4, 5, 6, 7, 8 :: u8}"
proof
  assume "1 \<le> b \<and> b \<le> 8"
  then have "1 \<le> unat b" "unat b \<le> 8" by (simp_all add: word_le_nat_alt)
  then have "unat b \<in> {1, 2, 3, 4, 5, 6, 7, 8}" by auto
  then show "b \<in> {1, 2, 3, 4, 5, 6, 7, 8}" by (simp add: word_unat_eq_iff)
qed auto

lemma msg_code_type_of: "1 \<le> b \<Longrightarrow> b \<le> 8 \<Longrightarrow> msg_code (msg_type_of b) = b"
  using u8_between [of b] by (auto simp: msg_type_of_def)

text \<open>What \<^verbatim>\<open>recv_msg\<close> reads out of six header bytes.\<close>

definition hdr_type :: "u8 list \<Rightarrow> u8" where
  "hdr_type hdr = hdr ! 1"

definition hdr_len :: "u8 list \<Rightarrow> nat" where
  "hdr_len hdr = be_dec (region 2 4 hdr)"

definition hdr_ok :: "u8 list \<Rightarrow> bool" where
  "hdr_ok hdr \<longleftrightarrow> hdr ! 0 = PROTOCOL_VERSION \<and> 1 \<le> hdr_type hdr \<and> hdr_type hdr \<le> 8
     \<and> hdr_len hdr \<le> unat MAX_PAYLOAD_SIZE"

lemma hdr_len_less: "length hdr = HEADER_SIZE \<Longrightarrow> hdr_len hdr < 2 ^ 32"
  using be_dec_less [of "region 2 4 hdr"] by (simp add: hdr_len_def HEADER_SIZE_def)

lemma hdr_ok_frame:
  assumes "length hdr = HEADER_SIZE" and "hdr_ok hdr" and "length bs = hdr_len hdr"
  shows "frame \<lparr>m_type = msg_type_of (hdr_type hdr), m_payload = bs\<rparr> = hdr @ bs"
    and "msg_ok \<lparr>m_type = msg_type_of (hdr_type hdr), m_payload = bs\<rparr>"
proof -
  have c: "msg_code (msg_type_of (hdr_type hdr)) = hdr_type hdr"
    using assms(2) by (simp add: hdr_ok_def msg_code_type_of)
  obtain a b c d e f where h: "hdr = [a, b, c, d, e, f]"
    using assms(1) by (auto simp: HEADER_SIZE_def eval_nat_numeral length_Suc_conv)
  have "be_enc 4 (hdr_len hdr) = [c, d, e, f]"
    using h be_enc_dec [of "[c, d, e, f]" 4] by (simp add: hdr_len_def region_def)
  then show "frame \<lparr>m_type = msg_type_of (hdr_type hdr), m_payload = bs\<rparr> = hdr @ bs"
    using c assms(2,3) h by (simp add: frame_def hdr_ok_def hdr_type_def)
  show "msg_ok \<lparr>m_type = msg_type_of (hdr_type hdr), m_payload = bs\<rparr>"
    using assms(2,3) c msg_code_valid [of "msg_type_of (hdr_type hdr)"]
    by (simp add: msg_ok_def hdr_ok_def)
qed

lemma frame_hdr:
  assumes "msg_ok msg"
  shows "hdr_ok (msg_header msg)" and "hdr_type (msg_header msg) = msg_code (m_type msg)"
    and "hdr_len (msg_header msg) = length (m_payload msg)"
proof -
  show "hdr_type (msg_header msg) = msg_code (m_type msg)" by (simp add: hdr_type_def msg_header_def)
  moreover show "hdr_len (msg_header msg) = length (m_payload msg)"
    using msg_ok_length [OF assms]
    by (simp add: hdr_len_def msg_header_def region_def unat_of_nat)
  ultimately show "hdr_ok (msg_header msg)"
    using assms msg_code_valid [of "m_type msg"] by (simp add: hdr_ok_def msg_ok_def)
      (simp add: msg_header_def)
qed

text \<open>Frames are self-delimiting: a byte stream begins with at most one of them.\<close>

lemma frame_prefix:
  assumes "frame m1 @ s1 = frame m2 @ s2"
    and "length (m_payload m1) < 2 ^ 32" and "length (m_payload m2) < 2 ^ 32"
  shows "m1 = m2 \<and> s1 = s2"
proof -
  have "msg_code (m_type m1) = msg_code (m_type m2)"
    and eq: "be_enc 4 (length (m_payload m1)) @ m_payload m1 @ s1 = be_enc 4 (length (m_payload m2)) @ m_payload m2 @ s2"
    using assms(1) by (simp_all add: frame_def)
  from eq have "be_enc 4 (length (m_payload m1)) = be_enc 4 (length (m_payload m2))"
    and pl: "m_payload m1 @ s1 = m_payload m2 @ s2" by simp_all
  then have "be_dec (be_enc 4 (length (m_payload m1))) = be_dec (be_enc 4 (length (m_payload m2)))"
    by simp
  then have "length (m_payload m1) = length (m_payload m2)" using assms(2,3) by simp
  with pl have "m_payload m1 = m_payload m2" "s1 = s2" by simp_all
  with \<open>msg_code (m_type m1) = msg_code (m_type m2)\<close> show ?thesis by (cases m1; cases m2) simp
qed

lemma recv_msg_eq:
  assumes "recv_exact t HEADER_SIZE w = Some (Ok hdr, w1)" and "length hdr = HEADER_SIZE" and "hdr_ok hdr"
  shows "recv_msg t w = io_bind (if hdr_len hdr > 0 then recv_exact t (hdr_len hdr) else io_ret [])
           (\<lambda>bs. io_ret \<lparr>m_type = msg_type_of (hdr_type hdr), m_payload = bs\<rparr>) w1"
proof -
  have n: "unat (word_of_nat (be_dec (region 2 4 hdr)) :: u32) = hdr_len hdr"
    using hdr_len_less [OF assms(2)] by (simp add: hdr_len_def unat_of_nat)
  have gt: "((word_of_nat (be_dec (region 2 4 hdr)) :: u32) > MAX_PAYLOAD_SIZE) = (hdr_len hdr > unat MAX_PAYLOAD_SIZE)"
    "((word_of_nat (be_dec (region 2 4 hdr)) :: u32) > 0) = (hdr_len hdr > 0)"
    by (simp_all only: word_less_nat_alt n unsigned_0)
  have "\<not> (hdr ! 1 < msg_code HANDSHAKE \<or> msg_code CANCEL < hdr ! 1)"
    using assms(3) by (auto simp: hdr_ok_def hdr_type_def not_less)
  then show ?thesis
    using assms by (cases "hdr_len hdr > 0")
      (simp_all add: recv_msg_def Let_def gt n hdr_ok_def hdr_type_def)
qed

lemma recv_msg_bad:
  assumes "recv_exact t HEADER_SIZE w = Some (Ok hdr, w1)" and "length hdr = HEADER_SIZE" and "\<not> hdr_ok hdr"
  shows "\<exists>s. recv_msg t w = Some (Throw (Runtime_error s), w1)"
proof -
  have n: "unat (word_of_nat (be_dec (region 2 4 hdr)) :: u32) = hdr_len hdr"
    using hdr_len_less [OF assms(2)] by (simp add: hdr_len_def unat_of_nat)
  have gt: "((word_of_nat (be_dec (region 2 4 hdr)) :: u32) > MAX_PAYLOAD_SIZE) = (hdr_len hdr > unat MAX_PAYLOAD_SIZE)"
    by (simp only: word_less_nat_alt n)
  show ?thesis
    using assms by (auto simp: recv_msg_def Let_def gt hdr_ok_def hdr_type_def not_le)
qed

context stream_transport
begin

lemma send_msg_result:
  assumes "send_msg t msg w = Some (r, w')" and "tinv w"
  shows "same_os w w' \<and> later w w' \<and> inbox w' = inbox w \<and> r \<noteq> Undef"
    and "r = Ok () \<Longrightarrow> moved_out w (msg_header msg @ m_payload msg) w'"
proof -
  obtain q w1 where q: "send_exact t (msg_header msg) w = Some (q, w1)"
    using assms(1) by (cases "send_exact t (msg_header msg) w") (auto simp: send_msg_def)
  note H = send_exact_result [OF q assms(2)]
  have "(same_os w w' \<and> later w w' \<and> inbox w' = inbox w \<and> r \<noteq> Undef) \<and>
        (r = Ok () \<longrightarrow> moved_out w (msg_header msg @ m_payload msg) w')"
  proof (cases "q = Ok () \<and> m_payload msg \<noteq> []")
    case True
    then have s: "send_exact t (m_payload msg) w1 = Some (r, w')"
      using assms(1) q by (simp add: send_msg_def)
    have m: "moved_out w (msg_header msg) w1" using H True by simp
    then have "tinv w1" by (simp add: moved_out_def)
    note P = send_exact_result [OF s this]
    show ?thesis using H(1) P moved_out_trans [OF m]
      by (auto intro: same_os_trans later_trans)
  next
    case False
    then have "r = q" "w' = w1" "q = Ok () \<longrightarrow> m_payload msg = []"
      using assms(1) q by (cases q; auto simp: send_msg_def)+
    then show ?thesis using H by auto
  qed
  then show "same_os w w' \<and> later w w' \<and> inbox w' = inbox w \<and> r \<noteq> Undef"
    and "r = Ok () \<Longrightarrow> moved_out w (msg_header msg @ m_payload msg) w'" by blast+
qed

lemma recv_msg_result:
  assumes "recv_msg t w = Some (r, w')" and "tinv w"
  shows "same_os w w' \<and> later w w' \<and> outbox w' = outbox w \<and> r \<noteq> Undef"
    and "r = Ok msg \<Longrightarrow> msg_ok msg \<and> moved_in w (frame msg) w'"
proof -
  obtain q w1 where q: "recv_exact t HEADER_SIZE w = Some (q, w1)"
    using assms(1) by (cases "recv_exact t HEADER_SIZE w") (auto simp: recv_msg_def)
  note H = recv_exact_result [OF q assms(2)]
  have "(same_os w w' \<and> later w w' \<and> outbox w' = outbox w \<and> r \<noteq> Undef) \<and>
        (r = Ok msg \<longrightarrow> msg_ok msg \<and> moved_in w (frame msg) w')"
  proof (cases q)
    case (Ok hdr)
    then have len: "length hdr = HEADER_SIZE" and m: "moved_in w hdr w1" using H by auto
    then have "tinv w1" by (simp add: moved_in_def)
    show ?thesis
    proof (cases "hdr_ok hdr")
      case False
      with recv_msg_bad [OF q [unfolded Ok] len] assms(1) H(1) show ?thesis by auto
    next
      case True
      note eq = recv_msg_eq [OF q [unfolded Ok] len True]
      show ?thesis
      proof (cases "hdr_len hdr > 0")
        case pos: True
        then obtain p w2 where p: "recv_exact t (hdr_len hdr) w1 = Some (p, w2)"
          using assms(1) eq by (cases "recv_exact t (hdr_len hdr) w1") auto
        note P = recv_exact_result [OF p \<open>tinv w1\<close>]
        have "w' = w2" "r = Ok msg \<longrightarrow> (\<exists>bs. p = Ok bs \<and> msg = \<lparr>m_type = msg_type_of (hdr_type hdr), m_payload = bs\<rparr>)"
          "r = Undef \<longrightarrow> p = Undef"
          using eq pos p assms(1) by (cases p; auto)+
        then show ?thesis using H P moved_in_trans [OF m] hdr_ok_frame [OF len True]
          by (auto intro: same_os_trans later_trans)
      next
        case False
        then have "w' = w1" "r = Ok \<lparr>m_type = msg_type_of (hdr_type hdr), m_payload = []\<rparr>"
          using eq assms(1) by auto
        then show ?thesis using H(1) m hdr_ok_frame [OF len True, of "[]"] False by auto
      qed
    qed
  next
    case (Throw e)
    then show ?thesis using q assms(1) H(1) by (auto simp: recv_msg_def)
  next
    case Undef
    then show ?thesis using H(1) by simp
  qed
  then show "same_os w w' \<and> later w w' \<and> outbox w' = outbox w \<and> r \<noteq> Undef"
    and "r = Ok msg \<Longrightarrow> msg_ok msg \<and> moved_in w (frame msg) w'" by blast+
qed

end

context live_transport
begin

lemma send_msg_live:
  assumes "tinv w" and "fair w" and "HEADER_SIZE + length (m_payload msg) \<le> fuel w"
  shows "\<exists>w'. send_msg t msg w = Some (Ok (), w')
           \<and> fuel w - (HEADER_SIZE + length (m_payload msg)) \<le> fuel w'"
proof -
  obtain w1 where 1: "send_exact t (msg_header msg) w = Some (Ok (), w1)" "fuel w - HEADER_SIZE \<le> fuel w1"
    using send_exact_live [OF assms(1,2), of "msg_header msg"] assms(3) by auto
  have m: "tinv w1" "later w w1"
    using send_exact_result(2) [OF 1(1) assms(1)] by (simp_all add: moved_out_def)
  show ?thesis
  proof (cases "m_payload msg = []")
    case True
    then show ?thesis using 1 by (simp add: send_msg_def)
  next
    case False
    have f: "length (m_payload msg) \<le> fuel w1" using 1(2) assms(3) by linarith
    obtain w2 where "send_exact t (m_payload msg) w1 = Some (Ok (), w2)"
      "fuel w1 - length (m_payload msg) \<le> fuel w2"
      using send_exact_live [OF m(1) fair_later [OF assms(2) m(2)] f] by auto
    moreover from this(2) 1(2) have "fuel w - (HEADER_SIZE + length (m_payload msg)) \<le> fuel w2" by linarith
    ultimately show ?thesis using 1 False by (simp add: send_msg_def)
  qed
qed

lemma recv_msg_live:
  assumes "tinv w" and "fair w" and "msg_ok msg" and "inbox w = frame msg @ s"
    and "HEADER_SIZE + length (m_payload msg) \<le> fuel w"
  shows "\<exists>w'. recv_msg t w = Some (Ok msg, w') \<and> inbox w' = s
           \<and> fuel w - (HEADER_SIZE + length (m_payload msg)) \<le> fuel w'"
proof -
  have fr: "frame msg = msg_header msg @ m_payload msg"
    by (rule frame_header) (rule msg_ok_length [OF assms(3)])
  obtain hdr w1 where 1: "recv_exact t HEADER_SIZE w = Some (Ok hdr, w1)" "fuel w - HEADER_SIZE \<le> fuel w1"
    using recv_exact_live [OF assms(1,2), of HEADER_SIZE] assms(4,5) by fastforce
  then have m: "length hdr = HEADER_SIZE" "moved_in w hdr w1"
    using recv_exact_result [OF 1(1) assms(1)] by auto
  then have m': "tinv w1" "later w w1" "hdr = msg_header msg" "inbox w1 = m_payload msg @ s"
    using assms(4) fr by (simp_all add: moved_in_def)
  note h = frame_hdr [OF assms(3), folded m'(3)]
  note eq = recv_msg_eq [OF 1(1) m(1) h(1), unfolded h]
  have "\<exists>msg' w'. recv_msg t w = Some (Ok msg', w') \<and>
      fuel w - (HEADER_SIZE + length (m_payload msg)) \<le> fuel w'"
  proof (cases "length (m_payload msg) > 0")
    case False
    then show ?thesis using eq 1(2) by simp
  next
    case True
    have f: "length (m_payload msg) \<le> fuel w1" using 1(2) assms(5) by linarith
    obtain bs w2 where "recv_exact t (length (m_payload msg)) w1 = Some (Ok bs, w2)"
      "fuel w1 - length (m_payload msg) \<le> fuel w2"
      using recv_exact_live [OF m'(1) fair_later [OF assms(2) m'(2)] f] m'(4) by auto
    moreover from this(2) 1(2) have "fuel w - (HEADER_SIZE + length (m_payload msg)) \<le> fuel w2" by linarith
    ultimately show ?thesis using eq True by simp
  qed
  then obtain msg' w' where r: "recv_msg t w = Some (Ok msg', w')"
    "fuel w - (HEADER_SIZE + length (m_payload msg)) \<le> fuel w'" by blast
  from recv_msg_result(2) [OF r(1) assms(1)] have "msg_ok msg'" "inbox w = frame msg' @ inbox w'"
    by (simp_all add: moved_in_def)
  then have "msg' = msg \<and> inbox w' = s" using frame_prefix [of msg' "inbox w'" msg s]
      assms(3,4) msg_ok_length by metis
  with r show ?thesis by auto
qed

end

section \<open>Rules for message exchange\<close>

context live_transport
begin

lemma wp_send_msg:
  assumes "tinv w" and "length (m_payload msg) < 2 ^ 32"
    and rd: "ready b w (HEADER_SIZE + length (m_payload msg) + n)"
    and ok: "\<And>w'. moved_out w (frame msg) w' \<Longrightarrow> ready b w' n \<Longrightarrow> Q (Ok ()) w'"
    and fail: "\<And>w' e. b \<Longrightarrow> broken w w' \<Longrightarrow> Q (Throw e) w'"
  shows "wp b (send_msg t msg) Q w"
proof -
  have out: "Q r w'" if run: "send_msg t msg w = Some (r, w')"
    and nb: "\<not> b \<longrightarrow> r = Ok () \<and> fuel w - (HEADER_SIZE + length (m_payload msg)) \<le> fuel w'" for r w'
  proof -
    note L = send_msg_result [OF run assms(1)]
    show ?thesis
    proof (cases r)
      case (Ok u)
      then have m: "moved_out w (frame msg) w'" using L(2) frame_header [OF assms(2)] by simp
      then show ?thesis unfolding Ok using ok [OF m] moved_out_ready [OF m rd] nb by simp
    next
      case (Throw e)
      then show ?thesis using L(1) nb fail by (auto simp: broken_def tidy_same_os same_os_def)
    qed (use L(1) in simp)
  qed
  show ?thesis
  proof (cases b)
    case True
    then show ?thesis by (auto intro!: wpI out)
  next
    case False
    then have "fair w" "HEADER_SIZE + length (m_payload msg) \<le> fuel w" using rd by (auto simp: ready_def)
    from send_msg_live [OF assms(1) this] out show ?thesis by (fastforce simp: wp_def)
  qed
qed

lemma wp_recv_msg:
  assumes "tinv w" and rd: "ready b w (HEADER_SIZE + k + n)"
    and src: "b \<or> (\<exists>msg s. inbox w = frame msg @ s \<and> msg_ok msg \<and> length (m_payload msg) \<le> k)"
    and ok: "\<And>w' msg. msg_ok msg \<Longrightarrow> moved_in w (frame msg) w' \<Longrightarrow> ready b w' n \<Longrightarrow> Q (Ok msg) w'"
    and fail: "\<And>w' e. b \<Longrightarrow> broken w w' \<Longrightarrow> Q (Throw e) w'"
  shows "wp b (recv_msg t) Q w"
proof -
  have out: "Q r w'" if run: "recv_msg t w = Some (r, w')"
    and nb: "\<not> b \<longrightarrow> (\<exists>msg. r = Ok msg) \<and> fuel w - (HEADER_SIZE + k) \<le> fuel w'" for r w'
  proof -
    note L = recv_msg_result [OF run assms(1)]
    show ?thesis
    proof (cases r)
      case (Ok msg)
      then have m: "msg_ok msg" "moved_in w (frame msg) w'" using L(2) by auto
      then show ?thesis unfolding Ok using ok moved_in_ready [OF m(2) rd] nb by simp
    next
      case (Throw e)
      then show ?thesis using L(1) nb fail by (auto simp: broken_def tidy_same_os same_os_def)
    qed (use L(1) in simp)
  qed
  show ?thesis
  proof (cases b)
    case True
    then show ?thesis by (auto intro!: wpI out)
  next
    case False
    then obtain msg s where src': "inbox w = frame msg @ s" "msg_ok msg" "length (m_payload msg) \<le> k"
      using src by blast
    then have "fair w" "HEADER_SIZE + length (m_payload msg) \<le> fuel w" using rd False by (auto simp: ready_def)
    from recv_msg_live [OF assms(1) this(1) src'(2,1) this(2)] obtain w' where
      "recv_msg t w = Some (Ok msg, w')" "fuel w - (HEADER_SIZE + length (m_payload msg)) \<le> fuel w'" by blast
    moreover from this(2) src'(3) have "fuel w - (HEADER_SIZE + k) \<le> fuel w'" by linarith
    ultimately show ?thesis using out [of "Ok msg" w'] by (simp add: wp_def)
  qed
qed

end

section \<open>Properties\<close>

text \<open>\<^verbatim>\<open>make_filemeta\<close> builds exactly the documented layout, big-endian, and
  \<^verbatim>\<open>parse_filemeta\<close> gives back the value, also when bytes follow it. If the number of
  hashes is not \<^verbatim>\<open>chunk_count\<close>, nothing is built but an exception thrown.\<close>

theorem filemeta_roundtrip:
  assumes "str_ok (file_name m)" and "\<forall>h \<in> set (chunk_hashes m). length h = HASH_SIZE"
    and "length (filemeta_enc m) + length s < 2 ^ 63"
  shows "if length (chunk_hashes m) = unat (chunk_count m)
    then make_filemeta m = Ok \<lparr>m_type = FILE_META, m_payload =
           be_enc 8 (unat (file_size m)) @ be_enc 4 (length (file_name m)) @ bytes_of_string (file_name m) @
           be_enc 4 (unat (chunk_size m)) @ be_enc 4 (unat (chunk_count m)) @ concat (chunk_hashes m)\<rparr> \<and>
         parse_filemeta \<lparr>m_type = FILE_META, m_payload = filemeta_enc m @ s\<rparr> = Ok m \<and>
         make_filemeta m = Ok \<lparr>m_type = FILE_META, m_payload = filemeta_enc m\<rparr>
    else \<exists>e. make_filemeta m = Throw (Runtime_error e)"
proof (cases "length (chunk_hashes m) = unat (chunk_count m)")
  case True
  then have ok: "filemeta_ok m" using assms(1,2) by (simp add: filemeta_ok_def hash_ok_def)
  have "filemeta_enc m = be_enc 8 (unat (file_size m)) @ be_enc 4 (length (file_name m)) @
      bytes_of_string (file_name m) @ be_enc 4 (unat (chunk_size m)) @ be_enc 4 (unat (chunk_count m)) @
      concat (chunk_hashes m)"
    by (simp add: filemeta_enc_def u64_enc_def str_enc_def u32_enc_def)
  moreover have "parse_filemeta \<lparr>m_type = FILE_META, m_payload = filemeta_enc m @ s\<rparr> = Ok m"
    by (rule parse_filemeta_complete [OF _ _ ok]) (use assms(3) in simp_all)
  ultimately show ?thesis using True make_filemeta_Ok [OF ok] by simp
qed (simp add: make_filemeta_def)

text \<open>C27: The parser of the metadata accepts no other message: what it returns is well formed
  and its encoding is a prefix of the payload. So no two values share a payload, and a
  hostile \<^verbatim>\<open>chunk_count\<close> is never larger than the hashes that really came.\<close>

theorem parse_filemeta_canonical:
  assumes "length (m_payload msg) < 2 ^ 63"
  shows "parse_filemeta msg = Ok m \<longleftrightarrow>
    m_type msg = FILE_META \<and> filemeta_ok m \<and> take (length (filemeta_enc m)) (m_payload msg) = filemeta_enc m"
proof
  assume "parse_filemeta msg = Ok m"
  from parse_filemeta_sound [OF assms this] show "m_type msg = FILE_META \<and> filemeta_ok m \<and>
      take (length (filemeta_enc m)) (m_payload msg) = filemeta_enc m" by auto
next
  assume *: "m_type msg = FILE_META \<and> filemeta_ok m \<and> take (length (filemeta_enc m)) (m_payload msg) = filemeta_enc m"
  then have "m_payload msg = filemeta_enc m @ drop (length (filemeta_enc m)) (m_payload msg)"
    by (metis append_take_drop_id)
  with * show "parse_filemeta msg = Ok m" using parse_filemeta_complete [OF _ assms] by blast
qed

text \<open>C28: Whatever a peer puts into a payload, no parser reads past it: each returns a value
  or throws a \<^verbatim>\<open>runtime_error\<close>. A request or chunk header is refused exactly when its
  type is wrong or fewer than four bytes came.\<close>

theorem parsers_safe:
  assumes "length (m_payload msg) < 2 ^ 63"
  shows "parse_filemeta msg \<noteq> Undef \<and> parse_handshake msg \<noteq> Undef \<and> parse_error msg \<noteq> Undef \<and>
    ((\<exists>q. parse_chunk_req msg = Ok q) = (m_type msg = CHUNK_REQ \<and> 4 \<le> length (m_payload msg))) \<and>
    ((\<exists>h. parse_chunk_hdr msg = Ok h) = (m_type msg = CHUNK_HDR \<and> 4 \<le> length (m_payload msg))) \<and>
    parse_chunk_req msg \<noteq> Undef \<and> parse_chunk_hdr msg \<noteq> Undef"
proof -
  have four: "(\<exists>i s. m_payload msg = u32_enc i @ s) = (4 \<le> length (m_payload msg))"
  proof
    assume "4 \<le> length (m_payload msg)"
    then have "length (take 4 (m_payload msg)) = 4" by simp
    then have "m_payload msg = u32_enc (word_of_nat (be_dec (take 4 (m_payload msg)))) @ drop 4 (m_payload msg)"
      by simp
    then show "\<exists>i s. m_payload msg = u32_enc i @ s" by blast
  qed auto
  have "(\<exists>q. parse_chunk_req msg = Ok q) = (m_type msg = CHUNK_REQ \<and> (\<exists>i s. m_payload msg = u32_enc i @ s))"
    using parse_chunk_req_iff [OF assms] by (metis chunk_req.select_convs(1))
  moreover have "(\<exists>q. parse_chunk_hdr msg = Ok q) = (m_type msg = CHUNK_HDR \<and> (\<exists>i s. m_payload msg = u32_enc i @ s))"
    using parse_chunk_hdr_iff [OF assms] by (metis chunk_hdr.select_convs(1))
  ultimately show ?thesis using parse_no_Undef [OF assms] four by simp
qed

text \<open>The wire format is self-delimiting: a byte stream is the concatenation of at most
  one sequence of acceptable messages, so sender and receiver agree on every boundary.\<close>

theorem frames_unique:
  assumes "concat (map frame ms) = concat (map frame ns)"
    and "\<forall>m \<in> set ms. msg_ok m" and "\<forall>n \<in> set ns. msg_ok n"
  shows "ms = ns"
  using assms
proof (induction ms arbitrary: ns)
  case Nil
  then show ?case by (cases ns) (simp_all add: frame_def)
next
  case (Cons m ms)
  then obtain n ns' where ns: "ns = n # ns'" by (cases ns) (auto simp: frame_def)
  have "frame m @ concat (map frame ms) = frame n @ concat (map frame ns')" using Cons.prems(1) ns by simp
  then have "m = n \<and> concat (map frame ms) = concat (map frame ns')"
    by (rule frame_prefix) (use Cons.prems ns msg_ok_length in auto)
  then show ?case using Cons ns by simp
qed

text \<open>Handshake, chunk request and chunk header survive the trip through their payloads.\<close>

theorem control_roundtrip:
  assumes "str_ok (token p)" and "length (token p) < 2 ^ 62"
  shows "res_bind (make_handshake p) parse_handshake = Ok p \<and>
    res_bind (make_chunk_req q) parse_chunk_req = Ok q \<and>
    res_bind (make_chunk_hdr h) parse_chunk_hdr = Ok h \<and>
    parse_error (make_error reason) = Ok reason"
proof (intro conjI)
  have "parse_handshake \<lparr>m_type = HANDSHAKE, m_payload = str_enc (token p)\<rparr> = Ok p"
    by (subst parse_handshake_iff) (use assms in simp_all)
  then show "res_bind (make_handshake p) parse_handshake = Ok p" by (simp add: make_handshake_Ok [OF assms(1)])
  have "parse_chunk_req \<lparr>m_type = CHUNK_REQ, m_payload = u32_enc (req_index q)\<rparr> = Ok q"
    by (subst parse_chunk_req_iff) simp_all
  then show "res_bind (make_chunk_req q) parse_chunk_req = Ok q" by simp
  have "parse_chunk_hdr \<lparr>m_type = CHUNK_HDR, m_payload = u32_enc (hdr_index h)\<rparr> = Ok h"
    by (subst parse_chunk_hdr_iff) simp_all
  then show "res_bind (make_chunk_hdr h) parse_chunk_hdr = Ok h" by simp
  show "parse_error (make_error reason) = Ok reason" by (simp add: parse_error_def make_error_def)
qed

section \<open>Witnesses\<close>

definition sample_meta :: file_meta where
  "sample_meta = \<lparr>file_name = ''a.bin'', file_size = 3, chunk_size = 1048576, chunk_count = 1,
     chunk_hashes = [replicate 32 7]\<rparr>"

lemma sample_meta_ok: "filemeta_ok sample_meta" "length (filemeta_enc sample_meta) = 57"
  by (simp_all add: sample_meta_def filemeta_ok_def str_ok_def hash_ok_def HASH_SIZE_def filemeta_enc_def)

lemma filemeta_roundtrip_witness:
  "\<exists>msg. make_filemeta sample_meta = Ok msg \<and>
     parse_filemeta \<lparr>m_type = FILE_META, m_payload = filemeta_enc sample_meta @ [1, 2]\<rparr> = Ok sample_meta"
  using filemeta_roundtrip [of sample_meta "[1, 2]"] sample_meta_ok
  by (simp add: filemeta_ok_def hash_ok_def)

lemma parse_filemeta_canonical_witness:
  "parse_filemeta \<lparr>m_type = FILE_META, m_payload = filemeta_enc sample_meta\<rparr> = Ok sample_meta"
  using parse_filemeta_canonical [of "\<lparr>m_type = FILE_META, m_payload = filemeta_enc sample_meta\<rparr>" sample_meta]
    sample_meta_ok by simp

lemma parsers_safe_witness:
  "\<nexists>q. parse_chunk_req \<lparr>m_type = CHUNK_REQ, m_payload = [0, 0, 1]\<rparr> = Ok q"
  using parsers_safe [of "\<lparr>m_type = CHUNK_REQ, m_payload = [0, 0, 1]\<rparr>"] by simp

lemma frames_unique_witness:
  "[make_complete, make_error ''no''] = [\<lparr>m_type = COMPLETE, m_payload = []\<rparr>, make_error ''no'']"
  by (rule frames_unique)
    (simp_all add: make_complete_def make_error_def msg_ok_def unat_MAX_PAYLOAD_SIZE bytes_of_string_def)

lemma control_roundtrip_witness:
  "res_bind (make_handshake \<lparr>token = ''ab''\<rparr>) parse_handshake = Ok \<lparr>token = ''ab''\<rparr>"
  using control_roundtrip(1) [of "\<lparr>token = ''ab''\<rparr>"] by (simp add: str_ok_def)

end
