(* ===== verification/Hash_Cache.thy ===== *)
theory Hash_Cache
  imports Embr_Sys
begin

text \<open>
  Chunk hashes, \<^verbatim>\<open>core/hash.cpp\<close>: SHA-256 of a buffer through OpenSSL's EVP interface (a
  parameter, the record \<open>evp\<close>), the \<^verbatim>\<open>.name.embr.hash\<close> cache file, and the parallel
  computation of all the hashes of a file by worker threads that draw chunk indices from
  an atomic counter. The threads are modelled as interleaved steps under an arbitrary
  schedule; the result is shown not to depend on it.
\<close>

section \<open>SHA-256 of a buffer\<close>

text \<open>
  The outcomes of the EVP calls. What the code relies on of them is \<open>evp_sha256\<close>: a
  digest, when there is one, has 32 bytes.
\<close>

record evp =
  evp_ctx_new :: bool
  evp_init :: bool
  evp_update :: "u8 list \<Rightarrow> bool"
  evp_final :: "u8 list \<Rightarrow> u8 list option"

definition evp_sha256 :: "evp \<Rightarrow> bool" where
  "evp_sha256 E \<longleftrightarrow> (\<forall>d h. evp_final E d = Some h \<longrightarrow> length h = HASH_SIZE)"

definition sha256_buf :: "evp \<Rightarrow> u8 list \<Rightarrow> u8 list res" where
  "sha256_buf E data =
     (if \<not> evp_ctx_new E then Throw (Runtime_error ''EVP_MD_CTX_new failed'')
      else if \<not> evp_init E then Throw (Runtime_error ''sha256_buf: EVP_DigestInit_ex() failed'')
      else if \<not> evp_update E data then Throw (Runtime_error ''sha256_buf: EVP_DigestUpdate() failed'')
      else case evp_final E data of
        None \<Rightarrow> Throw (Runtime_error ''sha256_buf: EVP_DigestFinal_ex() failed'')
      | Some digest \<Rightarrow> Ok digest)"

section \<open>The cache file\<close>

definition hash_cache_path_for :: "string \<Rightarrow> string res" where
  "hash_cache_path_for file_path =
     (if file_path = [] then Throw (Runtime_error ''hash_cache_path_for: file_path is empty'')
      else case rfind_slash file_path of
        None \<Rightarrow> Ok (''.'' @ file_path @ ''.embr.hash'')
      | Some slash_pos \<Rightarrow>
          Ok (take (slash_pos + 1) file_path @ ''.'' @ drop (slash_pos + 1) file_path @ ''.embr.hash''))"

text \<open>
  Integers are stored as they are in memory, least significant byte first. The vector of
  hashes is an output only when \<^verbatim>\<open>hash_cache_load\<close> returns true: \<open>None\<close> stands for false,
  after which the only caller overwrites it.
\<close>

primrec read_hashes :: "int \<Rightarrow> nat \<Rightarrow> ('e world_scheme, u8 list list) io" where
  "read_hashes fd 0 = io_ret []"
| "read_hashes fd (Suc n) =
     io_bind (read_exact fd HASH_SIZE) (\<lambda>h. io_bind (read_hashes fd n) (\<lambda>hs. io_ret (h # hs)))"

definition cache_load_try ::
  "u64 \<Rightarrow> u64 \<Rightarrow> u32 \<Rightarrow> int \<Rightarrow> ('e world_scheme, u8 list list option) io" where
  "cache_load_try file_size mtime_ns chunk_count fd =
     io_bind (read_exact fd 8) (\<lambda>stored_size.
     io_bind (read_exact fd 8) (\<lambda>stored_mtime.
     io_bind (read_exact fd 4) (\<lambda>stored_chunk_size.
     io_bind (read_exact fd 4) (\<lambda>stored_count.
       if word_of_nat (le_dec stored_size) \<noteq> file_size \<or> word_of_nat (le_dec stored_mtime) \<noteq> mtime_ns
          \<or> word_of_nat (le_dec stored_count) \<noteq> chunk_count
       then io_bind (io_close fd) (\<lambda>_. io_ret None)
       else io_bind (read_hashes fd (unat chunk_count)) (\<lambda>hs.
         io_bind (io_close fd) (\<lambda>_. io_ret (Some hs)))))))"

definition hash_cache_load ::
  "string \<Rightarrow> u64 \<Rightarrow> u64 \<Rightarrow> u32 \<Rightarrow> ('e world_scheme, u8 list list option) io" where
  "hash_cache_load file_path file_size mtime_ns chunk_count =
     io_bind (io_lift (hash_cache_path_for file_path)) (\<lambda>cache_path.
     io_bind (sys (sys_open cache_path False False)) (\<lambda>fd.
       if fd < 0 then io_ret None
       else io_catch_runtime (cache_load_try file_size mtime_ns chunk_count fd)
         (io_bind (io_close fd) (\<lambda>_. io_ret None))))"

definition cache_save_try ::
  "u64 \<Rightarrow> u64 \<Rightarrow> u32 \<Rightarrow> u32 \<Rightarrow> u8 list list \<Rightarrow> int \<Rightarrow> ('e world_scheme, unit) io" where
  "cache_save_try file_size mtime_ns chunk_size chunk_count chunk_hashes fd =
     io_bind (write_exact fd (le_enc 8 (unat file_size))) (\<lambda>_.
     io_bind (write_exact fd (le_enc 8 (unat mtime_ns))) (\<lambda>_.
     io_bind (write_exact fd (le_enc 4 (unat chunk_size))) (\<lambda>_.
     io_bind (write_exact fd (le_enc 4 (unat chunk_count))) (\<lambda>_.
     io_bind (io_for chunk_hashes (write_exact fd)) (\<lambda>_. io_close fd)))))"

definition hash_cache_save ::
  "string \<Rightarrow> u64 \<Rightarrow> u64 \<Rightarrow> u32 \<Rightarrow> u32 \<Rightarrow> u8 list list \<Rightarrow> ('e world_scheme, unit) io" where
  "hash_cache_save file_path file_size mtime_ns chunk_size chunk_count chunk_hashes =
     io_bind (io_lift (hash_cache_path_for file_path)) (\<lambda>cache_path.
     io_bind (sys (sys_open cache_path True True)) (\<lambda>fd.
       if fd < 0 then io_throw (Runtime_error ''hash_cache_save: failed to open: '')
       else io_catch_rethrow
         (cache_save_try file_size mtime_ns chunk_size chunk_count chunk_hashes fd) (sys_close fd)))"

section \<open>The workers\<close>

text \<open>
  A worker is about to draw an index, hashing the chunk it drew, or finished. One step of
  a worker is one atomic action: the \<^verbatim>\<open>fetch_add\<close> with the test of its result, or the
  hashing of a chunk with the store of the digest (no other thread reads or writes that
  element) or of the exception. A read outside the mapping is the state \<open>Faulted\<close>.
\<close>

datatype wstate = Drawing | Hashing u32 | Finished | Faulted

record hstate =
  next_chunk :: u32
  hashes :: "u8 list list"
  worker_exceptions :: "exn option list"
  workers :: "wstate list"

definition chunk_bytes :: "u8 list \<Rightarrow> u64 \<Rightarrow> u32 \<Rightarrow> u8 list res" where
  "chunk_bytes mapped file_size i =
     (let offset = (ucast i :: u64) * word_of_nat CHUNK_SIZE;
          chunk_len = min (word_of_nat CHUNK_SIZE) (file_size - offset)
      in if unat offset + unat chunk_len \<le> length mapped
         then Ok (region (unat offset) (unat chunk_len) mapped) else Undef)"

definition chunk_hash :: "evp \<Rightarrow> u8 list \<Rightarrow> u64 \<Rightarrow> u32 \<Rightarrow> u8 list res" where
  "chunk_hash E mapped file_size i = res_bind (chunk_bytes mapped file_size i) (sha256_buf E)"

definition worker_step :: "evp \<Rightarrow> u8 list \<Rightarrow> u64 \<Rightarrow> u32 \<Rightarrow> nat \<Rightarrow> hstate \<Rightarrow> hstate" where
  "worker_step E mapped file_size chunk_count k s =
     (if k < length (workers s) then
        case workers s ! k of
          Drawing \<Rightarrow>
            s\<lparr>next_chunk := next_chunk s + 1,
              workers := (workers s)[k := (if next_chunk s \<ge> chunk_count then Finished
                                           else Hashing (next_chunk s))]\<rparr>
        | Hashing i \<Rightarrow>
            (case chunk_hash E mapped file_size i of
               Ok h \<Rightarrow> s\<lparr>hashes := (hashes s)[unat i := h], workers := (workers s)[k := Drawing]\<rparr>
             | Throw e \<Rightarrow> s\<lparr>worker_exceptions := (worker_exceptions s)[k := Some e],
                            workers := (workers s)[k := Finished]\<rparr>
             | Undef \<Rightarrow> s\<lparr>workers := (workers s)[k := Faulted]\<rparr>)
        | Finished \<Rightarrow> s
        | Faulted \<Rightarrow> s
      else s)"

definition num_workers :: "u32 \<Rightarrow> u32 \<Rightarrow> nat" where
  "num_workers chunk_count hardware_concurrency = unat (min chunk_count (max 1 hardware_concurrency))"

definition hstate_init :: "u32 \<Rightarrow> nat \<Rightarrow> hstate" where
  "hstate_init chunk_count n =
     \<lparr>next_chunk = 0, hashes = replicate (unat chunk_count) (replicate HASH_SIZE 0),
      worker_exceptions = replicate n None, workers = replicate n Drawing\<rparr>"

fun first_exception :: "exn option list \<Rightarrow> exn option" where
  "first_exception [] = None"
| "first_exception (Some e # xs) = Some e"
| "first_exception (None # xs) = first_exception xs"

text \<open>
  The function, given the number of processors and the order \<open>sched\<close> in which the
  scheduler runs the workers. The join waits for all of them, so an unfinished
  schedule is a call that has not returned.
\<close>

definition hash_compute_parallel ::
  "evp \<Rightarrow> u32 \<Rightarrow> nat list \<Rightarrow> int \<Rightarrow> u64 \<Rightarrow> u32 \<Rightarrow> ('e world_scheme, u8 list list) io" where
  "hash_compute_parallel E hw sched file_fd file_size chunk_count =
     io_bind (sys (sys_mmap file_fd 0 (unat file_size))) (\<lambda>m.
       case m of
         None \<Rightarrow> io_throw (Runtime_error ''hash_compute_parallel: mmap failed:'')
       | Some mapped \<Rightarrow>
           let s = foldl (\<lambda>s k. worker_step E mapped file_size chunk_count k s)
                     (hstate_init chunk_count (num_workers chunk_count hw)) sched
           in if \<exists>x \<in> set (workers s). x = Faulted then io_undef
              else if \<forall>x \<in> set (workers s). x = Finished then
                (case first_exception (worker_exceptions s) of
                   Some e \<Rightarrow> io_throw e
                 | None \<Rightarrow> io_ret (hashes s))
              else (\<lambda>w. None))"

section \<open>Every interleaving computes the same hashes\<close>

definition finished_count :: "hstate \<Rightarrow> nat" where
  "finished_count s = length (filter (\<lambda>x. x = Finished) (workers s))"

text \<open>
  The invariant: a drawn index is hashed, being hashed, or its worker failed; a worker
  stops when the indices are used up or it failed; the counter overshoots by at most one
  per finished worker, so it does not wrap.
\<close>

definition winv :: "evp \<Rightarrow> u8 list \<Rightarrow> u64 \<Rightarrow> u32 \<Rightarrow> nat \<Rightarrow> hstate \<Rightarrow> bool" where
  "winv E mapped sz count n s \<longleftrightarrow>
     length (hashes s) = unat count \<and> length (workers s) = n \<and> length (worker_exceptions s) = n \<and>
     unat (next_chunk s) \<le> unat count + finished_count s \<and>
     (\<forall>i. i < count \<longrightarrow> i < next_chunk s \<longrightarrow>
        chunk_hash E mapped sz i = Ok (hashes s ! unat i) \<or> Hashing i \<in> set (workers s) \<or>
        (\<exists>e. Some e \<in> set (worker_exceptions s))) \<and>
     (\<forall>i. Hashing i \<in> set (workers s) \<longrightarrow> i < count) \<and>
     (\<forall>e. Some e \<in> set (worker_exceptions s) \<longrightarrow> (\<exists>i < count. chunk_hash E mapped sz i = Throw e)) \<and>
     (Finished \<in> set (workers s) \<longrightarrow> count \<le> next_chunk s \<or> (\<exists>e. Some e \<in> set (worker_exceptions s))) \<and>
     Faulted \<notin> set (workers s)"

lemma finished_count_le: "finished_count s \<le> length (workers s)"
  by (simp add: finished_count_def)

lemma filter_update:
  "k < length xs \<Longrightarrow> \<not> P (xs ! k) \<Longrightarrow>
     length (filter P (xs[k := x])) = length (filter P xs) + (if P x then 1 else 0)"
  by (induction xs arbitrary: k) (auto split: nat.split simp: nth_Cons' gr0_conv_Suc less_Suc_eq_0_disj)

lemma set_update_keep: "x \<in> set xs \<Longrightarrow> xs ! k \<noteq> x \<Longrightarrow> x \<in> set (xs[k := y])"
  by (metis in_set_conv_nth length_list_update nth_list_update_neq)

lemma set_update_cases: "x \<in> set (xs[k := y]) \<Longrightarrow> x = y \<or> x \<in> set xs"
  using set_update_subset_insert by fastforce

lemma winv_init:
  assumes "0 < unat count"
  shows "winv E mapped sz count n (hstate_init count n)"
  by (auto simp: winv_def hstate_init_def word_less_nat_alt)

lemma winv_step:
  assumes inv: "winv E mapped sz count n s" and bound: "unat count + n < 2 ^ 32"
    and safe: "\<forall>i < count. chunk_hash E mapped sz i \<noteq> Undef"
  shows "winv E mapped sz count n (worker_step E mapped sz count k s)"
proof (cases "k < length (workers s)")
  case False
  then show ?thesis using inv by (simp add: worker_step_def)
next
  case True
  then have k: "k < n" "k < length (workers s)" "k < length (worker_exceptions s)" using inv by (auto simp: winv_def)
  note I = inv [unfolded winv_def]
  show ?thesis
  proof (cases "workers s ! k")
    case Drawing
    let ?new = "if next_chunk s \<ge> count then Finished else Hashing (next_chunk s)"
    let ?s = "s\<lparr>next_chunk := next_chunk s + 1, workers := (workers s)[k := ?new]\<rparr>"
    have fc: "finished_count ?s = finished_count s + (if next_chunk s \<ge> count then 1 else 0)"
      using filter_update [OF k(2), of "\<lambda>x. x = Finished" ?new] Drawing by (simp add: finished_count_def)
    have "finished_count s < n"
      using filter_update [OF k(2), of "\<lambda>x. x = Finished" Finished] Drawing I
        finished_count_le [of "s\<lparr>workers := (workers s)[k := Finished]\<rparr>"]
      by (simp add: finished_count_def)
    then have "unat (next_chunk s) + 1 < 2 ^ 32" using I bound by linarith
    then have nxt: "unat (next_chunk s + 1) = Suc (unat (next_chunk s))" by (simp add: unat_word_ariths)
    have n1: "unat (next_chunk ?s) \<le> unat count + finished_count ?s"
      using I nxt fc by (auto simp: word_le_nat_alt)
    have n2: "chunk_hash E mapped sz i = Ok (hashes ?s ! unat i) \<or> Hashing i \<in> set (workers ?s) \<or>
        (\<exists>e. Some e \<in> set (worker_exceptions ?s))" if "i < count" "i < next_chunk ?s" for i
    proof (cases "i < next_chunk s")
      case True
      then show ?thesis using I that(1) Drawing set_update_keep [of "Hashing i" "workers s" k] by auto
    next
      case False
      then have "i = next_chunk s" using that(2) nxt
        by (simp add: word_less_nat_alt word_unat_eq_iff)
      then show ?thesis using that(1) k(2) by (simp add: not_le [symmetric] set_update_memI)
    qed
    have n3: "Hashing i \<in> set (workers ?s) \<Longrightarrow> i < count" for i
      using I by (auto dest!: set_update_cases split: if_splits)
    have n4: "Finished \<in> set (workers ?s) \<Longrightarrow> count \<le> next_chunk ?s \<or> (\<exists>e. Some e \<in> set (worker_exceptions ?s))"
      using I nxt by (auto dest!: set_update_cases split: if_splits simp: word_le_nat_alt)
    have n5: "Faulted \<notin> set (workers ?s)"
      using I by (auto dest!: set_update_cases split: if_splits)
    have "worker_step E mapped sz count k s = ?s" using k Drawing by (simp add: worker_step_def)
    moreover have "winv E mapped sz count n ?s"
      unfolding winv_def using I n1 n2 n3 n4 n5 by simp
    ultimately show ?thesis by simp
  next
    case (Hashing i)
    have i: "i < count" using I k(2) Hashing nth_mem by metis
    show ?thesis
    proof (cases "chunk_hash E mapped sz i")
      case (Ok h)
      let ?s = "s\<lparr>hashes := (hashes s)[unat i := h], workers := (workers s)[k := Drawing]\<rparr>"
      have fc: "finished_count ?s = finished_count s"
        using filter_update [OF k(2), of "\<lambda>x. x = Finished" Drawing] Hashing by (simp add: finished_count_def)
      have n2: "chunk_hash E mapped sz j = Ok (hashes ?s ! unat j) \<or> Hashing j \<in> set (workers ?s) \<or>
        (\<exists>e. Some e \<in> set (worker_exceptions ?s))" if "j < count" "j < next_chunk ?s" for j
      proof (cases "j = i")
        case True
        then show ?thesis using I Ok i by (simp add: word_less_nat_alt)
      next
        case False
        then have "unat i \<noteq> unat j" by (simp add: word_unat_eq_iff)
        then show ?thesis using I that False Hashing set_update_keep [of "Hashing j" "workers s" k] by auto
      qed
      have "worker_step E mapped sz count k s = ?s" using k Hashing Ok by (simp add: worker_step_def)
      moreover have "winv E mapped sz count n ?s"
        unfolding winv_def using I n2 fc by (auto dest!: set_update_cases)
      ultimately show ?thesis by simp
    next
      case (Throw e)
      let ?s = "s\<lparr>worker_exceptions := (worker_exceptions s)[k := Some e], workers := (workers s)[k := Finished]\<rparr>"
      have fc: "finished_count s \<le> finished_count ?s"
        using filter_update [OF k(2), of "\<lambda>x. x = Finished" Finished] Hashing by (simp add: finished_count_def)
      have ex: "\<exists>e. Some e \<in> set (worker_exceptions ?s)"
        using set_update_memI [OF k(3), of "Some e"] by auto
      have n1: "unat (next_chunk ?s) \<le> unat count + finished_count ?s" using I fc by simp
      have n3: "\<exists>i < count. chunk_hash E mapped sz i = Throw e'" if "Some e' \<in> set (worker_exceptions ?s)" for e'
        using that I i Throw by (auto dest!: set_update_cases)
      have n4: "Hashing j \<in> set (workers ?s) \<Longrightarrow> j < count" for j
        using I by (auto dest!: set_update_cases)
      have n5: "Faulted \<notin> set (workers ?s)" using I by (auto dest!: set_update_cases)
      have "winv E mapped sz count n ?s"
        unfolding winv_def using I ex n1 n3 n4 n5 by simp
      moreover have "worker_step E mapped sz count k s = ?s" using k Hashing Throw by (simp add: worker_step_def)
      ultimately show ?thesis by simp
    next
      case Undef
      then show ?thesis using safe i by simp
    qed
  qed (use inv k in \<open>simp_all add: worker_step_def\<close>)
qed

lemma winv_foldl:
  assumes "winv E mapped sz count n s" and "unat count + n < 2 ^ 32"
    and "\<forall>i < count. chunk_hash E mapped sz i \<noteq> Undef"
  shows "winv E mapped sz count n (foldl (\<lambda>s k. worker_step E mapped sz count k s) s sched)"
  using assms(1) by (induction sched arbitrary: s) (simp_all add: winv_step [OF _ assms(2,3)])

text \<open>Once all workers stopped, the vector is right or some chunk's hash failed.\<close>

lemma winv_final:
  assumes inv: "winv E mapped sz count n s" and "0 < n" and fin: "\<forall>x \<in> set (workers s). x = Finished"
  shows "(\<forall>i < count. chunk_hash E mapped sz i = Ok (hashes s ! unat i)) \<or>
    (\<exists>e. Some e \<in> set (worker_exceptions s))"
proof -
  note I = inv [unfolded winv_def]
  have "workers s \<noteq> []" using I assms(2) by auto
  then have "Finished \<in> set (workers s)" using fin by (metis hd_in_set)
  then have "count \<le> next_chunk s \<or> (\<exists>e. Some e \<in> set (worker_exceptions s))" using I by blast
  moreover have "Hashing i \<notin> set (workers s)" for i using fin by auto
  ultimately show ?thesis using I by (meson less_le_trans)
qed

lemma first_exception_None: "first_exception xs = None \<longleftrightarrow> (\<forall>e. Some e \<notin> set xs)"
  by (induction xs rule: first_exception.induct) auto

lemma first_exception_Some: "first_exception xs = Some e \<Longrightarrow> Some e \<in> set xs"
  by (induction xs rule: first_exception.induct) auto

section \<open>The workers stop\<close>

definition weight :: "wstate \<Rightarrow> nat" where
  "weight x = (case x of Drawing \<Rightarrow> 1 | Hashing _ \<Rightarrow> 2 | Finished \<Rightarrow> 0 | Faulted \<Rightarrow> 0)"

definition work_left :: "u32 \<Rightarrow> hstate \<Rightarrow> nat" where
  "work_left count s = 2 * (unat count - unat (next_chunk s)) + sum_list (map weight (workers s))"

lemma sum_list_weight_update:
  "k < length xs \<Longrightarrow> sum_list (map weight (xs[k := y])) + weight (xs ! k) = sum_list (map weight xs) + weight y"
  by (induction xs arbitrary: k) (auto split: nat.split simp: nth_Cons')

lemma worker_step_idle:
  "k < length (workers s) \<Longrightarrow> workers s ! k = Finished \<Longrightarrow> worker_step E mapped sz count k s = s"
  by (simp add: worker_step_def)

lemma worker_step_work:
  assumes inv: "winv E mapped sz count n s" and bound: "unat count + n < 2 ^ 32"
    and safe: "\<forall>i < count. chunk_hash E mapped sz i \<noteq> Undef"
    and k: "k < n" and busy: "workers s ! k \<noteq> Finished"
  shows "work_left count (worker_step E mapped sz count k s) < work_left count s"
proof -
  note I = inv [unfolded winv_def]
  have k': "k < length (workers s)" using k I by simp
  note W = sum_list_weight_update [OF k']
  show ?thesis
  proof (cases "workers s ! k")
    case Drawing
    show ?thesis
    proof (cases "next_chunk s \<ge> count")
      case True
      have "unat count - unat (next_chunk s + 1) = 0"
      proof -
        have "unat (next_chunk s) \<le> unat count + n" using I finished_count_le [of s] by simp
        then have "unat (next_chunk s) + 1 < 2 ^ 32 \<or> unat (next_chunk s) + 1 = 2 ^ 32" using bound by linarith
        moreover have "finished_count s < n"
          using filter_update [OF k', of "\<lambda>x. x = Finished" Finished] Drawing I
            finished_count_le [of "s\<lparr>workers := (workers s)[k := Finished]\<rparr>"]
          by (simp add: finished_count_def)
        then have "unat (next_chunk s) + 1 < 2 ^ 32" using I bound by linarith
        then have "unat (next_chunk s + 1) = Suc (unat (next_chunk s))" by (simp add: unat_word_ariths)
        then show ?thesis using True by (simp add: word_le_nat_alt)
      qed
      then show ?thesis using W [of Finished] Drawing True k'
        by (simp add: worker_step_def work_left_def weight_def)
    next
      case False
      then have "unat (next_chunk s + 1) = Suc (unat (next_chunk s))" "unat (next_chunk s) < unat count"
        by (simp_all add: unat_suc_less [of _ count] not_le word_less_nat_alt)
      then show ?thesis using W [of "Hashing (next_chunk s)"] Drawing False k'
        by (simp add: worker_step_def work_left_def weight_def)
    qed
  next
    case (Hashing i)
    then have "i < count" using I k' nth_mem by metis
    then have "chunk_hash E mapped sz i \<noteq> Undef" using safe by blast
    then show ?thesis using W [of Drawing] W [of Finished] Hashing k'
      by (cases "chunk_hash E mapped sz i") (simp_all add: worker_step_def work_left_def weight_def)
  next
    case Faulted
    then show ?thesis using I k' nth_mem by metis
  qed (use busy in simp)
qed

lemma round_work:
  assumes "winv E mapped sz count n s" and bound: "unat count + n < 2 ^ 32"
    and safe: "\<forall>i < count. chunk_hash E mapped sz i \<noteq> Undef" and "set seg \<subseteq> {0..<n}"
  shows "work_left count (foldl (\<lambda>s k. worker_step E mapped sz count k s) s seg) \<le> work_left count s"
    and "k \<in> set seg \<Longrightarrow> workers s ! k \<noteq> Finished \<Longrightarrow>
      work_left count (foldl (\<lambda>s k. worker_step E mapped sz count k s) s seg) < work_left count s"
  using assms(1,4)
proof (induction seg arbitrary: s)
  case Nil
  {
    case 1
    then show ?case by simp
  next
    case 2
    then show ?case by simp
  }
next
  case (Cons j seg)
  {
    case 1
    then have j: "j < n" "winv E mapped sz count n (worker_step E mapped sz count j s)"
      using winv_step [OF _ bound safe] by auto
    show ?case
    proof (cases "workers s ! j = Finished")
      case True
      then have "worker_step E mapped sz count j s = s"
        using 1 j by (intro worker_step_idle) (auto simp: winv_def)
      then show ?thesis using Cons.IH(1) [OF 1(1)] 1(2) by simp
    next
      case False
      from worker_step_work [OF 1(1) bound safe j(1) this] Cons.IH(1) [OF j(2)] 1(2)
      show ?thesis by simp
    qed
  next
    case 2
    then have j: "j < n" "winv E mapped sz count n (worker_step E mapped sz count j s)"
      using winv_step [OF _ bound safe] by auto
    show ?case
    proof (cases "workers s ! j = Finished")
      case True
      then have "worker_step E mapped sz count j s = s"
        using 2 j by (intro worker_step_idle) (auto simp: winv_def)
      then show ?thesis using Cons.IH(2) [OF _ 2(2,3)] 2(1,2,4) True by auto
    next
      case False
      from worker_step_work [OF 2(3) bound safe j(1) this] Cons.IH(1) [OF j(2)] 2(4)
      show ?thesis by simp
    qed
  }
qed

text \<open>
  A schedule with enough rounds in which every worker runs: each round does some work
  while a worker is busy.
\<close>

definition enough_rounds :: "u32 \<Rightarrow> nat \<Rightarrow> nat list \<Rightarrow> bool" where
  "enough_rounds count n sched \<longleftrightarrow>
     (\<exists>segs. sched = concat segs \<and> 2 * unat count + n \<le> length segs \<and> (\<forall>seg \<in> set segs. set seg = {0..<n}))"

lemma rounds_finish:
  assumes "winv E mapped sz count n s" and bound: "unat count + n < 2 ^ 32"
    and safe: "\<forall>i < count. chunk_hash E mapped sz i \<noteq> Undef"
    and "\<forall>seg \<in> set segs. set seg = {0..<n}" and "work_left count s \<le> length segs"
  shows "\<forall>x \<in> set (workers (foldl (\<lambda>s k. worker_step E mapped sz count k s) s (concat segs))). x = Finished"
  using assms(1,4,5)
proof (induction segs arbitrary: s)
  case Nil
  then have "sum_list (map weight (workers s)) = 0" by (simp add: work_left_def)
  then have "\<forall>x \<in> set (workers s). weight x = 0" by (simp add: sum_list_eq_0_iff)
  moreover have "x = Finished \<or> x = Faulted" if "weight x = 0" for x
    using that by (cases x) (simp_all add: weight_def)
  moreover have "Faulted \<notin> set (workers s)" using Nil.prems(1) by (simp add: winv_def)
  ultimately show ?case by (metis concat.simps(1) foldl_Nil)
next
  case (Cons seg segs)
  let ?s1 = "foldl (\<lambda>s k. worker_step E mapped sz count k s) s seg"
  have w1: "winv E mapped sz count n ?s1" by (rule winv_foldl [OF Cons.prems(1) bound safe])
  show ?case
  proof (cases "\<exists>k < n. workers s ! k \<noteq> Finished")
    case True
    then obtain k where "k \<in> set seg" "workers s ! k \<noteq> Finished" using Cons.prems(2) by auto
    moreover have "set seg \<subseteq> {0..<n}" using Cons.prems(2) by simp
    ultimately have "work_left count ?s1 < work_left count s"
      using round_work(2) [OF Cons.prems(1) bound safe] by blast
    then have "work_left count ?s1 \<le> length segs" using Cons.prems(3) by simp
    from Cons.IH [OF w1 _ this] Cons.prems(2) show ?thesis by simp
  next
    case False
    then have fin: "\<forall>x \<in> set (workers s). x = Finished" using Cons.prems(1)
      by (auto simp: winv_def in_set_conv_nth)
    have "foldl (\<lambda>s k. worker_step E mapped sz count k s) s js = s" for js
    proof (induction js)
      case (Cons k js)
      then show ?case using fin worker_step_idle [of k s] by (cases "k < length (workers s)") (auto simp: worker_step_def)
    qed simp
    then show ?thesis using fin by simp
  qed
qed

lemma work_left_init: "work_left count (hstate_init count n) = 2 * unat count + n"
  by (simp add: work_left_def hstate_init_def weight_def sum_list_replicate)

section \<open>The function as a whole\<close>

text \<open>
  Chunk \<open>i\<close> of a file: \<open>CHUNK_SIZE\<close> bytes, fewer at the end. \<open>chunk_total\<close> is the number
  of chunks as \<^verbatim>\<open>precompute_meta\<close> computes it.
\<close>

definition chunk_of :: "u8 list \<Rightarrow> nat \<Rightarrow> u8 list" where
  "chunk_of data i = region (i * CHUNK_SIZE) CHUNK_SIZE data"

definition chunk_total :: "nat \<Rightarrow> nat" where
  "chunk_total len = (len + CHUNK_SIZE - 1) div CHUNK_SIZE"

lemma chunk_total_bounds:
  assumes "i < chunk_total len" and "0 < len"
  shows "i * CHUNK_SIZE < len"
proof -
  have "Suc i * CHUNK_SIZE \<le> chunk_total len * CHUNK_SIZE"
    by (rule mult_le_mono1) (use assms(1) in simp)
  also have "\<dots> \<le> len + CHUNK_SIZE - 1" by (simp add: chunk_total_def)
  finally have "i * CHUNK_SIZE + CHUNK_SIZE \<le> len + CHUNK_SIZE - 1" by simp
  then show ?thesis using CHUNK_SIZE_pos assms(2) by linarith
qed

lemma chunk_total_pos: "0 < len \<Longrightarrow> 0 < chunk_total len"
  by (simp add: chunk_total_def div_greater_zero_iff)

lemma chunk_offset:
  "unat ((ucast (i :: u32) :: u64) * word_of_nat CHUNK_SIZE) = unat i * CHUNK_SIZE"
proof -
  have "unat i < 2 ^ 32" using unsigned_less [of i, where ?'a = nat] by simp
  then have "unat i * CHUNK_SIZE < 2 ^ 64" by (simp add: CHUNK_SIZE_def)
  moreover have "(ucast i :: u64) * word_of_nat CHUNK_SIZE = word_of_nat (unat i * CHUNK_SIZE)"
    by (simp only: of_nat_mult of_nat_unat)
  moreover have "unat (word_of_nat k :: u64) = k" if "k < 2 ^ 64" for k
    using that by (simp add: unat_of_nat)
  ultimately show ?thesis by metis
qed

lemma unat_chunk_size: "unat (word_of_nat CHUNK_SIZE :: u64) = CHUNK_SIZE"
  by (simp add: CHUNK_SIZE_def)

text \<open>The length of chunk \<open>i\<close>, as the sender, the receiver and the hasher compute it.\<close>

lemma unat_chunk_len:
  assumes "unat i * CHUNK_SIZE \<le> unat sz"
  shows "unat (min (word_of_nat CHUNK_SIZE) (sz - (ucast (i :: u32) :: u64) * word_of_nat CHUNK_SIZE))
    = min CHUNK_SIZE (unat sz - unat i * CHUNK_SIZE)"
proof -
  have "(ucast i :: u64) * word_of_nat CHUNK_SIZE \<le> sz"
    using assms by (simp add: word_le_nat_alt chunk_offset)
  then have "unat (sz - (ucast i :: u64) * word_of_nat CHUNK_SIZE) = unat sz - unat i * CHUNK_SIZE"
    by (simp add: unat_sub chunk_offset)
  then show ?thesis by (simp add: min_def word_le_nat_alt unat_chunk_size)
qed

lemma chunk_hash_of:
  assumes "length data = unat sz" and "unat i < chunk_total (length data)"
  shows "chunk_hash E data sz i = sha256_buf E (chunk_of data (unat i))"
proof -
  have "0 < length data" using assms(2) by (cases "length data") (simp_all add: chunk_total_def)
  then have lt: "unat i * CHUNK_SIZE < unat sz" using chunk_total_bounds assms by metis
  have "chunk_bytes data sz i = Ok (chunk_of data (unat i))"
    using lt assms(1) unat_chunk_len [of i sz]
    by (auto simp: chunk_bytes_def Let_def chunk_offset chunk_of_def region_def min_def)
  then show ?thesis by (simp add: chunk_hash_def)
qed

lemma sha256_buf_not_Undef [simp]: "sha256_buf E d \<noteq> Undef"
  by (simp add: sha256_buf_def split: option.splits)

lemma sha256_buf_throws: "sha256_buf E d = Throw e \<Longrightarrow> \<exists>s. e = Runtime_error s"
  by (auto simp: sha256_buf_def split: option.splits if_splits)

text \<open>
  \<open>hashed E data hs\<close>: \<open>hs\<close> are the digests of the chunks of \<open>data\<close>, in order.
\<close>

definition hashed :: "evp \<Rightarrow> u8 list \<Rightarrow> u8 list list \<Rightarrow> bool" where
  "hashed E data hs \<longleftrightarrow> length hs = chunk_total (length data) \<and>
     (\<forall>i < length hs. sha256_buf E (chunk_of data i) = Ok (hs ! i))"

lemma parallel_wp:
  assumes fd: "fds w fd = Some f" "files w (of_path f) = Some data"
    and len: "length data = unat sz" "0 < length data" "unat count = chunk_total (length data)"
    and bound: "unat count + num_workers count hw < 2 ^ 32"
    and sched: "b \<or> enough_rounds count (num_workers count hw) sched"
    and sha: "b \<or> (\<forall>d. \<exists>h. sha256_buf E d = Ok h)"
    and rd: "ready b w (Suc n)"
    and fail: "\<And>w' s. b \<Longrightarrow> same_os w w' \<Longrightarrow> later w w' \<Longrightarrow> world.more w' = world.more w \<Longrightarrow>
      Q (Throw (Runtime_error s)) w'"
    and ok: "\<And>w' hs. same_os w w' \<Longrightarrow> later w w' \<Longrightarrow> world.more w' = world.more w \<Longrightarrow> ready b w' n \<Longrightarrow>
      hashed E data hs \<Longrightarrow> Q (Ok hs) w'"
  shows "wp b (hash_compute_parallel E hw sched fd sz count) Q w"
proof -
  let ?n = "num_workers count hw"
  let ?s = "foldl (\<lambda>s k. worker_step E data sz count k s) (hstate_init count ?n) sched"
  have cnt: "0 < unat count" using chunk_total_pos len by simp
  have ch: "chunk_hash E data sz i = sha256_buf E (chunk_of data (unat i))" if "i < count" for i
    using chunk_hash_of [OF len(1)] that len(3) by (simp add: word_less_nat_alt)
  then have safe: "\<forall>i < count. chunk_hash E data sz i \<noteq> Undef" by simp
  have n0: "0 < ?n" using cnt
    by (auto simp: num_workers_def min_def max_def word_le_nat_alt split: if_splits)
  have inv: "winv E data sz count ?n ?s" by (rule winv_foldl [OF winv_init [OF cnt] bound safe])
  have nf: "(\<exists>x \<in> set (workers ?s). x = Faulted) = False" using inv by (auto simp: winv_def)
  have whole: "region 0 (unat sz) data = data" using len(1) by (simp add: region_def)
  show ?thesis unfolding hash_compute_parallel_def wp_bind
  proof (rule wp_mmap [OF rd fd], goal_cases)
    case 1
    then show ?case using len by simp
  next
    case (2 w1)
    then show ?case using fail by (simp add: wp_return)
  next
    case (3 w1)
    show ?case
    proof (cases "\<forall>x \<in> set (workers ?s). x = Finished")
      case False
      have b
      proof (rule ccontr)
        assume "\<not> b"
        then obtain segs where "sched = concat segs" "2 * unat count + ?n \<le> length segs"
          "\<forall>seg \<in> set segs. set seg = {0..<?n}" using sched by (auto simp: enough_rounds_def)
        with rounds_finish [OF winv_init [OF cnt] bound safe, of segs] False show False
          by (simp add: work_left_init)
      qed
      then show ?thesis using False nf whole by (auto simp: Let_def wp_def)
    next
      case True
      show ?thesis
      proof (cases "first_exception (worker_exceptions ?s)")
        case (Some e)
        have "Some e \<in> set (worker_exceptions ?s)" by (rule first_exception_Some [OF Some])
        with inv obtain i where i: "i < count" "chunk_hash E data sz i = Throw e"
          unfolding winv_def by blast
        then have thr: "sha256_buf E (chunk_of data (unat i)) = Throw e" using ch [OF i(1)] by simp
        then obtain s where "e = Runtime_error s" using sha256_buf_throws by blast
        moreover have b using sha thr by (metis res.distinct(1))
        ultimately show ?thesis using True nf whole Some fail 3 by (simp add: Let_def wp_return)
      next
        case None
        then have all: "\<forall>i < count. chunk_hash E data sz i = Ok (hashes ?s ! unat i)"
          using winv_final [OF inv n0 True] by (auto simp: first_exception_None)
        have l: "length (hashes ?s) = unat count" using inv by (simp add: winv_def)
        have "sha256_buf E (chunk_of data i) = Ok (hashes ?s ! i)" if "i < length (hashes ?s)" for i
        proof -
          have "i < 2 ^ 32" using that l unsigned_less [of count, where ?'a = nat] by simp
          then have u: "unat (word_of_nat i :: u32) = i" by (simp add: unat_of_nat)
          then have "word_of_nat i < count" using that l by (simp add: word_less_nat_alt)
          then show ?thesis using all ch u by metis
        qed
        then have "hashed E data (hashes ?s)" using l len(3) by (simp add: hashed_def)
        then show ?thesis using True nf whole None ok 3 by (simp add: Let_def wp_return)
      qed
    qed
  qed
qed

section \<open>The cache file round trip\<close>

definition cache_enc :: "u64 \<Rightarrow> u64 \<Rightarrow> u32 \<Rightarrow> u32 \<Rightarrow> u8 list list \<Rightarrow> u8 list" where
  "cache_enc sz mt csz cnt hs =
     le_enc 8 (unat sz) @ le_enc 8 (unat mt) @ le_enc 4 (unat csz) @ le_enc 4 (unat cnt) @ concat hs"

text \<open>What a cache file with contents \<open>c\<close> answers for a file of this size and time.\<close>

definition cache_answer :: "u8 list \<Rightarrow> u64 \<Rightarrow> u64 \<Rightarrow> u32 \<Rightarrow> u8 list list option" where
  "cache_answer c sz mt cnt =
     (if 24 + unat cnt * HASH_SIZE \<le> length c \<and> word_of_nat (le_dec (region 0 8 c)) = sz \<and>
         word_of_nat (le_dec (region 8 8 c)) = mt \<and> word_of_nat (le_dec (region 20 4 c)) = cnt
      then Some (map (\<lambda>i. region (24 + i * HASH_SIZE) HASH_SIZE c) [0..<unat cnt]) else None)"

definition cached :: "'e world_scheme \<Rightarrow> string \<Rightarrow> u64 \<Rightarrow> u64 \<Rightarrow> u32 \<Rightarrow> u8 list list option" where
  "cached w p sz mt cnt =
     (case files w (sibling ''.embr.hash'' p) of None \<Rightarrow> None | Some c \<Rightarrow> cache_answer c sz mt cnt)"

lemma hash_cache_path: "p \<noteq> [] \<Longrightarrow> hash_cache_path_for p = Ok (sibling ''.embr.hash'' p)"
  by (simp add: hash_cache_path_for_def sibling_def split: option.splits)

definition cache_load_cost :: "u32 \<Rightarrow> nat" where
  "cache_load_cost cnt = 29 + unat cnt * Suc HASH_SIZE"

definition cache_save_cost :: "u32 \<Rightarrow> nat" where
  "cache_save_cost cnt = 25 + unat cnt * HASH_SIZE"

lemma read_hashes_wp:
  assumes "holds fd f w0 w" and "files w (of_path f) = Some c" and "ready b w (n * Suc HASH_SIZE + m)"
    and "of_pos f \<le> length c"
    and ok: "\<And>w' g. holds fd g w0 w' \<Longrightarrow> files w' = files w \<Longrightarrow> world.more w' = world.more w \<Longrightarrow>
      ready b w' m \<Longrightarrow> of_pos f + n * HASH_SIZE \<le> length c \<Longrightarrow>
      Q (Ok (map (\<lambda>i. region (of_pos f + i * HASH_SIZE) HASH_SIZE c) [0..<n])) w'"
    and fail: "\<And>w' s g. b \<or> length c < of_pos f + n * HASH_SIZE \<Longrightarrow> holds fd g w0 w' \<Longrightarrow>
      files w' = files w \<Longrightarrow> world.more w' = world.more w \<Longrightarrow> ready b w' m \<Longrightarrow> Q (Throw (Runtime_error s)) w'"
  shows "wp b (read_hashes fd n) Q w"
  using assms
proof (induction n arbitrary: f w Q)
  case 0
  then show ?case by (simp add: wp_return)
next
  case (Suc n)
  let ?g = "f\<lparr>of_pos := of_pos f + HASH_SIZE\<rparr>"
  show ?case unfolding read_hashes.simps wp_bind
  proof (rule wp_read_exact [OF Suc.prems(1,2), where n = "n * Suc HASH_SIZE + m"], goal_cases)
    case 1
    have "Suc n * Suc HASH_SIZE + m = Suc HASH_SIZE + (n * Suc HASH_SIZE + m)" by simp
    then show ?case using Suc.prems(3) by (simp only:)
  next
    case (3 w1 s k)
    have "b \<or> length c < of_pos f + Suc n * HASH_SIZE" using 3(1) by auto
    from Suc.prems(6) [OF this 3(2,3,4) ready_mono [OF 3(5)]] show ?case by simp
  next
    case (2 w1)
    have c1: "files w1 (of_path ?g) = Some c" "of_pos ?g \<le> length c"
      using 2 Suc.prems(2) by (simp_all add: HASH_SIZE_def)
    show ?case unfolding on_ok_simps wp_bind
    proof (rule Suc.IH [OF 2(1) c1(1) 2(4) c1(2)], goal_cases)
      case (1 g w2)
      have "[0..<Suc n] = 0 # map Suc [0..<n]" by (simp only: map_Suc_upt upt_conv_Cons)
      then have "map (\<lambda>i. region (of_pos f + i * HASH_SIZE) HASH_SIZE c) [0..<Suc n] =
        region (of_pos f) HASH_SIZE c #
        map (\<lambda>i. region (of_pos ?g + i * HASH_SIZE) HASH_SIZE c) [0..<n]"
        by (simp add: add.assoc)
      then show ?case using Suc.prems(5) [where ?g = g and w' = w2] 1 2(2,3) by (simp add: wp_return add.assoc)
    next
      case (2 g w2 s)
      then show ?case using Suc.prems(6) [where ?g = g and w' = w2 and s = s] \<open>files w1 = files w\<close> \<open>world.more w1 = world.more w\<close>
        by (simp add: add.assoc)
    qed
  qed
qed

definition cache_load_post ::
  "bool \<Rightarrow> u8 list list option \<Rightarrow> nat \<Rightarrow> 'e world_scheme \<Rightarrow> u8 list list option res \<Rightarrow> 'e world_scheme \<Rightarrow> bool" where
  "cache_load_post b ans m w r w' \<longleftrightarrow> (\<exists>x. r = Ok x \<and> (b \<and> x = None \<or> x = ans)) \<and>
     tidy w w' \<and> files w' = files w \<and> world.more w' = world.more w \<and> ready b w' m"

lemma cache_load_try_wp:
  assumes h: "holds fd \<lparr>of_path = p, of_pos = 0\<rparr> w w0" and f0: "files w0 = files w"
    and m0: "world.more w0 = world.more w" and c: "files w p = Some c"
    and rd: "ready b w0 (28 + unat cnt * Suc HASH_SIZE + m)"
  shows "wp b (cache_load_try sz mt cnt fd) (on_runtime (io_bind (io_close fd) (\<lambda>_. io_ret None)) b
           (cache_load_post b (cache_answer c sz mt cnt) m w)) w0"
proof -
  let ?K = "unat cnt * Suc HASH_SIZE + m"
  let ?ans = "cache_answer c sz mt cnt"
  have none: "cache_load_post b ?ans m w (Ok None) (sys_close fd w')"
    if "holds fd f w w'" "files w' = files w" "world.more w' = world.more w" "ready b w' k" "m \<le> k"
      "b \<or> ?ans = None" for f w' k
    using that holds_close [OF that(1)] ready_mono [OF that(4,5)] by (auto simp: cache_load_post_def)
  have short: "b \<or> ?ans = None" if "b \<or> length c < n" "n \<le> 24 + unat cnt * HASH_SIZE" for n
    using that by (auto simp: cache_answer_def)
  note [simp] = wp_simps
  show ?thesis unfolding cache_load_try_def wp_bind
  proof (rule wp_read_exact [OF h, where c = c and n = "19 + ?K"], goal_cases)
    case 1 then show ?case using c f0 by simp
  next
    case 2 show ?case by (rule ready_mono [OF rd]) simp
  next
    case (4 w1 s k)
    then show ?case using none [OF 4(2) _ _ 4(5)] short [OF 4(1)] f0 m0 by simp
  next
    case (3 w1)
    note w1 = 3
    show ?case unfolding on_ok_simps wp_bind
    proof (rule wp_read_exact [OF w1(1), where c = c and n = "10 + ?K"], goal_cases)
      case 1 then show ?case using c f0 w1 by simp
    next
      case 2 then show ?case using w1 by simp
    next
      case (4 w2 s k)
      then show ?case using none [OF 4(2) _ _ 4(5)] short [OF 4(1)] w1 f0 m0 by simp
    next
      case (3 w2)
      note w2 = 3
      show ?case unfolding on_ok_simps wp_bind
      proof (rule wp_read_exact [OF w2(1), where c = c and n = "5 + ?K"], goal_cases)
        case 1 then show ?case using c f0 w1 w2 by simp
      next
        case 2 then show ?case using w2 by simp
      next
        case (4 w3 s k)
        then show ?case using none [OF 4(2) _ _ 4(5)] short [OF 4(1)] w1 w2 f0 m0 by simp
      next
        case (3 w3)
        note w3 = 3
        show ?case unfolding on_ok_simps wp_bind
        proof (rule wp_read_exact [OF w3(1), where c = c and n = ?K], goal_cases)
          case 1 then show ?case using c f0 w1 w2 w3 by simp
        next
          case 2 then show ?case using w3 by simp
        next
          case (4 w4 s k)
          then show ?case using none [OF 4(2) _ _ 4(5)] short [OF 4(1)] w1 w2 w3 f0 m0 by simp
        next
          case (3 w4)
          note w4 = 3
          have f4: "files w4 = files w" "world.more w4 = world.more w" using w1 w2 w3 w4 f0 m0 by simp_all
          let ?miss = "word_of_nat (le_dec (region 0 8 c)) \<noteq> sz \<or> word_of_nat (le_dec (region 8 8 c)) \<noteq> mt
            \<or> word_of_nat (le_dec (region 20 4 c)) \<noteq> cnt"
          show ?case
          proof (cases ?miss)
            case True
            then have "?ans = None" by (auto simp: cache_answer_def)
            then show ?thesis using True none [OF w4(1) f4 w4(4)] by simp
          next
            case False
            have "wp b (read_hashes fd (unat cnt)) (on_ok
               (\<lambda>hs. wp b (io_bind (io_close fd) (\<lambda>_. io_ret (Some hs)))
                 (on_runtime (io_bind (io_close fd) (\<lambda>_. io_ret None)) b (cache_load_post b ?ans m w)))
               (on_runtime (io_bind (io_close fd) (\<lambda>_. io_ret None)) b (cache_load_post b ?ans m w))) w4"
            proof (rule read_hashes_wp [OF w4(1), where c = c and m = m], goal_cases)
              case 1 then show ?case using c f4 by simp
            next
              case 2 then show ?case using w4 by simp
            next
              case 3 then show ?case using w4 by simp
            next
              case (4 g w5)
              then have "?ans = Some (map (\<lambda>i. region (24 + i * HASH_SIZE) HASH_SIZE c) [0..<unat cnt])"
                using False by (simp add: cache_answer_def)
              then show ?case using 4 f4 holds_close [OF 4(1)] by (simp add: cache_load_post_def)
            next
              case (5 g w5 s)
              then show ?case using none [OF 5(2) _ _ 5(5)] short [OF 5(1)] f4 by simp
            qed
            then show ?thesis using False by simp
          qed
        qed
      qed
    qed
  qed
qed

lemma cache_load_wp:
  assumes "wf_fds w" and "p \<noteq> []" and "ready b w (cache_load_cost cnt + m)"
  shows "wp b (hash_cache_load p sz mt cnt) (cache_load_post b (cached w p sz mt cnt) m w) w"
proof -
  have rd: "ready b w (Suc (28 + unat cnt * Suc HASH_SIZE + m))"
    by (rule ready_mono [OF assms(3)]) (simp add: cache_load_cost_def)
  show ?thesis unfolding hash_cache_load_def hash_cache_path [OF assms(2)] wp_bind wp_return on_ok_simps
  proof (rule wp_open [OF assms(1) rd], goal_cases)
    case (1 w')
    then have "b \<or> cached w p sz mt cnt = None" by (auto simp: cached_def)
    moreover have "ready b w' m" by (rule ready_mono [OF 1(5)]) simp
    ultimately show ?case using 1 by (auto simp: cache_load_post_def wp_simps)
  next
    case (2 w1 fd)
    then obtain c where c: "files w (sibling ''.embr.hash'' p) = Some c" by auto
    then have "files w1 = files w" using 2(3) by (auto simp: contents_def)
    from cache_load_try_wp [OF 2(2) this 2(4) c 2(5)] c holds_lookup [OF 2(2)] show ?case
      by (simp add: wp_simps cached_def)
  qed
qed

definition cache_save_post :: "bool \<Rightarrow> string \<Rightarrow> u8 list \<Rightarrow> nat \<Rightarrow> 'e world_scheme
    \<Rightarrow> unit res \<Rightarrow> 'e world_scheme \<Rightarrow> bool" where
  "cache_save_post b p c m w r w' \<longleftrightarrow> tidy w w' \<and> world.more w' = world.more w \<and>
     (\<forall>q. q \<noteq> sibling ''.embr.hash'' p \<longrightarrow> files w' q = files w q) \<and>
     (case r of
        Ok _ \<Rightarrow> ready b w' m \<and> files w' (sibling ''.embr.hash'' p) = Some c
      | Throw e \<Rightarrow> b \<and> (\<exists>s. e = Runtime_error s)
      | Undef \<Rightarrow> False)"

lemma cache_save_wp:
  assumes "wf_fds w" and "p \<noteq> []" and hs: "\<forall>h \<in> set hs. length h = HASH_SIZE" "length hs = unat cnt"
    and rd: "ready b w (cache_save_cost cnt + m)"
  shows "wp b (hash_cache_save p sz mt csz cnt hs) (cache_save_post b p (cache_enc sz mt csz cnt hs) m w) w"
proof -
  let ?p = "sibling ''.embr.hash'' p"
  let ?Q = "cache_save_post b p (cache_enc sz mt csz cnt hs) m w"
  have len: "length (concat hs) = unat cnt * HASH_SIZE"
  proof -
    have "length (concat hs) = length hs * HASH_SIZE" using hs(1) by (induction hs) auto
    then show ?thesis by (simp add: hs(2))
  qed
  note [simp] = wp_simps
  have rd': "ready b w (Suc (24 + length (concat hs) + m))"
    by (rule ready_mono [OF rd]) (simp add: cache_save_cost_def len)
  have failed: "on_throw (sys_close fd) ?Q (Throw (Runtime_error s)) w'"
    if "b" "tidy w (sys_close fd w')" "\<And>q. q \<noteq> ?p \<Longrightarrow> files w' q = files w q" "world.more w' = world.more w"
    for fd s w'
    using that by (simp add: cache_save_post_def)
  show ?thesis unfolding hash_cache_save_def hash_cache_path [OF assms(2)] wp_bind wp_return on_ok_simps
  proof (rule wp_open [OF assms(1) rd'], goal_cases)
    case (1 w')
    then show ?case by (auto simp: cache_save_post_def)
  next
    case (2 w1 fd)
    let ?T = "on_throw (sys_close fd) ?Q"
    have e1: "at_end fd ?p [] w w1" using 2 by (simp add: at_end_def)
    have "wp b (cache_save_try sz mt csz cnt hs fd) ?T w1" unfolding cache_save_try_def wp_bind
    proof (rule wp_append [OF e1, where n = "16 + length (concat hs) + m"], goal_cases)
      case 1 show ?case by (rule ready_mono [OF 2(5)]) simp
    next
      case 3 then show ?case using failed by simp
    next
      case (2 w2)
      show ?case unfolding on_ok_simps wp_bind
      proof (rule wp_append [OF 2(1), where n = "8 + length (concat hs) + m"], goal_cases)
        case 1 show ?case by (rule ready_mono [OF 2(2)]) simp
      next
        case 3 then show ?case using failed by simp
      next
        case (2 w3)
        show ?case unfolding on_ok_simps wp_bind
        proof (rule wp_append [OF 2(1), where n = "4 + length (concat hs) + m"], goal_cases)
          case 1 show ?case by (rule ready_mono [OF 2(2)]) simp
        next
          case 3 then show ?case using failed by simp
        next
          case (2 w4)
          show ?case unfolding on_ok_simps wp_bind
          proof (rule wp_append [OF 2(1), where n = "length (concat hs) + m"], goal_cases)
            case 1 show ?case by (rule ready_mono [OF 2(2)]) simp
          next
            case 3 then show ?case using failed by simp
          next
            case (2 w5)
            show ?case unfolding on_ok_simps wp_bind
            proof (rule wp_append_all [OF 2], goal_cases)
              case (1 w6)
              then show ?case using at_end_close [OF 1(1)]
                by (auto simp: cache_save_post_def cache_enc_def)
            next
              case 2 then show ?case using failed by simp
            qed
          qed
        qed
      qed
    qed
    then show ?case using holds_lookup [OF 2(2)] by simp
  qed
qed

lemma region_prefix: "length xs = n \<Longrightarrow> region n k (xs @ ys @ zs) = region 0 k (ys @ zs)"
  by (simp add: region_def)

lemma u64_le_bytes: "(word_of_nat (le_dec (le_enc 8 (unat x))) :: u64) = x"
  using unsigned_less [of x, where ?'a = nat] by simp

lemma u32_le_bytes: "(word_of_nat (le_dec (le_enc 4 (unat x))) :: u32) = x"
  using unsigned_less [of x, where ?'a = nat] by simp

lemma cache_answer_enc:
  assumes "\<forall>h \<in> set hs. length h = HASH_SIZE" and "length hs = unat cnt"
  shows "cache_answer (cache_enc sz mt csz cnt hs) sz' mt' cnt' =
    (if sz' = sz \<and> mt' = mt \<and> cnt' = cnt then Some hs else None)"
proof -
  let ?c = "cache_enc sz mt csz cnt hs"
  have hdr: "region 0 8 ?c = le_enc 8 (unat sz)" "region 8 8 ?c = le_enc 8 (unat mt)"
    "region 20 4 ?c = le_enc 4 (unat cnt)"
    by (simp_all add: cache_enc_def region_def)
  have tail: "drop 24 ?c = concat hs" "length ?c = 24 + length (concat hs)"
    by (simp_all add: cache_enc_def)
  have len: "length (concat hs) = length hs * HASH_SIZE" using assms(1) by (induction hs) auto
  have "region (i * HASH_SIZE) HASH_SIZE (concat hs) = hs ! i" if "i < length hs" for i
    using that assms(1)
  proof (induction hs arbitrary: i)
    case (Cons h hs)
    then show ?case by (cases i) (simp_all add: region_def)
  qed simp
  moreover have "region (24 + i * HASH_SIZE) HASH_SIZE ?c = region (i * HASH_SIZE) HASH_SIZE (concat hs)" for i
    by (simp add: region_def tail(1) [symmetric] add.commute)
  ultimately have "map (\<lambda>i. region (24 + i * HASH_SIZE) HASH_SIZE ?c) [0..<unat cnt] = hs"
    by (intro nth_equalityI) (simp_all add: assms(2))
  then show ?thesis
    using tail(2) len assms(2) by (auto simp: cache_answer_def hdr u64_le_bytes u32_le_bytes)
qed

section \<open>Properties\<close>

text \<open>C7: However the scheduler interleaves the worker threads, the hashes that
  \<^verbatim>\<open>hash_compute_parallel\<close> returns are those of the chunks of the file, in chunk order:
  no index is skipped, taken twice with a different result, or stored elsewhere, and no
  worker reads outside the mapping. If it throws, the mapping or the hash of some chunk
  failed.\<close>

theorem hash_parallel_any_schedule:
  assumes "hash_compute_parallel E hw sched fd sz count w = Some (r, w')"
    and "fds w fd = Some f" and "files w (of_path f) = Some data"
    and "length data = unat sz" and "0 < length data" and "unat count = chunk_total (length data)"
    and "unat count + num_workers count hw < 2 ^ 32"
  shows "(\<exists>hs. r = Ok hs \<and> length hs = unat count \<and>
        (\<forall>i < unat count. sha256_buf E (region (i * CHUNK_SIZE) CHUNK_SIZE data) = Ok (hs ! i)))
     \<or> (\<exists>s. r = Throw (Runtime_error s))"
proof -
  have "wp True (hash_compute_parallel E hw sched fd sz count)
     (\<lambda>r w'. (\<exists>hs. r = Ok hs \<and> hashed E data hs) \<or> (\<exists>s. r = Throw (Runtime_error s))) w"
    by (rule parallel_wp [OF assms(2-7), where n = 0]) auto
  from wpD [OF this assms(1)] show ?thesis using assms(6) by (auto simp: hashed_def chunk_of_def)
qed

text \<open>C32: The computation ends: when the mapping succeeds and the digest library does not
  fail, \<open>2 * chunk_count + workers\<close> rounds in which each worker gets a step are enough for
  all threads to be joined and the hashes to be returned.\<close>

theorem hash_parallel_returns:
  assumes "fair w" and "0 < fuel w"
    and "fds w fd = Some f" and "files w (of_path f) = Some data"
    and "length data = unat sz" and "0 < length data" and "unat count = chunk_total (length data)"
    and "unat count + num_workers count hw < 2 ^ 32"
    and "enough_rounds count (num_workers count hw) sched"
    and "\<forall>d. \<exists>h. sha256_buf E d = Ok h"
  shows "\<exists>hs w'. hash_compute_parallel E hw sched fd sz count w = Some (Ok hs, w') \<and> hashed E data hs"
proof -
  have "wp False (hash_compute_parallel E hw sched fd sz count) (\<lambda>r w'. \<exists>hs. r = Ok hs \<and> hashed E data hs) w"
    by (rule parallel_wp [OF assms(3-8), where n = 0])
      (use assms(1,2,9,10) in \<open>auto simp: ready_def\<close>)
  then show ?thesis by (auto simp: wp_total)
qed

text \<open>C33: The hash cache gives back what was saved, exactly when file size, modification
  time and chunk count are the ones it was saved under; for any other it reports a miss.
  Failures of the environment can only turn a hit into a miss or make the save throw. No
  other file changes and both calls close their descriptor on every path.\<close>

theorem hash_cache_roundtrip:
  assumes "wf_fds w" and "p \<noteq> []" and hs: "\<forall>h \<in> set hs. length h = HASH_SIZE" "length hs = unat cnt"
    and rd: "ready b w (cache_save_cost cnt + cache_load_cost cnt')"
  shows "wp b (io_bind (hash_cache_save p sz mt csz cnt hs) (\<lambda>_. hash_cache_load p sz' mt' cnt'))
    (\<lambda>r w'. tidy w w' \<and> (\<forall>q. q \<noteq> sibling ''.embr.hash'' p \<longrightarrow> files w' q = files w q) \<and>
       (r = Ok (if sz' = sz \<and> mt' = mt \<and> cnt' = cnt then Some hs else None) \<or>
        b \<and> (r = Ok None \<or> (\<exists>s. r = Throw (Runtime_error s))))) w"
proof -
  let ?p = "sibling ''.embr.hash'' p"
  let ?R = "\<lambda>r w'. tidy w w' \<and> (\<forall>q. q \<noteq> ?p \<longrightarrow> files w' q = files w q) \<and>
       (r = Ok (if sz' = sz \<and> mt' = mt \<and> cnt' = cnt then Some hs else None) \<or>
        b \<and> (r = Ok None \<or> (\<exists>s. r = Throw (Runtime_error s))))"
  show ?thesis unfolding wp_bind
  proof (rule wp_mono [OF cache_save_wp [OF assms(1,2) hs rd]], goal_cases)
    case (1 r w1)
    then have t: "tidy w w1" "\<forall>q. q \<noteq> ?p \<longrightarrow> files w1 q = files w q" by (simp_all add: cache_save_post_def)
    show ?case
    proof (cases r)
      case (Ok u)
      then have c: "files w1 ?p = Some (cache_enc sz mt csz cnt hs)" "ready b w1 (cache_load_cost cnt' + 0)"
        using 1 by (simp_all add: cache_save_post_def)
      have "cached w1 p sz' mt' cnt' = (if sz' = sz \<and> mt' = mt \<and> cnt' = cnt then Some hs else None)"
        using c(1) cache_answer_enc [OF hs] by (simp add: cached_def)
      then have "wp b (hash_cache_load p sz' mt' cnt') ?R w1"
        by (intro wp_mono [OF cache_load_wp [OF wf_fds_tidy [OF assms(1) t(1)] assms(2) c(2)]])
          (use t in \<open>auto simp: cache_load_post_def intro: tidy_trans split: if_splits\<close>)
      then show ?thesis by (simp add: Ok)
    qed (use 1 in \<open>auto simp: cache_save_post_def\<close>)
  qed
qed

section \<open>Witnesses\<close>

text \<open>A stand-in for SHA-256 with digests of the right length.\<close>

definition toy_evp :: evp where
  "toy_evp = \<lparr>evp_ctx_new = True, evp_init = True, evp_update = (\<lambda>_. True),
     evp_final = (\<lambda>d. Some (take HASH_SIZE (d @ replicate HASH_SIZE 0)))\<rparr>"

lemma toy_evp: "sha256_buf toy_evp d = Ok (take HASH_SIZE (d @ replicate HASH_SIZE 0))" "evp_sha256 toy_evp"
  by (auto simp: toy_evp_def sha256_buf_def evp_sha256_def min_def)

definition open_world :: "world" where
  "open_world = sample_world [''f'' \<mapsto> [1, 2, 3]] \<lparr>fds := [3 \<mapsto> \<lparr>of_path = ''f'', of_pos = 0\<rparr>], next_fd := 4\<rparr>"

lemma open_world: "fair open_world" "fuel open_world = 2 ^ 27"
  "fds open_world 3 = Some \<lparr>of_path = ''f'', of_pos = 0\<rparr>" "files open_world ''f'' = Some [1, 2, 3]"
  using sample_world(3,4) [of "[''f'' \<mapsto> [1, 2, 3]]"] by (simp_all add: open_world_def fair_def fuel_def)

lemma one_chunk: "chunk_total 3 = 1" "chunk_total (Suc (Suc (Suc 0))) = Suc 0" "num_workers 1 1 = 1" "enough_rounds 1 1 [0, 0, 0]"
proof -
  show "enough_rounds 1 1 [0, 0, 0]" unfolding enough_rounds_def by (rule exI [of _ "[[0], [0], [0]]"]) auto
qed (simp_all add: chunk_total_def CHUNK_SIZE_def num_workers_def)

lemma hash_parallel_any_schedule_witness:
  "\<exists>hs w'. hash_compute_parallel toy_evp 1 [0, 0, 0] 3 3 1 open_world = Some (Ok hs, w') \<and> length hs = 1 \<and>
     sha256_buf toy_evp (region 0 CHUNK_SIZE [1, 2, 3]) = Ok (hs ! 0)"
proof -
  have "wp False (hash_compute_parallel toy_evp 1 [0, 0, 0] 3 3 1) (\<lambda>r w'. \<exists>hs. r = Ok hs) open_world"
    by (rule parallel_wp [OF open_world(3), where data = "[1, 2, 3]" and n = 0])
      (use open_world one_chunk toy_evp in \<open>simp_all add: ready_def\<close>)
  then obtain hs w' where run: "hash_compute_parallel toy_evp 1 [0, 0, 0] 3 3 1 open_world = Some (Ok hs, w')"
    by (auto simp: wp_total)
  from hash_parallel_any_schedule [OF this open_world(3), of "[1, 2, 3]"] open_world(4) one_chunk
  have "length hs = 1 \<and> sha256_buf toy_evp (region 0 CHUNK_SIZE [1, 2, 3]) = Ok (hs ! 0)" by simp
  then show ?thesis using run by blast
qed

lemma hash_parallel_returns_witness:
  "\<exists>hs w'. hash_compute_parallel toy_evp 1 [0, 0, 0] 3 3 1 open_world = Some (Ok hs, w') \<and> hashed toy_evp [1, 2, 3] hs"
  by (rule hash_parallel_returns [OF open_world(1) _ open_world(3)])
    (use open_world one_chunk toy_evp in simp_all)

lemma hash_cache_roundtrip_witness:
  "\<exists>w'. io_bind (hash_cache_save ''f'' 3 7 1048576 1 [replicate HASH_SIZE 9]) (\<lambda>_. hash_cache_load ''f'' 3 7 1)
     (sample_world Map.empty) = Some (Ok (Some [replicate HASH_SIZE 9]), w')"
proof -
  have "wp False (io_bind (hash_cache_save ''f'' 3 7 1048576 1 [replicate HASH_SIZE 9]) (\<lambda>_. hash_cache_load ''f'' 3 7 1))
    (\<lambda>r w'. tidy (sample_world Map.empty) w' \<and>
       (\<forall>q. q \<noteq> sibling ''.embr.hash'' ''f'' \<longrightarrow> files w' q = files (sample_world Map.empty) q) \<and>
       (r = Ok (if (3 :: u64) = 3 \<and> (7 :: u64) = 7 \<and> (1 :: u32) = 1 then Some [replicate HASH_SIZE 9] else None) \<or>
        False \<and> (r = Ok None \<or> (\<exists>s. r = Throw (Runtime_error s))))) (sample_world Map.empty)"
    by (rule hash_cache_roundtrip)
      (simp_all add: sample_ready cache_save_cost_def cache_load_cost_def HASH_SIZE_def)
  then show ?thesis by (auto simp: wp_total)
qed

end
