(* ===== verification/Push.thy ===== *)
theory Push
  imports Protocol Hash_Cache
begin

text \<open>
  The sending side, \<^verbatim>\<open>core/push.cpp\<close>: \<^verbatim>\<open>precompute_meta\<close> builds the file's metadata with
  the chunk hashes, from the cache or by hashing; \<^verbatim>\<open>run_push\<close> answers one peer over any
  transport. One pass of its request loop is \<open>push_request\<close>; the loop itself may wait
  for ever, so it is a partial function.
\<close>

section \<open>Metadata\<close>

text \<open>\<^verbatim>\<open>path::filename\<close>.\<close>

definition path_filename :: "string \<Rightarrow> string" where
  "path_filename p = (case rfind_slash p of None \<Rightarrow> p | Some i \<Rightarrow> drop (i + 1) p)"

definition chunk_count_of :: "u64 \<Rightarrow> u32" where
  "chunk_count_of sz =
     ucast ((sz + word_of_nat CHUNK_SIZE - 1) div word_of_nat CHUNK_SIZE)"

text \<open>
  \<open>mtim\<close> is the file system's answer for \<^verbatim>\<open>st_mtim\<close> (seconds and nanoseconds), \<open>hw\<close> and
  \<open>sched\<close> are the processor count and the scheduling of the hashing threads.
\<close>

definition meta_of :: "string \<Rightarrow> u64 \<Rightarrow> u8 list list \<Rightarrow> file_meta" where
  "meta_of file_path sz hs =
     \<lparr>file_name = path_filename file_path, file_size = sz, chunk_size = word_of_nat CHUNK_SIZE,
      chunk_count = chunk_count_of sz, chunk_hashes = hs\<rparr>"

text \<open>After a miss in the cache: hash the file, write the cache.\<close>

definition precompute_miss ::
  "evp \<Rightarrow> u32 \<Rightarrow> nat list \<Rightarrow> string \<Rightarrow> u64 \<Rightarrow> u64 \<Rightarrow> u32 \<Rightarrow> ('e world_scheme, file_meta) io" where
  "precompute_miss E hw sched file_path sz mtime_ns cnt =
     io_bind (sys (sys_open file_path False False)) (\<lambda>raw.
     io_bind (io_lift (SocketFd raw)) (\<lambda>fd.
       with_fd fd
         (io_bind (hash_compute_parallel E hw sched fd sz cnt) (\<lambda>hs.
          io_bind (hash_cache_save file_path sz mtime_ns (word_of_nat CHUNK_SIZE) cnt hs)
            (\<lambda>_. io_ret (meta_of file_path sz hs))))))"

definition precompute_hashes ::
  "evp \<Rightarrow> u32 \<Rightarrow> nat list \<Rightarrow> string \<Rightarrow> u64 \<Rightarrow> u64 \<Rightarrow> u32 \<Rightarrow> ('e world_scheme, file_meta) io" where
  "precompute_hashes E hw sched file_path sz mtime_ns cnt =
     io_bind (hash_cache_load file_path sz mtime_ns cnt) (\<lambda>hit.
       case hit of
         Some hs \<Rightarrow> io_ret (meta_of file_path sz hs)
       | None \<Rightarrow> precompute_miss E hw sched file_path sz mtime_ns cnt)"

definition precompute_meta ::
  "evp \<Rightarrow> u32 \<Rightarrow> nat list \<Rightarrow> (string \<Rightarrow> u64 \<times> u64) \<Rightarrow> string \<Rightarrow> ('e world_scheme, file_meta) io" where
  "precompute_meta E hw sched mtim file_path =
     io_bind (sys (sys_stat_size file_path)) (\<lambda>ex.
       if ex = None then io_throw (Runtime_error ''precompute_meta: file does not exist: '')
       else io_bind (sys (sys_stat_size file_path)) (\<lambda>fs.
         case fs of
           None \<Rightarrow> io_throw (Runtime_error ''filesystem error: cannot get file size'')
         | Some n \<Rightarrow>
             let sz = word_of_nat n :: u64 in
             if sz = 0 then io_throw (Runtime_error ''precompute_meta: file is empty: '')
             else io_bind (sys (sys_stat_size file_path)) (\<lambda>st.
               if st = None then io_throw (Runtime_error ''precompute_meta: stat failed: '')
               else precompute_hashes E hw sched file_path sz
                      (fst (mtim file_path) * 1000000000 + snd (mtim file_path)) (chunk_count_of sz))))"

section \<open>Serving one peer\<close>

text \<open>The length of chunk \<open>i\<close>: \<^verbatim>\<open>min(CHUNK_SIZE, file_size - offset)\<close> in \<^verbatim>\<open>uint64_t\<close>.\<close>

definition chunk_off :: "u32 \<Rightarrow> u64" where
  "chunk_off i = ucast i * word_of_nat CHUNK_SIZE"

definition chunk_len :: "u64 \<Rightarrow> u32 \<Rightarrow> u64" where
  "chunk_len sz i = min (word_of_nat CHUNK_SIZE) (sz - chunk_off i)"

text \<open>One pass of the loop; the result says whether to go on.\<close>

definition push_request ::
  "'e world_scheme transport \<Rightarrow> int \<Rightarrow> u64 \<Rightarrow> u32 \<Rightarrow> ('e world_scheme, bool) io" where
  "push_request t fd sz cnt =
     io_bind (recv_msg t) (\<lambda>msg.
       if m_type msg = COMPLETE then io_ret False
       else if m_type msg \<noteq> CHUNK_REQ
       then io_throw (Runtime_error ''run_push: unexpected message type: '')
       else io_bind (io_lift (parse_chunk_req msg)) (\<lambda>req.
         if req_index req \<ge> cnt
         then io_throw (Runtime_error ''run_push: chunk_index out of range: '')
         else
           io_bind (io_lift (make_chunk_hdr \<lparr>hdr_index = req_index req\<rparr>)) (\<lambda>m.
           io_bind (send_msg t m) (\<lambda>_.
           io_bind (t_send_file t fd (unat (chunk_off (req_index req)))
                      (unat (chunk_len sz (req_index req)))) (\<lambda>_. io_ret True)))))"

partial_function (option) push_loop ::
  "'e world_scheme transport \<Rightarrow> int \<Rightarrow> u64 \<Rightarrow> u32 \<Rightarrow> 'e world_scheme
     \<Rightarrow> (unit res \<times> 'e world_scheme) option" where
  "push_loop t fd sz cnt w =
     Option.bind (push_request t fd sz cnt w) (\<lambda>(r, w').
       case r of
         Ok go \<Rightarrow> if go then push_loop t fd sz cnt w' else Some (Ok (), w')
       | Throw e \<Rightarrow> Some (Throw e, w')
       | Undef \<Rightarrow> Some (Undef, w'))"

definition run_push :: "'e world_scheme transport \<Rightarrow> int \<Rightarrow> file_meta \<Rightarrow> ('e world_scheme, unit) io" where
  "run_push t fd meta =
     with_fd fd
       (io_bind (recv_msg t) (\<lambda>hs_msg.
          if m_type hs_msg \<noteq> HANDSHAKE then io_throw (Runtime_error ''run_push: expected HANDSHAKE'')
          else io_bind (io_lift (parse_handshake hs_msg)) (\<lambda>handshake.
            io_bind (io_lift (make_filemeta meta)) (\<lambda>m.
            io_bind (send_msg t m) (\<lambda>_.
              push_loop t fd (file_size meta) (chunk_count meta))))))"

section \<open>What a peer is sent\<close>

definition req_msg :: "u32 \<Rightarrow> message" where
  "req_msg i = \<lparr>m_type = CHUNK_REQ, m_payload = u32_enc i\<rparr>"

definition hdr_msg :: "u32 \<Rightarrow> message" where
  "hdr_msg i = \<lparr>m_type = CHUNK_HDR, m_payload = u32_enc i\<rparr>"

text \<open>A message that is read as a request for chunk \<open>i\<close> (bytes after the index are ignored).\<close>

definition asks :: "message \<Rightarrow> u32 \<Rightarrow> bool" where
  "asks msg i \<longleftrightarrow> m_type msg = CHUNK_REQ \<and> (\<exists>s. m_payload msg = u32_enc i @ s)"

text \<open>The answer: a header and the bytes of the chunk.\<close>

definition answer :: "u8 list \<Rightarrow> u64 \<Rightarrow> u32 \<Rightarrow> u8 list" where
  "answer data sz i = frame (hdr_msg i) @ region (unat (chunk_off i)) (unat (chunk_len sz i)) data"

lemma unat_chunk_off: "unat (chunk_off i) = unat i * CHUNK_SIZE"
  by (simp add: chunk_off_def chunk_offset)

lemma unat_chunk_len_le: "unat (chunk_len sz i) \<le> CHUNK_SIZE"
proof -
  have "chunk_len sz i \<le> word_of_nat CHUNK_SIZE" by (simp add: chunk_len_def)
  then show ?thesis by (simp only: word_le_nat_alt unat_chunk_size)
qed

lemma chunk_region:
  assumes "unat sz = length data" and "unat i < chunk_total (length data)"
  shows "unat (chunk_len sz i) = min CHUNK_SIZE (length data - unat i * CHUNK_SIZE)"
    and "0 < unat (chunk_len sz i)"
    and "unat (chunk_off i) + unat (chunk_len sz i) \<le> length data"
    and "region (unat (chunk_off i)) (unat (chunk_len sz i)) data = chunk_of data (unat i)"
proof -
  have "0 < length data" using assms(2) by (cases "length data") (simp_all add: chunk_total_def)
  then have lt: "unat i * CHUNK_SIZE < length data" using chunk_total_bounds assms(2) by blast
  then show l: "unat (chunk_len sz i) = min CHUNK_SIZE (length data - unat i * CHUNK_SIZE)"
    unfolding chunk_len_def chunk_off_def using unat_chunk_len [of i sz] assms(1) by simp
  show "0 < unat (chunk_len sz i)" using l lt by simp
  show "unat (chunk_off i) + unat (chunk_len sz i) \<le> length data" using l lt by (simp add: unat_chunk_off)
  show "region (unat (chunk_off i)) (unat (chunk_len sz i)) data = chunk_of data (unat i)"
    unfolding l unat_chunk_off by (simp add: chunk_of_def region_def min_def)
qed

lemma parse_req:
  "msg_ok msg \<Longrightarrow> m_type msg = CHUNK_REQ \<Longrightarrow>
    (\<exists>q. parse_chunk_req msg = Ok q \<and> asks msg (req_index q)) \<or> (\<exists>e. parse_chunk_req msg = Throw e)"
proof -
  assume "msg_ok msg" and ty: "m_type msg = CHUNK_REQ"
  then have len: "length (m_payload msg) < 2 ^ 63" using msg_ok_length [of msg] by simp
  show ?thesis
  proof (cases "parse_chunk_req msg")
    case (Ok q)
    then show ?thesis using parse_chunk_req_iff [OF len] ty by (auto simp: asks_def)
  qed (use parse_no_Undef [OF len] in auto)
qed

lemma parse_req_msg: "msg_ok msg \<Longrightarrow> asks msg i \<Longrightarrow> parse_chunk_req msg = Ok \<lparr>req_index = i\<rparr>"
  using parse_chunk_req_iff [of msg "\<lparr>req_index = i\<rparr>"] msg_ok_length [of msg] by (simp add: asks_def)

lemma asks_unique: "asks msg i \<Longrightarrow> asks msg j \<Longrightarrow> i = j"
  unfolding asks_def using u32_dec_enc by (metis append_eq_append_conv length_u32_enc)

section \<open>The request loop over any connection\<close>

definition request_cost :: nat where
  "request_cost = (HEADER_SIZE + 4) + (HEADER_SIZE + 4 + CHUNK_SIZE)"

lemma hdr_msg_len [simp]: "length (m_payload (hdr_msg i)) = 4" "m_type (hdr_msg i) = CHUNK_HDR"
  by (simp_all add: hdr_msg_def)

lemma frame_ok_prefix:
  "frame m1 @ s1 = frame m2 @ s2 \<Longrightarrow> msg_ok m1 \<Longrightarrow> msg_ok m2 \<Longrightarrow> m1 = m2 \<and> s1 = s2"
  using frame_prefix [of m1 s1 m2 s2] msg_ok_length by blast

context live_transport
begin

definition served :: "u8 list \<Rightarrow> u64 \<Rightarrow> u32 \<Rightarrow> 'e world_scheme \<Rightarrow> u32 list \<Rightarrow> 'e world_scheme \<Rightarrow> bool" where
  "served data sz cnt w idxs w' \<longleftrightarrow> tidy w w' \<and> files w' = files w \<and> tinv w' \<and>
     (\<exists>msgs. list_all2 asks msgs idxs \<and> (\<forall>m \<in> set msgs. msg_ok m) \<and> inbox w = concat (map frame msgs) @ inbox w') \<and>
     outbox w' = outbox w @ concat (map (answer data sz) idxs) \<and> (\<forall>i \<in> set idxs. i < cnt)"

lemma served_refl: "tinv w \<Longrightarrow> served data sz cnt w [] w"
  by (simp add: served_def)

lemma served_trans:
  assumes "served data sz cnt w is1 w1" and "served data sz cnt w1 is2 w2"
  shows "served data sz cnt w (is1 @ is2) w2"
proof -
  obtain m1 m2 where "list_all2 asks m1 is1" "inbox w = concat (map frame m1) @ inbox w1" "\<forall>m \<in> set m1. msg_ok m"
    "list_all2 asks m2 is2" "inbox w1 = concat (map frame m2) @ inbox w2" "\<forall>m \<in> set m2. msg_ok m"
    using assms by (auto simp: served_def)
  then have "\<exists>msgs. list_all2 asks msgs (is1 @ is2) \<and> (\<forall>m \<in> set msgs. msg_ok m) \<and>
      inbox w = concat (map frame msgs) @ inbox w2"
    by (intro exI [of _ "m1 @ m2"]) (auto intro: list_all2_appendI)
  then show ?thesis using assms by (auto simp: served_def intro: tidy_trans)
qed

lemma push_request_wp:
  assumes "tinv w" and fd: "fds w fd = Some f" "files w (of_path f) = Some data"
    and sz: "unat sz = length data" "unat cnt = chunk_total (length data)"
    and rd: "ready b w (request_cost + n)"
    and src: "b \<or> length data < 2 ^ 63 \<and> (\<exists>msg s. inbox w = frame msg @ s \<and> msg_ok msg \<and> length (m_payload msg) \<le> 4 \<and>
      (m_type msg = COMPLETE \<or> (\<exists>i < cnt. asks msg i)))"
    and stop: "\<And>w' msg. moved_in w (frame msg) w' \<Longrightarrow> msg_ok msg \<Longrightarrow> m_type msg = COMPLETE \<Longrightarrow>
      ready b w' n \<Longrightarrow> Q (Ok False) w'"
    and go: "\<And>w' i. served data sz cnt w [i] w' \<Longrightarrow> ready b w' n \<Longrightarrow> Q (Ok True) w'"
    and fail: "\<And>w' e. b \<Longrightarrow> broken w w' \<Longrightarrow> Q (Throw e) w'"
  shows "wp b (push_request t fd sz cnt) Q w"
proof -
  note [simp] = wp_simps
  show ?thesis unfolding push_request_def wp_bind
  proof (rule wp_recv_msg [OF assms(1), where k = 4 and n = "HEADER_SIZE + 4 + (CHUNK_SIZE + n)"], goal_cases)
    case 1
    show ?case by (rule ready_mono [OF rd]) (simp add: request_cost_def)
  next
    case 2
    then show ?case using src by blast
  next
    case (4 w' e)
    then show ?case using fail by simp
  next
    case (3 w1 msg)
    have t1: "tinv w1" "tidy w w1" "files w1 = files w" "fds w1 = fds w" "inbox w = frame msg @ inbox w1"
      "outbox w1 = outbox w"
      using 3(2) moved_in_tidy [OF 3(2)] by (simp_all add: moved_in_def same_os_def)
    have known: "b \<or> length data < 2 ^ 63 \<and> (m_type msg = COMPLETE \<or> (\<exists>i < cnt. asks msg i))"
      using src frame_ok_prefix [of msg "inbox w1"] 3(1) t1(5) by metis
    show ?case
    proof (cases "m_type msg = COMPLETE")
      case True
      then show ?thesis using stop [OF 3(2,1)] ready_mono [OF 3(3), of n] by simp
    next
      case nc: False
      show ?thesis
      proof (cases "m_type msg = CHUNK_REQ")
        case False
        then have b using known nc by (auto simp: asks_def)
        then show ?thesis using fail [OF _ , of w1] nc False t1 by (simp add: broken_def)
      next
        case rq: True
        show ?thesis
        proof (cases "\<exists>i < cnt. asks msg i")
          case False
          then have b using known nc by blast
          then have f1: "Q (Throw e) w1" for e using fail t1 by (simp add: broken_def)
          from parse_req [OF 3(1) rq] show ?thesis
          proof (elim disjE exE conjE)
            fix q assume "parse_chunk_req msg = Ok q" "asks msg (req_index q)"
            then show ?thesis using f1 nc rq False by (auto simp: not_less)
          next
            fix e assume "parse_chunk_req msg = Throw e"
            then show ?thesis using f1 nc rq by simp
          qed
        next
          case True
          then obtain i where i: "i < cnt" "asks msg i" by blast
          have ic: "unat i < chunk_total (length data)" using i(1) sz(2) by (simp add: word_less_nat_alt)
          note R = chunk_region [OF sz(1) ic]
          have "wp b (io_bind (send_msg t (hdr_msg i)) (\<lambda>_.
              io_bind (t_send_file t fd (unat (chunk_off i)) (unat (chunk_len sz i))) (\<lambda>_. io_ret True))) Q w1"
            unfolding wp_bind
          proof (rule wp_send_msg [OF t1(1), where n = "CHUNK_SIZE + n"], goal_cases)
            case 1 then show ?case by simp
          next
            case 2 then show ?case using 3(3) by simp
          next
            case (4 w' e)
            then show ?case using fail t1 by (auto simp: broken_def intro: tidy_trans)
          next
            case (3 w2)
            have t2: "tinv w2" "tidy w1 w2" "files w2 = files w1" "fds w2 = fds w1" "inbox w2 = inbox w1"
              "outbox w2 = outbox w1 @ frame (hdr_msg i)"
              using 3(1) moved_out_tidy [OF 3(1)] by (simp_all add: moved_out_def same_os_def)
            show ?case unfolding on_ok_simps wp_bind
            proof (rule wp_send_file [OF t2(1), where f = f and c = data and n = n], goal_cases)
              case 1 then show ?case using fd t1 t2 by simp
            next
              case 2 then show ?case using fd t1 t2 by simp
            next
              case 3
              have "b \<or> length data < 2 ^ 63" using known by blast
              then show ?case using R(3) by linarith
            next
              case 4
              show ?case by (rule ready_mono [OF \<open>ready b w2 _\<close>]) (simp add: unat_chunk_len_le)
            next
              case (6 w' e)
              then have "broken w w'" using t1 t2 by (auto simp: broken_def intro: tidy_trans)
              then show ?case using fail 6(1) by simp
            next
              case (5 w3)
              have t3: "tinv w3" "tidy w2 w3" "files w3 = files w2" "inbox w3 = inbox w2"
                "outbox w3 = outbox w2 @ region (unat (chunk_off i)) (unat (chunk_len sz i)) data"
                using 5(1) moved_out_tidy [OF 5(1)] by (simp_all add: moved_out_def same_os_def)
              have "served data sz cnt w [i] w3"
                unfolding served_def using t1 t2 t3 i \<open>msg_ok msg\<close>
                by (auto simp: answer_def intro: tidy_trans intro!: exI [of _ "[msg]"])
              then show ?case using go 5(3) by simp
            qed
          qed
          moreover have "\<not> cnt \<le> i" using i(1) by simp
          ultimately show ?thesis using parse_req_msg [OF 3(1) i(2)] nc rq by (simp add: hdr_msg_def)
        qed
      qed
    qed
  qed
qed

end

context live_transport
begin

text \<open>The loop ended: the requests \<open>idxs\<close> were served in order, then \<^verbatim>\<open>COMPLETE\<close> came.\<close>

definition served_all :: "u8 list \<Rightarrow> u64 \<Rightarrow> u32 \<Rightarrow> 'e world_scheme \<Rightarrow> u32 list \<Rightarrow> 'e world_scheme \<Rightarrow> bool" where
  "served_all data sz cnt w idxs w' \<longleftrightarrow>
     (\<exists>w1 msg. served data sz cnt w idxs w1 \<and> moved_in w1 (frame msg) w' \<and> msg_ok msg \<and> m_type msg = COMPLETE)"

lemma served_all_first:
  "served data sz cnt w is1 w1 \<Longrightarrow> served_all data sz cnt w1 is2 w2 \<Longrightarrow> served_all data sz cnt w (is1 @ is2) w2"
  unfolding served_all_def by (metis served_trans)

lemma push_loop_result:
  assumes run: "push_loop t fd sz cnt w = Some (r, w')" and "tinv w"
    and "fds w fd = Some f" and "files w (of_path f) = Some data"
    and sz: "unat sz = length data" "unat cnt = chunk_total (length data)"
  shows "r \<noteq> Undef \<and> tidy w w' \<and> files w' = files w \<and> (r = Ok () \<longrightarrow> (\<exists>idxs. served_all data sz cnt w idxs w'))"
proof -
  let ?P = "\<lambda>t' fd sz cnt w (r, w'). t' = t \<longrightarrow> tinv w \<longrightarrow> fds w fd = Some f \<longrightarrow> files w (of_path f) = Some data \<longrightarrow>
    unat sz = length data \<longrightarrow> unat cnt = chunk_total (length data) \<longrightarrow>
    r \<noteq> Undef \<and> tidy w w' \<and> files w' = files w \<and> (r = Ok () \<longrightarrow> (\<exists>idxs. served_all data sz cnt w idxs w'))"
  have "?P t fd sz cnt w (r, w')"
  proof (rule push_loop.raw_induct [where P = ?P, OF _ run])
    fix g t' fd sz cnt w y
    assume IH: "\<And>t' fd sz cnt w y. g t' fd sz cnt w = Some y \<Longrightarrow> ?P t' fd sz cnt w y"
      and eq: "Option.bind (push_request t' fd sz cnt w) (\<lambda>(r, w').
       case r of
         Ok go \<Rightarrow> if go then g t' fd sz cnt w' else Some (Ok (), w')
       | Throw e \<Rightarrow> Some (Throw e, w')
       | Undef \<Rightarrow> Some (Undef, w')) = Some y"
    obtain r w' where y: "y = (r, w')" by (cases y)
    show "?P t' fd sz cnt w y" unfolding y case_prod_conv
    proof (intro impI)
      assume t': "t' = t" and pre: "tinv w" "fds w fd = Some f" "files w (of_path f) = Some data"
        "unat sz = length data" "unat cnt = chunk_total (length data)"
      obtain q w1 where q: "push_request t fd sz cnt w = Some (q, w1)"
        using eq t' by (cases "push_request t' fd sz cnt w") auto
      let ?Q = "\<lambda>q w1. (q = Ok False \<longrightarrow> served_all data sz cnt w [] w1) \<and>
        (q = Ok True \<longrightarrow> (\<exists>i. served data sz cnt w [i] w1)) \<and> q \<noteq> Undef \<and> tidy w w1 \<and> files w1 = files w"
      have "wp True (push_request t fd sz cnt) ?Q w"
      proof (rule push_request_wp [OF pre, where n = 0], goal_cases)
        case (3 w' msg)
        then show ?case using served_refl [OF pre(1)] moved_in_tidy by (auto simp: served_all_def)
      next
        case (4 w' i)
        then show ?case by (auto simp: served_def)
      qed (auto simp: broken_def)
      from wpD [OF this q] have Q: "?Q q w1" .
      show "r \<noteq> Undef \<and> tidy w w' \<and> files w' = files w \<and> (r = Ok () \<longrightarrow> (\<exists>idxs. served_all data sz cnt w idxs w'))"
      proof (cases "q = Ok True")
        case True
        then obtain i where i: "served data sz cnt w [i] w1" using Q by blast
        then have "tinv w1" "fds w1 fd = Some f" "files w1 (of_path f) = Some data"
          using pre by (simp_all add: served_def tidy_def)
        moreover have "g t fd sz cnt w1 = Some (r, w')" using eq t' q y True by simp
        ultimately have "r \<noteq> Undef \<and> tidy w1 w' \<and> files w' = files w1 \<and>
            (r = Ok () \<longrightarrow> (\<exists>idxs. served_all data sz cnt w1 idxs w'))"
          using IH [of t fd sz cnt w1 "(r, w')"] pre by simp
        then show ?thesis using i Q served_all_first [OF i] by (auto intro: tidy_trans)
      next
        case False
        then show ?thesis using eq t' q y Q by (cases q) auto
      qed
    qed
  qed
  then show ?thesis using assms by simp
qed

lemma push_loop_live:
  assumes "tinv w" and "fds w fd = Some f" and "files w (of_path f) = Some data"
    and sz: "unat sz = length data" "unat cnt = chunk_total (length data)" "length data < 2 ^ 63"
    and "fair w" and "Suc (length idxs) * request_cost + n \<le> fuel w"
    and "\<forall>i \<in> set idxs. i < cnt"
    and "inbox w = concat (map (\<lambda>i. frame (req_msg i)) idxs) @ frame make_complete @ s"
  shows "\<exists>w'. push_loop t fd sz cnt w = Some (Ok (), w') \<and> ready False w' n \<and> inbox w' = s \<and>
    served_all data sz cnt w idxs w'"
  using assms
proof (induction idxs arbitrary: w)
  case Nil
  let ?Q = "\<lambda>q w1. q = Ok False \<and> served_all data sz cnt w [] w1 \<and> ready False w1 n \<and> inbox w1 = s"
  have ok: "msg_ok make_complete" by (simp add: msg_ok_def make_complete_def)
  have "wp False (push_request t fd sz cnt) ?Q w"
  proof (rule push_request_wp [OF Nil.prems(1-5), where n = n], goal_cases)
    case 1
    then show ?case using Nil.prems(7,8) by (simp add: ready_def)
  next
    case 2
    show ?case using Nil.prems(6,10) ok by (auto simp: make_complete_def intro!: exI [of _ make_complete])
  next
    case (3 w' msg)
    then have "frame msg @ inbox w' = frame make_complete @ s" using Nil.prems(10) by (simp add: moved_in_def)
    from frame_ok_prefix [OF this 3(2) ok] have "inbox w' = s" by (rule conjunct2)
    moreover have "served_all data sz cnt w [] w'"
      unfolding served_all_def using served_refl [OF Nil.prems(1)] 3(1-3) by blast
    ultimately show ?case using 3(4) by blast
  next
    case (4 w' i)
    then obtain msg where m: "asks msg i" "msg_ok msg" "inbox w = frame msg @ inbox w'"
      by (auto simp: served_def list_all2_Cons2)
    then have "frame msg @ inbox w' = frame make_complete @ s" using Nil.prems(10) by simp
    from frame_ok_prefix [OF this m(2) ok] have "msg = make_complete" by (rule conjunct1)
    then show ?case using m(1) by (simp add: asks_def make_complete_def)
  qed (simp add: broken_def)
  then obtain w1 where "push_request t fd sz cnt w = Some (Ok False, w1)" "?Q (Ok False) w1" unfolding wp_total by blast
  then show ?case by (simp add: push_loop.simps)
next
  case (Cons i idxs)
  let ?s = "concat (map (\<lambda>i. frame (req_msg i)) idxs) @ frame make_complete @ s"
  have ok: "msg_ok (req_msg i)" "asks (req_msg i) i" "i < cnt"
    using Cons.prems(9) by (simp_all add: msg_ok_def req_msg_def asks_def unat_MAX_PAYLOAD_SIZE)
  have inb: "inbox w = frame (req_msg i) @ ?s" using Cons.prems(10) by simp
  let ?Q = "\<lambda>q w1. q = Ok True \<and> served data sz cnt w [i] w1 \<and>
    ready False w1 (Suc (length idxs) * request_cost + n) \<and> inbox w1 = ?s"
  have "wp False (push_request t fd sz cnt) ?Q w"
  proof (rule push_request_wp [OF Cons.prems(1-5), where n = "Suc (length idxs) * request_cost + n"], goal_cases)
    case 1
    have "request_cost + (Suc (length idxs) * request_cost + n) = Suc (length (i # idxs)) * request_cost + n" by simp
    then show ?case using Cons.prems(7,8) by (simp add: ready_def del: length_Cons)
  next
    case 2
    show ?case using Cons.prems(6) ok inb by (auto simp: req_msg_def intro!: exI [of _ "req_msg i"])
  next
    case (3 w' msg)
    then have "frame msg @ inbox w' = frame (req_msg i) @ ?s" using inb by (simp only: moved_in_def)
    from frame_ok_prefix [OF this 3(2) ok(1)] have "msg = req_msg i" by (rule conjunct1)
    then show ?case using 3 by (simp add: req_msg_def)
  next
    case (4 w' j)
    then obtain msg where m: "asks msg j" "msg_ok msg" "inbox w = frame msg @ inbox w'"
      by (auto simp: served_def list_all2_Cons2)
    then have "frame msg @ inbox w' = frame (req_msg i) @ ?s" using inb by (simp only:)
    from frame_ok_prefix [OF this m(2) ok(1)] have "msg = req_msg i \<and> inbox w' = ?s" .
    moreover from this m(1) ok(2) have "j = i" using asks_unique by blast
    ultimately show ?case using 4 by simp
  qed (simp add: broken_def)
  then obtain w1 where w1: "push_request t fd sz cnt w = Some (Ok True, w1)" "?Q (Ok True) w1" unfolding wp_total by blast
  then have pre: "tinv w1" "fds w1 fd = Some f" "files w1 (of_path f) = Some data" "fair w1"
    "Suc (length idxs) * request_cost + n \<le> fuel w1"
    using Cons.prems(2,3) by (simp_all add: served_def tidy_def ready_def)
  obtain w2 where "push_loop t fd sz cnt w1 = Some (Ok (), w2)" "ready False w2 n" "inbox w2 = s"
    "served_all data sz cnt w1 idxs w2"
    using Cons.IH [OF pre(1-3) sz pre(4,5) _ _] Cons.prems(9) w1(2) by auto
  then show ?case using w1 served_all_first [of data sz cnt w "[i]" w1 idxs w2]
    by (intro exI [of _ w2]) (simp add: push_loop.simps [of t fd sz cnt w])
qed

end

section \<open>A whole push\<close>

definition meta_msg :: "file_meta \<Rightarrow> message" where
  "meta_msg meta = \<lparr>m_type = FILE_META, m_payload = filemeta_enc meta\<rparr>"

definition hs_msg :: "string \<Rightarrow> message" where
  "hs_msg tok = \<lparr>m_type = HANDSHAKE, m_payload = str_enc tok\<rparr>"

text \<open>All that a puller sends: its handshake, the requests, the end mark.\<close>

definition requests :: "u32 list \<Rightarrow> u8 list" where
  "requests idxs = concat (map (\<lambda>i. frame (req_msg i)) idxs) @ frame make_complete"

text \<open>All that a pusher sends: the metadata and the answers.\<close>

definition answers :: "u8 list \<Rightarrow> file_meta \<Rightarrow> u32 list \<Rightarrow> u8 list" where
  "answers data meta idxs = frame (meta_msg meta) @ concat (map (answer data (file_size meta)) idxs)"

definition describes :: "file_meta \<Rightarrow> u8 list \<Rightarrow> bool" where
  "describes meta data \<longleftrightarrow> filemeta_ok meta \<and> unat (file_size meta) = length data \<and>
     unat (chunk_count meta) = chunk_total (length data) \<and> length (filemeta_enc meta) < 2 ^ 32"

definition push_cost :: "file_meta \<Rightarrow> string \<Rightarrow> nat \<Rightarrow> nat" where
  "push_cost meta tok k = (HEADER_SIZE + (4 + length tok)) + (HEADER_SIZE + length (filemeta_enc meta)) +
     Suc k * request_cost"

context live_transport
begin

lemma push_loop_wp:
  assumes "tinv w" and fd: "fds w fd = Some f" "files w (of_path f) = Some data"
    and sz: "unat sz = length data" "unat cnt = chunk_total (length data)"
    and rd: "ready b w (Suc (length js) * request_cost + n)"
    and src: "b \<or> length data < 2 ^ 63 \<and> (\<forall>i \<in> set js. i < cnt) \<and> inbox w = requests js @ s"
    and ok: "\<And>w' idxs. served_all data sz cnt w idxs w' \<Longrightarrow> b \<or> idxs = js \<and> inbox w' = s \<Longrightarrow>
      ready b w' n \<Longrightarrow> Q (Ok ()) w'"
    and fail: "\<And>w' e. b \<Longrightarrow> broken w w' \<Longrightarrow> Q (Throw e) w'"
  shows "wp b (push_loop t fd sz cnt) Q w"
proof (cases b)
  case True
  have "Q r w'" if run: "push_loop t fd sz cnt w = Some (r, w')" for r w'
  proof (cases r)
    case (Ok u)
    then show ?thesis using push_loop_result [OF run assms(1) fd sz] ok True by auto
  qed (use push_loop_result [OF run assms(1) fd sz] fail True in \<open>auto simp: broken_def\<close>)
  then show ?thesis using True by (simp add: wpI)
next
  case False
  have "inbox w = concat (map (\<lambda>i. frame (req_msg i)) js) @ frame make_complete @ s"
    using src False by (simp add: requests_def)
  with push_loop_live [OF assms(1) fd sz _ _ _ _ this, of n] src rd False
  obtain w' where "push_loop t fd sz cnt w = Some (Ok (), w')" "ready False w' n" "inbox w' = s"
    "served_all data sz cnt w js w'" by (auto simp: ready_def)
  then show ?thesis using ok [of js w'] False by (simp add: wp_def)
qed

definition pushed :: "u8 list \<Rightarrow> file_meta \<Rightarrow> 'e world_scheme \<Rightarrow> u32 list \<Rightarrow> 'e world_scheme \<Rightarrow> bool" where
  "pushed data meta w idxs w' \<longleftrightarrow>
     (\<exists>w1 w2 hs p. moved_in w (frame hs) w1 \<and> msg_ok hs \<and> parse_handshake hs = Ok p \<and>
        moved_out w1 (frame (meta_msg meta)) w2 \<and>
        served_all data (file_size meta) (chunk_count meta) w2 idxs w')"

lemma pushed_tidy: "pushed data meta w idxs w' \<Longrightarrow> tidy w w' \<and> files w' = files w"
  unfolding pushed_def served_all_def
proof (elim exE conjE)
  fix w1 w2 w3 hs msg
  assume *: "moved_in w (frame hs) w1" "moved_out w1 (frame (meta_msg meta)) w2"
    "served data (file_size meta) (chunk_count meta) w2 idxs w3" "moved_in w3 (frame msg) w'"
  then have "files w' = files w" by (simp add: moved_in_def moved_out_def served_def same_os_def)
  moreover have "tidy w2 w3" using *(3) by (simp add: served_def)
  then have "tidy w w'" using moved_in_tidy [OF *(1)] moved_out_tidy [OF *(2)] moved_in_tidy [OF *(4)]
    by (meson tidy_trans)
  ultimately show "tidy w w' \<and> files w' = files w" by blast
qed

lemma pushed_outbox: "pushed data meta w idxs w' \<Longrightarrow> outbox w' = outbox w @ answers data meta idxs"
  by (auto simp: pushed_def served_all_def served_def moved_in_def moved_out_def answers_def)

lemma pushed_inbox:
  assumes "pushed data meta w idxs w'"
  shows "\<exists>hs msgs fin p. inbox w = concat (map frame (hs # msgs @ [fin])) @ inbox w' \<and>
    parse_handshake hs = Ok p \<and> list_all2 asks msgs idxs \<and> m_type fin = COMPLETE \<and>
    (\<forall>m \<in> set (hs # msgs @ [fin]). msg_ok m)"
proof -
  obtain w1 w2 hs p w3 msgs fin where *: "inbox w = frame hs @ inbox w1" "msg_ok hs" "parse_handshake hs = Ok p"
    "inbox w1 = inbox w2" "list_all2 asks msgs idxs" "\<forall>m \<in> set msgs. msg_ok m"
    "inbox w2 = concat (map frame msgs) @ inbox w3" "inbox w3 = frame fin @ inbox w'" "msg_ok fin" "m_type fin = COMPLETE"
    using assms unfolding pushed_def served_all_def served_def moved_in_def moved_out_def by metis
  show ?thesis by (rule exI [of _ hs], rule exI [of _ msgs], rule exI [of _ fin], rule exI [of _ p]) (use * in auto)
qed

lemma run_push_wp:
  assumes "tinv w" and fd: "holds fd f w0 w" "files w (of_path f) = Some data"
    and meta: "describes meta data"
    and rd: "ready b w (push_cost meta tok (length js) + n)"
    and src: "b \<or> length data < 2 ^ 63 \<and> str_ok tok \<and> length tok < 2 ^ 20 \<and>
      (\<forall>i \<in> set js. i < chunk_count meta) \<and> inbox w = frame (hs_msg tok) @ requests js @ s"
    and ok: "\<And>w' idxs. pushed data meta w idxs w' \<Longrightarrow> b \<or> idxs = js \<and> inbox w' = s \<Longrightarrow>
      ready b w' n \<Longrightarrow> Q (Ok ()) (sys_close fd w')"
    and fail: "\<And>w' e. b \<Longrightarrow> broken w w' \<Longrightarrow> Q (Throw e) (sys_close fd w')"
  shows "wp b (run_push t fd meta) Q w"
proof -
  note [simp] = wp_simps
  let ?n1 = "HEADER_SIZE + length (filemeta_enc meta) + (Suc (length js) * request_cost + n)"
  have h: "0 \<le> fd" "fds w fd = Some f" using holds_lookup [OF fd(1)] by auto
  have m: "filemeta_ok meta" "unat (file_size meta) = length data"
    "unat (chunk_count meta) = chunk_total (length data)" "length (filemeta_enc meta) < 2 ^ 32"
    using meta by (simp_all add: describes_def)
  let ?Q = "\<lambda>r w'. Q r (sys_close fd w')"
  have "wp b (io_bind (recv_msg t) (\<lambda>hs_msg.
          if m_type hs_msg \<noteq> HANDSHAKE then io_throw (Runtime_error ''run_push: expected HANDSHAKE'')
          else io_bind (io_lift (parse_handshake hs_msg)) (\<lambda>handshake.
            io_bind (io_lift (make_filemeta meta)) (\<lambda>m.
            io_bind (send_msg t m) (\<lambda>_.
              push_loop t fd (file_size meta) (chunk_count meta)))))) ?Q w" unfolding wp_bind
  proof (rule wp_recv_msg [OF assms(1), where k = "4 + length tok" and n = ?n1], goal_cases)
    case 1
    show ?case by (rule ready_mono [OF rd]) (simp add: push_cost_def)
  next
    case 2
    have "msg_ok (hs_msg tok)" if "length tok < 2 ^ 20"
      using that by (simp add: msg_ok_def hs_msg_def unat_MAX_PAYLOAD_SIZE)
    then show ?case using src by (auto simp: hs_msg_def)
  next
    case (4 w' e)
    then show ?case using fail by simp
  next
    case (3 w1 hs)
    have t1: "tinv w1" "tidy w w1" "files w1 = files w" "fds w1 = fds w"
      using 3(2) moved_in_tidy [OF 3(2)] by (simp_all add: moved_in_def same_os_def)
    have known: "b \<or> hs = hs_msg tok \<and> inbox w1 = requests js @ s \<and> length data < 2 ^ 63 \<and> str_ok tok"
    proof (cases b)
      case False
      then have "frame hs @ inbox w1 = frame (hs_msg tok) @ requests js @ s" and tok: "length tok < 2 ^ 20"
        using src 3(2) by (auto simp: moved_in_def)
      moreover have "msg_ok (hs_msg tok)"
        using tok by (simp add: msg_ok_def hs_msg_def unat_MAX_PAYLOAD_SIZE)
      ultimately have "hs = hs_msg tok \<and> inbox w1 = requests js @ s" by (intro frame_ok_prefix [OF _ 3(1)])
      then show ?thesis using src by blast
    qed simp
    show ?case unfolding on_ok_simps
    proof (cases "m_type hs = HANDSHAKE")
      case False
      then have b using known by (auto simp: hs_msg_def)
      then show "wp b (if m_type hs \<noteq> HANDSHAKE then io_throw (Runtime_error ''run_push: expected HANDSHAKE'')
          else io_bind (io_lift (parse_handshake hs)) (\<lambda>handshake.
            io_bind (io_lift (make_filemeta meta)) (\<lambda>m.
            io_bind (send_msg t m) (\<lambda>_.
              push_loop t fd (file_size meta) (chunk_count meta))))) ?Q w1"
        using False fail t1 by (simp add: broken_def)
    next
      case True
      show "wp b (if m_type hs \<noteq> HANDSHAKE then io_throw (Runtime_error ''run_push: expected HANDSHAKE'')
          else io_bind (io_lift (parse_handshake hs)) (\<lambda>handshake.
            io_bind (io_lift (make_filemeta meta)) (\<lambda>m.
            io_bind (send_msg t m) (\<lambda>_.
              push_loop t fd (file_size meta) (chunk_count meta))))) ?Q w1"
      proof (cases "parse_handshake hs")
        case Undef
        then show ?thesis using parse_no_Undef(2) [of hs] msg_ok_length [OF 3(1)] by simp
      next
        case (Throw e)
        have "b"
        proof (rule ccontr)
          assume "\<not> b"
          then have "parse_handshake hs = Ok \<lparr>token = tok\<rparr>"
            using known parse_handshake_iff [of hs "\<lparr>token = tok\<rparr>"] msg_ok_length [OF 3(1)]
            by (simp add: hs_msg_def)
          then show False using Throw by simp
        qed
        then show ?thesis using True Throw fail t1 by (simp add: broken_def)
      next
        case p: (Ok p)
        have "wp b (io_bind (send_msg t (meta_msg meta)) (\<lambda>_. push_loop t fd (file_size meta) (chunk_count meta))) ?Q w1"
          unfolding wp_bind
        proof (rule wp_send_msg [OF t1(1), where n = "Suc (length js) * request_cost + n"], goal_cases)
          case 1
          then show ?case using m(4) by (simp add: meta_msg_def)
        next
          case 2
          then show ?case using 3(3) by (simp add: meta_msg_def)
        next
          case (4 w' e)
          then show ?case using fail t1 by (auto simp: broken_def intro: tidy_trans)
        next
          case (3 w2)
          have t2: "tinv w2" "tidy w1 w2" "files w2 = files w1" "fds w2 = fds w1" "inbox w2 = inbox w1"
            using 3(1) moved_out_tidy [OF 3(1)] by (simp_all add: moved_out_def same_os_def)
          show ?case unfolding on_ok_simps
          proof (rule push_loop_wp [OF t2(1) _ _ m(2,3) 3(2), where s = s and f = f], goal_cases)
            case 1 then show ?case using h t1 t2 by simp
          next
            case 2 then show ?case using fd t1 t2 by simp
          next
            case 3 then show ?case using known src t2 by auto
          next
            case (4 w3 idxs)
            then have "pushed data meta w idxs w3"
              using \<open>moved_in w (frame hs) w1\<close> \<open>msg_ok hs\<close> p \<open>moved_out w1 _ w2\<close> by (auto simp: pushed_def)
            then show ?case using ok 4 by simp
          next
            case (5 w3 e)
            then have "broken w w3" using t1 t2 by (simp add: broken_def) (meson tidy_trans)
            then show ?case using fail 5(1) by simp
          qed
        qed
        then show ?thesis using True p make_filemeta_Ok [OF m(1)] by (simp add: meta_msg_def)
      qed
    qed
  qed
  then show ?thesis unfolding run_push_def with_fd_def using h(1) by (simp only: wp_finally if_True)
qed

end

section \<open>The metadata a pusher offers\<close>

definition mtime_of :: "u64 \<times> u64 \<Rightarrow> u64" where
  "mtime_of t = fst t * 1000000000 + snd t"

definition precompute_cost :: "u32 \<Rightarrow> nat" where
  "precompute_cost cnt = 3 + cache_load_cost cnt + 2 + cache_save_cost cnt"

definition meta_post ::
  "bool \<Rightarrow> evp \<Rightarrow> string \<Rightarrow> u8 list \<Rightarrow> u64 \<Rightarrow> nat \<Rightarrow> 'e world_scheme \<Rightarrow> file_meta res \<Rightarrow> 'e world_scheme \<Rightarrow> bool" where
  "meta_post b E p data mt m w r w' \<longleftrightarrow> tidy w w' \<and> world.more w' = world.more w \<and>
     (\<forall>q. q \<noteq> sibling ''.embr.hash'' p \<longrightarrow> files w' q = files w q) \<and>
     (case r of
        Ok meta \<Rightarrow> ready b w' m \<and> (\<exists>hs. meta = meta_of p (word_of_nat (length data)) hs \<and>
          length hs = chunk_total (length data) \<and> (\<forall>h \<in> set hs. length h = HASH_SIZE) \<and>
          (hashed E data hs \<or>
           cached w p (word_of_nat (length data)) mt (chunk_count_of (word_of_nat (length data))) = Some hs))
      | Throw e \<Rightarrow> b \<and> (\<exists>s. e = Runtime_error s)
      | Undef \<Rightarrow> False)"

lemma unat_length_word: "length data < 2 ^ 50 \<Longrightarrow> unat (word_of_nat (length data) :: u64) = length data"
  by (simp add: unat_of_nat)

lemma unat_chunk_count_of:
  assumes "length data < 2 ^ 50"
  shows "unat (chunk_count_of (word_of_nat (length data))) = chunk_total (length data)"
    and "chunk_total (length data) \<le> 2 ^ 30"
proof -
  let ?n = "length data"
  have le: "chunk_total ?n \<le> 2 ^ 30"
    using assms by (simp add: chunk_total_def CHUNK_SIZE_def)
  have "(word_of_nat ?n :: u64) + word_of_nat CHUNK_SIZE - 1 = word_of_nat (?n + CHUNK_SIZE - 1)"
    by (subst of_nat_diff) (use CHUNK_SIZE_pos in \<open>simp_all only: of_nat_add of_nat_1 trans_le_add2 Suc_leI One_nat_def [symmetric]\<close>)
  moreover have "unat (word_of_nat (?n + CHUNK_SIZE - 1) :: u64) = ?n + CHUNK_SIZE - 1"
    using assms by (simp add: unat_of_nat CHUNK_SIZE_def del: of_nat_add of_nat_diff)
  ultimately have "unat ((word_of_nat ?n + word_of_nat CHUNK_SIZE - 1 :: u64) div word_of_nat CHUNK_SIZE) = chunk_total ?n"
    by (simp only: unat_div unat_chunk_size chunk_total_def)
  then show "unat (chunk_count_of (word_of_nat ?n)) = chunk_total ?n"
    using le by (simp add: chunk_count_of_def unsigned_ucast_eq take_bit_eq_mod)
  show "chunk_total ?n \<le> 2 ^ 30" by (rule le)
qed

lemma cached_shape:
  "cached w p sz mt cnt = Some hs \<Longrightarrow> length hs = unat cnt \<and> (\<forall>h \<in> set hs. length h = HASH_SIZE)"
proof -
  assume "cached w p sz mt cnt = Some hs"
  then obtain c where "24 + unat cnt * HASH_SIZE \<le> length c"
    "hs = map (\<lambda>i. region (24 + i * HASH_SIZE) HASH_SIZE c) [0..<unat cnt]"
    by (auto simp: cached_def cache_answer_def split: option.splits if_splits)
  moreover have "24 + i * HASH_SIZE + HASH_SIZE \<le> length c" if "i < unat cnt" for i
  proof -
    have "Suc i * HASH_SIZE \<le> unat cnt * HASH_SIZE" using that by (intro mult_le_mono1) simp
    then show ?thesis using calculation(1) by simp
  qed
  ultimately show ?thesis by auto
qed

lemma sha256_buf_length: "evp_sha256 E \<Longrightarrow> sha256_buf E d = Ok h \<Longrightarrow> length h = HASH_SIZE"
  by (simp add: evp_sha256_def sha256_buf_def split: if_splits option.splits)

lemma hashed_shape:
  assumes "evp_sha256 E" and "hashed E data hs"
  shows "\<forall>h \<in> set hs. length h = HASH_SIZE"
proof
  fix h assume "h \<in> set hs"
  then obtain i where "i < length hs" "h = hs ! i" by (auto simp: in_set_conv_nth)
  then have "sha256_buf E (chunk_of data i) = Ok h" using assms(2) by (simp add: hashed_def)
  then show "length h = HASH_SIZE" by (rule sha256_buf_length [OF assms(1)])
qed

lemma meta_of_describes:
  assumes "length data < 2 ^ 50" and "length hs = chunk_total (length data)" and "\<forall>h \<in> set hs. length h = HASH_SIZE"
    and "length data \<le> 2 ^ 46" and "length p < 2 ^ 30"
  shows "describes (meta_of p (word_of_nat (length data)) hs) data"
proof -
  have "length (path_filename p) \<le> length p" by (simp add: path_filename_def split: option.splits)
  then have n: "length (path_filename p) < 2 ^ 30" using assms(5) by simp
  have ok: "filemeta_ok (meta_of p (word_of_nat (length data)) hs)"
    using assms(2,3) n unat_chunk_count_of [OF assms(1)]
    by (auto simp: filemeta_ok_def meta_of_def str_ok_def hash_ok_def)
  have "chunk_total (length data) \<le> 2 ^ 26" using assms(4) by (simp add: chunk_total_def CHUNK_SIZE_def)
  then have "length (filemeta_enc (meta_of p (word_of_nat (length data)) hs)) < 2 ^ 32"
    unfolding length_filemeta_enc [OF ok] using n unat_chunk_count_of [OF assms(1)]
    by (simp add: meta_of_def FILE_SIZE_BYTES_def LEN_PREFIX_BYTES_def HASH_SIZE_def)
  then show ?thesis using ok unat_chunk_count_of [OF assms(1)] unat_length_word [OF assms(1)]
    by (simp add: describes_def meta_of_def)
qed

text \<open>The three parts, for a file \<open>p\<close> whose contents are \<open>data\<close>.\<close>

lemma hash_bound:
  assumes "length data < 2 ^ 50" and "sz = word_of_nat (length data)"
  shows "unat (chunk_count_of sz) + num_workers (chunk_count_of sz) hw < 2 ^ 32"
proof -
  have "num_workers (chunk_count_of sz) hw \<le> unat (chunk_count_of sz)"
    by (simp add: num_workers_def min_def word_le_nat_alt)
  then show ?thesis using unat_chunk_count_of [OF assms(1)] assms(2) by simp
qed

lemma precompute_miss_wp:
  assumes wf: "wf_fds w" and t: "tidy w w2" "files w2 = files w" "world.more w2 = world.more w"
    and p: "p \<noteq> []" and data: "files w p = Some data" "data \<noteq> []" "length data < 2 ^ 50"
    and sz: "sz = word_of_nat (length data)" and E: "evp_sha256 E"
    and sched: "b \<or> enough_rounds (chunk_count_of sz) (num_workers (chunk_count_of sz) hw) sched"
    and sha: "b \<or> (\<forall>d. \<exists>h. sha256_buf E d = Ok h)"
    and rd: "ready b w2 (Suc (Suc (cache_save_cost (chunk_count_of sz) + m)))"
  shows "wp b (precompute_miss E hw sched p sz mt (chunk_count_of sz)) (meta_post b E p data mt m w) w2"
proof -
  note [simp] = wp_simps
  let ?cnt = "chunk_count_of sz" and ?Q = "meta_post b E p data mt m w"
  note cnt = unat_chunk_count_of [OF data(3), folded sz]
  have szl: "length data = unat sz" using unat_length_word [OF data(3)] sz by simp
  show ?thesis unfolding precompute_miss_def wp_bind
  proof (rule wp_open [OF wf_fds_tidy [OF wf t(1)] rd], goal_cases)
    case (1 w3)
    have b: b using 1 data(1) t(2) by simp
    have "tidy w w3" using t(1) 1(2) by (rule tidy_trans)
    then show ?case using b 1 t by (simp add: meta_post_def SocketFd_def)
  next
    case (2 w3 fd)
    have h: "holds fd \<lparr>of_path = p, of_pos = 0\<rparr> w w3" using tidy_holds [OF t(1) 2(2)] .
    have f3: "files w3 = files w" using 2(3) data(1) t(2) by (auto simp: contents_def)
    have m3: "world.more w3 = world.more w" using 2(4) t(3) by simp
    have quit: "?Q (Throw (Runtime_error s)) (sys_close fd w')"
      if "b" "tidy w3 w'" "\<forall>q. q \<noteq> sibling ''.embr.hash'' p \<longrightarrow> files w' q = files w q"
        "world.more w' = world.more w" for s w'
      using that holds_close [OF holds_tidy [OF h that(2)]] by (simp add: meta_post_def)
    have "wp b (io_bind (hash_compute_parallel E hw sched fd sz ?cnt) (\<lambda>hs.
        io_bind (hash_cache_save p sz mt (word_of_nat CHUNK_SIZE) ?cnt hs)
          (\<lambda>_. io_ret (meta_of p sz hs)))) (\<lambda>r w'. ?Q r (sys_close fd w')) w3" unfolding wp_bind
    proof (rule parallel_wp [where f = "\<lparr>of_path = p, of_pos = 0\<rparr>" and data = data and n = "cache_save_cost ?cnt + m",
           OF _ _ szl _ cnt(1) hash_bound [OF data(3) sz] sched sha 2(5)], goal_cases)
      case 1 then show ?case using holds_lookup [OF h] by simp
    next
      case 2 then show ?case using f3 data(1) by simp
    next
      case 3 then show ?case using data(2) by simp
    next
      case (4 w' s)
      have "files w' = files w" using 4(2) f3 by (simp add: same_os_def)
      then show ?case using quit [OF 4(1) tidy_same_os [OF 4(2,3)]] 4(4) m3 by simp
    next
      case (5 w4 hs)
      have t4: "tidy w3 w4" "files w4 = files w" "world.more w4 = world.more w"
        using 5(1-3) f3 m3 by (simp_all add: tidy_same_os) (simp add: same_os_def)
      have hs: "length hs = unat ?cnt" "\<forall>h \<in> set hs. length h = HASH_SIZE"
        using 5(5) cnt(1) hashed_shape [OF E] by (simp_all add: hashed_def)
      have wf4: "wf_fds w4" by (rule wf_fds_tidy [OF holds_wf [OF wf h] t4(1)])
      show ?case unfolding on_ok_simps wp_bind
      proof (rule wp_mono [OF cache_save_wp [OF wf4 p hs(2,1) 5(4)]], goal_cases)
        case (1 r w5)
        then have t5: "tidy w4 w5" "world.more w5 = world.more w4"
          "\<forall>q. q \<noteq> sibling ''.embr.hash'' p \<longrightarrow> files w5 q = files w4 q" by (simp_all add: cache_save_post_def)
        have t35: "tidy w3 w5" using t4(1) t5(1) by (rule tidy_trans)
        show ?case using 1 t5 t4 hs 5(5) cnt(1) holds_close [OF holds_tidy [OF h t35]] quit [OF _ t35]
          by (cases r) (auto simp: meta_post_def cache_save_post_def sz)
      qed
    qed
    moreover have "0 \<le> fd" using holds_lookup [OF h] by simp
    ultimately show ?case by (simp add: SocketFd_def with_fd_def)
  qed
qed

lemma precompute_hashes_wp:
  assumes wf: "wf_fds w" and t: "tidy w w1" "files w1 = files w" "world.more w1 = world.more w"
    and p: "p \<noteq> []" and data: "files w p = Some data" "data \<noteq> []" "length data < 2 ^ 50"
    and sz: "sz = word_of_nat (length data)" and E: "evp_sha256 E"
    and sched: "b \<or> enough_rounds (chunk_count_of sz) (num_workers (chunk_count_of sz) hw) sched"
    and sha: "b \<or> (\<forall>d. \<exists>h. sha256_buf E d = Ok h)"
    and rd: "ready b w1 (cache_load_cost (chunk_count_of sz) + (2 + cache_save_cost (chunk_count_of sz) + m))"
  shows "wp b (precompute_hashes E hw sched p sz mt (chunk_count_of sz)) (meta_post b E p data mt m w) w1"
proof -
  let ?cnt = "chunk_count_of sz" and ?Q = "meta_post b E p data mt m w"
  note cnt = unat_chunk_count_of [OF data(3), folded sz]
  have c1: "cached w1 p sz mt ?cnt = cached w p sz mt ?cnt" using t(2) by (simp add: cached_def)
  show ?thesis unfolding precompute_hashes_def wp_bind
  proof (rule wp_mono [OF cache_load_wp [OF wf_fds_tidy [OF wf t(1)] p rd]], goal_cases)
    case (1 r w2)
    then obtain hit where r: "r = Ok hit" and hit: "hit = None \<or> hit = cached w p sz mt ?cnt"
      and t2: "tidy w1 w2" "files w2 = files w1" "world.more w2 = world.more w1"
      and rd2: "ready b w2 (Suc (Suc (cache_save_cost ?cnt + m)))"
      by (auto simp: cache_load_post_def c1)
    have tw: "tidy w w2" "files w2 = files w" "world.more w2 = world.more w" using t t2 by (auto intro: tidy_trans)
    show ?case
    proof (cases hit)
      case (Some hs)
      then have "cached w p sz mt ?cnt = Some hs" using hit by simp
      moreover from this have "length hs = chunk_total (length data)" "\<forall>h \<in> set hs. length h = HASH_SIZE"
        using cached_shape cnt(1) by force+
      moreover have "ready b w2 m" by (rule ready_mono [OF rd2]) simp
      ultimately show ?thesis using Some r tw by (auto simp: meta_post_def sz wp_simps)
    next
      case None
      then show ?thesis using r precompute_miss_wp [OF wf tw p data sz E sched sha rd2] by simp
    qed
  qed
qed

lemma precompute_meta_wp:
  assumes wf: "wf_fds w" and p: "p \<noteq> []" and data: "files w p = Some data" "data \<noteq> []" "length data < 2 ^ 50"
    and E: "evp_sha256 E" and sz: "sz = word_of_nat (length data)"
    and sched: "b \<or> enough_rounds (chunk_count_of sz) (num_workers (chunk_count_of sz) hw) sched"
    and sha: "b \<or> (\<forall>d. \<exists>h. sha256_buf E d = Ok h)"
    and rd: "ready b w (precompute_cost (chunk_count_of sz) + m)"
  shows "wp b (precompute_meta E hw sched mtim p) (meta_post b E p data (mtime_of (mtim p)) m w) w"
proof -
  note [simp] = wp_simps
  let ?Q = "meta_post b E p data (mtime_of (mtim p)) m w"
  define K where "K = cache_load_cost (chunk_count_of sz) + (2 + cache_save_cost (chunk_count_of sz) + m)"
  have rd': "ready b w (Suc (Suc (Suc K)))"
    by (rule ready_mono [OF rd]) (simp add: precompute_cost_def K_def)
  have sz0: "sz \<noteq> 0" using unat_length_word [OF data(3)] data(2) sz by auto
  have quit: "?Q (Throw (Runtime_error s)) w'" if "b" "same_os w w'" "later w w'" "world.more w' = world.more w" for s w'
    using that by (simp add: meta_post_def tidy_same_os) (simp add: same_os_def)
  show ?thesis unfolding precompute_meta_def wp_bind
  proof (rule wp_stat_size [OF rd'], goal_cases)
    case (1 w')
    then show ?case using quit data(1) by auto
  next
    case (2 w1 c)
    have t1: "files w1 = files w" using 2(2) by (simp add: same_os_def)
    show ?case unfolding on_ok_simps
    proof (simp only: option.distinct if_False wp_bind, rule wp_stat_size [OF 2(5)], goal_cases)
      case (1 w')
      then have "b" using t1 data(1) by simp
      moreover have "same_os w w'" "later w w'" "world.more w' = world.more w"
        using 1 2 by (auto intro: same_os_trans later_trans)
      ultimately show ?case using quit by simp
    next
      case (2 w2 c2)
      have c2: "c2 = data" using 2(1) t1 data(1) by simp
      have t2: "same_os w w2" "later w w2" "world.more w2 = world.more w" "files w2 = files w"
        using 2 \<open>same_os w w1\<close> \<open>later w w1\<close> \<open>world.more w1 = _\<close> t1
        by (auto intro: same_os_trans later_trans) (simp add: same_os_def)
      have "wp b (io_bind (sys (sys_stat_size p)) (\<lambda>st.
          if st = None then io_throw (Runtime_error ''precompute_meta: stat failed: '')
          else precompute_hashes E hw sched p sz (mtime_of (mtim p)) (chunk_count_of sz))) ?Q w2" unfolding wp_bind
      proof (rule wp_stat_size [OF 2(5)], goal_cases)
        case (1 w')
        have "same_os w w'" "later w w'" "world.more w' = world.more w"
          using 1 t2 by (auto intro: same_os_trans later_trans)
        then show ?case using quit 1(1) t2 data(1) by simp
      next
        case (2 w3 c3)
        have t3: "same_os w w3" "later w w3" "world.more w3 = world.more w"
          using 2 t2 by (auto intro: same_os_trans later_trans)
        moreover have "files w3 = files w" using t3(1) by (simp add: same_os_def)
        ultimately show ?case
          using precompute_hashes_wp [OF wf tidy_same_os _ _ p data sz E sched sha 2(5) [unfolded K_def]]
          by (simp only: on_ok_simps option.distinct if_False)
      qed
      then show ?case using sz0 unfolding on_ok_simps
        by (simp only: option.case Let_def c2 sz [symmetric] mtime_of_def if_False)
    qed
  qed
qed

section \<open>Properties\<close>

text \<open>C26: The metadata a pusher offers are right: name, size, chunk size and count are those of
  the file, and the hashes are those of its chunks in order, however the hashing threads are
  scheduled, provided that a cache file recorded for this size and time tells the truth.
  Only the cache file changes, no descriptor leaks, and failures are \<^verbatim>\<open>runtime_error\<close>s. In
  a fair environment the metadata are returned.\<close>

theorem precompute_meta_correct:
  assumes "wf_fds w" and "p \<noteq> []" and "files w p = Some data" and "data \<noteq> []" and "length data < 2 ^ 50"
    and "evp_sha256 E" and sz: "sz = word_of_nat (length data)"
    and "b \<or> enough_rounds (chunk_count_of sz) (num_workers (chunk_count_of sz) hw) sched"
    and "b \<or> (\<forall>d. \<exists>h. sha256_buf E d = Ok h)"
    and "ready b w (precompute_cost (chunk_count_of sz))"
    and cache: "\<forall>hs. cached w p sz (mtime_of (mtim p)) (chunk_count_of sz) = Some hs \<longrightarrow> hashed E data hs"
  shows "wp b (precompute_meta E hw sched mtim p) (\<lambda>r w'.
    tidy w w' \<and> (\<forall>q. q \<noteq> sibling ''.embr.hash'' p \<longrightarrow> files w' q = files w q) \<and>
    ((\<exists>meta. r = Ok meta \<and> file_name meta = path_filename p \<and> unat (file_size meta) = length data \<and>
        chunk_size meta = 1048576 \<and> unat (chunk_count meta) = (length data + 1048575) div 1048576 \<and>
        length (chunk_hashes meta) = unat (chunk_count meta) \<and>
        (\<forall>i < unat (chunk_count meta). sha256_buf E (region (i * 1048576) 1048576 data) = Ok (chunk_hashes meta ! i)))
     \<or> b \<and> (\<exists>s. r = Throw (Runtime_error s)))) w"
proof (rule wp_mono)
  show "wp b (precompute_meta E hw sched mtim p) (meta_post b E p data (mtime_of (mtim p)) 0 w) w"
    by (rule precompute_meta_wp [OF assms(1-7)]) (use assms(8-10) in simp_all)
next
  fix r w' assume post: "meta_post b E p data (mtime_of (mtim p)) 0 w r w'"
  show "tidy w w' \<and> (\<forall>q. q \<noteq> sibling ''.embr.hash'' p \<longrightarrow> files w' q = files w q) \<and>
    ((\<exists>meta. r = Ok meta \<and> file_name meta = path_filename p \<and> unat (file_size meta) = length data \<and>
        chunk_size meta = 1048576 \<and> unat (chunk_count meta) = (length data + 1048575) div 1048576 \<and>
        length (chunk_hashes meta) = unat (chunk_count meta) \<and>
        (\<forall>i < unat (chunk_count meta). sha256_buf E (region (i * 1048576) 1048576 data) = Ok (chunk_hashes meta ! i)))
     \<or> b \<and> (\<exists>s. r = Throw (Runtime_error s)))"
  proof (cases r)
    case (Ok meta)
    then obtain hs where "meta = meta_of p sz hs" "hashed E data hs"
      using post sz cache by (auto simp: meta_post_def)
    then show ?thesis using post Ok unat_length_word [OF assms(5)] unat_chunk_count_of(1) [OF assms(5)] sz
      by (auto simp: meta_post_def meta_of_def hashed_def chunk_total_def chunk_of_def CHUNK_SIZE_def)
  qed (use post in \<open>auto simp: meta_post_def\<close>)
qed

section \<open>Witnesses\<close>

lemma precompute_meta_correct_witness:
  "\<exists>meta w'. precompute_meta toy_evp 1 [0, 0, 0] (\<lambda>_. (5, 6)) ''d/f'' (sample_world [''d/f'' \<mapsto> [1, 2, 3]]) = Some (Ok meta, w') \<and>
     file_name meta = ''f'' \<and> file_size meta = 3 \<and> unat (chunk_count meta) = 1"
proof -
  let ?w = "sample_world [''d/f'' \<mapsto> [1, 2, 3]]"
  have cnt: "chunk_count_of 3 = 1" by (simp add: chunk_count_of_def CHUNK_SIZE_def)
  have "sibling ''.embr.hash'' ''d/f'' \<noteq> ''d/f''" by (rule sibling_other)
  then have none: "cached ?w ''d/f'' x y z = None" for x y z by (simp add: cached_def)
  have "wp False (precompute_meta toy_evp 1 [0, 0, 0] (\<lambda>_. (5, 6)) ''d/f'') (\<lambda>r w'.
    tidy ?w w' \<and> (\<forall>q. q \<noteq> sibling ''.embr.hash'' ''d/f'' \<longrightarrow> files w' q = files ?w q) \<and>
    ((\<exists>meta. r = Ok meta \<and> file_name meta = path_filename ''d/f'' \<and> unat (file_size meta) = length [1, 2, 3 :: u8] \<and>
        chunk_size meta = 1048576 \<and> unat (chunk_count meta) = (length [1, 2, 3 :: u8] + 1048575) div 1048576 \<and>
        length (chunk_hashes meta) = unat (chunk_count meta) \<and>
        (\<forall>i < unat (chunk_count meta). sha256_buf toy_evp (region (i * 1048576) 1048576 [1, 2, 3]) = Ok (chunk_hashes meta ! i)))
     \<or> False \<and> (\<exists>s. r = Throw (Runtime_error s)))) ?w"
    by (rule precompute_meta_correct [where sz = 3])
      (use cnt none toy_evp one_chunk in \<open>simp_all add: sample_ready precompute_cost_def cache_load_cost_def
        cache_save_cost_def HASH_SIZE_def\<close>)
  then obtain meta w' where "precompute_meta toy_evp 1 [0, 0, 0] (\<lambda>_. (5, 6)) ''d/f'' ?w = Some (Ok meta, w')"
    "file_name meta = path_filename ''d/f''" "unat (file_size meta) = 3" "unat (chunk_count meta) = 1"
    by (auto simp: wp_total)
  moreover from this(3) have "file_size meta = 3" by (simp add: word_unat_eq_iff)
  ultimately show ?thesis by (auto simp: path_filename_def)
qed

end
