(* ===== verification/Chunk_Manager.thy ===== *)
theory Chunk_Manager
  imports Embr_Prelude
begin

text \<open>
  The per-chunk completion state of \<^verbatim>\<open>core/chunk_manager.cpp\<close>: a bitmap, one flag per
  chunk. The locale \<open>chunk_tracker\<close> is its contract with the puller (and with the
  \<^verbatim>\<open>.embr.partial\<close> file): operations on a finite set of finished chunks. The
  interpretation \<open>cm\<close> shows that the bitmap implements it; the \<open>*_refine\<close> facts
  relate each operation to the set it stands for.
\<close>

section \<open>The class\<close>

record chunk_manager =
  bitmap :: "bool list"

definition ChunkManager :: "u32 \<Rightarrow> chunk_manager" where
  "ChunkManager chunk_count = \<lparr>bitmap = replicate (unat chunk_count) False\<rparr>"

definition mark_done :: "chunk_manager \<Rightarrow> u32 \<Rightarrow> chunk_manager res" where
  "mark_done cm chunk_index =
     (if unat chunk_index \<ge> length (bitmap cm)
      then Throw (Out_of_range ''ChunkManager::mark_done: Chunk index out of range'')
      else Ok (cm\<lparr>bitmap := (bitmap cm)[unat chunk_index := True]\<rparr>))"

definition mark_todo :: "chunk_manager \<Rightarrow> u32 \<Rightarrow> chunk_manager res" where
  "mark_todo cm chunk_index =
     (if unat chunk_index \<ge> length (bitmap cm)
      then Throw (Out_of_range ''ChunkManager::mark_todo: Chunk index out of range'')
      else Ok (cm\<lparr>bitmap := (bitmap cm)[unat chunk_index := False]\<rparr>))"

definition needs_chunk :: "chunk_manager \<Rightarrow> u32 \<Rightarrow> bool res" where
  "needs_chunk cm chunk_index =
     (if unat chunk_index \<ge> length (bitmap cm)
      then Throw (Out_of_range ''ChunkManager::needs_chunk: Chunk index out of range'')
      else Ok (bitmap cm ! unat chunk_index = False))"

text \<open>The loop of \<^verbatim>\<open>needed_chunks\<close> from index \<open>i\<close> on, its counter a \<^verbatim>\<open>uint32_t\<close>.\<close>

function needed_from :: "bool list \<Rightarrow> u32 \<Rightarrow> u32 list" where
  "needed_from bm i =
     (if i < word_of_nat (length bm)
      then (if \<not> bm ! unat i then i # needed_from bm (i + 1) else needed_from bm (i + 1))
      else [])"
  by auto

termination
proof (relation "measure (\<lambda>(bm, i). unat (word_of_nat (length bm) :: u32) - unat i)", goal_cases)
  case 1
  then show ?case by simp
qed (auto simp: unat_suc_less word_less_nat_alt)

definition needed_chunks :: "chunk_manager \<Rightarrow> u32 list" where
  "needed_chunks cm = needed_from (bitmap cm) 0"

primrec all_set :: "bool list \<Rightarrow> bool" where
  "all_set [] = True"
| "all_set (is_done # bs) = (if \<not> is_done then False else all_set bs)"

definition all_done :: "chunk_manager \<Rightarrow> bool" where
  "all_done cm = all_set (bitmap cm)"

definition cm_chunk_count :: "chunk_manager \<Rightarrow> u32" where
  "cm_chunk_count cm = word_of_nat (length (bitmap cm))"

declare needed_from.simps [simp del]

lemmas cm_defs = mark_done_def mark_todo_def needs_chunk_def cm_chunk_count_def

section \<open>The set a bitmap stands for\<close>

definition cm_ok :: "chunk_manager \<Rightarrow> bool" where
  "cm_ok cm \<longleftrightarrow> length (bitmap cm) < 2 ^ 32"

definition done_set :: "chunk_manager \<Rightarrow> nat set" where
  "done_set cm = {i. i < length (bitmap cm) \<and> bitmap cm ! i}"

lemma cm_ok_count: "cm_ok cm \<Longrightarrow> unat (cm_chunk_count cm) = length (bitmap cm)"
  by (simp add: cm_ok_def cm_chunk_count_def unat_of_nat)

lemma cm_ok_fresh [simp]: "cm_ok (ChunkManager n)"
  using unsigned_less [of n, where ?'a = nat] by (simp add: cm_ok_def ChunkManager_def)

lemma all_set_iff: "all_set bs \<longleftrightarrow> (\<forall>b \<in> set bs. b)"
  by (induction bs) auto

lemma needed_from_spec:
  assumes "length bm < 2 ^ 32" and "i \<le> word_of_nat (length bm)"
  shows "map unat (needed_from bm i) = filter (\<lambda>j. \<not> bm ! j) [unat i..<length bm]"
  using assms
proof (induction bm i rule: needed_from.induct)
  case (1 bm i)
  have n: "unat (word_of_nat (length bm) :: u32) = length bm"
    using "1.prems"(1) by (simp add: unat_of_nat)
  show ?case
  proof (cases "i < word_of_nat (length bm)")
    case True
    then have "unat i < length bm" "i + 1 \<le> word_of_nat (length bm)"
      using n by (simp_all add: word_less_nat_alt inc_le)
    moreover from this have "[unat i..<length bm] = unat i # [Suc (unat i)..<length bm]"
      by (simp add: upt_conv_Cons)
    ultimately show ?thesis
      using True "1.IH" "1.prems" needed_from.simps [of bm i] by (simp add: unat_suc_less [OF True])
  next
    case False
    then have "length bm \<le> unat i" using n by (simp add: word_less_nat_alt)
    then show ?thesis using False by (simp add: needed_from.simps)
  qed
qed

lemma needed_chunks_spec:
  "cm_ok cm \<Longrightarrow> map unat (needed_chunks cm) = filter (\<lambda>j. \<not> bitmap cm ! j) [0..<length (bitmap cm)]"
  using needed_from_spec [of "bitmap cm" 0] by (simp add: needed_chunks_def cm_ok_def)

section \<open>The contract\<close>

locale chunk_tracker =
  fixes fresh :: "u32 \<Rightarrow> 'm"
    and set_done set_todo :: "'m \<Rightarrow> u32 \<Rightarrow> 'm res"
    and needed :: "'m \<Rightarrow> u32 list"
    and complete :: "'m \<Rightarrow> bool"
    and count :: "'m \<Rightarrow> u32"
    and have_set :: "'m \<Rightarrow> nat set"
    and wf :: "'m \<Rightarrow> bool"
  assumes fresh_law: "wf (fresh n) \<and> have_set (fresh n) = {} \<and> count (fresh n) = n"
    and done_law: "wf m \<Longrightarrow> i < count m \<Longrightarrow>
      \<exists>m'. set_done m i = Ok m' \<and> wf m' \<and> count m' = count m \<and> have_set m' = insert (unat i) (have_set m)"
    and todo_law: "wf m \<Longrightarrow> i < count m \<Longrightarrow>
      \<exists>m'. set_todo m i = Ok m' \<and> wf m' \<and> count m' = count m \<and> have_set m' = have_set m - {unat i}"
    and range_law: "wf m \<Longrightarrow> \<not> i < count m \<Longrightarrow>
      \<exists>s s'. set_done m i = Throw (Out_of_range s) \<and> set_todo m i = Throw (Out_of_range s')"
    and have_law: "wf m \<Longrightarrow> have_set m \<subseteq> {0..<unat (count m)}"
    and needed_law: "wf m \<Longrightarrow> sorted (map unat (needed m)) \<and> distinct (needed m) \<and>
      unat ` set (needed m) = {0..<unat (count m)} - have_set m"
    and complete_law: "wf m \<Longrightarrow> complete m \<longleftrightarrow> have_set m = {0..<unat (count m)}"
begin

text \<open>Record the outcome of each received chunk, as the puller does.\<close>

definition set_flag :: "'m \<Rightarrow> u32 \<times> bool \<Rightarrow> 'm res" where
  "set_flag m ig = (case ig of (i, good) \<Rightarrow> if good then set_done m i else set_todo m i)"

lemma complete_iff_needed: "wf m \<Longrightarrow> complete m \<longleftrightarrow> needed m = []"
  using complete_law [of m] needed_law [of m] have_law [of m]
  by (metis Diff_eq_empty_iff Diff_cancel image_is_empty set_empty subset_antisym)

lemma set_flag_law:
  "wf m \<Longrightarrow> i < count m \<Longrightarrow> \<exists>m'. set_flag m (i, good) = Ok m' \<and> wf m' \<and> count m' = count m \<and>
     have_set m' = (if good then insert (unat i) (have_set m) else have_set m - {unat i})"
  using done_law todo_law by (auto simp: set_flag_def)

lemma set_flags_law:
  assumes "wf m" and "\<forall>(i, good) \<in> set outs. i < count m" and "distinct (map fst outs)"
  shows "\<exists>m'. res_foldl set_flag m outs = Ok m' \<and> wf m' \<and> count m' = count m \<and>
    have_set m' = (have_set m - unat ` {i. (i, False) \<in> set outs}) \<union> unat ` {i. (i, True) \<in> set outs}"
  using assms
proof (induction outs arbitrary: m)
  case Nil
  then show ?case by simp
next
  case (Cons ig outs)
  obtain i good where ig: "ig = (i, good)" by (cases ig)
  obtain m1 where m1: "set_flag m (i, good) = Ok m1" "wf m1" "count m1 = count m"
    "have_set m1 = (if good then insert (unat i) (have_set m) else have_set m - {unat i})"
    using set_flag_law [of m i good] Cons.prems ig by auto
  obtain m' where m': "res_foldl set_flag m1 outs = Ok m'" "wf m'" "count m' = count m"
    "have_set m' = (have_set m1 - unat ` {i. (i, False) \<in> set outs}) \<union> unat ` {i. (i, True) \<in> set outs}"
    using Cons.IH [OF m1(2)] Cons.prems m1(3) by auto
  have "i \<notin> fst ` set outs" using Cons.prems(3) ig by simp
  then have "unat i \<notin> unat ` {i. (i, False) \<in> set outs}" by (force simp flip: word_unat_eq_iff)
  then have "have_set m' = (have_set m - unat ` {i. (i, False) \<in> set (ig # outs)})
      \<union> unat ` {i. (i, True) \<in> set (ig # outs)}"
  proof (cases good)
    case True
    then have "{i'. (i', False) \<in> set (ig # outs)} = {i'. (i', False) \<in> set outs}"
      "{i'. (i', True) \<in> set (ig # outs)} = insert i {i'. (i', True) \<in> set outs}" using ig by auto
    then show ?thesis using m'(4) m1(4) True \<open>unat i \<notin> unat ` {i. (i, False) \<in> set outs}\<close> by auto
  next
    case False
    then have "{i'. (i', False) \<in> set (ig # outs)} = insert i {i'. (i', False) \<in> set outs}"
      "{i'. (i', True) \<in> set (ig # outs)} = {i'. (i', True) \<in> set outs}" using ig by auto
    then show ?thesis using m'(4) m1(4) False by auto
  qed
  then show ?case using m1 m' ig by auto
qed

text \<open>After a run over exactly the needed chunks, the set is complete iff all were good.\<close>

lemma complete_after_run:
  assumes "wf m" and "map fst outs = needed m" and "res_foldl set_flag m outs = Ok m'"
  shows "complete m' \<longleftrightarrow> (\<forall>(i, good) \<in> set outs. good)"
proof -
  note N = needed_law [OF assms(1)]
  have rng: "\<forall>(i, good) \<in> set outs. i < count m"
  proof clarify
    fix i good assume "(i, good) \<in> set outs"
    then have "i \<in> set (needed m)" using assms(2) by (metis fst_conv image_eqI list.set_map)
    then have "unat i < unat (count m)" using N by auto
    then show "i < count m" by (simp add: word_less_nat_alt)
  qed
  from set_flags_law [OF assms(1) rng] N assms(2,3) have m': "wf m'" "count m' = count m"
    "have_set m' = (have_set m - unat ` {i. (i, False) \<in> set outs}) \<union> unat ` {i. (i, True) \<in> set outs}"
    by auto
  have all: "unat ` fst ` set outs = {0..<unat (count m)} - have_set m"
    using N assms(2) by (metis list.set_map)
  show ?thesis
  proof
    assume c: "complete m'"
    show "\<forall>(i, good) \<in> set outs. good"
    proof (rule ccontr)
      assume "\<not> ?thesis"
      then obtain i where i: "(i, False) \<in> set outs" by auto
      then have "unat i \<in> {0..<unat (count m)}" "unat i \<notin> have_set m" using all by force+
      then have "unat i \<in> unat ` {i. (i, True) \<in> set outs}"
        using c m' complete_law [OF m'(1)] by auto
      then have "(i, True) \<in> set outs" by (auto simp flip: word_unat_eq_iff)
      with i N assms(2) show False by (metis Pair_inject eq_key_imp_eq_value)
    qed
  next
    assume good: "\<forall>(i, good) \<in> set outs. good"
    then have "{i. (i, False) \<in> set outs} = {}" "{i. (i, True) \<in> set outs} = fst ` set outs"
      by force+
    then have "have_set m' = {0..<unat (count m)}"
      using m'(3) all have_law [OF assms(1)] by auto
    then show "complete m'" using m' complete_law [OF m'(1)] by simp
  qed
qed

end

section \<open>The bitmap meets it\<close>

lemma unat_lt_count: "cm_ok cm \<Longrightarrow> i < cm_chunk_count cm \<longleftrightarrow> unat i < length (bitmap cm)"
  by (simp add: word_less_nat_alt cm_ok_count)

lemma mark_done_law:
  assumes "cm_ok cm" and "i < cm_chunk_count cm"
  shows "\<exists>cm'. mark_done cm i = Ok cm' \<and> cm_ok cm' \<and> cm_chunk_count cm' = cm_chunk_count cm \<and>
    done_set cm' = insert (unat i) (done_set cm)"
proof -
  have "unat i < length (bitmap cm)" using assms by (simp add: unat_lt_count)
  then show ?thesis using assms(1)
    by (auto simp: mark_done_def cm_ok_def cm_chunk_count_def done_set_def nth_list_update)
qed

lemma mark_todo_law:
  assumes "cm_ok cm" and "i < cm_chunk_count cm"
  shows "\<exists>cm'. mark_todo cm i = Ok cm' \<and> cm_ok cm' \<and> cm_chunk_count cm' = cm_chunk_count cm \<and>
    done_set cm' = done_set cm - {unat i}"
proof -
  have "unat i < length (bitmap cm)" using assms by (simp add: unat_lt_count)
  then show ?thesis using assms(1)
    by (auto simp: mark_todo_def cm_ok_def cm_chunk_count_def done_set_def nth_list_update)
qed

lemma needed_chunks_law:
  assumes "cm_ok cm"
  shows "sorted (map unat (needed_chunks cm)) \<and> distinct (needed_chunks cm) \<and>
    unat ` set (needed_chunks cm) = {0..<unat (cm_chunk_count cm)} - done_set cm"
proof -
  note S = needed_chunks_spec [OF assms]
  have "distinct (map unat (needed_chunks cm))" unfolding S by simp
  then have "distinct (needed_chunks cm)" by (simp add: distinct_map)
  moreover have "sorted (map unat (needed_chunks cm))" unfolding S by (simp add: sorted_filter [of id, simplified])
  moreover have "unat ` set (needed_chunks cm) = set (map unat (needed_chunks cm))" by simp
  then have "unat ` set (needed_chunks cm) = {0..<unat (cm_chunk_count cm)} - done_set cm"
    unfolding S using cm_ok_count [OF assms] by (auto simp: done_set_def)
  ultimately show ?thesis by blast
qed

interpretation cm: chunk_tracker ChunkManager mark_done mark_todo needed_chunks all_done
  cm_chunk_count done_set cm_ok
proof
  show "cm_ok (ChunkManager n) \<and> done_set (ChunkManager n) = {} \<and> cm_chunk_count (ChunkManager n) = n" for n
    by (auto simp: ChunkManager_def done_set_def cm_chunk_count_def cm_ok_fresh [unfolded ChunkManager_def])
  show "done_set m \<subseteq> {0..<unat (cm_chunk_count m)}" if "cm_ok m" for m
    using cm_ok_count [OF that] by (auto simp: done_set_def)
  show "all_done m \<longleftrightarrow> done_set m = {0..<unat (cm_chunk_count m)}" if "cm_ok m" for m
  proof -
    have "all_done m \<longleftrightarrow> (\<forall>i < length (bitmap m). bitmap m ! i)"
      by (simp add: all_done_def all_set_iff all_set_conv_all_nth)
    also have "\<dots> \<longleftrightarrow> done_set m = {0..<length (bitmap m)}"
      unfolding done_set_def set_eq_iff by simp blast
    finally show ?thesis by (simp only: cm_ok_count [OF that])
  qed
  show "\<exists>s s'. mark_done m i = Throw (Out_of_range s) \<and> mark_todo m i = Throw (Out_of_range s')"
    if "cm_ok m" "\<not> i < cm_chunk_count m" for m i
    using that by (simp add: mark_done_def mark_todo_def unat_lt_count not_less)
qed (rule mark_done_law mark_todo_law needed_chunks_law; assumption)+

lemma needs_chunk_law:
  "cm_ok cm \<Longrightarrow> needs_chunk cm i =
     (if i < cm_chunk_count cm then Ok (unat i \<notin> done_set cm)
      else Throw (Out_of_range ''ChunkManager::needs_chunk: Chunk index out of range''))"
  by (auto simp: needs_chunk_def unat_lt_count not_less done_set_def)

section \<open>Properties\<close>

text \<open>After the outcome of every needed chunk has been recorded, in any mixture of
  good and bad ones, \<^verbatim>\<open>all_done\<close> answers true exactly when all of them were good,
  \<^verbatim>\<open>needed_chunks\<close> then lists exactly the bad ones in increasing order, and no mark
  ever went out of range.\<close>

theorem chunk_run_complete:
  assumes "cm_ok cm" and "map fst outs = needed_chunks cm"
  shows "\<exists>cm'. res_foldl (\<lambda>cm (i, good). if good then mark_done cm i else mark_todo cm i) cm outs = Ok cm'
    \<and> (all_done cm' \<longleftrightarrow> (\<forall>(i, good) \<in> set outs. good))
    \<and> needed_chunks cm' = map fst (filter (\<lambda>(i, good). \<not> good) outs)"
proof -
  have fl: "(\<lambda>cm (i, good). if good then mark_done cm i else mark_todo cm i) = cm.set_flag"
    by (intro ext) (auto simp: cm.set_flag_def split: prod.splits)
  note N = needed_chunks_law [OF assms(1)]
  have "distinct (map fst outs)" using N assms(2) by simp
  moreover have "\<forall>(i, good) \<in> set outs. i < cm_chunk_count cm"
  proof clarify
    fix i good assume "(i, good) \<in> set outs"
    then have "i \<in> set (needed_chunks cm)" using assms(2) by (metis fst_conv image_eqI list.set_map)
    then show "i < cm_chunk_count cm" using N by (auto simp: word_less_nat_alt)
  qed
  ultimately obtain cm' where m': "res_foldl cm.set_flag cm outs = Ok cm'" "cm_ok cm'"
    "cm_chunk_count cm' = cm_chunk_count cm"
    "done_set cm' = (done_set cm - unat ` {i. (i, False) \<in> set outs}) \<union> unat ` {i. (i, True) \<in> set outs}"
    using cm.set_flags_law [OF assms(1)] by blast
  let ?bad = "map fst (filter (\<lambda>(i, good). \<not> good) outs)"
  have bad: "set ?bad = {i. (i, False) \<in> set outs}" by force
  have "sorted (map unat ?bad)"
  proof -
    have "sorted (map unat (map fst outs))" using N assms(2) by simp
    then show ?thesis by (induction outs) (auto split: if_splits)
  qed
  moreover have "distinct (map unat ?bad)"
    using \<open>distinct (map fst outs)\<close> by (induction outs) (auto simp flip: word_unat_eq_iff)
  moreover have "set (map unat ?bad) = set (map unat (needed_chunks cm'))"
  proof -
    have all: "unat ` fst ` set outs = {0..<unat (cm_chunk_count cm)} - done_set cm"
      using N assms(2) by (metis list.set_map)
    let ?F = "unat ` {i. (i, False) \<in> set outs}" and ?T = "unat ` {i. (i, True) \<in> set outs}"
    have "?F \<inter> ?T = {}"
      using \<open>distinct (map fst outs)\<close> by (auto dest: eq_key_imp_eq_value simp flip: word_unat_eq_iff)
    moreover have "fst ` set outs = {i. (i, False) \<in> set outs} \<union> {i. (i, True) \<in> set outs}"
      by (auto simp: image_iff Bex_def ex_bool_eq) (metis (full_types))
    with all have "?F \<union> ?T = {0..<unat (cm_chunk_count cm)} - done_set cm" by (metis image_Un)
    ultimately have "{0..<unat (cm_chunk_count cm)} - done_set cm' = ?F" unfolding m'(4) by blast
    then show ?thesis using needed_chunks_law [OF m'(2)] m'(3) bad by (metis list.set_map)
  qed
  moreover have "sorted (map unat (needed_chunks cm'))" "distinct (map unat (needed_chunks cm'))"
    using needed_chunks_law [OF m'(2)] by (simp_all add: distinct_map_unat)
  ultimately have "map unat (needed_chunks cm') = map unat ?bad"
    by (intro sorted_distinct_set_unique) simp_all
  then have "needed_chunks cm' = ?bad" by (simp only: map_unat_inject)
  then show ?thesis
    using m'(1) cm.complete_after_run [OF assms m'(1)] unfolding fl by blast
qed

text \<open>C30: The bitmap implements a set of finished chunks. Each operation with an index in
  range does to \<open>done_set\<close> what its name says, any other index is refused by all three with
  \<^verbatim>\<open>out_of_range\<close>, \<^verbatim>\<open>needed_chunks\<close> lists the complement in increasing order, and
  \<^verbatim>\<open>all_done\<close> holds exactly for the full set.\<close>

theorem chunk_manager_refines_set:
  assumes "cm_ok cm"
  shows "(if i < cm_chunk_count cm then
      (\<exists>cm'. mark_done cm i = Ok cm' \<and> cm_ok cm' \<and> done_set cm' = insert (unat i) (done_set cm)) \<and>
      (\<exists>cm'. mark_todo cm i = Ok cm' \<and> cm_ok cm' \<and> done_set cm' = done_set cm - {unat i}) \<and>
      needs_chunk cm i = Ok (unat i \<notin> done_set cm)
    else (\<exists>s1 s2 s3. mark_done cm i = Throw (Out_of_range s1) \<and> mark_todo cm i = Throw (Out_of_range s2) \<and>
      needs_chunk cm i = Throw (Out_of_range s3))) \<and>
    map unat (needed_chunks cm) = sorted_list_of_set ({0..<unat (cm_chunk_count cm)} - done_set cm) \<and>
    (all_done cm \<longleftrightarrow> done_set cm = {0..<unat (cm_chunk_count cm)})"
proof -
  note N = needed_chunks_law [OF assms]
  have "sorted_list_of_set (set (map unat (needed_chunks cm))) = map unat (needed_chunks cm)"
    using N by (intro sorted_list_of_set.idem_if_sorted_distinct) (simp_all add: distinct_map_unat)
  moreover have "set (map unat (needed_chunks cm)) = {0..<unat (cm_chunk_count cm)} - done_set cm"
    using N by simp
  ultimately show ?thesis
    using mark_done_law [OF assms, of i] mark_todo_law [OF assms, of i] cm.range_law [OF assms, of i]
      needs_chunk_law [OF assms, of i] cm.complete_law [OF assms]
    by (cases "i < cm_chunk_count cm") auto
qed

section \<open>Witnesses\<close>

lemma three_chunks: "needed_chunks (ChunkManager 3) = [0, 1, 2]"
proof -
  have "map unat (needed_chunks (ChunkManager 3)) = map unat [0, 1, 2 :: u32]"
    using needed_chunks_spec [OF cm_ok_fresh, of 3] by (simp add: ChunkManager_def upt_rec nth_Cons')
  then show ?thesis by (simp only: map_unat_inject)
qed

lemma chunk_run_complete_witness:
  "\<exists>cm'. res_foldl (\<lambda>cm (i, good). if good then mark_done cm i else mark_todo cm i) (ChunkManager 3)
      [(0, True), (1, False), (2, True)] = Ok cm' \<and> \<not> all_done cm' \<and> needed_chunks cm' = [1]"
  using chunk_run_complete [of "ChunkManager 3" "[(0, True), (1, False), (2, True)]"] three_chunks by simp

lemma chunk_manager_refines_set_witness:
  "(\<exists>cm'. mark_done (ChunkManager 3) 2 = Ok cm') \<and> \<not> all_done (ChunkManager 3)"
  using chunk_manager_refines_set [of "ChunkManager 3" 2] cm.fresh_law [of 3] by auto

end
