(* ===== verification/Partial_File.thy ===== *)
theory Partial_File
  imports Embr_Sys Chunk_Manager
begin

text \<open>
  The resume state of \<^verbatim>\<open>core/partial_file.cpp\<close>: \<^verbatim>\<open>.name.embr.partial\<close> beside the output
  file holds the hash of the first chunk and the bitmap, least significant bit first.
  \<open>save\<close> and \<open>load\<close> are shown to be inverse to each other through the file system,
  whatever short writes and interruptions the environment chooses, and to close the
  descriptor they open on every path. A bitmap access out of range is \<open>Undef\<close>.
\<close>

section \<open>Paths\<close>

definition path_for :: "string \<Rightarrow> string" where
  "path_for output_path =
     (case rfind_slash output_path of
        None \<Rightarrow> ''.'' @ output_path @ ''.embr.partial''
      | Some slash_pos \<Rightarrow>
          take (slash_pos + 1) output_path @ ''.'' @ drop (slash_pos + 1) output_path @ ''.embr.partial'')"

lemma path_for_sibling: "path_for p = sibling ''.embr.partial'' p"
  by (simp add: path_for_def sibling_def)

lemma path_for_other [simp]: "path_for p \<noteq> p"
  by (simp add: path_for_sibling sibling_other)

section \<open>Operations\<close>

text \<open>The counter values of \<^verbatim>\<open>for (uint32_t i = 0; i < n; ++i)\<close>.\<close>

definition u32_upto :: "u32 \<Rightarrow> u32 list" where
  "u32_upto n = map word_of_nat [0..<unat n]"

definition bitmap_bytes :: "u32 \<Rightarrow> nat" where
  "bitmap_bytes chunk_count = unat ((chunk_count + 8 - 1) div 8)"

definition unpack_bit :: "u8 list \<Rightarrow> chunk_manager \<Rightarrow> u32 \<Rightarrow> chunk_manager res" where
  "unpack_bit raw cm i =
     (if unat (i div 8) < length raw then
        if and (ucast (raw ! unat (i div 8))) (push_bit (unat (i mod 8)) (1 :: u32)) \<noteq> 0
        then mark_done cm i else Ok cm
      else Undef)"

definition pack_bit :: "bool list \<Rightarrow> u8 list \<Rightarrow> u32 \<Rightarrow> u8 list res" where
  "pack_bit bm raw i =
     (if unat i < length bm then
        if bm ! unat i then
          if unat (i div 8) < length raw then
            Ok (raw[unat (i div 8) :=
              ucast (or (ucast (raw ! unat (i div 8))) (push_bit (unat (i mod 8)) (1 :: u32)))])
          else Undef
        else Ok raw
      else Undef)"

text \<open>The \<^verbatim>\<open>try\<close> blocks of \<open>load\<close> and \<open>save\<close>, on an open descriptor.\<close>

definition load_try ::
  "string \<Rightarrow> u8 list \<Rightarrow> u32 \<Rightarrow> int \<Rightarrow> ('e world_scheme, chunk_manager option) io" where
  "load_try output_path file_hash chunk_count fd =
     io_bind (read_exact fd HASH_SIZE) (\<lambda>stored_hash.
       if stored_hash \<noteq> file_hash then io_bind (io_close fd) (\<lambda>_. io_ret None)
       else io_bind (sys (sys_stat_size output_path)) (\<lambda>st.
         if (case st of None \<Rightarrow> True
             | Some st_size \<Rightarrow> word_of_nat st_size \<noteq> (ucast chunk_count :: u64) * word_of_nat CHUNK_SIZE)
         then io_bind (io_close fd) (\<lambda>_. io_ret None)
         else io_bind (read_exact fd (bitmap_bytes chunk_count)) (\<lambda>raw.
           io_bind (io_close fd) (\<lambda>_.
           io_bind (io_lift (res_foldl (unpack_bit raw) (ChunkManager chunk_count) (u32_upto chunk_count)))
             (\<lambda>cm. io_ret (Some cm))))))"

definition PartialFile_load ::
  "string \<Rightarrow> u8 list \<Rightarrow> u32 \<Rightarrow> ('e world_scheme, chunk_manager option) io" where
  "PartialFile_load output_path file_hash chunk_count =
     io_bind (sys (sys_open (path_for output_path) False False)) (\<lambda>fd.
       if fd < 0 then io_ret None
       else io_catch_runtime (load_try output_path file_hash chunk_count fd)
         (io_bind (io_close fd) (\<lambda>_. io_ret None)))"

definition save_try :: "u8 list \<Rightarrow> chunk_manager \<Rightarrow> int \<Rightarrow> ('e world_scheme, unit) io" where
  "save_try file_hash cm fd =
     io_bind (write_exact fd file_hash) (\<lambda>_.
     io_bind (io_lift (res_foldl (pack_bit (bitmap cm))
                (replicate (bitmap_bytes (cm_chunk_count cm)) 0) (u32_upto (cm_chunk_count cm)))) (\<lambda>raw.
     io_bind (write_exact fd raw) (\<lambda>_. io_close fd)))"

definition PartialFile_save ::
  "string \<Rightarrow> u8 list \<Rightarrow> chunk_manager \<Rightarrow> ('e world_scheme, unit) io" where
  "PartialFile_save output_path file_hash cm =
     io_bind (sys (sys_open (path_for output_path) True True)) (\<lambda>fd.
       if fd < 0 then io_throw (Runtime_error ''partial_file::save: failed to open for write: '')
       else io_catch_rethrow (save_try file_hash cm fd) (sys_close fd))"

definition PartialFile_remove :: "string \<Rightarrow> ('e world_scheme, unit) io" where
  "PartialFile_remove output_path = sys (sys_unlink (path_for output_path))"

section \<open>The bitmap as bytes\<close>

definition bit_at :: "u8 list \<Rightarrow> nat \<Rightarrow> bool" where
  "bit_at raw i \<longleftrightarrow> bit (raw ! (i div 8)) (i mod 8)"

text \<open>What the file holds: \<open>packed bm raw\<close> when bit \<open>i\<close> of \<open>raw\<close> is flag \<open>i\<close> of \<open>bm\<close>.\<close>

definition packed :: "bool list \<Rightarrow> u8 list \<Rightarrow> bool" where
  "packed bm raw \<longleftrightarrow> length raw = (length bm + 7) div 8 \<and> (\<forall>i < length bm. bit_at raw i = bm ! i)"

text \<open>The sum \<^verbatim>\<open>chunk_count + 8 - 1\<close> does not wrap below this bound.\<close>

definition countable_chunks :: "u32 \<Rightarrow> bool" where
  "countable_chunks n \<longleftrightarrow> unat n < 2 ^ 32 - 7"

lemma bitmap_bytes: "countable_chunks n \<Longrightarrow> bitmap_bytes n = (unat n + 7) div 8"
proof -
  assume "countable_chunks n"
  then have "unat (7 + n) = unat n + 7"
    by (simp add: countable_chunks_def unat_word_ariths)
  then show ?thesis by (simp add: bitmap_bytes_def unat_div)
qed

lemma u32_upto_nth: "i \<in> set (u32_upto n) \<Longrightarrow> unat i < unat n"
proof -
  assume "i \<in> set (u32_upto n)"
  then obtain k where k: "k < unat n" "i = word_of_nat k" by (auto simp: u32_upto_def)
  then have "k < 2 ^ 32" using unsigned_less [of n, where ?'a = nat] by simp
  then show ?thesis using k by (simp add: unat_of_nat)
qed

lemma map_unat_u32_upto: "map unat (u32_upto n) = [0..<unat n]"
proof (rule nth_equalityI)
  fix i assume "i < length (map unat (u32_upto n))"
  then have i: "i < unat n" by (simp add: u32_upto_def)
  then have "i < 2 ^ 32" using unsigned_less [of n, where ?'a = nat] by simp
  with i show "map unat (u32_upto n) ! i = [0..<unat n] ! i" by (simp add: u32_upto_def unat_of_nat)
qed (simp add: u32_upto_def)

lemma bit_test:
  "m < 8 \<Longrightarrow> and (ucast (b :: u8)) (push_bit m (1 :: u32)) \<noteq> 0 \<longleftrightarrow> bit b m"
proof -
  assume m: "m < 8"
  have "x \<noteq> 0 \<longleftrightarrow> (\<exists>j. bit x j)" for x :: u32
    using bit_imp_le_length [of x] by (fastforce simp: bit_eq_iff)
  then show ?thesis using m by (auto simp: bit_simps dest: bit_imp_le_length)
qed

lemma bit_set:
  "m < 8 \<Longrightarrow> bit (ucast (or (ucast (b :: u8)) (push_bit m (1 :: u32))) :: u8) j \<longleftrightarrow> bit b j \<or> j = m"
  by (auto simp: bit_simps dest: bit_imp_le_length)

lemma unat_div_mod_8: "unat (i div 8 :: u32) = unat i div 8" "unat (i mod 8 :: u32) = unat i mod 8"
  by (simp_all add: unat_div unat_mod)

lemma div8_less: "i < n \<Longrightarrow> i div 8 < (n + 7) div 8" for i n :: nat
  by (simp add: div_le_mono less_eq_Suc_le)

lemma pack_bit_step:
  assumes "unat i < length bm" and "length raw = (length bm + 7) div 8"
  shows "\<exists>raw'. pack_bit bm raw i = Ok raw' \<and> length raw' = length raw \<and>
    (\<forall>j < length bm. bit_at raw' j \<longleftrightarrow> bit_at raw j \<or> (j = unat i \<and> bm ! j))"
proof (cases "bm ! unat i")
  case False
  then show ?thesis using assms by (auto simp: pack_bit_def)
next
  case True
  let ?k = "unat i div 8" and ?m = "unat i mod 8"
  let ?raw = "raw[?k := ucast (or (ucast (raw ! ?k)) (push_bit ?m (1 :: u32)))]"
  have k: "?k < length raw" using div8_less [OF assms(1)] assms(2) by simp
  have "bit_at ?raw j \<longleftrightarrow> bit_at raw j \<or> j = unat i" for j
  proof (cases "j div 8 = ?k")
    case True
    have "j mod 8 = ?m \<longleftrightarrow> j = unat i" using True by (metis mult_div_mod_eq)
    moreover have "bit (?raw ! ?k) l \<longleftrightarrow> bit (raw ! ?k) l \<or> l = ?m" for l
      unfolding nth_list_update_eq [OF k] by (rule bit_set) simp
    ultimately show ?thesis using True by (simp only: bit_at_def)
  next
    case False
    then show ?thesis by (auto simp: bit_at_def)
  qed
  moreover have "pack_bit bm raw i = Ok ?raw"
    using True k assms(1) by (simp add: pack_bit_def unat_div_mod_8)
  ultimately show ?thesis using True by auto
qed

lemma pack_bits:
  assumes "\<forall>i \<in> set js. unat i < length bm" and "length raw = (length bm + 7) div 8"
  shows "\<exists>raw'. res_foldl (pack_bit bm) raw js = Ok raw' \<and> length raw' = length raw \<and>
    (\<forall>j < length bm. bit_at raw' j \<longleftrightarrow> bit_at raw j \<or> (j \<in> unat ` set js \<and> bm ! j))"
  using assms
proof (induction js arbitrary: raw)
  case Nil
  then show ?case by simp
next
  case (Cons i js)
  obtain raw1 where 1: "pack_bit bm raw i = Ok raw1" "length raw1 = length raw"
    "\<forall>j < length bm. bit_at raw1 j \<longleftrightarrow> bit_at raw j \<or> (j = unat i \<and> bm ! j)"
    using pack_bit_step [of i bm raw] Cons.prems by auto
  obtain raw2 where 2: "res_foldl (pack_bit bm) raw1 js = Ok raw2" "length raw2 = length raw1"
    "\<forall>j < length bm. bit_at raw2 j \<longleftrightarrow> bit_at raw1 j \<or> (j \<in> unat ` set js \<and> bm ! j)"
    using Cons.IH [of raw1] Cons.prems 1(2) by auto
  show ?case using 1 2 by (intro exI [of _ raw2]) auto
qed

lemma pack_all:
  assumes "cm_ok cm" and "countable_chunks (cm_chunk_count cm)"
  shows "\<exists>raw. res_foldl (pack_bit (bitmap cm)) (replicate (bitmap_bytes (cm_chunk_count cm)) 0)
      (u32_upto (cm_chunk_count cm)) = Ok raw \<and> packed (bitmap cm) raw"
proof -
  have n: "unat (cm_chunk_count cm) = length (bitmap cm)" by (rule cm_ok_count [OF assms(1)])
  have "unat ` set (u32_upto (cm_chunk_count cm)) = {0..<length (bitmap cm)}"
    using map_unat_u32_upto [of "cm_chunk_count cm"] n by (metis atLeastLessThan_upt list.set_map)
  moreover have "bit_at (replicate k 0) j = False" if "j div 8 < k" for j k
    using that by (simp add: bit_at_def)
  ultimately show ?thesis
    using pack_bits [of "u32_upto (cm_chunk_count cm)" "bitmap cm" "replicate (bitmap_bytes (cm_chunk_count cm)) 0"]
      u32_upto_nth [of _ "cm_chunk_count cm"] n bitmap_bytes [OF assms(2)] div8_less
    by (fastforce simp: packed_def)
qed

lemma unpack_bit_eq:
  "unat i div 8 < length raw \<Longrightarrow>
    unpack_bit raw cm i = (if bit_at raw (unat i) then mark_done cm i else Ok cm)"
  using bit_test [of "unat i mod 8"] by (simp only: unpack_bit_def unat_div_mod_8 bit_at_def) simp

text \<open>Unpacking visits each flag once, so it reproduces the bits exactly.\<close>

lemma unpack_bits:
  assumes "length raw = (unat (cm_chunk_count cm) + 7) div 8" and "cm_ok cm"
    and "\<forall>i \<in> set js. i < cm_chunk_count cm"
  shows "\<exists>cm'. res_foldl (unpack_bit raw) cm js = Ok cm' \<and> cm_ok cm' \<and>
    cm_chunk_count cm' = cm_chunk_count cm \<and>
    done_set cm' = done_set cm \<union> {j \<in> unat ` set js. bit_at raw j}"
  using assms
proof (induction js arbitrary: cm)
  case Nil
  then show ?case by simp
next
  case (Cons i js)
  have i: "i < cm_chunk_count cm" "unat i div 8 < length raw"
    using Cons.prems div8_less [of "unat i"] by (auto simp: word_less_nat_alt)
  obtain cm1 where 1: "unpack_bit raw cm i = Ok cm1" "cm_ok cm1" "cm_chunk_count cm1 = cm_chunk_count cm"
    "done_set cm1 = done_set cm \<union> {j \<in> {unat i}. bit_at raw j}"
    using cm.done_law [OF Cons.prems(2) i(1)] Cons.prems(2)
    by (cases "bit_at raw (unat i)") (auto intro!: that simp: unpack_bit_eq [OF i(2)])
  obtain cm2 where "res_foldl (unpack_bit raw) cm1 js = Ok cm2" "cm_ok cm2"
    "cm_chunk_count cm2 = cm_chunk_count cm1"
    "done_set cm2 = done_set cm1 \<union> {j \<in> unat ` set js. bit_at raw j}"
    using Cons.IH [of cm1] 1 Cons.prems by auto
  with 1 show ?case by auto
qed

text \<open>\<open>unpacked raw n\<close> is the manager that \<open>load\<close> builds out of the bytes.\<close>

definition unpacked :: "u8 list \<Rightarrow> u32 \<Rightarrow> chunk_manager" where
  "unpacked raw n = \<lparr>bitmap = map (bit_at raw) [0..<unat n]\<rparr>"

lemma cm_eqI:
  assumes "cm_ok a" and "cm_ok b" and "cm_chunk_count a = cm_chunk_count b" and "done_set a = done_set b"
  shows "a = b"
proof -
  have l: "length (bitmap a) = length (bitmap b)"
    by (simp only: assms(3) flip: cm_ok_count [OF assms(1)] cm_ok_count [OF assms(2)])
  have "bitmap a ! i = bitmap b ! i" if "i < length (bitmap a)" for i
  proof -
    have "i \<in> done_set a \<longleftrightarrow> i \<in> done_set b" by (simp only: assms(4))
    then show ?thesis using that l by (simp add: done_set_def)
  qed
  then have "bitmap a = bitmap b" by (intro nth_equalityI l)
  then show ?thesis by (intro chunk_manager.equality) simp_all
qed

lemma unpacked_ok [simp]:
  "cm_ok (unpacked raw n)" "cm_chunk_count (unpacked raw n) = n"
  using unsigned_less [of n, where ?'a = nat] by (simp_all add: cm_ok_def cm_chunk_count_def unpacked_def)

lemma unpack_all:
  assumes "countable_chunks n" and "length raw = bitmap_bytes n"
  shows "res_foldl (unpack_bit raw) (ChunkManager n) (u32_upto n) = Ok (unpacked raw n)"
proof -
  have "\<forall>i \<in> set (u32_upto n). i < n" using u32_upto_nth by (auto simp: word_less_nat_alt)
  then obtain cm' where c: "res_foldl (unpack_bit raw) (ChunkManager n) (u32_upto n) = Ok cm'" "cm_ok cm'"
    "cm_chunk_count cm' = n" "done_set cm' = {j \<in> unat ` set (u32_upto n). bit_at raw j}"
    using unpack_bits [of raw "ChunkManager n" "u32_upto n"] assms cm.fresh_law [of n]
    by (auto simp: bitmap_bytes)
  have "unat ` set (u32_upto n) = {0..<unat n}"
    using map_unat_u32_upto [of n] by (metis atLeastLessThan_upt list.set_map)
  then have "done_set cm' = done_set (unpacked raw n)"
    using c(4) by (auto simp: done_set_def unpacked_def)
  then have "cm' = unpacked raw n" using c(2,3) by (intro cm_eqI) simp_all
  with c(1) show ?thesis by simp
qed

lemma unpacked_packed:
  assumes "cm_ok cm" and "packed (bitmap cm) raw"
  shows "unpacked raw (cm_chunk_count cm) = cm"
proof (rule cm_eqI)
  show "done_set (unpacked raw (cm_chunk_count cm)) = done_set cm"
    using assms cm_ok_count [OF assms(1)] by (auto simp: done_set_def unpacked_def packed_def)
qed (simp_all add: assms(1))

section \<open>Load and save over the file system\<close>

text \<open>What there is to resume, as a function of the two files.\<close>

definition resumable :: "'e world_scheme \<Rightarrow> string \<Rightarrow> u8 list \<Rightarrow> u32 \<Rightarrow> chunk_manager option" where
  "resumable w out h n =
     (case (files w (path_for out), files w out) of
        (Some c, Some d) \<Rightarrow>
          if take HASH_SIZE c = h \<and> HASH_SIZE + bitmap_bytes n \<le> length c
             \<and> word_of_nat (length d) = (ucast n :: u64) * word_of_nat CHUNK_SIZE
          then Some (unpacked (region HASH_SIZE (bitmap_bytes n) c) n) else None
      | _ \<Rightarrow> None)"

definition load_cost :: "u32 \<Rightarrow> nat" where
  "load_cost n = Suc (Suc HASH_SIZE + Suc (Suc (bitmap_bytes n)))"

definition save_cost :: "u32 \<Rightarrow> nat" where
  "save_cost n = Suc (HASH_SIZE + bitmap_bytes n)"

definition load_post :: "bool \<Rightarrow> string \<Rightarrow> u8 list \<Rightarrow> u32 \<Rightarrow> nat \<Rightarrow> 'e world_scheme
    \<Rightarrow> chunk_manager option res \<Rightarrow> 'e world_scheme \<Rightarrow> bool" where
  "load_post b out h n m w r w' \<longleftrightarrow> (\<exists>res. r = Ok res \<and> (b \<and> res = None \<or> res = resumable w out h n)) \<and>
     tidy w w' \<and> files w' = files w \<and> world.more w' = world.more w \<and> ready b w' m"

lemma load_try_wp:
  assumes h: "holds fd \<lparr>of_path = path_for out, of_pos = 0\<rparr> w w1" and f1: "files w1 = files w"
    and m1: "world.more w1 = world.more w" and c: "files w (path_for out) = Some c"
    and hash: "length hash = HASH_SIZE" and n: "countable_chunks n"
    and rd: "ready b w1 (Suc HASH_SIZE + Suc (Suc (bitmap_bytes n) + m))"
  shows "wp b (load_try out hash n fd) (on_runtime (io_bind (io_close fd) (\<lambda>_. io_ret None)) b
           (load_post b out hash n m w)) w1"
proof -
  let ?f = "\<lparr>of_path = path_for out, of_pos = 0\<rparr>"
  let ?bad = "\<lambda>st. case st of None \<Rightarrow> True
     | Some st_size \<Rightarrow> word_of_nat st_size \<noteq> (ucast n :: u64) * word_of_nat CHUNK_SIZE"
  have none: "load_post b out hash n m w (Ok None) (sys_close fd w')"
    if "holds fd f w w'" "files w' = files w" "world.more w' = world.more w" "ready b w' (k + m)"
      "b \<or> resumable w out hash n = None" for f w' k
    using that holds_close [OF that(1)] ready_mono [OF that(4)] by (auto simp: load_post_def)
  note [simp] = wp_simps
  show ?thesis unfolding load_try_def wp_bind
  proof (rule wp_read_exact [OF h _ rd, of c], goal_cases)
    case 1
    then show ?case using c f1 by simp
  next
    case (3 w2 s k)
    then have "b \<or> resumable w out hash n = None" using c by (auto simp: resumable_def split: option.splits)
    with 3 show ?case using none [OF 3(2), of "Suc (Suc (bitmap_bytes n))"] f1 m1 by simp
  next
    case (2 w2)
    have h2: "holds fd (?f\<lparr>of_pos := HASH_SIZE\<rparr>) w w2" using 2(1) by simp
    have len: "HASH_SIZE \<le> length c" using 2(5) by (simp add: HASH_SIZE_def)
    show ?case
    proof (cases "take HASH_SIZE c = hash")
      case False
      then have "resumable w out hash n = None" using c by (auto simp: resumable_def split: option.splits)
      then show ?thesis using 2 False none [OF h2, of "Suc (Suc (bitmap_bytes n))"] f1 m1
        by (simp add: region_def)
    next
      case True
      then have eq: "(region (of_pos ?f) HASH_SIZE c \<noteq> hash) = False" by (simp add: region_def)
      show ?thesis unfolding on_ok_simps eq if_False wp_bind
      proof (rule wp_stat_size [where n = "Suc (bitmap_bytes n) + m"], goal_cases)
        case 1
        then show ?case using 2(4) by simp
      next
        case (2 w3)
        then have "b \<or> resumable w out hash n = None"
          using \<open>files w2 = files w1\<close> f1 by (auto simp: resumable_def split: option.splits)
        moreover have "holds fd (?f\<lparr>of_pos := HASH_SIZE\<rparr>) w w3"
          by (rule holds_tidy [OF h2]) (rule tidy_same_os [OF 2(2,3)])
        moreover have "files w3 = files w" "world.more w3 = world.more w"
          using 2(2,4) \<open>files w2 = files w1\<close> \<open>world.more w2 = world.more w1\<close> f1 m1
          by (simp_all add: same_os_def)
        ultimately show ?case using none [of _ w3 "Suc (bitmap_bytes n)"] 2(5) by simp
      next
        case (3 w3 d)
        have h3: "holds fd (?f\<lparr>of_pos := HASH_SIZE\<rparr>) w w3"
          by (rule holds_tidy [OF h2]) (rule tidy_same_os [OF 3(2,3)])
        have w3: "files w3 = files w" "world.more w3 = world.more w" "files w out = Some d"
          using 3(1,2,4) \<open>files w2 = files w1\<close> \<open>world.more w2 = world.more w1\<close> f1 m1
          by (simp_all add: same_os_def)
        show ?case
        proof (cases "?bad (Some (length d))")
          case bad: True
          then have "resumable w out hash n = None" using w3(3) by (auto simp: resumable_def split: option.splits)
          then show ?thesis using bad none [OF h3 w3(1,2), of "Suc (bitmap_bytes n)"] 3(5) by simp
        next
          case False
          then have eq: "?bad (Some (length d)) = False" by simp
          show ?thesis unfolding on_ok_simps eq if_False wp_bind
          proof (rule wp_read_exact [OF h3, where c = c and n = m], goal_cases)
            case 1
            then show ?case using c w3(1) by simp
          next
            case 2
            then show ?case using 3(5) by simp
          next
            case (4 w4 s k)
            then have "b \<or> resumable w out hash n = None" using c w3 by (auto simp: resumable_def)
            with 4 show ?case using none [OF 4(2), of 0] w3 by simp
          next
            case (3 w4)
            have l: "HASH_SIZE + bitmap_bytes n \<le> length c" using 3(5) len by (cases "bitmap_bytes n = 0") auto
            have "resumable w out hash n = Some (unpacked (region HASH_SIZE (bitmap_bytes n) c) n)"
              using c w3(3) l False True by (simp add: resumable_def)
            then show ?case using 3 l w3 holds_close [OF 3(1)] unpack_all [OF n]
              by (simp add: load_post_def)
          qed
        qed
      qed
    qed
  qed
qed

lemma load_wp:
  assumes "wf_fds w" and "length hash = HASH_SIZE" and "countable_chunks n"
    and rd: "ready b w (load_cost n + m)"
  shows "wp b (PartialFile_load out hash n) (load_post b out hash n m w) w"
proof -
  have rd': "ready b w (Suc (Suc HASH_SIZE + Suc (Suc (bitmap_bytes n)) + m))"
    using rd by (simp add: load_cost_def)
  show ?thesis unfolding PartialFile_load_def wp_bind
  proof (rule wp_open [OF assms(1) rd'], goal_cases)
    case (1 w')
    then have "b \<or> resumable w out hash n = None" by (auto simp: resumable_def)
    moreover have "ready b w' m" by (rule ready_mono [OF 1(5)]) simp
    ultimately show ?case using 1 by (auto simp: load_post_def wp_simps)
  next
    case (2 w1 fd)
    then obtain c where c: "files w (path_for out) = Some c" by auto
    then have "files w1 = files w" using 2(3) by (auto simp: contents_def)
    from load_try_wp [OF 2(2) this 2(4) c assms(2,3)] 2(5) holds_lookup [OF 2(2)] show ?case
      by (simp add: wp_simps add.assoc)
  qed
qed

definition save_post :: "bool \<Rightarrow> string \<Rightarrow> u8 list \<Rightarrow> chunk_manager \<Rightarrow> nat \<Rightarrow> 'e world_scheme
    \<Rightarrow> unit res \<Rightarrow> 'e world_scheme \<Rightarrow> bool" where
  "save_post b out h cm m w r w' \<longleftrightarrow> tidy w w' \<and> world.more w' = world.more w \<and>
     (\<forall>q. q \<noteq> path_for out \<longrightarrow> files w' q = files w q) \<and>
     (case r of
        Ok _ \<Rightarrow> ready b w' m \<and> (\<exists>raw. packed (bitmap cm) raw \<and> files w' (path_for out) = Some (h @ raw))
      | Throw e \<Rightarrow> b \<and> (\<exists>s. e = Runtime_error s)
      | Undef \<Rightarrow> False)"

lemma save_try_wp:
  assumes h: "holds fd \<lparr>of_path = path_for out, of_pos = 0\<rparr> w w1"
    and f1: "files w1 = (files w)(path_for out \<mapsto> [])"
    and m1: "world.more w1 = world.more w"
    and hash: "length hash = HASH_SIZE" and cm: "cm_ok cm" "countable_chunks (cm_chunk_count cm)"
    and rd: "ready b w1 (HASH_SIZE + (bitmap_bytes (cm_chunk_count cm) + m))"
  shows "wp b (save_try hash cm fd) (on_throw (sys_close fd) (save_post b out hash cm m w)) w1"
proof -
  note [simp] = wp_simps
  obtain raw where raw: "res_foldl (pack_bit (bitmap cm)) (replicate (bitmap_bytes (cm_chunk_count cm)) 0)
      (u32_upto (cm_chunk_count cm)) = Ok raw" "packed (bitmap cm) raw"
    using pack_all [OF cm] by blast
  have len: "length raw = bitmap_bytes (cm_chunk_count cm)"
    using raw(2) bitmap_bytes [OF cm(2)] cm_ok_count [OF cm(1)] by (simp add: packed_def)
  have failed: "save_post b out hash cm m w (Throw (Runtime_error s)) (sys_close fd w')"
    if "b" "holds fd f w w'" "files w' = (files w)(path_for out := x)" "world.more w' = world.more w"
    for s w' f x
    using that holds_close [OF that(2)] by (auto simp: save_post_def)
  show ?thesis unfolding save_try_def wp_bind
  proof (rule wp_write_exact [OF h, where c = "[]" and n = "bitmap_bytes (cm_chunk_count cm) + m"], goal_cases)
    case 1
    then show ?case by (simp add: f1)
  next
    case 2
    then show ?case by simp
  next
    case 3
    then show ?case using rd hash by simp
  next
    case (5 w2 s k)
    then show ?case using failed [OF 5(1,3)] m1 f1 by simp
  next
    case (4 w2)
    have f2: "files w2 = (files w)(path_for out \<mapsto> hash)"
      using 4(2) f1 by (cases "hash = []") (auto simp: write_at_def)
    show ?case unfolding raw on_ok_simps wp_bind wp_return
    proof (rule wp_write_exact [OF 4(1), where c = hash and n = m], goal_cases)
      case 1
      then show ?case by (simp add: f2)
    next
      case 2
      then show ?case by simp
    next
      case 3
      then show ?case using 4(4) len by simp
    next
      case (5 w3 s k)
      then show ?case using failed [OF 5(1,3)] m1 f2 \<open>world.more w2 = world.more w1\<close> by simp
    next
      case (4 w3)
      have "files w3 = (files w)(path_for out \<mapsto> hash @ raw)"
        using 4(2) f2 by (cases "raw = []") (auto simp: write_at_def)
      then show ?case using 4 holds_close [OF 4(1)] raw(2) m1 \<open>world.more w2 = world.more w1\<close>
        by (auto simp: save_post_def)
    qed
  qed
qed

lemma save_wp:
  assumes "wf_fds w" and "length hash = HASH_SIZE" and "cm_ok cm" and "countable_chunks (cm_chunk_count cm)"
    and rd: "ready b w (save_cost (cm_chunk_count cm) + m)"
  shows "wp b (PartialFile_save out hash cm) (save_post b out hash cm m w) w"
proof -
  have rd': "ready b w (Suc (HASH_SIZE + (bitmap_bytes (cm_chunk_count cm) + m)))"
    using rd by (simp add: save_cost_def add.assoc)
  show ?thesis unfolding PartialFile_save_def wp_bind
  proof (rule wp_open [OF assms(1) rd'], goal_cases)
    case (1 w')
    then show ?case by (auto simp: save_post_def wp_simps)
  next
    case (2 w1 fd)
    from save_try_wp [OF 2(2) _ 2(4) assms(2,3,4) 2(5)] 2(3) holds_lookup [OF 2(2)] show ?case
      by (simp add: wp_simps)
  qed
qed

section \<open>Properties\<close>

text \<open>The partial file lies beside its output file, never is that file, and different
  outputs have different partial files, so the resume states of two downloads do not mix.\<close>

theorem path_for_separates: "path_for p \<noteq> p \<and> (path_for p = path_for q \<longleftrightarrow> p = q)"
  using sibling_inject [of "''.embr.partial''" p q] by (auto simp: path_for_sibling sibling_other)


text \<open>Whatever bytes a partial file holds, loading it never throws and never reads out
  of range; it yields a bitmap only if the stored hash is that of the file at hand, the
  bitmap is all there and the output has exactly \<^verbatim>\<open>chunk_count * CHUNK_SIZE\<close> bytes, and
  then flag \<open>i\<close> is bit \<open>i\<close> of the stored bytes. Files and descriptors are as before.\<close>

theorem load_arbitrary:
  assumes "PartialFile_load out h n w = Some (r, w')"
    and "wf_fds w" and "length h = HASH_SIZE" and "countable_chunks n"
  shows "files w' = files w \<and> fds w' = fds w \<and> bad_closes w' = bad_closes w \<and>
    (r = Ok None \<or> (\<exists>cm c d. r = Ok (Some cm) \<and> files w (path_for out) = Some c \<and> take HASH_SIZE c = h \<and>
       files w out = Some d \<and> (word_of_nat (length d) :: u64) = ucast n * word_of_nat CHUNK_SIZE \<and>
       cm_chunk_count cm = n \<and> cm_ok cm \<and>
       (\<forall>i < unat n. i \<in> done_set cm \<longleftrightarrow> bit (c ! (HASH_SIZE + i div 8)) (i mod 8))))"
proof -
  have "load_post True out h n 0 w r w'"
    using wpD [OF load_wp [OF assms(2-4), of True 0 out] assms(1)] by simp
  then obtain x where x: "r = Ok x" "x = None \<or> x = resumable w out h n"
    "files w' = files w" "tidy w w'" by (auto simp: load_post_def)
  have "\<exists>c d. files w (path_for out) = Some c \<and> take HASH_SIZE c = h \<and>
       files w out = Some d \<and> (word_of_nat (length d) :: u64) = ucast n * word_of_nat CHUNK_SIZE \<and>
       cm_chunk_count cm = n \<and> cm_ok cm \<and>
       (\<forall>i < unat n. i \<in> done_set cm \<longleftrightarrow> bit (c ! (HASH_SIZE + i div 8)) (i mod 8))"
    if cm: "resumable w out h n = Some cm" for cm
  proof -
    from cm obtain c d where cd: "files w (path_for out) = Some c" "files w out = Some d"
      "take HASH_SIZE c = h" "HASH_SIZE + bitmap_bytes n \<le> length c"
      "(word_of_nat (length d) :: u64) = ucast n * word_of_nat CHUNK_SIZE"
      "cm = unpacked (region HASH_SIZE (bitmap_bytes n) c) n"
      by (auto simp: resumable_def split: option.splits if_splits)
    have "i \<in> done_set cm \<longleftrightarrow> bit (c ! (HASH_SIZE + i div 8)) (i mod 8)" if "i < unat n" for i
      using that cd(4,6) div8_less [OF that] bitmap_bytes [OF assms(4)]
      by (simp add: done_set_def unpacked_def bit_at_def region_def)
    then show ?thesis using cd by auto
  qed
  then show ?thesis using x by (cases x) (auto simp: tidy_def)
qed

text \<open>A download whose last chunk is not full is never resumed: the size test compares
  the output, which was allocated with the file's exact size, with a multiple of the chunk
  size.\<close>

theorem partial_tail_not_resumed:
  assumes "PartialFile_load out h n w = Some (r, w')"
    and "wf_fds w" and "length h = HASH_SIZE" and "countable_chunks n"
    and "files w out = Some d" and "length d < 2 ^ 64" and "length d mod CHUNK_SIZE \<noteq> 0"
  shows "r = Ok None"
proof -
  have "(word_of_nat (length d) :: u64) \<noteq> ucast n * word_of_nat CHUNK_SIZE"
  proof
    assume eq: "(word_of_nat (length d) :: u64) = ucast n * word_of_nat CHUNK_SIZE"
    have n: "unat n < 2 ^ 32" using unsigned_less [of n, where ?'a = nat] by simp
    then have "unat n * CHUNK_SIZE < 2 ^ 64" by (simp add: CHUNK_SIZE_def)
    moreover have "(ucast n :: u64) * word_of_nat CHUNK_SIZE = word_of_nat (unat n * CHUNK_SIZE)"
      by (simp only: of_nat_mult of_nat_unat)
    ultimately have w: "(word_of_nat (length d) :: u64) = word_of_nat (unat n * CHUNK_SIZE)"
      using eq by simp
    have "unat (word_of_nat k :: u64) = k" if "k < 2 ^ 64" for k
      using that by (simp add: unat_of_nat)
    from this [OF assms(6)] this [OF \<open>unat n * CHUNK_SIZE < 2 ^ 64\<close>]
    have "length d = unat n * CHUNK_SIZE" unfolding w by (rule trans [OF sym])
    then show False using assms(7) by simp
  qed
  with load_arbitrary [OF assms(1-4)] assms(5) show ?thesis by auto
qed

section \<open>Witnesses\<close>

definition three_full :: "string \<Rightarrow> u8 list option" where
  "three_full = [''o'' \<mapsto> replicate (3 * CHUNK_SIZE) 0, ''.o.embr.partial'' \<mapsto> replicate HASH_SIZE 9 @ [5]]"

lemma three_full [simp]: "three_full ''o'' = Some (replicate (3 * CHUNK_SIZE) 0)"
  by (simp add: three_full_def)

lemma three_full_size: "word_of_nat (3 * CHUNK_SIZE) = (ucast (3 :: u32) :: u64) * word_of_nat CHUNK_SIZE"
  by simp

lemma three_cost: "countable_chunks 3" "load_cost 3 \<le> 100" "save_cost 3 \<le> 100" "cm_chunk_count (ChunkManager 3) = 3"
  using cm.fresh_law [of 3] bitmap_bytes [of 3]
  by (simp_all add: countable_chunks_def load_cost_def save_cost_def HASH_SIZE_def)

lemma load_runs:
  "\<exists>r w'. PartialFile_load ''o'' (replicate HASH_SIZE 9) 3 (sample_world fs) = Some (r, w')"
proof -
  have "wp False (PartialFile_load ''o'' (replicate HASH_SIZE 9) 3)
      (load_post False ''o'' (replicate HASH_SIZE 9) 3 0 (sample_world fs)) (sample_world fs)"
    by (rule load_wp) (use three_cost in \<open>simp_all add: sample_ready\<close>)
  then show ?thesis by (auto simp: wp_total)
qed


lemma load_arbitrary_witness:
  "\<exists>r w'. PartialFile_load ''o'' (replicate HASH_SIZE 9) 3 (sample_world three_full) = Some (r, w') \<and>
     files w' = three_full \<and> bad_closes w' = 0"
proof -
  obtain r w' where run: "PartialFile_load ''o'' (replicate HASH_SIZE 9) 3 (sample_world three_full) = Some (r, w')"
    using load_runs by blast
  from load_arbitrary [OF this] three_cost(1) have "files w' = three_full \<and> bad_closes w' = bad_closes (sample_world three_full)"
    by simp
  then show ?thesis using run by (simp add: sample_world_def)
qed

lemma partial_tail_not_resumed_witness:
  "\<exists>w'. PartialFile_load ''o'' (replicate HASH_SIZE 9) 3 (sample_world [''o'' \<mapsto> [1, 2]]) = Some (Ok None, w')"
proof -
  obtain r w' where run: "PartialFile_load ''o'' (replicate HASH_SIZE 9) 3 (sample_world [''o'' \<mapsto> [1, 2]]) = Some (r, w')"
    using load_runs by blast
  have "r = Ok None"
    by (rule partial_tail_not_resumed [OF run, where d = "[1, 2]"])
      (use three_cost(1) in \<open>simp_all add: CHUNK_SIZE_def\<close>)
  then show ?thesis using run by simp
qed

end
