(* ===== verification/Pull.thy ===== *)
theory Pull
  imports Push Partial_File
begin

text \<open>
  The receiving side, \<^verbatim>\<open>core/pull.cpp\<close>: \<^verbatim>\<open>run_pull\<close> over any transport. Its stages are
  definitions of their own: opening the output (\<open>open_output\<close>), requesting
  (\<open>request_chunks\<close>), one pass of the receive loop (\<open>recv_chunk\<close>), and the end. Messages
  to the terminal and \<^verbatim>\<open>munmap\<close> are left out.
\<close>

section \<open>The code\<close>

text \<open>\<^verbatim>\<open>v[i]\<close> on a vector: undefined past the end.\<close>

definition vec_at :: "'a list \<Rightarrow> nat \<Rightarrow> 'a res" where
  "vec_at xs i = (if i < length xs then Ok (xs ! i) else Undef)"

text \<open>
  Resume without truncating, or fall back to a fresh file. The first result is the raw
  descriptor, the second the chunk manager in use from then on.
\<close>

definition open_output ::
  "string \<Rightarrow> chunk_manager option \<Rightarrow> u32 \<Rightarrow> ('e world_scheme, int \<times> chunk_manager) io" where
  "open_output out cm_opt cnt =
     (case cm_opt of
        Some cm \<Rightarrow>
          io_bind (sys (sys_open out False False)) (\<lambda>raw_fd.
            if raw_fd < 0
            then io_bind (sys (sys_open out True True)) (\<lambda>raw_fd. io_ret (raw_fd, ChunkManager cnt))
            else io_ret (raw_fd, cm))
      | None \<Rightarrow>
          io_bind (sys (sys_open out True True)) (\<lambda>raw_fd. io_ret (raw_fd, ChunkManager cnt)))"

definition request_chunks :: "'e world_scheme transport \<Rightarrow> u32 list \<Rightarrow> ('e world_scheme, unit) io" where
  "request_chunks t needed =
     io_bind (io_for needed (\<lambda>i. io_bind (io_lift (make_chunk_req \<lparr>req_index = i\<rparr>)) (send_msg t)))
       (\<lambda>_. send_msg t make_complete)"

text \<open>
  Hash the \<open>len\<close> bytes at \<open>off\<close> of the output through a mapping. Fewer mapped bytes than
  that means reading past the end of the file.
\<close>

definition hash_range :: "string \<Rightarrow> evp \<Rightarrow> int \<Rightarrow> nat \<Rightarrow> nat \<Rightarrow> ('e world_scheme, u8 list) io" where
  "hash_range err E fd off len =
     io_bind (sys (sys_mmap fd off len)) (\<lambda>m.
       case m of
         None \<Rightarrow> io_throw (Runtime_error err)
       | Some mapped \<Rightarrow> if length mapped < len then io_undef else io_lift (sha256_buf E mapped))"

definition recv_chunk ::
  "evp \<Rightarrow> 'e world_scheme transport \<Rightarrow> int \<Rightarrow> string \<Rightarrow> file_meta \<Rightarrow> chunk_manager \<Rightarrow> u32
     \<Rightarrow> ('e world_scheme, chunk_manager) io" where
  "recv_chunk E t fd out meta cm i =
     io_bind (recv_msg t) (\<lambda>hdr_msg.
       if m_type hdr_msg \<noteq> CHUNK_HDR
       then io_throw (Runtime_error ''run_pull: expected CHUNK_HDR for chunk '')
       else io_bind (io_lift (parse_chunk_hdr hdr_msg)) (\<lambda>hdr.
         if hdr_index hdr \<noteq> i
         then io_throw (Runtime_error ''run_pull: chunk index mismatch - expected '')
         else
           let off = unat (chunk_off i); len = unat (chunk_len (file_size meta) i) in
           io_bind (t_recv_file t fd off len) (\<lambda>_.
           io_bind (hash_range ''run_pull: mmap for verify failed at chunk '' E fd off len) (\<lambda>computed.
           io_bind (io_lift (vec_at (chunk_hashes meta) (unat i))) (\<lambda>expected.
           io_bind (io_lift (if computed = expected then mark_done cm i else mark_todo cm i)) (\<lambda>cm.
           io_bind (io_lift (vec_at (chunk_hashes meta) 0)) (\<lambda>file_hash.
           io_bind (PartialFile_save out file_hash cm) (\<lambda>_. io_ret cm))))))))"

text \<open>With the output open: allocate, request, receive, finish.\<close>

definition pull_chunks ::
  "evp \<Rightarrow> 'e world_scheme transport \<Rightarrow> int \<Rightarrow> string \<Rightarrow> file_meta \<Rightarrow> bool \<Rightarrow> chunk_manager
     \<Rightarrow> ('e world_scheme, unit) io" where
  "pull_chunks E t fd out meta fresh cm =
     io_bind
       (if fresh then
          io_bind (sys (sys_ftruncate fd (unat (file_size meta)))) (\<lambda>r.
            if r < 0 then io_throw (Runtime_error ''run_pull: failed to truncate file - '') else io_ret ())
        else io_ret ()) (\<lambda>_.
     let needed = needed_chunks cm in
     io_bind (request_chunks t needed) (\<lambda>_.
     io_bind (io_foldl (recv_chunk E t fd out meta) cm needed) (\<lambda>cm.
       if all_done cm then PartialFile_remove out else io_ret ())))"

text \<open>With the metadata in hand: find what to resume, open the output, transfer.\<close>

definition pull_file ::
  "evp \<Rightarrow> 'e world_scheme transport \<Rightarrow> string \<Rightarrow> file_meta \<Rightarrow> ('e world_scheme, unit) io" where
  "pull_file E t out meta =
     io_bind (io_lift (vec_at (chunk_hashes meta) 0)) (\<lambda>file_hash.
     io_bind (PartialFile_load out file_hash (chunk_count meta)) (\<lambda>cm_opt.
     io_bind (open_output out cm_opt (chunk_count meta)) (\<lambda>(raw_fd, cm).
       if raw_fd < 0 then io_throw (Runtime_error ''run_pull: failed to open file '')
       else io_bind (io_lift (SocketFd raw_fd)) (\<lambda>fd.
         with_fd fd (pull_chunks E t fd out meta (cm_opt = None) cm)))))"

definition run_pull :: "evp \<Rightarrow> 'e world_scheme transport \<Rightarrow> string \<Rightarrow> ('e world_scheme, unit) io" where
  "run_pull E t output_path =
     io_bind (io_bind (io_lift (make_handshake \<lparr>token = []\<rparr>)) (send_msg t)) (\<lambda>_.
     io_bind (recv_msg t) (\<lambda>meta_msg.
       if m_type meta_msg \<noteq> FILE_META then io_throw (Runtime_error ''run_pull: expected FILE_META'')
       else io_bind (io_lift (parse_filemeta meta_msg)) (\<lambda>meta.
         pull_file E t (if output_path = [] then file_name meta else output_path) meta)))"

section \<open>Chunks of a file\<close>

lemma io_bind_lift_Ok [simp]: "io_bind (io_lift (Ok x)) f = f x"
  by (rule ext) simp

lemma region_write_at_extends:
  "bs \<noteq> [] \<Longrightarrow> region off (length bs) (write_at f off bs) = bs \<and> off + length bs \<le> length (write_at f off bs)"
  by (auto simp: region_def write_at_def)

lemma region_write_at_disjoint:
  assumes "o2 + len \<le> length f" and "o2 + len \<le> off \<or> off + length bs \<le> o2"
  shows "region o2 len (write_at f off bs) = region o2 len f"
proof (cases "off + length bs \<le> length f \<or> bs = []")
  case True
  then show ?thesis using region_write_at_other [of off bs f o2 len] assms by auto
next
  case False
  then have "o2 + len \<le> off" "write_at f off bs = take off f @ replicate (off - length f) 0 @ bs"
    using assms by (auto simp: write_at_def)
  then show ?thesis using assms(1) by (auto simp: region_def drop_take min_def)
qed

lemma length_write_at_le: "length f \<le> length (write_at f off bs)"
  by (cases "bs = []") (simp_all add: length_write_at)

lemma chunks_determine:
  assumes "length c = length d" and "\<And>i. i < chunk_total (length d) \<Longrightarrow> chunk_of c i = chunk_of d i"
  shows "c = d"
proof (rule nth_equalityI [OF assms(1)])
  fix k assume k: "k < length c"
  let ?i = "k div CHUNK_SIZE"
  have i: "?i < chunk_total (length d)"
  proof -
    have "k + CHUNK_SIZE \<le> length d + CHUNK_SIZE - 1" using k assms(1) by simp
    then have "(k + CHUNK_SIZE) div CHUNK_SIZE \<le> (length d + CHUNK_SIZE - 1) div CHUNK_SIZE" by (rule div_le_mono)
    moreover have "(k + CHUNK_SIZE) div CHUNK_SIZE = Suc ?i" using CHUNK_SIZE_pos by (subst div_add_self2) simp_all
    ultimately have "Suc ?i \<le> (length d + CHUNK_SIZE - 1) div CHUNK_SIZE" by (simp only:)
    then show ?thesis by (simp add: chunk_total_def)
  qed
  have "x ! k = chunk_of x ?i ! (k mod CHUNK_SIZE)" if "k < length x" for x :: "u8 list"
  proof -
    have "k div CHUNK_SIZE * CHUNK_SIZE \<le> length x" using that div_times_less_eq_dividend [of k CHUNK_SIZE] by linarith
    then show ?thesis by (simp add: chunk_of_def region_def div_mult_mod_eq)
  qed
  then show "c ! k = d ! k" using assms(2) [OF i] k assms(1) by simp
qed

section \<open>Rules for the remaining calls\<close>

lemma wp_ftruncate:
  assumes "ready b w (Suc n)" and fd: "fds w fd = Some f" "files w (of_path f) = Some c"
    and fail: "\<And>w'. b \<or> 2 ^ 63 \<le> len \<Longrightarrow> same_os w w' \<Longrightarrow> later w w' \<Longrightarrow> world.more w' = world.more w \<Longrightarrow>
      Q (Ok (-1)) w'"
    and ok: "\<And>w'. len < 2 ^ 63 \<Longrightarrow> tidy w w' \<Longrightarrow> files w' = (files w)(of_path f \<mapsto> resize_to c len) \<Longrightarrow>
      world.more w' = world.more w \<Longrightarrow> ready b w' n \<Longrightarrow> Q (Ok 0) w'"
  shows "wp b (sys (sys_ftruncate fd len)) Q w"
proof (rule sys_next_cases [OF assms(1)])
  assume "sys_next w = None" "b"
  then show ?thesis by (simp add: wp_def sys_def sys_ftruncate_def)
next
  fix e w1 assume *: "sys_next w = Some (Fail e, w1)" "b" "same_os w w1" "world.more w1 = world.more w" "later w w1"
  have "Q (Ok (-1)) (w1\<lparr>errno := e\<rparr>)"
    by (rule fail) (use * in \<open>auto simp: later_def same_os_def\<close>)
  then show ?thesis using * by (simp add: wp_def sys_def sys_ftruncate_def)
next
  fix k w1 assume *: "sys_next w = Some (Xfer k, w1)" "same_os w w1" "world.more w1 = world.more w"
    "later w w1" "ready b w1 n"
  show ?thesis
  proof (cases "2 ^ 63 \<le> len")
    case True
    have "Q (Ok (-1)) (w1\<lparr>errno := EINVAL\<rparr>)"
      by (rule fail) (use * True in \<open>auto simp: later_def same_os_def\<close>)
    then show ?thesis using * True by (simp add: wp_def sys_def sys_ftruncate_def)
  next
    case False
    have w1: "fds w1 fd = Some f" "contents w1 (of_path f) = c" "files w1 = files w"
      using * fd by (simp_all add: same_os_def contents_def)
    have "Q (Ok 0) (w1\<lparr>files := (files w1)(of_path f \<mapsto> resize_to c len)\<rparr>)"
      by (rule ok) (use * False w1 in \<open>auto simp: tidy_def later_def same_os_def ready_def fair_def fuel_def\<close>)
    then show ?thesis using * False w1 by (simp add: wp_def sys_def sys_ftruncate_def)
  qed
qed

lemma wp_unlink:
  assumes "ready b w (Suc n)"
    and keep: "\<And>w'. b \<Longrightarrow> same_os w w' \<Longrightarrow> later w w' \<Longrightarrow> world.more w' = world.more w \<Longrightarrow> Q (Ok ()) w'"
    and ok: "\<And>w'. tidy w w' \<Longrightarrow> files w' = (files w)(p := None) \<Longrightarrow> world.more w' = world.more w \<Longrightarrow>
      ready b w' n \<Longrightarrow> Q (Ok ()) w'"
  shows "wp b (sys (sys_unlink p)) Q w"
proof (rule sys_next_cases [OF assms(1)])
  assume "sys_next w = None" "b"
  then show ?thesis by (simp add: wp_def sys_def sys_unlink_def)
next
  fix e w1 assume *: "sys_next w = Some (Fail e, w1)" "b" "same_os w w1" "world.more w1 = world.more w" "later w w1"
  have "Q (Ok ()) (w1\<lparr>errno := e\<rparr>)"
    by (rule keep) (use * in \<open>auto simp: later_def same_os_def\<close>)
  then show ?thesis using * by (simp add: wp_def sys_def sys_unlink_def)
next
  fix k w1 assume *: "sys_next w = Some (Xfer k, w1)" "same_os w w1" "world.more w1 = world.more w"
    "later w w1" "ready b w1 n"
  have "Q (Ok ()) (w1\<lparr>files := (files w1)(p := None)\<rparr>)"
    by (rule ok) (use * in \<open>auto simp: tidy_def later_def same_os_def ready_def fair_def fuel_def\<close>)
  then show ?thesis using * by (simp add: wp_def sys_def sys_unlink_def)
qed

section \<open>Receiving one chunk\<close>

definition chunk_pos :: "file_meta \<Rightarrow> u32 \<Rightarrow> nat \<times> nat" where
  "chunk_pos meta i = (unat (chunk_off i), unat (chunk_len (file_size meta) i))"

text \<open>The bytes that \<open>c\<close> has where chunk \<open>i\<close> belongs; \<open>good\<close> when they match the metadata.\<close>

definition part :: "file_meta \<Rightarrow> u8 list \<Rightarrow> u32 \<Rightarrow> u8 list" where
  "part meta c i = region (unat (chunk_off i)) (unat (chunk_len (file_size meta) i)) c"

definition whole_part :: "file_meta \<Rightarrow> u8 list \<Rightarrow> u32 \<Rightarrow> bool" where
  "whole_part meta c i \<longleftrightarrow> unat (chunk_off i) + unat (chunk_len (file_size meta) i) \<le> length c"

definition good :: "evp \<Rightarrow> file_meta \<Rightarrow> u8 list \<Rightarrow> u32 \<Rightarrow> bool" where
  "good E meta c i \<longleftrightarrow> whole_part meta c i \<and> sha256_buf E (part meta c i) = Ok (chunk_hashes meta ! unat i)"

definition recv_cost :: "u32 \<Rightarrow> nat" where
  "recv_cost cnt = (HEADER_SIZE + 4) + (2 * CHUNK_SIZE + 2) + 1 + save_cost cnt"

text \<open>Metadata that a receiver can act on: well formed and not of an absurd size.\<close>

definition meta_small :: "file_meta \<Rightarrow> bool" where
  "meta_small meta \<longleftrightarrow> filemeta_ok meta \<and> countable_chunks (chunk_count meta) \<and> 0 < chunk_count meta"

lemma meta_small_hash:
  "meta_small meta \<Longrightarrow> i < chunk_count meta \<Longrightarrow>
    vec_at (chunk_hashes meta) (unat i) = Ok (chunk_hashes meta ! unat i)"
  "meta_small meta \<Longrightarrow> vec_at (chunk_hashes meta) 0 = Ok (chunk_hashes meta ! 0) \<and> length (chunk_hashes meta ! 0) = HASH_SIZE"
  by (auto simp: meta_small_def vec_at_def filemeta_ok_def hash_ok_def word_less_nat_alt)

text \<open>What the puller works on: only these two files may change.\<close>

definition only_output :: "string \<Rightarrow> 'e world_scheme \<Rightarrow> 'e world_scheme \<Rightarrow> bool" where
  "only_output out w w' \<longleftrightarrow> tidy w w' \<and> (\<forall>q. q \<noteq> out \<longrightarrow> q \<noteq> path_for out \<longrightarrow> files w' q = files w q)"

lemma only_output_refl [simp]: "only_output out w w"
  by (simp add: only_output_def)

lemma only_output_trans: "only_output out w w1 \<Longrightarrow> only_output out w1 w2 \<Longrightarrow> only_output out w w2"
  by (auto simp: only_output_def intro: tidy_trans)

lemma only_output_same: "tidy w w' \<Longrightarrow> files w' = files w \<Longrightarrow> only_output out w w'"
  by (simp add: only_output_def)

definition saved :: "string \<Rightarrow> file_meta \<Rightarrow> chunk_manager \<Rightarrow> 'e world_scheme \<Rightarrow> bool" where
  "saved out meta cm w \<longleftrightarrow>
     (\<exists>raw. packed (bitmap cm) raw \<and> files w (path_for out) = Some (chunk_hashes meta ! 0 @ raw))"

context live_transport
begin

text \<open>
  One chunk received: bytes \<open>bs\<close> behind a header for \<open>i\<close> went to their place in the
  output, the flag of \<open>i\<close> tells whether they match, and the partial file was rewritten.
\<close>

definition received ::
  "evp \<Rightarrow> file_meta \<Rightarrow> string \<Rightarrow> u8 list \<Rightarrow> 'e world_scheme \<Rightarrow> chunk_manager \<Rightarrow> u32 \<Rightarrow> u8 list
     \<Rightarrow> chunk_manager \<Rightarrow> 'e world_scheme \<Rightarrow> bool" where
  "received E meta out c w cm i bs cm' w' \<longleftrightarrow>
     only_output out w w' \<and> tinv w' \<and> outbox w' = outbox w \<and>
     (\<exists>msg. msg_ok msg \<and> parse_chunk_hdr msg = Ok \<lparr>hdr_index = i\<rparr> \<and> inbox w = frame msg @ bs @ inbox w') \<and>
     length bs = unat (chunk_len (file_size meta) i) \<and> bs \<noteq> [] \<and>
     files w' out = Some (write_at c (unat (chunk_off i)) bs) \<and>
     cm_ok cm' \<and> cm_chunk_count cm' = cm_chunk_count cm \<and>
     (if sha256_buf E bs = Ok (chunk_hashes meta ! unat i)
      then done_set cm' = insert (unat i) (done_set cm) else done_set cm' = done_set cm - {unat i}) \<and>
     saved out meta cm' w'"

lemma hash_range_wp:
  assumes rd: "ready b w (Suc n)" and fd: "fds w fd = Some f" "files w (of_path f) = Some (write_at c off bs)"
    and len: "length bs = len" and "b \<or> bs \<noteq> [] \<and> (\<exists>h. sha256_buf E bs = Ok h)"
    and fail: "\<And>w' e. b \<Longrightarrow> same_os w w' \<Longrightarrow> later w w' \<Longrightarrow> Q (Throw e) w'"
    and ok: "\<And>w' h. bs \<noteq> [] \<Longrightarrow> same_os w w' \<Longrightarrow> later w w' \<Longrightarrow> world.more w' = world.more w \<Longrightarrow> ready b w' n \<Longrightarrow>
      sha256_buf E bs = Ok h \<Longrightarrow> Q (Ok h) w'"
  shows "wp b (hash_range err E fd off len) Q w"
proof (cases "bs = []")
  case True
  then have b: "b = True" using assms(5) by blast
  show ?thesis unfolding b hash_range_def wp_bind
  proof (rule wpI)
    fix r w' assume "sys (sys_mmap fd off len) w = Some (r, w')"
    then have "r = Ok None \<and> same_os w w' \<and> later w w'" using True len
      by (auto simp: sys_def sys_mmap_def sys_next_def same_os_def later_def split: option.splits list.splits sysret.splits
          intro!: exI [of _ 1])
    then show "on_ok (\<lambda>m. wp True (case m of
         None \<Rightarrow> io_throw (Runtime_error err)
       | Some mapped \<Rightarrow> if length mapped < len then io_undef else io_lift (sha256_buf E mapped)) Q) Q r w'"
      using fail b by (auto simp: wp_simps)
  qed
next
  case False
  have mapped: "region off len (write_at c off bs) = bs" using region_write_at_extends [OF False] len by simp
  show ?thesis unfolding hash_range_def wp_bind
  proof (rule wp_mmap [OF rd fd], goal_cases)
    case 1 then show ?case using False by (simp add: len [symmetric])
  next
    case (2 w')
    then show ?case using fail by (simp add: wp_simps)
  next
    case (3 w')
    show ?case
    proof (cases "sha256_buf E bs")
      case (Ok h)
      then show ?thesis using ok [OF False 3] len by (simp add: mapped wp_simps)
    next
      case (Throw e)
      then have b using assms(5) by auto
      then show ?thesis using fail [OF _ 3(1,2)] Throw len by (simp add: mapped wp_simps)
    qed (simp add: sha256_buf_not_Undef)
  qed
qed

end

context live_transport
begin

lemma mark_wp:
  assumes "meta_small meta" and "i < chunk_count meta" and "cm_ok cm" and "cm_chunk_count cm = chunk_count meta"
  shows "\<exists>cm'. (if g then mark_done cm i else mark_todo cm i) = Ok cm' \<and> cm_ok cm' \<and>
    cm_chunk_count cm' = cm_chunk_count cm \<and>
    done_set cm' = (if g then insert (unat i) (done_set cm) else done_set cm - {unat i})"
  using cm.done_law [of cm i] cm.todo_law [of cm i] assms by auto

lemma recv_chunk_wp:
  assumes inv: "tinv w" "wf_fds w" and fd: "fds w fd = Some f" "of_path f = out" "files w out = Some c"
    and meta: "meta_small meta" "i < chunk_count meta" and cm: "cm_ok cm" "cm_chunk_count cm = chunk_count meta"
    and rd: "ready b w (recv_cost (chunk_count meta) + n)"
    and src: "b \<or> (\<exists>bs s. inbox w = frame (hdr_msg i) @ bs @ s \<and> bs \<noteq> [] \<and>
      length bs = unat (chunk_len (file_size meta) i) \<and> (\<exists>h. sha256_buf E bs = Ok h))"
    and ok: "\<And>w' bs cm'. received E meta out c w cm i bs cm' w' \<Longrightarrow> ready b w' n \<Longrightarrow> Q (Ok cm') w'"
    and fail: "\<And>w' e. b \<Longrightarrow> only_output out w w' \<Longrightarrow> Q (Throw e) w'"
  shows "wp b (recv_chunk E t fd out meta cm i) Q w"
proof -
  note [simp] = wp_simps
  let ?off = "unat (chunk_off i)" and ?len = "unat (chunk_len (file_size meta) i)"
  let ?n2 = "1 + (save_cost (chunk_count meta) + n)"
  have hok: "msg_ok (hdr_msg i)" by (simp add: msg_ok_def unat_MAX_PAYLOAD_SIZE)
  have off63: "?off + ?len < 2 ^ 63"
    using unsigned_less [of i, where ?'a = nat] unat_chunk_len_le [of "file_size meta" i]
    by (simp add: unat_chunk_off CHUNK_SIZE_def)
  show ?thesis unfolding recv_chunk_def wp_bind
  proof (rule wp_recv_msg [OF inv(1), where k = 4 and n = "2 * CHUNK_SIZE + 2 + ?n2"], goal_cases)
    case 1
    show ?case by (rule ready_mono [OF rd]) (simp add: recv_cost_def)
  next
    case 2
    then show ?case using src hok by (metis hdr_msg_len(1) order_refl)
  next
    case (4 w' e)
    then show ?case using fail by (simp add: broken_def only_output_same)
  next
    case (3 w1 msg)
    have t1: "tinv w1" "tidy w w1" "files w1 = files w" "fds w1 = fds w" "inbox w = frame msg @ inbox w1" "outbox w1 = outbox w"
      using 3(2) moved_in_tidy [OF 3(2)] by (simp_all add: moved_in_def same_os_def)
    have quit: "b \<Longrightarrow> Q (Throw e) w1" for e using fail only_output_same [OF t1(2,3)] by blast
    have plen: "length (m_payload msg) < 2 ^ 63" using msg_ok_length [OF 3(1)] by simp
    have known: "b \<or> msg = hdr_msg i \<and> (\<exists>bs s. inbox w1 = bs @ s \<and> bs \<noteq> [] \<and> length bs = ?len \<and>
        (\<exists>h. sha256_buf E bs = Ok h))"
    proof (cases b)
      case False
      then obtain bs s where bs: "inbox w = frame (hdr_msg i) @ bs @ s" "bs \<noteq> []" "length bs = ?len"
        "\<exists>h. sha256_buf E bs = Ok h" using src by blast
      have "frame msg @ inbox w1 = frame (hdr_msg i) @ bs @ s" using bs(1) t1(5) by simp
      from frame_ok_prefix [OF this 3(1) hok] show ?thesis using bs(2-4) by blast
    qed simp
    have hdr: "b \<or> parse_chunk_hdr msg = Ok \<lparr>hdr_index = i\<rparr>"
      using known parse_chunk_hdr_iff [OF plen, of "\<lparr>hdr_index = i\<rparr>"] by (auto simp: hdr_msg_def)
    show ?case
    proof (cases "parse_chunk_hdr msg = Ok \<lparr>hdr_index = i\<rparr>")
      case False
      then have b using hdr by blast
      show ?thesis
      proof (cases "parse_chunk_hdr msg")
        case (Ok q)
        then have "hdr_index q \<noteq> i" using False by (cases q) auto
        then show ?thesis using quit \<open>b\<close> Ok by simp
      next
        case (Throw e)
        then show ?thesis using quit \<open>b\<close> by simp
      qed (use parse_no_Undef(4) [OF plen] in simp)
    next
      case p: True
      then have ty: "m_type msg = CHUNK_HDR" using parse_chunk_hdr_iff [OF plen] by blast
      have "wp b (io_bind (t_recv_file t fd ?off ?len) (\<lambda>_.
           io_bind (hash_range ''run_pull: mmap for verify failed at chunk '' E fd ?off ?len) (\<lambda>computed.
           io_bind (io_lift (vec_at (chunk_hashes meta) (unat i))) (\<lambda>expected.
           io_bind (io_lift (if computed = expected then mark_done cm i else mark_todo cm i)) (\<lambda>cm.
           io_bind (io_lift (vec_at (chunk_hashes meta) 0)) (\<lambda>file_hash.
           io_bind (PartialFile_save out file_hash cm) (\<lambda>_. io_ret cm))))))) Q w1" unfolding wp_bind
      proof (rule wp_recv_file [OF t1(1), where f = f and c = c and n = ?n2], goal_cases)
        case 1 then show ?case using fd t1(4) by simp
      next
        case 2 then show ?case using fd t1(3) by simp
      next
        case 3
        have "b \<or> ?len \<le> length (inbox w1)" using known by auto
        then show ?case using off63 by blast
      next
        case 4
        show ?case by (rule ready_mono [OF \<open>ready b w1 _\<close>]) (simp add: unat_chunk_len_le)
      next
        case (6 w2 e k)
        then have "only_output out w1 w2" using fd(2) by (simp add: only_output_def)
        then show ?case using fail [OF 6(1) only_output_trans [OF only_output_same [OF t1(2,3)]]] by simp
      next
        case (5 w2)
        define bs where "bs = take ?len (inbox w1)"
        have len: "length bs = ?len" using 5(3) by (simp add: bs_def)
        have f2: "fds w2 fd = Some f" "files w2 (of_path f) = Some (write_at c ?off bs)" "inbox w1 = bs @ inbox w2"
          using 5 fd t1(4) by (simp_all add: tidy_def bs_def)
        have "only_output out w1 w2" using 5(1,2) fd(2) by (simp add: only_output_def)
        then have o2: "only_output out w w2" by (rule only_output_trans [OF only_output_same [OF t1(2,3)]])
        have "bs = bs'" if "inbox w1 = bs' @ s" "length bs' = ?len" for bs' s using that by (simp add: bs_def)
        then have bs: "b \<or> bs \<noteq> [] \<and> (\<exists>h. sha256_buf E bs = Ok h)" using known by metis
        show ?case unfolding on_ok_simps wp_bind
        proof (rule hash_range_wp [OF _ f2(1,2) len bs, where n = "save_cost (chunk_count meta) + n"], goal_cases)
          case 1 then show ?case using 5(7) by simp
        next
          case (2 w3 e)
          then have "only_output out w2 w3" by (simp add: only_output_same tidy_same_os same_os_def)
          then show ?case using fail [OF 2(1) only_output_trans [OF o2]] by simp
        next
          case (3 w3 h)
          define g where "g \<longleftrightarrow> h = chunk_hashes meta ! unat i"
          obtain cm' where cm': "(if g then mark_done cm i else mark_todo cm i) = Ok cm'" "cm_ok cm'"
            "cm_chunk_count cm' = cm_chunk_count cm"
            "done_set cm' = (if g then insert (unat i) (done_set cm) else done_set cm - {unat i})"
            using mark_wp [OF meta cm] by blast
          have "only_output out w2 w3" "files w3 = files w2"
            using 3(2,3) by (simp_all add: only_output_same tidy_same_os same_os_def)
          then have o3: "only_output out w w3" "files w3 = files w2" by (auto intro: only_output_trans [OF o2])
          have wf3: "wf_fds w3" using o3(1) inv(2) wf_fds_tidy by (auto simp: only_output_def)
          note H = meta_small_hash(1) [OF meta] meta_small_hash(2) [OF meta(1)]
          have cnt: "cm_chunk_count cm' = chunk_count meta" using cm'(3) cm(2) by simp
          have cc: "countable_chunks (cm_chunk_count cm')" using meta(1) cnt by (simp add: meta_small_def)
          have rd3: "ready b w3 (save_cost (cm_chunk_count cm') + n)" using 3(5) cnt by simp
          have "wp b (PartialFile_save out (chunk_hashes meta ! 0) cm') (on_ok (\<lambda>_. wp b (io_ret cm') Q) Q) w3"
          proof (rule wp_mono [OF save_wp [OF wf3 _ cm'(2) cc rd3]], goal_cases)
            case 1 then show ?case using H(2) by simp
          next
            case (2 r w4)
            then have o4: "only_output out w3 w4" "files w4 out = files w3 out" "world.more w4 = world.more w3"
              by (simp_all add: save_post_def only_output_def) (metis path_for_other)
            have o: "only_output out w w4" by (rule only_output_trans [OF o3(1) o4(1)])
            show ?case
            proof (cases r)
              case (Ok u)
              have own: "inbox w4 = inbox w2 \<and> outbox w4 = outbox w2 \<and> tinv w4 = tinv w2"
                by (rule own_state) (use o4(3) 3(4) in simp)
              have "received E meta out c w cm i bs cm' w4" unfolding received_def
              proof (intro conjI)
                show "\<exists>msg. msg_ok msg \<and> parse_chunk_hdr msg = Ok \<lparr>hdr_index = i\<rparr> \<and>
                    inbox w = frame msg @ bs @ inbox w4"
                  using \<open>msg_ok msg\<close> p t1(5) f2(3) own by auto
                show "if sha256_buf E bs = Ok (chunk_hashes meta ! unat i)
                  then done_set cm' = insert (unat i) (done_set cm) else done_set cm' = done_set cm - {unat i}"
                  using cm'(4) 3(6) by (simp add: g_def)
                show "saved out meta cm' w4" using 2 Ok by (simp add: save_post_def saved_def)
              qed (use o own 5(5,6) t1(6) len 3(1) o4(2) o3(2) f2(2) fd(2) cm' in auto)
              then show ?thesis using ok 2 Ok by (simp add: save_post_def)
            next
              case (Throw e)
              then have b using 2 by (simp add: save_post_def)
              then show ?thesis using fail o Throw by simp
            qed (use 2 in \<open>simp add: save_post_def\<close>)
          qed
          then show ?case using cm'(1) H by (simp add: g_def)
        qed
      qed
      then show ?thesis using p ty by (simp add: Let_def)
    qed
  qed
qed

end

section \<open>The receive loop\<close>

lemma part_write_other:
  assumes "i \<noteq> j" and "whole_part meta c j" and "length bs = unat (chunk_len (file_size meta) i)"
  shows "part meta (write_at c (unat (chunk_off i)) bs) j = part meta c j"
  unfolding part_def
proof (rule region_write_at_disjoint)
  show "unat (chunk_off j) + unat (chunk_len (file_size meta) j) \<le> length c"
    using assms(2) by (simp add: whole_part_def)
  have li: "unat (chunk_len (file_size meta) i) \<le> CHUNK_SIZE" and lj: "unat (chunk_len (file_size meta) j) \<le> CHUNK_SIZE"
    by (rule unat_chunk_len_le)+
  have "unat i \<noteq> unat j" using assms(1) by (simp add: word_unat_eq_iff)
  then consider "Suc (unat j) \<le> unat i" | "Suc (unat i) \<le> unat j" by linarith
  then show "unat (chunk_off j) + unat (chunk_len (file_size meta) j) \<le> unat (chunk_off i) \<or>
      unat (chunk_off i) + length bs \<le> unat (chunk_off j)"
  proof cases
    case 1
    then have "Suc (unat j) * CHUNK_SIZE \<le> unat i * CHUNK_SIZE" by (rule mult_le_mono1)
    then show ?thesis using lj by (simp add: unat_chunk_off)
  next
    case 2
    then have "Suc (unat i) * CHUNK_SIZE \<le> unat j * CHUNK_SIZE" by (rule mult_le_mono1)
    then show ?thesis using li assms(3) by (simp add: unat_chunk_off)
  qed
qed

lemma whole_part_write: "whole_part meta c j \<Longrightarrow> whole_part meta (write_at c off bs) j"
  unfolding whole_part_def by (rule order_trans [OF _ length_write_at_le])

lemma part_write_same:
  assumes "length bs = unat (chunk_len (file_size meta) i)" and "bs \<noteq> []"
  shows "part meta (write_at c (unat (chunk_off i)) bs) i = bs" "whole_part meta (write_at c (unat (chunk_off i)) bs) i"
  using region_write_at_extends [OF assms(2), of "unat (chunk_off i)" c] assms(1)
  by (simp_all add: part_def whole_part_def)

text \<open>What the chunks \<open>ds\<close> received so far did to the output, the flags and the partial file.\<close>

definition updated ::
  "evp \<Rightarrow> file_meta \<Rightarrow> u8 list \<Rightarrow> chunk_manager \<Rightarrow> u32 list \<Rightarrow> u8 list \<Rightarrow> chunk_manager \<Rightarrow> bool" where
  "updated E meta c cm ds c' cm' \<longleftrightarrow> cm_ok cm' \<and> cm_chunk_count cm' = cm_chunk_count cm \<and>
     (\<forall>i. if i \<in> set ds then whole_part meta c' i \<and> (unat i \<in> done_set cm' \<longleftrightarrow> good E meta c' i)
          else (unat i \<in> done_set cm' \<longleftrightarrow> unat i \<in> done_set cm) \<and>
            (whole_part meta c i \<longrightarrow> whole_part meta c' i \<and> part meta c' i = part meta c i)) \<and>
     ((\<forall>i \<in> set ds. whole_part meta c i) \<longrightarrow> length c' = length c)"

lemma updated_refl: "cm_ok cm \<Longrightarrow> updated E meta c cm [] c cm"
  by (simp add: updated_def)

lemma updated_step:
  assumes u: "updated E meta c cm ds c1 cm1" and "i \<notin> set ds"
    and len: "length bs = unat (chunk_len (file_size meta) i)" "bs \<noteq> []"
    and cm2: "cm_ok cm2" "cm_chunk_count cm2 = cm_chunk_count cm1"
      "if sha256_buf E bs = Ok (chunk_hashes meta ! unat i)
       then done_set cm2 = insert (unat i) (done_set cm1) else done_set cm2 = done_set cm1 - {unat i}"
  shows "updated E meta c cm (ds @ [i]) (write_at c1 (unat (chunk_off i)) bs) cm2"
proof -
  let ?c2 = "write_at c1 (unat (chunk_off i)) bs"
  have u1: "\<And>j. if j \<in> set ds then whole_part meta c1 j \<and> (unat j \<in> done_set cm1 \<longleftrightarrow> good E meta c1 j)
          else (unat j \<in> done_set cm1 \<longleftrightarrow> unat j \<in> done_set cm) \<and>
            (whole_part meta c j \<longrightarrow> whole_part meta c1 j \<and> part meta c1 j = part meta c j)"
    and ul: "(\<forall>j \<in> set ds. whole_part meta c j) \<longrightarrow> length c1 = length c"
    and uc: "cm_chunk_count cm1 = cm_chunk_count cm"
    using u by (auto simp: updated_def)
  have flag: "unat j \<in> done_set cm2 \<longleftrightarrow> unat j \<in> done_set cm1" if "j \<noteq> i" for j
  proof -
    have "unat j \<noteq> unat i" using that by (simp add: word_unat_eq_iff)
    then show ?thesis using cm2(3) by (simp split: if_splits)
  qed
  have "if j \<in> set (ds @ [i]) then whole_part meta ?c2 j \<and> (unat j \<in> done_set cm2 \<longleftrightarrow> good E meta ?c2 j)
          else (unat j \<in> done_set cm2 \<longleftrightarrow> unat j \<in> done_set cm) \<and>
            (whole_part meta c j \<longrightarrow> whole_part meta ?c2 j \<and> part meta ?c2 j = part meta c j)" for j
  proof (cases "j = i")
    case True
    then show ?thesis using part_write_same [OF len] cm2(3) by (simp add: good_def split: if_splits)
  next
    case False
    have g: "good E meta ?c2 j = good E meta c1 j" if "whole_part meta c1 j"
      using that part_write_other [OF False [symmetric] that len(1)] whole_part_write by (simp add: good_def)
    show ?thesis using u1 [of j] flag [OF False] g False part_write_other [OF False [symmetric] _ len(1)] whole_part_write
      by (auto split: if_splits)
  qed
  moreover have "length ?c2 = length c" if "\<forall>j \<in> set (ds @ [i]). whole_part meta c j"
  proof -
    have "length c1 = length c" "whole_part meta c i" using ul that by simp_all
    then show ?thesis using len by (simp add: whole_part_def)
  qed
  ultimately show ?thesis using cm2 uc by (simp add: updated_def del: set_append)
qed

context live_transport
begin

text \<open>What the peer must still send: the chunks \<open>is\<close> of \<open>data\<close>, each hashable.\<close>

definition owed :: "evp \<Rightarrow> file_meta \<Rightarrow> u8 list \<Rightarrow> u32 list \<Rightarrow> u8 list \<Rightarrow> 'e world_scheme \<Rightarrow> bool" where
  "owed E meta data is s w \<longleftrightarrow> inbox w = concat (map (answer data (file_size meta)) is) @ s \<and>
     (\<forall>i \<in> set is. whole_part meta data i \<and> part meta data i \<noteq> [] \<and> (\<exists>h. sha256_buf E (part meta data i) = Ok h))"

definition pull_inv ::
  "bool \<Rightarrow> evp \<Rightarrow> file_meta \<Rightarrow> string \<Rightarrow> u8 list \<Rightarrow> chunk_manager \<Rightarrow> u8 list \<Rightarrow> u8 list \<Rightarrow> u32 list \<Rightarrow> 'e world_scheme
     \<Rightarrow> u32 list \<Rightarrow> chunk_manager \<Rightarrow> 'e world_scheme \<Rightarrow> bool" where
  "pull_inv b E meta out c cm data s needed w xs cm' w' \<longleftrightarrow>
     only_output out w w' \<and> tinv w' \<and> outbox w' = outbox w \<and>
     (\<exists>ds c'. needed = ds @ xs \<and> files w' out = Some c' \<and> updated E meta c cm ds c' cm' \<and>
        (ds \<noteq> [] \<longrightarrow> saved out meta cm' w') \<and> (ds = [] \<longrightarrow> files w' = files w) \<and>
        (b \<or> owed E meta data xs s w' \<and> (\<forall>i \<in> set ds. part meta c' i = part meta data i)))"

lemma pull_loop_wp:
  assumes inv: "tinv w" "wf_fds w" and fd: "fds w fd = Some f" "of_path f = out" "files w out = Some c"
    and meta: "meta_small meta" and cm: "cm_ok cm" "cm_chunk_count cm = chunk_count meta"
    and needed: "distinct needed" "\<forall>i \<in> set needed. i < chunk_count meta"
    and rd: "ready b w (length needed * recv_cost (chunk_count meta) + n)"
    and src: "b \<or> owed E meta data needed s w"
    and ok: "\<And>w' cm'. pull_inv b E meta out c cm data s needed w [] cm' w' \<Longrightarrow> ready b w' n \<Longrightarrow> Q (Ok cm') w'"
    and fail: "\<And>w' e. b \<Longrightarrow> only_output out w w' \<Longrightarrow> Q (Throw e) w'"
  shows "wp b (io_foldl (recv_chunk E t fd out meta) cm needed) Q w"
proof (rule wp_foldl [where I = "\<lambda>xs cm' w'. pull_inv b E meta out c cm data s needed w xs cm' w' \<and>
      ready b w' (length xs * recv_cost (chunk_count meta) + n)"], goal_cases)
  case 1
  show ?case using assms updated_refl [OF cm(1)] by (auto simp: pull_inv_def)
next
  case (2 i ys cm1 w1)
  then obtain ds c1 where I: "only_output out w w1" "tinv w1" "outbox w1 = outbox w" "needed = ds @ i # ys"
      "files w1 out = Some c1" "updated E meta c cm ds c1 cm1"
      "b \<or> owed E meta data (i # ys) s w1 \<and> (\<forall>i \<in> set ds. part meta c1 i = part meta data i)"
    by (auto simp: pull_inv_def)
  have "wf_fds w1" "fds w1 fd = Some f" using I(1) wf_fds_tidy [OF inv(2)] fd(1) by (auto simp: only_output_def tidy_def)
  show ?case
  proof (rule recv_chunk_wp [OF I(2) \<open>wf_fds w1\<close> \<open>fds w1 fd = Some f\<close> fd(2) I(5) meta,
        where n = "length ys * recv_cost (chunk_count meta) + n"], goal_cases)
    case 1 then show ?case using needed(2) I(4) by simp
  next
    case 2 then show ?case using I(6) by (simp add: updated_def)
  next
    case 3 then show ?case using I(6) cm(2) by (simp add: updated_def)
  next
    case 4
    show ?case by (rule ready_mono [of b w1 "length (i # ys) * recv_cost (chunk_count meta) + n"])
      (use 2 in simp_all)
  next
    case 5
    show ?case
    proof (cases b)
      case False
      then have "inbox w1 = frame (hdr_msg i) @ part meta data i @ (concat (map (answer data (file_size meta)) ys) @ s)"
        "part meta data i \<noteq> []" "\<exists>h. sha256_buf E (part meta data i) = Ok h" "whole_part meta data i"
        using I(7) by (auto simp: owed_def answer_def part_def)
      moreover from this(4) have "length (part meta data i) = unat (chunk_len (file_size meta) i)"
        by (simp add: part_def whole_part_def)
      ultimately show ?thesis by blast
    qed simp
  next
    case (7 w2 e)
    then show ?case using fail only_output_trans [OF I(1)] by simp
  next
    case (6 w2 bs cm2)
    note R = 6(1) [unfolded received_def]
    have nd: "i \<notin> set ds" using needed(1) I(4) by auto
    let ?c2 = "write_at c1 (unat (chunk_off i)) bs"
    have U: "updated E meta c cm (ds @ [i]) ?c2 cm2"
      by (rule updated_step [OF I(6) nd]) (use R in blast)+
    have honest: "b \<or> owed E meta data ys s w2 \<and> (\<forall>j \<in> set (ds @ [i]). part meta ?c2 j = part meta data j)"
    proof (cases b)
      case False
      obtain msg where msg: "msg_ok msg" "inbox w1 = frame msg @ bs @ inbox w2" using R by blast
      let ?s = "part meta data i @ (concat (map (answer data (file_size meta)) ys) @ s)"
      have o: "inbox w1 = frame (hdr_msg i) @ ?s" "whole_part meta data i"
        using I(7) False by (auto simp: owed_def answer_def part_def)
      have "frame msg @ bs @ inbox w2 = frame (hdr_msg i) @ ?s" using msg(2) o(1) by simp
      from frame_ok_prefix [OF this msg(1)] have "bs @ inbox w2 = ?s"
        by (simp add: msg_ok_def unat_MAX_PAYLOAD_SIZE)
      moreover have "length bs = length (part meta data i)" using R o(2) by (simp add: part_def whole_part_def)
      ultimately have bs: "bs = part meta data i" "inbox w2 = concat (map (answer data (file_size meta)) ys) @ s" by simp_all
      have "part meta ?c2 j = part meta data j" if "j \<in> set ds" for j
      proof -
        have "whole_part meta c1 j" using I(6) that by (auto simp: updated_def)
        moreover have "i \<noteq> j" using that nd by blast
        ultimately show ?thesis using part_write_other R I(7) False that by metis
      qed
      then show ?thesis using bs I(7) False R part_write_same(1) by (auto simp: owed_def)
    qed simp
    show ?case unfolding on_ok_simps
    proof (rule conjI [OF _ 6(2)])
      show "pull_inv b E meta out c cm data s needed w ys cm2 w2"
        unfolding pull_inv_def
        using only_output_trans [OF I(1)] R I(3,4) U honest
        by (intro conjI exI [of _ "ds @ [i]"] exI [of _ ?c2]) auto
    qed
  qed
next
  case (3 cm' w')
  then show ?case using ok by simp
qed

end

section \<open>Around the loop\<close>

definition target :: "string \<Rightarrow> file_meta \<Rightarrow> string" where
  "target output_path meta = (if output_path = [] then file_name meta else output_path)"

text \<open>
  How a download begins: resumed from what is on disk, with an empty file and no flag set,
  or (the output gone between the size test and the open) with an empty file that is not
  allocated. \<open>opened\<close> is the state after \<open>open_output\<close>, \<open>begun\<close> that after the allocation.
\<close>

definition opened ::
  "bool \<Rightarrow> string \<Rightarrow> file_meta \<Rightarrow> 'e world_scheme \<Rightarrow> chunk_manager option \<Rightarrow> u8 list \<Rightarrow> chunk_manager \<Rightarrow> bool" where
  "opened b out meta w cm_opt c cm \<longleftrightarrow>
     (cm_opt = None \<and> (b \<or> resumable w out (chunk_hashes meta ! 0) (chunk_count meta) = None) \<and>
        c = [] \<and> cm = ChunkManager (chunk_count meta)) \<or>
     (cm_opt = resumable w out (chunk_hashes meta ! 0) (chunk_count meta) \<and> cm_opt = Some cm \<and> files w out = Some c) \<or>
     (b \<and> cm_opt = resumable w out (chunk_hashes meta ! 0) (chunk_count meta) \<and> cm_opt \<noteq> None \<and>
        c = [] \<and> cm = ChunkManager (chunk_count meta))"

definition begun ::
  "bool \<Rightarrow> string \<Rightarrow> file_meta \<Rightarrow> 'e world_scheme \<Rightarrow> u8 list \<Rightarrow> chunk_manager \<Rightarrow> bool" where
  "begun b out meta w c cm \<longleftrightarrow>
     (\<exists>cm_opt c0. opened b out meta w cm_opt c0 cm \<and>
        c = (if cm_opt = None then resize_to c0 (unat (file_size meta)) else c0))"

definition pulled ::
  "bool \<Rightarrow> evp \<Rightarrow> file_meta \<Rightarrow> string \<Rightarrow> u8 list \<Rightarrow> chunk_manager \<Rightarrow> u8 list \<Rightarrow> 'e world_scheme \<Rightarrow> bool" where
  "pulled b E meta out c cm c' w' \<longleftrightarrow> files w' out = Some c' \<and>
     (\<exists>cm'. updated E meta c cm (needed_chunks cm) c' cm' \<and>
        (if all_done cm' then b \<or> files w' (path_for out) = None
         else needed_chunks cm \<noteq> [] \<longrightarrow> saved out meta cm' w'))"

definition pull_cost :: "u32 \<Rightarrow> nat \<Rightarrow> nat" where
  "pull_cost cnt k = 1 + ((k * (HEADER_SIZE + 4) + HEADER_SIZE) + (k * recv_cost cnt + 1))"

context live_transport
begin

lemma send_requests_wp:
  assumes "tinv w" and rd: "ready b w (length xs * (HEADER_SIZE + 4) + n)"
    and ok: "\<And>w'. moved_out w (concat (map (\<lambda>i. frame (req_msg i)) xs)) w' \<Longrightarrow> ready b w' n \<Longrightarrow> Q (Ok ()) w'"
    and fail: "\<And>w' e. b \<Longrightarrow> broken w w' \<Longrightarrow> Q (Throw e) w'"
  shows "wp b (io_for xs (\<lambda>i. io_bind (io_lift (make_chunk_req \<lparr>req_index = i\<rparr>)) (send_msg t))) Q w"
  using assms
proof (induction xs arbitrary: w)
  case Nil
  then show ?case using moved_out_refl by (simp add: wp_simps)
next
  case (Cons i xs)
  have "wp b (send_msg t (req_msg i))
      (on_ok (\<lambda>_. wp b (io_for xs (\<lambda>i. io_bind (io_lift (make_chunk_req \<lparr>req_index = i\<rparr>)) (send_msg t))) Q) Q) w"
  proof (rule wp_send_msg [OF Cons.prems(1), where n = "length xs * (HEADER_SIZE + 4) + n"], goal_cases)
    case 1 then show ?case by (simp add: req_msg_def)
  next
    case 2
    show ?case by (rule ready_mono [OF Cons.prems(2)]) (simp add: req_msg_def)
  next
    case (3 w1)
    then have "tinv w1" by (simp add: moved_out_def)
    then show ?case unfolding on_ok_simps
    proof (rule Cons.IH [OF _ 3(2)], goal_cases)
      case (1 w')
      have "moved_out w (concat (map (\<lambda>i. frame (req_msg i)) (i # xs))) w'"
        using moved_out_trans [OF 3(1) 1(1)] by simp
      then show ?case using Cons.prems(3) 1(2) by blast
    next
      case (2 w' e)
      then have "broken w w'" using moved_out_tidy [OF 3(1)] 3(1)
        by (auto simp: broken_def moved_out_def same_os_def intro: tidy_trans)
      then show ?case using Cons.prems(4) 2(1) by blast
    qed
  next
    case (4 w' e)
    then show ?case using Cons.prems(4) by simp
  qed
  then show ?case by (simp add: wp_simps req_msg_def)
qed

lemma request_chunks_wp:
  assumes "tinv w" and rd: "ready b w (length xs * (HEADER_SIZE + 4) + HEADER_SIZE + n)"
    and ok: "\<And>w'. moved_out w (requests xs) w' \<Longrightarrow> ready b w' n \<Longrightarrow> Q (Ok ()) w'"
    and fail: "\<And>w' e. b \<Longrightarrow> broken w w' \<Longrightarrow> Q (Throw e) w'"
  shows "wp b (request_chunks t xs) Q w"
  unfolding request_chunks_def wp_bind
proof (rule send_requests_wp [OF assms(1), where n = "HEADER_SIZE + n"], goal_cases)
  case 1
  then show ?case using rd by (simp add: add.assoc)
next
  case (2 w1)
  then have t1: "tinv w1" by (simp add: moved_out_def)
  show ?case unfolding on_ok_simps
  proof (rule wp_send_msg [OF t1, where n = n], goal_cases)
    case 1 then show ?case by (simp add: make_complete_def)
  next
    case 2 then show ?case using \<open>ready b w1 _\<close> by (simp add: make_complete_def)
  next
    case (3 w')
    have "moved_out w (requests xs) w'" using moved_out_trans [OF 2(1) 3(1)] by (simp add: requests_def)
    then show ?case using ok 3(2) by blast
  next
    case (4 w' e)
    then have "broken w w'" using moved_out_tidy [OF 2(1)] 2(1)
      by (auto simp: broken_def moved_out_def same_os_def intro: tidy_trans)
    then show ?case using fail 4(1) by simp
  qed
next
  case (3 w' e)
  then show ?case using fail by simp
qed

lemma pull_chunks_wp:
  assumes inv: "tinv w" "wf_fds w" and fd: "fds w fd = Some f" "of_path f = out" "files w out = Some c0"
    and meta: "meta_small meta" and cm: "cm_ok cm" "cm_chunk_count cm = chunk_count meta"
    and c: "c = (if fresh then resize_to c0 (unat (file_size meta)) else c0)"
    and rd: "ready b w (pull_cost (chunk_count meta) (length (needed_chunks cm)) + n)"
    and src: "b \<or> owed E meta data (needed_chunks cm) s w \<and> unat (file_size meta) < 2 ^ 63"
    and ok: "\<And>w' c'. only_output out w w' \<Longrightarrow> pulled b E meta out c cm c' w' \<Longrightarrow>
      outbox w' = outbox w @ requests (needed_chunks cm) \<Longrightarrow>
      b \<or> inbox w' = s \<and> (\<forall>i \<in> set (needed_chunks cm). part meta c' i = part meta data i) \<Longrightarrow>
      b \<or> ready b w' n \<Longrightarrow> Q (Ok ()) w'"
    and fail: "\<And>w' e. b \<Longrightarrow> only_output out w w' \<Longrightarrow> Q (Throw e) w'"
  shows "wp b (pull_chunks E t fd out meta fresh cm) Q w"
proof -
  note [simp] = wp_simps
  let ?needed = "needed_chunks cm" and ?cnt = "chunk_count meta"
  let ?n1 = "(length ?needed * (HEADER_SIZE + 4) + HEADER_SIZE) + (length ?needed * recv_cost ?cnt + Suc n)"
  have nd: "distinct ?needed" "\<forall>i \<in> set ?needed. i < ?cnt"
    using cm.needed_law [OF cm(1)] cm(2) by (auto simp: word_less_nat_alt)
  have rest: "wp b (io_bind (request_chunks t ?needed) (\<lambda>_.
     io_bind (io_foldl (recv_chunk E t fd out meta) cm ?needed) (\<lambda>cm.
       if all_done cm then PartialFile_remove out else io_ret ()))) Q w1"
    if t1: "only_output out w w1" "fds w1 fd = Some f" "files w1 out = Some c"
      and m1: "world.more w1 = world.more w" and rd1: "ready b w1 ?n1" for w1
  proof -
    have own: "inbox w1 = inbox w \<and> outbox w1 = outbox w \<and> tinv w1 = tinv w" by (rule own_state) (rule m1)
    then have tv: "tinv w1" using inv(1) by simp
    show ?thesis unfolding wp_bind
    proof (rule request_chunks_wp [OF tv rd1], goal_cases)
      case (2 w' e)
      then show ?case using fail only_output_trans [OF t1(1)] by (simp add: broken_def only_output_same)
    next
      case (1 w2)
      have t2: "tinv w2" "tidy w1 w2" "files w2 = files w1" "fds w2 = fds w1" "inbox w2 = inbox w1"
        "outbox w2 = outbox w1 @ requests ?needed"
        using 1(1) moved_out_tidy [OF 1(1)] by (simp_all add: moved_out_def same_os_def)
      have o2: "only_output out w w2" by (rule only_output_trans [OF t1(1) only_output_same [OF t2(2,3)]])
      have wf2: "wf_fds w2" using o2 wf_fds_tidy [OF inv(2)] by (simp add: only_output_def)
      have f2: "fds w2 fd = Some f" "files w2 out = Some c" using t1 t2 by simp_all
      have "owed E meta data ?needed s w2 = owed E meta data ?needed s w" using own t2(5) by (simp add: owed_def)
      then have src2: "b \<or> owed E meta data ?needed s w2" using src by blast
      show ?case unfolding on_ok_simps wp_bind
      proof (rule pull_loop_wp [OF t2(1) wf2 f2(1) fd(2) f2(2) meta cm nd 1(2) src2], goal_cases)
        case (2 w3 e)
        then show ?case using fail only_output_trans [OF o2] by simp
      next
        case (1 w3 cm')
        then obtain c' where c': "files w3 out = Some c'" "updated E meta c cm ?needed c' cm'"
          "?needed \<noteq> [] \<longrightarrow> saved out meta cm' w3"
          "b \<or> inbox w3 = s \<and> (\<forall>i \<in> set ?needed. part meta c' i = part meta data i)"
          and o3: "only_output out w w3" "outbox w3 = outbox w @ requests ?needed"
          using only_output_trans [OF o2] t2(6) own by (auto simp: pull_inv_def owed_def)
        show ?case
        proof (cases "all_done cm'")
          case False
          have "pulled b E meta out c cm c' w3" using c' False by (auto simp: pulled_def)
          moreover have "ready b w3 n" by (rule ready_mono [OF 1(2)]) simp
          ultimately show ?thesis using ok [OF o3(1)] o3(2) c'(4) False by simp
        next
          case True
          have "wp b (sys (sys_unlink (path_for out))) Q w3"
          proof (rule wp_unlink [OF 1(2)], goal_cases)
            case (1 w4)
            have own4: "inbox w4 = inbox w3 \<and> outbox w4 = outbox w3 \<and> tinv w4 = tinv w3" by (rule own_state) (rule 1(4))
            have o4: "only_output out w w4" "files w4 = files w3"
              using 1(2,3) only_output_trans [OF o3(1)] by (simp_all add: only_output_same tidy_same_os same_os_def)
            have "pulled b E meta out c cm c' w4" using c' True o4 1(1) by (auto simp: pulled_def)
            then show ?case using ok [OF o4(1)] own4 o3(2) c'(4) 1(1) by simp
          next
            case (2 w4)
            have own4: "inbox w4 = inbox w3 \<and> outbox w4 = outbox w3 \<and> tinv w4 = tinv w3" by (rule own_state) (rule 2(3))
            have "only_output out w3 w4" using 2(1,2) by (simp add: only_output_def)
            then have o4: "only_output out w w4" by (rule only_output_trans [OF o3(1)])
            have "files w4 out = Some c'" "files w4 (path_for out) = None"
              using 2(2) c'(1) path_for_other [of out] by (simp_all add: not_sym)
            then have "pulled b E meta out c cm c' w4" using c' True by (auto simp: pulled_def)
            then show ?case using ok [OF o4] own4 o3(2) c'(4) 2(4) by simp
          qed
          then show ?thesis using True by (simp add: PartialFile_remove_def)
        qed
      qed
    qed
  qed
  have rd': "ready b w (Suc ?n1)" using rd by (simp add: pull_cost_def add.assoc)
  show ?thesis
  proof (cases fresh)
    case False
    have "ready b w ?n1" by (rule ready_mono [OF rd']) simp
    then show ?thesis using rest [of w] fd c False by (simp add: pull_chunks_def Let_def)
  next
    case True
    have f0: "files w (of_path f) = Some c0" using fd by simp
    have "wp b (io_bind (sys (sys_ftruncate fd (unat (file_size meta)))) (\<lambda>r.
            if r < 0 then io_throw (Runtime_error ''run_pull: failed to truncate file - '') else io_ret ()))
        (on_ok (\<lambda>_. wp b (io_bind (request_chunks t ?needed) (\<lambda>_.
     io_bind (io_foldl (recv_chunk E t fd out meta) cm ?needed) (\<lambda>cm.
       if all_done cm then PartialFile_remove out else io_ret ()))) Q) Q) w"
    proof (subst wp_bind, rule wp_ftruncate [OF rd' fd(1) f0], goal_cases)
      case (1 w1)
      then have b using src by auto
      moreover have "only_output out w w1" using 1 by (simp add: only_output_same tidy_same_os same_os_def)
      ultimately show ?case using fail by simp
    next
      case (2 w1)
      then have "only_output out w w1" "files w1 out = Some c" "fds w1 fd = Some f"
        using fd c True by (simp_all add: only_output_def tidy_def)
      from rest [OF this(1,3,2) 2(4,5)] show ?case
        by (simp only: on_ok_simps less_irrefl if_False wp_return(1))
    qed
    then show ?thesis using True by (simp add: pull_chunks_def Let_def)
  qed
qed

end

section \<open>A whole pull\<close>

lemma opened_cm:
  assumes "opened b out meta w cm_opt c cm" and "countable_chunks (chunk_count meta)"
  shows "cm_ok cm \<and> cm_chunk_count cm = chunk_count meta"
proof -
  have "cm_ok (ChunkManager (chunk_count meta)) \<and> cm_chunk_count (ChunkManager (chunk_count meta)) = chunk_count meta"
    using cm.fresh_law by blast
  moreover have "cm_ok x \<and> cm_chunk_count x = chunk_count meta"
    if "resumable w out (chunk_hashes meta ! 0) (chunk_count meta) = Some x" for x
    using that by (auto simp: resumable_def split: option.splits if_splits)
  ultimately show ?thesis using assms(1) unfolding opened_def by metis
qed

lemma open_output_wp:
  assumes wf: "wf_fds w" and rd: "ready b w (2 + n)"
    and opt: "cm_opt = resumable w out (chunk_hashes meta ! 0) (chunk_count meta) \<or> b \<and> cm_opt = None"
    and fail: "\<And>w' cm. b \<Longrightarrow> only_output out w w' \<Longrightarrow> Q (Ok (-1, cm)) w'"
    and ok: "\<And>w' fd c cm. holds fd \<lparr>of_path = out, of_pos = 0\<rparr> w w' \<Longrightarrow> files w' out = Some c \<Longrightarrow>
      \<forall>q. q \<noteq> out \<longrightarrow> files w' q = files w q \<Longrightarrow> opened b out meta w cm_opt c cm \<Longrightarrow>
      world.more w' = world.more w \<Longrightarrow> ready b w' n \<Longrightarrow> Q (Ok (fd, cm)) w'"
  shows "wp b (open_output out cm_opt (chunk_count meta)) Q w"
proof -
  note [simp] = wp_simps
  have fresh: "wp b (io_bind (sys (sys_open out True True)) (\<lambda>raw_fd. io_ret (raw_fd, ChunkManager (chunk_count meta)))) Q w1"
    if w1: "tidy w w1" "files w1 = files w" "world.more w1 = world.more w" "ready b w1 (Suc n)"
      and o: "opened b out meta w cm_opt [] (ChunkManager (chunk_count meta))" for w1
    unfolding wp_bind
  proof (rule wp_open [OF wf_fds_tidy [OF wf w1(1)] w1(4)], goal_cases)
    case (1 w')
    then have "only_output out w w'" using w1 by (simp add: only_output_same) (metis only_output_same tidy_trans)
    then show ?case using fail 1(1) by simp
  next
    case (2 w' fd)
    show ?case
      using ok [OF tidy_holds [OF w1(1) 2(2)] _ _ o] 2(3-5) w1 by simp
  qed
  show ?thesis
  proof (cases cm_opt)
    case None
    have "ready b w (Suc n)" by (rule ready_mono [OF rd]) simp
    then show ?thesis using fresh [of w] opt None by (auto simp: open_output_def opened_def)
  next
    case (Some cm)
    then have res: "resumable w out (chunk_hashes meta ! 0) (chunk_count meta) = Some cm" using opt by auto
    then obtain d where d: "files w out = Some d" by (auto simp: resumable_def split: option.splits)
    have rd': "ready b w (Suc (Suc n))" using rd by simp
    have "wp b (io_bind (sys (sys_open out False False)) (\<lambda>raw_fd.
            if raw_fd < 0
            then io_bind (sys (sys_open out True True)) (\<lambda>raw_fd. io_ret (raw_fd, ChunkManager (chunk_count meta)))
            else io_ret (raw_fd, cm))) Q w"
    proof (subst wp_bind, rule wp_open [OF wf rd'], goal_cases)
      case (1 w1)
      then have b using d by simp
      then have "opened b out meta w cm_opt [] (ChunkManager (chunk_count meta))" using Some res by (simp add: opened_def)
      from fresh [OF 1(2-5) this] show ?case by simp
    next
      case (2 w1 fd)
      have "0 \<le> fd" using holds_lookup [OF 2(2)] by simp
      moreover have "opened b out meta w cm_opt d cm" using Some res d by (simp add: opened_def)
      moreover have "files w1 = files w" using 2(3) d by (auto simp: contents_def)
      moreover have "ready b w1 n" by (rule ready_mono [OF 2(5)]) simp
      ultimately show ?case using ok [OF 2(2)] 2(4) d by simp
    qed
    then show ?thesis using Some by (simp add: open_output_def)
  qed
qed

lemma meta_small_of_msg:
  assumes "msg_ok msg" and "parse_filemeta msg = Ok meta"
  shows "filemeta_ok meta \<and> countable_chunks (chunk_count meta)"
proof -
  have "length (m_payload msg) < 2 ^ 63" using msg_ok_length [OF assms(1)] by simp
  then obtain s where s: "filemeta_ok meta" "m_payload msg = filemeta_enc meta @ s"
    using parse_filemeta_sound [OF _ assms(2)] by blast
  have "length (m_payload msg) \<le> 67108864" using assms(1) by (simp add: msg_ok_def unat_MAX_PAYLOAD_SIZE)
  then have "unat (chunk_count meta) * HASH_SIZE \<le> 67108864"
    using s(2) length_filemeta_enc [OF s(1)] by simp
  then show ?thesis using s(1) by (simp add: countable_chunks_def HASH_SIZE_def)
qed

definition start_cm :: "'e world_scheme \<Rightarrow> string \<Rightarrow> file_meta \<Rightarrow> chunk_manager" where
  "start_cm w out meta =
     (case resumable w out (chunk_hashes meta ! 0) (chunk_count meta) of
        None \<Rightarrow> ChunkManager (chunk_count meta) | Some cm \<Rightarrow> cm)"

lemma opened_start: "opened False out meta w cm_opt c cm \<Longrightarrow> cm = start_cm w out meta"
  by (auto simp: opened_def start_cm_def)

lemma part_described:
  assumes "describes meta data" and "i < chunk_count meta"
  shows "part meta data i = chunk_of data (unat i)" "whole_part meta data i" "part meta data i \<noteq> []"
proof -
  have i: "unat i < chunk_total (length data)" and sz: "unat (file_size meta) = length data"
    using assms by (simp_all add: describes_def word_less_nat_alt)
  note R = chunk_region [OF sz i]
  show "part meta data i = chunk_of data (unat i)" using R(4) by (simp add: part_def)
  show "whole_part meta data i" using R(3) by (simp add: whole_part_def)
  then show "part meta data i \<noteq> []" using R(2) unfolding part_def whole_part_def
    by (metis length_0_conv length_region_le not_less_zero)
qed

definition run_pull_cost :: "file_meta \<Rightarrow> nat \<Rightarrow> nat" where
  "run_pull_cost meta k = (HEADER_SIZE + 4) + ((HEADER_SIZE + length (filemeta_enc meta)) +
     (load_cost (chunk_count meta) + (2 + pull_cost (chunk_count meta) k)))"

context live_transport
begin

lemma pull_file_wp:
  assumes inv: "tinv w" "wf_fds w" and meta: "meta_small meta"
    and rd: "ready b w (load_cost (chunk_count meta) + (2 +
      (pull_cost (chunk_count meta) (length (needed_chunks (start_cm w out meta))) + n)))"
    and src: "b \<or> owed E meta data (needed_chunks (start_cm w out meta)) s w \<and> unat (file_size meta) < 2 ^ 63"
    and ok: "\<And>w' c cm c'. only_output out w w' \<Longrightarrow> begun b out meta w c cm \<Longrightarrow> pulled b E meta out c cm c' w' \<Longrightarrow>
      outbox w' = outbox w @ requests (needed_chunks cm) \<Longrightarrow>
      b \<or> cm = start_cm w out meta \<and> inbox w' = s \<and> (\<forall>i \<in> set (needed_chunks cm). part meta c' i = part meta data i) \<Longrightarrow>
      b \<or> ready b w' n \<Longrightarrow> Q (Ok ()) w'"
    and fail: "\<And>w' e. b \<Longrightarrow> only_output out w w' \<Longrightarrow> Q (Throw e) w'"
  shows "wp b (pull_file E t out meta) Q w"
proof -
  let ?cnt = "chunk_count meta" and ?h = "chunk_hashes meta ! 0"
  let ?k = "length (needed_chunks (start_cm w out meta))"
  have h: "vec_at (chunk_hashes meta) 0 = Ok ?h" "length ?h = HASH_SIZE" using meta_small_hash(2) [OF meta] by simp_all
  have cc: "countable_chunks ?cnt" using meta by (simp add: meta_small_def)
  show ?thesis unfolding pull_file_def h(1) io_bind_lift_Ok
  proof (subst wp_bind, rule wp_mono [OF load_wp [OF inv(2) h(2) cc rd]], goal_cases)
    case (1 r w1)
    then obtain opt where r: "r = Ok opt" and opt: "opt = resumable w out ?h ?cnt \<or> b \<and> opt = None"
      and t1: "tidy w w1" "files w1 = files w" "world.more w1 = world.more w"
      and rd1: "ready b w1 (2 + (pull_cost ?cnt ?k + n))" by (auto simp: load_post_def)
    have res: "resumable w1 out ?h ?cnt = resumable w out ?h ?cnt" using t1(2) by (simp add: resumable_def cong: option.case_cong)
    have op: "opened b out meta w1 = opened b out meta w" using res t1(2) by (intro ext) (simp add: opened_def)
    have own1: "inbox w1 = inbox w \<and> outbox w1 = outbox w \<and> tinv w1 = tinv w" by (rule own_state) (rule t1(3))
    show ?case unfolding r on_ok_simps
    proof (subst wp_bind, rule open_output_wp [OF wf_fds_tidy [OF inv(2) t1(1)] rd1, where cm_opt = opt], goal_cases)
      case 1
      show ?case using opt res by simp
    next
      case (2 w2 cm)
      then show ?case using fail only_output_trans [OF only_output_same [OF t1(1,2)]] by (simp add: wp_simps)
    next
      case (3 w2 fd c0 cm)
      have opn: "opened b out meta w opt c0 cm" using 3(4) op by simp
      have cm: "cm_ok cm" "cm_chunk_count cm = ?cnt" using opened_cm [OF opn cc] by simp_all
      have h2: "holds fd \<lparr>of_path = out, of_pos = 0\<rparr> w w2" using tidy_holds [OF t1(1) 3(1)] .
      have lk: "fds w2 fd = Some \<lparr>of_path = out, of_pos = 0\<rparr>" "0 \<le> fd" using holds_lookup [OF h2] by simp_all
      have own2: "inbox w2 = inbox w1 \<and> outbox w2 = outbox w1 \<and> tinv w2 = tinv w1" by (rule own_state) (rule 3(5))
      have tv: "tinv w2" using own1 own2 inv(1) by simp
      have start: "b \<or> cm = start_cm w out meta" using opn opened_start by (cases b) auto
      define c where "c = (if opt = None then resize_to c0 (unat (file_size meta)) else c0)"
      have bg: "begun b out meta w c cm" using opn by (auto simp: begun_def c_def)
      have closed: "only_output out w (sys_close fd w')" if "only_output out w2 w'" for w'
        using that holds_close [OF holds_tidy [OF h2]] 3(3) t1(2) by (simp add: only_output_def)
      have own3: "inbox (sys_close fd w') = inbox w' \<and> outbox (sys_close fd w') = outbox w'" for w'
        using own_state [of "sys_close fd w'" w'] by simp
      have "wp b (pull_chunks E t fd out meta (opt = None) cm) (\<lambda>r w'. Q r (sys_close fd w')) w2"
      proof (rule pull_chunks_wp [OF tv holds_wf [OF inv(2) h2] lk(1) _ 3(2) meta cm c_def, where n = n and s = s and data = data],
             goal_cases)
        case 1 then show ?case by simp
      next
        case 2
        then show ?case using 3(6) start by (cases b) auto
      next
        case 3
        then show ?case using src start own1 own2 by (cases b) (auto simp: owed_def)
      next
        case (4 w' c')
        show ?case
        proof (rule ok [OF closed [OF 4(1)] bg])
          show "pulled b E meta out c cm c' (sys_close fd w')" using 4(2) by (simp only: pulled_def saved_def sys_close_simps)
        qed (use 4(3-5) own1 own2 own3 start in auto)
      next
        case (5 w' e)
        then show ?case using fail closed by simp
      qed
      then show ?case using lk(2) by (simp add: with_fd_def wp_simps SocketFd_def)
    qed
  qed
qed

lemma run_pull_wp:
  assumes inv: "tinv w" "wf_fds w"
    and rd: "ready b w (run_pull_cost meta0 (length (needed_chunks (start_cm w (target output_path meta0) meta0))) + n)"
    and src: "b \<or> describes meta0 data \<and> msg_ok (meta_msg meta0) \<and> data \<noteq> [] \<and> length data < 2 ^ 63 \<and>
      hashed E data (chunk_hashes meta0) \<and>
      inbox w = answers data meta0 (needed_chunks (start_cm w (target output_path meta0) meta0)) @ s"
    and ok: "\<And>w' msg meta s' c cm c'. msg_ok msg \<Longrightarrow> parse_filemeta msg = Ok meta \<Longrightarrow> inbox w = frame msg @ s' \<Longrightarrow>
      meta_small meta \<Longrightarrow> only_output (target output_path meta) w w' \<Longrightarrow>
      begun b (target output_path meta) meta w c cm \<Longrightarrow> pulled b E meta (target output_path meta) c cm c' w' \<Longrightarrow>
      outbox w' = outbox w @ frame (hs_msg []) @ requests (needed_chunks cm) \<Longrightarrow>
      b \<or> meta = meta0 \<and> cm = start_cm w (target output_path meta) meta \<and> inbox w' = s \<and>
        (\<forall>i \<in> set (needed_chunks cm). part meta c' i = part meta data i) \<Longrightarrow> Q (Ok ()) w'"
    and fail: "\<And>w' e out. b \<Longrightarrow> output_path \<noteq> [] \<longrightarrow> out = output_path \<Longrightarrow> only_output out w w' \<Longrightarrow> Q (Throw e) w'"
    and undef: "\<And>w' msg meta s'. b \<Longrightarrow> inbox w = frame msg @ s' \<Longrightarrow> parse_filemeta msg = Ok meta \<Longrightarrow>
      chunk_count meta = 0 \<Longrightarrow> broken w w' \<Longrightarrow> Q Undef w'"
  shows "wp b (run_pull E t output_path) Q w"
proof -
  let ?k = "length (needed_chunks (start_cm w (target output_path meta0) meta0))"
  let ?n1 = "(HEADER_SIZE + length (filemeta_enc meta0)) + (load_cost (chunk_count meta0) +
      (2 + (pull_cost (chunk_count meta0) ?k + n)))"
  have hs: "make_handshake \<lparr>token = []\<rparr> = Ok (hs_msg [])"
    by (simp add: make_handshake_Ok str_ok_def hs_msg_def)
  have quit: "Q (Throw e) w'" if "b" "broken w w'" for e w'
    using fail [OF that(1), of output_path w' e] that(2) by (simp add: broken_def only_output_same)
  show ?thesis unfolding run_pull_def hs io_bind_lift_Ok
  proof (subst wp_bind, rule wp_send_msg [OF inv(1), where n = ?n1], goal_cases)
    case 1 then show ?case by (simp add: hs_msg_def)
  next
    case 2
    show ?case by (rule ready_mono [OF rd]) (simp add: run_pull_cost_def hs_msg_def)
  next
    case (4 w' e) then show ?case using quit by simp
  next
    case (3 w1)
    have t1: "tinv w1" "tidy w w1" "files w1 = files w" "inbox w1 = inbox w" "outbox w1 = outbox w @ frame (hs_msg [])"
      using 3(1) moved_out_tidy [OF 3(1)] by (simp_all add: moved_out_def same_os_def)
    show ?case unfolding on_ok_simps
    proof (subst wp_bind, rule wp_recv_msg [OF t1(1) 3(2)], goal_cases)
      case 1
      then show ?case using src t1(4) by (auto simp: answers_def meta_msg_def)
    next
      case (3 w' e)
      then have "broken w w'" using t1 by (auto simp: broken_def intro: tidy_trans)
      then show ?case using quit 3(1) by simp
    next
      case (2 w2 msg)
      have t2: "tinv w2" "tidy w w2" "files w2 = files w" "outbox w2 = outbox w @ frame (hs_msg [])"
        "inbox w = frame msg @ inbox w2"
        using 2(2) moved_in_tidy [OF 2(2)] t1 by (auto simp: moved_in_def same_os_def intro: tidy_trans)
      have br: "broken w w2" using t2 by (simp add: broken_def)
      have plen: "length (m_payload msg) < 2 ^ 63" using msg_ok_length [OF 2(1)] by simp
      have known: "parse_filemeta msg = Ok meta0 \<and> chunk_count meta0 \<noteq> 0 \<and> owed E meta0 data
          (needed_chunks (start_cm w (target output_path meta0) meta0)) s w2 \<and> unat (file_size meta0) < 2 ^ 63" if "\<not> b"
      proof -
        let ?nd = "needed_chunks (start_cm w (target output_path meta0) meta0)"
        have S: "describes meta0 data" "msg_ok (meta_msg meta0)" "data \<noteq> []" "length data < 2 ^ 63"
          "hashed E data (chunk_hashes meta0)" "inbox w = answers data meta0 ?nd @ s" using src that by blast+
        have "frame msg @ inbox w2 = frame (meta_msg meta0) @ concat (map (answer data (file_size meta0)) ?nd) @ s"
          using t2(5) S(6) by (simp add: answers_def)
        from frame_ok_prefix [OF this 2(1) S(2)] have m: "msg = meta_msg meta0"
          "inbox w2 = concat (map (answer data (file_size meta0)) ?nd) @ s" by simp_all
        have D: "filemeta_ok meta0" "unat (chunk_count meta0) = chunk_total (length data)" "unat (file_size meta0) = length data"
          using S(1) by (simp_all add: describes_def)
        have p: "parse_filemeta msg = Ok meta0"
          using parse_filemeta_complete [of msg meta0 "[]"] plen D(1) m(1) by (simp add: meta_msg_def)
        have "cm_chunk_count (start_cm w (target output_path meta0) meta0) = chunk_count meta0 \<and>
            cm_ok (start_cm w (target output_path meta0) meta0)"
          using cm.fresh_law by (auto simp: start_cm_def resumable_def split: option.splits if_splits)
        then have nd: "\<forall>i \<in> set ?nd. i < chunk_count meta0" using cm.needed_law by (force simp: word_less_nat_alt)
        have "\<exists>h. sha256_buf E (part meta0 data i) = Ok h" if "i < chunk_count meta0" for i
          using S(5) D(2) that part_described(1) [OF S(1) that] by (auto simp: hashed_def word_less_nat_alt)
        then have "owed E meta0 data ?nd s w2" using m(2) nd part_described [OF S(1)] by (auto simp: owed_def)
        moreover have "chunk_count meta0 \<noteq> 0" using D(2) S(3) chunk_total_pos by (metis length_greater_0_conv not_less_zero unsigned_0)
        ultimately show ?thesis using p D(3) S(4) by simp
      qed
      note rd2 = 2(3)
      show ?case
      proof (cases "parse_filemeta msg")
        case Undef
        then show ?thesis
          using parse_no_Undef(1) [OF plen] by simp
      next
        case (Throw e)
        then have b using known by (cases b) simp_all
        then show ?thesis
          using Throw quit [OF _ br] by (simp add: wp_simps)
      next
        case (Ok meta)
        have ty: "m_type msg = FILE_META" using parse_filemeta_sound [OF plen Ok] by blast
        let ?out = "target output_path meta"
        note small = meta_small_of_msg [OF 2(1) Ok]
        have "wp b (pull_file E t ?out meta) Q w2"
        proof (cases "chunk_count meta = 0")
          case True
          then have b using known Ok by (cases b) auto
          moreover have "vec_at (chunk_hashes meta) 0 = Undef" using small True by (simp add: vec_at_def filemeta_ok_def)
          ultimately show ?thesis using undef [OF _ t2(5) Ok True br] by (simp add: pull_file_def wp_simps)
        next
          case False
          then have ms: "meta_small meta" using small by (simp add: meta_small_def word_neq_0_conv)
          have st: "start_cm w2 out m = start_cm w out m" for out m using t2(3) by (simp add: start_cm_def resumable_def cong: option.case_cong)
          have bgn: "begun b out m w2 = begun b out m w" for out m
            using t2(3) by (intro ext) (simp add: begun_def opened_def resumable_def cong: option.case_cong)
          have m0: "\<not> b \<Longrightarrow> meta = meta0" using known Ok by simp
          have o2: "only_output out w w2" for out by (rule only_output_same [OF t2(2,3)])
          show ?thesis
          proof (rule pull_file_wp [OF t2(1) _ ms, where n = n and data = data and s = s], goal_cases)
            case 1 then show ?case using wf_fds_tidy [OF inv(2) t2(2)] .
          next
            case 2
            then show ?case using rd2 m0 st by (cases b) auto
          next
            case 3
            then show ?case using known m0 st by (cases b) auto
          next
            case (5 w' e)
            then show ?case using fail [OF 5(1), of ?out] only_output_trans [OF o2] by (simp add: target_def)
          next
            case (4 w' c cm c')
            show ?case
              by (rule ok [OF \<open>msg_ok msg\<close> Ok t2(5) ms only_output_trans [OF o2 4(1)] 4(2) [unfolded bgn] 4(3)])
                (use 4(4,5) t2(4) st m0 in auto)
          qed
        qed
        then show ?thesis
          using Ok ty by (simp add: Let_def target_def)
      qed
    qed
  qed
qed

end

end
