(* ===== verification/Tcp_Transport.thy ===== *)
theory Tcp_Transport
  imports Pull
begin

text \<open>
  \<^verbatim>\<open>transport/tcp_transport.cpp\<close>: \<^verbatim>\<open>send\<close>/\<^verbatim>\<open>recv\<close> on a stream socket, \<^verbatim>\<open>sendfile\<close> from a
  file, and \<^verbatim>\<open>splice\<close> from the socket through a lazily created pipe into a file. The
  world is extended by the connection: the bytes of the peer not yet taken off the
  socket, the bytes handed to the socket, and the pipe. The socket and the pipe
  descriptors belong to the connection alone and are not in the descriptor table.

  \<open>TcpTransport\<close> is shown to be a \<open>live_transport\<close>, so everything proved over that
  contract holds of TCP connections.
\<close>

record tcp_world = world +
  sock_in :: "u8 list"
  sock_out :: "u8 list"
  pipe_open :: bool
  pipe_buf :: "u8 list"

section \<open>System calls on the connection\<close>

text \<open>What a call that is granted \<open>n\<close> of \<open>len\<close> bytes takes: at least one, if there is one.\<close>

definition granted :: "nat \<Rightarrow> nat \<Rightarrow> u8 list \<Rightarrow> u8 list" where
  "granted n len xs = take (min (max 1 n) len) xs"

lemma granted_prefix: "granted n len xs @ drop (length (granted n len xs)) xs = xs"
  by (simp add: granted_def min_def)

lemma granted_le: "length (granted n len xs) \<le> len"
  by (simp add: granted_def)

lemma granted_exact: "0 < n \<Longrightarrow> granted n len xs = take (min n len) xs"
  by (simp add: granted_def max_def Suc_le_eq)

definition sys_sock_send :: "u8 list \<Rightarrow> ('e tcp_world_scheme, int) raw" where
  "sys_sock_send buf w =
     (case sys_next w of
        None \<Rightarrow> None
      | Some (Fail e, w1) \<Rightarrow> Some (-1, w1\<lparr>errno := e\<rparr>)
      | Some (Xfer n, w1) \<Rightarrow>
          Some (int (length (take n buf)), w1\<lparr>sock_out := sock_out w1 @ take n buf\<rparr>))"

text \<open>At the end of the peer's bytes the connection is closed and \<^verbatim>\<open>recv\<close> returns 0.\<close>

definition sys_sock_recv :: "nat \<Rightarrow> ('e tcp_world_scheme, int \<times> u8 list) raw" where
  "sys_sock_recv len w =
     (case sys_next w of
        None \<Rightarrow> None
      | Some (Fail e, w1) \<Rightarrow> Some ((-1, []), w1\<lparr>errno := e\<rparr>)
      | Some (Xfer n, w1) \<Rightarrow>
          (let bs = granted n len (sock_in w1)
           in Some ((int (length bs), bs), w1\<lparr>sock_in := drop (length bs) (sock_in w1)\<rparr>)))"

definition sys_sendfile :: "int \<Rightarrow> nat \<Rightarrow> nat \<Rightarrow> ('e tcp_world_scheme, int) raw" where
  "sys_sendfile fd off len w =
     (case sys_next w of
        None \<Rightarrow> None
      | Some (Fail e, w1) \<Rightarrow> Some (-1, w1\<lparr>errno := e\<rparr>)
      | Some (Xfer n, w1) \<Rightarrow>
          (if off \<ge> 2 ^ 63 then Some (-1, w1\<lparr>errno := EINVAL\<rparr>)
           else case fds w1 fd of
             None \<Rightarrow> Some (-1, w1\<lparr>errno := EBADF\<rparr>)
           | Some f \<Rightarrow>
               (let bs = region off (min n len) (contents w1 (of_path f))
                in Some (int (length bs), w1\<lparr>sock_out := sock_out w1 @ bs\<rparr>))))"

definition sys_pipe :: "('e tcp_world_scheme, int) raw" where
  "sys_pipe w =
     (case sys_next w of
        None \<Rightarrow> None
      | Some (Fail e, w1) \<Rightarrow> Some (-1, w1\<lparr>errno := e\<rparr>)
      | Some (Xfer _, w1) \<Rightarrow> Some (0, w1\<lparr>pipe_open := True\<rparr>))"

text \<open>\<^verbatim>\<open>splice\<close> into the pipe, and out of it to a file; an empty pipe blocks the reader.\<close>

definition sys_splice_in :: "nat \<Rightarrow> ('e tcp_world_scheme, int) raw" where
  "sys_splice_in len w =
     (case sys_next w of
        None \<Rightarrow> None
      | Some (Fail e, w1) \<Rightarrow> Some (-1, w1\<lparr>errno := e\<rparr>)
      | Some (Xfer n, w1) \<Rightarrow>
          (let bs = granted n len (sock_in w1)
           in Some (int (length bs),
                w1\<lparr>sock_in := drop (length bs) (sock_in w1), pipe_buf := pipe_buf w1 @ bs\<rparr>)))"

definition sys_splice_out :: "int \<Rightarrow> nat \<Rightarrow> nat \<Rightarrow> ('e tcp_world_scheme, int) raw" where
  "sys_splice_out fd off len w =
     (case sys_next w of
        None \<Rightarrow> None
      | Some (Fail e, w1) \<Rightarrow> Some (-1, w1\<lparr>errno := e\<rparr>)
      | Some (Xfer n, w1) \<Rightarrow>
          (if off \<ge> 2 ^ 63 then Some (-1, w1\<lparr>errno := EINVAL\<rparr>)
           else if pipe_buf w1 = [] then None
           else case fds w1 fd of
             None \<Rightarrow> Some (-1, w1\<lparr>errno := EBADF\<rparr>)
           | Some f \<Rightarrow>
               (let bs = granted n len (pipe_buf w1)
                in Some (int (length bs),
                     w1\<lparr>files := (files w1)(of_path f \<mapsto> write_at (contents w1 (of_path f)) off bs),
                        pipe_buf := drop (length bs) (pipe_buf w1)\<rparr>))))"

section \<open>The class\<close>

definition tcp_send :: "u8 list \<Rightarrow> 'e tcp_world_scheme \<Rightarrow> (int res \<times> 'e tcp_world_scheme) option" where
  "tcp_send buf = sys (sys_sock_send buf)"

definition tcp_recv :: "nat \<Rightarrow> 'e tcp_world_scheme \<Rightarrow> ((int \<times> u8 list) res \<times> 'e tcp_world_scheme) option" where
  "tcp_recv len = sys (sys_sock_recv len)"

partial_function (option) tcp_send_file_loop ::
  "int \<Rightarrow> nat \<Rightarrow> nat \<Rightarrow> 'e tcp_world_scheme \<Rightarrow> (unit res \<times> 'e tcp_world_scheme) option" where
  "tcp_send_file_loop file_fd offset remain w =
     (if remain > 0 then
        Option.bind (sys_sendfile file_fd offset remain w) (\<lambda>(sent, w').
          if sent < 0 then
            (if errno w' = EINTR then tcp_send_file_loop file_fd offset remain w'
             else Some (Throw (Runtime_error ''TcpTransport::send_file: sendfile failed: ''), w'))
          else if sent = 0 then
            Some (Throw (Runtime_error ''TcpTransport::send_file: connection closed''), w')
          else tcp_send_file_loop file_fd (offset + nat sent) (remain - nat sent) w')
      else Some (Ok (), w))"

definition tcp_send_file :: "int \<Rightarrow> nat \<Rightarrow> nat \<Rightarrow> 'e tcp_world_scheme \<Rightarrow> (unit res \<times> 'e tcp_world_scheme) option" where
  "tcp_send_file file_fd offset len w = tcp_send_file_loop file_fd offset len w"

text \<open>The inner loop of \<^verbatim>\<open>recv_file\<close>; it returns the advanced file offset.\<close>

partial_function (option) tcp_drain_pipe ::
  "int \<Rightarrow> nat \<Rightarrow> nat \<Rightarrow> 'e tcp_world_scheme \<Rightarrow> (nat res \<times> 'e tcp_world_scheme) option" where
  "tcp_drain_pipe file_fd file_offset remain_pipe w =
     (if remain_pipe > 0 then
        Option.bind (sys_splice_out file_fd file_offset remain_pipe w) (\<lambda>(written, w').
          if written = 0 then
            Some (Throw (Runtime_error ''TcpTransport::recv_file: pipe->file EOF''), w')
          else if written < 0 then
            (if errno w' = EINTR then tcp_drain_pipe file_fd file_offset remain_pipe w'
             else Some (Throw (Runtime_error ''TcpTransport::recv_file: pipe->file failed: ''), w'))
          else tcp_drain_pipe file_fd (file_offset + nat written) (remain_pipe - nat written) w')
      else Some (Ok file_offset, w))"

partial_function (option) tcp_recv_file_loop ::
  "int \<Rightarrow> nat \<Rightarrow> nat \<Rightarrow> 'e tcp_world_scheme \<Rightarrow> (unit res \<times> 'e tcp_world_scheme) option" where
  "tcp_recv_file_loop file_fd file_offset remain w =
     (if remain > 0 then
        Option.bind (sys_splice_in remain w) (\<lambda>(spliced, w').
          if spliced = 0 then
            Some (Throw (Runtime_error ''TcpTransport::recv_file: connection closed''), w')
          else if spliced < 0 then
            (if errno w' = EINTR then tcp_recv_file_loop file_fd file_offset remain w'
             else Some (Throw (Runtime_error ''TcpTransport::recv_file: socket->pipe failed: ''), w'))
          else
            Option.bind (tcp_drain_pipe file_fd file_offset (nat spliced) w') (\<lambda>(r, w'').
              case r of
                Ok file_offset' \<Rightarrow> tcp_recv_file_loop file_fd file_offset' (remain - nat spliced) w''
              | Throw e \<Rightarrow> Some (Throw e, w'')
              | Undef \<Rightarrow> Some (Undef, w'')))
      else Some (Ok (), w))"

definition tcp_recv_file :: "int \<Rightarrow> nat \<Rightarrow> nat \<Rightarrow> 'e tcp_world_scheme \<Rightarrow> (unit res \<times> 'e tcp_world_scheme) option" where
  "tcp_recv_file file_fd offset len w =
     (if \<not> pipe_open w then
        Option.bind (sys_pipe w) (\<lambda>(r, w').
          if r < 0 then Some (Throw (Runtime_error ''TcpTransport::recv_file: pipe failed: ''), w')
          else tcp_recv_file_loop file_fd offset len w')
      else tcp_recv_file_loop file_fd offset len w)"

definition TcpTransport :: "'e tcp_world_scheme transport" where
  "TcpTransport = \<lparr>t_send = tcp_send, t_recv = tcp_recv, t_send_file = tcp_send_file, t_recv_file = tcp_recv_file\<rparr>"

text \<open>Between calls the pipe is empty: every byte taken off the socket is in the file.\<close>

definition tcp_inv :: "'e tcp_world_scheme \<Rightarrow> bool" where
  "tcp_inv w \<longleftrightarrow> pipe_buf w = []"

section \<open>Single calls\<close>

lemma sys_next_tcp:
  assumes "sys_next w = Some (x, w1)"
  shows "same_os w w1" "later w w1" "sock_in w1 = sock_in w" "sock_out w1 = sock_out w"
    "pipe_buf w1 = pipe_buf w" "pipe_open w1 = pipe_open w"
  using assms by (auto simp: sys_next_def split: list.splits intro: later_tl)

lemma same_os_tcp [simp]:
  "same_os w (w1\<lparr>sock_in := a\<rparr>) = same_os w w1" "same_os w (w1\<lparr>sock_out := a\<rparr>) = same_os w w1"
  "same_os w (w1\<lparr>pipe_buf := a\<rparr>) = same_os w w1" "same_os w (w1\<lparr>pipe_open := p\<rparr>) = same_os w w1"
  "same_os w (w1\<lparr>errno := e\<rparr>) = same_os w w1"
  by (simp_all add: same_os_def)

lemma later_tcp [simp]:
  "later w (w1\<lparr>sock_in := a\<rparr>) = later w w1" "later w (w1\<lparr>sock_out := a\<rparr>) = later w w1"
  "later w (w1\<lparr>pipe_buf := a\<rparr>) = later w w1" "later w (w1\<lparr>pipe_open := p\<rparr>) = later w w1"
  "later w (w1\<lparr>errno := e\<rparr>) = later w w1" "later w (w1\<lparr>files := fl\<rparr>) = later w w1"
  by (simp_all add: later_def)

lemma tcp_send_law:
  assumes "tcp_send buf w = Some (r, w')"
  shows "same_os w w' \<and> later w w' \<and> sock_in w' = sock_in w \<and> pipe_buf w' = pipe_buf w \<and>
    (\<exists>n. r = Ok n \<and> (n < 0 \<and> sock_out w' = sock_out w \<or>
       0 \<le> n \<and> n \<le> int (length buf) \<and> sock_out w' = sock_out w @ take (nat n) buf))"
proof -
  obtain n where n: "sys_sock_send buf w = Some (n, w')" "r = Ok n"
    using assms by (auto simp: tcp_send_def sys_iff)
  then obtain x w1 where x: "sys_next w = Some (x, w1)" by (auto simp: sys_sock_send_def split: option.splits)
  note N = sys_next_tcp [OF x]
  show ?thesis using n x N by (cases x) (auto simp: sys_sock_send_def min_def)
qed

lemma tcp_recv_law:
  assumes "tcp_recv len w = Some (r, w')"
  shows "same_os w w' \<and> later w w' \<and> sock_out w' = sock_out w \<and> pipe_buf w' = pipe_buf w \<and>
    (\<exists>n bs. r = Ok (n, bs) \<and> (n < 0 \<and> sock_in w' = sock_in w \<or>
       n = int (length bs) \<and> length bs \<le> len \<and> sock_in w = bs @ sock_in w'))"
proof -
  obtain n bs where n: "sys_sock_recv len w = Some ((n, bs), w')" "r = Ok (n, bs)"
    using assms by (auto simp: tcp_recv_def sys_iff)
  then obtain x w1 where x: "sys_next w = Some (x, w1)" by (auto simp: sys_sock_recv_def split: option.splits)
  note N = sys_next_tcp [OF x]
  show ?thesis
  proof (cases x)
    case (Xfer m)
    have "bs = granted m len (sock_in w)" "n = int (length bs)" "w' = w1\<lparr>sock_in := drop (length bs) (sock_in w)\<rparr>"
      using n x N Xfer by (auto simp: sys_sock_recv_def Let_def)
    moreover from this(1) have "sock_in w = bs @ drop (length bs) (sock_in w)" "length bs \<le> len"
      by (simp_all add: granted_prefix granted_le)
    ultimately show ?thesis using N n(2) by simp
  next
    case (Fail e)
    then show ?thesis using n x N by (auto simp: sys_sock_recv_def)
  qed
qed

lemma sys_sendfile_cases:
  assumes "sys_sendfile fd off len w = Some (n, w')" and "fds w fd = Some f"
    and "files w (of_path f) = Some c"
  shows "same_os w w' \<and> later w w' \<and> sock_in w' = sock_in w \<and> pipe_buf w' = pipe_buf w \<and>
    (n < 0 \<and> sock_out w' = sock_out w \<or>
     (\<exists>bs. n = int (length bs) \<and> bs = region off (length bs) c \<and> length bs \<le> len \<and>
        (bs \<noteq> [] \<longrightarrow> off + length bs \<le> length c) \<and> sock_out w' = sock_out w @ bs))"
proof -
  obtain x w1 where x: "sys_next w = Some (x, w1)"
    using assms(1) by (auto simp: sys_sendfile_def split: option.splits)
  note N = sys_next_tcp [OF x]
  have st: "fds w1 fd = Some f" "contents w1 (of_path f) = c"
    using assms(2,3) N(1) contents_same_os [OF N(1)] by (simp_all add: same_os_def contents_def)
  show ?thesis
  proof (cases "\<exists>m. x = Xfer m \<and> off < 2 ^ 63")
    case True
    then obtain m where m: "x = Xfer m" "off < 2 ^ 63" by blast
    let ?bs = "region off (min m len) c"
    have "n = int (length ?bs)" "w' = w1\<lparr>sock_out := sock_out w @ ?bs\<rparr>"
      using assms(1) x m st N by (auto simp: sys_sendfile_def Let_def)
    moreover have "?bs = region off (length ?bs) c" by (simp only: region_length_same)
    moreover have "length ?bs \<le> len" by (simp add: length_region)
    moreover have "?bs \<noteq> [] \<longrightarrow> off + length ?bs \<le> length c" by (auto simp: region_def min_def)
    ultimately show ?thesis using N by simp
  next
    case False
    then have "n = -1 \<and> (\<exists>e. w' = w1\<lparr>errno := e\<rparr>)"
      using assms(1) x by (cases x) (auto simp: sys_sendfile_def)
    then show ?thesis using N by auto
  qed
qed

lemma sys_splice_in_cases:
  assumes "sys_splice_in len w = Some (n, w')"
  shows "same_os w w' \<and> later w w' \<and> sock_out w' = sock_out w \<and> pipe_open w' = pipe_open w \<and>
    (n < 0 \<and> sock_in w' = sock_in w \<and> pipe_buf w' = pipe_buf w \<or>
     (\<exists>bs. n = int (length bs) \<and> length bs \<le> len \<and> sock_in w = bs @ sock_in w' \<and>
        pipe_buf w' = pipe_buf w @ bs))"
proof -
  obtain x w1 where x: "sys_next w = Some (x, w1)"
    using assms(1) by (auto simp: sys_splice_in_def split: option.splits)
  note N = sys_next_tcp [OF x]
  show ?thesis
  proof (cases x)
    case (Xfer m)
    define bs where "bs = granted m len (sock_in w)"
    have "n = int (length bs)" "w' = w1\<lparr>sock_in := drop (length bs) (sock_in w), pipe_buf := pipe_buf w @ bs\<rparr>"
      using assms(1) x Xfer N by (simp_all add: sys_splice_in_def Let_def bs_def)
    moreover have "sock_in w = bs @ drop (length bs) (sock_in w)" "length bs \<le> len"
      by (simp_all add: bs_def granted_prefix granted_le)
    ultimately show ?thesis using N by auto
  next
    case (Fail e)
    then show ?thesis using assms(1) x N by (auto simp: sys_splice_in_def)
  qed
qed

lemma sys_splice_out_cases:
  assumes "sys_splice_out fd off len w = Some (n, w')" and "fds w fd = Some f"
    and "files w (of_path f) = Some c"
  shows "later w w' \<and> sock_out w' = sock_out w \<and> sock_in w' = sock_in w \<and> pipe_open w' = pipe_open w \<and>
    fds w' = fds w \<and> next_fd w' = next_fd w \<and> bad_closes w' = bad_closes w \<and>
    (n < 0 \<and> pipe_buf w' = pipe_buf w \<and> files w' = files w \<or>
     (\<exists>bs. n = int (length bs) \<and> length bs \<le> len \<and> pipe_buf w = bs @ pipe_buf w' \<and>
        files w' = (files w)(of_path f \<mapsto> write_at c off bs)))"
proof -
  obtain x w1 where x: "sys_next w = Some (x, w1)"
    using assms(1) by (auto simp: sys_splice_out_def split: option.splits)
  note N = sys_next_tcp [OF x]
  have st: "fds w1 fd = Some f" "contents w1 (of_path f) = c"
    using assms(2,3) N(1) contents_same_os [OF N(1)] by (simp_all add: same_os_def contents_def)
  have N': "files w1 = files w" "fds w1 = fds w" "next_fd w1 = next_fd w" "bad_closes w1 = bad_closes w"
    using N(1) by (simp_all add: same_os_def)
  show ?thesis
  proof (cases "\<exists>m. x = Xfer m \<and> off < 2 ^ 63")
    case True
    then obtain m where m: "x = Xfer m" "off < 2 ^ 63" by blast
    define bs where "bs = granted m len (pipe_buf w)"
    have "n = int (length bs)"
      "w' = w1\<lparr>files := (files w)(of_path f \<mapsto> write_at c off bs), pipe_buf := drop (length bs) (pipe_buf w)\<rparr>"
      using assms(1) x m st N N' by (simp_all add: sys_splice_out_def Let_def bs_def split: if_splits)
    moreover have "pipe_buf w = bs @ drop (length bs) (pipe_buf w)" "length bs \<le> len"
      by (simp_all add: bs_def granted_prefix granted_le)
    ultimately show ?thesis using N N' by (intro conjI disjI2 exI [of _ bs]) simp_all
  next
    case False
    then have "n = -1 \<and> (\<exists>e. w' = w1\<lparr>errno := e\<rparr>)"
      using assms(1) x by (cases x) (auto simp: sys_splice_out_def)
    then show ?thesis using N N' by auto
  qed
qed

section \<open>The loops\<close>

lemma tcp_send_file_loop_result:
  assumes run: "tcp_send_file_loop fd off rm w = Some (r, w')"
    and "fds w fd = Some f" and "files w (of_path f) = Some c"
  shows "same_os w w' \<and> later w w' \<and> sock_in w' = sock_in w \<and> pipe_buf w' = pipe_buf w \<and> r \<noteq> Undef \<and>
    (r = Ok () \<longrightarrow> (0 < rm \<longrightarrow> off + rm \<le> length c) \<and> sock_out w' = sock_out w @ region off rm c)"
proof -
  let ?P = "\<lambda>fd off rm (w :: 'a tcp_world_scheme) (r, w'). \<forall>f c. fds w fd = Some f \<longrightarrow> files w (of_path f) = Some c \<longrightarrow>
    same_os w w' \<and> later w w' \<and> sock_in w' = sock_in w \<and> pipe_buf w' = pipe_buf w \<and> r \<noteq> Undef \<and>
    (r = Ok () \<longrightarrow> (0 < rm \<longrightarrow> off + rm \<le> length c) \<and> sock_out w' = sock_out w @ region off rm c)"
  have "?P fd off rm w (r, w')"
  proof (rule tcp_send_file_loop.raw_induct [where P = ?P, OF _ run])
    fix g fd off rm and w :: "'a tcp_world_scheme" and y
    assume IH: "\<And>fd off rm w y. g fd off rm w = Some y \<Longrightarrow> ?P fd off rm w y"
      and eq: "(if rm > 0 then
        Option.bind (sys_sendfile fd off rm w) (\<lambda>(sent, w').
          if sent < 0 then
            (if errno w' = EINTR then g fd off rm w'
             else Some (Throw (Runtime_error ''TcpTransport::send_file: sendfile failed: ''), w'))
          else if sent = 0 then
            Some (Throw (Runtime_error ''TcpTransport::send_file: connection closed''), w')
          else g fd (off + nat sent) (rm - nat sent) w')
      else Some (Ok (), w)) = Some y"
    obtain r w' where y: "y = (r, w')" by (cases y)
    show "?P fd off rm w y" unfolding y case_prod_conv
    proof (intro allI impI)
      fix f c assume fd: "fds w fd = Some f" "files w (of_path f) = Some c"
      show "same_os w w' \<and> later w w' \<and> sock_in w' = sock_in w \<and> pipe_buf w' = pipe_buf w \<and> r \<noteq> Undef \<and>
        (r = Ok () \<longrightarrow> (0 < rm \<longrightarrow> off + rm \<le> length c) \<and> sock_out w' = sock_out w @ region off rm c)"
      proof (cases "rm = 0")
        case True
        then show ?thesis using eq y by (auto simp: region_def)
      next
        case False
        then obtain n w1 where n: "sys_sendfile fd off rm w = Some (n, w1)"
          using eq by (cases "sys_sendfile fd off rm w") auto
        note L = sys_sendfile_cases [OF n fd]
        have st: "fds w1 fd = Some f" "files w1 (of_path f) = Some c" using L fd by (simp_all add: same_os_def)
        consider (stop) e where "r = Throw e" "w' = w1"
          | (again) "g fd off rm w1 = Some (r, w')" "sock_out w1 = sock_out w"
          | (go) bs where "g fd (off + length bs) (rm - length bs) w1 = Some (r, w')" "bs \<noteq> []" "length bs \<le> rm"
              "bs = region off (length bs) c" "off + length bs \<le> length c" "sock_out w1 = sock_out w @ bs"
          using eq False n y L by (fastforce split: if_splits)
        then show ?thesis
        proof cases
          case stop
          then show ?thesis using L by simp
        next
          case again
          from IH [OF this(1)] st have "same_os w1 w' \<and> later w1 w' \<and> sock_in w' = sock_in w1 \<and>
            pipe_buf w' = pipe_buf w1 \<and> r \<noteq> Undef \<and>
            (r = Ok () \<longrightarrow> (0 < rm \<longrightarrow> off + rm \<le> length c) \<and> sock_out w' = sock_out w1 @ region off rm c)" by auto
          then show ?thesis using L again(2) by (auto intro: same_os_trans later_trans)
        next
          case go
          from IH [OF this(1)] st have R: "same_os w1 w' \<and> later w1 w' \<and> sock_in w' = sock_in w1 \<and>
            pipe_buf w' = pipe_buf w1 \<and> r \<noteq> Undef \<and>
            (r = Ok () \<longrightarrow> (0 < rm - length bs \<longrightarrow> off + length bs + (rm - length bs) \<le> length c) \<and>
              sock_out w' = sock_out w1 @ region (off + length bs) (rm - length bs) c)" by auto
          have "region off rm c = bs @ region (off + length bs) (rm - length bs) c"
            using region_split [of off "length bs" "rm - length bs" c] go(3,4) by simp
          then show ?thesis using L R go by (auto intro: same_os_trans later_trans)
        qed
      qed
    qed
  qed
  then show ?thesis using assms(2,3) by simp
qed

text \<open>
  \<open>drained\<close>: relative to \<open>w\<close>, the first \<open>k\<close> bytes of the pipe went to the file at \<open>off\<close>.
\<close>

definition drained :: "ofile \<Rightarrow> u8 list \<Rightarrow> nat \<Rightarrow> nat \<Rightarrow> 'e tcp_world_scheme \<Rightarrow> 'e tcp_world_scheme \<Rightarrow> bool" where
  "drained f c off k w w' \<longleftrightarrow> later w w' \<and> sock_out w' = sock_out w \<and> sock_in w' = sock_in w \<and>
     fds w' = fds w \<and> next_fd w' = next_fd w \<and> bad_closes w' = bad_closes w \<and>
     k \<le> length (pipe_buf w) \<and> pipe_buf w' = drop k (pipe_buf w) \<and>
     files w' = (files w)(of_path f \<mapsto> write_at c off (take k (pipe_buf w)))"

lemma write_at_twice:
  "write_at (write_at c off xs) (off + length xs) ys = write_at c off (xs @ ys)"
proof (cases "xs = []")
  case False
  then have "off + length xs \<le> length (write_at c off xs)" by (simp add: length_write_at)
  show ?thesis
  proof (cases "ys = []")
    case True
    then show ?thesis by simp
  next
    case ne: False
    have "write_at c off xs = take off c @ replicate (off - length c) 0 @ xs @ drop (off + length xs) c"
      using False by (simp add: write_at_def)
    moreover have "length (take off c @ replicate (off - length c) 0 @ xs) = off + length xs" by simp
    ultimately show ?thesis using ne False \<open>off + length xs \<le> length (write_at c off xs)\<close>
      by (simp add: write_at_def add.assoc add.commute add.left_commute)
  qed
qed simp

lemma drained_trans:
  assumes "drained f c off j w w1" and "drained f (write_at c off (take j (pipe_buf w))) (off + j) k w1 w2"
  shows "drained f c off (j + k) w w2"
proof -
  have l: "length (take j (pipe_buf w)) = j" using assms(1) by (simp add: drained_def)
  have "take (j + k) (pipe_buf w) = take j (pipe_buf w) @ take k (drop j (pipe_buf w))"
    by (simp add: take_add)
  then show ?thesis
    using assms write_at_twice [of c off "take j (pipe_buf w)" "take k (drop j (pipe_buf w))"] l
    by (auto simp: drained_def add.commute intro: later_trans)
qed

lemma tcp_drain_pipe_result:
  assumes run: "tcp_drain_pipe fd off rm w = Some (r, w')"
    and "fds w fd = Some f" and "files w (of_path f) = Some c" and "rm \<le> length (pipe_buf w)"
  shows "\<exists>k \<le> rm. drained f c off k w w' \<and> r \<noteq> Undef \<and> (\<forall>x. r = Ok x \<longrightarrow> k = rm \<and> x = off + rm)"
proof -
  let ?P = "\<lambda>fd off rm (w :: 'a tcp_world_scheme) (r, w'). \<forall>f c. fds w fd = Some f \<longrightarrow> files w (of_path f) = Some c \<longrightarrow>
    rm \<le> length (pipe_buf w) \<longrightarrow>
    (\<exists>k \<le> rm. drained f c off k w w' \<and> r \<noteq> Undef \<and> (\<forall>x. r = Ok x \<longrightarrow> k = rm \<and> x = off + rm))"
  have "?P fd off rm w (r, w')"
  proof (rule tcp_drain_pipe.raw_induct [where P = ?P, OF _ run])
    fix g fd off rm and w :: "'a tcp_world_scheme" and y
    assume IH: "\<And>fd off rm w y. g fd off rm w = Some y \<Longrightarrow> ?P fd off rm w y"
      and eq: "(if rm > 0 then
        Option.bind (sys_splice_out fd off rm w) (\<lambda>(written, w').
          if written = 0 then
            Some (Throw (Runtime_error ''TcpTransport::recv_file: pipe->file EOF''), w')
          else if written < 0 then
            (if errno w' = EINTR then g fd off rm w'
             else Some (Throw (Runtime_error ''TcpTransport::recv_file: pipe->file failed: ''), w'))
          else g fd (off + nat written) (rm - nat written) w')
      else Some (Ok off, w)) = Some y"
    obtain r w' where y: "y = (r, w')" by (cases y)
    show "?P fd off rm w y" unfolding y case_prod_conv
    proof (intro allI impI)
      fix f c assume fd: "fds w fd = Some f" "files w (of_path f) = Some c" and le: "rm \<le> length (pipe_buf w)"
      have refl: "drained f c off 0 w w1" if "later w w1" "sock_out w1 = sock_out w" "sock_in w1 = sock_in w"
        "fds w1 = fds w" "next_fd w1 = next_fd w" "bad_closes w1 = bad_closes w" "pipe_buf w1 = pipe_buf w"
        "files w1 = files w" for w1
        using that fd by (auto simp: drained_def fun_upd_idem_iff)
      show "\<exists>k \<le> rm. drained f c off k w w' \<and> r \<noteq> Undef \<and> (\<forall>x. r = Ok x \<longrightarrow> k = rm \<and> x = off + rm)"
      proof (cases "rm = 0")
        case True
        then show ?thesis using eq y refl by auto
      next
        case False
        then obtain n w1 where n: "sys_splice_out fd off rm w = Some (n, w1)"
          using eq by (cases "sys_splice_out fd off rm w") auto
        note L = sys_splice_out_cases [OF n fd]
        from L consider (fail) "n < 0" "drained f c off 0 w w1"
          | (some) bs where "n = int (length bs)" "length bs \<le> rm" "drained f c off (length bs) w w1"
              "files w1 (of_path f) = Some (write_at c off bs)" "bs = take (length bs) (pipe_buf w)"
              "pipe_buf w = bs @ pipe_buf w1"
          using refl by (fastforce simp: drained_def)
        then show ?thesis
        proof cases
          case fail
          then have st: "fds w1 fd = Some f" "files w1 (of_path f) = Some c" "rm \<le> length (pipe_buf w1)"
            using fd le by (simp_all add: drained_def)
          have "g fd off rm w1 = Some (r, w') \<or> (\<exists>e. r = Throw e \<and> w' = w1)"
            using eq False n fail(1) y by (auto split: if_splits)
          then show ?thesis
          proof
            assume "g fd off rm w1 = Some (r, w')"
            from IH [OF this] st obtain k where "k \<le> rm" "drained f c off k w1 w'" "r \<noteq> Undef"
              "\<forall>x. r = Ok x \<longrightarrow> k = rm \<and> x = off + rm" by auto
            then show ?thesis using drained_trans [OF fail(2), of k w'] by auto
          qed (use fail in auto)
        next
          case some
          show ?thesis
          proof (cases "bs = []")
            case True
            then have "r = Throw (Runtime_error ''TcpTransport::recv_file: pipe->file EOF'')" "w' = w1"
              using eq False n some(1) y by auto
            then show ?thesis using some(3) True by auto
          next
            case ne: False
            then have g: "g fd (off + length bs) (rm - length bs) w1 = Some (r, w')"
              using eq False n some(1) y by (auto split: if_splits)
            have "length (pipe_buf w) = length bs + length (pipe_buf w1)"
              using some(6) by (metis length_append)
            then have "rm - length bs \<le> length (pipe_buf w1)" using le by linarith
            moreover have "fds w1 fd = Some f" using some(3) fd by (simp add: drained_def)
            ultimately have "\<exists>k \<le> rm - length bs. drained f (write_at c off bs) (off + length bs) k w1 w' \<and>
                r \<noteq> Undef \<and> (\<forall>x. r = Ok x \<longrightarrow> k = rm - length bs \<and> x = off + length bs + (rm - length bs))"
              using IH [OF g] some(4) by simp
            then obtain k where k: "k \<le> rm - length bs"
              "drained f (write_at c off bs) (off + length bs) k w1 w'" "r \<noteq> Undef"
              "\<forall>x. r = Ok x \<longrightarrow> k = rm - length bs \<and> x = off + length bs + (rm - length bs)" by blast
            have "drained f c off (length bs + k) w w'"
              by (rule drained_trans [OF some(3)]) (use k(2) some(5) in simp)
            then show ?thesis using some(2) k
              by (intro exI [of _ "length bs + k"]) auto
          qed
        qed
      qed
    qed
  qed
  then show ?thesis using assms(2-4) by simp
qed

lemma tcp_recv_file_loop_result:
  assumes run: "tcp_recv_file_loop fd off rm w = Some (r, w')"
    and "fds w fd = Some f" and "files w (of_path f) = Some c" and "pipe_buf w = []"
  shows "later w w' \<and> sock_out w' = sock_out w \<and> fds w' = fds w \<and> next_fd w' = next_fd w \<and>
    bad_closes w' = bad_closes w \<and> r \<noteq> Undef \<and>
    (\<exists>k \<le> min rm (length (sock_in w)). files w' = (files w)(of_path f \<mapsto> write_at c off (take k (sock_in w))) \<and>
       (r = Ok () \<longrightarrow> k = rm \<and> pipe_buf w' = [] \<and> sock_in w' = drop rm (sock_in w)))"
proof -
  let ?P = "\<lambda>fd off rm (w :: 'a tcp_world_scheme) (r, w'). \<forall>f c. fds w fd = Some f \<longrightarrow> files w (of_path f) = Some c \<longrightarrow>
    pipe_buf w = [] \<longrightarrow>
    later w w' \<and> sock_out w' = sock_out w \<and> fds w' = fds w \<and> next_fd w' = next_fd w \<and>
    bad_closes w' = bad_closes w \<and> r \<noteq> Undef \<and>
    (\<exists>k \<le> min rm (length (sock_in w)). files w' = (files w)(of_path f \<mapsto> write_at c off (take k (sock_in w))) \<and>
       (r = Ok () \<longrightarrow> k = rm \<and> pipe_buf w' = [] \<and> sock_in w' = drop rm (sock_in w)))"
  have "?P fd off rm w (r, w')"
  proof (rule tcp_recv_file_loop.raw_induct [where P = ?P, OF _ run])
    fix g fd off rm and w :: "'a tcp_world_scheme" and y
    assume IH: "\<And>fd off rm w y. g fd off rm w = Some y \<Longrightarrow> ?P fd off rm w y"
      and eq: "(if rm > 0 then
        Option.bind (sys_splice_in rm w) (\<lambda>(spliced, w').
          if spliced = 0 then
            Some (Throw (Runtime_error ''TcpTransport::recv_file: connection closed''), w')
          else if spliced < 0 then
            (if errno w' = EINTR then g fd off rm w'
             else Some (Throw (Runtime_error ''TcpTransport::recv_file: socket->pipe failed: ''), w'))
          else
            Option.bind (tcp_drain_pipe fd off (nat spliced) w') (\<lambda>(r, w'').
              case r of
                Ok off' \<Rightarrow> g fd off' (rm - nat spliced) w''
              | Throw e \<Rightarrow> Some (Throw e, w'')
              | Undef \<Rightarrow> Some (Undef, w'')))
      else Some (Ok (), w)) = Some y"
    obtain r w' where y: "y = (r, w')" by (cases y)
    show "?P fd off rm w y" unfolding y case_prod_conv
    proof (intro allI impI, goal_cases)
      case (1 f c)
      note fd = 1(1,2) and pb = 1(3)
      let ?G = "later w w' \<and> sock_out w' = sock_out w \<and> fds w' = fds w \<and> next_fd w' = next_fd w \<and>
        bad_closes w' = bad_closes w \<and> r \<noteq> Undef \<and>
        (\<exists>k \<le> min rm (length (sock_in w)). files w' = (files w)(of_path f \<mapsto> write_at c off (take k (sock_in w))) \<and>
          (r = Ok () \<longrightarrow> k = rm \<and> pipe_buf w' = [] \<and> sock_in w' = drop rm (sock_in w)))"
      have id: "(files w)(of_path f \<mapsto> c) = files w" using fd by (auto simp: fun_upd_idem_iff)
      show ?G
      proof (cases "rm = 0")
        case True
        then show ?thesis using eq y pb id by auto
      next
        case False
        then obtain n w1 where n: "sys_splice_in rm w = Some (n, w1)"
          using eq by (cases "sys_splice_in rm w") auto
        note L = sys_splice_in_cases [OF n]
        have os: "files w1 = files w" "fds w1 = fds w" "next_fd w1 = next_fd w" "bad_closes w1 = bad_closes w"
          using L by (simp_all add: same_os_def)
        from L pb consider (fail) "n < 0" "sock_in w1 = sock_in w" "pipe_buf w1 = []"
          | (some) bs where "n = int (length bs)" "length bs \<le> rm" "sock_in w = bs @ sock_in w1" "pipe_buf w1 = bs"
          by auto
        then show ?thesis
        proof cases
          case fail
          have "g fd off rm w1 = Some (r, w') \<or> (\<exists>e. r = Throw e \<and> w' = w1)"
            using eq False n fail(1) y by (auto split: if_splits)
          then show ?thesis
          proof
            assume g: "g fd off rm w1 = Some (r, w')"
            show ?thesis using IH [OF g] fail os fd L by (auto intro: later_trans)
          qed (use L os id in \<open>auto intro!: exI [of _ 0]\<close>)
        next
          case some
          show ?thesis
          proof (cases "bs = []")
            case True
            then have "\<exists>e. r = Throw e \<and> w' = w1" using eq False n some(1) y by auto
            then show ?thesis using L os id by (auto intro!: exI [of _ 0])
          next
            case ne: False
            then obtain q w2 where q: "tcp_drain_pipe fd off (length bs) w1 = Some (q, w2)"
              using eq False n some(1) by (cases "tcp_drain_pipe fd off (length bs) w1") auto
            obtain k where k: "k \<le> length bs" "drained f c off k w1 w2" "q \<noteq> Undef"
              "\<forall>x. q = Ok x \<longrightarrow> k = length bs \<and> x = off + length bs"
              using tcp_drain_pipe_result [OF q, of f c] fd os some(4) by auto
            have f2: "files w2 = (files w)(of_path f \<mapsto> write_at c off (take k (sock_in w)))"
              using k(1,2) some(3,4) os by (simp add: drained_def)
            have "(\<exists>off'. q = Ok off' \<and> g fd off' (rm - length bs) w2 = Some (r, w')) \<or>
                (\<exists>e. q = Throw e \<and> r = Throw e \<and> w' = w2)"
            proof -
              have "nat n = length bs" "n \<noteq> 0" "\<not> n < 0" using some(1) ne by auto
              then show ?thesis using eq False n y q k(3) by (cases q) auto
            qed
            then show ?thesis
            proof (elim disjE exE conjE)
              fix e assume "q = Throw e" "r = Throw e" "w' = w2"
              then show ?thesis using L os f2 k some(2,3)
                by (auto simp: drained_def intro: later_trans intro!: exI [of _ k])
            next
              fix off' assume ok: "q = Ok off'" "g fd off' (rm - length bs) w2 = Some (r, w')"
              then have k': "k = length bs" "off' = off + length bs" using k(4) by auto
              have st: "fds w2 fd = Some f" "files w2 (of_path f) = Some (write_at c off bs)"
                "pipe_buf w2 = []" "sock_in w2 = sock_in w1"
                using k' k(2) fd os some f2 by (auto simp: drained_def)
              from IH [OF ok(2)] st obtain j where R: "later w2 w' \<and> sock_out w' = sock_out w2 \<and> fds w' = fds w2 \<and>
                next_fd w' = next_fd w2 \<and> bad_closes w' = bad_closes w2 \<and> r \<noteq> Undef"
                "j \<le> min (rm - length bs) (length (sock_in w2))"
                "files w' = (files w2)(of_path f \<mapsto> write_at (write_at c off bs) off' (take j (sock_in w2)))"
                "r = Ok () \<longrightarrow> j = rm - length bs \<and> pipe_buf w' = [] \<and> sock_in w' = drop (rm - length bs) (sock_in w2)"
                by auto
              have "take (length bs + j) (sock_in w) = bs @ take j (sock_in w1)" using some(3) by simp
              then have "files w' = (files w)(of_path f \<mapsto> write_at c off (take (length bs + j) (sock_in w)))"
                using R(3) f2 k' st(4) by (simp add: write_at_twice)
              moreover have "length bs + j \<le> min rm (length (sock_in w))"
                using R(2) st(4) some(2,3) by (simp, linarith)
              moreover have "r = Ok () \<longrightarrow> length bs + j = rm \<and> pipe_buf w' = [] \<and> sock_in w' = drop rm (sock_in w)"
                using R(4) st(4) some(2,3) by simp
              ultimately show ?thesis using R(1) L os k(2)
                by (auto simp: drained_def intro: later_trans)
            qed
          qed
        qed
      qed
    qed
  qed
  then show ?thesis using assms(2-4) by simp
qed

section \<open>Progress in a fair environment\<close>

lemma fair_next_tcp:
  assumes "fair w" and "0 < fuel (w :: 'e tcp_world_scheme)"
  obtains n w1 where "sys_next w = Some (Xfer n, w1)" "0 < n" "fair w1" "fuel w1 = fuel w - 1"
    "same_os w w1" "sock_in w1 = sock_in w" "pipe_buf w1 = pipe_buf w"
proof -
  obtain n w1 where 1: "sys_next w = Some (Xfer n, w1)" "0 < n" "fair w1" "fuel w1 = fuel w - 1"
    using fair_next [OF assms] by metis
  show ?thesis by (rule that [OF 1]) (rule sys_next_tcp [OF 1(1)])+
qed

lemma fuel_tcp [simp]:
  "fuel (w\<lparr>sock_in := a\<rparr>) = fuel w" "fuel (w\<lparr>sock_out := a\<rparr>) = fuel w" "fuel (w\<lparr>pipe_buf := a\<rparr>) = fuel w"
  "fuel (w\<lparr>pipe_open := p\<rparr>) = fuel w" "fuel (w\<lparr>files := fl\<rparr>) = fuel w"
  "fair (w\<lparr>sock_in := a\<rparr>) = fair w" "fair (w\<lparr>sock_out := a\<rparr>) = fair w" "fair (w\<lparr>pipe_buf := a\<rparr>) = fair w"
  "fair (w\<lparr>pipe_open := p\<rparr>) = fair w" "fair (w\<lparr>files := fl\<rparr>) = fair w"
  by (simp_all add: fuel_def fair_def)

lemma tcp_send_file_loop_live:
  assumes "fair w" and "rm \<le> fuel w" and "fds w fd = Some f" and "files w (of_path f) = Some c"
    and "off + rm \<le> length c" and "off + rm < 2 ^ 63"
  shows "\<exists>w'. tcp_send_file_loop fd off rm w = Some (Ok (), w') \<and> fuel w - rm \<le> fuel w'"
  using assms
proof (induction rm arbitrary: off w rule: less_induct)
  case (less rm)
  show ?case
  proof (cases "rm = 0")
    case True
    then show ?thesis by (simp add: tcp_send_file_loop.simps)
  next
    case False
    then obtain n w1 where 1: "sys_next w = Some (Xfer n, w1)" "0 < n" "fair w1" "fuel w1 = fuel w - 1" "same_os w w1"
      using fair_next_tcp [OF less.prems(1)] less.prems(2) by (metis gr_zeroI le_zero_eq)
    have st: "fds w1 fd = Some f" "files w1 (of_path f) = Some c"
      using 1(5) less.prems(3,4) by (simp_all add: same_os_def)
    let ?bs = "region off (min n rm) c" and ?k = "min n rm"
    have k: "length ?bs = ?k" "0 < ?k" "?k \<le> rm" using less.prems(5) False 1(2) by (auto simp: length_region)
    let ?w2 = "w1\<lparr>sock_out := sock_out w1 @ ?bs\<rparr>"
    have s: "sys_sendfile fd off rm w = Some (int ?k, ?w2)"
      using 1(1) st less.prems(6) k(1) by (simp add: sys_sendfile_def contents_def Let_def)
    have lt: "rm - ?k < rm" "rm - ?k \<le> fuel w1" using k(2,3) less.prems(2) 1(4) by linarith+
    obtain w3 where w3: "tcp_send_file_loop fd (off + ?k) (rm - ?k) ?w2 = Some (Ok (), w3)"
      "fuel ?w2 - (rm - ?k) \<le> fuel w3"
    proof -
      have "off + ?k + (rm - ?k) = off + rm" using k(3) by simp
      moreover have "fair ?w2" "rm - ?k \<le> fuel ?w2" "fds ?w2 fd = Some f" "files ?w2 (of_path f) = Some c"
        using 1(3) lt(2) st by simp_all
      ultimately show ?thesis using less.IH [OF lt(1)] less.prems(5,6) that by metis
    qed
    have "fuel w - rm \<le> fuel w3" using w3(2) 1(4) k(2,3) unfolding fuel_tcp by linarith
    then show ?thesis using False s w3(1) k(2)
      by (intro exI [of _ w3]) (simp add: tcp_send_file_loop.simps [of fd off rm w])
  qed
qed

lemma tcp_drain_pipe_live:
  assumes "fair w" and "rm \<le> fuel w" and "fds w fd = Some f" and "rm \<le> length (pipe_buf w)"
    and "off + rm < 2 ^ 63"
  shows "\<exists>x w'. tcp_drain_pipe fd off rm w = Some (Ok x, w') \<and> fuel w - rm \<le> fuel w'"
  using assms
proof (induction rm arbitrary: off w rule: less_induct)
  case (less rm)
  show ?case
  proof (cases "rm = 0")
    case True
    then show ?thesis by (simp add: tcp_drain_pipe.simps)
  next
    case False
    then obtain n w1 where 1: "sys_next w = Some (Xfer n, w1)" "0 < n" "fair w1" "fuel w1 = fuel w - 1" "same_os w w1"
      "pipe_buf w1 = pipe_buf w"
      using fair_next_tcp [OF less.prems(1)] less.prems(2) by (metis gr_zeroI le_zero_eq)
    have st: "fds w1 fd = Some f" using 1(5) less.prems(3) by (simp add: same_os_def)
    let ?k = "min n rm"
    let ?bs = "take ?k (pipe_buf w)"
    have k: "length ?bs = ?k" "0 < ?k" "?k \<le> rm" using less.prems(4) False 1(2) by auto
    let ?w2 = "w1\<lparr>files := (files w1)(of_path f \<mapsto> write_at (contents w1 (of_path f)) off ?bs),
      pipe_buf := drop ?k (pipe_buf w)\<rparr>"
    have s: "sys_splice_out fd off rm w = Some (int ?k, ?w2)"
      using 1(1,6) st less.prems(4,5) k(1) False by (auto simp: sys_splice_out_def Let_def granted_exact [OF 1(2)])
    have lt: "rm - ?k < rm" "rm - ?k \<le> fuel w1" using k(2,3) less.prems(2) 1(4) by linarith+
    have pl: "rm - ?k \<le> length (pipe_buf w) - ?k" using less.prems(4) by (rule diff_le_mono)
    obtain x w3 where w3: "tcp_drain_pipe fd (off + ?k) (rm - ?k) ?w2 = Some (Ok x, w3)"
      "fuel ?w2 - (rm - ?k) \<le> fuel w3"
    proof -
      have "off + ?k + (rm - ?k) = off + rm" using k(3) by simp
      moreover have "fair ?w2" "rm - ?k \<le> fuel ?w2" "fds ?w2 fd = Some f" "rm - ?k \<le> length (pipe_buf ?w2)"
        using 1(3) lt(2) st pl by simp_all
      ultimately show ?thesis using less.IH [OF lt(1)] less.prems(5) that by metis
    qed
    have "fuel w - rm \<le> fuel w3" using w3(2) 1(4) k(2,3) unfolding fuel_tcp by linarith
    then show ?thesis using False s w3(1) k(2)
      by (intro exI [of _ x] exI [of _ w3]) (simp add: tcp_drain_pipe.simps [of fd off rm w])
  qed
qed

lemma tcp_recv_file_loop_live:
  assumes "fair w" and "2 * rm \<le> fuel w" and "fds w fd = Some f" and "files w (of_path f) = Some c"
    and "pipe_buf w = []" and "rm \<le> length (sock_in w)" and "off + rm < 2 ^ 63"
  shows "\<exists>w'. tcp_recv_file_loop fd off rm w = Some (Ok (), w') \<and> fuel w - 2 * rm \<le> fuel w'"
  using assms
proof (induction rm arbitrary: off w c rule: less_induct)
  case (less rm)
  show ?case
  proof (cases "rm = 0")
    case True
    then show ?thesis by (simp add: tcp_recv_file_loop.simps)
  next
    case False
    then obtain n w1 where 1: "sys_next w = Some (Xfer n, w1)" "0 < n" "fair w1" "fuel w1 = fuel w - 1" "same_os w w1"
      "pipe_buf w1 = []" "sock_in w1 = sock_in w"
      using fair_next_tcp [OF less.prems(1)] less.prems(2,5)
      by (metis gr_zeroI le_zero_eq mult_eq_0_iff zero_neq_numeral)
    let ?k = "min n rm"
    let ?bs = "take ?k (sock_in w)"
    have k: "length ?bs = ?k" "0 < ?k" "?k \<le> rm" using less.prems(6) False 1(2) by auto
    let ?w2 = "w1\<lparr>sock_in := drop ?k (sock_in w), pipe_buf := ?bs\<rparr>"
    have s: "sys_splice_in rm w = Some (int ?k, ?w2)"
      using 1(1,6,7) k(1) by (simp add: sys_splice_in_def Let_def granted_exact [OF 1(2)])
    have st: "fds ?w2 fd = Some f" "files ?w2 (of_path f) = Some c"
      using 1(5) less.prems(3,4) by (simp_all add: same_os_def)
    have "?k \<le> fuel w1" using k(2,3) 1(4) less.prems(2) by linarith
    then have f2: "?k \<le> fuel ?w2" by (simp only: fuel_tcp)
    obtain x w3 where w3: "tcp_drain_pipe fd off ?k ?w2 = Some (Ok x, w3)" "fuel ?w2 - ?k \<le> fuel w3"
    proof -
      have "?k \<le> length (pipe_buf ?w2)" using k(1) by simp
      moreover have "off + ?k < 2 ^ 63" using k(3) less.prems(7) by linarith
      moreover have "fair ?w2" using 1(3) by simp
      ultimately show ?thesis using tcp_drain_pipe_live [OF _ f2 st(1), of off] that by blast
    qed
    have D: "x = off + ?k" "drained f c off ?k ?w2 w3"
      using tcp_drain_pipe_result [OF w3(1) st] k(1) by auto
    have st3: "fds w3 fd = Some f" "files w3 (of_path f) = Some (write_at c off (take ?k (pipe_buf ?w2)))"
      "pipe_buf w3 = []" "sock_in w3 = drop ?k (sock_in w)"
      using D(2) st(1) k(1) by (auto simp: drained_def)
    have fw3: "fair w3"
      by (rule fair_later [of ?w2]) (use D(2) 1(3) in \<open>simp_all add: drained_def\<close>)
    have f3: "fuel w - 1 - ?k \<le> fuel w3" using w3(2) 1(4) by simp
    have lt: "rm - ?k < rm" "2 * (rm - ?k) \<le> fuel w3" "x + (rm - ?k) < 2 ^ 63"
      using k(2,3) less.prems(2,7) f3 unfolding D(1) by linarith+
    have l3: "rm - ?k \<le> length (sock_in w3)" using less.prems(6) unfolding st3(4) by simp
    obtain w4 where w4: "tcp_recv_file_loop fd x (rm - ?k) w3 = Some (Ok (), w4)"
      "fuel w3 - 2 * (rm - ?k) \<le> fuel w4"
      using less.IH [OF lt(1) fw3 lt(2) st3(1,2,3) l3 lt(3)] by blast
    have "fuel w - 2 * rm \<le> fuel w4" using w4(2) f3 k(2,3) by linarith
    moreover have "int ?k \<noteq> 0" "\<not> int ?k < 0" "nat (int ?k) = ?k" using k(2) by simp_all
    ultimately show ?thesis using False s w3(1) w4(1)
      by (intro exI [of _ w4]) (simp add: tcp_recv_file_loop.simps [of fd off rm w])
  qed
qed

section \<open>A TCP connection meets the contract\<close>

lemma tcp_recv_file_result:
  assumes run: "tcp_recv_file fd off len w = Some (r, w')"
    and fd: "fds w fd = Some f" "files w (of_path f) = Some c" and pb: "pipe_buf w = []"
  shows "later w w' \<and> sock_out w' = sock_out w \<and> fds w' = fds w \<and> next_fd w' = next_fd w \<and>
    bad_closes w' = bad_closes w \<and> r \<noteq> Undef \<and>
    (\<exists>k \<le> min len (length (sock_in w)). files w' = (files w)(of_path f \<mapsto> write_at c off (take k (sock_in w))) \<and>
       (r = Ok () \<longrightarrow> k = len \<and> pipe_buf w' = [] \<and> sock_in w' = drop len (sock_in w)))"
proof (cases "pipe_open w")
  case True
  then show ?thesis using tcp_recv_file_loop_result [OF _ fd pb] run by (simp add: tcp_recv_file_def)
next
  case False
  then obtain q w1 where q: "sys_pipe w = Some (q, w1)" using run
    by (cases "sys_pipe w") (auto simp: tcp_recv_file_def)
  then obtain x w0 where x: "sys_next w = Some (x, w0)" by (auto simp: sys_pipe_def split: option.splits)
  note N = sys_next_tcp [OF x]
  have w1: "same_os w w1" "later w w1" "sock_in w1 = sock_in w" "sock_out w1 = sock_out w" "pipe_buf w1 = []"
    using q x N pb by (cases x; auto simp: sys_pipe_def)+
  then have os: "files w1 = files w" "fds w1 = fds w" "next_fd w1 = next_fd w" "bad_closes w1 = bad_closes w"
    by (simp_all add: same_os_def)
  have "r = Throw (Runtime_error ''TcpTransport::recv_file: pipe failed: '') \<and> w' = w1 \<or>
    tcp_recv_file_loop fd off len w1 = Some (r, w')"
    using run False q by (auto simp: tcp_recv_file_def split: if_splits)
  then show ?thesis
  proof
    assume "tcp_recv_file_loop fd off len w1 = Some (r, w')"
    from tcp_recv_file_loop_result [OF this, of f c] fd os w1 show ?thesis by (auto intro: later_trans)
  next
    assume "r = Throw (Runtime_error ''TcpTransport::recv_file: pipe failed: '') \<and> w' = w1"
    then show ?thesis using w1 os fd by (auto simp: fun_upd_idem_iff intro!: exI [of _ 0])
  qed
qed

lemma tcp_recv_file_live:
  assumes "fair w" and "2 * len + 2 \<le> fuel w" and "fds w fd = Some f" and "files w (of_path f) = Some c"
    and "pipe_buf w = []" and "len \<le> length (sock_in w)" and "off + len < 2 ^ 63"
  shows "\<exists>w'. tcp_recv_file fd off len w = Some (Ok (), w') \<and> fuel w - (2 * len + 2) \<le> fuel w'"
proof (cases "pipe_open w")
  case True
  have "2 * len \<le> fuel w" using assms(2) by simp
  from tcp_recv_file_loop_live [OF assms(1) this assms(3-7)] True show ?thesis
    by (fastforce simp: tcp_recv_file_def)
next
  case False
  have "0 < fuel w" using assms(2) by simp
  then obtain n w1 where 1: "sys_next w = Some (Xfer n, w1)" "0 < n" "fair w1" "fuel w1 = fuel w - 1" "same_os w w1"
    "sock_in w1 = sock_in w" "pipe_buf w1 = []"
    using fair_next_tcp [OF assms(1)] assms(5) by metis
  let ?w2 = "w1\<lparr>pipe_open := True\<rparr>"
  have st: "fds ?w2 fd = Some f" "files ?w2 (of_path f) = Some c"
    using 1(5) assms(3,4) by (simp_all add: same_os_def)
  have "2 * len \<le> fuel ?w2" using 1(4) assms(2) by simp
  then obtain w3 where "tcp_recv_file_loop fd off len ?w2 = Some (Ok (), w3)" "fuel ?w2 - 2 * len \<le> fuel w3"
    using tcp_recv_file_loop_live [OF _ _ st, of len off] 1 assms(6,7) by auto
  then show ?thesis using False 1(1,4) by (simp add: tcp_recv_file_def sys_pipe_def)
qed

lemma tcp_more:
  "world.more w = world.more w' \<Longrightarrow>
     sock_in w = sock_in w' \<and> sock_out w = sock_out w' \<and> tcp_inv w = tcp_inv w'"
  for w w' :: "'e tcp_world_scheme"
  by (cases w; cases w') (simp add: tcp_inv_def)

lemma tcp_send_live:
  assumes "fair w" and "0 < fuel w" and "buf \<noteq> []"
  shows "\<exists>n w'. tcp_send buf w = Some (Ok n, w') \<and> 0 < n \<and> fuel w - 1 \<le> fuel w'"
proof -
  obtain n w1 where 1: "sys_next w = Some (Xfer n, w1)" "0 < n" "fuel w1 = fuel w - 1"
    using fair_next_tcp [OF assms(1,2)] by metis
  then show ?thesis using assms(3) by (simp add: tcp_send_def sys_def sys_sock_send_def)
qed

lemma tcp_recv_live:
  assumes "fair w" and "0 < fuel w" and "sock_in w \<noteq> []" and "0 < len"
  shows "\<exists>n bs w'. tcp_recv len w = Some (Ok (n, bs), w') \<and> 0 < n \<and> fuel w - 1 \<le> fuel w'"
proof -
  obtain n w1 where 1: "sys_next w = Some (Xfer n, w1)" "0 < n" "fuel w1 = fuel w - 1" "sock_in w1 = sock_in w"
    using fair_next_tcp [OF assms(1,2)] by metis
  then show ?thesis using assms(3,4) by (simp add: tcp_recv_def sys_def sys_sock_recv_def Let_def granted_exact)
qed

interpretation tcp: live_transport TcpTransport sock_in sock_out tcp_inv
proof
  fix w w' :: "'e tcp_world_scheme"
  show "world.more w = world.more w' \<Longrightarrow>
    sock_in w = sock_in w' \<and> sock_out w = sock_out w' \<and> tcp_inv w = tcp_inv w'"
    by (rule tcp_more)
next
  fix w w' :: "'e tcp_world_scheme" and buf rs
  assume "tcp_inv w" "t_send TcpTransport buf w = Some (rs, w')"
  with tcp_send_law [of buf w rs w'] show "same_os w w' \<and> later w w' \<and> sock_in w' = sock_in w \<and> rs \<noteq> Undef \<and>
      (\<forall>n. rs = Ok n \<longrightarrow> 0 < n \<longrightarrow>
         tcp_inv w' \<and> n \<le> int (length buf) \<and> sock_out w' = sock_out w @ take (nat n) buf) \<and>
      (\<forall>n. rs = Ok n \<longrightarrow> n < 0 \<longrightarrow> errno w' = EAGAIN \<longrightarrow> tcp_inv w' \<and> sock_out w' = sock_out w)"
    by (auto simp: TcpTransport_def tcp_inv_def)
next
  fix w w' :: "'e tcp_world_scheme" and len rr
  assume "tcp_inv w" "t_recv TcpTransport len w = Some (rr, w')"
  with tcp_recv_law [of len w rr w'] show "same_os w w' \<and> later w w' \<and> sock_out w' = sock_out w \<and> rr \<noteq> Undef \<and>
      (\<forall>n bs. rr = Ok (n, bs) \<longrightarrow> 0 < n \<longrightarrow>
         tcp_inv w' \<and> n = int (length bs) \<and> length bs \<le> len \<and> sock_in w = bs @ sock_in w') \<and>
      (\<forall>n bs. rr = Ok (n, bs) \<longrightarrow> n < 0 \<longrightarrow> errno w' = EAGAIN \<longrightarrow> tcp_inv w' \<and> sock_in w' = sock_in w)"
    by (auto simp: TcpTransport_def tcp_inv_def)
next
  fix w w' :: "'e tcp_world_scheme" and fd f c off len rf
  assume "tcp_inv w" "fds w fd = Some f" "files w (of_path f) = Some c"
    "t_send_file TcpTransport fd off len w = Some (rf, w')"
  with tcp_send_file_loop_result [of fd off len w rf w' f c]
  show "same_os w w' \<and> later w w' \<and> sock_in w' = sock_in w \<and> rf \<noteq> Undef \<and>
      (rf = Ok () \<longrightarrow> tcp_inv w' \<and> (0 < len \<longrightarrow> off + len \<le> length c) \<and>
         sock_out w' = sock_out w @ region off len c)"
    by (simp add: TcpTransport_def tcp_inv_def tcp_send_file_def)
next
  fix w w' :: "'e tcp_world_scheme" and fd f c off len rf
  assume "tcp_inv w" "fds w fd = Some f" "files w (of_path f) = Some c"
    "t_recv_file TcpTransport fd off len w = Some (rf, w')"
  with tcp_recv_file_result [of fd off len w rf w' f c]
  show "fds w' = fds w \<and> next_fd w' = next_fd w \<and> bad_closes w' = bad_closes w \<and> later w w'
      \<and> sock_out w' = sock_out w \<and> rf \<noteq> Undef \<and>
      (\<exists>k \<le> min len (length (sock_in w)).
         files w' = (files w)(of_path f \<mapsto> write_at c off (take k (sock_in w))) \<and>
         (rf = Ok () \<longrightarrow> k = len \<and> tcp_inv w' \<and> sock_in w' = drop len (sock_in w)))"
    by (simp add: TcpTransport_def tcp_inv_def)
next
  fix w :: "'e tcp_world_scheme" and buf :: "u8 list"
  assume "tcp_inv w" "fair w" "0 < fuel w" "buf \<noteq> []"
  then show "\<exists>n w'. t_send TcpTransport buf w = Some (Ok n, w') \<and> 0 < n \<and> fuel w - 1 \<le> fuel w'"
    using tcp_send_live [of w buf] by (simp add: TcpTransport_def)
next
  fix w :: "'e tcp_world_scheme" and len :: nat
  assume "tcp_inv w" "fair w" "0 < fuel w" "sock_in w \<noteq> []" "0 < len"
  then show "\<exists>n bs w'. t_recv TcpTransport len w = Some (Ok (n, bs), w') \<and> 0 < n \<and> fuel w - 1 \<le> fuel w'"
    using tcp_recv_live [of w len] by (simp add: TcpTransport_def)
next
  fix w :: "'e tcp_world_scheme" and fd f c off len
  assume "tcp_inv w" "fair w" "len \<le> fuel w" "fds w fd = Some f" "files w (of_path f) = Some c"
    "off + len \<le> length c" "off + len < 2 ^ 63"
  then show "\<exists>w'. t_send_file TcpTransport fd off len w = Some (Ok (), w') \<and> fuel w - len \<le> fuel w'"
    using tcp_send_file_loop_live [of w len fd f c off] by (simp add: TcpTransport_def tcp_send_file_def)
next
  fix w :: "'e tcp_world_scheme" and fd f c off len
  assume "tcp_inv w" "fair w" "2 * len + 2 \<le> fuel w" "fds w fd = Some f" "files w (of_path f) = Some c"
    "len \<le> length (sock_in w)" "off + len < 2 ^ 63"
  then show "\<exists>w'. t_recv_file TcpTransport fd off len w = Some (Ok (), w') \<and> fuel w - (2 * len + 2) \<le> fuel w'"
    using tcp_recv_file_live [of w len fd f c off] by (simp add: TcpTransport_def tcp_inv_def)
qed

section \<open>Properties\<close>

text \<open>\<^verbatim>\<open>send_file\<close> over TCP sends a file range exactly, through any sequence of short
  \<^verbatim>\<open>sendfile\<close> counts and interruptions: if it returns, the socket was handed precisely the
  \<open>len\<close> bytes at \<open>off\<close>; if the range does not lie within the file it throws. Files,
  descriptors and incoming bytes are untouched either way.\<close>

theorem tcp_send_file_exact:
  assumes "tcp_send_file fd off len w = Some (r, w')" and "fds w fd = Some f" and "files w (of_path f) = Some c"
  shows "files w' = files w \<and> fds w' = fds w \<and> sock_in w' = sock_in w \<and>
    (r = Ok () \<and> sock_out w' = sock_out w @ region off len c \<and> length (region off len c) = len
     \<or> (\<exists>e. r = Throw e)) \<and>
    (0 < len \<and> length c < off + len \<longrightarrow> (\<exists>e. r = Throw e))"
proof -
  note L = tcp_send_file_loop_result [OF assms(1) [unfolded tcp_send_file_def] assms(2,3)]
  then show ?thesis by (cases r) (auto simp: same_os_def length_region)
qed

text \<open>C29: \<^verbatim>\<open>recv_file\<close> over TCP moves bytes from the socket to the file range in order, each
  once, through any sequence of short \<^verbatim>\<open>splice\<close> counts and interruptions. If it returns,
  exactly \<open>len\<close> bytes moved and none is left in the pipe; if it throws, a prefix of them was
  written and nothing else in any file changed.\<close>

theorem tcp_recv_file_exact:
  assumes "tcp_recv_file fd off len w = Some (r, w')" and "fds w fd = Some f" and "files w (of_path f) = Some c"
    and "pipe_buf w = []"
  shows "fds w' = fds w \<and> sock_out w' = sock_out w \<and>
    (\<exists>k \<le> min len (length (sock_in w)). files w' = (files w)(of_path f \<mapsto> write_at c off (take k (sock_in w))) \<and>
       (r = Ok () \<and> k = len \<and> pipe_buf w' = [] \<and> sock_in w' = drop len (sock_in w) \<or> (\<exists>e. r = Throw e)))"
proof -
  note L = tcp_recv_file_result [OF assms]
  then obtain k where "k \<le> min len (length (sock_in w))"
    "files w' = (files w)(of_path f \<mapsto> write_at c off (take k (sock_in w)))"
    "r = Ok () \<longrightarrow> k = len \<and> pipe_buf w' = [] \<and> sock_in w' = drop len (sock_in w)" "r \<noteq> Undef" by blast
  moreover from this(4) have "r = Ok () \<or> (\<exists>e. r = Throw e)" by (cases r) auto
  ultimately show ?thesis using L by blast
qed

text \<open>Both data-plane loops end: in a fair environment that still answers as many calls as
  there are bytes (twice that, and two, for receiving through the pipe), \<^verbatim>\<open>send_file\<close> and
  \<^verbatim>\<open>recv_file\<close> return normally.\<close>

theorem tcp_file_calls_return:
  assumes "fair w" and "2 * len + 2 \<le> fuel w" and "fds w fd = Some f" and "files w (of_path f) = Some c"
    and "off + len \<le> length c" and "len \<le> length (sock_in w)" and "off + len < 2 ^ 63" and "pipe_buf w = []"
  shows "(\<exists>w'. tcp_send_file fd off len w = Some (Ok (), w') \<and> sock_out w' = sock_out w @ region off len c) \<and>
    (\<exists>w'. tcp_recv_file fd off len w = Some (Ok (), w') \<and> sock_in w' = drop len (sock_in w))"
proof
  have "len \<le> fuel w" using assms(2) by simp
  from tcp_send_file_loop_live [OF assms(1) this assms(3,4,5,7)]
  obtain w' where "tcp_send_file_loop fd off len w = Some (Ok (), w')" by blast
  with tcp_send_file_loop_result [OF this assms(3,4)]
  show "\<exists>w'. tcp_send_file fd off len w = Some (Ok (), w') \<and> sock_out w' = sock_out w @ region off len c"
    by (simp add: tcp_send_file_def)
  from tcp_recv_file_live [OF assms(1,2,3,4,8,6,7)]
  obtain w' where "tcp_recv_file fd off len w = Some (Ok (), w')" by blast
  with tcp_recv_file_result [OF this assms(3,4,8)]
  show "\<exists>w'. tcp_recv_file fd off len w = Some (Ok (), w') \<and> sock_in w' = drop len (sock_in w)"
    by blast
qed

section \<open>Witnesses\<close>

definition tcp_sample :: "(string \<Rightarrow> u8 list option) \<Rightarrow> u8 list \<Rightarrow> tcp_world" where
  "tcp_sample fs bs = \<lparr>files = fs, fds = [3 \<mapsto> \<lparr>of_path = ''f'', of_pos = 0\<rparr>], next_fd = 4, bad_closes = 0,
     script = long_script, errno = 0, sock_in = bs, sock_out = [], pipe_open = False, pipe_buf = []\<rparr>"

lemma tcp_sample [simp]:
  "wf_fds (tcp_sample fs bs)" "files (tcp_sample fs bs) = fs" "fair (tcp_sample fs bs)" "fuel (tcp_sample fs bs) = 2 ^ 27"
  "fds (tcp_sample fs bs) 3 = Some \<lparr>of_path = ''f'', of_pos = 0\<rparr>" "sock_in (tcp_sample fs bs) = bs"
  "sock_out (tcp_sample fs bs) = []" "pipe_buf (tcp_sample fs bs) = []" "tcp_inv (tcp_sample fs bs)"
  by (auto simp: tcp_sample_def wf_fds_def fair_def fuel_def tcp_inv_def long_script(1) dest: long_script(2))

lemma tcp_send_file_exact_witness:
  "\<exists>w'. tcp_send_file 3 1 2 (tcp_sample [''f'' \<mapsto> [1, 2, 3]] []) = Some (Ok (), w') \<and> sock_out w' = [2, 3]"
proof -
  let ?w = "tcp_sample [''f'' \<mapsto> [1, 2, 3]] []"
  obtain w' where run: "tcp_send_file 3 1 2 ?w = Some (Ok (), w')"
    using tcp_send_file_loop_live [of ?w 2 3 _ "[1, 2, 3]" 1] by (auto simp: tcp_send_file_def)
  from tcp_send_file_exact [OF this, of _ "[1, 2, 3]"] have "sock_out w' = [2, 3]" by (auto simp: region_def)
  then show ?thesis using run by blast
qed

lemma tcp_recv_file_exact_witness:
  "\<exists>w'. tcp_recv_file 3 1 2 (tcp_sample [''f'' \<mapsto> [1, 2, 3]] [8, 9, 7]) = Some (Ok (), w') \<and>
     files w' ''f'' = Some [1, 8, 9] \<and> sock_in w' = [7]"
proof -
  let ?w = "tcp_sample [''f'' \<mapsto> [1, 2, 3]] [8, 9, 7]"
  obtain w' where run: "tcp_recv_file 3 1 2 ?w = Some (Ok (), w')"
    using tcp_recv_file_live [of ?w 2 3 _ "[1, 2, 3]" 1] by auto
  from tcp_recv_file_exact [OF this, of _ "[1, 2, 3]"] have "files w' ''f'' = Some [1, 8, 9] \<and> sock_in w' = [7]"
    by (auto simp: write_at_def)
  then show ?thesis using run by blast
qed

lemma tcp_file_calls_return_witness:
  "\<exists>w'. tcp_recv_file 3 1 2 (tcp_sample [''f'' \<mapsto> [1, 2, 3]] [8, 9, 7]) = Some (Ok (), w') \<and> sock_in w' = [7]"
  using tcp_file_calls_return [of "tcp_sample [''f'' \<mapsto> [1, 2, 3]] [8, 9, 7]" 2 3 _ "[1, 2, 3]" 1] by simp

end
