(* ===== verification/Tcp_Transfer.thy ===== *)
theory Tcp_Transfer
  imports Tcp_Transport
begin

text \<open>
  Pusher and puller over TCP: what the two programs promise alone, against a peer that
  sends anything and an operating system that may fail any call, and together, when each
  reads what the other wrote. Everything here instantiates the rules proved over
  \<open>live_transport\<close> with the interpretation \<open>tcp\<close>.
\<close>

section \<open>What a finished pull leaves\<close>

lemma whole_parts:
  assumes "unat (chunk_count meta) = chunk_total (unat (file_size meta))" and "length c = unat (file_size meta)"
    and "i < chunk_count meta"
  shows "whole_part meta c i"
proof -
  have "unat i < chunk_total (length c)" using assms by (simp add: word_less_nat_alt)
  from chunk_region(3) [OF _ this] assms(2) show ?thesis by (simp add: whole_part_def)
qed

lemma needed_iff:
  assumes "cm_ok cm" and "cm_chunk_count cm = n"
  shows "i \<in> set (needed_chunks cm) \<longleftrightarrow> i < n \<and> unat i \<notin> done_set cm"
proof -
  have "unat ` set (needed_chunks cm) = {0..<unat n} - done_set cm"
    using cm.needed_law [OF assms(1)] assms(2) by blast
  moreover have "i \<in> set (needed_chunks cm) \<longleftrightarrow> unat i \<in> unat ` set (needed_chunks cm)"
    by (rule inj_image_mem_iff [OF inj_unat, symmetric])
  ultimately show ?thesis by (simp add: word_less_nat_alt)
qed

lemma fresh_needed: "i \<in> set (needed_chunks (ChunkManager n)) \<longleftrightarrow> i < n"
  using needed_iff [of "ChunkManager n" n] cm.fresh_law [of n] by simp

lemma done_set_all:
  assumes "cm_ok cm" and "cm_chunk_count cm = n"
  shows "all_done cm \<longleftrightarrow> (\<forall>i < n. unat i \<in> done_set cm)"
proof -
  have "done_set cm \<subseteq> {0..<unat n}" using cm.have_law [OF assms(1)] assms(2) by simp
  then have "all_done cm \<longleftrightarrow> {0..<unat n} \<subseteq> done_set cm"
    using cm.complete_law [OF assms(1)] assms(2) by blast
  moreover have "(\<forall>i < n. unat i \<in> done_set cm) \<longleftrightarrow> {0..<unat n} \<subseteq> done_set cm"
  proof
    assume all: "\<forall>i < n. unat i \<in> done_set cm"
    show "{0..<unat n} \<subseteq> done_set cm"
    proof
      fix k assume "k \<in> {0..<unat n}"
      then have k: "k < unat n" by simp
      then have "unat (word_of_nat k :: u32) = k"
        using unsigned_less [of n, where ?'a = nat] by (simp add: unat_of_nat)
      then show "k \<in> done_set cm" using all k by (metis word_less_nat_alt)
    qed
  qed (auto simp: word_less_nat_alt)
  ultimately show ?thesis by blast
qed

lemma updated_flag:
  assumes "updated E meta c cm ds c' cm'" and "i \<in> set ds"
  shows "whole_part meta c' i" "unat i \<in> done_set cm' \<longleftrightarrow> good E meta c' i"
proof -
  have "if i \<in> set ds then whole_part meta c' i \<and> (unat i \<in> done_set cm' \<longleftrightarrow> good E meta c' i)
      else (unat i \<in> done_set cm' \<longleftrightarrow> unat i \<in> done_set cm) \<and>
        (whole_part meta c i \<longrightarrow> whole_part meta c' i \<and> part meta c' i = part meta c i)"
    using assms(1) unfolding updated_def by blast
  then show "whole_part meta c' i" "unat i \<in> done_set cm' \<longleftrightarrow> good E meta c' i" using assms(2) by simp_all
qed

lemma updated_other:
  assumes "updated E meta c cm ds c' cm'" and "i \<notin> set ds"
  shows "unat i \<in> done_set cm' \<longleftrightarrow> unat i \<in> done_set cm"
    "whole_part meta c i \<Longrightarrow> whole_part meta c' i \<and> part meta c' i = part meta c i"
proof -
  have "if i \<in> set ds then whole_part meta c' i \<and> (unat i \<in> done_set cm' \<longleftrightarrow> good E meta c' i)
      else (unat i \<in> done_set cm' \<longleftrightarrow> unat i \<in> done_set cm) \<and>
        (whole_part meta c i \<longrightarrow> whole_part meta c' i \<and> part meta c' i = part meta c i)"
    using assms(1) unfolding updated_def by blast
  then show "unat i \<in> done_set cm' \<longleftrightarrow> unat i \<in> done_set cm"
    "whole_part meta c i \<Longrightarrow> whole_part meta c' i \<and> part meta c' i = part meta c i" using assms(2) by simp_all
qed

lemma updated_cm: "updated E meta c cm ds c' cm' \<Longrightarrow> cm_ok cm' \<and> cm_chunk_count cm' = cm_chunk_count cm"
  by (simp add: updated_def)

lemma updated_length: "updated E meta c cm ds c' cm' \<Longrightarrow> \<forall>i \<in> set ds. whole_part meta c i \<Longrightarrow> length c' = length c"
  by (simp add: updated_def)

lemma saved_bits:
  assumes "saved out meta cm w" and "cm_ok cm" and "cm_chunk_count cm = n" and "i < n"
  shows "\<exists>raw. files w (path_for out) = Some (chunk_hashes meta ! 0 @ raw) \<and> length raw = (unat n + 7) div 8 \<and>
    (\<forall>i < n. bit_at raw (unat i) \<longleftrightarrow> unat i \<in> done_set cm)"
proof -
  obtain raw where raw: "packed (bitmap cm) raw" "files w (path_for out) = Some (chunk_hashes meta ! 0 @ raw)"
    using assms(1) by (auto simp: saved_def)
  have "length (bitmap cm) = unat n" using cm_ok_count [OF assms(2)] assms(3) by simp
  then show ?thesis using raw by (intro exI [of _ raw]) (auto simp: packed_def done_set_def word_less_nat_alt)
qed

section \<open>A pusher against any peer\<close>

lemma sock_close [simp]: "sock_in (sys_close fd w) = sock_in w" "sock_out (sys_close fd w) = sock_out w"
  by (simp_all add: sys_close_def split: option.splits)

text \<open>C6: Whatever the peer sends and however the system calls fail, a push over TCP changes
  no file, closes the file it serves exactly once, leaks no descriptor, and never leaves
  defined behaviour. If it returns normally, the peer sent a handshake, well formed
  requests within range and \<^verbatim>\<open>COMPLETE\<close>, and was sent the metadata and, for each request
  in order, the header and exactly the bytes of that chunk.\<close>

theorem push_safe:
  assumes run: "run_push TcpTransport fd meta w = Some (r, w')"
    and "tcp_inv w" and fd: "holds fd f w0 w" "files w (of_path f) = Some data" and meta: "describes meta data"
  shows "r \<noteq> Undef \<and> files w' = files w \<and> tidy w0 w' \<and>
    (r = Ok () \<longrightarrow> (\<exists>idxs hs msgs fin. sock_out w' = sock_out w @ answers data meta idxs \<and>
       sock_in w = concat (map frame (hs # msgs @ [fin])) @ sock_in w' \<and> list_all2 asks msgs idxs \<and>
       m_type hs = HANDSHAKE \<and> m_type fin = COMPLETE))"
proof -
  let ?Q = "\<lambda>r w'. r \<noteq> Undef \<and> files w' = files w \<and> tidy w0 w' \<and>
    (r = Ok () \<longrightarrow> (\<exists>idxs hs msgs fin. sock_out w' = sock_out w @ answers data meta idxs \<and>
       sock_in w = concat (map frame (hs # msgs @ [fin])) @ sock_in w' \<and> list_all2 asks msgs idxs \<and>
       m_type hs = HANDSHAKE \<and> m_type fin = COMPLETE))"
  have "wp True (run_push TcpTransport fd meta) ?Q w"
  proof (rule tcp.run_push_wp [OF assms(2) fd meta, where tok = "[]" and js = "[]" and n = 0 and s = "[]"], goal_cases)
    case (3 w1 idxs)
    have "tidy w w1" "files w1 = files w" using tcp.pushed_tidy [OF 3(1)] by simp_all
    moreover obtain hs msgs fin p where "sock_in w = concat (map frame (hs # msgs @ [fin])) @ sock_in w1"
      "parse_handshake hs = Ok p" "list_all2 asks msgs idxs" "m_type fin = COMPLETE"
      using tcp.pushed_inbox [OF 3(1)] by blast
    moreover from this(2) have "m_type hs = HANDSHAKE" by (auto simp: parse_handshake_def split: if_splits)
    ultimately show ?case using tcp.pushed_outbox [OF 3(1)] holds_close [OF holds_tidy [OF fd(1)]]
      by (auto intro!: exI [of _ idxs])
  next
    case (4 w1 e)
    then show ?case using holds_close [OF holds_tidy [OF fd(1)]] by (simp add: tcp.broken_def)
  qed simp_all
  from wpD [OF this run] show ?thesis .
qed

text \<open>A push completes: in a fair environment, a peer that sends a handshake, requests in
  range and \<^verbatim>\<open>COMPLETE\<close> makes it return normally, having sent exactly the answers and
  taken exactly the peer's messages off the socket.\<close>

theorem push_completes:
  assumes "tcp_inv w" and fd: "holds fd f w0 w" "files w (of_path f) = Some data"
    and meta: "describes meta data" "length data < 2 ^ 63"
    and peer: "sock_in w = frame (hs_msg tok) @ requests idxs @ s" "\<forall>i \<in> set idxs. i < chunk_count meta"
      "length tok < 2 ^ 20"
    and env: "fair w" "push_cost meta tok (length idxs) \<le> fuel w"
  shows "\<exists>w'. run_push TcpTransport fd meta w = Some (Ok (), w') \<and> sock_out w' = sock_out w @ answers data meta idxs \<and>
    sock_in w' = s \<and> tidy w0 w' \<and> files w' = files w"
proof -
  let ?Q = "\<lambda>r w'. r = Ok () \<and> sock_out w' = sock_out w @ answers data meta idxs \<and>
    sock_in w' = s \<and> tidy w0 w' \<and> files w' = files w"
  have "wp False (run_push TcpTransport fd meta) ?Q w"
  proof (rule tcp.run_push_wp [OF assms(1) fd meta(1), where tok = tok and js = idxs and n = 0 and s = s], goal_cases)
    case 1
    then show ?case using env by (simp add: ready_def)
  next
    case 2
    then show ?case using peer meta(2) by (simp add: str_ok_def)
  next
    case (3 w1 js)
    then have "js = idxs" "sock_in w1 = s" by simp_all
    then show ?case using tcp.pushed_outbox [OF 3(1)] tcp.pushed_tidy [OF 3(1)] holds_close [OF holds_tidy [OF fd(1)]]
      by simp
  qed simp
  then show ?thesis by (auto simp: wp_total)
qed

section \<open>A puller against any peer\<close>

text \<open>C5: Whatever the peer sends and however the system calls fail, a pull over TCP changes
  no file but the output and its partial file (the output is the one the caller named,
  if it named one) and leaves the descriptor table as it was, each descriptor closed
  exactly once. Its only undefined behaviour is metadata that announce no chunk, when
  \<^verbatim>\<open>chunk_hashes[0]\<close> does not exist.\<close>

theorem pull_safe:
  assumes run: "run_pull E TcpTransport output_path w = Some (r, w')" and "tcp_inv w" and "wf_fds w"
  shows "(\<exists>out. (output_path \<noteq> [] \<longrightarrow> out = output_path) \<and> only_output out w w') \<and>
    (r = Undef \<longrightarrow> (\<exists>msg meta s. sock_in w = frame msg @ s \<and> parse_filemeta msg = Ok meta \<and> chunk_count meta = 0))"
proof -
  let ?Q = "\<lambda>r w'. (\<exists>out. (output_path \<noteq> [] \<longrightarrow> out = output_path) \<and> only_output out w w') \<and>
    (r = Undef \<longrightarrow> (\<exists>msg meta s. sock_in w = frame msg @ s \<and> parse_filemeta msg = Ok meta \<and> chunk_count meta = 0))"
  have "wp True (run_pull E TcpTransport output_path) ?Q w"
  proof (rule tcp.run_pull_wp [OF assms(2,3), where ?meta0.0 = sample_meta and n = 0 and s = "[]" and data = "[]"],
         goal_cases)
    case (3 w1 msg meta s' c cm c')
    then show ?case by (auto simp: target_def intro!: exI [of _ "target output_path meta"])
  next
    case (4 w1 e out)
    then show ?case by auto
  next
    case (5 w1 msg meta s')
    then have "only_output output_path w w1" by (simp add: tcp.broken_def only_output_same)
    then show ?case using 5 by blast
  qed simp_all
  from wpD [OF this run] show ?thesis .
qed

text \<open>C4: Integrity against any peer: when a fresh pull to \<open>p\<close> returns normally, either every
  chunk of the output has the hash that the peer's metadata announced for it, or the
  partial file is there and its bits say, for every chunk, whether what is on disk has the
  announced hash. With consistent metadata the output has exactly the announced size.\<close>

theorem pull_integrity:
  assumes run: "run_pull E TcpTransport p w = Some (Ok (), w')" and "tcp_inv w" and "wf_fds w"
    and p: "p \<noteq> []" "files w (path_for p) = None"
  shows "\<exists>msg meta s c. sock_in w = frame msg @ s \<and> parse_filemeta msg = Ok meta \<and> files w' p = Some c \<and>
    ((\<forall>i < chunk_count meta. sha256_buf E (part meta c i) = Ok (chunk_hashes meta ! unat i)) \<or>
     (\<exists>raw. files w' (path_for p) = Some (chunk_hashes meta ! 0 @ raw) \<and>
        (\<forall>i < chunk_count meta. bit_at raw (unat i) \<longleftrightarrow> good E meta c i))) \<and>
    (unat (chunk_count meta) = chunk_total (unat (file_size meta)) \<longrightarrow> length c = unat (file_size meta))"
proof -
  let ?Q = "\<lambda>r w'. r = Ok () \<longrightarrow> (\<exists>msg meta s c. sock_in w = frame msg @ s \<and> parse_filemeta msg = Ok meta \<and>
    files w' p = Some c \<and>
    ((\<forall>i < chunk_count meta. sha256_buf E (part meta c i) = Ok (chunk_hashes meta ! unat i)) \<or>
     (\<exists>raw. files w' (path_for p) = Some (chunk_hashes meta ! 0 @ raw) \<and>
        (\<forall>i < chunk_count meta. bit_at raw (unat i) \<longleftrightarrow> good E meta c i))) \<and>
    (unat (chunk_count meta) = chunk_total (unat (file_size meta)) \<longrightarrow> length c = unat (file_size meta)))"
  have "wp True (run_pull E TcpTransport p) ?Q w"
  proof (rule tcp.run_pull_wp [OF assms(2,3), where ?meta0.0 = sample_meta and n = 0 and s = "[]" and data = "[]"],
         goal_cases)
    case (3 w1 msg meta s' c cm c')
    have t: "target p meta = p" using p(1) by (simp add: target_def)
    have res: "resumable w p h n = None" for h n using p(2) by (simp add: resumable_def)
    have cm: "cm = ChunkManager (chunk_count meta)" and c: "c = resize_to [] (unat (file_size meta))"
      using 3(6) t res by (auto simp: begun_def opened_def)
    obtain cm' where U: "updated E meta c cm (needed_chunks cm) c' cm'" and c': "files w1 p = Some c'"
      and sv: "\<not> all_done cm' \<longrightarrow> needed_chunks cm \<noteq> [] \<longrightarrow> saved p meta cm' w1"
      using 3(7) t by (auto simp: pulled_def split: if_splits)
    have nd: "i \<in> set (needed_chunks cm) \<longleftrightarrow> i < chunk_count meta" for i using fresh_needed cm by simp
    have ok': "cm_ok cm'" "cm_chunk_count cm' = chunk_count meta"
      using updated_cm [OF U] cm cm.fresh_law [of "chunk_count meta"] by simp_all
    have flag: "unat i \<in> done_set cm' \<longleftrightarrow> good E meta c' i" if "i < chunk_count meta" for i
      using updated_flag(2) [OF U] nd that by simp
    have len: "length c' = unat (file_size meta)" if "unat (chunk_count meta) = chunk_total (unat (file_size meta))"
    proof -
      have "length c = unat (file_size meta)" using c by simp
      then show ?thesis using updated_length [OF U] nd whole_parts [OF that] by simp
    qed
    show ?case
    proof (cases "all_done cm'")
      case True
      then have "\<forall>i < chunk_count meta. sha256_buf E (part meta c' i) = Ok (chunk_hashes meta ! unat i)"
        using done_set_all [OF ok'] flag by (simp add: good_def)
      then show ?thesis using 3(2,3) c' len by blast
    next
      case False
      have "0 < chunk_count meta" using 3(4) by (simp add: meta_small_def)
      then have "0 \<in> set (needed_chunks cm)" using nd by simp
      then have "saved p meta cm' w1" using sv False by (metis list.set(1) empty_iff)
      from saved_bits [OF this ok' \<open>0 < _\<close>] flag obtain raw where
        "files w1 (path_for p) = Some (chunk_hashes meta ! 0 @ raw)"
        "\<forall>i < chunk_count meta. bit_at raw (unat i) \<longleftrightarrow> good E meta c' i" by metis
      then show ?thesis using 3(2,3) c' len by blast
    qed
  qed simp_all
  from wpD [OF this run] show ?thesis by blast
qed

section \<open>Pusher and puller together\<close>

text \<open>
  \<open>resume_sound\<close>: what there is to resume, if anything, belongs to this file: the output has
  its size and every chunk flagged as done has its bytes.
\<close>

definition resume_sound :: "'e world_scheme \<Rightarrow> string \<Rightarrow> file_meta \<Rightarrow> u8 list \<Rightarrow> bool" where
  "resume_sound w out meta data \<longleftrightarrow>
     (case resumable w out (chunk_hashes meta ! 0) (chunk_count meta) of
        None \<Rightarrow> True
      | Some cm \<Rightarrow> length (contents w out) = length data \<and>
          (\<forall>i < chunk_count meta. unat i \<in> done_set cm \<longrightarrow> chunk_of (contents w out) (unat i) = chunk_of data (unat i)))"

lemma start_cm_ok:
  "cm_ok (start_cm w out meta) \<and> cm_chunk_count (start_cm w out meta) = chunk_count meta"
  using cm.fresh_law by (auto simp: start_cm_def resumable_def split: option.splits if_splits)

text \<open>A pull whose needed chunks all came as in \<open>data\<close> has \<open>data\<close>.\<close>

lemma pulled_all:
  assumes meta: "describes meta data" "hashed E data (chunk_hashes meta)"
    and sound: "resume_sound w out meta data"
    and bg: "begun False out meta w c cm" and pl: "pulled False E meta out c cm c' w'"
    and got: "\<forall>i \<in> set (needed_chunks cm). part meta c' i = part meta data i"
  shows "files w' out = Some data \<and> files w' (path_for out) = None"
proof -
  have D: "unat (chunk_count meta) = chunk_total (length data)" "unat (file_size meta) = length data"
    using meta(1) by (simp_all add: describes_def)
  have cm: "cm = start_cm w out meta" using bg opened_start by (auto simp: begun_def)
  note ok = start_cm_ok [of w out meta, folded cm]
  obtain cm' where U: "updated E meta c cm (needed_chunks cm) c' cm'" and c': "files w' out = Some c'"
    and fin: "all_done cm' \<longrightarrow> files w' (path_for out) = None"
    using pl by (auto simp: pulled_def split: if_splits)
  have nd: "i \<in> set (needed_chunks cm) \<longleftrightarrow> i < chunk_count meta \<and> unat i \<notin> done_set cm" for i
    using needed_iff ok by blast
  consider (fresh) "cm = ChunkManager (chunk_count meta)" "c = resize_to [] (length data)"
    | (resume) "length c = length data" "\<forall>i < chunk_count meta. unat i \<in> done_set cm \<longrightarrow> chunk_of c (unat i) = chunk_of data (unat i)"
    using bg sound D(2) by (auto simp: begun_def opened_def resume_sound_def contents_def)
  then have c: "length c = length data \<and> (\<forall>i < chunk_count meta. unat i \<in> done_set cm \<longrightarrow> chunk_of c (unat i) = chunk_of data (unat i))"
  proof cases
    case fresh
    then have "done_set cm = {}" using cm.fresh_law by simp
    then show ?thesis using fresh by simp
  qed blast
  have wp: "whole_part meta c i" if "i < chunk_count meta" for i
    by (rule whole_parts) (use D c that in simp_all)
  have len: "length c' = length data" using updated_length [OF U] wp nd c by simp
  have parts: "chunk_of c' (unat i) = chunk_of data (unat i)" if i: "i < chunk_count meta" for i
  proof -
    have same: "part meta x i = chunk_of x (unat i)" if "length x = length data" for x
    proof -
      have "unat (file_size meta) = length x" "unat i < chunk_total (length x)"
        using D i that by (simp_all add: word_less_nat_alt)
      from chunk_region(4) [OF this] show ?thesis by (simp add: part_def)
    qed
    show ?thesis
    proof (cases "unat i \<in> done_set cm")
      case False
      then have "part meta c' i = part meta data i" using got nd i by blast
      then show ?thesis using same [OF len] same [of data] by simp
    next
      case True
      then have "part meta c' i = part meta c i" using updated_other(2) [OF U] nd wp [OF i] by blast
      then show ?thesis using same len c True i by simp
    qed
  qed
  have idx: "\<exists>i < chunk_count meta. unat i = k" if "k < chunk_total (length data)" for k
  proof -
    have k: "k < unat (chunk_count meta)" using that D(1) by simp
    then have "unat (word_of_nat k :: u32) = k"
      using unsigned_less [of "chunk_count meta", where ?'a = nat] by (simp add: unat_of_nat)
    then show ?thesis using k by (metis word_less_nat_alt)
  qed
  have data: "c' = data"
    by (rule chunks_determine [OF len]) (use parts idx in metis)
  have "unat i \<in> done_set cm'" if i: "i < chunk_count meta" for i
  proof (cases "unat i \<in> done_set cm")
    case True
    then show ?thesis using updated_other(1) [OF U] nd by blast
  next
    case False
    then have "i \<in> set (needed_chunks cm)" using nd i by blast
    moreover have "good E meta data i" using meta(2) part_described [OF meta(1) i] i D(1)
      by (auto simp: good_def hashed_def word_less_nat_alt)
    ultimately show ?thesis using updated_flag(2) [OF U] data by simp
  qed
  then have "all_done cm'" using done_set_all updated_cm [OF U] ok by auto
  then show ?thesis using fin c' data by simp
qed


section \<open>Metadata without chunks\<close>

text \<open>A peer can drive the puller into undefined behaviour: in any fair environment, metadata
  that announce no chunk are accepted by the parser, and then \<^verbatim>\<open>chunk_hashes[0]\<close> is read from
  an empty vector.\<close>

theorem pull_no_chunks_undefined:
  assumes "tcp_inv w" and "fair w" and "100 + length (filemeta_enc meta) \<le> fuel w"
    and meta: "filemeta_ok meta" "chunk_count meta = 0" "msg_ok (meta_msg meta)"
    and peer: "sock_in w = frame (meta_msg meta) @ s"
  shows "\<exists>w'. run_pull E TcpTransport output_path w = Some (Undef, w')"
proof -
  have hs: "make_handshake \<lparr>token = []\<rparr> = Ok (hs_msg [])"
    by (simp add: make_handshake_Ok str_ok_def hs_msg_def)
  have parse: "parse_filemeta (meta_msg meta) = Ok meta"
    using parse_filemeta_complete [of "meta_msg meta" meta "[]"] meta(1) msg_ok_length [OF meta(3)] by (simp add: meta_msg_def)
  have none: "vec_at (chunk_hashes meta) 0 = Undef" using meta(1,2) by (simp add: vec_at_def filemeta_ok_def)
  have "wp False (run_pull E TcpTransport output_path) (\<lambda>r w'. r = Undef) w"
    unfolding run_pull_def hs io_bind_lift_Ok
  proof (subst wp_bind, rule tcp.wp_send_msg [OF assms(1), where n = "HEADER_SIZE + length (filemeta_enc meta) + 0"], goal_cases)
    case 1 then show ?case by (simp add: hs_msg_def)
  next
    case 2
    then show ?case using assms(2,3) by (simp add: ready_def hs_msg_def HEADER_SIZE_def)
  next
    case (3 w1)
    then have t1: "tcp_inv w1" "sock_in w1 = sock_in w" by (simp_all add: tcp.moved_out_def)
    show ?case unfolding on_ok_simps
    proof (subst wp_bind, rule tcp.wp_recv_msg [OF t1(1) 3(2)], goal_cases)
      case 1
      then show ?case using peer t1 meta(3) by (auto simp: meta_msg_def)
    next
      case (2 w2 msg)
      have "frame msg @ sock_in w2 = frame (meta_msg meta) @ s"
        using 2(2) peer t1(2) by (simp add: tcp.moved_in_def)
      from frame_ok_prefix [OF this 2(1) meta(3)] have "msg = meta_msg meta" by blast
      moreover have "m_type (meta_msg meta) = FILE_META" by (simp add: meta_msg_def)
      ultimately show ?case using parse none by (simp add: pull_file_def wp_simps)
    qed simp
  qed simp
  then show ?thesis by (auto simp: wp_total)
qed

section \<open>Witnesses\<close>

text \<open>One file of three bytes, its metadata under the stand-in digest, and both ends.\<close>

definition abc :: "u8 list" where "abc = [1, 2, 3]"

definition abc_meta :: file_meta where
  "abc_meta = \<lparr>file_name = ''f'', file_size = 3, chunk_size = 1048576, chunk_count = 1,
     chunk_hashes = [take HASH_SIZE (abc @ replicate HASH_SIZE 0)]\<rparr>"

lemma abc: "chunk_total (length abc) = 1" "length abc = 3" "abc \<noteq> []" "chunk_of abc 0 = abc"
  using one_chunk by (simp_all add: abc_def chunk_of_def region_def CHUNK_SIZE_def)

lemma abc_meta_ok: "filemeta_ok abc_meta" "length (filemeta_enc abc_meta) = 53"
proof -
  show ok: "filemeta_ok abc_meta"
    by (simp add: abc_meta_def filemeta_ok_def str_ok_def hash_ok_def abc_def HASH_SIZE_def)
  show "length (filemeta_enc abc_meta) = 53"
    unfolding length_filemeta_enc [OF ok]
    by (simp add: abc_meta_def FILE_SIZE_BYTES_def LEN_PREFIX_BYTES_def HASH_SIZE_def)
qed

lemma abc_meta: "describes abc_meta abc" "msg_ok (meta_msg abc_meta)" "hashed toy_evp abc (chunk_hashes abc_meta)"
proof -
  show "describes abc_meta abc" using abc_meta_ok abc by (simp add: describes_def) (simp add: abc_meta_def)
  show "msg_ok (meta_msg abc_meta)" using abc_meta_ok by (simp add: msg_ok_def meta_msg_def unat_MAX_PAYLOAD_SIZE)
  show "hashed toy_evp abc (chunk_hashes abc_meta)"
    using abc toy_evp(1) by (simp add: hashed_def) (simp add: abc_meta_def)
qed

lemma one_needed: "needed_chunks (ChunkManager 1) = [0]"
proof -
  have "map unat (needed_chunks (ChunkManager 1)) = map unat [0 :: u32]"
    using needed_chunks_spec [OF cm_ok_fresh, of 1] by (simp add: ChunkManager_def)
  then show ?thesis by (simp only: map_unat_inject)
qed

definition push_end :: tcp_world where
  "push_end = tcp_sample [''f'' \<mapsto> abc] (frame (hs_msg []) @ requests [0])"

definition pull_end :: tcp_world where
  "pull_end = tcp_sample Map.empty (answers abc abc_meta [0])"

lemma push_end_holds: "holds 3 \<lparr>of_path = ''f'', of_pos = 0\<rparr> (push_end\<lparr>fds := Map.empty\<rparr>) push_end"
  by (simp add: holds_def push_end_def tcp_sample_def later_def) (rule exI [of _ 0], simp)

lemma costs: "push_cost abc_meta [] 1 \<le> 2 ^ 27" "run_pull_cost abc_meta 1 \<le> 2 ^ 27"
  using abc_meta_ok(2)
  by (simp_all add: push_cost_def request_cost_def run_pull_cost_def pull_cost_def recv_cost_def load_cost_def save_cost_def
      bitmap_bytes_def abc_meta_def HEADER_SIZE_def CHUNK_SIZE_def HASH_SIZE_def)

lemma pull_end_start: "start_cm pull_end ''o'' abc_meta = ChunkManager 1" "resume_sound pull_end ''o'' abc_meta abc"
  by (simp_all add: start_cm_def resume_sound_def resumable_def pull_end_def abc_meta_def)

lemma push_runs: "\<exists>r w'. run_push TcpTransport 3 abc_meta push_end = Some (r, w')"
proof -
  have "wp False (run_push TcpTransport 3 abc_meta) (\<lambda>r w'. True) push_end"
    by (rule tcp.run_push_wp [OF _ push_end_holds _ abc_meta(1), where tok = "[]" and js = "[0]" and n = 0 and s = "[]"])
      (use costs abc in \<open>simp_all add: push_end_def ready_def str_ok_def abc_meta_def\<close>)
  then show ?thesis by (simp add: wp_total)
qed

lemma pull_runs: "\<exists>r w'. run_pull toy_evp TcpTransport ''o'' pull_end = Some (Ok r, w')"
proof -
  have "wp False (run_pull toy_evp TcpTransport ''o'') (\<lambda>r w'. \<exists>x. r = Ok x) pull_end"
    by (rule tcp.run_pull_wp [where ?meta0.0 = abc_meta and n = 0 and s = "[]" and data = abc])
      (use costs abc abc_meta pull_end_start one_needed in \<open>simp_all add: pull_end_def ready_def target_def\<close>)
  then show ?thesis by (auto simp: wp_total)
qed

lemma push_safe_witness:
  "\<exists>r w'. run_push TcpTransport 3 abc_meta push_end = Some (r, w') \<and> r \<noteq> Undef \<and> fds w' 3 = None"
proof -
  obtain r w' where run: "run_push TcpTransport 3 abc_meta push_end = Some (r, w')" using push_runs by blast
  have "r \<noteq> Undef \<and> tidy (push_end\<lparr>fds := Map.empty\<rparr>) w'"
    using push_safe [OF run _ push_end_holds _ abc_meta(1)] by (simp add: push_end_def)
  then show ?thesis using run by (auto simp: tidy_def)
qed

lemma push_completes_witness:
  "\<exists>w'. run_push TcpTransport 3 abc_meta push_end = Some (Ok (), w') \<and> sock_out w' = answers abc abc_meta [0]"
  using push_completes [OF _ push_end_holds _ abc_meta(1), of "[]" "[0]" "[]"] costs abc
  by (auto simp: push_end_def abc_meta_def)

lemma pull_safe_witness:
  "\<exists>r w'. run_pull toy_evp TcpTransport ''o'' pull_end = Some (Ok r, w') \<and> (\<exists>out. out = ''o'' \<and> only_output out pull_end w')"
proof -
  obtain r w' where run: "run_pull toy_evp TcpTransport ''o'' pull_end = Some (Ok r, w')" using pull_runs by blast
  from pull_safe [OF run] have "\<exists>out. out = ''o'' \<and> only_output out pull_end w'" by (simp add: pull_end_def)
  then show ?thesis using run by blast
qed

lemma pull_integrity_witness:
  "\<exists>w' c. run_pull toy_evp TcpTransport ''o'' pull_end = Some (Ok (), w') \<and> files w' ''o'' = Some c"
proof -
  obtain r w' where run: "run_pull toy_evp TcpTransport ''o'' pull_end = Some (Ok (), w')" using pull_runs by auto
  from pull_integrity [OF run] have "\<exists>c. files w' ''o'' = Some c" by (auto simp: pull_end_def)
  then show ?thesis using run by blast
qed


definition no_chunks :: file_meta where
  "no_chunks = \<lparr>file_name = ''f'', file_size = 0, chunk_size = 1048576, chunk_count = 0, chunk_hashes = []\<rparr>"

lemma no_chunks: "filemeta_ok no_chunks" "length (filemeta_enc no_chunks) = 21"
  by (simp_all add: no_chunks_def filemeta_ok_def str_ok_def filemeta_enc_def)

lemma pull_no_chunks_undefined_witness:
  "\<exists>w'. run_pull toy_evp TcpTransport ''o'' (tcp_sample Map.empty (frame (meta_msg no_chunks))) = Some (Undef, w')"
  by (rule pull_no_chunks_undefined [where meta = no_chunks and s = "[]"])
    (use no_chunks in \<open>simp_all add: msg_ok_def meta_msg_def unat_MAX_PAYLOAD_SIZE\<close>, simp add: no_chunks_def)

end
