(* ===== verification/Token_Store.thy ===== *)
theory Token_Store
  imports Embr_Prelude "HOL-Library.AList"
begin

text \<open>
  \<^verbatim>\<open>src/tracker/token_store.hpp\<close> and \<^verbatim>\<open>token_store.cpp\<close>: the tracker's table of tokens. The
  \<^verbatim>\<open>unordered_map\<close> is an association list with distinct keys, times are the nanoseconds of
  the steady clock, the lifetime is in minutes. Each operation takes the value that the clock
  has when the operation reads it; \<^verbatim>\<open>upsert\<close> reads it before it takes the lock, the others
  under the lock, so only the readings of the others are ordered like the operations. The
  comparison of an age with the lifetime converts the lifetime to nanoseconds in 64 bits,
  which is undefined when that overflows.

  The abstract table \<open>book\<close> never forgets a record but by \<^verbatim>\<open>remove\<close>; expiry is a test at
  the time of asking. The store refines it: eviction, lazy or swept, cannot be observed.
\<close>

section \<open>The code\<close>

record trecord =
  sender_ip :: string
  sender_port :: u16
  registered_at :: int

record token_store =
  tokens :: "(string \<times> trecord) list"
  ttl_min :: int

definition TokenStore :: "int \<Rightarrow> token_store" where
  "TokenStore ttl = \<lparr>tokens = [], ttl_min = ttl\<rparr>"

text \<open>The lifetime in nanoseconds.\<close>

definition ttl_ns :: "int \<Rightarrow> int res" where
  "ttl_ns m =
     (let n = m * 60000000000 in if - (2 ^ 63) \<le> n \<and> n < 2 ^ 63 then Ok n else Undef)"

definition expired :: "int \<Rightarrow> int \<Rightarrow> trecord \<Rightarrow> bool res" where
  "expired ttl now r = res_bind (ttl_ns ttl) (\<lambda>t. Ok (now - registered_at r > t))"

definition upsert :: "int \<Rightarrow> string \<Rightarrow> trecord \<Rightarrow> token_store \<Rightarrow> token_store" where
  "upsert now token r s = s\<lparr>tokens := AList.update token (r\<lparr>registered_at := now\<rparr>) (tokens s)\<rparr>"

definition expired_tokens :: "int \<Rightarrow> token_store \<Rightarrow> string list res" where
  "expired_tokens now s =
     res_foldl (\<lambda>acc (key, r). res_bind (expired (ttl_min s) now r) (\<lambda>e. Ok (if e then acc @ [key] else acc)))
       [] (tokens s)"

definition erase_tokens :: "string list \<Rightarrow> token_store \<Rightarrow> token_store" where
  "erase_tokens ts s = s\<lparr>tokens := foldl (\<lambda>m t. AList.delete t m) (tokens s) ts\<rparr>"

definition resolve :: "int \<Rightarrow> string \<Rightarrow> token_store \<Rightarrow> (trecord option \<times> token_store) res" where
  "resolve now token s =
     res_bind (expired_tokens now s) (\<lambda>ts.
       let s = erase_tokens ts s in Ok (map_of (tokens s) token, s))"

definition remove_token :: "string \<Rightarrow> token_store \<Rightarrow> bool \<times> token_store" where
  "remove_token token s =
     (map_of (tokens s) token \<noteq> None, s\<lparr>tokens := AList.delete token (tokens s)\<rparr>)"

definition sweep_expired :: "int \<Rightarrow> token_store \<Rightarrow> (nat \<times> token_store) res" where
  "sweep_expired now s =
     res_bind (expired_tokens now s) (\<lambda>ts. Ok (length ts, erase_tokens ts s))"

section \<open>Single operations\<close>

definition store_ok :: "token_store \<Rightarrow> bool" where
  "store_ok s \<longleftrightarrow> distinct (map fst (tokens s))"

text \<open>The record of a token, and the lifetimes that fit: up to 292 years.\<close>

definition lookup :: "token_store \<Rightarrow> string \<Rightarrow> trecord option" where
  "lookup s = map_of (tokens s)"

definition ttl_fits :: "int \<Rightarrow> bool" where
  "ttl_fits m \<longleftrightarrow> \<bar>m\<bar> \<le> 153722867"

definition too_old :: "int \<Rightarrow> int \<Rightarrow> trecord \<Rightarrow> bool" where
  "too_old m now r \<longleftrightarrow> now - registered_at r > m * 60000000000"

definition alive :: "int \<Rightarrow> int \<Rightarrow> trecord option \<Rightarrow> trecord option" where
  "alive m now x = (case x of None \<Rightarrow> None | Some r \<Rightarrow> if too_old m now r then None else Some r)"

lemma ttl_ns_fits: "ttl_fits m \<Longrightarrow> ttl_ns m = Ok (m * 60000000000)"
  by (auto simp: ttl_ns_def ttl_fits_def Let_def)

lemma expired_fits: "ttl_fits m \<Longrightarrow> expired m now r = Ok (too_old m now r)"
  by (simp add: expired_def ttl_ns_fits too_old_def)

lemma res_foldl_filter:
  "res_foldl (\<lambda>acc x. Ok (if p x then acc @ [g x] else acc)) acc xs = Ok (acc @ map g (filter p xs))"
  by (induction xs arbitrary: acc) auto

lemma expired_tokens_eq:
  assumes "ttl_fits (ttl_min s)"
  shows "expired_tokens now s = Ok (map fst (filter (\<lambda>x. too_old (ttl_min s) now (snd x)) (tokens s)))"
proof -
  have "expired_tokens now s =
    res_foldl (\<lambda>acc x. res_bind (expired (ttl_min s) now (snd x)) (\<lambda>e. Ok (if e then acc @ [fst x] else acc)))
      [] (tokens s)"
    unfolding expired_tokens_def by (intro arg_cong [where f = "\<lambda>f. res_foldl f [] (tokens s)"] ext) (simp add: case_prod_beta)
  then show ?thesis
    by (simp add: res_foldl_filter expired_fits [OF assms])
qed

lemma erase_tokens_lookup:
  "lookup (erase_tokens ts s) k = (if k \<in> set ts then None else lookup s k)"
proof -
  have "map_of (foldl (\<lambda>m t. AList.delete t m) m ts) k = (if k \<in> set ts then None else map_of m k)" for m :: "(string \<times> trecord) list"
    by (induction ts arbitrary: m) (auto simp: delete_conv')
  then show ?thesis by (simp add: erase_tokens_def lookup_def)
qed

lemma erase_tokens_ok: "store_ok s \<Longrightarrow> store_ok (erase_tokens ts s)"
proof -
  have "distinct (map fst m) \<Longrightarrow> distinct (map fst (foldl (\<lambda>m t. AList.delete t m) m ts))" for m :: "(string \<times> trecord) list"
    by (induction ts arbitrary: m) (auto simp: distinct_delete)
  then show "store_ok s \<Longrightarrow> store_ok (erase_tokens ts s)" by (simp add: erase_tokens_def store_ok_def)
qed

lemma erase_tokens_ttl [simp]: "ttl_min (erase_tokens ts s) = ttl_min s"
  by (simp add: erase_tokens_def)

text \<open>Erasing what has expired leaves exactly what is alive.\<close>

lemma erase_expired:
  assumes "store_ok s" and "ttl_fits (ttl_min s)" and "expired_tokens now s = Ok ts"
  shows "lookup (erase_tokens ts s) k = alive (ttl_min s) now (lookup s k)"
proof -
  have ts: "ts = map fst (filter (\<lambda>x. too_old (ttl_min s) now (snd x)) (tokens s))"
    using assms(3) expired_tokens_eq [OF assms(2), of now] by simp
  have "k \<in> set ts \<longleftrightarrow> (\<exists>r. lookup s k = Some r \<and> too_old (ttl_min s) now r)"
    using assms(1) by (auto simp: ts store_ok_def lookup_def image_iff)
  then show ?thesis by (auto simp: erase_tokens_lookup alive_def split: option.splits)
qed

lemma resolve_eq:
  assumes "store_ok s" and "ttl_fits (ttl_min s)"
  shows "\<exists>s'. resolve now token s = Ok (alive (ttl_min s) now (lookup s token), s') \<and> store_ok s'
    \<and> ttl_min s' = ttl_min s \<and> (\<forall>k. lookup s' k = alive (ttl_min s) now (lookup s k))"
  using erase_expired [OF assms expired_tokens_eq [OF assms(2)]] erase_tokens_ok [OF assms(1)]
  by (simp add: resolve_def expired_tokens_eq [OF assms(2)] Let_def lookup_def)

lemma sweep_eq:
  assumes "store_ok s" and "ttl_fits (ttl_min s)"
  shows "\<exists>s'. sweep_expired now s = Ok (card {k. \<exists>r. lookup s k = Some r \<and> too_old (ttl_min s) now r}, s')
    \<and> store_ok s' \<and> ttl_min s' = ttl_min s \<and> (\<forall>k. lookup s' k = alive (ttl_min s) now (lookup s k))"
proof -
  define xs where "xs = filter (\<lambda>x. too_old (ttl_min s) now (snd x)) (tokens s)"
  have d: "distinct (map fst (tokens s))" using assms(1) by (simp add: store_ok_def)
  then have "distinct (map fst xs)" unfolding xs_def by (rule distinct_map_filter)
  then have "length xs = card (set (map fst xs))" using distinct_card [of "map fst xs"] by simp
  also have "set (map fst xs) = {k. \<exists>r. lookup s k = Some r \<and> too_old (ttl_min s) now r}"
    using d by (auto simp: xs_def lookup_def image_iff)
  finally have "length (map fst xs) = card {k. \<exists>r. lookup s k = Some r \<and> too_old (ttl_min s) now r}" by simp
  moreover have e: "expired_tokens now s = Ok (map fst xs)"
    unfolding xs_def by (rule expired_tokens_eq [OF assms(2)])
  ultimately show ?thesis
    using erase_expired [OF assms e] erase_tokens_ok [OF assms(1)] by (simp add: sweep_expired_def)
qed

lemma upsert_simps:
  "lookup (upsert now token r s) = (lookup s)(token \<mapsto> r\<lparr>registered_at := now\<rparr>)"
  "ttl_min (upsert now token r s) = ttl_min s"
  "store_ok s \<Longrightarrow> store_ok (upsert now token r s)"
  by (simp_all add: lookup_def upsert_def store_ok_def update_conv' distinct_update)

lemma remove_simps:
  "lookup (snd (remove_token token s)) = (lookup s)(token := None)"
  "fst (remove_token token s) \<longleftrightarrow> lookup s token \<noteq> None"
  "ttl_min (snd (remove_token token s)) = ttl_min s"
  "store_ok s \<Longrightarrow> store_ok (snd (remove_token token s))"
  by (simp_all add: lookup_def remove_token_def store_ok_def delete_conv' distinct_delete)

lemma TokenStore_simps [simp]:
  "lookup (TokenStore m) = Map.empty" "ttl_min (TokenStore m) = m" "store_ok (TokenStore m)"
  by (simp_all add: TokenStore_def lookup_def store_ok_def fun_eq_iff)

section \<open>Histories\<close>

datatype store_op =
    Upsert int string trecord
  | Resolve int string
  | Remove string
  | Sweep int

text \<open>What a caller learns of an operation is the answer of \<^verbatim>\<open>resolve\<close>.\<close>

primrec store_step :: "store_op \<Rightarrow> token_store \<Rightarrow> (trecord option \<times> token_store) res" where
  "store_step (Upsert t k r) s = Ok (None, upsert t k r s)"
| "store_step (Resolve t k) s = resolve t k s"
| "store_step (Remove k) s = Ok (None, snd (remove_token k s))"
| "store_step (Sweep t) s = res_bind (sweep_expired t s) (\<lambda>(n, s). Ok (None, s))"

primrec store_run :: "store_op list \<Rightarrow> token_store \<Rightarrow> (trecord option list \<times> token_store) res" where
  "store_run [] s = Ok ([], s)"
| "store_run (p # ps) s =
     res_bind (store_step p s) (\<lambda>(a, s).
     res_bind (store_run ps s) (\<lambda>(as, s). Ok (a # as, s)))"

type_synonym book = "string \<Rightarrow> trecord option"

primrec book_step :: "int \<Rightarrow> store_op \<Rightarrow> book \<Rightarrow> trecord option \<times> book" where
  "book_step m (Upsert t k r) b = (None, b(k \<mapsto> r\<lparr>registered_at := t\<rparr>))"
| "book_step m (Resolve t k) b = (alive m t (b k), b)"
| "book_step m (Remove k) b = (None, b(k := None))"
| "book_step m (Sweep t) b = (None, b)"

primrec book_run :: "int \<Rightarrow> store_op list \<Rightarrow> book \<Rightarrow> trecord option list" where
  "book_run m [] b = []"
| "book_run m (p # ps) b = (let (a, b) = book_step m p b in a # book_run m ps b)"

text \<open>The clock readings made under the lock, in order.\<close>

primrec op_clock :: "store_op \<Rightarrow> int list" where
  "op_clock (Upsert t k r) = []"
| "op_clock (Resolve t k) = [t]"
| "op_clock (Remove k) = []"
| "op_clock (Sweep t) = [t]"

text \<open>The store holds what the book holds, but for records that had expired by \<open>t\<close>.\<close>

definition matches :: "int \<Rightarrow> token_store \<Rightarrow> book \<Rightarrow> bool" where
  "matches t s b \<longleftrightarrow> store_ok s \<and>
     (\<forall>k. lookup s k = b k \<or> lookup s k = None \<and> (\<exists>r. b k = Some r \<and> too_old (ttl_min s) t r))"

lemma alive_matches:
  assumes "matches t s b" and "t \<le> now"
  shows "alive (ttl_min s) now (lookup s k) = alive (ttl_min s) now (b k)"
proof -
  from assms(1) consider "lookup s k = b k"
    | r where "lookup s k = None" "b k = Some r" "too_old (ttl_min s) t r"
    unfolding matches_def by blast
  then show ?thesis using assms(2) by cases (auto simp: alive_def too_old_def)
qed

lemma alive_evicts: "alive m now x = x \<or> alive m now x = None \<and> (\<exists>r. x = Some r \<and> too_old m now r)"
  by (auto simp: alive_def split: option.splits)

lemma matches_evicted:
  assumes "matches t s b" and "t \<le> now" and "store_ok s'" and "ttl_min s' = ttl_min s"
    and "\<forall>k. lookup s' k = alive (ttl_min s) now (lookup s k)"
  shows "matches now s' b"
proof -
  have "lookup s' k = alive (ttl_min s) now (b k)" for k
    using assms(5) alive_matches [OF assms(1,2)] by simp
  then show ?thesis using alive_evicts [of "ttl_min s" now] assms(3,4) by (auto simp: matches_def)
qed

lemma store_step_matches:
  assumes "matches t s b" and "ttl_fits (ttl_min s)" and "\<forall>u \<in> set (op_clock p). t \<le> u"
  shows "\<exists>s'. store_step p s = Ok (fst (book_step (ttl_min s) p b), s')
    \<and> matches (last (t # op_clock p)) s' (snd (book_step (ttl_min s) p b)) \<and> ttl_min s' = ttl_min s"
proof (cases p)
  case (Upsert u k r)
  then show ?thesis using assms(1) by (auto simp: matches_def upsert_simps)
next
  case (Resolve u k)
  have ok: "store_ok s" using assms(1) by (simp add: matches_def)
  have "t \<le> u" using assms(3) Resolve by simp
  from resolve_eq [OF ok assms(2), of u k] obtain s' where
    s': "resolve u k s = Ok (alive (ttl_min s) u (lookup s k), s')" "store_ok s'" "ttl_min s' = ttl_min s"
      "\<forall>k. lookup s' k = alive (ttl_min s) u (lookup s k)" by blast
  from matches_evicted [OF assms(1) \<open>t \<le> u\<close> s'(2-4)] have "matches u s' b" .
  then show ?thesis using s'(1,3) alive_matches [OF assms(1) \<open>t \<le> u\<close>, of k] Resolve by simp
next
  case (Remove k)
  then show ?thesis using assms(1) by (auto simp: matches_def remove_simps)
next
  case (Sweep u)
  have ok: "store_ok s" using assms(1) by (simp add: matches_def)
  have "t \<le> u" using assms(3) Sweep by simp
  from sweep_eq [OF ok assms(2), of u] obtain n s' where
    s': "sweep_expired u s = Ok (n, s')" "store_ok s'" "ttl_min s' = ttl_min s"
      "\<forall>k. lookup s' k = alive (ttl_min s) u (lookup s k)" by blast
  from matches_evicted [OF assms(1) \<open>t \<le> u\<close> s'(2-4)] have "matches u s' b" .
  then show ?thesis using s'(1,3) Sweep by simp
qed

lemma store_run_matches:
  assumes "matches t s b" and "ttl_fits (ttl_min s)" and "sorted (t # concat (map op_clock ps))"
  shows "\<exists>s'. store_run ps s = Ok (book_run (ttl_min s) ps b, s')"
  using assms
proof (induction ps arbitrary: t s b)
  case Nil
  then show ?case by simp
next
  case (Cons p ps)
  have srt: "sorted (last (t # op_clock p) # concat (map op_clock ps))"
    and "\<forall>u \<in> set (op_clock p). t \<le> u"
    using Cons.prems(3) by (cases p; simp)+
  then obtain s' where s': "store_step p s = Ok (fst (book_step (ttl_min s) p b), s')"
    "matches (last (t # op_clock p)) s' (snd (book_step (ttl_min s) p b))" "ttl_min s' = ttl_min s"
    using store_step_matches [OF Cons.prems(1,2)] by blast
  from Cons.IH [OF s'(2) _ srt] obtain s'' where
    "store_run ps s' = Ok (book_run (ttl_min s) ps (snd (book_step (ttl_min s) p b)), s'')"
    using s'(3) Cons.prems(2) by auto
  then show ?case using s'(1) by (simp add: case_prod_beta Let_def)
qed

section \<open>Properties\<close>


text \<open>A sweep removes exactly the expired records, counts them, and changes no other; after
  it, and after every \<^verbatim>\<open>resolve\<close>, the store holds no expired record.\<close>

theorem sweep_exact:
  assumes "store_ok s" and "ttl_fits (ttl_min s)"
  shows "\<exists>s'. sweep_expired now s = Ok (card {k. \<exists>r. lookup s k = Some r \<and> too_old (ttl_min s) now r}, s')
    \<and> store_ok s' \<and> (\<forall>k. lookup s' k = alive (ttl_min s) now (lookup s k))
    \<and> (\<exists>s''. resolve now token s = Ok (lookup s' token, s'') \<and> store_ok s'' \<and> lookup s'' = lookup s')"
  using sweep_eq [OF assms, of now] resolve_eq [OF assms, of now token] by (auto simp: fun_eq_iff)

text \<open>A lifetime that does not fit 64 bits in nanoseconds makes the first look at a
  registered token undefined: the tracker accepts it and fails later.\<close>

theorem ttl_overflow_undefined:
  assumes "153722868 \<le> ttl"
  shows "resolve now k (upsert t token r (TokenStore ttl)) = Undef"
  using assms
  by (simp add: resolve_def upsert_def TokenStore_def expired_tokens_def expired_def ttl_ns_def)

section \<open>Witnesses\<close>

definition sample_record :: trecord where
  "sample_record = \<lparr>sender_ip = ''1.2.3.4'', sender_port = 4747, registered_at = 0\<rparr>"


lemma sweep_exact_witness:
  "\<exists>s'. sweep_expired 7 (upsert 5 ''a'' sample_record (TokenStore 0)) = Ok (1, s') \<and> lookup s' ''a'' = None"
  using sweep_exact [of "upsert 5 ''a'' sample_record (TokenStore 0)" 7 "''a''"]
  by (auto simp: upsert_simps ttl_fits_def too_old_def alive_def split: if_splits)

lemma ttl_overflow_undefined_witness:
  "resolve 1 ''a'' (upsert 0 ''a'' sample_record (TokenStore 200000000)) = Undef"
  using ttl_overflow_undefined [of 200000000] by simp

end
