(* ===== verification/Cpp_Text.thy ===== *)
theory Cpp_Text
  imports Embr_Prelude "HOL-Library.Sublist" "HOL-Library.Char_ord"
begin

text \<open>
  The parts of the C++ string library that the tracker and the command line use: searching
  (\<^verbatim>\<open>std::string::find\<close>), decimal output (\<^verbatim>\<open>std::to_string\<close>) and decimal input
  (\<^verbatim>\<open>std::stoul\<close>, \<^verbatim>\<open>std::stoi\<close>: leading white space, a sign, the longest run of digits,
  \<^verbatim>\<open>invalid_argument\<close> without a digit, \<^verbatim>\<open>out_of_range\<close> when the value does not fit), with
  the lemmas that let a search skip over a text and a number be read back. Then the flat
  JSON scanner of \<^verbatim>\<open>src/util/json_parser.hpp\<close>.
\<close>

section \<open>Searching\<close>

fun str_find :: "string \<Rightarrow> string \<Rightarrow> nat option" where
  "str_find needle [] = (if needle = [] then Some 0 else None)"
| "str_find needle (c # cs) =
     (if prefix needle (c # cs) then Some 0 else map_option Suc (str_find needle cs))"

definition str_find_from :: "string \<Rightarrow> string \<Rightarrow> nat \<Rightarrow> nat option" where
  "str_find_from needle s pos = map_option ((+) pos) (str_find needle (drop pos s))"

primrec str_rfind :: "char \<Rightarrow> string \<Rightarrow> nat option" where
  "str_rfind c [] = None"
| "str_rfind c (d # ds) =
     (case str_rfind c ds of Some n \<Rightarrow> Some (Suc n) | None \<Rightarrow> if d = c then Some 0 else None)"

lemma str_rfind_absent [simp]: "str_rfind c s = None \<longleftrightarrow> c \<notin> set s"
  by (induction s) (auto split: option.splits)

lemma str_rfind_last: "c \<notin> set b \<Longrightarrow> str_rfind c (a @ c # b) = Some (length a)"
proof (induction a)
  case Nil
  then show ?case using str_rfind_absent [of c b] by (simp del: str_rfind_absent)
qed simp

lemma str_rfind_append: "c \<notin> set b \<Longrightarrow> str_rfind c (a @ b) = str_rfind c a"
proof (induction a)
  case Nil
  then show ?case by simp
qed (auto split: option.splits)

lemma str_find_hit: "prefix needle s \<Longrightarrow> str_find needle s = Some 0"
  by (cases s) auto

text \<open>A text that does not hold the first character of the needle is skipped.\<close>

lemma str_find_skip:
  "c \<notin> set xs \<Longrightarrow> str_find (c # needle) (xs @ ys) = map_option ((+) (length xs)) (str_find (c # needle) ys)"
  by (induction xs) (cases "str_find (c # needle) ys"; auto)+

lemma str_find_absent: "c \<notin> set xs \<Longrightarrow> str_find (c # needle) xs = None"
  using str_find_skip [of c xs needle "[]"] by simp

lemma str_find_char: "c \<notin> set xs \<Longrightarrow> str_find [c] (xs @ c # ys) = Some (length xs)"
  by (simp add: str_find_skip)

text \<open>Two texts that agree up to their first quote agree before it.\<close>

lemma prefix_delimited:
  "q \<notin> set a \<Longrightarrow> q \<notin> set b \<Longrightarrow> prefix (a @ q # x) (b @ q # y) \<Longrightarrow> a = b \<and> prefix x y"
proof (induction a arbitrary: b)
  case Nil
  then show ?case by (cases b) auto
next
  case (Cons c a)
  then show ?case by (cases b) auto
qed

section \<open>Decimal numbers\<close>

definition is_digit :: "char \<Rightarrow> bool" where
  "is_digit c \<longleftrightarrow> 48 \<le> (of_char c :: nat) \<and> of_char c \<le> (57 :: nat)"

definition is_space :: "char \<Rightarrow> bool" where
  "is_space c \<longleftrightarrow> of_char c = (32 :: nat) \<or> (9 \<le> (of_char c :: nat) \<and> of_char c \<le> (13 :: nat))"

definition digit_char :: "nat \<Rightarrow> char" where
  "digit_char n = char_of (48 + n)"

definition digit_val :: "char \<Rightarrow> nat" where
  "digit_val c = of_char c - 48"

fun to_string :: "nat \<Rightarrow> string" where
  "to_string n = (if n < 10 then [digit_char n] else to_string (n div 10) @ [digit_char (n mod 10)])"

declare to_string.simps [simp del]

definition digits_val :: "string \<Rightarrow> nat" where
  "digits_val ds = foldl (\<lambda>v c. 10 * v + digit_val c) 0 ds"

text \<open>The sign and the digits that \<^verbatim>\<open>strtol\<close> and \<^verbatim>\<open>strtoul\<close> accept at base ten.\<close>

definition number_text :: "string \<Rightarrow> bool \<times> string" where
  "number_text s =
     (let t = dropWhile is_space s
      in case t of
           [] \<Rightarrow> (False, [])
         | c # cs \<Rightarrow>
             if c = CHR ''-'' then (True, takeWhile is_digit cs)
             else if c = CHR ''+'' then (False, takeWhile is_digit cs)
             else (False, takeWhile is_digit t))"

definition stoul :: "string \<Rightarrow> u64 res" where
  "stoul s =
     (let (neg, ds) = number_text s
      in if ds = [] then Throw (Invalid_argument ''stoul'')
         else if digits_val ds \<ge> 2 ^ 64 then Throw (Out_of_range ''stoul'')
         else Ok (if neg then - word_of_nat (digits_val ds) else word_of_nat (digits_val ds)))"

definition stoi :: "string \<Rightarrow> int res" where
  "stoi s =
     (let (neg, ds) = number_text s; v = (if neg then - int (digits_val ds) else int (digits_val ds))
      in if ds = [] then Throw (Invalid_argument ''stoi'')
         else if v < - (2 ^ 31) \<or> 2 ^ 31 \<le> v then Throw (Out_of_range ''stoi'')
         else Ok v)"

lemma digit_char [simp]:
  "n < 10 \<Longrightarrow> is_digit (digit_char n)" "n < 10 \<Longrightarrow> digit_val (digit_char n) = n"
  by (simp_all add: is_digit_def digit_val_def digit_char_def)

lemma digits_val_snoc [simp]: "digits_val (ds @ [c]) = 10 * digits_val ds + digit_val c"
  by (simp add: digits_val_def)

lemma to_string_digits: "\<forall>c \<in> set (to_string n). is_digit c"
  by (induction n rule: to_string.induct) (subst to_string.simps, auto)

lemma to_string_not_Nil [simp]: "to_string n \<noteq> []"
  by (subst to_string.simps) simp

lemma digits_val_to_string [simp]: "digits_val (to_string n) = n"
proof (induction n rule: to_string.induct)
  case (1 n)
  show ?case
  proof (cases "n < 10")
    case True
    then show ?thesis by (simp add: to_string.simps [of n] digits_val_def)
  next
    case False
    then show ?thesis using 1 by (simp add: to_string.simps [of n])
  qed
qed

lemma digit_not_other:
  assumes "is_digit c"
  shows "\<not> is_space c" "c \<noteq> CHR ''-''" "c \<noteq> CHR ''+''" "c \<noteq> CHR 0x22"
  using assms by (auto simp: is_digit_def is_space_def)

lemma quote_not_in_to_string [simp]: "CHR 0x22 \<notin> set (to_string n)"
  using to_string_digits digit_not_other(4) by blast

text \<open>What \<^verbatim>\<open>to_string\<close> printed is read back up to the next character that is no digit.\<close>

lemma number_text_to_string:
  assumes "rest = [] \<or> \<not> is_digit (hd rest)"
  shows "number_text (to_string n @ rest) = (False, to_string n)"
proof -
  obtain c cs where n: "to_string n = c # cs" using to_string_not_Nil by (cases "to_string n") auto
  then have d: "\<forall>x \<in> set (c # cs). is_digit x" using to_string_digits [of n] by simp
  have "takeWhile is_digit (to_string n @ rest) = to_string n"
    using assms d n by (cases rest) auto
  then show ?thesis using d digit_not_other [of c] by (simp add: number_text_def n)
qed

lemma stoul_to_string:
  assumes "rest = [] \<or> \<not> is_digit (hd rest)" and "n < 2 ^ 64"
  shows "stoul (to_string n @ rest) = Ok (word_of_nat n)"
  using assms by (simp add: stoul_def number_text_to_string)

lemma stoi_to_string:
  assumes "n < 2 ^ 31"
  shows "stoi (to_string n) = Ok (int n)"
proof -
  have "number_text (to_string n) = (False, to_string n)"
    using number_text_to_string [of "[]" n] by simp
  moreover have "int n < 2 ^ 31" using assms by simp
  ultimately show ?thesis by (simp add: stoi_def)
qed

section \<open>Flat JSON\<close>

abbreviation quote_char :: char where "quote_char \<equiv> CHR 0x22"

text \<open>\<^verbatim>\<open>"key":"value"\<close> and \<^verbatim>\<open>"key":value\<close>; an absent field is empty, or 0.\<close>

definition json_get_str :: "string \<Rightarrow> string \<Rightarrow> string" where
  "json_get_str body key =
     (let needle = CHR 0x22 # key @ [CHR 0x22, CHR '':'', CHR 0x22]
      in case str_find needle body of
           None \<Rightarrow> []
         | Some key_pos \<Rightarrow>
             let val_start = key_pos + length needle
             in case str_find_from [CHR 0x22] body val_start of
                  None \<Rightarrow> []
                | Some val_end \<Rightarrow> take (val_end - val_start) (drop val_start body))"

definition json_get_u16 :: "string \<Rightarrow> string \<Rightarrow> u16" where
  "json_get_u16 body key =
     (let needle = CHR 0x22 # key @ [CHR 0x22, CHR '':'']
      in case str_find needle body of
           None \<Rightarrow> 0
         | Some key_pos \<Rightarrow>
             case stoul (drop (key_pos + length needle) body) of
               Ok v \<Rightarrow> ucast v
             | Throw e \<Rightarrow> 0
             | Undef \<Rightarrow> 0)"

lemma drop_two: "drop (length a + length b) (a @ b @ c) = c"
  by simp

lemma json_get_str_found:
  assumes "b = pre @ (quote_char # key @ [quote_char, CHR '':'', quote_char]) @ v @ quote_char # rest"
    and "str_find (quote_char # key @ [quote_char, CHR '':'', quote_char]) b = Some (length pre)"
    and "quote_char \<notin> set v"
  shows "json_get_str b key = v"
proof -
  let ?needle = "quote_char # key @ [quote_char, CHR '':'', quote_char]"
  have "drop (length pre + length ?needle) b = v @ quote_char # rest" by (simp only: assms(1) drop_two)
  then have "str_find_from [quote_char] b (length pre + length ?needle) = Some (length pre + length ?needle + length v)"
    "take (length v) (drop (length pre + length ?needle) b) = v"
    using assms(3) by (simp_all add: str_find_from_def str_find_char)
  then show ?thesis
    using assms(2) unfolding json_get_str_def by (simp only: Let_def option.case) simp
qed

lemma json_get_u16_found:
  assumes "b = pre @ (quote_char # key @ [quote_char, CHR '':'']) @ to_string (unat p) @ rest"
    and "str_find (quote_char # key @ [quote_char, CHR '':'']) b = Some (length pre)"
    and "rest = [] \<or> \<not> is_digit (hd rest)"
  shows "json_get_u16 b key = p"
proof -
  let ?needle = "quote_char # key @ [quote_char, CHR '':'']"
  have "unat p < 2 ^ 64" using unsigned_less [of p, where 'a = nat] by simp
  moreover have "drop (length pre + length ?needle) b = to_string (unat p) @ rest" by (simp only: assms(1) drop_two)
  ultimately have "stoul (drop (length pre + length ?needle) b) = Ok (word_of_nat (unat p))"
    using assms(3) by (simp only: stoul_to_string)
  then show ?thesis
    using assms(2) unfolding json_get_u16_def
    by (simp only: Let_def option.case res.case) (simp add: unsigned_ucast_eq bit_eq_iff bit_simps)
qed

lemma json_get_str_absent:
  "str_find (CHR 0x22 # key @ [CHR 0x22, CHR '':'', CHR 0x22]) body = None \<Longrightarrow> json_get_str body key = []"
  by (simp add: json_get_str_def)

end
