(* ===== verification/Tracker.thy ===== *)
theory Tracker
  imports Token_Store Cpp_Text Embr_Sys
begin

text \<open>
  The tracker: \<^verbatim>\<open>src/tracker/tracker_handlers.cpp\<close> (validation of tokens, the address of a
  client, the three request handlers) and \<^verbatim>\<open>src/tracker/tracker_server.cpp\<close> (the routes, the
  sweeper thread and the shutdown). Of \<^verbatim>\<open>httplib\<close> only the parts of a request that the
  handlers read are modelled: body, header lookup, peer address and path parameters. Log
  output is left out.
\<close>

section \<open>The handlers\<close>

record http_request =
  body :: string
  headers :: "string \<Rightarrow> string option"
  remote_addr :: string
  path_params :: "string \<Rightarrow> string option"

record http_response =
  status :: int
  content :: string

type_synonym handler =
  "int \<Rightarrow> http_request \<Rightarrow> http_response \<Rightarrow> token_store \<Rightarrow> (http_response \<times> token_store) res"

definition quoted :: "string \<Rightarrow> string" where
  "quoted s = quote_char # s @ [quote_char]"

definition hex_lower :: "char \<Rightarrow> bool" where
  "hex_lower c \<longleftrightarrow> c \<in> set ''0123456789abcdef''"

definition valid_token :: "string \<Rightarrow> bool" where
  "valid_token token \<longleftrightarrow> length token = TOKEN_SIZE \<and> list_all hex_lower token"

definition client_ip :: "http_request \<Rightarrow> string" where
  "client_ip req =
     (case headers req ''X-Forwarded-For'' of
        Some xff \<Rightarrow> (case str_find '','' xff of Some comma_pos \<Rightarrow> take comma_pos xff | None \<Rightarrow> [])
      | None \<Rightarrow> remote_addr req)"

text \<open>The bodies of the answers.\<close>

definition error_body :: "string \<Rightarrow> string" where
  "error_body reason = ''{'' @ quoted ''error'' @ '':'' @ quoted reason @ ''}''"

definition registered_body :: "string \<Rightarrow> string" where
  "registered_body ip = ''{'' @ quoted ''sender_ip'' @ '':'' @ quoted ip @ ''}''"

definition resolved_body :: "string \<Rightarrow> u16 \<Rightarrow> string" where
  "resolved_body ip port =
     ''{'' @ quoted ''sender_ip'' @ '':'' @ quoted ip @ '','' @ quoted ''sender_port'' @ '':''
       @ to_string (unat port) @ ''}''"

definition handle_register :: handler where
  "handle_register now req resp store =
     (let token = json_get_str (body req) ''token'';
          port = json_get_u16 (body req) ''sender_port'';
          given_ip = json_get_str (body req) ''sender_ip''
      in if \<not> valid_token token \<or> port = 0
         then Ok (resp\<lparr>status := 400, content := error_body ''malformed token or missing port''\<rparr>, store)
         else
           let ip = (if given_ip = [] then client_ip req else given_ip);
               store = upsert now token \<lparr>sender_ip = ip, sender_port = port, registered_at = 0\<rparr> store
           in Ok (resp\<lparr>status := 200, content := registered_body ip\<rparr>, store))"

text \<open>\<^verbatim>\<open>req.path_params.at("token")\<close> throws when the route has no such parameter.\<close>

definition token_param :: "http_request \<Rightarrow> string res" where
  "token_param req =
     (case path_params req ''token'' of Some t \<Rightarrow> Ok t | None \<Rightarrow> Throw (Out_of_range ''unordered_map::at''))"

definition handle_resolve :: handler where
  "handle_resolve now req resp store =
     res_bind (token_param req) (\<lambda>token.
       if \<not> valid_token token
       then Ok (resp\<lparr>status := 400, content := error_body ''malformed token''\<rparr>, store)
       else res_bind (resolve now token store) (\<lambda>(found, store).
         case found of
           None \<Rightarrow> Ok (resp\<lparr>status := 404, content := error_body ''token not found''\<rparr>, store)
         | Some r \<Rightarrow>
             Ok (resp\<lparr>status := 200, content := resolved_body (sender_ip r) (sender_port r)\<rparr>, store)))"

definition handle_unregister :: handler where
  "handle_unregister now req resp store =
     res_bind (token_param req) (\<lambda>token.
       if \<not> valid_token token
       then Ok (resp\<lparr>status := 400, content := error_body ''malformed token''\<rparr>, store)
       else Ok (resp\<lparr>status := 204\<rparr>, snd (remove_token token store)))"

section \<open>Reading the bodies back\<close>

definition register_body :: "string \<Rightarrow> u16 \<Rightarrow> string" where
  "register_body token port =
     ''{'' @ quoted ''token'' @ '':'' @ quoted token @ '','' @ quoted ''sender_port'' @ '':''
       @ to_string (unat port) @ ''}''"

lemma hex_lower_chars: "hex_lower c \<Longrightarrow> c \<noteq> quote_char \<and> c \<noteq> CHR ''s''"
  by (auto simp: hex_lower_def)

lemma valid_token_chars:
  assumes "valid_token token"
  shows "quote_char \<notin> set token" "CHR ''s'' \<notin> set token"
  using assms hex_lower_chars by (auto simp: valid_token_def list_all_iff)

lemma not_digit_brace [simp]: "\<not> is_digit (CHR ''}'')"
  by (simp add: is_digit_def)

lemma find_quoted_tail:
  "str_find (quote_char # needle) (to_string n @ ''}'') = None"
  by (rule str_find_absent) simp

text \<open>No key is found across the end of a quoted text without quotes.\<close>

lemma key_not_in_value:
  assumes "quote_char \<notin> set key" and "quote_char \<notin> set v"
  shows "\<not> prefix (key @ quote_char # CHR '':'' # x) (v @ quote_char # CHR '','' # y)"
  using prefix_delimited [OF assms, of "CHR '':'' # x" "CHR '','' # y"] by auto

lemma register_body_parts:
  assumes "valid_token token"
  shows "json_get_str (register_body token port) ''token'' = token"
    and "json_get_u16 (register_body token port) ''sender_port'' = port"
    and "json_get_str (register_body token port) ''sender_ip'' = []"
proof -
  note tc = valid_token_chars [OF assms]
  note skip = str_find_skip [where c = quote_char and xs = token, OF tc(1)]
  have n1: "\<not> prefix (''sender_port'' @ quote_char # CHR '':'' # x) (token @ quote_char # CHR '','' # y)"
    and n2: "\<not> prefix (''sender_ip'' @ quote_char # CHR '':'' # x) (token @ quote_char # CHR '','' # y)" for x y
    using tc(1) by (intro key_not_in_value; simp)+
  show "json_get_str (register_body token port) ''token'' = token"
    by (rule json_get_str_found [where pre = "''{''"
          and rest = "'','' @ quoted ''sender_port'' @ '':'' @ to_string (unat port) @ ''}''"])
      (use tc(1) in \<open>simp_all add: register_body_def quoted_def\<close>)
  show "json_get_u16 (register_body token port) ''sender_port'' = port"
    by (rule json_get_u16_found [where pre = "''{'' @ quoted ''token'' @ '':'' @ quoted token @ '',''"
          and rest = "''}''"])
      (use skip n1 in \<open>simp_all add: register_body_def quoted_def\<close>)
  show "json_get_str (register_body token port) ''sender_ip'' = []"
    by (rule json_get_str_absent)
      (use skip n2 in \<open>simp add: register_body_def quoted_def find_quoted_tail\<close>)
qed
lemma resolved_body_parts:
  assumes "quote_char \<notin> set ip"
  shows "json_get_str (resolved_body ip port) ''sender_ip'' = ip"
    and "json_get_u16 (resolved_body ip port) ''sender_port'' = port"
proof -
  note skip = str_find_skip [where c = quote_char and xs = ip, OF assms]
  have n: "\<not> prefix (''sender_port'' @ quote_char # CHR '':'' # x) (ip @ quote_char # CHR '','' # y)" for x y
    using assms by (intro key_not_in_value; simp)
  show "json_get_str (resolved_body ip port) ''sender_ip'' = ip"
    by (rule json_get_str_found [where pre = "''{''"
          and rest = "'','' @ quoted ''sender_port'' @ '':'' @ to_string (unat port) @ ''}''"])
      (use assms in \<open>simp_all add: resolved_body_def quoted_def\<close>)
  show "json_get_u16 (resolved_body ip port) ''sender_port'' = port"
    by (rule json_get_u16_found [where pre = "''{'' @ quoted ''sender_ip'' @ '':'' @ quoted ip @ '',''"
          and rest = "''}''"])
      (use skip n in \<open>simp_all add: resolved_body_def quoted_def\<close>)
qed

section \<open>The server\<close>

datatype http_method = GET | POST

definition tracker_routes :: "(http_method \<times> string \<times> handler) list" where
  "tracker_routes =
     [(POST, ''/register'', handle_register),
      (GET, ''/resolve/:token'', handle_resolve),
      (POST, ''/unregister/:token'', handle_unregister)]"

text \<open>
  The sweeper thread. It is about to test its stop token in the outer loop, has slept \<open>i\<close>
  of its sixty seconds, is about to test the stop token before a sweep, or has ended.
\<close>

datatype sweeper = Outer | Sleeping nat | Woken | Ended

definition sweeper_step ::
  "int \<Rightarrow> bool \<Rightarrow> sweeper \<times> token_store \<Rightarrow> (sweeper \<times> token_store) res" where
  "sweeper_step now stop_requested p =
     (let (k, store) = p
      in case k of
           Outer \<Rightarrow> Ok (if \<not> stop_requested then Sleeping 0 else Ended, store)
         | Sleeping i \<Rightarrow> Ok (if i < 60 \<and> \<not> stop_requested then Sleeping (i + 1) else Woken, store)
         | Woken \<Rightarrow>
             if stop_requested then Ok (Ended, store)
             else res_bind (sweep_expired now store) (\<lambda>(evicted, store). Ok (Outer, store))
         | Ended \<Rightarrow> Ok (Ended, store))"

text \<open>
  The main thread listens until the signal handler stops the server, then asks the sweeper
  to stop, and joins it. Requests are served while it listens.
\<close>

datatype main_phase = Listening | Stopped | Joining

record tracker =
  tr_store :: token_store
  tr_sweeper :: sweeper
  tr_main :: main_phase

definition tracker_init :: "int \<Rightarrow> tracker" where
  "tracker_init ttl = \<lparr>tr_store = TokenStore ttl, tr_sweeper = Outer, tr_main = Listening\<rparr>"

inductive tracker_step :: "tracker \<Rightarrow> tracker \<Rightarrow> bool" where
  request: "tr_main s = Listening \<Longrightarrow> (me, pat, h) \<in> set tracker_routes \<Longrightarrow>
    h now req resp (tr_store s) = Ok (resp', store) \<Longrightarrow> tracker_step s (s\<lparr>tr_store := store\<rparr>)"
| sweep: "sweeper_step now (tr_main s = Joining) (tr_sweeper s, tr_store s) = Ok (k, store) \<Longrightarrow>
    tracker_step s (s\<lparr>tr_sweeper := k, tr_store := store\<rparr>)"
| signal: "tr_main s = Listening \<Longrightarrow> tracker_step s (s\<lparr>tr_main := Stopped\<rparr>)"
| request_stop: "tr_main s = Stopped \<Longrightarrow> tracker_step s (s\<lparr>tr_main := Joining\<rparr>)"

inductive tracker_reach :: "int \<Rightarrow> tracker \<Rightarrow> bool" for ttl where
  start: "tracker_reach ttl (tracker_init ttl)"
| step: "tracker_reach ttl s \<Longrightarrow> tracker_step s s' \<Longrightarrow> tracker_reach ttl s'"

section \<open>What the store can hold\<close>

definition registered_ok :: "string \<times> trecord \<Rightarrow> bool" where
  "registered_ok x \<longleftrightarrow> valid_token (fst x) \<and> sender_port (snd x) \<noteq> 0"

definition store_inv :: "token_store \<Rightarrow> bool" where
  "store_inv st \<longleftrightarrow> store_ok st \<and> (\<forall>k r. lookup st k = Some r \<longrightarrow> registered_ok (k, r))"

lemma store_inv_sub:
  assumes "store_inv st" and "store_ok st'" and "\<And>k r. lookup st' k = Some r \<Longrightarrow> lookup st k = Some r"
  shows "store_inv st'"
  using assms by (auto simp: store_inv_def)

lemma expired_tokens_erase:
  assumes "store_inv st"
  shows "store_inv (erase_tokens ts st)"
  by (rule store_inv_sub [OF assms]) (use assms in \<open>auto simp: erase_tokens_lookup erase_tokens_ok store_inv_def split: if_splits\<close>)

lemma resolve_inv: "store_inv st \<Longrightarrow> resolve now k st = Ok (x, st') \<Longrightarrow> store_inv st' \<and> x = lookup st' k \<and> ttl_min st' = ttl_min st"
  by (auto simp: resolve_def res_bind_Ok_iff Let_def lookup_def intro: expired_tokens_erase)

lemma sweep_inv: "store_inv st \<Longrightarrow> sweep_expired now st = Ok (n, st') \<Longrightarrow> store_inv st' \<and> ttl_min st' = ttl_min st"
  by (auto simp: sweep_expired_def res_bind_Ok_iff intro: expired_tokens_erase)

lemma remove_inv: "store_inv st \<Longrightarrow> store_inv (snd (remove_token k st))"
  by (rule store_inv_sub) (auto simp: remove_simps store_inv_def split: if_splits)

lemma upsert_inv:
  "store_inv st \<Longrightarrow> valid_token k \<Longrightarrow> sender_port r \<noteq> 0 \<Longrightarrow> store_inv (upsert now k r st)"
  by (auto simp: store_inv_def upsert_simps registered_ok_def)

lemma handler_inv:
  assumes "(me, pat, h) \<in> set tracker_routes" and "store_inv st"
    and "h now req resp st = Ok (resp', st')"
  shows "store_inv st' \<and> ttl_min st' = ttl_min st"
  using assms resolve_inv remove_inv [of st]
  by (auto simp: tracker_routes_def handle_register_def handle_resolve_def handle_unregister_def
      Let_def res_bind_Ok_iff upsert_inv upsert_simps remove_simps split: if_splits option.splits)

lemma sweeper_inv:
  assumes "sweeper_step now stop (k, st) = Ok (k', st')" and "store_inv st"
  shows "store_inv st' \<and> ttl_min st' = ttl_min st"
  using assms sweep_inv
  by (cases k) (auto simp: sweeper_step_def res_bind_Ok_iff split: if_splits)

lemma tracker_reach_inv: "tracker_reach ttl s \<Longrightarrow> store_inv (tr_store s) \<and> ttl_min (tr_store s) = ttl"
proof (induction rule: tracker_reach.induct)
  case start
  then show ?case by (simp add: tracker_init_def store_inv_def)
next
  case (step s s')
  from step.hyps(2) step.IH show ?case
    by cases (auto dest: handler_inv sweeper_inv)
qed
section \<open>The sweeper\<close>

text \<open>The thread over a list of readings of the clock and the stop token.\<close>

definition sweeper_run ::
  "(int \<times> bool) list \<Rightarrow> sweeper \<times> token_store \<Rightarrow> (sweeper \<times> token_store) res" where
  "sweeper_run readings p = res_foldl (\<lambda>p (now, stop). sweeper_step now stop p) p readings"

lemma sweeper_run_append:
  "sweeper_run (xs @ ys) p = res_bind (sweeper_run xs p) (sweeper_run ys)"
  unfolding sweeper_run_def by (rule res_foldl_append)

lemma sweeper_run_one [simp]: "sweeper_run [x] p = sweeper_step (fst x) (snd x) p"
  by (cases "sweeper_step (fst x) (snd x) p") (simp_all add: sweeper_run_def case_prod_beta)

lemma sweeper_sleeps:
  "i + n \<le> 60 \<Longrightarrow> sweeper_run (replicate n (t, False)) (Sleeping i, st) = Ok (Sleeping (i + n), st)"
proof (induction n arbitrary: i)
  case 0
  then show ?case by (simp add: sweeper_run_def)
next
  case (Suc n)
  then have "sweeper_step t False (Sleeping i, st) = Ok (Sleeping (i + 1), st)"
    by (simp add: sweeper_step_def)
  then show ?case using Suc.IH [of "i + 1"] Suc.prems by (simp add: sweeper_run_def)
qed

section \<open>Properties\<close>

text \<open>C38: In every reachable state of the tracker the store holds only records with a well
  formed token and a port, and every resolve request that the router passes on is answered:
  400 for a malformed token, 404 for one that is not registered or has expired, 200
  otherwise, with the port and address of the record in the body.\<close>

theorem tracker_invariant:
  assumes "tracker_reach ttl s" and "ttl_fits ttl"
  shows "(\<forall>k r. lookup (tr_store s) k = Some r \<longrightarrow> valid_token k \<and> sender_port r \<noteq> 0) \<and>
    (\<forall>now req resp t. path_params req ''token'' = Some t \<longrightarrow>
      (\<exists>resp' st. handle_resolve now req resp (tr_store s) = Ok (resp', st) \<and>
        status resp' = (if \<not> valid_token t then 400
          else case alive ttl now (lookup (tr_store s) t) of None \<Rightarrow> 404 | Some r \<Rightarrow> 200) \<and>
        (\<forall>r. valid_token t \<and> alive ttl now (lookup (tr_store s) t) = Some r \<longrightarrow>
          content resp' = resolved_body (sender_ip r) (sender_port r))))"
proof -
  from tracker_reach_inv [OF assms(1)] have inv: "store_inv (tr_store s)" "ttl_min (tr_store s) = ttl" by auto
  then have ok: "store_ok (tr_store s)" "ttl_fits (ttl_min (tr_store s))"
    using assms(2) by (auto simp: store_inv_def)
  have answers: "\<exists>resp' st. handle_resolve now req resp (tr_store s) = Ok (resp', st) \<and>
      status resp' = (if \<not> valid_token t then 400
        else case alive ttl now (lookup (tr_store s) t) of None \<Rightarrow> 404 | Some r \<Rightarrow> 200) \<and>
      (\<forall>r. valid_token t \<and> alive ttl now (lookup (tr_store s) t) = Some r \<longrightarrow>
        content resp' = resolved_body (sender_ip r) (sender_port r))"
    if "path_params req ''token'' = Some t" for now req resp t
  proof (cases "valid_token t")
    case False
    then show ?thesis using that by (simp add: handle_resolve_def token_param_def)
  next
    case True
    obtain st where "resolve now t (tr_store s) = Ok (alive ttl now (lookup (tr_store s) t), st)"
      using resolve_eq [OF ok, of now t] inv(2) by auto
    then show ?thesis using that True
      by (cases "alive ttl now (lookup (tr_store s) t)") (simp_all add: handle_resolve_def token_param_def)
  qed
  then show ?thesis
    by (intro conjI allI impI answers) (use inv(1) in \<open>simp_all add: store_inv_def registered_ok_def\<close>)
qed

text \<open>The sweeper sweeps once per sixty one-second sleeps, and once it is asked to stop it
  ends within two of its steps, wherever it is, without another sweep. So the shutdown of the
  tracker, which joins it, waits at most for the sleep in progress.\<close>

theorem sweeper_schedule:
  assumes "sweep_expired now st = Ok (n, st')"
  shows "sweeper_run (replicate 62 (t, False) @ [(now, False)]) (Outer, st) = Ok (Outer, st') \<and>
    (\<forall>j < 62. \<exists>k. sweeper_run (replicate j (t, False)) (Outer, st) = Ok (k, st)) \<and>
    (\<forall>k u v. sweeper_run [(u, True), (v, True)] (k, st) = Ok (Ended, st))"
proof (intro conjI allI impI)
  have first: "sweeper_run [(t, False)] (Outer, st) = Ok (Sleeping 0, st)" by (simp add: sweeper_step_def)
  have prefix_run: "sweeper_run (replicate (Suc j) (t, False)) (Outer, st) = Ok (Sleeping j, st)" if "j \<le> 60" for j
    using sweeper_run_append [of "[(t, False)]" "replicate j (t, False)"] first sweeper_sleeps [of 0 j] that by simp
  show "\<exists>k. sweeper_run (replicate j (t, False)) (Outer, st) = Ok (k, st)" if "j < 62" for j
  proof (cases j)
    case 0
    then show ?thesis by (simp add: sweeper_run_def)
  next
    case (Suc i)
    then show ?thesis using prefix_run [of i] that by simp
  qed
  have "replicate 62 (t, False) = replicate 61 (t, False) @ [(t, False)]"
  proof -
    have "62 = Suc 61" by simp
    then show ?thesis by (simp only: replicate_Suc replicate_append_same)
  qed
  then have "sweeper_run (replicate 62 (t, False)) (Outer, st) = Ok (Woken, st)"
    using prefix_run [of 60] by (simp only: sweeper_run_append) (simp add: sweeper_step_def)
  then show "sweeper_run (replicate 62 (t, False) @ [(now, False)]) (Outer, st) = Ok (Outer, st')"
    using assms by (simp add: sweeper_run_append sweeper_step_def)
  show "sweeper_run [(u, True), (v, True)] (k, st) = Ok (Ended, st)" for k u v
    by (cases k) (simp_all add: sweeper_run_def sweeper_step_def)
qed

section \<open>Witnesses\<close>

definition sample_request :: http_request where
  "sample_request =
     \<lparr>body = register_body ''3a7b4e2f1c9d8a6b'' 4747, headers = Map.empty, remote_addr = ''1.2.3.4'',
      path_params = [''token'' \<mapsto> ''3a7b4e2f1c9d8a6b'']\<rparr>"

lemma sample_token: "valid_token ''3a7b4e2f1c9d8a6b''"
  by (simp add: valid_token_def hex_lower_def TOKEN_SIZE_def)

lemma sample_registers:
  "handle_register 5 sample_request \<lparr>status = -1, content = []\<rparr> (TokenStore 10) =
     Ok (\<lparr>status = 200, content = registered_body ''1.2.3.4''\<rparr>,
         upsert 5 ''3a7b4e2f1c9d8a6b'' \<lparr>sender_ip = ''1.2.3.4'', sender_port = 4747, registered_at = 0\<rparr> (TokenStore 10))"
  by (simp add: handle_register_def sample_request_def register_body_parts [OF sample_token] sample_token client_ip_def Let_def)

lemma tracker_invariant_witness:
  "\<exists>s resp' st. tracker_reach 10 s \<and> handle_resolve 6 sample_request \<lparr>status = -1, content = []\<rparr> (tr_store s) = Ok (resp', st)
     \<and> content resp' = resolved_body ''1.2.3.4'' 4747"
proof -
  let ?r = "\<lparr>sender_ip = ''1.2.3.4'', sender_port = 4747, registered_at = 0\<rparr>"
  let ?st = "upsert 5 ''3a7b4e2f1c9d8a6b'' ?r (TokenStore 10)"
  let ?s = "(tracker_init 10)\<lparr>tr_store := ?st\<rparr>"
  have "tracker_step (tracker_init 10) ?s"
    by (rule tracker_step.request [where h = handle_register and me = POST and pat = "''/register''"
          and now = 5 and req = sample_request and resp = "\<lparr>status = -1, content = []\<rparr>"
          and resp' = "\<lparr>status = 200, content = registered_body ''1.2.3.4''\<rparr>"])
      (simp_all add: tracker_init_def tracker_routes_def sample_registers)
  then have r: "tracker_reach 10 ?s" by (rule tracker_reach.step [OF tracker_reach.start])
  have f: "ttl_fits 10" by (simp add: ttl_fits_def)
  have path: "path_params sample_request ''token'' = Some ''3a7b4e2f1c9d8a6b''" by (simp add: sample_request_def)
  have al: "alive 10 6 (lookup (tr_store ?s) ''3a7b4e2f1c9d8a6b'') = Some (?r\<lparr>registered_at := 5\<rparr>)"
    by (simp add: alive_def upsert_simps too_old_def)
  from conjunct2 [OF tracker_invariant [OF r f]] path obtain resp' st where
    "handle_resolve 6 sample_request \<lparr>status = -1, content = []\<rparr> (tr_store ?s) = Ok (resp', st)"
    "\<And>q. valid_token ''3a7b4e2f1c9d8a6b'' \<and> alive 10 6 (lookup (tr_store ?s) ''3a7b4e2f1c9d8a6b'') = Some q \<Longrightarrow>
       content resp' = resolved_body (sender_ip q) (sender_port q)"
    by blast
  then show ?thesis using r sample_token al by fastforce
qed

lemma sweeper_schedule_witness:
  "sweeper_run [(0, True), (1, True)] (Woken, TokenStore 10) = Ok (Ended, TokenStore 10)"
proof -
  have "sweep_expired 7 (TokenStore 10) = Ok (0, TokenStore 10)"
    by (simp add: sweep_expired_def expired_tokens_def erase_tokens_def TokenStore_def)
  from sweeper_schedule [OF this, of 0] show ?thesis by blast
qed

end
