(* ===== verification/Tracker_Client.thy ===== *)
theory Tracker_Client
  imports Tracker
begin

text \<open>
  The tracker's client, \<^verbatim>\<open>src/tracker/tracker_client.cpp\<close>, and its composition with the
  server. The HTTP library is a parameter: \<open>http host port method path body\<close> is the result
  of \<^verbatim>\<open>client.Get\<close> or \<^verbatim>\<open>client.Post\<close>, \<open>None\<close> for a failed connection. What the composition
  relies on of it is \<open>serves\<close>: a request to a registered route reaches that route's handler,
  with the body, the peer's address and the \<^verbatim>\<open>:token\<close> part of the path, and its response
  comes back.
\<close>

section \<open>The client\<close>

type_synonym 'w http = "string \<Rightarrow> int \<Rightarrow> http_method \<Rightarrow> string \<Rightarrow> string \<Rightarrow> ('w, http_response option) raw"

definition http_prefix :: string where "http_prefix = ''http://''"

definition parse_url :: "string \<Rightarrow> (string \<times> int) res" where
  "parse_url tracker_url =
     (let start = (if take (length http_prefix) tracker_url = http_prefix then length http_prefix else 0);
          colon_pos = str_rfind (CHR '':'') tracker_url
      in case colon_pos of
           None \<Rightarrow> Ok (drop start tracker_url, uint TRACKER_PORT)
         | Some c \<Rightarrow>
             if c < start then Ok (drop start tracker_url, uint TRACKER_PORT)
             else res_bind (stoi (drop (c + 1) tracker_url)) (\<lambda>p.
                    Ok (take (c - start) (drop start tracker_url), p)))"

definition tracker_register :: "'w http \<Rightarrow> string \<Rightarrow> string \<Rightarrow> u16 \<Rightarrow> ('w, unit) io" where
  "tracker_register http tracker_url token port =
     io_bind (io_lift (parse_url tracker_url)) (\<lambda>(tracker_host, tracker_port).
     io_bind (sys (http tracker_host tracker_port POST ''/register'' (register_body token port))) (\<lambda>result.
       case result of
         None \<Rightarrow> io_throw (Runtime_error ''tracker_register: connection failed to '')
       | Some r \<Rightarrow>
           if status r \<noteq> 200 then io_throw (Runtime_error ''tracker_register: HTTP '') else io_ret ()))"

definition tracker_resolve :: "'w http \<Rightarrow> string \<Rightarrow> string \<Rightarrow> ('w, string \<times> u16) io" where
  "tracker_resolve http tracker_url token =
     io_bind (io_lift (parse_url tracker_url)) (\<lambda>(tracker_host, tracker_port).
     io_bind (sys (http tracker_host tracker_port GET (''/resolve/'' @ token) [])) (\<lambda>result.
       case result of
         None \<Rightarrow> io_throw (Runtime_error ''tracker_resolve: connection failed to '')
       | Some r \<Rightarrow>
           if status r = 404 then io_throw (Runtime_error ''tracker_resolve: token not found: '')
           else if status r \<noteq> 200 then io_throw (Runtime_error ''tracker_resolve: HTTP '')
           else
             let ip = json_get_str (content r) ''sender_ip'';
                 port = json_get_u16 (content r) ''sender_port''
             in if ip = [] \<or> port = 0
                then io_throw (Runtime_error ''tracker_resolve: malformed response: '')
                else io_ret (ip, port)))"

text \<open>\<^verbatim>\<open>noexcept\<close>: every exception is swallowed.\<close>

definition io_swallow :: "('w, unit) io \<Rightarrow> ('w, unit) io" where
  "io_swallow m w = (case m w of Some (Throw e, w') \<Rightarrow> Some (Ok (), w') | x \<Rightarrow> x)"

definition tracker_unregister :: "'w http \<Rightarrow> string \<Rightarrow> string \<Rightarrow> ('w, unit) io" where
  "tracker_unregister http tracker_url token =
     io_swallow
       (io_bind (io_lift (parse_url tracker_url)) (\<lambda>(tracker_host, tracker_port).
        io_bind (sys (http tracker_host tracker_port POST (''/unregister/'' @ token) [])) (\<lambda>result.
          io_ret ())))"

section \<open>Addresses of trackers\<close>

lemma http_prefix [simp]: "length http_prefix = 7" "take 7 (http_prefix @ x) = http_prefix"
  by (simp_all add: http_prefix_def)

lemma parse_url_colon:
  assumes "CHR '':'' \<notin> set b"
  shows "parse_url (http_prefix @ a @ CHR '':'' # b) = res_bind (stoi b) (\<lambda>p. Ok (a, p))"
    and "take 7 (a @ CHR '':'' # b) \<noteq> http_prefix \<Longrightarrow>
      parse_url (a @ CHR '':'' # b) = res_bind (stoi b) (\<lambda>p. Ok (a, p))"
proof -
  have "str_rfind (CHR '':'') (http_prefix @ a @ CHR '':'' # b) = Some (7 + length a)"
    using str_rfind_last [OF assms, of "http_prefix @ a"] by simp
  then show "parse_url (http_prefix @ a @ CHR '':'' # b) = res_bind (stoi b) (\<lambda>p. Ok (a, p))"
    by (simp add: parse_url_def)
  show "parse_url (a @ CHR '':'' # b) = res_bind (stoi b) (\<lambda>p. Ok (a, p))"
    if "take 7 (a @ CHR '':'' # b) \<noteq> http_prefix"
    using that str_rfind_last [OF assms, of a] by (simp add: parse_url_def)
qed

lemma no_colon:
  assumes "CHR '':'' \<notin> set host"
  shows "take 7 host \<noteq> http_prefix" "str_rfind (CHR '':'') (http_prefix @ host) = Some 4"
    "str_rfind (CHR '':'') host = None"
proof -
  show "take 7 host \<noteq> http_prefix"
  proof
    assume "take 7 host = http_prefix"
    then have "CHR '':'' \<in> set (take 7 host)" by (simp add: http_prefix_def)
    then show False using assms set_take_subset by fast
  qed
  show "str_rfind (CHR '':'') (http_prefix @ host) = Some 4"
    using assms by (subst str_rfind_append) (simp_all add: http_prefix_def)
  show "str_rfind (CHR '':'') host = None" using assms by simp
qed

text \<open>Tracker addresses mean what the usage says: with or without \<^verbatim>\<open>http://\<close>, host and
  port are split at the last colon, and without a port it is 10009. With any other scheme the
  text after its colon is read as a port, and the call throws.\<close>

theorem parse_url_forms:
  assumes "CHR '':'' \<notin> set host" and "p < 2 ^ 31"
  shows "parse_url (''http://'' @ host @ '':'' @ to_string p) = Ok (host, int p) \<and>
    parse_url (host @ '':'' @ to_string p) = Ok (host, int p) \<and>
    parse_url (''http://'' @ host) = Ok (host, 10009) \<and> parse_url host = Ok (host, 10009) \<and>
    parse_url (''https://'' @ host) = Throw (Invalid_argument ''stoi'')"
proof (intro conjI)
  have d: "CHR '':'' \<notin> set (to_string p)"
    using to_string_digits [of p] by (auto simp: is_digit_def)
  show "parse_url (''http://'' @ host @ '':'' @ to_string p) = Ok (host, int p)"
    using parse_url_colon(1) [OF d, of host] assms(2) by (simp add: stoi_to_string flip: http_prefix_def)
  have "take 7 (host @ CHR '':'' # to_string p) \<noteq> http_prefix"
  proof
    assume eq: "take 7 (host @ CHR '':'' # to_string p) = http_prefix"
    have "prefix (take 7 (host @ CHR '':'' # to_string p)) (host @ CHR '':'' # to_string p)"
      by (rule take_is_prefix)
    then have "prefix (''http'' @ CHR '':'' # ''//'') (host @ CHR '':'' # to_string p)"
      unfolding eq by (simp add: http_prefix_def)
    from prefix_delimited [OF _ assms(1) this] have "prefix ''//'' (to_string p)" by simp
    then show False using to_string_digits [of p] by (auto simp: prefix_def is_digit_def)
  qed
  then show "parse_url (host @ '':'' @ to_string p) = Ok (host, int p)"
    using parse_url_colon(2) [OF d, of host] assms(2) by (simp add: stoi_to_string)
  show "parse_url (''http://'' @ host) = Ok (host, 10009)"
    using no_colon(2) [OF assms(1)] by (simp add: parse_url_def TRACKER_PORT_def flip: http_prefix_def)
  show "parse_url host = Ok (host, 10009)"
    using no_colon(1,3) [OF assms(1)] by (simp add: parse_url_def TRACKER_PORT_def del: str_rfind_absent)
  have "CHR '':'' \<notin> set (''//'' @ host)" using assms(1) by simp
  from parse_url_colon(2) [OF this, of "''https''"]
  show "parse_url (''https://'' @ host) = Throw (Invalid_argument ''stoi'')"
    by (simp add: http_prefix_def stoi_def number_text_def is_space_def is_digit_def)
qed
section \<open>Client and server together\<close>

text \<open>A pattern with the parameter filled in, and what the handler sees of it.\<close>

definition route_path :: "string \<Rightarrow> string \<Rightarrow> string" where
  "route_path pat t = (if suffix '':token'' pat then take (length pat - 6) pat @ t else pat)"

definition route_params :: "string \<Rightarrow> string \<Rightarrow> string \<Rightarrow> string option" where
  "route_params pat t = (if suffix '':token'' pat then [''token'' \<mapsto> t] else Map.empty)"

definition blank_response :: http_response where
  "blank_response = \<lparr>status = -1, content = []\<rparr>"

text \<open>Requests from \<open>addr\<close>, handled when the clock shows \<open>now\<close>; the world is the tracker's store.\<close>

definition serves :: "token_store http \<Rightarrow> string \<Rightarrow> int \<Rightarrow> string \<Rightarrow> int \<Rightarrow> bool" where
  "serves http host port addr now \<longleftrightarrow>
     (\<forall>me pat h t bd st r st'. (me, pat, h) \<in> set tracker_routes \<and> valid_token t \<and>
        h now \<lparr>body = bd, headers = Map.empty, remote_addr = addr, path_params = route_params pat t\<rparr>
          blank_response st = Ok (r, st') \<longrightarrow>
        http host port me (route_path pat t) bd st = Some (Some r, st'))"

lemma serves_register:
  assumes "serves http host port addr now" and "valid_token t"
    and "handle_register now \<lparr>body = bd, headers = Map.empty, remote_addr = addr, path_params = Map.empty\<rparr>
      blank_response st = Ok (r, st')"
  shows "http host port POST ''/register'' bd st = Some (Some r, st')"
proof -
  have "route_path ''/register'' t = ''/register''" "route_params ''/register'' t = Map.empty"
    by (simp_all add: route_path_def route_params_def suffix_def append_eq_Cons_conv)
  then show ?thesis
    using assms unfolding serves_def tracker_routes_def by (metis list.set_intros(1))
qed

lemma serves_param:
  assumes "serves http host port addr now" and "valid_token t"
    and "h now \<lparr>body = bd, headers = Map.empty, remote_addr = addr, path_params = [''token'' \<mapsto> t]\<rparr>
      blank_response st = Ok (r, st')"
  shows "h = handle_resolve \<Longrightarrow> http host port GET (''/resolve/'' @ t) bd st = Some (Some r, st')"
    and "h = handle_unregister \<Longrightarrow> http host port POST (''/unregister/'' @ t) bd st = Some (Some r, st')"
proof -
  have p: "route_path ''/resolve/:token'' t = ''/resolve/'' @ t" "route_params ''/resolve/:token'' t = [''token'' \<mapsto> t]"
    "route_path ''/unregister/:token'' t = ''/unregister/'' @ t" "route_params ''/unregister/:token'' t = [''token'' \<mapsto> t]"
    by (simp_all add: route_path_def route_params_def suffix_def append_eq_Cons_conv)
  have m: "(GET, ''/resolve/:token'', handle_resolve) \<in> set tracker_routes"
    "(POST, ''/unregister/:token'', handle_unregister) \<in> set tracker_routes"
    by (simp_all add: tracker_routes_def)
  show "http host port GET (''/resolve/'' @ t) bd st = Some (Some r, st')" if "h = handle_resolve"
    using assms m(1) p that unfolding serves_def by metis
  show "http host port POST (''/unregister/'' @ t) bd st = Some (Some r, st')" if "h = handle_unregister"
    using assms m(2) p that unfolding serves_def by metis
qed

text \<open>What the client makes of a record that the store holds, or does not.\<close>

lemma tracker_resolve_eq:
  assumes "parse_url url = Ok (host, port)" and "serves http host port addr now" and "valid_token token"
    and "store_ok st" and "ttl_fits (ttl_min st)"
  shows "\<exists>st'. tracker_resolve http url token st =
      Some (case alive (ttl_min st) now (lookup st token) of
          None \<Rightarrow> Throw (Runtime_error ''tracker_resolve: token not found: '')
        | Some r \<Rightarrow>
            (let ip = json_get_str (resolved_body (sender_ip r) (sender_port r)) ''sender_ip'';
                 p = json_get_u16 (resolved_body (sender_ip r) (sender_port r)) ''sender_port''
             in if ip = [] \<or> p = 0 then Throw (Runtime_error ''tracker_resolve: malformed response: '')
                else Ok (ip, p)), st') \<and>
      store_ok st' \<and> ttl_min st' = ttl_min st"
proof -
  obtain st' where st': "resolve now token st = Ok (alive (ttl_min st) now (lookup st token), st')"
    "store_ok st'" "ttl_min st' = ttl_min st"
    using resolve_eq [OF assms(4,5)] by blast
  let ?req = "\<lparr>body = [], headers = Map.empty, remote_addr = addr, path_params = [''token'' \<mapsto> token]\<rparr>"
  show ?thesis
  proof (cases "alive (ttl_min st) now (lookup st token)")
    case None
    then have "handle_resolve now ?req blank_response st =
        Ok (blank_response\<lparr>status := 404, content := error_body ''token not found''\<rparr>, st')"
      using st'(1) assms(3) by (simp add: handle_resolve_def token_param_def)
    from serves_param(1) [OF assms(2,3) this refl] show ?thesis
      using None st'(2,3) assms(1) by (simp add: tracker_resolve_def io_bind_def sys_def io_lift_def io_throw_def)
  next
    case (Some r)
    then have "handle_resolve now ?req blank_response st =
        Ok (blank_response\<lparr>status := 200, content := resolved_body (sender_ip r) (sender_port r)\<rparr>, st')"
      using st'(1) assms(3) by (simp add: handle_resolve_def token_param_def)
    from serves_param(1) [OF assms(2,3) this refl] show ?thesis
      using Some st'(2,3) assms(1)
      by (simp add: tracker_resolve_def io_bind_def sys_def io_lift_def io_throw_def io_ret_def Let_def)
  qed
qed

lemma tracker_register_eq:
  assumes "parse_url url = Ok (host, port)" and "serves http host port addr now" and "valid_token token" and "p \<noteq> 0"
  shows "tracker_register http url token p st =
    Some (Ok (), upsert now token \<lparr>sender_ip = addr, sender_port = p, registered_at = 0\<rparr> st)"
proof -
  have "handle_register now \<lparr>body = register_body token p, headers = Map.empty, remote_addr = addr, path_params = Map.empty\<rparr>
      blank_response st =
      Ok (blank_response\<lparr>status := 200, content := registered_body addr\<rparr>,
          upsert now token \<lparr>sender_ip = addr, sender_port = p, registered_at = 0\<rparr> st)"
    using assms(3,4) by (simp add: handle_register_def register_body_parts client_ip_def Let_def)
  from serves_register [OF assms(2,3) this] show ?thesis
    using assms(1) by (simp add: tracker_register_def io_bind_def sys_def io_lift_def io_ret_def)
qed

lemma tracker_unregister_eq:
  assumes "parse_url url = Ok (host, port)" and "serves http host port addr now" and "valid_token token"
  shows "tracker_unregister http url token st = Some (Ok (), snd (remove_token token st))"
proof -
  let ?req = "\<lparr>body = [], headers = Map.empty, remote_addr = addr, path_params = [''token'' \<mapsto> token]\<rparr>"
  have "handle_unregister now ?req blank_response st =
      Ok (blank_response\<lparr>status := 204\<rparr>, snd (remove_token token st))"
    using assms(3) by (simp add: handle_unregister_def token_param_def)
  from serves_param(2) [OF assms(2,3) this refl] show ?thesis
    using assms(1) by (simp add: tracker_unregister_def io_swallow_def io_bind_def sys_def io_lift_def io_ret_def)
qed

text \<open>C37: Through the tracker, a receiver that resolves the token of a sender gets the address
  the tracker saw the sender at and the port it registered, as long as the registration is
  within its lifetime; and once the sender has unregistered, the token is not found.\<close>

theorem register_then_resolve:
  assumes "parse_url url = Ok (host, port)"
    and "serves http_s host port addr t1" and "serves http_r host port addr' t2"
    and "valid_token token" and "p \<noteq> 0" and "addr \<noteq> []" and "quote_char \<notin> set addr"
    and "store_ok st" and "ttl_fits (ttl_min st)" and "t2 - t1 \<le> ttl_min st * 60000000000"
  shows "\<exists>st1 st2 st3 st4.
    tracker_register http_s url token p st = Some (Ok (), st1) \<and>
    tracker_resolve http_r url token st1 = Some (Ok (addr, p), st2) \<and>
    tracker_unregister http_s url token st2 = Some (Ok (), st3) \<and>
    tracker_resolve http_r url token st3 =
      Some (Throw (Runtime_error ''tracker_resolve: token not found: ''), st4)"
proof -
  define r where "r = \<lparr>sender_ip = addr, sender_port = p, registered_at = t1\<rparr>"
  define st1 where "st1 = upsert t1 token \<lparr>sender_ip = addr, sender_port = p, registered_at = 0\<rparr> st"
  have st1: "store_ok st1" "ttl_min st1 = ttl_min st" "lookup st1 token = Some r"
    using assms(8) by (simp_all add: st1_def r_def upsert_simps)
  have "alive (ttl_min st1) t2 (lookup st1 token) = Some r"
    using assms(10) st1(2,3) by (simp add: alive_def too_old_def r_def)
  then obtain st2 where st2: "tracker_resolve http_r url token st1 = Some (Ok (addr, p), st2)"
    "store_ok st2" "ttl_min st2 = ttl_min st"
    using tracker_resolve_eq [OF assms(1,3,4) st1(1)] st1(2) assms(5-7,9)
    by (auto simp: r_def resolved_body_parts Let_def)
  define st3 where "st3 = snd (remove_token token st2)"
  have st3: "store_ok st3" "ttl_min st3 = ttl_min st" "lookup st3 token = None"
    using st2 by (simp_all add: st3_def remove_simps)
  then obtain st4 where "tracker_resolve http_r url token st3 =
      Some (Throw (Runtime_error ''tracker_resolve: token not found: ''), st4)"
    using tracker_resolve_eq [OF assms(1,3,4) st3(1)] assms(9) by (auto simp: alive_def)
  then show ?thesis
    using tracker_register_eq [OF assms(1,2,4,5), of st, folded st1_def] st2(1)
      tracker_unregister_eq [OF assms(1,2,4), of st2, folded st3_def] by blast
qed

text \<open>Behind a proxy that forwards one address, a registration is accepted and useless: the
  header without a comma is read as an empty address, the tracker answers 200, and every
  receiver that resolves the token rejects the tracker's answer.\<close>

theorem forwarded_single_hop_lost:
  assumes "headers req ''X-Forwarded-For'' = Some xff" and "CHR '','' \<notin> set xff"
    and "body req = register_body token p" and "valid_token token" and "p \<noteq> 0"
    and "parse_url url = Ok (host, port)" and "serves http_r host port addr' t2"
    and "store_ok st" and "ttl_fits (ttl_min st)" and "t2 - t1 \<le> ttl_min st * 60000000000"
  shows "\<exists>r st1 st2. handle_register t1 req blank_response st = Ok (r, st1) \<and> status r = 200 \<and>
    tracker_resolve http_r url token st1 =
      Some (Throw (Runtime_error ''tracker_resolve: malformed response: ''), st2)"
proof -
  define st1 where "st1 = upsert t1 token \<lparr>sender_ip = [], sender_port = p, registered_at = 0\<rparr> st"
  have "str_find '','' xff = None" using assms(2) by (rule str_find_absent)
  then have "handle_register t1 req blank_response st = Ok (blank_response\<lparr>status := 200, content := registered_body []\<rparr>, st1)"
    using assms(1,3-5) by (simp add: handle_register_def register_body_parts client_ip_def st1_def Let_def)
  moreover have st1: "store_ok st1" "ttl_min st1 = ttl_min st"
    and "alive (ttl_min st1) t2 (lookup st1 token) = Some \<lparr>sender_ip = [], sender_port = p, registered_at = t1\<rparr>"
    using assms(8,10) by (simp_all add: st1_def upsert_simps alive_def too_old_def)
  then have "\<exists>st2. tracker_resolve http_r url token st1 =
      Some (Throw (Runtime_error ''tracker_resolve: malformed response: ''), st2)"
    using tracker_resolve_eq [OF assms(6,7,4) st1(1)] assms(9) by (auto simp: resolved_body_parts Let_def)
  ultimately show ?thesis by fastforce
qed

section \<open>Witnesses\<close>

lemma parse_url_forms_witness:
  "parse_url (''http://'' @ ''tracker'' @ '':'' @ to_string 19009) = Ok (''tracker'', 19009)"
  using parse_url_forms [of "''tracker''" 19009] by simp

text \<open>A library that does what \<open>serves\<close> says, on these routes.\<close>

definition sample_http :: "string \<Rightarrow> int \<Rightarrow> token_store http" where
  "sample_http addr now host port me path bd st =
     (let run = (\<lambda>h params. case h now \<lparr>body = bd, headers = Map.empty, remote_addr = addr, path_params = params\<rparr>
            blank_response st of
          Ok (r, st') \<Rightarrow> Some (Some r, st') | Throw e \<Rightarrow> Some (None, st) | Undef \<Rightarrow> None)
      in if me = GET then run handle_resolve [''token'' \<mapsto> drop 9 path]
         else if path = ''/register'' then run handle_register Map.empty
         else run handle_unregister [''token'' \<mapsto> drop 12 path])"

lemma sample_serves: "serves (sample_http addr now) host port addr now"
  by (auto simp: serves_def tracker_routes_def sample_http_def route_path_def route_params_def suffix_def
      append_eq_Cons_conv Let_def)

lemma register_then_resolve_witness:
  "\<exists>st1 st2. tracker_register (sample_http ''1.2.3.4'' 5) ''tracker'' ''3a7b4e2f1c9d8a6b'' 4747 (TokenStore 10) = Some (Ok (), st1)
    \<and> tracker_resolve (sample_http ''5.6.7.8'' 7) ''tracker'' ''3a7b4e2f1c9d8a6b'' st1 = Some (Ok (''1.2.3.4'', 4747), st2)"
proof -
  have url: "parse_url ''tracker'' = Ok (''tracker'', 10009)"
    using no_colon [of "''tracker''"] by (simp add: parse_url_def TRACKER_PORT_def del: str_rfind_absent)
  show ?thesis
    using register_then_resolve [OF url sample_serves sample_serves sample_token, of 4747 "''1.2.3.4''" "TokenStore 10" 7 5 "''5.6.7.8''"]
    by (auto simp: ttl_fits_def)
qed

lemma forwarded_single_hop_lost_witness:
  "\<exists>r st1 st2. handle_register 5 (sample_request\<lparr>headers := [''X-Forwarded-For'' \<mapsto> ''1.2.3.4'']\<rparr>) blank_response (TokenStore 10) = Ok (r, st1)
    \<and> status r = 200 \<and> tracker_resolve (sample_http ''5.6.7.8'' 7) ''tracker'' ''3a7b4e2f1c9d8a6b'' st1 =
      Some (Throw (Runtime_error ''tracker_resolve: malformed response: ''), st2)"
proof -
  have url: "parse_url ''tracker'' = Ok (''tracker'', 10009)"
    using no_colon [of "''tracker''"] by (simp add: parse_url_def TRACKER_PORT_def del: str_rfind_absent)
  show ?thesis
    by (rule forwarded_single_hop_lost [where xff = "''1.2.3.4''" and p = 4747, OF _ _ _ sample_token _ url sample_serves])
      (simp_all add: sample_request_def ttl_fits_def)
qed

end
