(* ===== verification/Factories.thy ===== *)
theory Factories
  imports Embr_Sys "HOL-Library.Multiset"
begin

text \<open>
  The functions that make connections: \<^verbatim>\<open>src/transport/tcp_server.cpp\<close>, \<^verbatim>\<open>tcp_client.cpp\<close>,
  \<^verbatim>\<open>udp_data_server.cpp\<close>, \<^verbatim>\<open>udp_data_client.cpp\<close>, \<^verbatim>\<open>quic_server.cpp\<close>, \<^verbatim>\<open>quic_client.cpp\<close> and
  the ring of \<^verbatim>\<open>src/util/io_uring_ctx.cpp\<close>. Each is a sequence of calls into the system and
  the libraries, any of which may fail, with the clean-up that the code makes by hand, by a
  \<^verbatim>\<open>SocketFd\<close> or by the transport's destructor. The outcome of each call that can fail is the
  next entry of a script; calls whose result the code ignores are only recorded.
\<close>

section \<open>Calls and resources\<close>

datatype kind = Socket_fd | Ssl_ctx | Ssl | Quic_conn | Mapping nat | Uring

type_synonym resource = "kind \<times> nat"

text \<open>The transport parameters that a side announces: its idle timeout and what the peer may open and send.\<close>

record quic_params =
  max_idle_timeout :: nat
  stream_data_bidi_local :: nat
  stream_data_bidi_remote :: nat
  initial_max_data :: nat
  max_streams_bidi :: nat
  original_dcid_present :: bool

datatype call =
    Socket_stream | Socket_dgram
  | Reuse_addr nat | No_delay nat | Rcvbuf nat nat | Sndbuf nat nat
  | Bind_any nat u16 | Listen nat | Accept nat | Connect_to nat string u16 | Inet_pton string
  | Recv_first nat | Not_truncated | Decode_cid | Accept_initial | Connect_peer nat | Set_nonblock nat
  | Ctx_new | Configure_ctx nat | Verify_none nat | Use_cert nat string | Use_key nat string
  | Ssl_new nat | Use_sni nat string | Use_alpn nat string | Quic_version nat nat | Accept_state nat
  | Getsockname nat | Conn_new nat quic_params "string list" | Feed_first | Run_handshake nat | Open_bidi nat
  | Recv_probe nat | Send_probe nat
  | Queue_init nat | Map_anon nat | Register_buffers nat | Unregister_buffers nat

record sysw =
  held :: "resource list"
  bad_frees :: nat
  next_id :: nat
  calls :: "call list"
  answers :: "int list"

definition do_call :: "call \<Rightarrow> (sysw, int) io" where
  "do_call c w =
     (case answers w of
        [] \<Rightarrow> None
      | a # as \<Rightarrow> Some (Ok a, w\<lparr>answers := as, calls := calls w @ [c]\<rparr>))"

definition note_call :: "call \<Rightarrow> (sysw, unit) io" where
  "note_call c w = Some (Ok (), w\<lparr>calls := calls w @ [c]\<rparr>)"

definition obtained :: "kind \<Rightarrow> (sysw, nat) io" where
  "obtained k w = Some (Ok (next_id w), w\<lparr>held := (k, next_id w) # held w, next_id := next_id w + 1\<rparr>)"

text \<open>A call that yields a resource, or fails.\<close>

definition acquire :: "kind \<Rightarrow> call \<Rightarrow> exn \<Rightarrow> (sysw, nat) io" where
  "acquire k c e = io_bind (do_call c) (\<lambda>rv. if rv < 0 then io_throw e else obtained k)"

text \<open>What the code takes for success: not negative, zero, or \<^verbatim>\<open>1\<close> (\<^verbatim>\<open>WOLFSSL_SUCCESS\<close>, \<^verbatim>\<open>inet_pton\<close>).\<close>

definition not_neg :: "int \<Rightarrow> bool" where "not_neg rv \<longleftrightarrow> rv \<ge> 0"
definition is_zero :: "int \<Rightarrow> bool" where "is_zero rv \<longleftrightarrow> rv = 0"
definition is_one :: "int \<Rightarrow> bool" where "is_one rv \<longleftrightarrow> rv = 1"

text \<open>Giving back what is not held is an error.\<close>

definition release :: "resource \<Rightarrow> sysw \<Rightarrow> sysw" where
  "release x w =
     (if x \<in> set (held w) then w\<lparr>held := remove1 x (held w)\<rparr> else w\<lparr>bad_frees := bad_frees w + 1\<rparr>)"

definition releases :: "resource list \<Rightarrow> sysw \<Rightarrow> sysw" where
  "releases xs w = fold release xs w"

text \<open>A call that must succeed; otherwise the listed resources are given back, then \<open>e\<close> is thrown.\<close>

definition require :: "call \<Rightarrow> (int \<Rightarrow> bool) \<Rightarrow> resource list \<Rightarrow> exn \<Rightarrow> (sysw, unit) io" where
  "require c good xs e =
     io_bind (do_call c) (\<lambda>rv. if good rv then io_ret () else (\<lambda>w. Some (Throw e, releases xs w)))"

text \<open>What a scope gives back when it is left by an exception.\<close>

definition guarded :: "resource list \<Rightarrow> (sysw, 'a) io \<Rightarrow> (sysw, 'a) io" where
  "guarded xs m = io_catch_rethrow m (releases xs)"

section \<open>TCP\<close>

definition tcp_listen :: "u16 \<Rightarrow> (sysw, nat) io" where
  "tcp_listen port =
     io_bind (acquire Socket_fd Socket_stream (Runtime_error ''tcp_listen: socket() failed: '')) (\<lambda>fd.
     io_bind (note_call (Reuse_addr fd)) (\<lambda>_.
     io_bind (require (Bind_any fd port) not_neg [(Socket_fd, fd)] (Runtime_error ''tcp_listen: bind() failed: '')) (\<lambda>_.
     io_bind (require (Listen fd) not_neg [(Socket_fd, fd)] (Runtime_error ''tcp_listen: listen() failed: '')) (\<lambda>_.
     io_ret fd))))"

definition tcp_accept :: "nat \<Rightarrow> (sysw, nat) io" where
  "tcp_accept listen_fd =
     io_bind (acquire Socket_fd (Accept listen_fd) (Runtime_error ''tcp_accept: accept() failed: '')) (\<lambda>fd.
     io_bind (note_call (No_delay fd)) (\<lambda>_. io_ret fd))"

definition tcp_connect :: "string \<Rightarrow> u16 \<Rightarrow> (sysw, nat) io" where
  "tcp_connect host port =
     io_bind (acquire Socket_fd Socket_stream (Runtime_error ''tcp_connect: socket() failed: '')) (\<lambda>fd.
     io_bind (note_call (No_delay fd)) (\<lambda>_.
     io_bind (require (Inet_pton host) is_one [(Socket_fd, fd)] (Runtime_error ''tcp_connect: invalid address: '')) (\<lambda>_.
     io_bind (require (Connect_to fd host port) not_neg [(Socket_fd, fd)] (Runtime_error ''tcp_connect: connect() failed: '')) (\<lambda>_.
     io_ret fd))))"

section \<open>The io_uring context and UDP\<close>

definition UDP_MTU :: nat where "UDP_MTU = 65000"
definition FRAG_HDR_SIZE :: nat where "FRAG_HDR_SIZE = 10"
definition UDP_PAYLOAD_SIZE :: nat where "UDP_PAYLOAD_SIZE = UDP_MTU - FRAG_HDR_SIZE"
definition MAX_FRAGS_PER_CHUNK :: nat where
  "MAX_FRAGS_PER_CHUNK = (CHUNK_SIZE + UDP_PAYLOAD_SIZE - 1) div UDP_PAYLOAD_SIZE"
definition UDP_CHUNK_BUFS :: nat where "UDP_CHUNK_BUFS = 2"
definition UDP_FRAG_BUFS :: nat where "UDP_FRAG_BUFS = 32"

text \<open>
  Both pools are one mapping each. The registered vector lists the chunk buffers, then the
  fragment buffers, each as mapping, offset and length.
\<close>

record uring_ctx =
  registered_buffers :: bool
  ring_res :: nat
  chunk_mem :: nat
  frag_mem :: nat
  chunk_buf_count :: nat
  chunk_buf_size :: nat
  frag_buf_count :: nat
  frag_buf_size :: nat
  iovecs :: "(nat \<times> nat \<times> nat) list"

definition QUEUE_DEPTH :: nat where "QUEUE_DEPTH = 256"

definition io_vectors :: "nat \<Rightarrow> nat \<Rightarrow> nat \<Rightarrow> nat \<Rightarrow> nat \<Rightarrow> nat \<Rightarrow> (nat \<times> nat \<times> nat) list" where
  "io_vectors cmem ccount csize fmem fcount fsize =
     map (\<lambda>i. (cmem, i * csize, csize)) [0..<ccount] @ map (\<lambda>i. (fmem, i * fsize, fsize)) [0..<fcount]"

text \<open>\<^verbatim>\<open>-ENOMEM\<close> from the registration is tolerated.\<close>

definition IoUringCtx :: "nat \<Rightarrow> nat \<Rightarrow> nat \<Rightarrow> nat \<Rightarrow> (sysw, uring_ctx) io" where
  "IoUringCtx ccount csize fcount fsize =
     (let ctotal = ccount * csize; ftotal = fcount * fsize
      in io_bind (acquire Uring (Queue_init QUEUE_DEPTH) (Runtime_error ''IoUringCtx: io_uring_queue_init failed: '')) (\<lambda>rg.
         io_bind (guarded [(Uring, rg)]
           (acquire (Mapping ctotal) (Map_anon ctotal) (Runtime_error ''IoUringCtx: mmap chunk_mem failed: ''))) (\<lambda>cm.
         io_bind (guarded [(Mapping ctotal, cm), (Uring, rg)]
           (acquire (Mapping ftotal) (Map_anon ftotal) (Runtime_error ''IoUringCtx: mmap frag_mem failed: ''))) (\<lambda>fm.
         let vecs = io_vectors cm ccount csize fm fcount fsize
         in io_bind (do_call (Register_buffers (length vecs))) (\<lambda>rv.
            io_bind (guarded [(Mapping ftotal, fm), (Mapping ctotal, cm), (Uring, rg)]
              (if rv < 0 \<and> rv \<noteq> -12 then io_throw (Runtime_error ''IoUringCtx: register_buffers failed: '')
               else io_ret ())) (\<lambda>_.
            io_ret
              \<lparr>registered_buffers = (rv \<ge> 0), ring_res = rg, chunk_mem = cm, frag_mem = fm,
               chunk_buf_count = ccount, chunk_buf_size = csize, frag_buf_count = fcount,
               frag_buf_size = fsize, iovecs = vecs\<rparr>))))))"

definition uring_resources :: "uring_ctx \<Rightarrow> resource list" where
  "uring_resources u =
     [(Uring, ring_res u), (Mapping (frag_buf_count u * frag_buf_size u), frag_mem u),
      (Mapping (chunk_buf_count u * chunk_buf_size u), chunk_mem u)]"

definition IoUringCtx_destroy :: "uring_ctx \<Rightarrow> sysw \<Rightarrow> sysw" where
  "IoUringCtx_destroy u w =
     (let w = (if registered_buffers u then w\<lparr>calls := calls w @ [Unregister_buffers (ring_res u)]\<rparr> else w)
      in releases (uring_resources u) w)"

text \<open>Where a buffer lies in its pool, and its index in the registered vector.\<close>

definition chunk_buf :: "uring_ctx \<Rightarrow> nat \<Rightarrow> (nat \<times> nat) res" where
  "chunk_buf u idx =
     (if idx \<ge> chunk_buf_count u then Throw (Runtime_error ''IoUringCtx::chunk_buf index out of range'')
      else Ok (chunk_mem u, idx * chunk_buf_size u))"

definition frag_buf :: "uring_ctx \<Rightarrow> nat \<Rightarrow> (nat \<times> nat) res" where
  "frag_buf u idx =
     (if idx \<ge> frag_buf_count u then Throw (Runtime_error ''IoUringCtx::frag_buf index out of range'')
      else Ok (frag_mem u, idx * frag_buf_size u))"

definition ring_index_chunk :: "uring_ctx \<Rightarrow> nat \<Rightarrow> nat" where
  "ring_index_chunk u idx = idx"

definition ring_index_frag :: "uring_ctx \<Rightarrow> nat \<Rightarrow> nat" where
  "ring_index_frag u idx = chunk_buf_count u + idx"

text \<open>The descriptor belongs to the object from its first member on.\<close>

definition UdpTransport :: "nat \<Rightarrow> (sysw, nat \<times> uring_ctx) io" where
  "UdpTransport fd =
     io_bind (guarded [(Socket_fd, fd)] (IoUringCtx UDP_CHUNK_BUFS CHUNK_SIZE UDP_FRAG_BUFS UDP_MTU)) (\<lambda>u.
     io_ret (fd, u))"

definition udp_data_server_bind :: "u16 \<Rightarrow> (sysw, nat) io" where
  "udp_data_server_bind port =
     io_bind (acquire Socket_fd Socket_dgram (Runtime_error ''udp_data_server_bind: socket() failed: '')) (\<lambda>fd.
     io_bind (note_call (Reuse_addr fd)) (\<lambda>_.
     io_bind (require (Bind_any fd port) not_neg [(Socket_fd, fd)] (Runtime_error ''udp_data_server_bind: bind() failed: '')) (\<lambda>_.
     io_ret fd)))"

text \<open>\<^verbatim>\<open>recvfrom\<close> must return a byte: the end of the stream counts as a failure.\<close>

definition udp_data_server_connect :: "nat \<Rightarrow> (sysw, nat \<times> uring_ctx) io" where
  "udp_data_server_connect fd =
     io_bind (require (Recv_probe fd) (\<lambda>n. n > 0) [(Socket_fd, fd)] (Runtime_error ''udp_data_server_connect: recvfrom() failed: '')) (\<lambda>_.
     io_bind (require (Connect_peer fd) not_neg [(Socket_fd, fd)] (Runtime_error ''udp_data_server_connect: connect() failed: '')) (\<lambda>_.
     UdpTransport fd))"

definition udp_data_client_connect :: "string \<Rightarrow> u16 \<Rightarrow> (sysw, nat \<times> uring_ctx) io" where
  "udp_data_client_connect host port =
     io_bind (acquire Socket_fd Socket_dgram (Runtime_error ''udp_data_client_connect: socket() failed: '')) (\<lambda>fd.
     io_bind (note_call (Rcvbuf fd (16 * 1024 * 1024))) (\<lambda>_.
     io_bind (require (Inet_pton host) is_one [(Socket_fd, fd)] (Runtime_error ''udp_data_client_connect: invalid address: '')) (\<lambda>_.
     io_bind (require (Connect_to fd host port) not_neg [(Socket_fd, fd)] (Runtime_error ''udp_data_client_connect: connect() failed: '')) (\<lambda>_.
     io_bind (require (Send_probe fd) not_neg [(Socket_fd, fd)] (Runtime_error ''udp_data_client_connect: probe send() failed: '')) (\<lambda>_.
     UdpTransport fd)))))"

section \<open>QUIC\<close>

record quic_handle =
  q_fd :: nat
  q_ssl :: nat
  q_ctx :: nat
  q_conn :: "nat option"

text \<open>What the destructor frees: the connection, if it was attached, then TLS, then the socket.\<close>

definition quic_resources :: "quic_handle \<Rightarrow> resource list" where
  "quic_resources q =
     (case q_conn q of None \<Rightarrow> [] | Some c \<Rightarrow> [(Quic_conn, c)]) @
     [(Ssl, q_ssl q), (Ssl_ctx, q_ctx q), (Socket_fd, q_fd q)]"

definition quic_listen :: "u16 \<Rightarrow> (sysw, nat) io" where
  "quic_listen port =
     io_bind (acquire Socket_fd Socket_dgram (Runtime_error ''quic_listen: socket() failed: '')) (\<lambda>fd.
     io_bind (note_call (Reuse_addr fd)) (\<lambda>_.
     io_bind (note_call (Rcvbuf fd (4 * 1024 * 1024))) (\<lambda>_.
     io_bind (note_call (Sndbuf fd (4 * 1024 * 1024))) (\<lambda>_.
     io_bind (require (Bind_any fd port) not_neg [(Socket_fd, fd)] (Runtime_error ''quic_listen: bind() failed: '')) (\<lambda>_.
     io_ret fd)))))"

text \<open>Both sides announce the same limits; only a server repeats the connection id it was first addressed by.\<close>

definition NGTCP2_SECONDS :: nat where "NGTCP2_SECONDS = 1000000000"

definition embr_params :: "bool \<Rightarrow> quic_params" where
  "embr_params server =
     \<lparr>max_idle_timeout = 30 * NGTCP2_SECONDS, stream_data_bidi_local = 4 * 1024 * 1024,
      stream_data_bidi_remote = 4 * 1024 * 1024, initial_max_data = 8 * 1024 * 1024,
      max_streams_bidi = 1, original_dcid_present = server\<rparr>"

text \<open>
  The callbacks that are set: the library's own, and those of \<^verbatim>\<open>QuicTransport\<close>. A client emits the
  first packet and accepts a retry, a server derives its keys from the first packet.
\<close>

definition embr_callbacks :: "bool \<Rightarrow> string list" where
  "embr_callbacks server =
     (if server then [''recv_client_initial''] else [''client_initial'', ''recv_retry'']) @
     [''recv_crypto_data'', ''encrypt'', ''decrypt'', ''hp_mask'', ''update_key'', ''delete_crypto_aead_ctx'',
      ''delete_crypto_cipher_ctx'', ''get_path_challenge_data'', ''version_negotiation'',
      ''handshake_completed'', ''stream_open'', ''recv_stream_data'', ''rand'', ''get_new_connection_id'',
      ''acked_stream_data_offset'']"

text \<open>
  The transport exists before the connection. Its constructor may throw, and then the factory
  frees; from there on the factory's \<^verbatim>\<open>unique_ptr\<close> does.
\<close>

definition QuicTransport :: "nat \<Rightarrow> nat \<Rightarrow> nat \<Rightarrow> (sysw, quic_handle) io" where
  "QuicTransport fd ssl ctx =
     io_bind (require (Getsockname fd) not_neg [(Ssl, ssl), (Ssl_ctx, ctx), (Socket_fd, fd)]
       (Runtime_error ''QuicTransport: getsockname failed: '')) (\<lambda>_.
     io_ret \<lparr>q_fd = fd, q_ssl = ssl, q_ctx = ctx, q_conn = None\<rparr>)"

definition attach_conn :: "quic_handle \<Rightarrow> nat \<Rightarrow> quic_handle" where
  "attach_conn q c = q\<lparr>q_conn := Some c\<rparr>"

definition quic_accept :: "nat \<Rightarrow> string \<Rightarrow> string \<Rightarrow> (sysw, quic_handle) io" where
  "quic_accept fd cert_path key_path =
     (let l = [(Socket_fd, fd)]
      in io_bind (require (Recv_first fd) not_neg l (Runtime_error ''quic_accept: recvmsg() failed: '')) (\<lambda>_.
         io_bind (require Not_truncated is_zero l (Runtime_error ''quic_accept: first packet truncated'')) (\<lambda>_.
         io_bind (require Decode_cid is_zero l (Runtime_error ''quic_accept: decode_version_cid() failed: '')) (\<lambda>_.
         io_bind (require Accept_initial is_zero l (Runtime_error ''quic_accept: not a valid Initial: '')) (\<lambda>_.
         io_bind (require (Connect_peer fd) not_neg l (Runtime_error ''quic_accept: connect() failed: '')) (\<lambda>_.
         io_bind (require (Set_nonblock fd) not_neg l (Runtime_error ''quic_accept: fcntl(O_NONBLOCK) failed: '')) (\<lambda>_.
         io_bind (guarded l (acquire Ssl_ctx Ctx_new (Runtime_error ''quic_accept: wolfSSL_CTX_new() failed''))) (\<lambda>ctx.
         let lc = (Ssl_ctx, ctx) # l
         in io_bind (require (Configure_ctx ctx) is_zero lc
              (Runtime_error ''quic_accept: ngtcp2_crypto_wolfssl_configure_server_context() failed'')) (\<lambda>_.
            io_bind (require (Use_cert ctx cert_path) is_one lc
              (Runtime_error (''quic_accept: failed to load cert: '' @ cert_path))) (\<lambda>_.
            io_bind (require (Use_key ctx key_path) is_one lc
              (Runtime_error (''quic_accept: failed to load key: '' @ key_path))) (\<lambda>_.
            io_bind (guarded lc (acquire Ssl (Ssl_new ctx) (Runtime_error ''quic_accept: wolfSSL_new() failed''))) (\<lambda>ssl.
            io_bind (require (Use_alpn ssl ''embr'') is_one ((Ssl, ssl) # lc)
              (Runtime_error ''quic_accept: wolfSSL_UseALPN() failed'')) (\<lambda>_.
            io_bind (note_call (Quic_version ssl 0x39)) (\<lambda>_.
            io_bind (note_call (Accept_state ssl)) (\<lambda>_.
            io_bind (QuicTransport fd ssl ctx) (\<lambda>qt.
            io_bind (guarded (quic_resources qt)
              (acquire Quic_conn (Conn_new ssl (embr_params True) (embr_callbacks True)) (Runtime_error ''quic_accept: ngtcp2_conn_server_new() failed: ''))) (\<lambda>conn.
            let qt = attach_conn qt conn
            in io_bind (require Feed_first is_zero (quic_resources qt) (Runtime_error ''quic_accept: first packet rejected'')) (\<lambda>_.
               io_bind (require (Run_handshake conn) is_zero (quic_resources qt) (Runtime_error ''quic_accept: handshake failed'')) (\<lambda>_.
               io_ret qt)))))))))))))))))))"

definition quic_connect :: "string \<Rightarrow> u16 \<Rightarrow> (sysw, quic_handle) io" where
  "quic_connect host port =
     io_bind (acquire Socket_fd Socket_dgram (Runtime_error ''quic_connect: socket() failed: '')) (\<lambda>fd.
     let l = [(Socket_fd, fd)]
     in io_bind (require (Inet_pton host) is_one l (Runtime_error (''quic_connect: invalid address: '' @ host))) (\<lambda>_.
        io_bind (note_call (Rcvbuf fd (4 * 1024 * 1024))) (\<lambda>_.
        io_bind (note_call (Sndbuf fd (4 * 1024 * 1024))) (\<lambda>_.
        io_bind (require (Connect_to fd host port) not_neg l (Runtime_error ''quic_connect: connect() failed: '')) (\<lambda>_.
        io_bind (require (Set_nonblock fd) not_neg l (Runtime_error ''quic_connect: fcntl(O_NONBLOCK) failed: '')) (\<lambda>_.
        io_bind (guarded l (acquire Ssl_ctx Ctx_new (Runtime_error ''quic_connect: wolfSSL_CTX_new() failed''))) (\<lambda>ctx.
        let lc = (Ssl_ctx, ctx) # l
        in io_bind (require (Configure_ctx ctx) is_zero lc
             (Runtime_error ''quic_connect: ngtcp2_crypto_wolfssl_configure_client_context() failed'')) (\<lambda>_.
           io_bind (note_call (Verify_none ctx)) (\<lambda>_.
           io_bind (guarded lc (acquire Ssl (Ssl_new ctx) (Runtime_error ''quic_connect: wolfSSL_new() failed''))) (\<lambda>ssl.
           io_bind (note_call (Use_sni ssl host)) (\<lambda>_.
           io_bind (require (Use_alpn ssl ''embr'') is_one ((Ssl, ssl) # lc)
             (Runtime_error ''quic_connect: wolfSSL_UseALPN() failed'')) (\<lambda>_.
           io_bind (note_call (Quic_version ssl 0x39)) (\<lambda>_.
           io_bind (QuicTransport fd ssl ctx) (\<lambda>qt.
           io_bind (guarded (quic_resources qt)
             (acquire Quic_conn (Conn_new ssl (embr_params False) (embr_callbacks False)) (Runtime_error ''quic_connect: ngtcp2_conn_client_new() failed: ''))) (\<lambda>conn.
           let qt = attach_conn qt conn
           in io_bind (require (Run_handshake conn) is_zero (quic_resources qt) (Runtime_error ''quic_connect: handshake failed'')) (\<lambda>_.
              io_bind (require (Open_bidi conn) is_zero (quic_resources qt) (Runtime_error ''quic_connect: open_bidi_stream failed: '')) (\<lambda>_.
              io_ret qt)))))))))))))))))"

section \<open>The books\<close>

text \<open>
  \<open>books T m own\<close>: \<open>m\<close> takes over the resources \<open>T\<close>, which are held when it starts; its result
  owns \<open>own x\<close>. When it throws, all of \<open>T\<close> is given back. Nothing else that is held changes, and
  nothing is given back twice.
\<close>

definition settled :: "resource multiset \<Rightarrow> resource multiset \<Rightarrow> sysw \<Rightarrow> sysw \<Rightarrow> bool" where
  "settled T got w w' \<longleftrightarrow> bad_frees w' = bad_frees w \<and> mset (held w') = mset (held w) - T + got"

definition books :: "resource multiset \<Rightarrow> (sysw, 'a) io \<Rightarrow> ('a \<Rightarrow> resource multiset) \<Rightarrow> bool" where
  "books T m own \<longleftrightarrow>
     (\<forall>w r w'. m w = Some (r, w') \<longrightarrow> T \<subseteq># mset (held w) \<longrightarrow>
        (case r of Ok x \<Rightarrow> settled T (own x) w w' | Throw _ \<Rightarrow> settled T {#} w w' | Undef \<Rightarrow> False))"

lemma booksD:
  assumes "books T m own" and "m w = Some (r, w')" and "T \<subseteq># mset (held w)"
  shows "case r of Ok x \<Rightarrow> settled T (own x) w w' | Throw _ \<Rightarrow> settled T {#} w w' | Undef \<Rightarrow> False"
  using assms unfolding books_def by blast

lemma settled_trans:
  assumes "settled T U w w1" and "settled U V w1 w2"
  shows "settled T V w w2"
  using assms by (simp add: settled_def)

lemma settled_covers: "settled T U w w' \<Longrightarrow> U \<subseteq># mset (held w')"
  by (simp add: settled_def)

lemma books_bind:
  assumes m: "books T m own" and f: "\<And>x. books (own x) (f x) own'"
  shows "books T (io_bind m f) own'"
  unfolding books_def
proof (intro allI impI)
  fix w r w' assume run: "io_bind m f w = Some (r, w')" and T: "T \<subseteq># mset (held w)"
  from run obtain r1 w1 where m1: "m w = Some (r1, w1)"
    by (cases "m w") (auto simp: io_bind_def)
  note B = booksD [OF m m1 T]
  show "case r of Ok x \<Rightarrow> settled T (own' x) w w' | Throw _ \<Rightarrow> settled T {#} w w' | Undef \<Rightarrow> False"
  proof (cases r1)
    case (Ok x)
    then have s: "settled T (own x) w w1" and f1: "f x w1 = Some (r, w')"
      using B m1 run by (simp_all add: io_bind_def)
    from booksD [OF f f1 settled_covers [OF s]] show ?thesis
      using settled_trans [OF s] by (cases r) auto
  qed (use B m1 run in auto)
qed

lemma books_ret: "own x = T \<Longrightarrow> books T (io_ret x) own"
  by (auto simp: books_def settled_def)

lemma books_note: "own () = T \<Longrightarrow> books T (note_call c) own"
  by (auto simp: books_def settled_def note_call_def)

lemma release_held:
  assumes "x \<in># mset (held w)"
  shows "mset (held (release x w)) = mset (held w) - {#x#}" "bad_frees (release x w) = bad_frees w"
  using assms by (simp_all add: release_def)

lemma releases_held:
  assumes "mset xs \<subseteq># mset (held w)"
  shows "mset (held (releases xs w)) = mset (held w) - mset xs \<and> bad_frees (releases xs w) = bad_frees w"
  using assms
proof (induction xs arbitrary: w)
  case Nil
  then show ?case by (simp add: releases_def)
next
  case (Cons x xs)
  have x: "x \<in># mset (held w)" using Cons.prems by (auto dest: mset_subset_eqD)
  have "mset xs \<subseteq># mset (held (release x w))"
    using Cons.prems x by (simp add: release_held [OF x] insert_subset_eq_iff)
  from Cons.IH [OF this] show ?case by (simp add: releases_def release_held [OF x])
qed

lemma settled_releases: "mset xs \<subseteq># mset (held w) \<Longrightarrow> settled (mset xs) {#} w (releases xs w)"
  by (simp add: settled_def releases_held)

lemma books_require:
  assumes "mset xs = T" and "own () = T"
  shows "books T (require c good xs e) own"
  unfolding books_def
proof (intro allI impI)
  fix w r w' assume run: "require c good xs e w = Some (r, w')" and T: "T \<subseteq># mset (held w)"
  then obtain a as where a: "answers w = a # as"
    by (cases "answers w") (auto simp: require_def io_bind_def do_call_def)
  let ?w1 = "w\<lparr>answers := as, calls := calls w @ [c]\<rparr>"
  have c: "do_call c w = Some (Ok a, ?w1)" by (simp add: do_call_def a)
  have s: "settled T T w ?w1" using T by (simp add: settled_def)
  show "case r of Ok x \<Rightarrow> settled T (own x) w w' | Throw _ \<Rightarrow> settled T {#} w w' | Undef \<Rightarrow> False"
  proof (cases "good a")
    case True
    then show ?thesis using run c s assms by (auto simp: require_def io_bind_def)
  next
    case False
    then have r: "r = Throw e" "w' = releases xs ?w1" using run c by (auto simp: require_def io_bind_def)
    have "settled T {#} ?w1 w'" unfolding r(2) assms(1) [symmetric]
      by (rule settled_releases) (use T assms(1) in simp)
    then show ?thesis using settled_trans [OF s] r(1) by simp
  qed
qed

lemma books_acquire:
  assumes "\<And>i. own i = {#(k, i)#}"
  shows "books {#} (acquire k c e) own"
  using assms
  by (auto simp: books_def acquire_def io_bind_def do_call_def obtained_def settled_def
      split: list.splits if_splits)

text \<open>A guard holds what it gives back while the guarded code runs.\<close>

lemma books_guarded:
  assumes m: "books {#} m own" and T: "mset xs = T" and own: "\<And>x. own' x = T + own x"
  shows "books T (guarded xs m) own'"
  unfolding books_def
proof (intro allI impI)
  fix w r w' assume run: "guarded xs m w = Some (r, w')" and Tw: "T \<subseteq># mset (held w)"
  then obtain r1 w1 where m1: "m w = Some (r1, w1)"
    by (cases "m w") (auto simp: guarded_def io_catch_rethrow_def)
  have B: "case r1 of Ok x \<Rightarrow> settled {#} (own x) w w1 | Throw _ \<Rightarrow> settled {#} {#} w w1 | Undef \<Rightarrow> False"
    by (rule booksD [OF m m1]) simp
  show "case r of Ok x \<Rightarrow> settled T (own' x) w w' | Throw _ \<Rightarrow> settled T {#} w w' | Undef \<Rightarrow> False"
  proof (cases r1)
    case (Ok x)
    then show ?thesis using B run m1 Tw own by (auto simp: guarded_def settled_def)
  next
    case (Throw e)
    then have r: "r = Throw e" "w' = releases xs w1" using run m1
      by (auto simp: guarded_def io_catch_rethrow_def)
    have "settled T {#} w1 w'" unfolding r(2) T [symmetric]
      by (rule settled_releases) (use B Throw Tw T in \<open>simp add: settled_def\<close>)
    moreover have "settled T T w w1" using B Throw Tw by (simp add: settled_def)
    ultimately show ?thesis using settled_trans r(1) by auto
  qed (use B in simp)
qed

text \<open>The rules with the simplest ownership, in the order the factories need them.\<close>

lemma books_stay:
  "books T (note_call c) (\<lambda>_. T)"
  "mset xs = T \<Longrightarrow> books T (require c good xs e) (\<lambda>_. T)"
  by (rule books_note books_require; simp)+

lemma books_new:
  "books {#} (acquire k c e) (\<lambda>i. {#(k, i)#})"
  "books {#} m own \<Longrightarrow> mset xs = T \<Longrightarrow> books T (guarded xs m) (\<lambda>x. T + own x)"
  by (rule books_acquire books_guarded; simp)+

lemma books_if:
  "(b \<Longrightarrow> books T m own) \<Longrightarrow> (\<not> b \<Longrightarrow> books T n own) \<Longrightarrow> books T (if b then m else n) own"
  by simp

lemma books_throw: "books {#} (io_throw e) own"
  by (simp add: books_def settled_def)

lemma books_do: "books T (do_call c) (\<lambda>_. T)"
  by (auto simp: books_def settled_def do_call_def split: list.splits)

lemmas books_rules = books_bind books_stay books_new books_do

section \<open>A factory and its product\<close>

text \<open>
  What the callers rely on: a factory that succeeds has turned what it took over into what its
  product owns, one that throws has given it back, and destroying the product settles the rest.
\<close>

locale resource_factory =
  fixes make :: "(sysw, 'a) io" and takes :: "resource list" and product :: "'a \<Rightarrow> resource list"
  assumes made: "books (mset takes) make (\<lambda>x. mset (product x))"
begin

lemma make_settles:
  assumes "make w = Some (r, w')" and "mset takes \<subseteq># mset (held w)"
  shows "r \<noteq> Undef \<and> bad_frees w' = bad_frees w \<and>
    mset (held w') = mset (held w) - mset takes + (case r of Ok x \<Rightarrow> mset (product x) | _ \<Rightarrow> {#})"
  using booksD [OF made assms] by (cases r) (auto simp: settled_def)

lemma make_destroy:
  assumes "make w = Some (Ok x, w')" and "mset takes \<subseteq># mset (held w)"
  shows "bad_frees (releases (product x) w') = bad_frees w \<and>
    mset (held (releases (product x) w')) = mset (held w) - mset takes"
  using make_settles [OF assms] releases_held [of "product x" w'] by simp

end

interpretation tcp_listens: resource_factory "tcp_listen port" "[]" "\<lambda>fd. [(Socket_fd, fd)]" for port
  by unfold_locales (auto simp: tcp_listen_def intro!: books_rules books_ret)

interpretation tcp_accepts: resource_factory "tcp_accept listen_fd" "[]" "\<lambda>fd. [(Socket_fd, fd)]" for listen_fd
  by unfold_locales (auto simp: tcp_accept_def intro!: books_rules books_ret)

interpretation tcp_connects: resource_factory "tcp_connect host port" "[]" "\<lambda>fd. [(Socket_fd, fd)]" for host port
  by unfold_locales (auto simp: tcp_connect_def intro!: books_rules books_ret)

interpretation urings: resource_factory "IoUringCtx cc cs fc fs" "[]" uring_resources for cc cs fc fs
  by unfold_locales
    (auto simp: IoUringCtx_def Let_def uring_resources_def add_mset_commute
      intro!: books_rules books_ret books_if books_throw)

definition udp_resources :: "nat \<times> uring_ctx \<Rightarrow> resource list" where
  "udp_resources t = uring_resources (snd t) @ [(Socket_fd, fst t)]"

interpretation udp_binds: resource_factory "udp_data_server_bind port" "[]" "\<lambda>fd. [(Socket_fd, fd)]" for port
  by unfold_locales (auto simp: udp_data_server_bind_def intro!: books_rules books_ret)

interpretation udp_news: resource_factory "UdpTransport fd" "[(Socket_fd, fd)]" udp_resources for fd
proof unfold_locales
  show "books (mset [(Socket_fd, fd)]) (UdpTransport fd) (\<lambda>x. mset (udp_resources x))"
    unfolding UdpTransport_def
    by (rule books_bind [OF books_new(2) [OF urings.made [simplified], of "[(Socket_fd, fd)]"]])
      (auto simp: udp_resources_def intro!: books_ret)
qed

interpretation udp_servers: resource_factory "udp_data_server_connect fd" "[(Socket_fd, fd)]" udp_resources for fd
  using udp_news.made
  by unfold_locales (auto simp: udp_data_server_connect_def intro!: books_rules)

interpretation udp_clients: resource_factory "udp_data_client_connect host port" "[]" udp_resources for host port
  using udp_news.made
  by unfold_locales (auto simp: udp_data_client_connect_def intro!: books_rules)

interpretation quic_listens: resource_factory "quic_listen port" "[]" "\<lambda>fd. [(Socket_fd, fd)]" for port
  by unfold_locales (auto simp: quic_listen_def intro!: books_rules books_ret)

lemma quic_resources_mset:
  "mset (quic_resources q) =
     (case q_conn q of None \<Rightarrow> {#} | Some c \<Rightarrow> {#(Quic_conn, c)#}) +
     {#(Ssl, q_ssl q), (Ssl_ctx, q_ctx q), (Socket_fd, q_fd q)#}"
  by (simp add: quic_resources_def split: option.splits)

lemma attach_conn_fields [simp]:
  "q_fd (attach_conn q c) = q_fd q" "q_ssl (attach_conn q c) = q_ssl q"
  "q_ctx (attach_conn q c) = q_ctx q" "q_conn (attach_conn q c) = Some c"
  by (simp_all add: attach_conn_def)

text \<open>The constructor's product has no connection yet.\<close>

lemma quic_new_bind:
  "io_bind (QuicTransport fd ssl ctx) f =
     io_bind (require (Getsockname fd) not_neg [(Ssl, ssl), (Ssl_ctx, ctx), (Socket_fd, fd)]
       (Runtime_error ''QuicTransport: getsockname failed: ''))
       (\<lambda>_. f \<lparr>q_fd = fd, q_ssl = ssl, q_ctx = ctx, q_conn = None\<rparr>)"
  by (rule ext) (simp add: QuicTransport_def io_bind_def io_ret_def split: option.splits res.splits)

interpretation quic_connects: resource_factory "quic_connect host port" "[]" quic_resources for host port
  unfolding quic_connect_def Let_def quic_new_bind
  by unfold_locales (auto simp: quic_resources_mset add_mset_commute intro!: books_rules books_ret)

interpretation quic_accepts: resource_factory "quic_accept fd cert key" "[(Socket_fd, fd)]" quic_resources for fd cert key
  unfolding quic_accept_def Let_def quic_new_bind
  by unfold_locales (auto simp: quic_resources_mset add_mset_commute intro!: books_rules books_ret)

section \<open>All the factories\<close>

text \<open>A call of any factory, what it takes over, and what its product owns.\<close>

datatype factory_call =
    Tcp_listen u16 | Tcp_accept nat | Tcp_connect string u16
  | Udp_bind u16 | Udp_server nat | Udp_client string u16
  | Quic_listen u16 | Quic_accept nat string string | Quic_connect string u16

definition owned_by :: "('a \<Rightarrow> resource list) \<Rightarrow> (sysw, 'a) io \<Rightarrow> (sysw, resource list) io" where
  "owned_by own m = io_bind m (\<lambda>x. io_ret (own x))"

primrec factory_takes :: "factory_call \<Rightarrow> resource list" where
  "factory_takes (Tcp_listen port) = []"
| "factory_takes (Tcp_accept fd) = []"
| "factory_takes (Tcp_connect host port) = []"
| "factory_takes (Udp_bind port) = []"
| "factory_takes (Udp_server fd) = [(Socket_fd, fd)]"
| "factory_takes (Udp_client host port) = []"
| "factory_takes (Quic_listen port) = []"
| "factory_takes (Quic_accept fd cert key) = [(Socket_fd, fd)]"
| "factory_takes (Quic_connect host port) = []"

primrec run_factory :: "factory_call \<Rightarrow> (sysw, resource list) io" where
  "run_factory (Tcp_listen port) = owned_by (\<lambda>fd. [(Socket_fd, fd)]) (tcp_listen port)"
| "run_factory (Tcp_accept fd) = owned_by (\<lambda>fd. [(Socket_fd, fd)]) (tcp_accept fd)"
| "run_factory (Tcp_connect host port) = owned_by (\<lambda>fd. [(Socket_fd, fd)]) (tcp_connect host port)"
| "run_factory (Udp_bind port) = owned_by (\<lambda>fd. [(Socket_fd, fd)]) (udp_data_server_bind port)"
| "run_factory (Udp_server fd) = owned_by udp_resources (udp_data_server_connect fd)"
| "run_factory (Udp_client host port) = owned_by udp_resources (udp_data_client_connect host port)"
| "run_factory (Quic_listen port) = owned_by (\<lambda>fd. [(Socket_fd, fd)]) (quic_listen port)"
| "run_factory (Quic_accept fd cert key) = owned_by quic_resources (quic_accept fd cert key)"
| "run_factory (Quic_connect host port) = owned_by quic_resources (quic_connect host port)"

lemma books_owned_by:
  "books T m (\<lambda>x. mset (own x)) \<Longrightarrow> books T (owned_by own m) mset"
  unfolding owned_by_def by (rule books_bind) (auto intro: books_ret)

interpretation factories: resource_factory "run_factory c" "factory_takes c" "\<lambda>xs. xs" for c
  using tcp_listens.made tcp_accepts.made tcp_connects.made udp_binds.made udp_servers.made
    udp_clients.made quic_listens.made quic_accepts.made quic_connects.made
  by unfold_locales (cases c; simp add: books_owned_by)

text \<open>C15: every factory, whatever calls it makes fail, gives back exactly what it holds when it
  throws, including the listening socket it was handed, never gives anything back twice, and a
  product that is destroyed leaves nothing behind.\<close>

theorem factories_leak_free:
  assumes "run_factory c w = Some (r, w')" and "mset (factory_takes c) \<subseteq># mset (held w)"
  shows "r \<noteq> Undef \<and> bad_frees w' = bad_frees w \<and>
    (\<forall>e. r = Throw e \<longrightarrow> mset (held w') = mset (held w) - mset (factory_takes c)) \<and>
    (\<forall>xs. r = Ok xs \<longrightarrow> mset (held w') = mset (held w) - mset (factory_takes c) + mset xs \<and>
       bad_frees (releases xs w') = bad_frees w \<and>
       mset (held (releases xs w')) = mset (held w) - mset (factory_takes c))"
proof (intro conjI allI impI)
  note S = factories.make_settles [OF assms]
  show "r \<noteq> Undef" "bad_frees w' = bad_frees w" using S by simp_all
  show "mset (held w') = mset (held w) - mset (factory_takes c)" if "r = Throw e" for e
    using S that by simp
  show "mset (held w') = mset (held w) - mset (factory_takes c) + mset xs" if "r = Ok xs" for xs
    using S that by simp
  show "bad_frees (releases xs w') = bad_frees w"
      "mset (held (releases xs w')) = mset (held w) - mset (factory_takes c)" if "r = Ok xs" for xs
    using factories.make_destroy [OF assms(1) [unfolded that] assms(2)] by simp_all
qed

text \<open>A server whose certificate loads and whose key does not.\<close>

definition sample_sysw :: sysw where
  "sample_sysw = \<lparr>held = [(Socket_fd, 0)], bad_frees = 0, next_id = 1, calls = [],
     answers = [1200, 0, 0, 0, 0, 0, 0, 0, 1, 0]\<rparr>"

lemmas factory_eval = sample_sysw_def quic_accept_def require_def acquire_def obtained_def guarded_def
  do_call_def note_call_def releases_def release_def owned_by_def io_bind_def io_throw_def
  io_catch_rethrow_def not_neg_def is_zero_def is_one_def

lemma factories_leak_free_witness:
  "\<exists>r w'. run_factory (Quic_accept 0 ''c.pem'' ''k.pem'') sample_sysw = Some (r, w') \<and>
     r = Throw (Runtime_error (''quic_accept: failed to load key: '' @ ''k.pem'')) \<and>
     bad_frees w' = 0 \<and> held w' = []"
proof -
  obtain r w' where run: "run_factory (Quic_accept 0 ''c.pem'' ''k.pem'') sample_sysw = Some (r, w')"
    "r = Throw (Runtime_error (''quic_accept: failed to load key: '' @ ''k.pem''))"
    by (simp add: factory_eval Let_def)
  show ?thesis
    using factories_leak_free [OF run(1)] run by (auto simp: sample_sysw_def)
qed

section \<open>The registered buffers\<close>

lemma IoUringCtx_Ok:
  assumes "IoUringCtx cc cs fc fs w = Some (Ok u, w')"
  shows "chunk_buf_count u = cc \<and> chunk_buf_size u = cs \<and> frag_buf_count u = fc \<and> frag_buf_size u = fs \<and>
    iovecs u = io_vectors (chunk_mem u) cc cs (frag_mem u) fc fs"
  using assms by (auto simp: IoUringCtx_def Let_def io_simps io_ret_def)


definition ring_sysw :: sysw where
  "ring_sysw = \<lparr>held = [], bad_frees = 0, next_id = 0, calls = [], answers = [0, 0, 0, -12]\<rparr>"


end
