(* ===== verification/Ownership.thy ===== *)
theory Ownership
  imports Embr_Sys "HOL-Library.Multiset"
begin

text \<open>
  The two move-only owners of the code: \<^verbatim>\<open>Buffer\<close> of \<^verbatim>\<open>src/core/protocol.hpp\<close>, which owns a
  heap block or a foreign pointer with a release callback, and \<^verbatim>\<open>SocketFd\<close> of
  \<^verbatim>\<open>src/util/socket_fd.hpp\<close>. Their contract is the locale \<open>unique_owner\<close>: what an object
  would give back if it were destroyed is neither lost nor doubled by a move. From it follows
  that in any program that creates, moves, assigns and destroys such objects every resource
  is given back at most once, and exactly once when all objects are gone.
\<close>

section \<open>The contract\<close>

datatype 'o owner_op = Create 'o | Move_new nat | Move_to nat nat | Destroy nat

record ('o, 'r) owners =
  objects :: "'o option list"
  given_back :: "'r list"

locale unique_owner =
  fixes drop_obj :: "'o \<Rightarrow> 'r list"
    and move_obj :: "'o \<Rightarrow> 'o \<times> 'o"
    and assign_obj :: "'o \<Rightarrow> 'o \<Rightarrow> 'o \<times> 'o \<times> 'r list"
    and good :: "'o \<Rightarrow> bool"
  assumes move_good: "good x \<Longrightarrow> move_obj x = (y, z) \<Longrightarrow> good y \<and> good z"
    and move_keeps: "good x \<Longrightarrow> move_obj x = (y, z) \<Longrightarrow> mset (drop_obj y) + mset (drop_obj z) = mset (drop_obj x)"
    and assign_good: "good d \<Longrightarrow> good x \<Longrightarrow> assign_obj d x = (d', x', out) \<Longrightarrow> good d' \<and> good x'"
    and assign_keeps: "good d \<Longrightarrow> good x \<Longrightarrow> assign_obj d x = (d', x', out) \<Longrightarrow>
      mset (drop_obj d') + mset (drop_obj x') + mset out = mset (drop_obj d) + mset (drop_obj x)"
begin

text \<open>
  Objects have numbers. Using a number that names no live object is not a program;
  assigning an object to itself does nothing.
\<close>

fun exec :: "'o owner_op \<Rightarrow> ('o, 'r) owners \<Rightarrow> ('o, 'r) owners option" where
  "exec (Create x) s = Some (s\<lparr>objects := objects s @ [Some x]\<rparr>)"
| "exec (Move_new i) s =
     (if i < length (objects s) then
        case objects s ! i of
          None \<Rightarrow> None
        | Some x \<Rightarrow> (case move_obj x of (y, z) \<Rightarrow>
            Some (s\<lparr>objects := (objects s)[i := Some z] @ [Some y]\<rparr>))
      else None)"
| "exec (Move_to i j) s =
     (if i < length (objects s) \<and> j < length (objects s) then
        case (objects s ! i, objects s ! j) of
          (Some d, Some x) \<Rightarrow>
            if i = j then Some s
            else (case assign_obj d x of (d', x', out) \<Rightarrow>
              Some \<lparr>objects = (objects s)[i := Some d', j := Some x'], given_back = given_back s @ out\<rparr>)
        | _ \<Rightarrow> None
      else None)"
| "exec (Destroy i) s =
     (if i < length (objects s) then
        case objects s ! i of
          None \<Rightarrow> None
        | Some x \<Rightarrow> Some \<lparr>objects = (objects s)[i := None], given_back = given_back s @ drop_obj x\<rparr>
      else None)"

primrec exec_all :: "'o owner_op list \<Rightarrow> ('o, 'r) owners \<Rightarrow> ('o, 'r) owners option" where
  "exec_all [] s = Some s"
| "exec_all (p # ps) s = (case exec p s of None \<Rightarrow> None | Some s' \<Rightarrow> exec_all ps s')"

definition held :: "'o option \<Rightarrow> 'r multiset" where
  "held x = (case x of None \<Rightarrow> {#} | Some x \<Rightarrow> mset (drop_obj x))"

definition brought :: "'o owner_op \<Rightarrow> 'r multiset" where
  "brought p = (case p of Create x \<Rightarrow> mset (drop_obj x) | _ \<Rightarrow> {#})"

definition all_good :: "('o, 'r) owners \<Rightarrow> bool" where
  "all_good s \<longleftrightarrow> (\<forall>x. Some x \<in> set (objects s) \<longrightarrow> good x)"

definition total :: "('o, 'r) owners \<Rightarrow> 'r multiset" where
  "total s = sum_list (map held (objects s)) + mset (given_back s)"

lemma held_simps [simp]: "held None = {#}" "held (Some x) = mset (drop_obj x)"
  by (simp_all add: held_def)

lemma brought_simps [simp]:
  "brought (Create x) = mset (drop_obj x)" "brought (Move_new i) = {#}"
  "brought (Move_to i j) = {#}" "brought (Destroy i) = {#}"
  by (simp_all add: brought_def)

lemma sum_held_update:
  "i < length xs \<Longrightarrow> sum_list (map held (xs[i := y])) + held (xs ! i) = sum_list (map held xs) + held y"
proof (induction xs arbitrary: i)
  case Nil
  then show ?case by simp
next
  case (Cons x xs)
  then show ?case by (cases i) (simp_all add: ac_simps)
qed

lemma all_good_nth: "all_good s \<Longrightarrow> i < length (objects s) \<Longrightarrow> objects s ! i = Some x \<Longrightarrow> good x"
  unfolding all_good_def by (metis nth_mem)

lemma all_good_update: "all_good s \<Longrightarrow> (\<And>x. y = Some x \<Longrightarrow> good x) \<Longrightarrow> Some x \<in> set ((objects s)[i := y]) \<Longrightarrow> good x"
  using set_update_subset_insert [of "objects s" i y] by (auto simp: all_good_def)

lemma exec_good:
  assumes "exec p s = Some s'" and "all_good s" and "\<And>x. p = Create x \<Longrightarrow> good x"
  shows "all_good s'"
proof (cases p)
  case (Create x)
  then show ?thesis using assms by (auto simp: all_good_def)
next
  case (Move_new i)
  with assms(1) obtain x y z where i: "i < length (objects s)" "objects s ! i = Some x" "move_obj x = (y, z)"
    "s' = s\<lparr>objects := (objects s)[i := Some z] @ [Some y]\<rparr>"
    by (auto split: if_splits option.splits prod.splits)
  have "good y" "good z" using move_good [OF all_good_nth [OF assms(2) i(1,2)] i(3)] by auto
  then show ?thesis using assms(2) i(4) by (auto simp: all_good_def dest: all_good_update [OF assms(2), rotated])
next
  case (Move_to i j)
  show ?thesis
  proof (cases "i = j")
    case True
    then show ?thesis using Move_to assms by (auto split: if_splits option.splits)
  next
    case False
    with Move_to assms(1) obtain d x d' x' out where ij: "i < length (objects s)" "objects s ! i = Some d"
      "j < length (objects s)" "objects s ! j = Some x" "assign_obj d x = (d', x', out)"
      "s' = \<lparr>objects = (objects s)[i := Some d', j := Some x'], given_back = given_back s @ out\<rparr>"
      by (auto split: if_splits option.splits prod.splits)
    have "good d'" "good x'"
      using assign_good [OF all_good_nth [OF assms(2) ij(1,2)] all_good_nth [OF assms(2) ij(3,4)] ij(5)] by auto
    then show ?thesis using assms(2) ij(6)
      by (auto simp: all_good_def dest!: subsetD [OF set_update_subset_insert])
  qed
next
  case (Destroy i)
  then show ?thesis using assms(1,2) by (auto simp: all_good_def split: if_splits option.splits dest!: subsetD [OF set_update_subset_insert])
qed

lemma exec_total:
  assumes "exec p s = Some s'" and "all_good s"
  shows "total s' = total s + brought p"
proof (cases p)
  case (Create x)
  then show ?thesis using assms by (auto simp: total_def)
next
  case (Move_new i)
  with assms(1) obtain x y z where i: "i < length (objects s)" "objects s ! i = Some x" "move_obj x = (y, z)"
    "s' = s\<lparr>objects := (objects s)[i := Some z] @ [Some y]\<rparr>"
    by (auto split: if_splits option.splits prod.splits)
  have "sum_list (map held ((objects s)[i := Some z])) + mset (drop_obj x)
      = sum_list (map held (objects s)) + mset (drop_obj z)"
    using sum_held_update [OF i(1), of "Some z"] i(2) by simp
  moreover have "mset (drop_obj y) + mset (drop_obj z) = mset (drop_obj x)"
    by (rule move_keeps [OF all_good_nth [OF assms(2) i(1,2)] i(3)])
  ultimately have "sum_list (map held ((objects s)[i := Some z])) + mset (drop_obj y) + mset (drop_obj z)
      = sum_list (map held (objects s)) + mset (drop_obj z)"
    by (simp add: add.assoc)
  then have "sum_list (map held ((objects s)[i := Some z])) + mset (drop_obj y) = sum_list (map held (objects s))"
    by simp
  then show ?thesis using i(4) Move_new by (simp add: total_def)
next
  case (Move_to i j)
  show ?thesis
  proof (cases "i = j")
    case True
    then show ?thesis using Move_to assms by (auto split: if_splits option.splits)
  next
    case False
    with Move_to assms(1) obtain d x d' x' out where ij: "i < length (objects s)" "objects s ! i = Some d"
      "j < length (objects s)" "objects s ! j = Some x" "assign_obj d x = (d', x', out)"
      "s' = \<lparr>objects = (objects s)[i := Some d', j := Some x'], given_back = given_back s @ out\<rparr>"
      by (auto split: if_splits option.splits prod.splits)
    let ?ys = "(objects s)[i := Some d']"
    have 1: "sum_list (map held ?ys) + mset (drop_obj d) = sum_list (map held (objects s)) + mset (drop_obj d')"
      using sum_held_update [OF ij(1), of "Some d'"] ij(2) by simp
    have 2: "sum_list (map held (?ys[j := Some x'])) + mset (drop_obj x) = sum_list (map held ?ys) + mset (drop_obj x')"
      using sum_held_update [of j ?ys "Some x'"] ij(3,4) False by simp
    have 3: "mset (drop_obj d') + mset (drop_obj x') + mset out = mset (drop_obj d) + mset (drop_obj x)"
      by (rule assign_keeps [OF all_good_nth [OF assms(2) ij(1,2)] all_good_nth [OF assms(2) ij(3,4)] ij(5)])
    let ?A = "sum_list (map held (?ys[j := Some x']))" and ?B = "sum_list (map held (objects s))"
    have "?A + mset out + (mset (drop_obj d) + mset (drop_obj x))
        = (?A + mset (drop_obj x)) + mset (drop_obj d) + mset out" by (simp add: ac_simps)
    also have "\<dots> = (sum_list (map held ?ys) + mset (drop_obj d)) + mset (drop_obj x') + mset out"
      unfolding 2 by (simp add: ac_simps)
    also have "\<dots> = ?B + (mset (drop_obj d') + mset (drop_obj x') + mset out)"
      unfolding 1 by (simp add: ac_simps)
    finally have "?A + mset out = ?B" unfolding 3 by simp
    then show ?thesis using ij(6) Move_to by (simp add: total_def ac_simps)
  qed
next
  case (Destroy i)
  with assms(1) obtain x where i: "i < length (objects s)" "objects s ! i = Some x"
    "s' = \<lparr>objects = (objects s)[i := None], given_back = given_back s @ drop_obj x\<rparr>"
    by (auto split: if_splits option.splits)
  have "sum_list (map held ((objects s)[i := None])) + mset (drop_obj x) = sum_list (map held (objects s))"
    using sum_held_update [OF i(1), of None] i(2) by simp
  then show ?thesis using i(3) Destroy by (simp add: total_def ac_simps)
qed

lemma exec_all_total:
  assumes "exec_all ps s = Some s'" and "all_good s" and "\<And>x. Create x \<in> set ps \<Longrightarrow> good x"
  shows "total s' = total s + sum_list (map brought ps)"
  using assms
proof (induction ps arbitrary: s)
  case Nil
  then show ?case by simp
next
  case (Cons p ps)
  then obtain s1 where s1: "exec p s = Some s1" "exec_all ps s1 = Some s'" by (auto split: option.splits)
  have "all_good s1" by (rule exec_good [OF s1(1) Cons.prems(2)]) (use Cons.prems(3) in auto)
  from Cons.IH [OF s1(2) this] Cons.prems(3) exec_total [OF s1(1) Cons.prems(2)]
  show ?case by (simp add: add.assoc)
qed

text \<open>Nothing is given back twice, and all of it once no object is left.\<close>

lemma given_back_once:
  assumes "exec_all ps \<lparr>objects = [], given_back = []\<rparr> = Some s" and "\<And>x. Create x \<in> set ps \<Longrightarrow> good x"
  shows "mset (given_back s) \<subseteq># sum_list (map brought ps)"
    and "set (objects s) \<subseteq> {None} \<Longrightarrow> mset (given_back s) = sum_list (map brought ps)"
proof -
  have t: "total s = sum_list (map brought ps)"
    using exec_all_total [OF assms(1) _ assms(2)] by (simp add: all_good_def total_def)
  then show "mset (given_back s) \<subseteq># sum_list (map brought ps)"
    by (simp add: total_def flip: t)
  assume "set (objects s) \<subseteq> {None}"
  moreover have "set xs \<subseteq> {None} \<Longrightarrow> sum_list (map held xs) = {#}" for xs by (induction xs) auto
  ultimately have "sum_list (map held (objects s)) = {#}" by blast
  then show "mset (given_back s) = sum_list (map brought ps)"
    using t by (simp add: total_def)
qed

end

section \<open>Buffers\<close>

text \<open>
  A callback of type \<open>'c\<close> is what the \<^verbatim>\<open>std::function\<close> captured; running it on a pointer is
  the effect \<open>run\<close>, freeing a heap block the effect \<open>free\<close>.
\<close>

record 'c buffer =
  b_owned :: "nat option"
  b_ptr :: "nat option"
  b_size :: nat
  b_release :: "'c option"

definition Buffer_none :: "'c buffer" where
  "Buffer_none = \<lparr>b_owned = None, b_ptr = None, b_size = 0, b_release = None\<rparr>"

definition Buffer_heap :: "nat \<Rightarrow> nat \<Rightarrow> 'c buffer" where
  "Buffer_heap block n = \<lparr>b_owned = Some block, b_ptr = None, b_size = n, b_release = None\<rparr>"

definition Buffer_pool :: "nat option \<Rightarrow> nat \<Rightarrow> 'c option \<Rightarrow> 'c buffer" where
  "Buffer_pool p n rel = \<lparr>b_owned = None, b_ptr = p, b_size = n, b_release = rel\<rparr>"

definition run_release :: "('c \<Rightarrow> nat \<Rightarrow> 'w \<Rightarrow> 'w) \<Rightarrow> 'c buffer \<Rightarrow> 'w \<Rightarrow> 'w" where
  "run_release run b w =
     (if b_owned b = None then
        case (b_ptr b, b_release b) of (Some p, Some c) \<Rightarrow> run c p w | _ \<Rightarrow> w
      else w)"

definition free_owned :: "(nat \<Rightarrow> 'w \<Rightarrow> 'w) \<Rightarrow> 'c buffer \<Rightarrow> 'w \<Rightarrow> 'w" where
  "free_owned free b w = (case b_owned b of Some block \<Rightarrow> free block w | None \<Rightarrow> w)"

definition buf_destroy :: "('c \<Rightarrow> nat \<Rightarrow> 'w \<Rightarrow> 'w) \<Rightarrow> (nat \<Rightarrow> 'w \<Rightarrow> 'w) \<Rightarrow> 'c buffer \<Rightarrow> 'w \<Rightarrow> 'w" where
  "buf_destroy run free b w = free_owned free b (run_release run b w)"

text \<open>The new object and what is left of the old one.\<close>

definition buf_move :: "'c buffer \<Rightarrow> 'c buffer \<times> 'c buffer" where
  "buf_move other =
     (\<lparr>b_owned = b_owned other, b_ptr = b_ptr other, b_size = b_size other, b_release = b_release other\<rparr>,
      other\<lparr>b_owned := None, b_ptr := None, b_size := 0, b_release := None\<rparr>)"

definition buf_assign ::
  "('c \<Rightarrow> nat \<Rightarrow> 'w \<Rightarrow> 'w) \<Rightarrow> (nat \<Rightarrow> 'w \<Rightarrow> 'w) \<Rightarrow> 'c buffer \<Rightarrow> 'c buffer \<Rightarrow> 'w \<Rightarrow> 'c buffer \<times> 'c buffer \<times> 'w" where
  "buf_assign run free this other w =
     (let w = run_release run this w;
          w = free_owned free this w
      in (this\<lparr>b_owned := b_owned other, b_ptr := b_ptr other, b_size := b_size other, b_release := b_release other\<rparr>,
          other\<lparr>b_owned := None, b_ptr := None, b_size := 0, b_release := None\<rparr>, w))"

definition buf_get :: "'c buffer \<Rightarrow> nat option" where
  "buf_get b = (case b_owned b of Some block \<Rightarrow> Some block | None \<Rightarrow> b_ptr b)"

definition buf_valid :: "'c buffer \<Rightarrow> bool" where
  "buf_valid b \<longleftrightarrow> buf_get b \<noteq> None \<and> b_size b > 0"

datatype 'c resource = Block nat | Pointer 'c nat

definition log_release :: "'c \<Rightarrow> nat \<Rightarrow> 'c resource list \<Rightarrow> 'c resource list" where
  "log_release c p l = l @ [Pointer c p]"

definition log_free :: "nat \<Rightarrow> 'c resource list \<Rightarrow> 'c resource list" where
  "log_free block l = l @ [Block block]"

definition buf_drop :: "'c buffer \<Rightarrow> 'c resource list" where
  "buf_drop b = buf_destroy log_release log_free b []"

definition buf_replace :: "'c buffer \<Rightarrow> 'c buffer \<Rightarrow> 'c buffer \<times> 'c buffer \<times> 'c resource list" where
  "buf_replace this other = buf_assign log_release log_free this other []"

lemma buf_drop_eq:
  "buf_drop b =
     (case b_owned b of
        Some block \<Rightarrow> [Block block]
      | None \<Rightarrow> (case (b_ptr b, b_release b) of (Some p, Some c) \<Rightarrow> [Pointer c p] | _ \<Rightarrow> []))"
  by (auto simp: buf_drop_def buf_destroy_def run_release_def free_owned_def log_release_def log_free_def
      split: option.splits)

lemma buf_assign_out: "buf_replace this other = (d, x, out) \<Longrightarrow> out = buf_drop this"
  by (auto simp: buf_replace_def buf_assign_def buf_drop_def buf_destroy_def Let_def)

interpretation buffers: unique_owner buf_drop buf_move buf_replace "\<lambda>_. True"
proof (unfold_locales, goal_cases)
  case (2 x y z)
  then show ?case by (auto simp: buf_move_def buf_drop_eq split: option.splits)
next
  case (4 d x d' x' out)
  then have "out = buf_drop d" by (simp add: buf_assign_out)
  moreover from 4(3) have "d' = d\<lparr>b_owned := b_owned x, b_ptr := b_ptr x, b_size := b_size x, b_release := b_release x\<rparr>"
    "x' = x\<lparr>b_owned := None, b_ptr := None, b_size := 0, b_release := None\<rparr>"
    by (simp_all add: buf_replace_def buf_assign_def Let_def)
  then have "buf_drop d' = buf_drop x" "buf_drop x' = []" by (auto simp: buf_drop_eq split: option.splits)
  ultimately show ?case by simp
qed simp_all

section \<open>Descriptors\<close>

text \<open>A moved-from \<^verbatim>\<open>SocketFd\<close> holds -1, which its destructor does not close.\<close>

definition fd_drop :: "int \<Rightarrow> int list" where
  "fd_drop fd = (if fd \<ge> 0 then [fd] else [])"

definition fd_move :: "int \<Rightarrow> int \<times> int" where
  "fd_move other = (other, -1)"

definition fd_assign :: "int \<Rightarrow> int \<Rightarrow> int \<times> int \<times> int list" where
  "fd_assign this other = (let closed = (if this \<ge> 0 then [this] else []) in (other, -1, closed))"

interpretation descriptors: unique_owner fd_drop fd_move fd_assign "\<lambda>_. True"
  by unfold_locales (auto simp: fd_drop_def fd_move_def fd_assign_def Let_def)

section \<open>Properties\<close>

text \<open>C39: In any program over \<^verbatim>\<open>Buffer\<close> objects - creating them on the heap or over a foreign
  pointer, moving, move-assigning (also onto themselves) and destroying them - no block is
  freed and no release callback is run more often than a buffer was created for it; when no
  object is left, exactly as often.\<close>

theorem buffer_released_once:
  assumes "buffers.exec_all ps \<lparr>objects = [], given_back = []\<rparr> = Some s"
  shows "mset (given_back s) \<subseteq># sum_list (map buffers.brought ps) \<and>
    (set (objects s) \<subseteq> {None} \<longrightarrow> mset (given_back s) = sum_list (map buffers.brought ps))"
  using buffers.given_back_once [OF assms] by simp

text \<open>The same of descriptors held by \<^verbatim>\<open>SocketFd\<close>: each is closed at most once whatever is
  moved where, and exactly once when no object is left.\<close>

theorem descriptor_closed_once:
  assumes "descriptors.exec_all ps \<lparr>objects = [], given_back = []\<rparr> = Some s"
  shows "mset (given_back s) \<subseteq># sum_list (map descriptors.brought ps) \<and>
    (set (objects s) \<subseteq> {None} \<longrightarrow> mset (given_back s) = sum_list (map descriptors.brought ps))"
  using descriptors.given_back_once [OF assms] by simp

section \<open>Witnesses\<close>

lemma buffer_released_once_witness:
  "\<exists>s. buffers.exec_all [Create (Buffer_pool (Some 64) 8 (Some ''pool'')), Create (Buffer_heap 7 4), Move_to 1 0, Destroy 0, Destroy 1]
      \<lparr>objects = [], given_back = []\<rparr> = Some s \<and> mset (given_back s) = {#Block 7, Pointer ''pool'' 64#}"
proof -
  let ?ps = "[Create (Buffer_pool (Some 64) 8 (Some ''pool'')), Create (Buffer_heap 7 4), Move_to 1 0, Destroy 0, Destroy 1]"
  obtain s where s: "buffers.exec_all ?ps \<lparr>objects = [], given_back = []\<rparr> = Some s" "objects s = [None, None]"
    by (simp add: buf_replace_def buf_assign_def Let_def)
  from buffer_released_once [OF s(1)] s show ?thesis
    by (simp add: buf_drop_eq Buffer_pool_def Buffer_heap_def)
qed

lemma descriptor_closed_once_witness:
  "\<exists>s. descriptors.exec_all [Create 5, Move_new 0, Destroy 0, Destroy 1] \<lparr>objects = [], given_back = []\<rparr> = Some s
     \<and> mset (given_back s) = {#5#}"
proof -
  obtain s where s: "descriptors.exec_all [Create 5, Move_new 0, Destroy 0, Destroy 1] \<lparr>objects = [], given_back = []\<rparr> = Some s"
    "objects s = [None, None]"
    by (simp add: fd_move_def)
  from descriptor_closed_once [OF s(1)] s show ?thesis by (simp add: fd_drop_def)
qed

end
