(* ===== verification/Quic_Egress.thy ===== *)
theory Quic_Egress
  imports Ownership
begin

text \<open>
  \<^verbatim>\<open>src/transport/quic_egress.hpp\<close> and \<^verbatim>\<open>quic_egress.cpp\<close>: the zero-copy sender. A datagram is
  assembled in a slot of a slab, committed as a \<^verbatim>\<open>SEND_ZC\<close> request, and the slot is reused
  when the kernel is done with it. The owner of a committed slot is a \<^verbatim>\<open>Buffer\<close> whose release
  callback, which captured the slot's number, puts the slot back on the free list.

  The ring is modelled as far as the code looks at it: requests queued in user space, requests
  the kernel has taken, sends that will be followed by a notification, and the completion
  queue. Every call into the ring or the socket takes the next entry of a script: what the
  kernel did meanwhile, and the call's result. The kernel does only what the documentation of
  \<^verbatim>\<open>SEND_ZC\<close> allows: one completion per request it took, and after a completion with
  \<^verbatim>\<open>IORING_CQE_F_MORE\<close> one notification.
\<close>

section \<open>The ring\<close>

definition ENOMEM :: nat where "ENOMEM = 12"
definition EOPNOTSUPP :: nat where "EOPNOTSUPP = 95"
definition ENOBUFS :: nat where "ENOBUFS = 105"

record cqe =
  c_data :: nat
  c_res :: int
  c_more :: bool
  c_notif :: bool
  c_copied :: bool

text \<open>The kernel completes a request with a result, or notifies that it is done with the data.\<close>

datatype kernel_event = Complete nat int bool | Notify nat bool

record zc =
  z_slot_size :: nat
  z_slots :: nat
  z_registered :: bool
  z_unsupported :: bool
  z_free :: "nat list"
  z_inflight :: "nat buffer list"
  z_reserved :: "nat option"
  z_err :: nat
  z_sends :: nat
  z_notifs :: nat
  z_copied :: nat
  z_fallback :: nat
  z_errors :: nat
  r_entries :: nat
  r_sq :: "(nat \<times> nat) list"
  r_sub :: "nat list"
  r_notif :: "nat list"
  r_cq :: "cqe list"
  r_copies :: "(nat option \<times> nat) list"
  r_script :: "(kernel_event list \<times> int) list"

definition kernel :: "kernel_event \<Rightarrow> zc \<Rightarrow> zc" where
  "kernel e z =
     (case e of
        Complete i res mr \<Rightarrow>
          if i \<in> set (r_sub z) then
            z\<lparr>r_sub := remove1 i (r_sub z),
              r_cq := r_cq z @ [\<lparr>c_data = i, c_res = res, c_more = mr, c_notif = False, c_copied = False\<rparr>],
              r_notif := (if mr then r_notif z @ [i] else r_notif z)\<rparr>
          else z
      | Notify i copied \<Rightarrow>
          if i \<in> set (r_notif z) then
            z\<lparr>r_notif := remove1 i (r_notif z),
              r_cq := r_cq z @ [\<lparr>c_data = i, c_res = 0, c_more = False, c_notif = True, c_copied = copied\<rparr>]\<rparr>
          else z)"

definition ring_tick :: "(zc, int) raw" where
  "ring_tick z =
     (case r_script z of
        [] \<Rightarrow> None
      | (evs, rv) # s \<Rightarrow> Some (rv, foldl (\<lambda>z e. kernel e z) (z\<lparr>r_script := s\<rparr>) evs))"

definition uring_submit :: "(zc, int) raw" where
  "uring_submit z =
     Option.bind (ring_tick z) (\<lambda>(rv, z).
       if rv > 0 then
         let k = min (nat rv) (length (r_sq z))
         in Some (int k, z\<lparr>r_sub := r_sub z @ map fst (take k (r_sq z)), r_sq := drop k (r_sq z)\<rparr>)
       else Some (rv, z))"

definition uring_peek_cqe :: "(zc, cqe option) raw" where
  "uring_peek_cqe z =
     Option.bind (ring_tick z) (\<lambda>(rv, z). Some (case r_cq z of [] \<Rightarrow> None | c # cs \<Rightarrow> Some c, z))"

text \<open>Waiting ends with a completion or an error.\<close>

partial_function (option) uring_wait_cqe :: "zc \<Rightarrow> (cqe option \<times> zc) option" where
  "uring_wait_cqe z =
     Option.bind (ring_tick z) (\<lambda>(rv, z).
       case r_cq z of
         c # cs \<Rightarrow> Some (Some c, z)
       | [] \<Rightarrow> if rv < 0 then Some (None, z) else uring_wait_cqe z)"

text \<open>A plain \<^verbatim>\<open>::send\<close> of a buffer; the kernel copies.\<close>

definition sock_copy :: "nat option \<Rightarrow> nat \<Rightarrow> (zc, int) raw" where
  "sock_copy ptr n z =
     Option.bind (ring_tick z) (\<lambda>(rv, z). Some (rv, z\<lparr>r_copies := r_copies z @ [(ptr, n)]\<rparr>))"

section \<open>The code\<close>

text \<open>The constructor, given the outcomes of creating the ring and of registering the slab.\<close>

definition ZcEgress :: "nat \<Rightarrow> nat \<Rightarrow> int \<Rightarrow> nat \<Rightarrow> bool \<Rightarrow> (kernel_event list \<times> int) list \<Rightarrow> zc res" where
  "ZcEgress slot_size slots rv entries reg scr =
     (if slots = 0 \<or> slot_size = 0 then Throw (Invalid_argument ''ZcEgress: empty pool'')
      else if rv < 0 then Throw (Runtime_error ''ZcEgress: io_uring_queue_init: '')
      else Ok \<lparr>z_slot_size = slot_size, z_slots = slots, z_registered = reg, z_unsupported = False,
               z_free = rev [0..<slots], z_inflight = replicate slots Buffer_none, z_reserved = None,
               z_err = 0, z_sends = 0, z_notifs = 0, z_copied = 0, z_fallback = 0, z_errors = 0,
               r_entries = entries, r_sq = [], r_sub = [], r_notif = [], r_cq = [], r_copies = [],
               r_script = scr\<rparr>)"

definition zc_release :: "nat \<Rightarrow> zc \<Rightarrow> zc" where
  "zc_release i z = z\<lparr>z_free := z_free z @ [i]\<rparr>"

text \<open>\<^verbatim>\<open>inflight_[i] = b\<close>.\<close>

definition set_inflight :: "nat \<Rightarrow> nat buffer \<Rightarrow> (zc, unit) io" where
  "set_inflight i b z =
     (if i < length (z_inflight z) then
        (case buf_assign (\<lambda>c p. zc_release c) (\<lambda>_ z. z) (z_inflight z ! i) b z of
           (d, _, z') \<Rightarrow> Some (Ok (), z'\<lparr>z_inflight := (z_inflight z')[i := d]\<rparr>))
      else Some (Undef, z))"

definition zc_modify :: "(zc \<Rightarrow> zc) \<Rightarrow> (zc, unit) io" where
  "zc_modify f z = Some (Ok (), f z)"

definition zc_get :: "(zc \<Rightarrow> 'a) \<Rightarrow> (zc, 'a) io" where
  "zc_get f z = Some (Ok (f z), z)"

definition slot_addr :: "zc \<Rightarrow> nat \<Rightarrow> nat" where
  "slot_addr z i = i * z_slot_size z"

definition zc_inflight :: "zc \<Rightarrow> nat" where
  "zc_inflight z = z_slots z - length (z_free z) - (if z_reserved z \<noteq> None then 1 else 0)"

definition latch :: "nat \<Rightarrow> zc \<Rightarrow> zc" where
  "latch e z = (if z_err z = 0 then z\<lparr>z_err := e\<rparr> else z)"

definition refused :: "int \<Rightarrow> bool" where
  "refused r \<longleftrightarrow> r \<in> {- int ENOMEM, - int ENOBUFS, - int EAGAIN, - int EINVAL, - int EOPNOTSUPP}"

text \<open>A completion that is no notification: fall back to a copy, or record the error.\<close>

definition handle_send :: "cqe \<Rightarrow> (zc, unit) io" where
  "handle_send c =
     io_bind (zc_modify (\<lambda>z. if c_res c = - int EINVAL \<or> c_res c = - int EOPNOTSUPP
                             then z\<lparr>z_unsupported := True\<rparr> else z)) (\<lambda>_.
     if refused (c_res c) then
       io_bind (zc_modify (\<lambda>z. z\<lparr>z_fallback := z_fallback z + 1\<rparr>)) (\<lambda>_.
       io_bind (zc_get z_inflight) (\<lambda>bufs.
         if c_data c < length bufs then
           io_bind (sys (sock_copy (b_ptr (bufs ! c_data c)) (b_size (bufs ! c_data c)))) (\<lambda>rv.
             if rv < 0 \<and> nat (- rv) \<notin> {EAGAIN, ENOBUFS, ENOMEM}
             then zc_modify (\<lambda>z. latch (nat (- rv)) (z\<lparr>z_errors := z_errors z + 1\<rparr>))
             else io_ret ())
         else io_undef))
     else if c_res c < 0 then zc_modify (\<lambda>z. latch (nat (- c_res c)) (z\<lparr>z_errors := z_errors z + 1\<rparr>))
     else io_ret ())"

definition handle_cqe :: "cqe \<Rightarrow> (zc, unit) io" where
  "handle_cqe c =
     io_bind (zc_modify (\<lambda>z. z\<lparr>r_cq := tl (r_cq z)\<rparr>)) (\<lambda>_.
     if c_notif c then
       io_bind (zc_modify (\<lambda>z. z\<lparr>z_notifs := z_notifs z + 1\<rparr>)) (\<lambda>_.
       io_bind (zc_modify (\<lambda>z. if c_copied c then z\<lparr>z_copied := z_copied z + 1\<rparr> else z)) (\<lambda>_.
         set_inflight (c_data c) Buffer_none))
     else
       io_bind (handle_send c) (\<lambda>_.
         if \<not> c_more c then set_inflight (c_data c) Buffer_none else io_ret ()))"

partial_function (option) reap_loop :: "cqe option \<Rightarrow> zc \<Rightarrow> (unit res \<times> zc) option" where
  "reap_loop c z =
     (case c of
        None \<Rightarrow> Some (Ok (), z)
      | Some c \<Rightarrow>
          Option.bind (handle_cqe c z) (\<lambda>(r, z).
            case r of
              Ok _ \<Rightarrow> Option.bind (uring_peek_cqe z) (\<lambda>(c, z). reap_loop c z)
            | Throw e \<Rightarrow> Some (Throw e, z)
            | Undef \<Rightarrow> Some (Undef, z)))"

text \<open>\<^verbatim>\<open>reap(false)\<close>.\<close>

definition reap_ready :: "(zc, unit) io" where
  "reap_ready = io_bind (sys uring_peek_cqe) reap_loop"

partial_function (option) submit_all :: "zc \<Rightarrow> (unit res \<times> zc) option" where
  "submit_all z =
     (if length (r_sq z) > 0 then
        Option.bind (uring_submit z) (\<lambda>(rv, z).
          if rv > 0 then submit_all z
          else Some (Ok (), if rv < 0 \<and> rv \<noteq> - int EINTR \<and> rv \<noteq> - int EAGAIN then latch (nat (- rv)) z else z))
      else Some (Ok (), z))"

definition zc_flush :: "(zc, unit) io" where
  "zc_flush = io_bind submit_all (\<lambda>_. reap_ready)"

text \<open>\<^verbatim>\<open>reap(true)\<close>.\<close>

definition reap_wait :: "(zc, unit) io" where
  "reap_wait =
     io_bind (zc_get (\<lambda>z. length (r_sq z))) (\<lambda>n.
     io_bind (if n > 0 then zc_flush else io_ret ()) (\<lambda>_.
     io_bind (sys uring_wait_cqe) reap_loop))"

text \<open>The wait of \<^verbatim>\<open>reserve\<close>; false when the ring has latched an error.\<close>

definition await_once :: "(zc, unit) io" where
  "await_once =
     io_bind zc_flush (\<lambda>_. io_bind (zc_get z_free) (\<lambda>fr. if fr = [] then reap_wait else io_ret ()))"

partial_function (option) await_free :: "zc \<Rightarrow> (bool res \<times> zc) option" where
  "await_free z =
     (if z_free z = [] then
        (if z_err z \<noteq> 0 then Some (Ok False, z)
         else Option.bind (await_once z) (\<lambda>(r, z).
           case r of Ok _ \<Rightarrow> await_free z | Throw e \<Rightarrow> Some (Throw e, z) | Undef \<Rightarrow> Some (Undef, z)))
      else Some (Ok True, z))"

definition zc_reserve :: "(zc, nat option) io" where
  "zc_reserve z =
     (case z_reserved z of
        Some i \<Rightarrow> Some (Ok (Some (slot_addr z i)), z)
      | None \<Rightarrow>
          io_bind await_free (\<lambda>ok z.
            if \<not> ok then Some (Ok None, z)
            else
              let i = last (z_free z); z = z\<lparr>z_reserved := Some i, z_free := butlast (z_free z)\<rparr>
              in Some (Ok (Some (slot_addr z i)), z)) z)"

text \<open>A queue entry, if need be after submitting and after waiting.\<close>

definition sqe_free :: "zc \<Rightarrow> bool" where
  "sqe_free z \<longleftrightarrow> length (r_sq z) < r_entries z"

definition get_sqe :: "(zc, bool) io" where
  "get_sqe =
     io_bind (zc_get sqe_free) (\<lambda>ok. if ok then io_ret True
       else io_bind zc_flush (\<lambda>_. io_bind (zc_get sqe_free) (\<lambda>ok. if ok then io_ret True
         else io_bind reap_wait (\<lambda>_. zc_get sqe_free))))"

definition zc_commit :: "nat \<Rightarrow> (zc, bool) io" where
  "zc_commit n z =
     (case z_reserved z of
        None \<Rightarrow> Some (Throw (Logic_error ''ZcEgress::commit without reserve''), z)
      | Some i \<Rightarrow>
          if n = 0 \<or> n > z_slot_size z then Some (Throw (Invalid_argument ''ZcEgress::commit bad length''), z)
          else if z_err z \<noteq> 0 then Some (Ok False, z)
          else
            io_bind get_sqe (\<lambda>ok.
              if \<not> ok then io_bind (zc_modify (\<lambda>z. z\<lparr>z_err := EAGAIN\<rparr>)) (\<lambda>_. io_ret False)
              else
                io_bind (zc_modify (\<lambda>z. z\<lparr>r_sq := r_sq z @ [(i, n)]\<rparr>)) (\<lambda>_.
                io_bind (set_inflight i (Buffer_pool (Some (slot_addr z i)) n (Some i))) (\<lambda>_.
                io_bind (zc_modify (\<lambda>z. z\<lparr>z_reserved := None, z_sends := z_sends z + 1\<rparr>)) (\<lambda>_.
                  io_ret True)))) z)"

text \<open>The clock is one of the answers of the script, and so is the timed wait.\<close>

partial_function (option) drain_loop :: "int \<Rightarrow> zc \<Rightarrow> (unit res \<times> zc) option" where
  "drain_loop deadline z =
     (if zc_inflight z > 0 then
        Option.bind (ring_tick z) (\<lambda>(now, z).
          if now < deadline then
            Option.bind (ring_tick z) (\<lambda>(_, z).
            Option.bind (zc_flush z) (\<lambda>(r, z).
              case r of Ok _ \<Rightarrow> drain_loop deadline z | Throw e \<Rightarrow> Some (Throw e, z) | Undef \<Rightarrow> Some (Undef, z)))
          else Some (Ok (), z))
      else Some (Ok (), z))"

definition zc_drain :: "int \<Rightarrow> (zc, bool) io" where
  "zc_drain deadline =
     io_bind zc_flush (\<lambda>_. io_bind (drain_loop deadline) (\<lambda>_. zc_get (\<lambda>z. zc_inflight z = 0)))"

text \<open>
  The destructor drains for a second, then drops the owners. The answer is whether it frees
  the slab: it leaks it when a send may still be under way.
\<close>

definition zc_clear :: "zc \<Rightarrow> zc" where
  "zc_clear z =
     (foldl (\<lambda>z b. buf_destroy (\<lambda>c p. zc_release c) (\<lambda>_ z. z) b z) z (z_inflight z))\<lparr>z_inflight := []\<rparr>"

definition zc_destroy :: "(zc, bool) io" where
  "zc_destroy =
     io_bind (sys ring_tick) (\<lambda>now.
     io_bind (zc_drain (now + 1000000000)) (\<lambda>quiet.
     io_bind (zc_modify zc_clear) (\<lambda>_. io_ret quiet)))"
section \<open>The invariant\<close>

text \<open>
  A completion is final when nothing about its slot follows it. The slots in the kernel's
  hands are those of queued and taken requests, of awaited notifications and of final
  completions not yet looked at; each busy slot is there exactly once. \<open>X\<close> are slots whose
  final completion was just taken off the queue.
\<close>

definition final_cqe :: "cqe \<Rightarrow> bool" where
  "final_cqe c \<longleftrightarrow> c_notif c \<or> \<not> c_more c"

definition finals :: "cqe list \<Rightarrow> nat list" where
  "finals cs = map c_data (filter final_cqe cs)"

definition pending :: "zc \<Rightarrow> nat multiset" where
  "pending z = mset (map fst (r_sq z)) + mset (r_sub z) + mset (r_notif z) + mset (finals (r_cq z))"

definition busy :: "zc \<Rightarrow> nat set" where
  "busy z = {i. i < z_slots z \<and> z_inflight z ! i \<noteq> Buffer_none}"

definition unused :: "zc \<Rightarrow> nat list" where
  "unused z = z_free z @ (case z_reserved z of None \<Rightarrow> [] | Some i \<Rightarrow> [i])"

primrec cq_ok :: "nat set \<Rightarrow> cqe list \<Rightarrow> bool" where
  "cq_ok N [] = True"
| "cq_ok N (c # cs) = ((\<not> final_cqe c \<longrightarrow> c_data c \<in> N \<union> set (finals cs)) \<and> cq_ok N cs)"

definition in_slot :: "zc \<Rightarrow> nat \<Rightarrow> nat option \<Rightarrow> nat \<Rightarrow> bool" where
  "in_slot z i p n \<longleftrightarrow> i < z_slots z \<and> p = Some (i * z_slot_size z) \<and> 0 < n \<and> n \<le> z_slot_size z"

definition slot_owner :: "zc \<Rightarrow> nat \<Rightarrow> nat buffer \<Rightarrow> bool" where
  "slot_owner z i b \<longleftrightarrow> (\<exists>p n. b = Buffer_pool p n (Some i) \<and> in_slot z i p n)"

definition zc_inv :: "nat multiset \<Rightarrow> zc \<Rightarrow> bool" where
  "zc_inv X z \<longleftrightarrow>
     length (z_inflight z) = z_slots z \<and>
     (\<forall>i < z_slots z. z_inflight z ! i = Buffer_none \<or> slot_owner z i (z_inflight z ! i)) \<and>
     distinct (unused z) \<and> set (unused z) = {..<z_slots z} - busy z \<and>
     pending z + X = mset_set (busy z) \<and> cq_ok (set (r_notif z)) (r_cq z) \<and>
     (\<forall>(p, n) \<in> set (r_copies z). \<exists>i. in_slot z i p n)"

text \<open>
  What every internal step leaves alone. \<^verbatim>\<open>EAGAIN\<close> is never latched: the users of a transport
  take it for "try the same bytes again".
\<close>

definition keeps :: "zc \<Rightarrow> zc \<Rightarrow> bool" where
  "keeps z z' \<longleftrightarrow> z_slots z' = z_slots z \<and> z_slot_size z' = z_slot_size z \<and>
     z_reserved z' = z_reserved z \<and> r_entries z' = r_entries z \<and>
     (z_err z' = EAGAIN \<longrightarrow> z_err z = EAGAIN)"

definition fine :: "zc \<Rightarrow> 'a res \<Rightarrow> zc \<Rightarrow> bool" where
  "fine z r z' \<longleftrightarrow> (\<exists>x. r = Ok x) \<and> zc_inv {#} z' \<and> keeps z z'"

lemma keeps_refl [simp]: "keeps z z"
  by (simp add: keeps_def)

lemma keeps_trans: "keeps z z1 \<Longrightarrow> keeps z1 z2 \<Longrightarrow> keeps z z2"
  by (simp add: keeps_def)

lemma fine_trans: "keeps z z1 \<Longrightarrow> fine z1 r z2 \<Longrightarrow> fine z r z2"
  by (auto simp: fine_def intro: keeps_trans)

lemma finite_busy [simp]: "finite (busy z)"
  by (simp add: busy_def)

lemma pending_busy: "zc_inv X z \<Longrightarrow> i \<in># pending z + X \<Longrightarrow> i \<in> busy z"
  by (simp add: zc_inv_def)

lemma pending_set:
  assumes "zc_inv X z"
  shows "fst ` set (r_sq z) \<union> set (r_sub z) \<union> set (r_notif z) \<union> set (finals (r_cq z)) \<union> set_mset X = busy z"
proof -
  have "set_mset (pending z + X) = busy z" using assms by (simp add: zc_inv_def)
  then show ?thesis by (simp add: pending_def Un_assoc)
qed

lemma finals_simps [simp]:
  "finals [] = []" "finals (c # cs) = (if final_cqe c then c_data c # finals cs else finals cs)"
  "finals (cs @ ds) = finals cs @ finals ds"
  by (simp_all add: finals_def)

lemma cq_ok_snoc:
  assumes "cq_ok N cs" and "N \<subseteq> N' \<union> set (finals [c])" and "final_cqe c \<or> c_data c \<in> N'"
  shows "cq_ok N' (cs @ [c])"
  using assms by (induction cs) (auto split: if_splits)

text \<open>Fields that do not matter to the invariant.\<close>

lemma zc_inv_cong:
  assumes "z_slots z' = z_slots z" "z_slot_size z' = z_slot_size z" "z_inflight z' = z_inflight z"
    "z_free z' = z_free z" "z_reserved z' = z_reserved z" "r_sq z' = r_sq z" "r_sub z' = r_sub z"
    "r_notif z' = r_notif z" "r_cq z' = r_cq z" "r_copies z' = r_copies z"
  shows "zc_inv X z' = zc_inv X z"
  using assms by (simp add: zc_inv_def unused_def pending_def busy_def slot_owner_def in_slot_def)

section \<open>The ring keeps it\<close>

lemma kernel_frame [simp]:
  "z_slots (kernel e z) = z_slots z" "z_slot_size (kernel e z) = z_slot_size z"
  "z_inflight (kernel e z) = z_inflight z" "z_free (kernel e z) = z_free z"
  "z_reserved (kernel e z) = z_reserved z" "r_sq (kernel e z) = r_sq z"
  "r_copies (kernel e z) = r_copies z" "r_entries (kernel e z) = r_entries z" "z_err (kernel e z) = z_err z"
  "r_script (kernel e z) = r_script z"
  by (simp_all add: kernel_def split: kernel_event.split)

lemma kernel_pending: "pending (kernel e z) = pending z"
  by (auto simp: kernel_def pending_def final_cqe_def split: kernel_event.split)

lemma kernel_cq_ok:
  assumes "cq_ok (set (r_notif z)) (r_cq z)"
  shows "cq_ok (set (r_notif (kernel e z))) (r_cq (kernel e z))"
proof -
  have "set xs \<subseteq> set (remove1 i xs) \<union> {i}" for i :: nat and xs by (induction xs) auto
  then show ?thesis
    using assms by (auto simp: kernel_def final_cqe_def split: kernel_event.split intro!: cq_ok_snoc [OF assms])
qed

lemma kernel_inv: "zc_inv X z \<Longrightarrow> zc_inv X (kernel e z)"
  using kernel_pending [of e z] kernel_cq_ok [of z e]
  by (simp add: zc_inv_def unused_def busy_def slot_owner_def in_slot_def)

lemma tick_props:
  assumes "ring_tick z = Some (rv, z')"
  shows "zc_inv X z \<Longrightarrow> zc_inv X z'" and "keeps z z'" and "busy z' = busy z" and "z_inflight z' = z_inflight z"
    and "r_sq z' = r_sq z" and "z_free z' = z_free z" and "z_err z' = z_err z"
proof -
  obtain evs s where s: "r_script z = (evs, rv) # s" "z' = foldl (\<lambda>z e. kernel e z) (z\<lparr>r_script := s\<rparr>) evs"
    using assms by (auto simp: ring_tick_def split: list.splits)
  have fold: "(zc_inv X y \<longrightarrow> zc_inv X (foldl (\<lambda>z e. kernel e z) y evs)) \<and>
      keeps y (foldl (\<lambda>z e. kernel e z) y evs) \<and> z_inflight (foldl (\<lambda>z e. kernel e z) y evs) = z_inflight y \<and>
      r_sq (foldl (\<lambda>z e. kernel e z) y evs) = r_sq y \<and> z_free (foldl (\<lambda>z e. kernel e z) y evs) = z_free y \<and>
      z_err (foldl (\<lambda>z e. kernel e z) y evs) = z_err y" for y X
    by (induction evs arbitrary: y) (auto simp: kernel_inv keeps_def)
  have "zc_inv X (z\<lparr>r_script := s\<rparr>) = zc_inv X z" by (rule zc_inv_cong) simp_all
  then show "zc_inv X z \<Longrightarrow> zc_inv X z'" using fold [of X "z\<lparr>r_script := s\<rparr>"] s by blast
  show k: "keeps z z'" "z_inflight z' = z_inflight z" "r_sq z' = r_sq z" "z_free z' = z_free z" "z_err z' = z_err z"
    using fold [of X "z\<lparr>r_script := s\<rparr>"] s by (simp_all add: keeps_def)
  then show "busy z' = busy z" by (simp add: busy_def keeps_def)
qed

lemma submit_props:
  assumes "uring_submit z = Some (rv, z')" and "zc_inv {#} z"
  shows "zc_inv {#} z' \<and> keeps z z' \<and> (rv > 0 \<and> r_sq z \<noteq> [] \<longrightarrow> length (r_sq z') < length (r_sq z))"
proof -
  obtain v z1 where t: "ring_tick z = Some (v, z1)" using assms(1) by (auto simp: uring_submit_def split: bind_splits)
  note p = tick_props [OF t]
  show ?thesis
  proof (cases "v > 0")
    case True
    let ?k = "min (nat v) (length (r_sq z1))"
    have z': "z' = z1\<lparr>r_sub := r_sub z1 @ map fst (take ?k (r_sq z1)), r_sq := drop ?k (r_sq z1)\<rparr>" "rv = int ?k"
      using assms(1) t True by (auto simp: uring_submit_def Let_def)
    have "mset (map fst (take ?k (r_sq z1))) + mset (map fst (drop ?k (r_sq z1))) = mset (map fst (r_sq z1))"
      by (simp flip: image_mset_union mset_append)
    then have "pending z' = pending z1" unfolding z' by (simp add: pending_def ac_simps del: mset_map)
    then have "zc_inv {#} z' = zc_inv {#} z1"
      unfolding z' by (simp add: zc_inv_def unused_def busy_def slot_owner_def in_slot_def)
    then show ?thesis using p(1) [OF assms(2)] p(2,5) True by (auto simp: z' keeps_def)
  next
    case False
    then have "z' = z1" "rv = v" using assms(1) t by (auto simp: uring_submit_def)
    then show ?thesis using p(1) [OF assms(2)] p(2) False by simp
  qed
qed

definition head_ok :: "cqe option \<Rightarrow> zc \<Rightarrow> bool" where
  "head_ok c z \<longleftrightarrow> (case c of None \<Rightarrow> True | Some x \<Rightarrow> \<exists>cs. r_cq z = x # cs)"

lemma peek_props:
  assumes "uring_peek_cqe z = Some (c, z')" and "zc_inv {#} z"
  shows "zc_inv {#} z' \<and> keeps z z' \<and> head_ok c z'"
  using assms tick_props(1,2) by (fastforce simp: uring_peek_cqe_def head_ok_def split: bind_splits list.splits)

lemma wait_props:
  assumes run: "uring_wait_cqe z = Some (c, z')" and "zc_inv {#} z"
  shows "zc_inv {#} z' \<and> keeps z z' \<and> head_ok c z'"
proof -
  let ?P = "\<lambda>z (c, z'). zc_inv {#} z \<longrightarrow> zc_inv {#} z' \<and> keeps z z' \<and> head_ok c z'"
  have "?P z (c, z')"
  proof (rule uring_wait_cqe.raw_induct [where P = ?P, OF _ run])
    fix g z y
    assume IH: "\<And>z y. g z = Some y \<Longrightarrow> ?P z y"
      and eq: "Option.bind (ring_tick z) (\<lambda>(rv, z). case r_cq z of
          c # cs \<Rightarrow> Some (Some c, z) | [] \<Rightarrow> if rv < 0 then Some (None, z) else g z) = Some y"
    obtain c z' where y: "y = (c, z')" by (cases y)
    obtain rv z1 where t: "ring_tick z = Some (rv, z1)" using eq by (auto split: bind_splits)
    show "?P z y" unfolding y case_prod_conv
    proof
      assume i: "zc_inv {#} z"
      note p = tick_props(1) [OF t i] tick_props(2) [OF t]
      show "zc_inv {#} z' \<and> keeps z z' \<and> head_ok c z'"
      proof (cases "r_cq z1 = [] \<and> \<not> rv < 0")
        case True
        then have "g z1 = Some (c, z')" using eq t y by simp
        from IH [OF this] p show ?thesis by (auto intro: keeps_trans)
      next
        case False
        then show ?thesis using eq t y p by (auto simp: head_ok_def split: list.splits)
      qed
    qed
  qed
  then show ?thesis using assms(2) by simp
qed
section \<open>The code keeps it\<close>

lemma zc_inv_fields [simp]:
  "zc_inv X (z\<lparr>z_unsupported := b\<rparr>) = zc_inv X z" "zc_inv X (z\<lparr>z_fallback := n\<rparr>) = zc_inv X z"
  "zc_inv X (z\<lparr>z_errors := n\<rparr>) = zc_inv X z" "zc_inv X (z\<lparr>z_err := n\<rparr>) = zc_inv X z"
  "zc_inv X (z\<lparr>z_notifs := n\<rparr>) = zc_inv X z" "zc_inv X (z\<lparr>z_copied := n\<rparr>) = zc_inv X z"
  "zc_inv X (z\<lparr>z_sends := n\<rparr>) = zc_inv X z" "zc_inv X (latch e z) = zc_inv X z"
  by (rule zc_inv_cong; simp add: latch_def)+

lemma busy_fields [simp]:
  "busy (z\<lparr>z_unsupported := b\<rparr>) = busy z" "busy (z\<lparr>z_fallback := n\<rparr>) = busy z"
  "busy (z\<lparr>z_errors := n\<rparr>) = busy z" "busy (z\<lparr>z_err := n\<rparr>) = busy z"
  "busy (z\<lparr>z_notifs := n\<rparr>) = busy z" "busy (z\<lparr>z_copied := n\<rparr>) = busy z" "busy (latch e z) = busy z"
  "busy (z\<lparr>r_cq := q\<rparr>) = busy z" "busy (z\<lparr>r_copies := k\<rparr>) = busy z"
  by (simp_all add: busy_def latch_def)

lemma keeps_fields [simp]:
  "keeps z (z'\<lparr>z_unsupported := b\<rparr>) = keeps z z'" "keeps z (z'\<lparr>z_fallback := n\<rparr>) = keeps z z'"
  "keeps z (z'\<lparr>z_errors := n\<rparr>) = keeps z z'"
  "keeps z (z'\<lparr>z_notifs := n\<rparr>) = keeps z z'" "keeps z (z'\<lparr>z_copied := n\<rparr>) = keeps z z'"
  "keeps z (z'\<lparr>r_cq := q\<rparr>) = keeps z z'"
  "keeps z (z'\<lparr>r_copies := k\<rparr>) = keeps z z'" "keeps z (z'\<lparr>z_free := fr, z_inflight := fl\<rparr>) = keeps z z'"
  by (simp_all add: keeps_def)

lemma keeps_latch [simp]: "e \<noteq> EAGAIN \<Longrightarrow> keeps z z' \<Longrightarrow> keeps z (latch e z')"
  by (simp add: keeps_def latch_def)

lemma nat_uminus_EAGAIN [simp]: "x \<noteq> - int EAGAIN \<Longrightarrow> nat (- x) \<noteq> EAGAIN"
  by (auto simp: EAGAIN_def)

lemma wp_sys: "wp True (sys m) Q w \<longleftrightarrow> (\<forall>x w'. m w = Some (x, w') \<longrightarrow> Q (Ok x) w')"
  by (auto simp: wp_def sys_def split: option.splits)

lemma wp_modify [wp_simps]:
  "wp b (zc_modify f) Q z = Q (Ok ()) (f z)" "wp b (zc_get g) R z = R (Ok (g z)) z"
  by (simp_all add: wp_def zc_modify_def zc_get_def)

text \<open>Ending the ownership of a busy slot returns it; a free entry takes a new owner.\<close>

lemma Buffer_none_update:
  "b\<lparr>b_owned := b_owned Buffer_none, b_ptr := b_ptr Buffer_none, b_size := b_size Buffer_none,
     b_release := b_release Buffer_none\<rparr> = (Buffer_none :: 'c buffer)"
  by (simp add: Buffer_none_def)

lemma set_inflight_end:
  assumes "i < length (z_inflight z)" and "z_inflight z ! i = Buffer_pool (Some p) n (Some i)"
  shows "set_inflight i Buffer_none z =
    Some (Ok (), z\<lparr>z_free := z_free z @ [i], z_inflight := (z_inflight z)[i := Buffer_none]\<rparr>)"
  using assms
  by (simp add: set_inflight_def buf_assign_def Let_def Buffer_none_update run_release_def free_owned_def)
    (simp add: Buffer_pool_def zc_release_def)

lemma set_inflight_start:
  assumes "i < length (z_inflight z)" and "z_inflight z ! i = Buffer_none"
  shows "set_inflight i b z = Some (Ok (), z\<lparr>z_inflight := (z_inflight z)[i := b]\<rparr>)"
  using assms by (simp add: set_inflight_def buf_assign_def Let_def run_release_def free_owned_def Buffer_none_def)
    (cases b, simp)

lemma finish_inv:
  assumes inv: "zc_inv (add_mset i X) z"
  shows "\<exists>z'. set_inflight i Buffer_none z = Some (Ok (), z') \<and> zc_inv X z' \<and> keeps z z'"
proof -
  have b: "i \<in> busy z" by (rule pending_busy [OF inv]) simp
  then have i: "i < z_slots z" "z_inflight z ! i \<noteq> Buffer_none" and len: "length (z_inflight z) = z_slots z"
    using inv by (auto simp: busy_def zc_inv_def)
  then obtain n where own: "z_inflight z ! i = Buffer_pool (Some (i * z_slot_size z)) n (Some i)"
    using inv by (auto simp: zc_inv_def slot_owner_def in_slot_def)
  let ?z = "z\<lparr>z_free := z_free z @ [i], z_inflight := (z_inflight z)[i := Buffer_none]\<rparr>"
  have busy': "busy ?z = busy z - {i}"
    using len i(1) by (auto simp: busy_def nth_list_update split: if_splits)
  have "zc_inv X ?z"
    unfolding zc_inv_def
  proof (intro conjI)
    show "length (z_inflight ?z) = z_slots ?z" using len by simp
    show "\<forall>j < z_slots ?z. z_inflight ?z ! j = Buffer_none \<or> slot_owner ?z j (z_inflight ?z ! j)"
    proof (intro allI impI)
      fix j assume "j < z_slots ?z"
      then show "z_inflight ?z ! j = Buffer_none \<or> slot_owner ?z j (z_inflight ?z ! j)"
        using inv len i(1) by (cases "i = j") (auto simp: zc_inv_def slot_owner_def in_slot_def)
    qed
    show "distinct (unused ?z)" using inv b by (auto simp: zc_inv_def unused_def split: option.splits)
    show "set (unused ?z) = {..<z_slots ?z} - busy ?z"
      using inv b i(1) unfolding busy' by (auto simp: zc_inv_def unused_def)
    have "pending z + add_mset i X = mset_set (busy z)" using inv by (simp add: zc_inv_def)
    then have "add_mset i (pending z + X) = add_mset i (mset_set (busy z - {i}))"
      using mset_set.remove [OF finite_busy b] by simp
    then show "pending ?z + X = mset_set (busy ?z)" unfolding busy' by (simp add: pending_def)
    show "cq_ok (set (r_notif ?z)) (r_cq ?z)" using inv by (simp add: zc_inv_def)
    show "\<forall>(p, n) \<in> set (r_copies ?z). \<exists>i. in_slot ?z i p n" using inv by (simp add: zc_inv_def in_slot_def)
  qed
  then show ?thesis using set_inflight_end [OF _ own] i(1) len by auto
qed

lemma handle_send_wp:
  assumes "zc_inv X z" and "c_data c \<in> busy z"
  shows "wp True (handle_send c) (\<lambda>r z'. r = Ok () \<and> zc_inv X z' \<and> keeps z z') z"
proof -
  have copy: "zc_inv X z' \<and> keeps z z'"
    if c: "sock_copy (b_ptr (z_inflight z ! c_data c)) (b_size (z_inflight z ! c_data c)) y = Some (rv, z')"
      and y: "zc_inv X y" "keeps z y" "z_inflight y = z_inflight z" for y rv z'
  proof -
    obtain z1 where t: "ring_tick y = Some (rv, z1)"
      "z' = z1\<lparr>r_copies := r_copies z1 @ [(b_ptr (z_inflight z ! c_data c), b_size (z_inflight z ! c_data c))]\<rparr>"
      using c by (auto simp: sock_copy_def split: bind_splits)
    note p = tick_props(1) [OF t(1) y(1)] tick_props(2) [OF t(1)]
    have "slot_owner z (c_data c) (z_inflight z ! c_data c)"
      using assms by (auto simp: busy_def zc_inv_def)
    then have "in_slot z1 (c_data c) (b_ptr (z_inflight z ! c_data c)) (b_size (z_inflight z ! c_data c))"
      using y(2) p(2) by (auto simp: slot_owner_def in_slot_def keeps_def Buffer_pool_def)
    then show ?thesis
      using p y(2) unfolding t(2)
      by (auto simp: zc_inv_def unused_def pending_def slot_owner_def in_slot_def intro: keeps_trans)
  qed
  have len: "c_data c < length (z_inflight z)" using assms by (auto simp: busy_def zc_inv_def)
  define z1 where "z1 = (if c_res c = - int EINVAL \<or> c_res c = - int EOPNOTSUPP
    then z\<lparr>z_unsupported := True\<rparr> else z)"
  have z1: "zc_inv X z1" "keeps z z1" "z_inflight z1 = z_inflight z" using assms(1) by (simp_all add: z1_def)
  show ?thesis
  proof (cases "refused (c_res c)")
    case True
    then show ?thesis
      unfolding handle_send_def wp_bind wp_modify on_ok_simps z1_def [symmetric] wp_if
      using len z1 copy [of "z1\<lparr>z_fallback := z_fallback z1 + 1\<rparr>"]
      by (simp add: wp_simps wp_sys)
  next
    case False
    then have "c_res c \<noteq> - int EAGAIN" by (auto simp: refused_def)
    then show ?thesis
      unfolding handle_send_def wp_bind wp_modify on_ok_simps z1_def [symmetric] wp_if
      using z1 False by (simp add: wp_simps)
  qed
qed
lemma handle_cqe_wp:
  assumes inv: "zc_inv {#} z" and cq: "r_cq z = c # cs"
  shows "wp True (handle_cqe c) (fine z) z"
proof -
  let ?z = "z\<lparr>r_cq := cs\<rparr>"
  let ?X = "if final_cqe c then {#c_data c#} else {#}"
  have X: "zc_inv ?X ?z"
    using inv cq by (auto simp: zc_inv_def pending_def unused_def slot_owner_def in_slot_def)
  have busy: "c_data c \<in> busy z"
  proof -
    have "c_data c \<in> set (r_notif z) \<union> set (finals (r_cq z))"
      using inv cq by (auto simp: zc_inv_def)
    then show ?thesis using pending_set [OF inv] by blast
  qed
  have finish: "wp True (set_inflight (c_data c) Buffer_none) (fine z) y" if "zc_inv {#c_data c#} y" "keeps z y" for y
    using finish_inv [of "c_data c" "{#}" y] that by (auto simp: wp_def fine_def intro: keeps_trans)
  show ?thesis
  proof (cases "c_notif c")
    case True
    then have "zc_inv {#c_data c#} ?z" using X by (simp add: final_cqe_def)
    then show ?thesis
      unfolding handle_cqe_def wp_bind wp_modify on_ok_simps wp_if using True cq
      by (auto intro!: finish)
  next
    case False
    have "wp True (handle_send c) (\<lambda>r z'. r = Ok () \<and> zc_inv ?X z' \<and> keeps ?z z') ?z"
      by (rule handle_send_wp [OF X]) (use busy in simp)
    then have "wp True (handle_send c)
        (on_ok (\<lambda>_. wp True (if \<not> c_more c then set_inflight (c_data c) Buffer_none else io_ret ()) (fine z)) (fine z)) ?z"
    proof (rule wp_mono)
      fix r z' assume *: "r = Ok () \<and> zc_inv ?X z' \<and> keeps ?z z'"
      then have "keeps z z'" by (simp add: keeps_def)
      then show "on_ok (\<lambda>_. wp True (if \<not> c_more c then set_inflight (c_data c) Buffer_none else io_ret ()) (fine z)) (fine z) r z'"
        using * False finish [of z'] by (auto simp: final_cqe_def wp_simps fine_def split: if_splits)
    qed
    then show ?thesis
      unfolding handle_cqe_def wp_bind wp_modify on_ok_simps wp_if using False cq by (simp add: wp_simps)
  qed
qed

lemma reap_loop_fine:
  assumes run: "reap_loop c z = Some (r, z')" and "zc_inv {#} z" and "head_ok c z"
  shows "fine z r z'"
proof -
  let ?P = "\<lambda>c z (r, z'). zc_inv {#} z \<longrightarrow> head_ok c z \<longrightarrow> fine z r z'"
  have "?P c z (r, z')"
  proof (rule reap_loop.raw_induct [where P = ?P, OF _ run])
    fix g c z y
    assume IH: "\<And>c z y. g c z = Some y \<Longrightarrow> ?P c z y"
      and eq: "(case c of None \<Rightarrow> Some (Ok (), z)
        | Some c \<Rightarrow> Option.bind (handle_cqe c z) (\<lambda>(r, z).
            case r of Ok _ \<Rightarrow> Option.bind (uring_peek_cqe z) (\<lambda>(c, z). g c z)
            | Throw e \<Rightarrow> Some (Throw e, z) | Undef \<Rightarrow> Some (Undef, z))) = Some y"
    obtain r z' where y: "y = (r, z')" by (cases y)
    show "?P c z y" unfolding y case_prod_conv
    proof (intro impI)
      assume i: "zc_inv {#} z" and h: "head_ok c z"
      show "fine z r z'"
      proof (cases c)
        case None
        then show ?thesis using eq y i by (auto simp: fine_def)
      next
        case (Some x)
        then obtain cs where "r_cq z = x # cs" using h by (auto simp: head_ok_def)
        from handle_cqe_wp [OF i this] obtain r1 z1 where 1: "handle_cqe x z = Some (r1, z1)" "fine z r1 z1"
          using eq Some by (auto simp: wp_def split: bind_splits)
        then obtain c2 z2 where 2: "uring_peek_cqe z1 = Some (c2, z2)" "g c2 z2 = Some (r, z')"
          using eq Some y by (auto simp: fine_def split: bind_splits)
        have z2: "zc_inv {#} z2" "keeps z1 z2" "head_ok c2 z2"
          using peek_props [OF 2(1)] 1(2) by (auto simp: fine_def)
        have "fine z2 r z'" using IH [OF 2(2)] z2 by simp
        then show ?thesis using 1(2) z2(2) by (auto simp: fine_def intro: keeps_trans)
      qed
    qed
  qed
  then show ?thesis using assms(2,3) by simp
qed

lemma wp_reap_loop:
  assumes "zc_inv {#} z1" and "keeps z z1" and "head_ok c z1"
  shows "wp True (reap_loop c) (fine z) z1"
  by (rule wpI) (rule fine_trans [OF assms(2) reap_loop_fine [OF _ assms(1,3)]])

lemma reap_ready_fine:
  assumes "zc_inv {#} z"
  shows "wp True reap_ready (fine z) z"
  unfolding reap_ready_def wp_bind wp_sys on_ok_simps
proof (intro allI impI)
  fix c z1 assume "uring_peek_cqe z = Some (c, z1)"
  from peek_props [OF this assms] show "wp True (reap_loop c) (fine z) z1" by (simp add: wp_reap_loop)
qed

lemma submit_all_fine:
  assumes run: "submit_all z = Some (r, z')" and "zc_inv {#} z"
  shows "fine z r z'"
proof -
  let ?P = "\<lambda>z (r, z'). zc_inv {#} z \<longrightarrow> fine z r z'"
  have "?P z (r, z')"
  proof (rule submit_all.raw_induct [where P = ?P, OF _ run])
    fix g z y
    assume IH: "\<And>z y. g z = Some y \<Longrightarrow> ?P z y"
      and eq: "(if length (r_sq z) > 0 then
        Option.bind (uring_submit z) (\<lambda>(rv, z).
          if rv > 0 then g z
          else Some (Ok (), if rv < 0 \<and> rv \<noteq> - int EINTR \<and> rv \<noteq> - int EAGAIN then latch (nat (- rv)) z else z))
      else Some (Ok (), z)) = Some y"
    obtain r z' where y: "y = (r, z')" by (cases y)
    show "?P z y" unfolding y case_prod_conv
    proof
      assume i: "zc_inv {#} z"
      show "fine z r z'"
      proof (cases "r_sq z = []")
        case True
        then show ?thesis using eq y i by (auto simp: fine_def)
      next
        case False
        then obtain rv z1 where t: "uring_submit z = Some (rv, z1)" using eq by (auto split: bind_splits)
        note p = submit_props [OF t i]
        show ?thesis
        proof (cases "rv > 0")
          case True
          then have "g z1 = Some (r, z')" using eq False t y by simp
          from IH [OF this] p show ?thesis by (auto intro: fine_trans)
        next
          case False
          then show ?thesis using eq \<open>r_sq z \<noteq> []\<close> t y p by (auto simp: fine_def)
        qed
      qed
    qed
  qed
  then show ?thesis using assms(2) by simp
qed

text \<open>Sequences of internal steps.\<close>

lemma wp_fine_bind:
  assumes "wp True m (fine z) z" and "\<And>x z'. zc_inv {#} z' \<Longrightarrow> keeps z z' \<Longrightarrow> wp True (f x) (fine z') z'"
  shows "wp True (io_bind m f) (fine z) z"
  unfolding wp_bind
proof (rule wp_mono [OF assms(1)], goal_cases)
  case (1 r z')
  then obtain x where r: "r = Ok x" "zc_inv {#} z'" "keeps z z'" by (auto simp: fine_def)
  from assms(2) [OF r(2,3), of x] have "wp True (f x) (fine z) z'"
    by (rule wp_mono) (rule fine_trans [OF r(3)])
  then show ?case using r(1) by simp
qed

lemma wp_fine_get: "zc_inv {#} z \<Longrightarrow> wp True (zc_get f) (fine z) z"
  by (simp add: wp_simps fine_def)

lemma wp_fine_ret: "zc_inv {#} z \<Longrightarrow> wp True (io_ret x) (fine z) z"
  by (simp add: wp_simps fine_def)

lemma flush_fine: "zc_inv {#} z \<Longrightarrow> wp True zc_flush (fine z) z"
  unfolding zc_flush_def
  by (rule wp_fine_bind) (auto intro: wpI submit_all_fine reap_ready_fine)

lemma reap_wait_fine:
  assumes "zc_inv {#} z"
  shows "wp True reap_wait (fine z) z"
  unfolding reap_wait_def
proof (rule wp_fine_bind)
  fix n z1 assume z1: "zc_inv {#} z1"
  show "wp True (io_bind (if n > 0 then zc_flush else io_ret ()) (\<lambda>_. io_bind (sys uring_wait_cqe) reap_loop)) (fine z1) z1"
  proof (rule wp_fine_bind)
    show "wp True (if n > 0 then zc_flush else io_ret ()) (fine z1) z1"
      using z1 by (simp add: flush_fine wp_fine_ret)
    show "wp True (io_bind (sys uring_wait_cqe) reap_loop) (fine z2) z2" if z2: "zc_inv {#} z2" for z2
      unfolding wp_bind wp_sys on_ok_simps
      using wait_props [OF _ z2] by (auto intro: wp_reap_loop)
  qed
qed (use assms in \<open>simp add: wp_fine_get\<close>)
lemma await_once_fine:
  assumes "zc_inv {#} z"
  shows "wp True await_once (fine z) z"
  unfolding await_once_def
proof (rule wp_fine_bind [OF flush_fine [OF assms]])
  fix z1 assume z1: "zc_inv {#} z1"
  show "wp True (io_bind (zc_get z_free) (\<lambda>fr. if fr = [] then reap_wait else io_ret ())) (fine z1) z1"
    by (rule wp_fine_bind [OF wp_fine_get [OF z1]]) (simp add: reap_wait_fine wp_fine_ret)
qed

lemma await_free_fine:
  assumes run: "await_free z = Some (r, z')" and "zc_inv {#} z"
  shows "fine z r z' \<and> (r = Ok True \<longrightarrow> z_free z' \<noteq> [])"
proof -
  let ?P = "\<lambda>z (r, z'). zc_inv {#} z \<longrightarrow> fine z r z' \<and> (r = Ok True \<longrightarrow> z_free z' \<noteq> [])"
  have "?P z (r, z')"
  proof (rule await_free.raw_induct [where P = ?P, OF _ run])
    fix g z y
    assume IH: "\<And>z y. g z = Some y \<Longrightarrow> ?P z y"
      and eq: "(if z_free z = [] then
        (if z_err z \<noteq> 0 then Some (Ok False, z)
         else Option.bind (await_once z) (\<lambda>(r, z).
           case r of Ok _ \<Rightarrow> g z | Throw e \<Rightarrow> Some (Throw e, z) | Undef \<Rightarrow> Some (Undef, z)))
      else Some (Ok True, z)) = Some y"
    obtain r z' where y: "y = (r, z')" by (cases y)
    show "?P z y" unfolding y case_prod_conv
    proof
      assume i: "zc_inv {#} z"
      show "fine z r z' \<and> (r = Ok True \<longrightarrow> z_free z' \<noteq> [])"
      proof (cases "z_free z = [] \<and> z_err z = 0")
        case True
        with eq await_once_fine [OF i] obtain r1 z1 where 1: "await_once z = Some (r1, z1)" "fine z r1 z1"
          by (auto simp: wp_def split: bind_splits)
        then have "g z1 = Some (r, z')" using eq True y by (auto simp: fine_def)
        from IH [OF this] 1(2) show ?thesis by (auto simp: fine_def intro: keeps_trans)
      next
        case False
        then show ?thesis using eq y i by (auto simp: fine_def split: if_splits)
      qed
    qed
  qed
  then show ?thesis using assms(2) by simp
qed

text \<open>A slot is handed out from the free list, or again if it was not committed.\<close>

lemma slot_unused: "zc_inv {#} z \<Longrightarrow> i \<in> set (unused z) \<Longrightarrow> i < z_slots z \<and> i \<notin> busy z"
  by (auto simp: zc_inv_def)

definition same_pool :: "zc \<Rightarrow> zc \<Rightarrow> bool" where
  "same_pool z z' \<longleftrightarrow> z_slots z' = z_slots z \<and> z_slot_size z' = z_slot_size z \<and> r_entries z' = r_entries z \<and>
     (z_slots z \<le> r_entries z \<longrightarrow> z_err z' = EAGAIN \<longrightarrow> z_err z = EAGAIN)"

lemma keeps_same_pool: "keeps z z' \<Longrightarrow> same_pool z z'"
  by (simp add: keeps_def same_pool_def)

lemma reserve_wp:
  assumes "zc_inv {#} z"
  shows "wp True zc_reserve (\<lambda>r z'. zc_inv {#} z' \<and> same_pool z z' \<and>
    (r = Ok None \<or> (\<exists>i. r = Ok (Some (slot_addr z' i)) \<and> z_reserved z' = Some i))) z"
proof (rule wpI)
  fix r z' assume run: "zc_reserve z = Some (r, z')"
  show "zc_inv {#} z' \<and> same_pool z z' \<and>
    (r = Ok None \<or> (\<exists>i. r = Ok (Some (slot_addr z' i)) \<and> z_reserved z' = Some i))"
  proof (cases "z_reserved z")
    case (Some i)
    then show ?thesis using run assms by (auto simp: zc_reserve_def same_pool_def)
  next
    case None
    then obtain q z1 where 1: "await_free z = Some (q, z1)" using run by (auto simp: zc_reserve_def io_bind_def split: option.splits)
    from await_free_fine [OF 1 assms] obtain ok where q: "q = Ok ok" "zc_inv {#} z1" "keeps z z1" "ok \<Longrightarrow> z_free z1 \<noteq> []"
      by (auto simp: fine_def)
    show ?thesis
    proof (cases ok)
      case False
      then show ?thesis using run None 1 q by (auto simp: zc_reserve_def keeps_same_pool)
    next
      case True
      let ?z = "z1\<lparr>z_reserved := Some (last (z_free z1)), z_free := butlast (z_free z1)\<rparr>"
      have eq: "unused ?z = unused z1"
        using True q(3,4) None by (simp add: unused_def keeps_def)
      have "zc_inv {#} ?z"
        using q(2) by (simp add: zc_inv_def eq pending_def busy_def slot_owner_def in_slot_def)
      moreover have "r = Ok (Some (slot_addr ?z (last (z_free z1)))) \<and> z' = ?z"
        using run None 1 q(1) True by (auto simp: zc_reserve_def Let_def slot_addr_def)
      ultimately show ?thesis using q(3) by (auto simp: keeps_def same_pool_def slot_addr_def)
    qed
  qed
qed

lemma get_sqe_fine:
  assumes "zc_inv {#} z"
  shows "wp True get_sqe (fine z) z"
  unfolding get_sqe_def
proof (rule wp_fine_bind [OF wp_fine_get [OF assms]], goal_cases)
  case (1 ok z1)
  show ?case
  proof (cases ok)
    case False
    have "wp True (io_bind zc_flush (\<lambda>_. io_bind (zc_get sqe_free) (\<lambda>ok. if ok then io_ret True
         else io_bind reap_wait (\<lambda>_. zc_get sqe_free)))) (fine z1) z1"
    proof (rule wp_fine_bind [OF flush_fine [OF 1(1)]], goal_cases)
      case (1 x z2)
      show ?case
      proof (rule wp_fine_bind [OF wp_fine_get [OF 1(1)]], goal_cases)
        case (1 ok z3)
        then show ?case by (auto intro!: wp_fine_ret wp_fine_bind [OF reap_wait_fine] wp_fine_get)
      qed
    qed
    then show ?thesis using False by simp
  qed (use 1 in \<open>simp add: wp_fine_ret\<close>)
qed

lemma inflight_card:
  assumes "zc_inv X z"
  shows "zc_inflight z = card (busy z)" and "length (unused z) + card (busy z) = z_slots z"
proof -
  have u: "distinct (unused z)" "set (unused z) = {..<z_slots z} - busy z" using assms by (simp_all add: zc_inv_def)
  have "busy z \<subseteq> {..<z_slots z}" by (auto simp: busy_def)
  then have "card (set (unused z)) = z_slots z - card (busy z)" "card (busy z) \<le> z_slots z"
    unfolding u(2) using card_mono [of "{..<z_slots z}" "busy z"] by (simp_all add: card_Diff_subset)
  then show "length (unused z) + card (busy z) = z_slots z" using distinct_card [OF u(1)] by simp
  then show "zc_inflight z = card (busy z)" by (auto simp: zc_inflight_def unused_def split: option.splits)
qed

text \<open>With an entry per slot the queue has room for the reserved one.\<close>

lemma get_sqe_room:
  assumes "zc_inv {#} z" and "z_reserved z = Some i" and "z_slots z \<le> r_entries z"
  shows "get_sqe z = Some (Ok True, z)"
proof -
  have "length (r_sq z) \<le> size (pending z)" by (simp add: pending_def)
  also have "\<dots> = card (busy z)" using assms(1) by (simp add: zc_inv_def)
  also have "\<dots> < z_slots z" using inflight_card(2) [OF assms(1)] assms(2) by (simp add: unused_def)
  finally have "sqe_free z" using assms(3) by (simp add: sqe_free_def)
  then show ?thesis by (simp add: get_sqe_def io_bind_def zc_get_def)
qed

text \<open>A commit moves the reserved slot into the kernel's hands.\<close>

lemma commit_slot:
  assumes inv: "zc_inv {#} z" and res: "z_reserved z = Some i" and n: "0 < n" "n \<le> z_slot_size z"
  defines "z' \<equiv> z\<lparr>r_sq := r_sq z @ [(i, n)], z_inflight := (z_inflight z)[i := Buffer_pool (Some (slot_addr z i)) n (Some i)],
      z_reserved := None, z_sends := z_sends z + 1\<rparr>"
  shows "zc_inv {#} z' \<and> i < length (z_inflight z) \<and> z_inflight z ! i = Buffer_none \<and> busy z' = insert i (busy z)"
proof -
  have i: "i < z_slots z" "i \<notin> busy z" using slot_unused [OF inv, of i] res by (auto simp: unused_def)
  have len: "length (z_inflight z) = z_slots z" using inv by (simp add: zc_inv_def)
  have none: "z_inflight z ! i = Buffer_none" using i by (simp add: busy_def)
  have own: "slot_owner z' i (Buffer_pool (Some (slot_addr z i)) n (Some i))"
    using i(1) n by (auto simp: slot_owner_def in_slot_def z'_def slot_addr_def)
  have busy': "busy z' = insert i (busy z)"
    using len i(1) by (auto simp: busy_def z'_def nth_list_update Buffer_pool_def Buffer_none_def split: if_splits)
  have "zc_inv {#} z'"
    unfolding zc_inv_def
  proof (intro conjI)
    show "length (z_inflight z') = z_slots z'" using len by (simp add: z'_def)
    show "\<forall>j < z_slots z'. z_inflight z' ! j = Buffer_none \<or> slot_owner z' j (z_inflight z' ! j)"
    proof (intro allI impI)
      fix j assume "j < z_slots z'"
      then show "z_inflight z' ! j = Buffer_none \<or> slot_owner z' j (z_inflight z' ! j)"
        using inv len own by (cases "i = j") (auto simp: zc_inv_def slot_owner_def in_slot_def z'_def)
    qed
    show "distinct (unused z')" "set (unused z') = {..<z_slots z'} - busy z'"
      using inv res unfolding busy' by (auto simp: zc_inv_def unused_def z'_def)
    show "pending z' + {#} = mset_set (busy z')"
      using inv i(2) unfolding busy' by (simp add: zc_inv_def pending_def z'_def)
    show "cq_ok (set (r_notif z')) (r_cq z')" using inv by (simp add: zc_inv_def z'_def)
    show "\<forall>(p, n) \<in> set (r_copies z'). \<exists>i. in_slot z' i p n" using inv by (simp add: zc_inv_def in_slot_def z'_def)
  qed
  then show ?thesis using busy' none i(1) len by simp
qed

lemma commit_wp:
  assumes "zc_inv {#} z"
  shows "wp True (zc_commit n) (\<lambda>r z'. zc_inv {#} z' \<and> same_pool z z' \<and> r \<noteq> Undef \<and>
    (r = Ok True \<longrightarrow> z_reserved z' = None)) z"
proof (cases "z_reserved z")
  case None
  then show ?thesis using assms by (simp add: wp_def zc_commit_def same_pool_def)
next
  case (Some i)
  show ?thesis
  proof (cases "n = 0 \<or> n > z_slot_size z \<or> z_err z \<noteq> 0")
    case True
    then show ?thesis using assms Some by (auto simp: wp_def zc_commit_def same_pool_def)
  next
    case False
    let ?Q = "\<lambda>r z'. zc_inv {#} z' \<and> same_pool z z' \<and> r \<noteq> Undef \<and> (r = Ok True \<longrightarrow> z_reserved z' = None)"
    let ?rest = "\<lambda>ok. if \<not> ok then io_bind (zc_modify (\<lambda>z. z\<lparr>z_err := EAGAIN\<rparr>)) (\<lambda>_. io_ret False)
              else
                io_bind (zc_modify (\<lambda>z. z\<lparr>r_sq := r_sq z @ [(i, n)]\<rparr>)) (\<lambda>_.
                io_bind (set_inflight i (Buffer_pool (Some (slot_addr z i)) n (Some i))) (\<lambda>_.
                io_bind (zc_modify (\<lambda>z. z\<lparr>z_reserved := None, z_sends := z_sends z + 1\<rparr>)) (\<lambda>_. io_ret True)))"
    have room: "wp True get_sqe (\<lambda>r _. z_slots z \<le> r_entries z \<longrightarrow> r = Ok True) z"
      using get_sqe_room [OF assms Some] by (auto intro!: wpI)
    have "wp True (io_bind get_sqe ?rest) ?Q z"
      unfolding wp_bind
    proof (rule wp_mono [OF wp_conj [OF get_sqe_fine [OF assms] room]], goal_cases)
      case (1 r z1)
      then obtain ok where r: "r = Ok ok" and z1: "zc_inv {#} z1" "keeps z z1"
        and rm: "z_slots z \<le> r_entries z \<longrightarrow> ok" by (auto simp: fine_def)
      have c: "z_reserved z1 = Some i" "0 < n" "n \<le> z_slot_size z1" "slot_addr z1 i = slot_addr z i"
        using z1(2) Some False by (auto simp: keeps_def slot_addr_def)
      note slot = commit_slot [OF z1(1) c(1-3)]
      have "wp True (?rest ok) ?Q z1"
      proof (cases ok)
        case True
        let ?z = "z1\<lparr>r_sq := r_sq z1 @ [(i, n)]\<rparr>"
        have "set_inflight i (Buffer_pool (Some (slot_addr z i)) n (Some i)) ?z =
          Some (Ok (), ?z\<lparr>z_inflight := (z_inflight ?z)[i := Buffer_pool (Some (slot_addr z i)) n (Some i)]\<rparr>)"
          by (rule set_inflight_start) (use slot in simp_all)
        then show ?thesis
          using True slot z1(2) c(4) by (simp add: wp_simps wp_def [of _ "set_inflight _ _"] keeps_def same_pool_def)
      qed (use z1 rm in \<open>simp add: wp_simps same_pool_def keeps_def\<close>)
      then show ?case using r by simp
    qed
    then show ?thesis using Some False by (simp add: wp_def zc_commit_def)
  qed
qed
section \<open>Drain and destruction\<close>

lemma drain_loop_fine:
  assumes run: "drain_loop d z = Some (r, z')" and "zc_inv {#} z"
  shows "fine z r z'"
proof -
  let ?P = "\<lambda>d z (r, z'). zc_inv {#} z \<longrightarrow> fine z r z'"
  have "?P d z (r, z')"
  proof (rule drain_loop.raw_induct [where P = ?P, OF _ run])
    fix g d z y
    assume IH: "\<And>d z y. g d z = Some y \<Longrightarrow> ?P d z y"
      and eq: "(if zc_inflight z > 0 then
        Option.bind (ring_tick z) (\<lambda>(now, z).
          if now < d then
            Option.bind (ring_tick z) (\<lambda>(_, z).
            Option.bind (zc_flush z) (\<lambda>(r, z).
              case r of Ok _ \<Rightarrow> g d z | Throw e \<Rightarrow> Some (Throw e, z) | Undef \<Rightarrow> Some (Undef, z)))
          else Some (Ok (), z))
      else Some (Ok (), z)) = Some y"
    obtain r z' where y: "y = (r, z')" by (cases y)
    show "?P d z y" unfolding y case_prod_conv
    proof
      assume i: "zc_inv {#} z"
      show "fine z r z'"
      proof (cases "zc_inflight z > 0")
        case False
        then show ?thesis using eq y i by (auto simp: fine_def)
      next
        case True
        then obtain now z1 where t1: "ring_tick z = Some (now, z1)" using eq by (auto split: bind_splits)
        note p1 = tick_props(1) [OF t1 i] tick_props(2) [OF t1]
        show ?thesis
        proof (cases "now < d")
          case False
          then show ?thesis using eq y True t1 p1 by (auto simp: fine_def)
        next
          case lt: True
          obtain x z2 where t2: "ring_tick z1 = Some (x, z2)" using eq True t1 lt by (auto split: bind_splits)
          note p2 = tick_props(1) [OF t2 p1(1)] tick_props(2) [OF t2]
          from flush_fine [OF p2(1)] obtain q z3 where t3: "zc_flush z2 = Some (q, z3)" "fine z2 q z3"
            using eq True t1 t2 lt by (auto simp: wp_def split: bind_splits)
          then have "g d z3 = Some (r, z')" using eq True t1 t2 lt y by (auto simp: fine_def)
          from IH [OF this] t3(2) have 3: "fine z3 r z'" "keeps z2 z3" by (auto simp: fine_def)
          show ?thesis by (rule fine_trans [OF p1(2) fine_trans [OF p2(2) fine_trans [OF 3(2,1)]]])
        qed
      qed
    qed
  qed
  then show ?thesis using assms(2) by simp
qed

lemma drain_wp:
  assumes "zc_inv {#} z"
  shows "wp True (zc_drain d) (\<lambda>r z'. fine z r z' \<and> (r = Ok True \<longrightarrow> busy z' = {})) z"
proof (rule wpI)
  fix r z' assume run: "zc_drain d z = Some (r, z')"
  have "wp True (zc_drain d) (fine z) z"
    unfolding zc_drain_def
  proof (rule wp_fine_bind [OF flush_fine [OF assms]], goal_cases)
    case (1 x z1)
    have "wp True (drain_loop d) (fine z1) z1" by (rule wpI) (rule drain_loop_fine [OF _ 1(1)])
    then show ?case by (rule wp_fine_bind) (rule wp_fine_get)
  qed
  from wpD [OF this run] have f: "fine z r z'" .
  moreover have "zc_inflight z' = 0" if "r = Ok True"
    using run that by (auto simp: zc_drain_def io_simps zc_get_def)
  ultimately show "fine z r z' \<and> (r = Ok True \<longrightarrow> busy z' = {})"
    using inflight_card(1) [of "{#}" z'] by (auto simp: fine_def)
qed

text \<open>What the kernel may still read.\<close>

definition kernel_reads :: "zc \<Rightarrow> nat set" where
  "kernel_reads z = fst ` set (r_sq z) \<union> set (r_sub z) \<union> set (r_notif z)"

lemma kernel_reads_busy: "zc_inv {#} z \<Longrightarrow> kernel_reads z \<subseteq> busy z"
  using pending_set [of "{#}" z] by (auto simp: kernel_reads_def)

lemma zc_clear_ring: "kernel_reads (zc_clear z) = kernel_reads z"
proof -
  have one: "r_sq (buf_destroy (\<lambda>c p. zc_release c) (\<lambda>_ z. z) b y) = r_sq y \<and>
      r_sub (buf_destroy (\<lambda>c p. zc_release c) (\<lambda>_ z. z) b y) = r_sub y \<and>
      r_notif (buf_destroy (\<lambda>c p. zc_release c) (\<lambda>_ z. z) b y) = r_notif y" for b y
    by (auto simp: buf_destroy_def run_release_def free_owned_def zc_release_def split: option.splits)
  have "kernel_reads (foldl (\<lambda>z b. buf_destroy (\<lambda>c p. zc_release c) (\<lambda>_ z. z) b z) y bs) = kernel_reads y" for bs y
    by (induction bs arbitrary: y) (simp_all add: kernel_reads_def one)
  from this [of z "z_inflight z"] show ?thesis by (simp add: zc_clear_def kernel_reads_def)
qed

lemma destroy_wp:
  assumes "zc_inv {#} z"
  shows "wp True zc_destroy (\<lambda>r z'. \<exists>freed. r = Ok freed \<and> (freed \<longrightarrow> kernel_reads z' = {})) z"
  unfolding zc_destroy_def wp_bind wp_sys on_ok_simps
proof (intro allI impI)
  fix now z1 assume t: "ring_tick z = Some (now, z1)"
  show "wp True (zc_drain (now + 1000000000))
      (on_ok (\<lambda>quiet. wp True (zc_modify zc_clear)
        (on_ok (\<lambda>_. wp True (io_ret quiet) (\<lambda>r z'. \<exists>freed. r = Ok freed \<and> (freed \<longrightarrow> kernel_reads z' = {})))
          (\<lambda>r z'. \<exists>freed. r = Ok freed \<and> (freed \<longrightarrow> kernel_reads z' = {}))))
        (\<lambda>r z'. \<exists>freed. r = Ok freed \<and> (freed \<longrightarrow> kernel_reads z' = {}))) z1"
  proof (rule wp_mono [OF drain_wp [OF tick_props(1) [OF t assms]]], goal_cases)
    case (1 r z2)
    then obtain quiet where "r = Ok quiet" "zc_inv {#} z2" "quiet \<longrightarrow> busy z2 = {}" by (auto simp: fine_def)
    then show ?case using kernel_reads_busy [of z2] by (auto simp: wp_simps zc_clear_ring)
  qed
qed

section \<open>Callers\<close>

text \<open>The calls of a user, who may go on after an exception; false marks undefined behaviour.\<close>

datatype egress_call = Reserve | Commit nat | Flush | Drain int

definition outcome :: "('a res \<times> zc) option \<Rightarrow> (bool \<times> zc) option" where
  "outcome x = map_option (\<lambda>(r, z). (r \<noteq> Undef, z)) x"

primrec egress_do :: "egress_call \<Rightarrow> zc \<Rightarrow> (bool \<times> zc) option" where
  "egress_do Reserve z = outcome (zc_reserve z)"
| "egress_do (Commit n) z = outcome (zc_commit n z)"
| "egress_do Flush z = outcome (zc_flush z)"
| "egress_do (Drain d) z = outcome (zc_drain d z)"

primrec egress_run :: "egress_call list \<Rightarrow> zc \<Rightarrow> (bool \<times> zc) option" where
  "egress_run [] z = Some (True, z)"
| "egress_run (c # cs) z =
     Option.bind (egress_do c z) (\<lambda>(ok, z). if ok then egress_run cs z else Some (False, z))"

lemma outcome_wp:
  assumes "outcome (m z) = Some (ok, z')" and "wp True m Q z"
    and "\<And>r z'. Q r z' \<Longrightarrow> r \<noteq> Undef \<and> zc_inv {#} z' \<and> same_pool z z'"
  shows "ok \<and> zc_inv {#} z' \<and> same_pool z z'"
  using assms by (fastforce simp: outcome_def wp_def)

lemma egress_do_inv:
  assumes "egress_do c z = Some (ok, z')" and i: "zc_inv {#} z"
  shows "ok \<and> zc_inv {#} z' \<and> same_pool z z'"
proof (cases c)
  case Reserve
  then show ?thesis using assms(1) outcome_wp [OF _ reserve_wp [OF i]] by auto
next
  case (Commit n)
  then show ?thesis using assms(1) outcome_wp [OF _ commit_wp [OF i]] by auto
next
  case Flush
  then show ?thesis using assms(1) outcome_wp [OF _ flush_fine [OF i]] by (auto simp: fine_def keeps_same_pool)
next
  case (Drain d)
  then show ?thesis using assms(1) outcome_wp [OF _ drain_wp [OF i]] by (auto simp: fine_def keeps_same_pool)
qed

lemma egress_run_inv:
  "egress_run cs z = Some (ok, z') \<Longrightarrow> zc_inv {#} z \<Longrightarrow> ok \<and> zc_inv {#} z' \<and> same_pool z z'"
proof (induction cs arbitrary: z)
  case Nil
  then show ?case by (simp add: same_pool_def)
next
  case (Cons c cs)
  then obtain ok1 z1 where 1: "egress_do c z = Some (ok1, z1)" by (auto split: bind_splits)
  from egress_do_inv [OF 1 Cons.prems(2)] show ?case
    using Cons.IH [of z1] Cons.prems(1) 1 by (auto simp: same_pool_def)
qed

lemma init_inv:
  assumes "ZcEgress sz n rv entries reg scr = Ok z"
  shows "zc_inv {#} z" and "z_slots z = n"
proof -
  have z: "z = \<lparr>z_slot_size = sz, z_slots = n, z_registered = reg, z_unsupported = False,
               z_free = rev [0..<n], z_inflight = replicate n Buffer_none, z_reserved = None,
               z_err = 0, z_sends = 0, z_notifs = 0, z_copied = 0, z_fallback = 0, z_errors = 0,
               r_entries = entries, r_sq = [], r_sub = [], r_notif = [], r_cq = [], r_copies = [],
               r_script = scr\<rparr>"
    using assms by (auto simp: ZcEgress_def split: if_splits)
  have "busy z = {}" by (auto simp: busy_def z)
  then show "zc_inv {#} z" by (auto simp: zc_inv_def unused_def pending_def z)
  show "z_slots z = n" by (simp add: z)
qed

section \<open>Properties\<close>

text \<open>C34: Whatever the kernel does with the sends within its contract - completing them in any
  order, refusing them, failing, notifying late - and whatever a caller does with the egress:
  a slot the kernel may still read is never free nor handed out for assembly, no slot is ever
  free twice, every slot is free, reserved or in flight, a copy made after a refused send reads
  a slot within its bounds, and no call has undefined behaviour.\<close>

theorem egress_slots_safe:
  assumes "ZcEgress sz n rv entries reg scr = Ok z0" and "egress_run cs z0 = Some (ok, z)"
  shows "ok \<and> distinct (z_free z) \<and>
    (\<forall>i \<in> kernel_reads z. i < n \<and> i \<notin> set (z_free z) \<and> z_reserved z \<noteq> Some i) \<and>
    length (z_free z) + (if z_reserved z \<noteq> None then 1 else 0) + zc_inflight z = n \<and>
    (\<forall>(p, len) \<in> set (r_copies z). \<exists>i. in_slot z i p len)"
proof -
  from egress_run_inv [OF assms(2) init_inv(1) [OF assms(1)]]
  have inv: "ok" "zc_inv {#} z" "same_pool z0 z" by auto
  have n: "z_slots z = n" using inv(3) init_inv(2) [OF assms(1)] by (simp add: same_pool_def)
  have "i < n \<and> i \<notin> set (z_free z) \<and> z_reserved z \<noteq> Some i" if "i \<in> kernel_reads z" for i
  proof -
    have b: "i \<in> busy z" using kernel_reads_busy [OF inv(2)] that by blast
    then have "i \<notin> set (unused z)" using inv(2) by (simp add: zc_inv_def)
    then show ?thesis using b n by (auto simp: unused_def busy_def split: option.splits)
  qed
  moreover have "length (z_free z) + (if z_reserved z \<noteq> None then 1 else 0) + zc_inflight z = n"
    using inflight_card [OF inv(2)] n by (auto simp: unused_def split: option.splits)
  ultimately show ?thesis using inv(1,2) by (simp add: zc_inv_def unused_def)
qed

text \<open>C35: The destructor frees the slab only when the kernel has given back every slot; if sends
  are still under way after the drain, it leaks the slab instead.\<close>

theorem egress_destroy_safe:
  assumes "ZcEgress sz n rv entries reg scr = Ok z0" and "egress_run cs z0 = Some (ok, z)"
    and "zc_destroy z = Some (r, z')"
  shows "\<exists>freed. r = Ok freed \<and> (freed \<longrightarrow> kernel_reads z' = {})"
proof -
  from egress_run_inv [OF assms(2) init_inv(1) [OF assms(1)]] have "zc_inv {#} z" by blast
  from wpD [OF destroy_wp [OF this] assms(3)] show ?thesis .
qed

section \<open>Witnesses\<close>

text \<open>One slot: a send with a notification that comes with the second look.\<close>

definition sample_script :: "(kernel_event list \<times> int) list" where
  "sample_script = [([], 1), ([Complete 0 100 True], 0), ([], 0), ([], 5), ([Notify 0 True], 0), ([], 0)]"

definition sample_egress :: zc where
  "sample_egress =
     \<lparr>z_slot_size = 100, z_slots = 1, z_registered = True, z_unsupported = False, z_free = [0],
      z_inflight = [Buffer_none], z_reserved = None, z_err = 0, z_sends = 0, z_notifs = 0, z_copied = 0,
      z_fallback = 0, z_errors = 0, r_entries = 2, r_sq = [], r_sub = [], r_notif = [], r_cq = [],
      r_copies = [], r_script = sample_script\<rparr>"

lemma sample_egress: "ZcEgress 100 1 0 2 True sample_script = Ok sample_egress"
  by (simp add: ZcEgress_def sample_egress_def)

lemmas egress_eval =
  egress_do.simps egress_run.simps outcome_def zc_reserve_def zc_commit_def get_sqe_def zc_flush_def reap_ready_def
  await_free.simps submit_all.simps reap_loop.simps handle_cqe_def handle_send_def set_inflight_def
  buf_assign_def run_release_def free_owned_def zc_release_def zc_modify_def zc_get_def io_bind_def sys_def
  uring_submit_def uring_peek_cqe_def ring_tick_def kernel_def slot_addr_def sqe_free_def refused_def
  Buffer_pool_def Buffer_none_def sample_egress_def sample_script_def ENOMEM_def ENOBUFS_def EOPNOTSUPP_def
  errno_defs

lemma sample_run:
  "\<exists>z. egress_run [Reserve, Commit 50, Flush] sample_egress = Some (True, z) \<and> r_notif z = [0] \<and> z_free z = []
     \<and> z_reserved z = None \<and> (\<exists>z'. zc_destroy z = Some (Ok True, z'))"
  by (simp add: egress_eval Let_def)
    (simp add: zc_destroy_def zc_drain_def drain_loop.simps egress_eval zc_inflight_def Let_def)

lemma egress_slots_safe_witness:
  "\<exists>z. egress_run [Reserve, Commit 50, Flush] sample_egress = Some (True, z) \<and> 0 \<in> kernel_reads z \<and> zc_inflight z = 1"
proof -
  obtain z where z: "egress_run [Reserve, Commit 50, Flush] sample_egress = Some (True, z)" "r_notif z = [0]"
    "z_free z = []" "z_reserved z = None"
    using sample_run by blast
  from egress_slots_safe [OF sample_egress z(1)] z show ?thesis by (simp add: kernel_reads_def)
qed

lemma egress_destroy_safe_witness:
  "\<exists>z z'. egress_run [Reserve, Commit 50, Flush] sample_egress = Some (True, z) \<and> zc_destroy z = Some (Ok True, z')
     \<and> kernel_reads z' = {}"
proof -
  obtain z z' where z: "egress_run [Reserve, Commit 50, Flush] sample_egress = Some (True, z)"
    "zc_destroy z = Some (Ok True, z')"
    using sample_run by blast
  from egress_destroy_safe [OF sample_egress z] have "kernel_reads z' = {}" by auto
  then show ?thesis using z by blast
qed

end
