(* ===== verification/Quic_Transport.thy ===== *)
theory Quic_Transport
  imports Protocol Quic_Egress
begin

text \<open>
  \<^verbatim>\<open>src/transport/quic_transport.hpp\<close> and \<^verbatim>\<open>quic_transport.cpp\<close>: the transport over one QUIC
  stream. The protocol itself is in the library ngtcp2, which is not part of the repository:
  every call into it takes its answer from a script of the world, one script per function.
  An answer can be anything the library's documentation allows: a write takes some of the bytes
  offered or none, reading a packet runs any callbacks, an acknowledgement extends the
  acknowledged prefix of what was written. The clock, \<^verbatim>\<open>select\<close>, \<^verbatim>\<open>recvmsg\<close>, \<^verbatim>\<open>sendmsg\<close> and \<^verbatim>\<open>mmap\<close> are
  scripted in the same way, and the zero-copy sender is the one of \<open>Quic_Egress\<close>.

  \<open>accepted\<close> is what the library took from this side, in stream order; the bytes it will
  deliver are those of the stream data in \<open>lib_reads\<close>.
\<close>

unbundle bit_operations_syntax

section \<open>Constants\<close>

definition EIO :: nat where "EIO = 5"
definition ENETUNREACH :: nat where "ENETUNREACH = 101"
definition ECONNABORTED :: nat where "ECONNABORTED = 103"
definition ENOTCONN :: nat where "ENOTCONN = 107"
definition ECONNREFUSED :: nat where "ECONNREFUSED = 111"
definition EHOSTUNREACH :: nat where "EHOSTUNREACH = 113"
definition UINT64_MAX :: nat where "UINT64_MAX = 2 ^ 64 - 1"

definition QUIC_MAX_PKTLEN :: nat where "QUIC_MAX_PKTLEN = 1350"
definition QUIC_MAX_RECV_PKTLEN :: nat where "QUIC_MAX_RECV_PKTLEN = 1500"
definition QUIC_MAX_BURST :: nat where "QUIC_MAX_BURST = 10"
definition QUIC_CLOSE_LINER_NS :: nat where "QUIC_CLOSE_LINER_NS = 1000000000"
definition QUIC_ZC_SLOTS :: nat where "QUIC_ZC_SLOTS = 64"

section \<open>The world\<close>

datatype lib_error = Stream_data_blocked | Draining | Drop_conn | Idle_close | Crypto | Other_error

datatype write_result = Wrote nat int | Nothing_written | Write_error lib_error

text \<open>What reading a packet calls back: a stream, stream data with its FIN flag, acknowledged bytes.\<close>

datatype callback = Stream_open int | Stream_data bool "u8 list" | Acked nat

datatype close_reason = No_error | Tls_alert | Liberr lib_error

record quic_world = world +
  page_bits :: nat
  conn :: bool
  stream_id :: int
  stream_fin_received :: bool
  fin_sent :: bool
  quic_closed :: bool
  recv_buf :: "u8 list"
  recv_dest :: "(string \<times> nat) option"
  recv_dest_len :: nat
  recv_dest_got :: nat
  unacked :: "(nat \<times> u8 list) list"
  freed :: "(nat \<times> u8 list) list"
  stream_offset :: nat
  egress_init :: bool
  egress_sendmsg :: bool
  zc_setup :: "int \<times> bool \<times> (kernel_event list \<times> int) list"
  q_zc :: "zc option"
  accepted :: "u8 list"
  lib_acked :: nat
  lib_writes :: "write_result list"
  lib_reads :: "(callback list \<times> lib_error option) list"
  lib_expiries :: "nat list"
  lib_timers :: "lib_error option list"
  lib_ending :: "bool list"
  lib_close :: "int list"
  lib_handshake :: "bool list"
  clock :: "nat list"
  close_frames :: "close_reason list"

type_synonym ('e, 'a) qio = "('e quic_world_scheme, 'a) io"

text \<open>The next answer of a script; with none left the call does not return.\<close>

definition take_answer ::
  "('e quic_world_scheme \<Rightarrow> 'x list) \<Rightarrow> ('x list \<Rightarrow> 'e quic_world_scheme \<Rightarrow> 'e quic_world_scheme) \<Rightarrow> ('e, 'x) qio" where
  "take_answer get put w = (case get w of [] \<Rightarrow> None | x # xs \<Rightarrow> Some (Ok x, put xs w))"

definition now_ns :: "('e, nat) qio" where
  "now_ns = take_answer clock (\<lambda>xs w. w\<lparr>clock := xs\<rparr>)"

definition conn_get_expiry :: "('e, nat) qio" where
  "conn_get_expiry = take_answer lib_expiries (\<lambda>xs w. w\<lparr>lib_expiries := xs\<rparr>)"

definition conn_handle_expiry :: "('e, lib_error option) qio" where
  "conn_handle_expiry = take_answer lib_timers (\<lambda>xs w. w\<lparr>lib_timers := xs\<rparr>)"

text \<open>Whether the connection is in its closing or its draining period.\<close>

definition conn_is_ending :: "('e, bool) qio" where
  "conn_is_ending = take_answer lib_ending (\<lambda>xs w. w\<lparr>lib_ending := xs\<rparr>)"

definition conn_write_connection_close :: "('e, int) qio" where
  "conn_write_connection_close = take_answer lib_close (\<lambda>xs w. w\<lparr>lib_close := xs\<rparr>)"

definition conn_get_handshake_completed :: "('e, bool) qio" where
  "conn_get_handshake_completed = take_answer lib_handshake (\<lambda>xs w. w\<lparr>lib_handshake := xs\<rparr>)"

text \<open>
  \<^verbatim>\<open>ngtcp2_conn_writev_stream\<close> on the stream: a packet of at most the given size, with a part of
  the bytes offered, or with none of them (\<^verbatim>\<open>-1\<close>).
\<close>

definition conn_writev_stream :: "u8 list \<Rightarrow> ('e, write_result) qio" where
  "conn_writev_stream data =
     io_bind (take_answer lib_writes (\<lambda>xs w. w\<lparr>lib_writes := xs\<rparr>)) (\<lambda>x.
       case x of
         Wrote n wd \<Rightarrow>
           (let k = min (nat wd) (length data) in
            io_bind (io_modify (\<lambda>w. w\<lparr>accepted := accepted w @ take k data\<rparr>)) (\<lambda>_.
            io_ret (Wrote (min (max 1 n) QUIC_MAX_PKTLEN) (if wd < 0 then -1 else int k))))
       | x \<Rightarrow> io_ret x)"

text \<open>\<^verbatim>\<open>select\<close> on the socket alone; a malformed timeout is refused.\<close>

definition sys_select :: "nat \<times> nat \<Rightarrow> ('e quic_world_scheme, int) raw" where
  "sys_select tv w =
     (case sys_next w of
        None \<Rightarrow> None
      | Some (Fail e, w1) \<Rightarrow> Some (-1, w1\<lparr>errno := e\<rparr>)
      | Some (Xfer n, w1) \<Rightarrow>
          if snd tv \<ge> 1000000 then Some (-1, w1\<lparr>errno := EINVAL\<rparr>) else Some (int (min n 1), w1))"

text \<open>\<^verbatim>\<open>recvmsg\<close>: the size of the datagram as stored, and whether it was truncated.\<close>

definition sys_recvmsg :: "('e quic_world_scheme, int \<times> bool) raw" where
  "sys_recvmsg w =
     (case sys_next w of
        None \<Rightarrow> None
      | Some (Fail e, w1) \<Rightarrow> Some ((-1, False), w1\<lparr>errno := e\<rparr>)
      | Some (Xfer n, w1) \<Rightarrow>
          Some ((int (min n QUIC_MAX_RECV_PKTLEN), n > QUIC_MAX_RECV_PKTLEN), w1))"

definition sys_sendmsg :: "('e quic_world_scheme, int) raw" where
  "sys_sendmsg w =
     (case sys_next w of
        None \<Rightarrow> None
      | Some (Fail e, w1) \<Rightarrow> Some (-1, w1\<lparr>errno := e\<rparr>)
      | Some (Xfer n, w1) \<Rightarrow> Some (int n, w1))"

text \<open>
  \<^verbatim>\<open>mmap\<close> of a part of a file, by descriptor: the file behind the mapping, or \<open>None\<close>. The last
  page of a file is padded with zeros, which are not part of it; beyond that page, access faults.
\<close>

definition sys_map_file :: "int \<Rightarrow> ('e quic_world_scheme, string option) raw" where
  "sys_map_file fd w =
     (case sys_next w of
        None \<Rightarrow> None
      | Some (Fail e, w1) \<Rightarrow> Some (None, w1\<lparr>errno := e\<rparr>)
      | Some (Xfer _, w1) \<Rightarrow>
          (case fds w1 fd of
             None \<Rightarrow> Some (None, w1\<lparr>errno := EBADF\<rparr>)
           | Some f \<Rightarrow> Some (Some (of_path f), w1)))"

definition page_size :: "'e quic_world_scheme \<Rightarrow> nat" where
  "page_size w = 2 ^ page_bits w"

definition padded :: "'e quic_world_scheme \<Rightarrow> u8 list \<Rightarrow> u8 list" where
  "padded w c = c @ replicate ((page_size w - length c mod page_size w) mod page_size w) 0"

definition map_load :: "string \<Rightarrow> nat \<Rightarrow> nat \<Rightarrow> ('e, u8 list) qio" where
  "map_load p off len w =
     (let c = padded w (contents w p)
      in if off + len \<le> length c then Some (Ok (region off len c), w) else Some (Undef, w))"

definition map_store :: "string \<Rightarrow> nat \<Rightarrow> u8 list \<Rightarrow> ('e, unit) qio" where
  "map_store p off bs w =
     (let c = contents w p
      in if off + length bs \<le> length (padded w c) then
           Some (Ok (), w\<lparr>files := (files w)(p \<mapsto> take (length c) (write_at c off bs))\<rparr>)
         else Some (Undef, w))"

text \<open>The page-aligned start of a mapping, in 64 bits as the code computes it, and the offset in it.\<close>

definition map_base :: "nat \<Rightarrow> nat \<Rightarrow> nat" where
  "map_base page off = unat ((word_of_nat off :: u64) AND NOT (word_of_nat page - 1))"

definition map_delta :: "nat \<Rightarrow> nat \<Rightarrow> nat" where
  "map_delta page off = unat ((word_of_nat off :: u64) - word_of_nat (map_base page off))"

section \<open>Egress\<close>

definition on_zc :: "(zc, 'a) io \<Rightarrow> ('e, 'a) qio" where
  "on_zc m w =
     (case q_zc w of
        None \<Rightarrow> Some (Undef, w)
      | Some z \<Rightarrow> (case m z of None \<Rightarrow> None | Some (r, z') \<Rightarrow> Some (r, w\<lparr>q_zc := Some z'\<rparr>)))"

text \<open>\<^verbatim>\<open>zc_.reset()\<close>.\<close>

definition zc_reset :: "('e, unit) qio" where
  "zc_reset =
     io_bind (io_get q_zc) (\<lambda>z.
       if z = None then io_ret ()
       else io_bind (on_zc zc_destroy) (\<lambda>_. io_modify (\<lambda>w. w\<lparr>q_zc := None\<rparr>)))"

text \<open>Lazily, once; the ring has twice as many entries as there are slots.\<close>

definition init_egress :: "('e, unit) qio" where
  "init_egress =
     io_bind (io_get egress_init) (\<lambda>done. if done then io_ret () else
     io_bind (io_modify (\<lambda>w. w\<lparr>egress_init := True\<rparr>)) (\<lambda>_.
     io_bind (io_get egress_sendmsg) (\<lambda>sendmsg. if sendmsg then io_ret () else
     io_bind (io_get zc_setup) (\<lambda>(rv, reg, scr).
       case ZcEgress QUIC_MAX_PKTLEN QUIC_ZC_SLOTS rv (QUIC_ZC_SLOTS * 2) reg scr of
         Ok z \<Rightarrow>
           io_bind (io_modify (\<lambda>w. w\<lparr>q_zc := Some z\<rparr>)) (\<lambda>_.
             if \<not> z_registered z then zc_reset else io_ret ())
       | Throw _ \<Rightarrow> zc_reset
       | Undef \<Rightarrow> io_undef))))"

definition begin_packet :: "('e, unit) qio" where
  "begin_packet =
     io_bind init_egress (\<lambda>_.
     io_bind (io_get q_zc) (\<lambda>z.
       if z = None then io_ret ()
       else io_bind (on_zc zc_reserve) (\<lambda>p. if p \<noteq> None then io_ret () else zc_reset)))"

datatype send_result = Sent | Blocked | Failed

definition send_packet :: "nat \<Rightarrow> ('e, send_result) qio" where
  "send_packet n =
     io_bind (io_get q_zc) (\<lambda>z.
       if z \<noteq> None then
         io_bind (on_zc (zc_commit n)) (\<lambda>ok.
           if ok then io_ret Sent
           else io_bind (on_zc (zc_get z_err)) (\<lambda>e.
                io_bind (io_modify (\<lambda>w. w\<lparr>errno := (if e \<noteq> 0 then e else EIO)\<rparr>)) (\<lambda>_. io_ret Failed)))
       else
         io_bind (sys sys_sendmsg) (\<lambda>rv.
           if rv < 0 then io_bind (io_get errno) (\<lambda>e. io_ret (if e = EAGAIN then Blocked else Failed))
           else io_ret Sent))"

definition flush_packets :: "('e, unit) qio" where
  "flush_packets =
     io_bind (io_get q_zc) (\<lambda>z.
       if z = None then io_ret ()
       else io_bind (on_zc zc_flush) (\<lambda>_.
            io_bind (on_zc (zc_get z_unsupported)) (\<lambda>u. if u then zc_reset else io_ret ())))"

section \<open>Callbacks\<close>

definition on_stream_open :: "int \<Rightarrow> ('e, unit) qio" where
  "on_stream_open sid = io_modify (\<lambda>w. w\<lparr>stream_id := sid\<rparr>)"

text \<open>Into the mapping that \<^verbatim>\<open>recv_file\<close> waits on when nothing is queued ahead, the rest into the buffer.\<close>

definition on_recv_stream_data :: "bool \<Rightarrow> u8 list \<Rightarrow> ('e, unit) qio" where
  "on_recv_stream_data fin data =
     io_bind (io_get (\<lambda>w.
       case recv_dest w of
         Some (p, off) \<Rightarrow> if recv_buf w = [] then min (length data) (recv_dest_len w - recv_dest_got w) else 0
       | None \<Rightarrow> 0)) (\<lambda>taken.
     io_bind (io_get recv_dest) (\<lambda>dest.
     io_bind (io_get recv_buf) (\<lambda>buf.
     io_bind (io_get recv_dest_got) (\<lambda>got.
     io_bind
       (case dest of
          Some (p, off) \<Rightarrow> if buf = [] then map_store p (off + got) (take taken data) else io_ret ()
        | None \<Rightarrow> io_ret ()) (\<lambda>_.
     io_modify (\<lambda>w. w\<lparr>recv_dest_got := got + taken, recv_buf := buf @ drop taken data,
                      stream_fin_received := (stream_fin_received w \<or> fin)\<rparr>))))))"

text \<open>The library reports the acknowledged prefix before and the bytes new in it.\<close>

definition on_acked_stream_data_offset :: "nat \<Rightarrow> nat \<Rightarrow> ('e, unit) qio" where
  "on_acked_stream_data_offset offset datalen =
     io_modify (\<lambda>w.
       let acked_end = offset + datalen
       in w\<lparr>unacked := dropWhile (\<lambda>u. fst u \<le> acked_end) (unacked w),
            freed := freed w @ takeWhile (\<lambda>u. fst u \<le> acked_end) (unacked w)\<rparr>)"

definition run_callback :: "callback \<Rightarrow> ('e, unit) qio" where
  "run_callback c =
     (case c of
        Stream_open sid \<Rightarrow> on_stream_open sid
      | Stream_data fin data \<Rightarrow> on_recv_stream_data fin data
      | Acked d \<Rightarrow>
          io_bind (io_get (\<lambda>w. min d (length (accepted w) - lib_acked w))) (\<lambda>n.
          io_bind (io_get lib_acked) (\<lambda>offset.
          io_bind (io_modify (\<lambda>w. w\<lparr>lib_acked := offset + n\<rparr>)) (\<lambda>_.
          on_acked_stream_data_offset offset n))))"

definition feed_data :: "('e, lib_error option) qio" where
  "feed_data =
     io_bind (take_answer lib_reads (\<lambda>xs w. w\<lparr>lib_reads := xs\<rparr>)) (\<lambda>(cbs, rv).
     io_bind (io_for cbs run_callback) (\<lambda>_. io_ret rv))"

section \<open>The pump\<close>

text \<open>At most \<^verbatim>\<open>QUIC_MAX_BURST\<close> packets without stream data; the answer is whether it returned 0.\<close>

primrec drain_burst :: "nat \<Rightarrow> ('e, bool option) qio" where
  "drain_burst 0 = io_ret None"
| "drain_burst (Suc k) =
     io_bind begin_packet (\<lambda>_.
     io_bind (conn_writev_stream []) (\<lambda>x.
       case x of
         Nothing_written \<Rightarrow> io_ret None
       | Write_error _ \<Rightarrow> io_ret (Some False)
       | Wrote n _ \<Rightarrow>
           io_bind (send_packet n) (\<lambda>sr.
             if sr = Blocked then io_ret None else if sr = Failed then io_ret (Some False) else drain_burst k)))"

definition drain_packets :: "('e, bool) qio" where
  "drain_packets =
     io_bind (io_get quic_closed) (\<lambda>c. if c then io_ret True else
     io_bind (drain_burst QUIC_MAX_BURST) (\<lambda>r.
       case r of
         Some b \<Rightarrow> io_ret b
       | None \<Rightarrow> io_bind flush_packets (\<lambda>_. io_ret True)))"

text \<open>The end of \<^verbatim>\<open>close_connection\<close>: one CONNECTION_CLOSE frame, sent past the ring.\<close>

definition send_close :: "close_reason \<Rightarrow> ('e, unit) qio" where
  "send_close reason =
     io_bind conn_write_connection_close (\<lambda>nwrite.
     io_bind (if nwrite > 0 then io_bind (sys sys_sendmsg) (\<lambda>_. io_ret ()) else io_ret ()) (\<lambda>_.
     io_modify (\<lambda>w. w\<lparr>quic_closed := True,
       close_frames := (if nwrite > 0 then close_frames w @ [reason] else close_frames w)\<rparr>)))"

text \<open>The test at the start of \<^verbatim>\<open>close_connection\<close>; true when there is nothing to send.\<close>

definition close_is_moot :: "('e, bool) qio" where
  "close_is_moot =
     io_bind (io_get (\<lambda>w. \<not> conn w \<or> quic_closed w)) (\<lambda>m.
     io_bind (if m then io_ret True else conn_is_ending) (\<lambda>m.
     io_bind (if m then io_modify (\<lambda>w. w\<lparr>quic_closed := True\<rparr>) else io_ret ()) (\<lambda>_.
     io_ret m)))"

text \<open>\<^verbatim>\<open>close_connection\<close> for an error, which never waits for acknowledgements.\<close>

definition close_error :: "lib_error \<Rightarrow> ('e, unit) qio" where
  "close_error e =
     io_bind close_is_moot (\<lambda>m.
       if m then io_ret () else send_close (if e = Crypto then Tls_alert else Liberr e))"

definition pump_timeout :: "nat \<Rightarrow> nat \<Rightarrow> nat \<times> nat" where
  "pump_timeout expiry now =
     (if expiry = UINT64_MAX then (0, 100000)
      else if expiry > now then
        (let diff_ns = expiry - now in (diff_ns div 1000000000, (diff_ns mod 1000000000) div 1000))
      else (0, 0))"

definition set_closed :: "('e, unit) qio" where
  "set_closed = io_modify (\<lambda>w. w\<lparr>quic_closed := True\<rparr>)"

text \<open>One datagram, if there is one; false when the pump returns \<^verbatim>\<open>-1\<close>.\<close>

definition pump_receive :: "('e, bool) qio" where
  "pump_receive =
     io_bind (sys sys_recvmsg) (\<lambda>(nread, truncated).
       if nread < 0 then
         io_bind (io_get errno) (\<lambda>e. io_ret (e \<in> {EAGAIN, ECONNREFUSED, ENETUNREACH, EHOSTUNREACH}))
       else if truncated then io_ret False
       else io_bind feed_data (\<lambda>rv.
         case rv of
           None \<Rightarrow> io_ret True
         | Some e \<Rightarrow>
             io_bind (if e = Draining \<or> e = Drop_conn then set_closed else close_error e) (\<lambda>_. io_ret False)))"

definition pump_timers :: "('e, bool) qio" where
  "pump_timers =
     io_bind conn_get_expiry (\<lambda>expiry.
     io_bind now_ns (\<lambda>now.
       if expiry \<le> now then
         io_bind now_ns (\<lambda>_.
         io_bind conn_handle_expiry (\<lambda>erv.
           case erv of
             None \<Rightarrow> io_ret True
           | Some e \<Rightarrow> io_bind (if e = Idle_close then set_closed else close_error e) (\<lambda>_. io_ret False)))
       else io_ret True))"

definition pump_once :: "nat \<Rightarrow> ('e, bool) qio" where
  "pump_once until =
     io_bind (io_get quic_closed) (\<lambda>c. if c then io_ret False else
     io_bind conn_get_expiry (\<lambda>e.
     io_bind now_ns (\<lambda>now.
     io_bind (sys (sys_select (pump_timeout (min e until) now))) (\<lambda>sel.
     io_bind (io_get errno) (\<lambda>err.
       if sel < 0 \<and> err \<noteq> EINTR then io_ret False
       else
         io_bind (if sel > 0 then pump_receive else io_ret True) (\<lambda>ok.
           if \<not> ok then io_ret False
           else io_bind pump_timers (\<lambda>ok. if \<not> ok then io_ret False else drain_packets)))))))"

section \<open>Closing\<close>

definition QUIC_NO_DEADLINE :: nat where "QUIC_NO_DEADLINE = UINT64_MAX"

text \<open>Pumping until every block is acknowledged, the connection is closed, or the time is up.\<close>

definition linger :: "nat \<Rightarrow> ('e, unit) qio" where
  "linger deadline =
     io_loop (\<lambda>_ :: unit.
       io_bind (io_get (\<lambda>w. unacked w \<noteq> [] \<and> \<not> quic_closed w)) (\<lambda>more. if \<not> more then io_ret (Inr ()) else
       io_bind now_ns (\<lambda>now. if now \<ge> deadline then io_ret (Inr ()) else
       io_bind (pump_once deadline) (\<lambda>ok. io_ret (if ok then Inl () else Inr ()))))) ()"

text \<open>\<^verbatim>\<open>close_connection(0)\<close>.\<close>

definition close_graceful :: "('e, unit) qio" where
  "close_graceful =
     io_bind close_is_moot (\<lambda>m. if m then io_ret () else
     io_bind (io_get (\<lambda>w. unacked w \<noteq> [])) (\<lambda>pending.
     io_bind (if pending then io_bind now_ns (\<lambda>now. linger (now + QUIC_CLOSE_LINER_NS)) else io_ret ()) (\<lambda>_.
     io_bind (io_get (\<lambda>w. pending \<and> quic_closed w)) (\<lambda>c. if c then io_ret () else send_close No_error))))"

text \<open>
  The destructor: the blocks still retained go when the members do, after the connection, and
  the ring before the socket.
\<close>

definition quic_destroy :: "('e, unit) qio" where
  "quic_destroy =
     io_bind (io_get (\<lambda>w. conn w \<and> \<not> quic_closed w)) (\<lambda>c.
     io_bind (if c then close_graceful else io_ret ()) (\<lambda>_.
     io_bind (io_modify (\<lambda>w. w\<lparr>conn := False\<rparr>)) (\<lambda>_.
     io_bind zc_reset (\<lambda>_.
     io_modify (\<lambda>w. w\<lparr>freed := freed w @ unacked w, unacked := []\<rparr>)))))"

section \<open>The control plane\<close>

text \<open>Failing with \<^verbatim>\<open>errno\<close> set.\<close>

definition fail_errno :: "nat \<Rightarrow> ('e, 's + int) qio" where
  "fail_errno e = io_bind (io_modify (\<lambda>w. w\<lparr>errno := e\<rparr>)) (\<lambda>_. io_ret (Inr (-1)))"

definition pump_or_abort :: "'s \<Rightarrow> ('e, 's + int) qio" where
  "pump_or_abort s =
     io_bind (pump_once QUIC_NO_DEADLINE) (\<lambda>ok. if ok then io_ret (Inl s) else fail_errno ECONNABORTED)"

definition write_turn :: "u8 list \<Rightarrow> nat \<Rightarrow> ('e, nat + int) qio" where
  "write_turn data taken =
     (if taken < length data then
        io_bind begin_packet (\<lambda>_.
        io_bind (conn_writev_stream (drop taken data)) (\<lambda>x.
          case x of
            Write_error e \<Rightarrow>
              if e = Stream_data_blocked then pump_or_abort taken
              else io_bind (close_error e) (\<lambda>_. fail_errno EIO)
          | Nothing_written \<Rightarrow> pump_or_abort taken
          | Wrote n wdatalen \<Rightarrow>
              io_bind (io_modify (\<lambda>w. w\<lparr>stream_offset := stream_offset w + nat wdatalen\<rparr>)) (\<lambda>_.
              io_bind (send_packet n) (\<lambda>sr.
                if sr = Failed then io_ret (Inr (-1))
                else if sr = Blocked then pump_or_abort (taken + nat wdatalen)
                else io_ret (Inl (taken + nat wdatalen))))))
      else io_bind flush_packets (\<lambda>_. io_ret (Inr (int (length data)))))"

definition write_stream :: "u8 list \<Rightarrow> ('e, int) qio" where
  "write_stream data = io_loop (write_turn data) 0"

text \<open>The block to be sent is retained first.\<close>

definition retain :: "u8 list \<Rightarrow> ('e, unit) qio" where
  "retain data = io_modify (\<lambda>w. w\<lparr>unacked := unacked w @ [(stream_offset w + length data, data)]\<rparr>)"

definition quic_send :: "u8 list \<Rightarrow> ('e, int) qio" where
  "quic_send buf =
     io_bind (io_get quic_closed) (\<lambda>c.
       if c then io_bind (io_modify (\<lambda>w. w\<lparr>errno := ENOTCONN\<rparr>)) (\<lambda>_. io_ret (-1))
       else io_bind (io_get stream_id) (\<lambda>sid.
         if sid < 0 then io_throw (Runtime_error ''QuicTransport::send: no open stream'')
         else if buf = [] then io_ret 0
         else io_bind (retain buf) (\<lambda>_. write_stream buf)))"

text \<open>Pumps until there are bytes, the peer's FIN, or the end of the connection.\<close>

definition await_data :: "('e, unit) qio" where
  "await_data =
     io_loop (\<lambda>_ :: unit.
       io_bind (io_get (\<lambda>w. recv_buf w = [] \<and> \<not> stream_fin_received w \<and> \<not> quic_closed w)) (\<lambda>more.
         if \<not> more then io_ret (Inr ())
         else io_bind (pump_once QUIC_NO_DEADLINE) (\<lambda>ok. io_ret (if ok then Inl () else Inr ())))) ()"

definition take_buffered :: "nat \<Rightarrow> ('e, u8 list) qio" where
  "take_buffered n =
     io_bind (io_get (\<lambda>w. take n (recv_buf w))) (\<lambda>bs.
     io_bind (io_modify (\<lambda>w. w\<lparr>recv_buf := drop n (recv_buf w)\<rparr>)) (\<lambda>_. io_ret bs))"

definition quic_recv :: "nat \<Rightarrow> ('e, int \<times> u8 list) qio" where
  "quic_recv len =
     io_bind await_data (\<lambda>_.
     io_bind (io_get (\<lambda>w. recv_buf w \<noteq> [])) (\<lambda>some.
       if some then io_bind (take_buffered len) (\<lambda>bs. io_ret (int (length bs), bs))
       else io_bind (io_get stream_fin_received) (\<lambda>fin. io_ret (if fin then 0 else -1, []))))"

text \<open>A FIN without data; it is sent once, and a blocked datagram is left to retransmission.\<close>

definition fin_turn :: "unit \<Rightarrow> ('e, unit + int) qio" where
  "fin_turn u =
     io_bind (io_get quic_closed) (\<lambda>c. if c then io_ret (Inr (-1)) else
     io_bind begin_packet (\<lambda>_.
     io_bind (conn_writev_stream []) (\<lambda>x.
       case x of
         Write_error e \<Rightarrow>
           if e = Stream_data_blocked
           then io_bind (pump_once QUIC_NO_DEADLINE) (\<lambda>ok. io_ret (if ok then Inl () else Inr (-1)))
           else io_bind (close_error e) (\<lambda>_. io_ret (Inr (-1)))
       | Nothing_written \<Rightarrow>
           io_bind (pump_once QUIC_NO_DEADLINE) (\<lambda>ok. io_ret (if ok then Inl () else Inr (-1)))
       | Wrote n wdatalen \<Rightarrow>
           io_bind (send_packet n) (\<lambda>sr.
             if sr = Failed then io_ret (Inr (-1))
             else if wdatalen \<ge> 0 then
               io_bind (io_modify (\<lambda>w. w\<lparr>fin_sent := True\<rparr>)) (\<lambda>_.
               io_bind flush_packets (\<lambda>_. io_ret (Inr 0)))
             else io_ret (Inl ())))))"

definition send_fin :: "('e, int) qio" where
  "send_fin =
     io_bind (io_get stream_id) (\<lambda>sid. if sid < 0 then io_ret (-1) else
     io_bind (io_get fin_sent) (\<lambda>f. if f then io_ret 0 else io_loop fin_turn ()))"

definition unacked_bytes :: "'e quic_world_scheme \<Rightarrow> nat" where
  "unacked_bytes w = sum_list (map (\<lambda>u. length (snd u)) (unacked w))"

text \<open>The handshake, driven by the factories.\<close>

definition run_handshake :: "('e, int) qio" where
  "run_handshake =
     io_bind drain_packets (\<lambda>ok. if \<not> ok then io_ret (-1) else
       io_loop (\<lambda>_ :: unit.
         io_bind conn_get_handshake_completed (\<lambda>done.
           if done then io_ret (Inr 0)
           else io_bind (pump_once QUIC_NO_DEADLINE) (\<lambda>ok. io_ret (if ok then Inl () else Inr (-1))))) ())"

section \<open>The data plane\<close>

text \<open>The mapped range is retained like any block; the library reads it where it lies.\<close>

definition quic_send_file :: "int \<Rightarrow> nat \<Rightarrow> nat \<Rightarrow> ('e, unit) qio" where
  "quic_send_file fd off len =
     (if len = 0 then io_ret ()
      else io_bind (io_get quic_closed) (\<lambda>c.
        if c then io_throw (Runtime_error ''QuicTransport::send_file: connection closed'')
        else io_bind (io_get stream_id) (\<lambda>sid.
          if sid < 0 then io_throw (Runtime_error ''QuicTransport::send_file: no open stream'')
          else io_bind (io_get page_size) (\<lambda>page.
               io_bind (sys (sys_map_file fd)) (\<lambda>m.
                 case m of
                   None \<Rightarrow> io_throw (Runtime_error ''QuicTransport::send_file: mmap failed: '')
                 | Some p \<Rightarrow>
                     io_bind (map_load p (map_base page off + map_delta page off) len) (\<lambda>data.
                     io_bind (retain data) (\<lambda>_.
                     io_bind (write_stream data) (\<lambda>n.
                       if n < 0 then io_throw (Runtime_error ''QuicTransport::send_file: send failed: '')
                       else io_ret ()))))))))"

definition fill_turn :: "nat \<Rightarrow> unit \<Rightarrow> ('e, unit + unit) qio" where
  "fill_turn len u =
     io_bind (io_get (\<lambda>w. recv_dest_got w < len)) (\<lambda>more. if \<not> more then io_ret (Inr ()) else
     io_bind (io_get (\<lambda>w. stream_fin_received w \<or> quic_closed w)) (\<lambda>ended.
       if ended then io_throw (Runtime_error ''QuicTransport::recv_file: connection closed'')
       else io_bind (pump_once QUIC_NO_DEADLINE) (\<lambda>ok.
         if ok then io_ret (Inl ()) else io_throw (Runtime_error ''QuicTransport::recv_file: pump failed''))))"

text \<open>The destination is given up with its mapping, however the call ends.\<close>

definition quic_recv_file :: "int \<Rightarrow> nat \<Rightarrow> nat \<Rightarrow> ('e, unit) qio" where
  "quic_recv_file fd off len =
     (if len = 0 then io_ret ()
      else io_bind (io_get page_size) (\<lambda>page.
           io_bind (sys (sys_map_file fd)) (\<lambda>m.
             case m of
               None \<Rightarrow> io_throw (Runtime_error ''QuicTransport::recv_file: mmap failed: '')
             | Some p \<Rightarrow>
                 let start = map_base page off + map_delta page off in
                 io_finally
                   (io_bind (take_buffered len) (\<lambda>bs.
                    io_bind (if bs = [] then io_ret () else map_store p start bs) (\<lambda>_.
                    io_bind (io_modify (\<lambda>w. w\<lparr>recv_dest := Some (p, start), recv_dest_len := len,
                                               recv_dest_got := length bs\<rparr>)) (\<lambda>_.
                    io_loop (fill_turn len) ()))))
                   (\<lambda>w. w\<lparr>recv_dest := None\<rparr>))))"

definition quic_transport :: "'e quic_world_scheme transport" where
  "quic_transport =
     \<lparr>t_send = quic_send, t_recv = quic_recv, t_send_file = quic_send_file, t_recv_file = quic_recv_file\<rparr>"

section \<open>What a pump does\<close>

text \<open>The stream bytes the library is still to deliver, and those it delivered.\<close>

definition callback_data :: "callback \<Rightarrow> u8 list" where
  "callback_data c = (case c of Stream_data _ d \<Rightarrow> d | _ \<Rightarrow> [])"

definition future :: "'e quic_world_scheme \<Rightarrow> u8 list" where
  "future w = concat (map (\<lambda>(cbs, _). concat (map callback_data cbs)) (lib_reads w))"

definition taken_count :: "'e quic_world_scheme \<Rightarrow> u8 list \<Rightarrow> nat" where
  "taken_count w d = (if recv_buf w = [] then min (length d) (recv_dest_len w - recv_dest_got w) else 0)"

text \<open>\<open>absorbed d w w'\<close>: the bytes \<open>d\<close> arrived, for the waiting file as far as it wants them.\<close>

definition absorbed :: "u8 list \<Rightarrow> 'e quic_world_scheme \<Rightarrow> 'e quic_world_scheme \<Rightarrow> bool" where
  "absorbed d w w' \<longleftrightarrow> recv_dest w' = recv_dest w \<and> recv_dest_len w' = recv_dest_len w \<and>
     (case recv_dest w of
        None \<Rightarrow> recv_buf w' = recv_buf w @ d \<and> files w' = files w
      | Some (p, off) \<Rightarrow>
          recv_buf w' = recv_buf w @ drop (taken_count w d) d \<and>
          recv_dest_got w' = recv_dest_got w + taken_count w d \<and>
          files w' = (files w)(p \<mapsto> write_at (contents w p) (off + recv_dest_got w) (take (taken_count w d) d)))"

definition dest_ok :: "'e quic_world_scheme \<Rightarrow> bool" where
  "dest_ok w \<longleftrightarrow>
     (\<forall>p off. recv_dest w = Some (p, off) \<longrightarrow> recv_dest_got w \<le> recv_dest_len w \<and>
        (\<exists>c. files w p = Some c \<and> off + recv_dest_len w \<le> length c))"

text \<open>
  What is retained: from some acknowledged position on, the blocks are exactly what was written
  and \<open>pend\<close>, which is still to be written, and each ends where it says.
\<close>

primrec ends_at :: "nat \<Rightarrow> (nat \<times> u8 list) list \<Rightarrow> bool" where
  "ends_at s [] = True"
| "ends_at s (u # us) = (fst u = s + length (snd u) \<and> ends_at (fst u) us)"

definition kept :: "u8 list \<Rightarrow> 'e quic_world_scheme \<Rightarrow> bool" where
  "kept pend w \<longleftrightarrow> stream_offset w = length (accepted w) \<and> lib_acked w \<le> length (accepted w) \<and>
     (\<exists>s \<le> lib_acked w. drop s (accepted w) @ pend = concat (map snd (unacked w)) \<and> ends_at s (unacked w))"

definition zc_ok :: "'e quic_world_scheme \<Rightarrow> bool" where
  "zc_ok w \<longleftrightarrow> (\<forall>z. q_zc w = Some z \<longrightarrow> zc_inv {#} z \<and> z_slots z \<le> r_entries z \<and> z_err z \<noteq> EAGAIN)"

text \<open>At most one CONNECTION_CLOSE, and none before the connection is marked closed.\<close>

definition frames_ok :: "'e quic_world_scheme \<Rightarrow> bool" where
  "frames_ok w \<longleftrightarrow> length (close_frames w) \<le> (if quic_closed w then 1 else 0)"

definition pumped :: "'e quic_world_scheme \<Rightarrow> 'e quic_world_scheme \<Rightarrow> bool" where
  "pumped w w' \<longleftrightarrow>
     fds w' = fds w \<and> next_fd w' = next_fd w \<and> bad_closes w' = bad_closes w \<and> later w w' \<and>
     accepted w' = accepted w \<and> page_bits w' = page_bits w \<and>
     (\<exists>d. future w = d @ future w' \<and> absorbed d w w') \<and>
     (\<forall>pend. kept pend w \<longrightarrow> kept pend w') \<and> (frames_ok w \<longrightarrow> frames_ok w')"

definition qinv :: "'e quic_world_scheme \<Rightarrow> bool" where
  "qinv w \<longleftrightarrow> dest_ok w \<and> zc_ok w"

definition qfine :: "'e quic_world_scheme \<Rightarrow> 'a res \<Rightarrow> 'e quic_world_scheme \<Rightarrow> bool" where
  "qfine w r w' \<longleftrightarrow> r \<noteq> Undef \<and> pumped w w' \<and> qinv w'"

lemma taken_count_split:
  assumes "recv_dest w = Some (p, off)" and "absorbed d w w1"
  shows "taken_count w (d @ e) = taken_count w d + taken_count w1 e"
    and "drop (taken_count w (d @ e)) (d @ e) = drop (taken_count w d) d @ drop (taken_count w1 e) e"
    and "take (taken_count w (d @ e)) (d @ e) = take (taken_count w d) d @ take (taken_count w1 e) e"
proof -
  have 1: "recv_dest_len w1 = recv_dest_len w" "recv_buf w1 = recv_buf w @ drop (taken_count w d) d"
    "recv_dest_got w1 = recv_dest_got w + taken_count w d"
    using assms by (auto simp: absorbed_def)
  consider "recv_buf w \<noteq> []" | "recv_buf w = []" "length d \<le> recv_dest_len w - recv_dest_got w"
    | "recv_buf w = []" "recv_dest_len w - recv_dest_got w < length d" by linarith
  then have "taken_count w (d @ e) = taken_count w d + taken_count w1 e \<and>
    drop (taken_count w (d @ e)) (d @ e) = drop (taken_count w d) d @ drop (taken_count w1 e) e \<and>
    take (taken_count w (d @ e)) (d @ e) = take (taken_count w d) d @ take (taken_count w1 e) e"
  proof cases
    case 1
    then show ?thesis using \<open>recv_buf w1 = _\<close> by (simp add: taken_count_def)
  next
    case 2
    then have t: "taken_count w d = length d" "recv_buf w1 = []" using 1 by (simp_all add: taken_count_def)
    then have "taken_count w1 e = min (length e) (recv_dest_len w - recv_dest_got w - length d)"
      using 1 by (simp add: taken_count_def)
    moreover have "min (length d + length e) k = length d + min (length e) (k - length d)" if "length d \<le> k" for k
      using that by linarith
    ultimately show ?thesis using 2 t by (simp add: taken_count_def)
  next
    case 3
    then have "taken_count w d = recv_dest_len w - recv_dest_got w" "recv_buf w1 \<noteq> []"
      using 1 by (simp_all add: taken_count_def)
    then show ?thesis using 3 1 by (simp add: taken_count_def min_def)
  qed
  then show "taken_count w (d @ e) = taken_count w d + taken_count w1 e"
    and "drop (taken_count w (d @ e)) (d @ e) = drop (taken_count w d) d @ drop (taken_count w1 e) e"
    and "take (taken_count w (d @ e)) (d @ e) = take (taken_count w d) d @ take (taken_count w1 e) e"
    by blast+
qed

lemma taken_count_le: "taken_count w d \<le> length d" "taken_count w d \<le> recv_dest_len w - recv_dest_got w"
  by (simp_all add: taken_count_def)

lemma absorbed_trans:
  assumes "absorbed d w w1" and "absorbed e w1 w2" and "dest_ok w"
  shows "absorbed (d @ e) w w2"
proof (cases "recv_dest w")
  case None
  then show ?thesis using assms by (simp add: absorbed_def)
next
  case (Some x)
  obtain p off where x: "x = (p, off)" by (cases x)
  note S = taken_count_split [OF Some [unfolded x] assms(1), of e]
  obtain c where c: "files w p = Some c" "off + recv_dest_len w \<le> length c" "recv_dest_got w \<le> recv_dest_len w"
    using assms(3) Some x by (auto simp: dest_ok_def)
  have "off + recv_dest_got w \<le> length c" using c by simp
  from write_at_append [OF this, of "take (taken_count w d) d" "take (taken_count w1 e) e"]
  have "write_at (write_at c (off + recv_dest_got w) (take (taken_count w d) d))
      (off + recv_dest_got w + taken_count w d) (take (taken_count w1 e) e) =
    write_at c (off + recv_dest_got w) (take (taken_count w d) d @ take (taken_count w1 e) e)"
    by (simp only: length_take min_absorb2 [OF taken_count_le(1)])
  then show ?thesis
    using assms(1,2) Some x c(1) S by (auto simp: absorbed_def contents_def add.assoc)
qed

lemma absorbed_refl: "dest_ok w \<Longrightarrow> absorbed [] w w"
  by (auto simp: absorbed_def dest_ok_def contents_def taken_count_def split: option.splits)

lemma dest_ok_absorbed:
  assumes "absorbed d w w'" and "dest_ok w"
  shows "dest_ok w'"
proof (cases "recv_dest w")
  case None
  then show ?thesis using assms by (simp add: absorbed_def dest_ok_def)
next
  case (Some x)
  obtain p off where x: "x = (p, off)" by (cases x)
  obtain c where c: "files w p = Some c" "off + recv_dest_len w \<le> length c" "recv_dest_got w \<le> recv_dest_len w"
    using assms(2) Some x by (auto simp: dest_ok_def)
  note T = taken_count_le [of w d]
  have "length (write_at c (off + recv_dest_got w) (take (taken_count w d) d)) = length c"
    by (rule length_write_at_in) (use c T in simp)
  then show ?thesis using assms(1) Some x c T by (auto simp: absorbed_def dest_ok_def contents_def)
qed

lemma pumped_refl [intro]: "dest_ok w \<Longrightarrow> pumped w w"
  by (auto simp: pumped_def intro: absorbed_refl)

lemma pumped_trans:
  assumes "pumped w w1" and "pumped w1 w2" and "dest_ok w"
  shows "pumped w w2"
proof -
  obtain d e where "future w = d @ future w1" "absorbed d w w1" "future w1 = e @ future w2" "absorbed e w1 w2"
    using assms(1,2) by (auto simp: pumped_def)
  then have "future w = (d @ e) @ future w2" "absorbed (d @ e) w w2"
    using absorbed_trans assms(3) by auto
  then show ?thesis using assms(1,2) unfolding pumped_def by (metis later_trans)
qed

section \<open>Single steps\<close>

lemma pumped_frame:
  assumes "fds w' = fds w" "next_fd w' = next_fd w" "bad_closes w' = bad_closes w" "files w' = files w" "later w w'"
    "accepted w' = accepted w" "page_bits w' = page_bits w" "lib_reads w' = lib_reads w"
    "recv_dest w' = recv_dest w" "recv_dest_len w' = recv_dest_len w" "recv_dest_got w' = recv_dest_got w"
    "recv_buf w' = recv_buf w" "unacked w' = unacked w" "stream_offset w' = stream_offset w" "lib_acked w' = lib_acked w"
    "frames_ok w \<longrightarrow> frames_ok w'" and "dest_ok w"
  shows "pumped w w'"
proof -
  have "absorbed [] w w'" using absorbed_refl [OF assms(17)] assms(1-16)
    by (auto simp: absorbed_def taken_count_def split: option.splits)
  moreover have "future w' = future w" using assms(8) by (simp add: future_def)
  moreover have "kept pend w' = kept pend w" for pend using assms by (simp add: kept_def)
  ultimately show ?thesis using assms by (auto simp: pumped_def)
qed

lemma qinv_frame:
  assumes "files w' = files w" "recv_dest w' = recv_dest w" "recv_dest_len w' = recv_dest_len w"
    "recv_dest_got w' = recv_dest_got w" "q_zc w' = q_zc w" and "qinv w"
  shows "qinv w'"
  using assms by (simp add: qinv_def dest_ok_def zc_ok_def)

lemma later_quic [simp]:
  "later w (w1\<lparr>clock := a1\<rparr>) = later w w1" "later w (w1\<lparr>lib_expiries := a2\<rparr>) = later w w1"
  "later w (w1\<lparr>lib_timers := a3\<rparr>) = later w w1" "later w (w1\<lparr>lib_ending := a4\<rparr>) = later w w1"
  "later w (w1\<lparr>lib_close := a5\<rparr>) = later w w1" "later w (w1\<lparr>lib_handshake := a6\<rparr>) = later w w1"
  "later w (w1\<lparr>lib_writes := a7\<rparr>) = later w w1" "later w (w1\<lparr>lib_reads := a8\<rparr>) = later w w1"
  "later w (w1\<lparr>q_zc := a9\<rparr>) = later w w1" "later w (w1\<lparr>egress_init := b1\<rparr>) = later w w1"
  "later w (w1\<lparr>quic_closed := b2\<rparr>) = later w w1" "later w (w1\<lparr>stream_id := b3\<rparr>) = later w w1"
  "later w (w1\<lparr>close_frames := b4\<rparr>) = later w w1" "later w (w1\<lparr>fin_sent := b5\<rparr>) = later w w1"
  "later w (w1\<lparr>accepted := b6\<rparr>) = later w w1" "later w (w1\<lparr>stream_offset := b7\<rparr>) = later w w1"
  "later w (w1\<lparr>recv_buf := b8\<rparr>) = later w w1" "later w (w1\<lparr>unacked := b9\<rparr>) = later w w1"
  "later w (w1\<lparr>recv_dest := c1\<rparr>) = later w w1" "later w (w1\<lparr>lib_acked := c2\<rparr>) = later w w1"
  by (simp_all add: later_def)

lemma later_errno [simp]: "later w (w1\<lparr>errno := e\<rparr>) = later w w1"
  by (simp add: later_def)

text \<open>Steps that touch nothing of the stream.\<close>

definition quiet_step :: "'e quic_world_scheme \<Rightarrow> 'e quic_world_scheme \<Rightarrow> bool" where
  "quiet_step w w' \<longleftrightarrow> pumped w w' \<and> (qinv w \<longrightarrow> qinv w') \<and> quic_closed w' = quic_closed w \<and> q_zc w' = q_zc w
     \<and> close_frames w' = close_frames w \<and> unacked w' = unacked w \<and> stream_offset w' = stream_offset w
     \<and> recv_buf w' = recv_buf w \<and> conn w' = conn w"

lemma quiet_stepI:
  assumes "fds w' = fds w" "next_fd w' = next_fd w" "bad_closes w' = bad_closes w" "files w' = files w" "later w w'"
    "accepted w' = accepted w" "page_bits w' = page_bits w" "lib_reads w' = lib_reads w"
    "recv_dest w' = recv_dest w" "recv_dest_len w' = recv_dest_len w" "recv_dest_got w' = recv_dest_got w"
    "recv_buf w' = recv_buf w" "unacked w' = unacked w" "stream_offset w' = stream_offset w" "lib_acked w' = lib_acked w"
    "close_frames w' = close_frames w" "quic_closed w' = quic_closed w" "q_zc w' = q_zc w" "conn w' = conn w"
    and "dest_ok w"
  shows "quiet_step w w'"
proof -
  have "frames_ok w' = frames_ok w" using assms by (simp add: frames_ok_def)
  then have "pumped w w'" by (intro pumped_frame) (use assms in simp_all)
  then show ?thesis using qinv_frame [of w' w] assms by (simp add: quiet_step_def)
qed

lemma wp_take_answer:
  "wp True (take_answer get put) Q w \<longleftrightarrow> (\<forall>x xs. get w = x # xs \<longrightarrow> Q (Ok x) (put xs w))"
  by (auto simp: wp_def take_answer_def split: list.splits)

lemma qinv_dest [simp]: "qinv w \<Longrightarrow> dest_ok w"
  by (simp add: qinv_def)

lemma sys_next_quiet:
  assumes "sys_next w = Some (x, w1)" and "qinv w"
  shows "quiet_step w w1" "quiet_step w (w1\<lparr>errno := e\<rparr>)"
  using assms by (auto simp: sys_next_def split: list.splits intro!: quiet_stepI later_tl)

text \<open>Results with a step.\<close>

definition quietly :: "'e quic_world_scheme \<Rightarrow> ('a \<Rightarrow> 'e quic_world_scheme \<Rightarrow> bool) \<Rightarrow> 'a res \<Rightarrow> 'e quic_world_scheme \<Rightarrow> bool" where
  "quietly w P r w' \<longleftrightarrow> quiet_step w w' \<and> (\<exists>x. r = Ok x \<and> P x w')"

lemma lib_quiet:
  assumes "qinv w"
  shows "wp True now_ns (quietly w (\<lambda>_ _. True)) w" "wp True conn_get_expiry (quietly w (\<lambda>_ _. True)) w"
    "wp True conn_handle_expiry (quietly w (\<lambda>_ _. True)) w" "wp True conn_is_ending (quietly w (\<lambda>_ _. True)) w"
    "wp True conn_write_connection_close (quietly w (\<lambda>_ _. True)) w"
    "wp True conn_get_handshake_completed (quietly w (\<lambda>_ _. True)) w"
    "wp True (conn_writev_stream []) (quietly w (\<lambda>_ _. True)) w"
  using assms
  by (auto simp: now_ns_def conn_get_expiry_def conn_handle_expiry_def conn_is_ending_def
      conn_write_connection_close_def conn_get_handshake_completed_def conn_writev_stream_def
      wp_take_answer wp_simps quietly_def Let_def split: write_result.split intro!: quiet_stepI)

lemma sys_quiet:
  assumes "qinv w"
  shows "wp True (sys (sys_select tv)) (quietly w (\<lambda>_ _. True)) w"
    "wp True (sys sys_recvmsg) (quietly w (\<lambda>_ _. True)) w"
    "wp True (sys sys_sendmsg) (quietly w (\<lambda>_ _. True)) w"
    "wp True (sys (sys_map_file fd)) (quietly w (\<lambda>m w'. case m of None \<Rightarrow> True | Some p \<Rightarrow>
       \<exists>f. fds w fd = Some f \<and> of_path f = p)) w"
  using assms sys_next_quiet [OF _ assms]
  by (auto simp: wp_sys sys_select_def sys_recvmsg_def sys_sendmsg_def sys_map_file_def quietly_def
      split: option.splits sysret.splits if_splits) (auto simp: sys_next_def split: list.splits)

section \<open>Sequences of steps\<close>

lemma qfine_step:
  assumes "pumped w w1" and "dest_ok w" and "qfine w1 r w'"
  shows "qfine w r w'"
  using assms pumped_trans by (auto simp: qfine_def)

lemma qf_bind:
  assumes m: "wp True m (qfine w) w" and w: "qinv w"
    and f: "\<And>x w'. pumped w w' \<Longrightarrow> qinv w' \<Longrightarrow> wp True (f x) (qfine w') w'"
  shows "wp True (io_bind m f) (qfine w) w"
  unfolding wp_bind
proof (rule wp_mono [OF m], goal_cases)
  case (1 r w1)
  then have p: "r \<noteq> Undef" "pumped w w1" "qinv w1" by (simp_all add: qfine_def)
  show ?case
  proof (cases r)
    case (Ok x)
    have "wp True (f x) (qfine w) w1"
      by (rule wp_mono [OF f [OF p(2,3)]]) (rule qfine_step [OF p(2) qinv_dest [OF w]])
    then show ?thesis using Ok by simp
  qed (use p in \<open>simp_all add: qfine_def\<close>)
qed

text \<open>After a quiet step what was known of the connection still holds.\<close>

lemma qf_quiet:
  assumes m: "wp True m (quietly w P) w" and w: "qinv w"
    and f: "\<And>x w'. quiet_step w w' \<Longrightarrow> qinv w' \<Longrightarrow> P x w' \<Longrightarrow> wp True (f x) (qfine w') w'"
  shows "wp True (io_bind m f) (qfine w) w"
  unfolding wp_bind
proof (rule wp_mono [OF m], goal_cases)
  case (1 r w1)
  then obtain x where r: "r = Ok x" "quiet_step w w1" "P x w1" by (auto simp: quietly_def)
  then have p: "pumped w w1" "qinv w1" using w by (simp_all add: quiet_step_def)
  have "wp True (f x) (qfine w) w1"
    by (rule wp_mono [OF f [OF r(2) p(2) r(3)]]) (rule qfine_step [OF p(1) qinv_dest [OF w]])
  then show ?case using r(1) by simp
qed

lemma qf_get: "wp True (f (g w)) (qfine w) w \<Longrightarrow> wp True (io_bind (io_get g) f) (qfine w) w"
  by (simp add: wp_simps)

lemma qf_ret: "qinv w \<Longrightarrow> wp True (io_ret x) (qfine w) w"
  by (auto simp: wp_simps qfine_def)

lemma qf_throw: "qinv w \<Longrightarrow> wp True (io_throw e) (qfine w) w"
  by (auto simp: wp_simps qfine_def)

lemma qf_modify: "qinv (f w) \<Longrightarrow> pumped w (f w) \<Longrightarrow> wp True (io_modify f) (qfine w) w"
  by (simp add: wp_simps qfine_def)

lemma qf_set:
  assumes "pumped w (f w)" and "dest_ok w" and "wp True (g ()) (qfine (f w)) (f w)"
  shows "wp True (io_bind (io_modify f) g) (qfine w) w"
  using wp_mono [OF assms(3) qfine_step [OF assms(1,2)]] by (simp add: wp_simps)

lemma qf_if: "(b \<Longrightarrow> wp True m (qfine w) w) \<Longrightarrow> (\<not> b \<Longrightarrow> wp True n (qfine w) w) \<Longrightarrow> wp True (if b then m else n) (qfine w) w"
  by simp

section \<open>Egress keeps the stream\<close>

lemma zc_frame:
  assumes "qinv w" and "\<And>z. y = Some z \<Longrightarrow> zc_inv {#} z \<and> z_slots z \<le> r_entries z \<and> z_err z \<noteq> EAGAIN"
  shows "qinv (w\<lparr>q_zc := y\<rparr>)" "pumped w (w\<lparr>q_zc := y\<rparr>)"
  using assms by (auto simp: qinv_def dest_ok_def zc_ok_def frames_ok_def intro!: pumped_frame)

lemma on_zc_wp:
  assumes z: "q_zc w = Some z" and m: "wp True m Q z" and w: "qinv w"
    and Q: "\<And>r z'. Q r z' \<Longrightarrow> r \<noteq> Undef \<and> zc_inv {#} z' \<and> same_pool z z'"
  shows "wp True (on_zc m) (\<lambda>r w'. qfine w r w' \<and> (\<exists>z'. q_zc w' = Some z' \<and> w' = w\<lparr>q_zc := Some z'\<rparr> \<and> Q r z')) w"
proof (rule wpI)
  fix r w' assume run: "on_zc m w = Some (r, w')"
  then obtain z' where z': "m z = Some (r, z')" "w' = w\<lparr>q_zc := Some z'\<rparr>"
    using z by (auto simp: on_zc_def split: option.splits)
  have q: "Q r z'" by (rule wpD [OF m z'(1)])
  have "zc_inv {#} z' \<and> z_slots z' \<le> r_entries z' \<and> z_err z' \<noteq> EAGAIN"
    using Q [OF q] w z by (auto simp: same_pool_def qinv_def zc_ok_def)
  then show "qfine w r w' \<and> (\<exists>z'. q_zc w' = Some z' \<and> w' = w\<lparr>q_zc := Some z'\<rparr> \<and> Q r z')"
    using zc_frame [OF w, of "Some z'"] Q [OF q] q z'(2) by (simp add: qfine_def)
qed

lemma qinv_zc: "qinv w \<Longrightarrow> q_zc w = Some z \<Longrightarrow> zc_inv {#} z"
  by (auto simp: qinv_def zc_ok_def)

lemma zc_fine:
  assumes "q_zc w = Some z" and w: "qinv w"
  shows "wp True (on_zc zc_reserve) (qfine w) w" "wp True (on_zc zc_flush) (qfine w) w"
    "wp True (on_zc (zc_get f)) (\<lambda>r w'. r = Ok (f z) \<and> w' = w) w"
proof -
  note i = qinv_zc [OF w assms(1)]
  show "wp True (on_zc zc_reserve) (qfine w) w"
    by (rule wp_mono [OF on_zc_wp [OF assms(1) reserve_wp [OF i] w]]) auto
  show "wp True (on_zc zc_flush) (qfine w) w"
    by (rule wp_mono [OF on_zc_wp [OF assms(1) flush_fine [OF i] w]]) (auto simp: fine_def keeps_same_pool)
  show "wp True (on_zc (zc_get f)) (\<lambda>r w'. r = Ok (f z) \<and> w' = w) w"
    using assms(1) by (simp add: wp_def on_zc_def zc_get_def)
qed

lemma wp_zc_get: "q_zc w = Some z \<Longrightarrow> wp b (on_zc (zc_get f)) Q w = Q (Ok (f z)) w"
proof -
  assume z: "q_zc w = Some z"
  then have e: "w\<lparr>q_zc := Some z\<rparr> = w" by (intro quic_world.equality) simp_all
  show ?thesis unfolding wp_def on_zc_def zc_get_def z option.case prod.case e ..
qed

lemma zc_reset_fine:
  assumes "qinv w"
  shows "wp True zc_reset (\<lambda>r w'. qfine w r w' \<and> r = Ok () \<and> w' = w\<lparr>q_zc := None\<rparr>) w"
proof (cases "q_zc w")
  case None
  then have "w\<lparr>q_zc := None\<rparr> = w" by simp
  then show ?thesis using None assms by (auto simp: zc_reset_def wp_simps qfine_def)
next
  case (Some z)
  have "\<exists>b. r = Ok b" if "zc_destroy z = Some (r, z')" for r z'
    using wpD [OF destroy_wp [OF qinv_zc [OF assms Some]] that] by blast
  then show ?thesis
    using Some zc_frame [OF assms, of None]
    by (fastforce simp: zc_reset_def wp_def io_get_def io_modify_def io_bind_def on_zc_def qfine_def split: option.splits res.splits)
qed

lemma zc_reset_qfine: "qinv w \<Longrightarrow> wp True zc_reset (qfine w) w"
  by (rule wp_mono [OF zc_reset_fine]) simp_all

lemma setup_zc_fine:
  assumes w1: "qinv w1"
  shows "wp True (case ZcEgress QUIC_MAX_PKTLEN QUIC_ZC_SLOTS rv (QUIC_ZC_SLOTS * 2) reg scr of
            Ok z \<Rightarrow> io_bind (io_modify (\<lambda>w. w\<lparr>q_zc := Some z\<rparr>)) (\<lambda>_. if \<not> z_registered z then zc_reset else io_ret ())
          | Throw _ \<Rightarrow> zc_reset | Undef \<Rightarrow> io_undef) (qfine w1) w1"
proof (cases "ZcEgress QUIC_MAX_PKTLEN QUIC_ZC_SLOTS rv (QUIC_ZC_SLOTS * 2) reg scr")
  case (Ok z)
  have z: "zc_inv {#} z" "z_slots z = QUIC_ZC_SLOTS" "r_entries z = QUIC_ZC_SLOTS * 2" "z_err z = 0"
    using init_inv [OF Ok] Ok by (auto simp: ZcEgress_def split: if_splits)
  have "zc_inv {#} z \<and> z_slots z \<le> r_entries z \<and> z_err z \<noteq> EAGAIN" using z by (simp add: EAGAIN_def)
  then have w2: "qinv (w1\<lparr>q_zc := Some z\<rparr>)" "pumped w1 (w1\<lparr>q_zc := Some z\<rparr>)"
    using zc_frame [OF w1, of "Some z"] by auto
  then show ?thesis unfolding Ok res.case
    by (intro qf_set) (use w1 in \<open>auto intro: zc_reset_qfine qf_ret\<close>)
next
  case (Throw e)
  then show ?thesis using w1 by (simp add: zc_reset_qfine)
next
  case Undef
  then show ?thesis by (simp add: ZcEgress_def split: if_splits)
qed

lemma init_egress_fine:
  assumes "qinv w"
  shows "wp True init_egress (qfine w) w"
  unfolding init_egress_def
proof (rule qf_get, rule qf_if, goal_cases)
  case 1
  then show ?case using assms by (simp add: qf_ret)
next
  case 2
  let ?w = "w\<lparr>egress_init := True\<rparr>"
  have q: "quiet_step w ?w" by (rule quiet_stepI) (use assms in simp_all)
  then have w: "pumped w ?w" "qinv ?w" using assms by (simp_all add: quiet_step_def)
  show ?case
  proof (rule qf_set, goal_cases)
    case 3
    show ?case
    proof (rule qf_get, rule qf_if, goal_cases)
      case 1
      then show ?case using w by (simp add: qf_ret)
    next
      case 2
      define w1 where "w1 = ?w"
      have w1: "qinv w1" using w by (simp add: w1_def)
      obtain rv reg scr where s: "zc_setup w1 = (rv, reg, scr)" by (cases "zc_setup w1")
      show ?case unfolding w1_def [symmetric]
        by (rule qf_get) (use setup_zc_fine [OF w1] s in simp)
    qed
  qed (use w assms in simp_all)
qed

lemma begin_packet_fine:
  assumes "qinv w"
  shows "wp True begin_packet (qfine w) w"
  unfolding begin_packet_def
proof (rule qf_bind [OF init_egress_fine [OF assms] assms], rule qf_get, goal_cases)
  case (1 x w1)
  show ?case
  proof (cases "q_zc w1")
    case None
    then show ?thesis using 1 by (simp add: qf_ret)
  next
    case (Some z)
    show ?thesis unfolding Some
      by simp (rule qf_bind [OF zc_fine(1) [OF Some 1(2)] 1(2)], auto intro: zc_reset_qfine qf_ret)
  qed
qed

lemma flush_packets_fine:
  assumes "qinv w"
  shows "wp True flush_packets (qfine w) w"
  unfolding flush_packets_def
proof (rule qf_get, cases "q_zc w")
  case None
  then show "wp True (if q_zc w = None then io_ret ()
       else io_bind (on_zc zc_flush) (\<lambda>_.
            io_bind (on_zc (zc_get z_unsupported)) (\<lambda>u. if u then zc_reset else io_ret ()))) (qfine w) w"
    using assms by (simp add: qf_ret)
next
  case (Some z)
  have "wp True (io_bind (on_zc zc_flush) (\<lambda>_.
            io_bind (on_zc (zc_get z_unsupported)) (\<lambda>u. if u then zc_reset else io_ret ()))) (qfine w) w"
    unfolding wp_bind
  proof (rule wp_mono [OF on_zc_wp [OF Some flush_fine [OF qinv_zc [OF assms Some]] assms]], goal_cases)
    case (2 r w1)
    then obtain z1 where z1: "q_zc w1 = Some z1" "qfine w r w1" "\<exists>u. r = Ok u" by (auto simp: fine_def)
    then have p: "pumped w w1" "qinv w1" by (simp_all add: qfine_def)
    have "wp True (if u then zc_reset else io_ret ()) (qfine w) w1" for u
      using p by (auto intro!: wp_mono [OF zc_reset_qfine] wp_mono [OF qf_ret] intro: qfine_step [OF p(1) qinv_dest [OF assms]])
    then have "wp True (on_zc (zc_get z_unsupported)) (on_ok (\<lambda>u. wp True (if u then zc_reset else io_ret ()) (qfine w)) (qfine w)) w1"
      by (auto intro: wp_mono [OF zc_fine(3) [OF z1(1) p(2)]])
    then show ?case using z1(3) by auto
  qed (auto simp: fine_def keeps_same_pool)
  then show "wp True (if q_zc w = None then io_ret ()
       else io_bind (on_zc zc_flush) (\<lambda>_.
            io_bind (on_zc (zc_get z_unsupported)) (\<lambda>u. if u then zc_reset else io_ret ()))) (qfine w) w"
    using Some by simp
qed

text \<open>A datagram that fails leaves an \<^verbatim>\<open>errno\<close> that no caller takes for a reason to try again.\<close>

lemma send_packet_fine:
  assumes "qinv w"
  shows "wp True (send_packet n) (\<lambda>r w'. qfine w r w' \<and> (r = Ok Failed \<longrightarrow> errno w' \<noteq> EAGAIN)
    \<and> quic_closed w' = quic_closed w \<and> unacked w' = unacked w \<and> stream_offset w' = stream_offset w) w"
  unfolding send_packet_def wp_bind wp_state on_ok_simps
proof (cases "q_zc w")
  case None
  have "wp True (io_bind (sys sys_sendmsg) (\<lambda>rv.
           if rv < 0 then io_bind (io_get errno) (\<lambda>e. io_ret (if e = EAGAIN then Blocked else Failed))
           else io_ret Sent)) (\<lambda>r w'. qfine w r w' \<and> (r = Ok Failed \<longrightarrow> errno w' \<noteq> EAGAIN)
    \<and> quic_closed w' = quic_closed w \<and> unacked w' = unacked w \<and> stream_offset w' = stream_offset w) w"
    unfolding wp_bind
    by (rule wp_mono [OF sys_quiet(3) [OF assms]])
      (use assms in \<open>auto simp: quietly_def quiet_step_def qfine_def wp_simps\<close>)
  then show "wp True (if q_zc w \<noteq> None then io_bind (on_zc (zc_commit n)) (\<lambda>ok.
           if ok then io_ret Sent
           else io_bind (on_zc (zc_get z_err)) (\<lambda>e.
                io_bind (io_modify (\<lambda>w. w\<lparr>errno := (if e \<noteq> 0 then e else EIO)\<rparr>)) (\<lambda>_. io_ret Failed)))
       else io_bind (sys sys_sendmsg) (\<lambda>rv.
           if rv < 0 then io_bind (io_get errno) (\<lambda>e. io_ret (if e = EAGAIN then Blocked else Failed))
           else io_ret Sent)) (\<lambda>r w'. qfine w r w' \<and> (r = Ok Failed \<longrightarrow> errno w' \<noteq> EAGAIN)
    \<and> quic_closed w' = quic_closed w \<and> unacked w' = unacked w \<and> stream_offset w' = stream_offset w) w"
    using None by simp
next
  case (Some z)
  let ?Q = "\<lambda>r w'. qfine w r w' \<and> (r = Ok Failed \<longrightarrow> errno w' \<noteq> EAGAIN)
    \<and> quic_closed w' = quic_closed w \<and> unacked w' = unacked w \<and> stream_offset w' = stream_offset w"
  have "wp True (io_bind (on_zc (zc_commit n)) (\<lambda>ok.
           if ok then io_ret Sent
           else io_bind (on_zc (zc_get z_err)) (\<lambda>e.
                io_bind (io_modify (\<lambda>w. w\<lparr>errno := (if e \<noteq> 0 then e else EIO)\<rparr>)) (\<lambda>_. io_ret Failed)))) ?Q w"
    unfolding wp_bind
  proof (rule wp_mono [OF on_zc_wp [OF Some commit_wp [OF qinv_zc [OF assms Some]] assms]], goal_cases)
    case (2 r w1)
    then obtain z1 where z1: "q_zc w1 = Some z1" "w1 = w\<lparr>q_zc := Some z1\<rparr>" and q: "qfine w r w1" by blast
    then have p: "pumped w w1" "qinv w1" and err: "z_err z1 \<noteq> EAGAIN" by (auto simp: qfine_def qinv_def zc_ok_def)
    have e: "quiet_step w1 (w1\<lparr>errno := x\<rparr>)" for x by (rule quiet_stepI) (use p(2) in simp_all)
    have "qfine w (Ok Failed) (w1\<lparr>errno := x\<rparr>)" for x
      using qfine_step [OF p(1) qinv_dest [OF assms], of "Ok Failed"] e p(2) by (simp add: qfine_def quiet_step_def)
    then have f: "wp True (on_zc (zc_get z_err)) (on_ok (\<lambda>e. wp True (io_bind
        (io_modify (\<lambda>w. w\<lparr>errno := (if e \<noteq> 0 then e else EIO)\<rparr>)) (\<lambda>_. io_ret Failed)) ?Q) ?Q) w1"
      unfolding wp_zc_get [OF z1(1)] using err z1(2) by (simp add: wp_simps EIO_def EAGAIN_def)
    show ?case
    proof (cases r)
      case (Ok ok)
      show ?thesis
      proof (cases ok)
        case True
        then show ?thesis using Ok q z1(2) by (simp add: wp_simps qfine_def)
      next
        case False
        then show ?thesis unfolding Ok on_ok_simps wp_if wp_bind [of _ "on_zc _"] using f by simp
      qed
    qed (use q z1(2) in \<open>simp_all add: qfine_def\<close>)
  qed auto
  then show "wp True (if q_zc w \<noteq> None then io_bind (on_zc (zc_commit n)) (\<lambda>ok.
           if ok then io_ret Sent
           else io_bind (on_zc (zc_get z_err)) (\<lambda>e.
                io_bind (io_modify (\<lambda>w. w\<lparr>errno := (if e \<noteq> 0 then e else EIO)\<rparr>)) (\<lambda>_. io_ret Failed)))
       else io_bind (sys sys_sendmsg) (\<lambda>rv.
           if rv < 0 then io_bind (io_get errno) (\<lambda>e. io_ret (if e = EAGAIN then Blocked else Failed))
           else io_ret Sent)) ?Q w"
    using Some by simp
qed

lemma send_packet_qfine: "qinv w \<Longrightarrow> wp True (send_packet n) (qfine w) w"
  by (rule wp_mono [OF send_packet_fine]) simp_all

section \<open>Callbacks keep the stream\<close>

text \<open>Like \<open>pumped\<close>, with the arriving bytes named and the library's script left alone.\<close>

definition called :: "u8 list \<Rightarrow> 'e quic_world_scheme \<Rightarrow> 'e quic_world_scheme \<Rightarrow> bool" where
  "called d w w' \<longleftrightarrow>
     fds w' = fds w \<and> next_fd w' = next_fd w \<and> bad_closes w' = bad_closes w \<and> later w w' \<and>
     accepted w' = accepted w \<and> page_bits w' = page_bits w \<and> lib_reads w' = lib_reads w \<and>
     absorbed d w w' \<and> (\<forall>pend. kept pend w \<longrightarrow> kept pend w') \<and> (frames_ok w \<longrightarrow> frames_ok w') \<and>
     q_zc w' = q_zc w \<and> quic_closed w' = quic_closed w"

lemma called_trans: "called d w w1 \<Longrightarrow> called e w1 w2 \<Longrightarrow> dest_ok w \<Longrightarrow> called (d @ e) w w2"
  by (auto simp: called_def intro: absorbed_trans later_trans)

lemma called_quiet: "quiet_step w w' \<Longrightarrow> lib_reads w' = lib_reads w \<Longrightarrow> files w' = files w \<Longrightarrow>
    recv_dest w' = recv_dest w \<Longrightarrow> recv_dest_len w' = recv_dest_len w \<Longrightarrow> recv_dest_got w' = recv_dest_got w \<Longrightarrow>
    dest_ok w \<Longrightarrow> called [] w w'"
  using absorbed_refl [of w]
  by (auto simp: called_def quiet_step_def pumped_def absorbed_def taken_count_def split: option.splits)

lemma qinv_called: "called d w w' \<Longrightarrow> qinv w \<Longrightarrow> qinv w'"
  using dest_ok_absorbed by (auto simp: called_def qinv_def zc_ok_def)

text \<open>Dropping acknowledged blocks.\<close>

lemma drop_acked:
  assumes "ends_at s us" and "drop s A @ pend = concat (map snd us)" and "s \<le> a" and "a \<le> length A"
  shows "\<exists>s' \<le> a. drop s' A @ pend = concat (map snd (dropWhile (\<lambda>u. fst u \<le> a) us)) \<and>
    ends_at s' (dropWhile (\<lambda>u. fst u \<le> a) us)"
  using assms
proof (induction us arbitrary: s)
  case Nil
  then show ?case by auto
next
  case (Cons u us)
  show ?case
  proof (cases "fst u \<le> a")
    case False
    then show ?thesis using Cons.prems by auto
  next
    case True
    have len: "fst u = s + length (snd u)" "fst u \<le> length A" using Cons.prems(1,4) True by simp_all
    have "drop (length (snd u)) (drop s A @ pend) = concat (map snd us)" using Cons.prems(2) by simp
    then have "drop (fst u) A @ pend = concat (map snd us)" using len by (simp add: add.commute)
    then show ?thesis using Cons.IH [of "fst u"] Cons.prems True by auto
  qed
qed

lemma kept_acked:
  assumes "kept pend w" and "lib_acked w \<le> a" and "a \<le> length (accepted w)"
  shows "kept pend (w\<lparr>lib_acked := a, unacked := dropWhile (\<lambda>u. fst u \<le> a) (unacked w), freed := fr\<rparr>)"
proof -
  obtain s where "s \<le> lib_acked w" "drop s (accepted w) @ pend = concat (map snd (unacked w))" "ends_at s (unacked w)"
    and w: "stream_offset w = length (accepted w)"
    using assms(1) by (auto simp: kept_def)
  from drop_acked [OF this(3,2) _ assms(3)] this(1) assms(2) show ?thesis
    using w assms(3) by (simp add: kept_def)
qed

lemma length_padded: "length c \<le> length (padded w c)"
  by (simp add: padded_def)

lemma run_callback_fine:
  assumes "qinv w"
  shows "wp True (run_callback c) (\<lambda>r w'. r = Ok () \<and> called (callback_data c) w w') w"
proof (cases c)
  case (Stream_open sid)
  have "quiet_step w (w\<lparr>stream_id := sid\<rparr>)" by (rule quiet_stepI) (use assms in simp_all)
  then show ?thesis using Stream_open assms
    by (simp add: run_callback_def on_stream_open_def wp_simps callback_data_def called_quiet)
next
  case (Acked d)
  let ?n = "min d (length (accepted w) - lib_acked w)"
  let ?a = "lib_acked w + ?n"
  let ?w = "w\<lparr>lib_acked := ?a, unacked := dropWhile (\<lambda>u. fst u \<le> ?a) (unacked w),
    freed := freed w @ takeWhile (\<lambda>u. fst u \<le> ?a) (unacked w)\<rparr>"
  have "absorbed [] w ?w" using absorbed_refl [of w] assms
    by (auto simp: absorbed_def taken_count_def split: option.splits)
  moreover have "kept pend ?w" if "kept pend w" for pend
    by (rule kept_acked [OF that]) (use that in \<open>auto simp: kept_def min_def\<close>)
  ultimately have "called [] w ?w" by (simp add: called_def frames_ok_def later_def) (rule exI [of _ 0], simp)
  then show ?thesis using Acked
    by (simp add: run_callback_def on_acked_stream_data_offset_def wp_simps callback_data_def Let_def)
next
  case (Stream_data fin data)
  show ?thesis
  proof (cases "recv_dest w")
    case None
    then show ?thesis using Stream_data assms
      by (simp add: run_callback_def on_recv_stream_data_def wp_simps callback_data_def called_def absorbed_def
          kept_def frames_ok_def) (simp add: later_def, rule exI [of _ 0], simp)
  next
    case (Some x)
    obtain p off where x: "x = (p, off)" by (cases x)
    obtain c where c: "files w p = Some c" "off + recv_dest_len w \<le> length c" "recv_dest_got w \<le> recv_dest_len w"
      using assms Some x by (auto simp: qinv_def dest_ok_def)
    let ?k = "taken_count w data"
    have k: "?k \<le> length data" "recv_dest_got w + ?k \<le> recv_dest_len w"
      using taken_count_le [of w data] c(3) by simp_all
    let ?bs = "take ?k data" and ?o = "off + recv_dest_got w"
    have in_range: "?o + length ?bs \<le> length c" using k c(2) by simp
    have len: "length (write_at c ?o ?bs) = length c" by (rule length_write_at_in [OF in_range])
    let ?w = "w\<lparr>files := (files w)(p \<mapsto> write_at c ?o ?bs), recv_dest_got := recv_dest_got w + ?k,
      recv_buf := recv_buf w @ drop ?k data, stream_fin_received := (stream_fin_received w \<or> fin)\<rparr>"
    have "called data w ?w"
      using Some x c(1) by (simp add: called_def absorbed_def kept_def frames_ok_def contents_def later_def)
        (rule exI [of _ 0], simp)
    moreover have "run_callback (Stream_data fin data) w = Some (Ok (), ?w)"
    proof (cases "recv_buf w = []")
      case True
      have "?o + length ?bs \<le> length (padded w c)" using in_range length_padded [of c w] by simp
      then have st: "map_store p ?o ?bs w = Some (Ok (), w\<lparr>files := (files w)(p \<mapsto> write_at c ?o ?bs)\<rparr>)"
        using c(1) len by (simp add: map_store_def contents_def)
      have k': "?k = min (length data) (recv_dest_len w - recv_dest_got w)" using True by (simp add: taken_count_def)
      show ?thesis
        using st Some x True
        by (simp add: run_callback_def on_recv_stream_data_def io_bind_def io_get_def io_modify_def k')
    next
      case False
      then have "?k = 0" "w\<lparr>files := (files w)(p \<mapsto> c)\<rparr> = w" using c(1) by (auto simp: taken_count_def fun_upd_idem)
      then show ?thesis using False Some x
        by (simp add: run_callback_def on_recv_stream_data_def io_bind_def io_get_def io_modify_def)
    qed
    ultimately show ?thesis using Stream_data by (simp add: wp_def callback_data_def)
  qed
qed

lemma callbacks_fine:
  "qinv w \<Longrightarrow> wp True (io_for cbs run_callback) (\<lambda>r w'. r = Ok () \<and> called (concat (map callback_data cbs)) w w') w"
proof (induction cbs arbitrary: w)
  case Nil
  have "quiet_step w w" by (rule quiet_stepI) (use Nil in simp_all)
  then show ?case using Nil by (simp add: wp_simps called_quiet)
next
  case (Cons c cbs)
  have "wp True (run_callback c) (on_ok (\<lambda>_. wp True (io_for cbs run_callback)
      (\<lambda>r w'. r = Ok () \<and> called (callback_data c @ concat (map callback_data cbs)) w w'))
      (\<lambda>r w'. r = Ok () \<and> called (callback_data c @ concat (map callback_data cbs)) w w')) w"
  proof (rule wp_mono [OF run_callback_fine [OF Cons.prems]], goal_cases)
    case (1 r w1)
    then have c: "called (callback_data c) w w1" "r = Ok ()" by simp_all
    show ?case unfolding c(2) on_ok_simps
      by (rule wp_mono [OF Cons.IH [OF qinv_called [OF c(1) Cons.prems]]])
        (use called_trans [OF c(1)] Cons.prems in simp)
  qed
  then show ?case by (simp add: wp_simps)
qed

lemma feed_data_fine:
  assumes "qinv w"
  shows "wp True feed_data (\<lambda>r w'. qfine w r w' \<and> quic_closed w' = quic_closed w) w"
  unfolding feed_data_def wp_bind wp_take_answer on_ok_simps
proof (intro allI impI)
  fix x xs assume s: "lib_reads w = x # xs"
  obtain cbs rv where x: "x = (cbs, rv)" by (cases x)
  let ?w1 = "w\<lparr>lib_reads := xs\<rparr>" and ?d = "concat (map callback_data cbs)"
  have fut: "future w = ?d @ future ?w1" using s x by (simp add: future_def)
  have q1: "qinv ?w1" using assms by (simp add: qinv_def dest_ok_def zc_ok_def)
  have step: "qfine w (Ok rv) w' \<and> quic_closed w' = quic_closed w" if c: "called ?d ?w1 w'" for w'
  proof -
    have "absorbed ?d w w'" using c
      by (auto simp: called_def absorbed_def taken_count_def contents_def split: option.splits)
    moreover have "future ?w1 = future w'" using c by (simp add: called_def future_def)
    moreover have "kept pend ?w1 = kept pend w" for pend by (simp add: kept_def)
    then have "kept pend w'" if "kept pend w" for pend using c that by (simp add: called_def)
    moreover have "later w w'" using c by (simp add: called_def later_def)
    ultimately show ?thesis
      using c fut qinv_called [OF c q1] by (auto simp: qfine_def pumped_def called_def frames_ok_def)
  qed
  show "wp True (case x of (cbs, rv) \<Rightarrow> io_bind (io_for cbs run_callback) (\<lambda>_. io_ret rv))
      (\<lambda>r w'. qfine w r w' \<and> quic_closed w' = quic_closed w) ?w1"
    unfolding x case_prod_conv wp_bind
    by (rule wp_mono [OF callbacks_fine [OF q1]]) (use step in \<open>auto simp: wp_simps\<close>)
qed

section \<open>The pump keeps the stream\<close>

lemma drain_burst_fine: "qinv w \<Longrightarrow> wp True (drain_burst k) (qfine w) w"
proof (induction k arbitrary: w)
  case 0
  then show ?case unfolding drain_burst.simps by (rule qf_ret)
next
  case (Suc k)
  show ?case unfolding drain_burst.simps
  proof (rule qf_bind [OF begin_packet_fine [OF Suc.prems] Suc.prems], goal_cases)
    case (1 x w1)
    show ?case
    proof (rule qf_quiet [OF lib_quiet(7) [OF 1(2)] 1(2)], goal_cases)
      case (1 x w2)
      show ?case
      proof (cases x)
        case (Wrote n wd)
        show ?thesis unfolding Wrote write_result.case
          by (rule qf_bind [OF send_packet_qfine [OF 1(2)] 1(2)]) (auto intro: qf_ret Suc.IH)
      qed (use 1 in \<open>simp_all add: qf_ret\<close>)
    qed
  qed
qed

lemma drain_packets_fine:
  assumes "qinv w"
  shows "wp True drain_packets (qfine w) w"
  unfolding drain_packets_def
proof (rule qf_get, rule qf_if, goal_cases)
  case 2
  show ?case
  proof (rule qf_bind [OF drain_burst_fine [OF assms] assms], goal_cases)
    case (1 x w1)
    show ?case
    proof (cases x)
      case None
      then show ?thesis using 1 by (auto intro!: qf_bind [OF flush_packets_fine] qf_ret)
    qed (use 1 in \<open>simp add: qf_ret\<close>)
  qed
qed (use assms in \<open>simp add: qf_ret\<close>)

lemma set_closed_fine:
  assumes "qinv w"
  shows "wp True set_closed (qfine w) w"
proof -
  let ?w = "w\<lparr>quic_closed := True\<rparr>"
  have "qinv ?w" by (rule qinv_frame [OF _ _ _ _ _ assms]) simp_all
  moreover have "pumped w ?w" by (rule pumped_frame) (use assms in \<open>auto simp: frames_ok_def later_def intro: exI [of _ 0]\<close>)
  ultimately show ?thesis by (simp add: set_closed_def wp_simps qfine_def)
qed

text \<open>The closing frame is sent while the connection is not yet marked closed.\<close>

lemma send_close_fine:
  fixes w :: "'e quic_world_scheme"
  assumes "qinv w" and "\<not> quic_closed w"
  shows "wp True (send_close reason) (qfine w) w"
  unfolding send_close_def
proof (rule qf_quiet [OF lib_quiet(5) [OF assms(1)] assms(1)], goal_cases)
  case (1 nwrite w1)
  have c1: "\<not> quic_closed w1" using 1(1) assms(2) by (simp add: quiet_step_def)
  have fin: "wp True (io_modify (\<lambda>w. w\<lparr>quic_closed := True,
      close_frames := (if nwrite > 0 then close_frames w @ [reason] else close_frames w)\<rparr>)) (qfine w2) w2"
    if w2: "qinv w2" "\<not> quic_closed w2" for w2 :: "'e quic_world_scheme"
  proof (rule qf_modify)
    show "qinv (w2\<lparr>quic_closed := True, close_frames := (if nwrite > 0 then close_frames w2 @ [reason] else close_frames w2)\<rparr>)"
      by (rule qinv_frame [OF _ _ _ _ _ w2(1)]) simp_all
    show "pumped w2 (w2\<lparr>quic_closed := True, close_frames := (if nwrite > 0 then close_frames w2 @ [reason] else close_frames w2)\<rparr>)"
      by (rule pumped_frame) (use w2 in \<open>auto simp: frames_ok_def later_def intro: exI [of _ 0]\<close>)
  qed
  have "wp True (io_bind (sys sys_sendmsg) (\<lambda>_. io_ret ())) (quietly w1 (\<lambda>_ _. True)) w1"
    unfolding wp_bind
    by (rule wp_mono [OF sys_quiet(3) [OF 1(2)]]) (auto simp: wp_simps quietly_def)
  then have "wp True (if nwrite > 0 then io_bind (sys sys_sendmsg) (\<lambda>_. io_ret ()) else io_ret ()) (quietly w1 (\<lambda>_ _. True)) w1"
    using quiet_stepI [of w1 w1] 1(2) by (simp add: wp_simps quietly_def)
  then show ?case
  proof (rule qf_quiet [OF _ 1(2)])
    fix x w2 assume "quiet_step w1 w2" "qinv w2"
    then show "wp True (io_modify (\<lambda>w. w\<lparr>quic_closed := True,
        close_frames := (if nwrite > 0 then close_frames w @ [reason] else close_frames w)\<rparr>)) (qfine w2) w2"
      using fin c1 by (simp add: quiet_step_def)
  qed
qed

lemma close_is_moot_wp:
  assumes "qinv w"
  shows "wp True close_is_moot (\<lambda>r w'. qfine w r w' \<and> (r = Ok False \<longrightarrow> \<not> quic_closed w' \<and> conn w')) w"
proof -
  have closed: "qfine w (Ok True) (w1\<lparr>quic_closed := True\<rparr>)" if "pumped w w1" "qinv w1" for w1
    using wpD [OF set_closed_fine [OF that(2)], of "Ok ()"] pumped_trans [OF that(1) _ qinv_dest [OF assms]]
    by (simp add: set_closed_def io_modify_def qfine_def)
  show ?thesis
  proof (cases "\<not> conn w \<or> quic_closed w")
    case True
    then show ?thesis using closed [of w] assms pumped_refl [of w] by (simp add: close_is_moot_def wp_simps)
  next
    case False
    have "wp True conn_is_ending (on_ok (\<lambda>m. wp True (io_bind (if m then io_modify (\<lambda>w. w\<lparr>quic_closed := True\<rparr>) else io_ret ())
        (\<lambda>_. io_ret m)) (\<lambda>r w'. qfine w r w' \<and> (r = Ok False \<longrightarrow> \<not> quic_closed w' \<and> conn w')))
        (\<lambda>r w'. qfine w r w' \<and> (r = Ok False \<longrightarrow> \<not> quic_closed w' \<and> conn w'))) w"
      by (rule wp_mono [OF lib_quiet(4) [OF assms]])
        (use closed False assms in \<open>auto simp: quietly_def quiet_step_def wp_simps qfine_def\<close>)
    then show ?thesis using False by (simp add: close_is_moot_def wp_simps)
  qed
qed

lemma close_error_fine:
  assumes "qinv w"
  shows "wp True (close_error e) (qfine w) w"
  unfolding close_error_def wp_bind
proof (rule wp_mono [OF close_is_moot_wp [OF assms]], goal_cases)
  case (1 r w1)
  then have p: "pumped w w1" "qinv w1" "r \<noteq> Undef" by (simp_all add: qfine_def)
  show ?case
  proof (cases r)
    case (Ok m)
    have "wp True (if m then io_ret () else send_close (if e = Crypto then Tls_alert else Liberr e)) (qfine w1) w1"
      using 1 Ok p send_close_fine by (auto intro: qf_ret)
    then show ?thesis using Ok wp_mono [OF _ qfine_step [OF p(1) qinv_dest [OF assms]]] by fastforce
  qed (use 1 in \<open>simp_all add: qfine_def\<close>)
qed

lemma pump_receive_fine:
  assumes "qinv w"
  shows "wp True pump_receive (qfine w) w"
  unfolding pump_receive_def
proof (rule qf_quiet [OF sys_quiet(2) [OF assms] assms], goal_cases)
  case (1 x w1)
  obtain nread truncated where x: "x = (nread, truncated)" by (cases x)
  have rd: "wp True (io_bind feed_data (\<lambda>rv. case rv of None \<Rightarrow> io_ret True
         | Some e \<Rightarrow> io_bind (if e = Draining \<or> e = Drop_conn then set_closed else close_error e) (\<lambda>_. io_ret False)))
       (qfine w1) w1"
  proof (rule qf_bind [OF wp_mono [OF feed_data_fine [OF 1(2)]] 1(2)], goal_cases)
    case (2 rv w2)
    show ?case
    proof (cases rv)
      case (Some e)
      have "wp True (if e = Draining \<or> e = Drop_conn then set_closed else close_error e) (qfine w2) w2"
        using 2 by (simp add: set_closed_fine close_error_fine)
      then show ?thesis unfolding Some option.case by (rule qf_bind [OF _ 2(2)]) (rule qf_ret)
    qed (use 2 in \<open>simp add: qf_ret\<close>)
  qed simp
  show ?case unfolding x case_prod_conv
    by (intro qf_if qf_get) (use 1 rd in \<open>auto intro: qf_ret\<close>)
qed

lemma pump_timers_fine:
  assumes "qinv w"
  shows "wp True pump_timers (qfine w) w"
  unfolding pump_timers_def
proof (rule qf_quiet [OF lib_quiet(2) [OF assms] assms], rule qf_quiet [OF lib_quiet(1)], assumption, assumption,
    rule qf_if, rule qf_quiet [OF lib_quiet(1)], assumption, assumption, rule qf_quiet [OF lib_quiet(3)],
    assumption, assumption, goal_cases)
  case (1 expiry w1 now w2 x w3 erv w4)
  show ?case
  proof (cases erv)
    case (Some e)
    have "wp True (if e = Idle_close then set_closed else close_error e) (qfine w4) w4"
      using 1 by (simp add: set_closed_fine close_error_fine)
    then show ?thesis unfolding Some option.case by (rule qf_bind [OF _ \<open>qinv w4\<close>]) (rule qf_ret)
  qed (use 1 in \<open>simp add: qf_ret\<close>)
qed (simp add: qf_ret)

lemma pump_once_fine:
  assumes "qinv w"
  shows "wp True (pump_once until) (qfine w) w"
  unfolding pump_once_def
proof (rule qf_get, rule qf_if, goal_cases)
  case 2
  show ?case
  proof (rule qf_quiet [OF lib_quiet(2) [OF assms] assms], rule qf_quiet [OF lib_quiet(1)], assumption, assumption,
      rule qf_quiet [OF sys_quiet(1)], assumption, assumption, rule qf_get, rule qf_if, goal_cases)
    case (2 e w1 now w2 sel w3)
    have "wp True (if sel > 0 then pump_receive else io_ret True) (qfine w3) w3"
      using 2 by (simp add: pump_receive_fine qf_ret)
    then show ?case
    proof (rule qf_bind [OF _ \<open>qinv w3\<close>], goal_cases)
      case (1 ok w4)
      have "wp True (io_bind pump_timers (\<lambda>ok. if \<not> ok then io_ret False else drain_packets)) (qfine w4) w4"
        by (rule qf_bind [OF pump_timers_fine [OF 1(2)] 1(2)]) (auto intro: qf_ret drain_packets_fine)
      then show ?case using 1 by (auto intro: qf_ret)
    qed
  qed (simp add: qf_ret)
qed (use assms in \<open>simp add: qf_ret\<close>)

section \<open>The stream\<close>

definition quic_in :: "'e quic_world_scheme \<Rightarrow> u8 list" where
  "quic_in w = recv_buf w @ future w"

definition quic_inv :: "'e quic_world_scheme \<Rightarrow> bool" where
  "quic_inv w \<longleftrightarrow> zc_ok w \<and> recv_dest w = None \<and> kept [] w \<and> frames_ok w"

text \<open>What a call leaves that wrote \<open>sent\<close>, with nothing waiting for incoming bytes.\<close>

definition streamed :: "u8 list \<Rightarrow> 'e quic_world_scheme \<Rightarrow> 'e quic_world_scheme \<Rightarrow> bool" where
  "streamed sent w w' \<longleftrightarrow> same_os w w' \<and> later w w' \<and> quic_in w' = quic_in w \<and> recv_dest w' = None \<and>
     page_bits w' = page_bits w \<and> accepted w' = accepted w @ sent \<and> (frames_ok w \<longrightarrow> frames_ok w')"

lemma pumped_streamed:
  assumes "pumped w w'" and "recv_dest w = None"
  shows "streamed [] w w'"
  using assms by (auto simp: pumped_def streamed_def absorbed_def quic_in_def same_os_def)

lemma streamed_trans: "streamed xs w w1 \<Longrightarrow> streamed ys w1 w2 \<Longrightarrow> streamed (xs @ ys) w w2"
  by (auto simp: streamed_def intro: same_os_trans later_trans)

lemma streamed_pumped:
  assumes "streamed xs w w1" and "pumped w1 w2"
  shows "streamed xs w w2"
  using streamed_trans [OF assms(1) pumped_streamed [OF assms(2)]] assms(1) by (simp add: streamed_def)

lemma ends_at_snoc:
  "ends_at s us \<Longrightarrow> e = s + length (concat (map snd us)) + length d \<Longrightarrow> ends_at s (us @ [(e, d)])"
  by (induction us arbitrary: s) auto

lemma kept_retain:
  assumes "kept [] w"
  shows "kept data (w\<lparr>unacked := unacked w @ [(stream_offset w + length data, data)]\<rparr>)"
proof -
  obtain s where s: "s \<le> lib_acked w" "drop s (accepted w) = concat (map snd (unacked w))" "ends_at s (unacked w)"
    and w: "stream_offset w = length (accepted w)" "lib_acked w \<le> length (accepted w)"
    using assms by (auto simp: kept_def)
  have "s + length (concat (map snd (unacked w))) = stream_offset w"
    using s w by (simp add: s(2) [symmetric])
  then have "ends_at s (unacked w @ [(stream_offset w + length data, data)])"
    by (intro ends_at_snoc [OF s(3)]) simp
  then show ?thesis using s w by (auto simp: kept_def)
qed

lemma kept_write:
  assumes "kept pend w" and "k \<le> length pend"
  shows "kept (drop k pend) (w\<lparr>accepted := accepted w @ take k pend, stream_offset := stream_offset w + k\<rparr>)"
proof -
  obtain s where s: "s \<le> lib_acked w" "drop s (accepted w) @ pend = concat (map snd (unacked w))" "ends_at s (unacked w)"
    and w: "stream_offset w = length (accepted w)" "lib_acked w \<le> length (accepted w)"
    using assms(1) by (auto simp: kept_def)
  have "drop s (accepted w @ take k pend) @ drop k pend = concat (map snd (unacked w))"
    using s w by simp
  then show ?thesis using s w assms(2) by (auto simp: kept_def)
qed

section \<open>Writing to the stream\<close>

definition writing :: "u8 list \<Rightarrow> 'e quic_world_scheme \<Rightarrow> nat \<Rightarrow> 'e quic_world_scheme \<Rightarrow> bool" where
  "writing data w taken w' \<longleftrightarrow> taken \<le> length data \<and> streamed (take taken data) w w' \<and> qinv w' \<and>
     kept (drop taken data) w'"

definition written :: "u8 list \<Rightarrow> 'e quic_world_scheme \<Rightarrow> int res \<Rightarrow> 'e quic_world_scheme \<Rightarrow> bool" where
  "written data w r w' \<longleftrightarrow> r \<noteq> Undef \<and> (\<exists>sent pend. streamed sent w w' \<and> kept pend w') \<and> qinv w' \<and>
     (\<forall>n. r = Ok n \<longrightarrow> (n = int (length data) \<and> streamed data w w' \<and> kept [] w') \<or> (n = -1 \<and> errno w' \<noteq> EAGAIN))"

lemma pumped_kept: "pumped w w' \<Longrightarrow> kept pend w \<Longrightarrow> kept pend w'"
  by (simp add: pumped_def)

lemma writing_pumped:
  assumes "writing data w taken w1" and "pumped w1 w2" and "qinv w2"
  shows "writing data w taken w2"
  using assms streamed_pumped [OF _ assms(2)] pumped_kept [OF assms(2)] by (simp add: writing_def)

lemma written_fail:
  assumes "writing data w taken w1" and "errno w1 \<noteq> EAGAIN"
  shows "written data w (Ok (-1)) w1"
  using assms by (auto simp: writing_def written_def)

lemma written_throw: "writing data w taken w1 \<Longrightarrow> written data w (Throw e) w1"
  by (auto simp: writing_def written_def)

abbreviation write_post :: "u8 list \<Rightarrow> 'e quic_world_scheme \<Rightarrow> (nat + int) res \<Rightarrow> 'e quic_world_scheme \<Rightarrow> bool" where
  "write_post data w \<equiv> on_turn (writing data w) (written data w)"

lemma errno_step:
  assumes "qinv w"
  shows "pumped w (w\<lparr>errno := e\<rparr>)" "qinv (w\<lparr>errno := e\<rparr>)"
proof -
  have "quiet_step w (w\<lparr>errno := e\<rparr>)" by (rule quiet_stepI) (use assms in simp_all)
  then show "pumped w (w\<lparr>errno := e\<rparr>)" "qinv (w\<lparr>errno := e\<rparr>)" using assms by (simp_all add: quiet_step_def)
qed

lemma fail_errno_wp:
  assumes "writing data w taken w1" and "e \<noteq> EAGAIN"
  shows "wp True (fail_errno e) (write_post data w) w1"
proof -
  have "qinv w1" using assms(1) by (simp add: writing_def)
  then have "written data w (Ok (-1)) (w1\<lparr>errno := e\<rparr>)"
    using written_fail [OF writing_pumped [OF assms(1) errno_step]] assms(2) by simp
  then show ?thesis by (simp add: fail_errno_def wp_simps)
qed

lemma write_bind:
  assumes w1: "writing data w taken w1" and m: "qinv w1 \<Longrightarrow> wp True m (qfine w1) w1"
    and f: "\<And>x w2. writing data w taken w2 \<Longrightarrow> wp True (f x) (write_post data w) w2"
  shows "wp True (io_bind m f) (write_post data w) w1"
proof -
  have "qinv w1" using w1 by (simp add: writing_def)
  show ?thesis unfolding wp_bind
  proof (rule wp_mono [OF m [OF \<open>qinv w1\<close>]], goal_cases)
    case (1 r w2)
    then have W: "writing data w taken w2" using writing_pumped [OF w1] by (simp add: qfine_def)
    show ?case using 1 f [OF W] written_throw [OF W] by (cases r) (simp_all add: qfine_def)
  qed
qed

lemma pump_or_abort_wp:
  assumes "writing data w taken w1"
  shows "wp True (pump_or_abort taken) (write_post data w) w1"
  unfolding pump_or_abort_def
proof (rule write_bind [OF assms pump_once_fine], goal_cases)
  case (2 ok w2)
  then show ?case using fail_errno_wp [OF 2, of ECONNABORTED]
    by (cases ok) (simp_all add: wp_simps ECONNABORTED_def EAGAIN_def)
qed

lemma wp_writev:
  "wp True (conn_writev_stream d) Q w \<longleftrightarrow>
     (\<forall>x xs. lib_writes w = x # xs \<longrightarrow>
        (case x of
           Wrote n wd \<Rightarrow>
             Q (Ok (Wrote (min (max 1 n) QUIC_MAX_PKTLEN) (if wd < 0 then -1 else int (min (nat wd) (length d)))))
               (w\<lparr>lib_writes := xs, accepted := accepted w @ take (min (nat wd) (length d)) d\<rparr>)
         | x \<Rightarrow> Q (Ok x) (w\<lparr>lib_writes := xs\<rparr>)))"
  unfolding conn_writev_stream_def wp_bind wp_take_answer on_ok_simps
  by (intro iff_allI imp_cong refl) (simp split: write_result.split add: wp_simps Let_def)

text \<open>A datagram with \<open>k\<close> bytes of the block, however its sending ends.\<close>

lemma wrote_wp:
  assumes w1: "writing data w taken w1"
    and k: "k \<le> length data - taken" and n: "nat wd = k"
  shows "wp True (io_bind (io_modify (\<lambda>w. w\<lparr>stream_offset := stream_offset w + nat wd\<rparr>)) (\<lambda>_.
      io_bind (send_packet n) (\<lambda>sr.
        if sr = Failed then io_ret (Inr (-1))
        else if sr = Blocked then pump_or_abort (taken + nat wd)
        else io_ret (Inl (taken + nat wd))))) (write_post data w)
    (w1\<lparr>lib_writes := xs, accepted := accepted w1 @ take k (drop taken data)\<rparr>)"
proof -
  let ?w2 = "w1\<lparr>lib_writes := xs, accepted := accepted w1 @ take k (drop taken data),
    stream_offset := stream_offset w1 + k\<rparr>"
  have W: "taken \<le> length data" "streamed (take taken data) w w1" "qinv w1" "kept (drop taken data) w1"
    using w1 by (simp_all add: writing_def)
  have "take (taken + k) data = take taken data @ take k (drop taken data)" by (simp add: take_add)
  then have st: "streamed (take (taken + k) data) w ?w2"
    using W(2) by (simp add: streamed_def quic_in_def future_def frames_ok_def same_os_def later_def)
  have "kept (drop k (drop taken data)) (w1\<lparr>accepted := accepted w1 @ take k (drop taken data), stream_offset := stream_offset w1 + k\<rparr>)"
    by (rule kept_write [OF W(4)]) (use k in simp)
  then have kp: "kept (drop (taken + k) data) ?w2" by (simp add: kept_def add.commute)
  have q: "qinv ?w2" by (rule qinv_frame [OF _ _ _ _ _ W(3)]) simp_all
  have W2: "writing data w (taken + k) ?w2" using st kp q W(1) k by (simp add: writing_def)
  have "wp True (io_bind (send_packet n) (\<lambda>sr.
        if sr = Failed then io_ret (Inr (-1))
        else if sr = Blocked then pump_or_abort (taken + k)
        else io_ret (Inl (taken + k)))) (write_post data w) ?w2"
    unfolding wp_bind
  proof (rule wp_mono [OF send_packet_fine [OF q]], goal_cases)
    case (1 r w3)
    then have W3: "writing data w (taken + k) w3" using writing_pumped [OF W2] by (simp add: qfine_def)
    show ?case
    proof (cases r)
      case (Ok sr)
      then show ?thesis using 1 W3 written_fail [OF W3] pump_or_abort_wp [OF W3]
        by (cases sr) (simp_all add: wp_simps)
    qed (use 1 written_throw [OF W3] in \<open>simp_all add: qfine_def\<close>)
  qed
  then show ?thesis unfolding n wp_bind [of _ "io_modify _"] wp_state on_ok_simps by simp
qed

lemma write_turn_wp:
  assumes w1: "writing data w taken w1"
  shows "wp True (write_turn data taken) (write_post data w) w1"
proof (cases "taken < length data")
  case False
  then have t: "taken = length data" using w1 by (simp add: writing_def)
  have "wp True (io_bind flush_packets (\<lambda>_. io_ret (Inr (int (length data))))) (write_post data w) w1"
  proof (rule write_bind [OF w1 flush_packets_fine], goal_cases)
    case (2 x w2)
    then show ?case using t by (auto simp: wp_simps writing_def written_def)
  qed
  then show ?thesis using False by (simp add: write_turn_def)
next
  case True
  show ?thesis
    unfolding write_turn_def if_P [OF True]
  proof (rule write_bind [OF w1 begin_packet_fine], goal_cases)
    case (2 x w2)
    have q: "quiet_step w2 (w2\<lparr>lib_writes := xs\<rparr>)" for xs
      by (rule quiet_stepI) (use 2 in \<open>simp_all add: writing_def\<close>)
    have W: "writing data w taken (w2\<lparr>lib_writes := xs\<rparr>)" for xs
      using q [of xs] writing_pumped [OF 2] 2 by (simp add: quiet_step_def writing_def)
    have ab: "wp True (if e = Stream_data_blocked then pump_or_abort taken
              else io_bind (close_error e) (\<lambda>_. fail_errno EIO)) (write_post data w) (w2\<lparr>lib_writes := xs\<rparr>)" for e xs
      using pump_or_abort_wp [OF W]
      by (auto intro!: write_bind [OF W close_error_fine] fail_errno_wp simp: EIO_def EAGAIN_def)
    show ?case unfolding wp_bind [of _ "conn_writev_stream _"] wp_writev
    proof (intro allI impI)
      fix x xs assume "lib_writes w2 = x # xs"
      show "case x of
           Wrote n wd \<Rightarrow> on_ok (\<lambda>x. wp True (case x of
              Wrote n wdatalen \<Rightarrow> io_bind (io_modify (\<lambda>w. w\<lparr>stream_offset := stream_offset w + nat wdatalen\<rparr>)) (\<lambda>_.
                io_bind (send_packet n) (\<lambda>sr.
                  if sr = Failed then io_ret (Inr (-1))
                  else if sr = Blocked then pump_or_abort (taken + nat wdatalen)
                  else io_ret (Inl (taken + nat wdatalen))))
            | Nothing_written \<Rightarrow> pump_or_abort taken
            | Write_error e \<Rightarrow> if e = Stream_data_blocked then pump_or_abort taken
                else io_bind (close_error e) (\<lambda>_. fail_errno EIO)) (write_post data w)) (write_post data w)
            (Ok (Wrote (min (max 1 n) QUIC_MAX_PKTLEN) (if wd < 0 then -1 else int (min (nat wd) (length (drop taken data))))))
               (w2\<lparr>lib_writes := xs, accepted := accepted w2 @ take (min (nat wd) (length (drop taken data))) (drop taken data)\<rparr>)
         | x \<Rightarrow> on_ok (\<lambda>x. wp True (case x of
              Wrote n wdatalen \<Rightarrow> io_bind (io_modify (\<lambda>w. w\<lparr>stream_offset := stream_offset w + nat wdatalen\<rparr>)) (\<lambda>_.
                io_bind (send_packet n) (\<lambda>sr.
                  if sr = Failed then io_ret (Inr (-1))
                  else if sr = Blocked then pump_or_abort (taken + nat wdatalen)
                  else io_ret (Inl (taken + nat wdatalen))))
            | Nothing_written \<Rightarrow> pump_or_abort taken
            | Write_error e \<Rightarrow> if e = Stream_data_blocked then pump_or_abort taken
                else io_bind (close_error e) (\<lambda>_. fail_errno EIO)) (write_post data w)) (write_post data w)
            (Ok x) (w2\<lparr>lib_writes := xs\<rparr>)"
      proof (cases x)
        case (Wrote n wd)
        show ?thesis unfolding Wrote write_result.case on_ok_simps
          by (rule wrote_wp [OF 2]) auto
      next
        case Nothing_written
        then show ?thesis using pump_or_abort_wp [OF W] by simp
      next
        case (Write_error e)
        then show ?thesis using ab by simp
      qed
    qed
  qed
qed

lemma write_stream_wp:
  assumes "writing data w 0 w1"
  shows "wp True (write_stream data) (written data w) w1"
  unfolding write_stream_def
  by (rule wp_io_loop [where I = "writing data w", OF assms write_turn_wp])

section \<open>Sending\<close>

lemma quic_inv_parts: "quic_inv w \<Longrightarrow> qinv w \<and> recv_dest w = None \<and> kept [] w \<and> frames_ok w"
  by (simp add: quic_inv_def qinv_def dest_ok_def)

lemma streamed_refl: "recv_dest w = None \<Longrightarrow> streamed [] w w"
  by (simp add: streamed_def)

lemma writing_start:
  assumes "quic_inv w"
  shows "writing data w 0 (w\<lparr>unacked := unacked w @ [(stream_offset w + length data, data)]\<rparr>)"
proof -
  let ?w = "w\<lparr>unacked := unacked w @ [(stream_offset w + length data, data)]\<rparr>"
  note i = quic_inv_parts [OF assms]
  have "streamed [] w ?w" using i by (simp add: streamed_def same_os_def later_def quic_in_def future_def frames_ok_def)
      (rule exI [of _ 0], simp)
  moreover have "qinv ?w" by (rule qinv_frame [of ?w w]) (use i in simp_all)
  ultimately show ?thesis using kept_retain [of w data] i by (simp add: writing_def)
qed

lemma quic_send_wp:
  assumes "quic_inv w"
  shows "wp True (quic_send buf) (\<lambda>r w'. if buf = [] \<and> r = Ok 0 then w' = w else written buf w r w') w"
proof -
  note i = quic_inv_parts [OF assms]
  have fail: "written buf w (Throw e) w" "written buf w (Ok (-1)) (w\<lparr>errno := ENOTCONN\<rparr>)" for e
    using i errno_step [of w ENOTCONN] pumped_streamed [of w "w\<lparr>errno := ENOTCONN\<rparr>"] streamed_refl [of w]
      pumped_kept [of w "w\<lparr>errno := ENOTCONN\<rparr>" "[]"]
    by (auto simp: written_def ENOTCONN_def EAGAIN_def)
  have "wp True (io_bind (retain buf) (\<lambda>_. write_stream buf)) (written buf w) w"
    using write_stream_wp [OF writing_start [OF assms]] by (simp add: retain_def wp_simps)
  then show ?thesis using fail by (auto simp: quic_send_def wp_simps)
qed

lemma written_law:
  assumes "written buf w r w'" and "quic_inv w"
  shows "same_os w w' \<and> later w w' \<and> quic_in w' = quic_in w \<and> r \<noteq> Undef \<and>
    (\<forall>n. r = Ok n \<longrightarrow> 0 < n \<longrightarrow> quic_inv w' \<and> n = int (length buf) \<and> accepted w' = accepted w @ buf) \<and>
    (\<forall>n. r = Ok n \<longrightarrow> n < 0 \<longrightarrow> errno w' \<noteq> EAGAIN)"
proof -
  obtain sent where st: "streamed sent w w'" using assms(1) by (auto simp: written_def)
  have ok: "quic_inv w'" if "streamed buf w w'" "kept [] w'"
    using that assms by (simp add: written_def streamed_def quic_inv_def qinv_def)
  have "n = int (length buf) \<and> streamed buf w w' \<and> kept [] w' \<or> n = -1 \<and> errno w' \<noteq> EAGAIN" if "r = Ok n" for n
    using assms(1) that by (simp add: written_def)
  moreover have "r \<noteq> Undef" using assms(1) by (simp add: written_def)
  ultimately show ?thesis using st ok by (fastforce simp: streamed_def)
qed

section \<open>Receiving\<close>

lemma quic_recv_wp:
  assumes "quic_inv w"
  shows "wp True (quic_recv len) (\<lambda>r w'. r \<noteq> Undef \<and> same_os w w' \<and> later w w' \<and> accepted w' = accepted w \<and>
    quic_inv w' \<and> (\<forall>e. r = Throw e \<longrightarrow> quic_in w' = quic_in w) \<and>
    (\<forall>n bs. r = Ok (n, bs) \<longrightarrow> quic_in w = bs @ quic_in w' \<and> length bs \<le> len \<and>
       (n = int (length bs) \<or> n = -1 \<and> bs = [] \<and> recv_buf w' = [] \<and> \<not> stream_fin_received w'))) w"
proof -
  note i = quic_inv_parts [OF assms]
  let ?Q = "\<lambda>r w'. r \<noteq> Undef \<and> pumped w w' \<and> qinv w'"
  have "wp True await_data ?Q w" unfolding await_data_def
  proof (rule wp_io_loop [where I = "\<lambda>_ w'. pumped w w' \<and> qinv w'"], goal_cases)
    case 1
    show ?case using i pumped_refl [of w] by simp
  next
    case (2 s w1)
    have "wp True (io_bind (pump_once QUIC_NO_DEADLINE) (\<lambda>ok. io_ret (if ok then Inl () else Inr ())))
        (on_turn (\<lambda>_ w'. pumped w w' \<and> qinv w') ?Q) w1"
      unfolding wp_bind
    proof (rule wp_mono [OF pump_once_fine], goal_cases)
      case 1
      show ?case using 2 by simp
    next
      case (2 r w2)
      then have "pumped w w2" "qinv w2" "r \<noteq> Undef"
        using pumped_trans [of w w1 w2] \<open>pumped w w1 \<and> qinv w1\<close> i by (simp_all add: qfine_def)
      then show ?case by (cases r) (simp_all add: wp_simps)
    qed
    then show ?case using 2 by (simp add: wp_simps)
  qed
  then show ?thesis unfolding quic_recv_def wp_bind [of _ await_data]
  proof (rule wp_mono, goal_cases)
    case (1 r w1)
    then have st: "streamed [] w w1" "qinv w1" "kept [] w1"
      using pumped_streamed [of w w1] pumped_kept [of w w1] i by simp_all
    then have q1: "quic_inv w1" using i by (simp add: quic_inv_def qinv_def streamed_def)
    have tk: "quic_inv (w1\<lparr>recv_buf := drop len (recv_buf w1)\<rparr>)"
      using q1 by (simp add: quic_inv_def qinv_def dest_ok_def zc_ok_def kept_def frames_ok_def)
    have "quic_in w = recv_buf w1 @ future w1" using st(1) by (simp add: streamed_def quic_in_def)
    then have qi: "quic_in w = take len (recv_buf w1) @ quic_in (w1\<lparr>recv_buf := drop len (recv_buf w1)\<rparr>)"
      using append_take_drop_id [of len "recv_buf w1"] by (simp add: quic_in_def future_def)
    have os: "same_os w w1" "later w w1" "accepted w1 = accepted w" "quic_in w1 = quic_in w" "r \<noteq> Undef"
      using 1 st(1) by (simp_all add: streamed_def)
    show ?case
    proof (cases r)
      case (Ok u)
      show ?thesis
      proof (cases "recv_buf w1 = []")
        case True
        then show ?thesis using Ok os q1 by (simp add: wp_simps)
      next
        case False
        then show ?thesis using Ok os tk qi by (simp add: wp_simps take_buffered_def same_os_def later_def)
      qed
    qed (use os q1 in simp_all)
  qed
qed

section \<open>The contract\<close>

lemma quic_own_state:
  assumes "world.more w = world.more w'"
  shows "quic_in w = quic_in w' \<and> accepted w = accepted w' \<and> quic_inv w = quic_inv w'"
  using assms
  by (cases w; cases w'; simp add: quic_in_def future_def quic_inv_def zc_ok_def kept_def frames_ok_def)

interpretation quic: stream_transport quic_transport quic_in accepted quic_inv
proof
  fix w w' :: "'a quic_world_scheme"
  show "world.more w = world.more w' \<Longrightarrow> quic_in w = quic_in w' \<and> accepted w = accepted w' \<and> quic_inv w = quic_inv w'"
    by (rule quic_own_state)
next
  fix w w' :: "'a quic_world_scheme" and buf rs
  assume i: "quic_inv w" and run: "t_send quic_transport buf w = Some (rs, w')"
  have "if buf = [] \<and> rs = Ok 0 then w' = w else written buf w rs w'"
    using wpD [OF quic_send_wp [OF i]] run by (simp add: quic_transport_def)
  then show "same_os w w' \<and> later w w' \<and> quic_in w' = quic_in w \<and> rs \<noteq> Undef \<and>
      (\<forall>n. rs = Ok n \<longrightarrow> 0 < n \<longrightarrow> quic_inv w' \<and> n \<le> int (length buf) \<and> accepted w' = accepted w @ take (nat n) buf) \<and>
      (\<forall>n. rs = Ok n \<longrightarrow> n < 0 \<longrightarrow> errno w' = EAGAIN \<longrightarrow> quic_inv w' \<and> accepted w' = accepted w)"
    using written_law [OF _ i, of buf rs w'] by (auto split: if_splits)
next
  fix w w' :: "'a quic_world_scheme" and len rr
  assume i: "quic_inv w" and run: "t_recv quic_transport len w = Some (rr, w')"
  from wpD [OF quic_recv_wp [OF i]] run
  have "rr \<noteq> Undef \<and> same_os w w' \<and> later w w' \<and> accepted w' = accepted w \<and> quic_inv w' \<and>
    (\<forall>n bs. rr = Ok (n, bs) \<longrightarrow> quic_in w = bs @ quic_in w' \<and> length bs \<le> len \<and>
       (n = int (length bs) \<or> n = -1 \<and> bs = [] \<and> recv_buf w' = [] \<and> \<not> stream_fin_received w'))"
    by (fastforce simp: quic_transport_def)
  then show "same_os w w' \<and> later w w' \<and> accepted w' = accepted w \<and> rr \<noteq> Undef \<and>
      (\<forall>n bs. rr = Ok (n, bs) \<longrightarrow> 0 < n \<longrightarrow> quic_inv w' \<and> n = int (length bs) \<and> length bs \<le> len \<and> quic_in w = bs @ quic_in w') \<and>
      (\<forall>n bs. rr = Ok (n, bs) \<longrightarrow> n < 0 \<longrightarrow> errno w' = EAGAIN \<longrightarrow> quic_inv w' \<and> quic_in w' = quic_in w)"
    by fastforce
qed

section \<open>Files\<close>

lemma map_start:
  assumes "off < 2 ^ 64"
  shows "map_base page off + map_delta page off = off"
proof -
  let ?o = "word_of_nat off :: u64"
  let ?b = "?o AND NOT (word_of_nat page - 1)"
  have "?b \<le> ?o" by (simp add: word_and_le2)
  then have "unat (?o - ?b) = unat ?o - unat ?b" "unat ?b \<le> unat ?o"
    by (simp_all add: unat_sub word_le_nat_alt)
  moreover have "unat ?o = off" using assms by (simp add: unsigned_of_nat take_bit_nat_eq_self)
  ultimately show ?thesis by (simp add: map_base_def map_delta_def)
qed

lemma padded_region: "off + len \<le> length c \<Longrightarrow> region off len (padded w c) = region off len c"
  by (simp add: region_def padded_def)

lemma quic_send_file_wp:
  assumes i: "quic_inv w" and fd: "fds w fd = Some f" "files w (of_path f) = Some c"
    and rng: "off + len \<le> length c" "off < 2 ^ 64"
  shows "wp True (quic_send_file fd off len) (\<lambda>r w'. same_os w w' \<and> later w w' \<and> quic_in w' = quic_in w \<and> r \<noteq> Undef \<and>
    (r = Ok () \<longrightarrow> quic_inv w' \<and> accepted w' = accepted w @ region off len c)) w"
proof (cases "len = 0")
  case True
  then show ?thesis using i by (simp add: quic_send_file_def wp_simps region_def)
next
  case False
  let ?Q = "\<lambda>r w'. same_os w w' \<and> later w w' \<and> quic_in w' = quic_in w \<and> r \<noteq> Undef \<and>
    (r = Ok () \<longrightarrow> quic_inv w' \<and> accepted w' = accepted w @ region off len c)"
  note q = quic_inv_parts [OF i]
  let ?go = "\<lambda>m. case m of None \<Rightarrow> io_throw (Runtime_error ''QuicTransport::send_file: mmap failed: '')
     | Some p \<Rightarrow> io_bind (map_load p (map_base (page_size w) off + map_delta (page_size w) off) len) (\<lambda>data.
         io_bind (retain data) (\<lambda>_. io_bind (write_stream data) (\<lambda>n.
           if n < 0 then io_throw (Runtime_error ''QuicTransport::send_file: send failed: '') else io_ret ())))"
  have "wp True (io_bind (sys (sys_map_file fd)) ?go) ?Q w" unfolding wp_bind
  proof (rule wp_mono [OF sys_quiet(4)], goal_cases)
    case 1
    show ?case using q by simp
  next
    case (2 r w1)
    then obtain m where r: "r = Ok m" and qs: "quiet_step w w1"
      and "case m of None \<Rightarrow> True | Some p \<Rightarrow> \<exists>f. fds w fd = Some f \<and> of_path f = p" by (auto simp: quietly_def)
    then have m: "m = None \<or> m = Some (of_path f)" using fd by (cases m) auto
    have st: "streamed [] w w1" using qs q pumped_streamed [of w w1] by (simp add: quiet_step_def)
    have i1: "quic_inv w1" using st qs q pumped_kept [of w w1] by (simp add: quic_inv_def qinv_def quiet_step_def streamed_def)
    have c1: "contents w1 (of_path f) = c" using st fd by (simp add: streamed_def same_os_def contents_def)
    have "length c \<le> length (padded w1 c)" by (rule length_padded)
    then have ld: "map_load (of_path f) (map_base (page_size w) off + map_delta (page_size w) off) len w1 = Some (Ok (region off len c), w1)"
      using rng c1 by (simp add: map_load_def map_start padded_region)
    have "wp True (io_bind (retain (region off len c)) (\<lambda>_. io_bind (write_stream (region off len c)) (\<lambda>n.
           if n < 0 then io_throw (Runtime_error ''QuicTransport::send_file: send failed: '') else io_ret ()))) ?Q w1"
      unfolding wp_bind retain_def wp_state on_ok_simps
    proof (rule wp_mono [OF write_stream_wp [OF writing_start [OF i1]]], goal_cases)
      case (1 r2 w2)
      note L = written_law [OF 1 i1]
      have base: "same_os w w2 \<and> later w w2 \<and> quic_in w2 = quic_in w"
        using L st by (auto simp: streamed_def intro: same_os_trans later_trans)
      have len: "0 < length (region off len c)" using False rng(1) by simp
      show ?case
      proof (cases r2)
        case (Ok n)
        have "n = int (length (region off len c)) \<or> n < 0" using 1 Ok by (auto simp: written_def)
        then show ?thesis using L base Ok st len by (auto simp: wp_simps streamed_def)
      qed (use L base in simp_all)
    qed
    then have "wp True (?go (Some (of_path f))) ?Q w1" using ld by (simp add: wp_def [of _ "io_bind (map_load _ _ _) _"] wp_def)
    moreover have "wp True (?go None) ?Q w1" using st by (simp add: wp_simps streamed_def)
    ultimately show ?case using m r by auto
  qed
  then show ?thesis using False q by (simp add: quic_send_file_def wp_simps streamed_def)
qed

text \<open>
  \<open>filled\<close>: the buffered bytes \<open>bs\<close> were put at the start of the range, and what arrived since
  was absorbed behind them.
\<close>

definition filled :: "string \<Rightarrow> nat \<Rightarrow> nat \<Rightarrow> u8 list \<Rightarrow> u8 list \<Rightarrow> 'e quic_world_scheme \<Rightarrow> 'e quic_world_scheme \<Rightarrow> bool" where
  "filled p off len c bs w w' \<longleftrightarrow> fds w' = fds w \<and> next_fd w' = next_fd w \<and> bad_closes w' = bad_closes w \<and> later w w' \<and>
     accepted w' = accepted w \<and> qinv w' \<and> kept [] w' \<and> frames_ok w' \<and> recv_dest w' = Some (p, off) \<and>
     recv_dest_len w' = len \<and> recv_dest_got w' \<le> len \<and>
     files w' = (files w)(p \<mapsto> write_at c off (take (recv_dest_got w') (quic_in w))) \<and>
     drop (recv_dest_got w') (quic_in w) = quic_in w' \<and> recv_dest_got w' \<le> length (quic_in w) \<and>
     (recv_buf w' = [] \<or> recv_dest_got w' = len)"

lemma filled_pumped:
  assumes F: "filled p off len c bs w w1" and P: "pumped w1 w2" and "qinv w2" and "off + len \<le> length c"
  shows "filled p off len c bs w w2"
proof -
  obtain d where d: "future w1 = d @ future w2" "absorbed d w1 w2" using P by (auto simp: pumped_def)
  let ?k = "taken_count w1 d" and ?g = "recv_dest_got w1"
  have "drop ?g (quic_in w) = quic_in w1" using F by (simp add: filled_def)
  then have "quic_in w = take ?g (quic_in w) @ quic_in w1" by (metis append_take_drop_id)
  then have w1: "recv_dest w1 = Some (p, off)" "recv_dest_len w1 = len" "?g \<le> len"
    "files w1 = (files w)(p \<mapsto> write_at c off (take ?g (quic_in w)))"
    "quic_in w = take ?g (quic_in w) @ recv_buf w1 @ future w1" "length (take ?g (quic_in w)) = ?g"
    "recv_buf w1 = [] \<or> ?g = len"
    using F by (simp_all add: filled_def quic_in_def [of w1])
  have a: "recv_buf w2 = recv_buf w1 @ drop ?k d" "recv_dest_got w2 = ?g + ?k" "recv_dest w2 = Some (p, off)"
    "recv_dest_len w2 = len"
    "files w2 = (files w1)(p \<mapsto> write_at (contents w1 p) (off + ?g) (take ?k d))"
    using d(2) w1(1,2) by (simp_all add: absorbed_def)
  have k: "?g + ?k \<le> len" "?k \<le> length d" using taken_count_le [of w1 d] w1(2,3) by simp_all
  have none: "recv_buf w1 \<noteq> [] \<Longrightarrow> ?k = 0" by (simp add: taken_count_def)
  have q: "quic_in w = take ?g (quic_in w) @ recv_buf w1 @ d @ future w2" using w1(5) d(1) by simp
  have split: "recv_buf w1 @ d = take ?k d @ recv_buf w2" using a(1) none by (cases "recv_buf w1 = []") simp_all
  have q2: "quic_in w = (take ?g (quic_in w) @ take ?k d) @ quic_in w2"
    using q split by (metis append_assoc quic_in_def)
  have len2: "length (take ?g (quic_in w) @ take ?k d) = ?g + ?k" using w1(6) k(2) by simp
  have tk: "take (?g + ?k) (quic_in w) = take ?g (quic_in w) @ take ?k d"
    and dr: "drop (?g + ?k) (quic_in w) = quic_in w2"
    using arg_cong [OF q2, of "take (?g + ?k)"] arg_cong [OF q2, of "drop (?g + ?k)"] len2 by simp_all
  have "length (quic_in w) = ?g + ?k + length (quic_in w2)" using arg_cong [OF q2, of length] len2 by simp
  moreover have "write_at (write_at c off (take ?g (quic_in w))) (off + ?g) (take ?k d) =
      write_at c off (take (?g + ?k) (quic_in w))"
    using write_at_append [of off c "take ?g (quic_in w)" "take ?k d"] w1(6) assms(4) tk by simp
  moreover have "recv_buf w2 = [] \<or> ?g + ?k = len"
  proof (cases "recv_buf w1 = []")
    case True
    then have "?k = min (length d) (len - ?g)" using w1(2) by (simp add: taken_count_def)
    then show ?thesis using True a(1) w1(3) by auto
  qed (use w1(7) none in simp)
  ultimately show ?thesis
    using F P assms(3) a k w1(4) dr pumped_kept [OF P]
    by (simp add: filled_def pumped_def contents_def) (meson later_trans)
qed

lemma fill_loop_wp:
  assumes F: "filled p off len c bs w w1" and rng: "off + len \<le> length c"
  shows "wp True (io_loop (fill_turn len) ()) (\<lambda>r w'. r \<noteq> Undef \<and> filled p off len c bs w w' \<and>
    (r = Ok () \<longrightarrow> recv_dest_got w' = len)) w1"
proof (rule wp_io_loop [where I = "\<lambda>_ w'. filled p off len c bs w w'", OF F])
  let ?I = "\<lambda>_ w'. filled p off len c bs w w'"
  let ?Q = "\<lambda>r w'. r \<noteq> Undef \<and> filled p off len c bs w w' \<and> (r = Ok () \<longrightarrow> recv_dest_got w' = len)"
  fix s w2 assume F2: "filled p off len c bs w w2"
  then have q: "qinv w2" by (simp add: filled_def)
  have "wp True (io_bind (pump_once QUIC_NO_DEADLINE) (\<lambda>ok.
         if ok then io_ret (Inl ()) else io_throw (Runtime_error ''QuicTransport::recv_file: pump failed'')))
       (on_turn ?I ?Q) w2"
    unfolding wp_bind
  proof (rule wp_mono [OF pump_once_fine [OF q]], goal_cases)
    case (1 r w3)
    then have "filled p off len c bs w w3" using filled_pumped [OF F2 _ _ rng] by (simp add: qfine_def)
    then show ?case using 1 by (cases r) (simp_all add: wp_simps qfine_def)
  qed
  moreover have "\<not> recv_dest_got w2 < len \<Longrightarrow> recv_dest_got w2 = len" using F2 by (simp add: filled_def)
  ultimately show "wp True (fill_turn len s) (on_turn ?I ?Q) w2"
    using F2 by (simp add: fill_turn_def wp_simps)
qed

lemma quic_recv_file_wp:
  assumes i: "quic_inv w" and fd: "fds w fd = Some f" "files w (of_path f) = Some c"
    and rng: "off + len \<le> length c" "off < 2 ^ 64"
  shows "wp True (quic_recv_file fd off len) (\<lambda>r w'. fds w' = fds w \<and> next_fd w' = next_fd w \<and>
    bad_closes w' = bad_closes w \<and> later w w' \<and> accepted w' = accepted w \<and> r \<noteq> Undef \<and> quic_inv w' \<and>
    (\<exists>k \<le> min len (length (quic_in w)).
       files w' = (files w)(of_path f \<mapsto> write_at c off (take k (quic_in w))) \<and>
       drop k (quic_in w) = quic_in w' \<and> (r = Ok () \<longrightarrow> k = len))) w"
proof (cases "len = 0")
  case True
  have "(files w)(of_path f \<mapsto> c) = files w" using fd(2) by (simp add: fun_upd_idem)
  then show ?thesis using True i by (auto simp: quic_recv_file_def wp_simps)
next
  case False
  let ?p = "of_path f"
  let ?Q = "\<lambda>r w'. fds w' = fds w \<and> next_fd w' = next_fd w \<and>
    bad_closes w' = bad_closes w \<and> later w w' \<and> accepted w' = accepted w \<and> r \<noteq> Undef \<and> quic_inv w' \<and>
    (\<exists>k \<le> min len (length (quic_in w)).
       files w' = (files w)(of_path f \<mapsto> write_at c off (take k (quic_in w))) \<and>
       drop k (quic_in w) = quic_in w' \<and> (r = Ok () \<longrightarrow> k = len))"
  note q = quic_inv_parts [OF i]
  have same: "(files w)(?p \<mapsto> c) = files w" using fd(2) by (simp add: fun_upd_idem)
  show ?thesis
    unfolding quic_recv_file_def if_not_P [OF False] wp_bind [of _ "io_get _"] wp_bind [of _ "sys _"] wp_state on_ok_simps
  proof (rule wp_mono [OF sys_quiet(4)], goal_cases)
    case 1
    show ?case using q by simp
  next
    case (2 r w1)
    then obtain m where r: "r = Ok m" and qs: "quiet_step w w1"
      and "case m of None \<Rightarrow> True | Some p \<Rightarrow> \<exists>f. fds w fd = Some f \<and> of_path f = p" by (auto simp: quietly_def)
    then have m: "m = None \<or> m = Some ?p" using fd by (cases m) auto
    have st: "streamed [] w w1" using qs q pumped_streamed [of w w1] by (simp add: quiet_step_def)
    have i1: "quic_inv w1" using st qs q pumped_kept [of w w1] by (simp add: quic_inv_def qinv_def quiet_step_def streamed_def)
    let ?bs = "take len (recv_buf w1)"
    let ?w2 = "w1\<lparr>recv_buf := drop len (recv_buf w1)\<rparr>"
    let ?w3 = "w1\<lparr>recv_buf := drop len (recv_buf w1), files := (files w)(?p \<mapsto> write_at c off ?bs)\<rparr>"
    let ?w4 = "?w3\<lparr>recv_dest := Some (?p, off), recv_dest_len := len, recv_dest_got := length ?bs\<rparr>"
    have os: "fds w1 = fds w" "files w1 = files w" "next_fd w1 = next_fd w" "bad_closes w1 = bad_closes w"
      "later w w1" "accepted w1 = accepted w" "quic_in w1 = quic_in w"
      using st by (simp_all add: streamed_def same_os_def)
    have lenw: "length (write_at c off ?bs) = length c" by (rule length_write_at_in) (use rng in simp)
    have store: "(if ?bs = [] then io_ret () else map_store ?p off ?bs) ?w2 = Some (Ok (), ?w3)"
    proof (cases "?bs = []")
      case True
      have "write_at c off ?bs = c" unfolding True by simp
      then have "?w3 = ?w2" using same os(2) by (intro quic_world.equality) simp_all
      then show ?thesis unfolding if_P [OF True] by simp
    next
      case nonempty: False
      have "off + length ?bs \<le> length (padded ?w2 c)" using length_padded [of c ?w2] rng by simp
      then show ?thesis unfolding if_not_P [OF nonempty]
        using fd(2) os(2) lenw by (simp add: map_store_def contents_def)
    qed
    have F: "filled ?p off len c ?bs w ?w4"
    proof -
      have zc: "zc_ok ?w4" using i1 by (simp add: quic_inv_def zc_ok_def)
      have dst: "dest_ok ?w4" using rng lenw by (simp add: dest_ok_def)
      have "quic_in w = recv_buf w1 @ future w1" using os(7) by (simp add: quic_in_def)
      then have "take (length ?bs) (quic_in w) = ?bs" "drop (length ?bs) (quic_in w) = quic_in ?w4"
        "length ?bs \<le> length (quic_in w)"
        by (simp_all add: quic_in_def future_def min_def)
      moreover have "later w ?w4" using os(5) by (simp add: later_def)
      moreover have "kept [] ?w4" "frames_ok ?w4" using i1 by (simp_all add: quic_inv_def kept_def frames_ok_def)
      moreover have "length (recv_buf w1) \<le> len \<or> min (length (recv_buf w1)) len = len" by linarith
      ultimately show ?thesis using os zc dst unfolding filled_def qinv_def by simp
    qed
    have "wp True (io_finally
        (io_bind (take_buffered len) (\<lambda>bs.
         io_bind (if bs = [] then io_ret () else map_store ?p off bs) (\<lambda>_.
         io_bind (io_modify (\<lambda>w. w\<lparr>recv_dest := Some (?p, off), recv_dest_len := len, recv_dest_got := length bs\<rparr>)) (\<lambda>_.
         io_loop (fill_turn len) ()))))
        (\<lambda>w. w\<lparr>recv_dest := None\<rparr>)) ?Q w1"
    proof -
      have "io_bind (take_buffered len) (\<lambda>bs.
         io_bind (if bs = [] then io_ret () else map_store ?p off bs) (\<lambda>_.
         io_bind (io_modify (\<lambda>w. w\<lparr>recv_dest := Some (?p, off), recv_dest_len := len, recv_dest_got := length bs\<rparr>)) (\<lambda>_.
         io_loop (fill_turn len) ()))) w1 = io_loop (fill_turn len) () ?w4"
        using store by (simp add: take_buffered_def io_get_def io_modify_def io_bind_def)
      then have run: "wp True (io_bind (take_buffered len) (\<lambda>bs.
         io_bind (if bs = [] then io_ret () else map_store ?p off bs) (\<lambda>_.
         io_bind (io_modify (\<lambda>w. w\<lparr>recv_dest := Some (?p, off), recv_dest_len := len, recv_dest_got := length bs\<rparr>)) (\<lambda>_.
         io_loop (fill_turn len) ())))) R w1 = wp True (io_loop (fill_turn len) ()) R ?w4" for R
        by (simp add: wp_def)
      show ?thesis unfolding wp_finally run
      proof (rule wp_mono [OF fill_loop_wp [OF F rng(1)]], goal_cases)
        case (1 r w5)
        then have f: "filled ?p off len c ?bs w w5" by simp
        then have "qinv w5" "kept [] w5" "frames_ok w5" by (simp_all add: filled_def)
        then have "quic_inv (w5\<lparr>recv_dest := None\<rparr>)"
          by (simp add: quic_inv_def qinv_def zc_ok_def kept_def frames_ok_def)
        then show ?case using f 1
          by (auto simp: filled_def quic_in_def future_def intro!: exI [of _ "recv_dest_got w5"])
      qed
    qed
    moreover have "?Q (Throw e) w1" for e
      using os same i1 by (auto intro!: exI [of _ 0])
    ultimately show ?case using m r map_start [OF rng(2)] by (auto simp: Let_def wp_simps)
  qed
qed

section \<open>The rest of a connection's life\<close>

lemma qf_loop:
  assumes body: "\<And>s w. qinv w \<Longrightarrow> wp True (body s) (qfine w) w" and w: "qinv w"
  shows "wp True (io_loop body s) (qfine w) w"
proof (rule wp_io_loop [where I = "\<lambda>_ w'. pumped w w' \<and> qinv w'"])
  show "pumped w w \<and> qinv w" using w by auto
next
  fix s w1 assume 1: "pumped w w1 \<and> qinv w1"
  show "wp True (body s) (on_turn (\<lambda>_ w'. pumped w w' \<and> qinv w') (qfine w)) w1"
  proof (rule wp_mono [OF body], goal_cases)
    case 1
    then show ?case using \<open>pumped w w1 \<and> qinv w1\<close> by blast
  next
    case (2 r w2)
    then have "qfine w r w2" using qfine_step [OF _ qinv_dest [OF w]] 1 by blast
    then show ?case by (auto simp: on_turn_def qfine_def split: res.splits sum.splits)
  qed
qed

lemma linger_fine:
  assumes "qinv w"
  shows "wp True (linger deadline) (qfine w) w"
  unfolding linger_def
proof (rule qf_loop [OF _ assms], rule qf_get, rule qf_if, goal_cases)
  case (2 s w)
  show ?case
  proof (rule qf_quiet [OF lib_quiet(1) [OF 2(1)] 2(1)], rule qf_if, goal_cases)
    case (2 now w1)
    show ?case by (rule qf_bind [OF pump_once_fine [OF 2(2)] 2(2)]) (rule qf_ret)
  qed (rule qf_ret)
qed (rule qf_ret)

lemma close_graceful_fine:
  assumes "qinv w"
  shows "wp True close_graceful (qfine w) w"
  unfolding close_graceful_def wp_bind [of _ close_is_moot]
proof (rule wp_mono [OF close_is_moot_wp [OF assms]], goal_cases)
  case (1 r w1)
  then have p: "pumped w w1" "qinv w1" "r \<noteq> Undef" by (simp_all add: qfine_def)
  show ?case
  proof (cases r)
    case (Ok m)
    let ?rest = "io_bind (io_get (\<lambda>w. unacked w \<noteq> [])) (\<lambda>pending.
      io_bind (if pending then io_bind now_ns (\<lambda>now. linger (now + QUIC_CLOSE_LINER_NS)) else io_ret ()) (\<lambda>_.
      io_bind (io_get (\<lambda>w. pending \<and> quic_closed w)) (\<lambda>c. if c then io_ret () else send_close No_error)))"
    have "wp True ?rest (qfine w1) w1" if open1: "\<not> quic_closed w1"
    proof (rule qf_get, cases "unacked w1 \<noteq> []")
      case True
      have l: "wp True (io_bind now_ns (\<lambda>now. linger (now + QUIC_CLOSE_LINER_NS))) (qfine w1) w1"
        by (rule qf_quiet [OF lib_quiet(1) [OF p(2)] p(2)]) (rule linger_fine)
      show "wp True (io_bind (if unacked w1 \<noteq> [] then io_bind now_ns (\<lambda>now. linger (now + QUIC_CLOSE_LINER_NS)) else io_ret ())
          (\<lambda>_. io_bind (io_get (\<lambda>w. unacked w1 \<noteq> [] \<and> quic_closed w)) (\<lambda>c. if c then io_ret () else send_close No_error)))
          (qfine w1) w1"
        unfolding if_P [OF True]
        by (rule qf_bind [OF l p(2)], rule qf_get, rule qf_if) (use True in \<open>auto intro: qf_ret send_close_fine\<close>)
    next
      case False
      then show "wp True (io_bind (if unacked w1 \<noteq> [] then io_bind now_ns (\<lambda>now. linger (now + QUIC_CLOSE_LINER_NS)) else io_ret ())
          (\<lambda>_. io_bind (io_get (\<lambda>w. unacked w1 \<noteq> [] \<and> quic_closed w)) (\<lambda>c. if c then io_ret () else send_close No_error)))
          (qfine w1) w1"
        using send_close_fine [OF p(2) open1] by (simp add: wp_simps)
    qed
    then have "wp True (if m then io_ret () else ?rest) (qfine w1) w1"
      using 1 Ok p by (auto intro: qf_ret)
    then have "wp True (if m then io_ret () else ?rest) (qfine w) w1"
      by (rule wp_mono) (rule qfine_step [OF p(1) qinv_dest [OF assms]])
    then show ?thesis using Ok by simp
  qed (use 1 in \<open>simp_all add: qfine_def\<close>)
qed

lemma run_handshake_fine:
  assumes "qinv w"
  shows "wp True run_handshake (qfine w) w"
  unfolding run_handshake_def
proof (rule qf_bind [OF drain_packets_fine [OF assms] assms], rule qf_if, goal_cases)
  case (2 ok w1)
  show ?case
  proof (rule qf_loop [OF _ 2(2)], goal_cases)
    case (1 s w)
    show ?case
    proof (rule qf_quiet [OF lib_quiet(6) [OF 1] 1], rule qf_if, goal_cases)
      case (2 fin w1)
      show ?case by (rule qf_bind [OF pump_once_fine [OF 2(2)] 2(2)]) (rule qf_ret)
    qed (rule qf_ret)
  qed
qed (rule qf_ret)

lemma fin_turn_fine:
  assumes "qinv w"
  shows "wp True (fin_turn u) (qfine w) w"
  unfolding fin_turn_def
proof (rule qf_get, rule qf_if, goal_cases)
  case 2
  have pump: "wp True (io_bind (pump_once QUIC_NO_DEADLINE) (\<lambda>ok. io_ret (if ok then Inl () else Inr (-1 :: int)))) (qfine w1) w1"
    if "qinv w1" for w1 :: "'a quic_world_scheme"
    by (rule qf_bind [OF pump_once_fine [OF that] that]) (rule qf_ret)
  show ?case
  proof (rule qf_bind [OF begin_packet_fine [OF assms] assms], rule qf_quiet [OF lib_quiet(7)], assumption, assumption, goal_cases)
    case (1 x w1 res w2)
    show ?case
    proof (cases res)
      case (Wrote n wd)
      have fin: "wp True (io_bind (io_modify (\<lambda>w. w\<lparr>fin_sent := True\<rparr>)) (\<lambda>_. io_bind flush_packets (\<lambda>_. io_ret (Inr 0 :: unit + int))))
          (qfine w3) w3" if w3: "qinv w3" for w3 :: "'a quic_world_scheme"
      proof (rule qf_set)
        have "quiet_step w3 (w3\<lparr>fin_sent := True\<rparr>)" by (rule quiet_stepI) (use w3 in simp_all)
        then show "pumped w3 (w3\<lparr>fin_sent := True\<rparr>)" and
          "wp True (io_bind flush_packets (\<lambda>_. io_ret (Inr 0 :: unit + int))) (qfine (w3\<lparr>fin_sent := True\<rparr>)) (w3\<lparr>fin_sent := True\<rparr>)"
          using w3 by (auto simp: quiet_step_def intro!: qf_bind [OF flush_packets_fine] qf_ret)
      qed (use w3 in simp)
      show ?thesis unfolding Wrote write_result.case
        by (rule qf_bind [OF send_packet_qfine], fact, fact, intro qf_if) (auto intro: qf_ret fin)
    next
      case Nothing_written
      then show ?thesis using pump [OF \<open>qinv w2\<close>] by simp
    next
      case (Write_error e)
      have "wp True (io_bind (close_error e) (\<lambda>_. io_ret (Inr (-1) :: unit + int))) (qfine w2) w2"
        by (rule qf_bind [OF close_error_fine], fact, fact) (rule qf_ret)
      then show ?thesis using pump [OF \<open>qinv w2\<close>] Write_error by simp
    qed
  qed
qed (use assms in \<open>simp add: qf_ret\<close>)

lemma send_fin_fine:
  assumes "qinv w"
  shows "wp True send_fin (qfine w) w"
  unfolding send_fin_def
  by (intro qf_get qf_if qf_ret qf_loop fin_turn_fine) (use assms in simp_all)

end
