(* ===== verification/Quic_Session.thy ===== *)
theory Quic_Session
  imports Quic_Transport
begin

text \<open>
  What a user of the QUIC transport sees, from the handshake to the destructor: sessions of calls
  on one connection, the properties of the transport over them, and a sample connection on which
  they are applied.
\<close>

section \<open>Sessions\<close>

text \<open>A user of the stream, who gives up at the first failure; the answer is what it sent and got.\<close>

datatype quic_call = Do_send "u8 list" | Do_recv nat | Do_fin

primrec quic_do :: "quic_call \<Rightarrow> ('e, u8 list \<times> u8 list) qio" where
  "quic_do (Do_send buf) =
     io_bind (quic_send buf) (\<lambda>n. if n < 0 then io_throw (Runtime_error ''send'') else io_ret (buf, []))"
| "quic_do (Do_recv len) =
     io_bind (quic_recv len) (\<lambda>(n, bs). if n < 0 then io_throw (Runtime_error ''recv'') else io_ret ([], bs))"
| "quic_do Do_fin =
     io_bind send_fin (\<lambda>n. if n < 0 then io_throw (Runtime_error ''send_fin'') else io_ret ([], []))"

primrec quic_session :: "quic_call list \<Rightarrow> ('e, u8 list \<times> u8 list) qio" where
  "quic_session [] = io_ret ([], [])"
| "quic_session (c # cs) =
     io_bind (quic_do c) (\<lambda>(out, inn). io_bind (quic_session cs) (\<lambda>(out', inn'). io_ret (out @ out', inn @ inn')))"

text \<open>The members as the class initialises them, with the connection attached.\<close>

definition quic_fresh :: "'e quic_world_scheme \<Rightarrow> bool" where
  "quic_fresh w \<longleftrightarrow> conn w \<and> stream_id w = -1 \<and> \<not> stream_fin_received w \<and> \<not> fin_sent w \<and> \<not> quic_closed w \<and>
     recv_buf w = [] \<and> recv_dest w = None \<and> recv_dest_len w = 0 \<and> recv_dest_got w = 0 \<and> unacked w = [] \<and>
     stream_offset w = 0 \<and> q_zc w = None \<and> \<not> egress_init w \<and> accepted w = [] \<and> lib_acked w = 0 \<and>
     freed w = [] \<and> close_frames w = []"

lemma fresh_inv: "quic_fresh w \<Longrightarrow> quic_inv w"
  by (simp add: quic_fresh_def quic_inv_def zc_ok_def kept_def frames_ok_def)

definition alive :: "'e quic_world_scheme \<Rightarrow> bool" where
  "alive w \<longleftrightarrow> zc_ok w \<and> recv_dest w = None \<and> frames_ok w \<and> (\<exists>pend. kept pend w)"

lemma alive_inv: "quic_inv w \<Longrightarrow> alive w"
  by (auto simp: quic_inv_def alive_def)

lemma pumped_quic_inv:
  assumes "pumped w w'" and "qinv w'" and "quic_inv w"
  shows "quic_inv w' \<and> accepted w' = accepted w \<and> quic_in w' = quic_in w"
  using pumped_streamed [OF assms(1)] pumped_kept [OF assms(1)] quic_inv_parts [OF assms(3)] assms
  by (simp add: quic_inv_def qinv_def streamed_def)

definition did :: "'e quic_world_scheme \<Rightarrow> (u8 list \<times> u8 list) res \<Rightarrow> 'e quic_world_scheme \<Rightarrow> bool" where
  "did w r w' \<longleftrightarrow> r \<noteq> Undef \<and> alive w' \<and>
     (\<forall>out inn. r = Ok (out, inn) \<longrightarrow> quic_inv w' \<and> accepted w' = accepted w @ out \<and> quic_in w = inn @ quic_in w')"

lemma quic_do_wp:
  assumes "quic_inv w"
  shows "wp True (quic_do c) (did w) w"
proof (cases c)
  case (Do_send buf)
  show ?thesis unfolding Do_send quic_do.simps wp_bind
  proof (rule wp_mono [OF quic_send_wp [OF assms]], goal_cases)
    case (1 r w')
    show ?case
    proof (cases "buf = [] \<and> r = Ok 0")
      case True
      then show ?thesis using 1 assms alive_inv by (simp add: wp_simps did_def)
    next
      case False
      then have W: "written buf w r w'" using 1 by (simp split: if_splits)
      obtain sent pend where "streamed sent w w'" "kept pend w'" "qinv w'" using W by (auto simp: written_def)
      then have al: "alive w'" using quic_inv_parts [OF assms] by (auto simp: alive_def streamed_def qinv_def)
      have nz: "r = Ok n \<Longrightarrow> 0 \<le> n \<Longrightarrow> 0 < n" for n using W False by (cases "buf = []") (auto simp: written_def)
      show ?thesis
      proof (cases r)
        case (Ok n)
        then show ?thesis using written_law [OF W assms] al nz [OF Ok] by (auto simp: wp_simps did_def)
      qed (use written_law [OF W assms] al in \<open>simp_all add: did_def\<close>)
    qed
  qed
next
  case (Do_recv len)
  show ?thesis unfolding Do_recv quic_do.simps wp_bind
  proof (rule wp_mono [OF quic_recv_wp [OF assms]], goal_cases)
    case (1 r w')
    show ?case using 1 alive_inv [of w'] by (cases r) (auto simp: wp_simps did_def)
  qed
next
  case Do_fin
  show ?thesis unfolding Do_fin quic_do.simps wp_bind
  proof (rule wp_mono [OF send_fin_fine], goal_cases)
    case 1
    show ?case using quic_inv_parts [OF assms] by simp
  next
    case (2 r w')
    then have "quic_inv w'" "accepted w' = accepted w" "quic_in w' = quic_in w" "r \<noteq> Undef"
      using pumped_quic_inv [of w w'] assms by (simp_all add: qfine_def)
    then show ?case using alive_inv [of w'] by (cases r) (simp_all add: wp_simps did_def)
  qed
qed

lemma quic_session_wp: "quic_inv w \<Longrightarrow> wp True (quic_session cs) (did w) w"
proof (induction cs arbitrary: w)
  case Nil
  then show ?case using alive_inv [of w] by (simp add: wp_simps did_def)
next
  case (Cons c cs)
  show ?case unfolding quic_session.simps wp_bind [of _ "quic_do c"]
  proof (rule wp_mono [OF quic_do_wp [OF Cons.prems]], goal_cases)
    case (1 r w1)
    show ?case
    proof (cases r)
      case (Ok x)
      obtain out inn where x: "x = (out, inn)" by (cases x)
      then have w1: "quic_inv w1" "accepted w1 = accepted w @ out" "quic_in w = inn @ quic_in w1"
        using 1 Ok by (auto simp: did_def)
      have "wp True (io_bind (quic_session cs) (\<lambda>(out', inn'). io_ret (out @ out', inn @ inn'))) (did w) w1"
        unfolding wp_bind
      proof (rule wp_mono [OF Cons.IH [OF w1(1)]], goal_cases)
        case (1 r2 w2)
        then show ?case using w1(2,3) by (cases r2) (auto simp: wp_simps did_def)
      qed
      then show ?thesis using Ok x by simp
    qed (use 1 in \<open>simp_all add: did_def\<close>)
  qed
qed

lemma handshake_inv:
  assumes "quic_fresh w0" and "run_handshake w0 = Some (r, w)"
  shows "quic_inv w \<and> accepted w = [] \<and> quic_in w = quic_in w0"
proof -
  have "qinv w0" using quic_inv_parts [OF fresh_inv [OF assms(1)]] by blast
  from wpD [OF run_handshake_fine [OF this] assms(2)] have "pumped w0 w" "qinv w" by (simp_all add: qfine_def)
  from pumped_quic_inv [OF this fresh_inv [OF assms(1)]] show ?thesis using assms(1) by (simp add: quic_fresh_def)
qed

lemma kept_covers:
  assumes "ends_at s us" and "drop s A @ pend = concat (map snd us)" and "s \<le> i" and "i < length A"
  shows "\<exists>u \<in> set us. length (snd u) \<le> fst u \<and> fst u - length (snd u) \<le> i \<and> i < fst u \<and>
    snd u ! (i - (fst u - length (snd u))) = A ! i"
  using assms
proof (induction us arbitrary: s)
  case Nil
  then show ?case by simp
next
  case (Cons u us)
  have f: "fst u = s + length (snd u)" using Cons.prems(1) by simp
  have c: "drop s A @ pend = snd u @ concat (map snd us)" using Cons.prems(2) by simp
  show ?case
  proof (cases "i < fst u")
    case True
    have "i - s < length (snd u)" using True f Cons.prems(3) by linarith
    then have "snd u ! (i - s) = (drop s A @ pend) ! (i - s)" unfolding c by (simp add: nth_append)
    also have "\<dots> = A ! i"
    proof -
      have "i - s < length (drop s A)" using Cons.prems(3,4) by simp
      then show ?thesis using Cons.prems(3) by (simp add: nth_append)
    qed
    finally show ?thesis using True f Cons.prems(3) by auto
  next
    case False
    have "drop (length (snd u)) (drop s A @ pend) = concat (map snd us)" unfolding c by simp
    then have "drop (fst u) A @ pend = concat (map snd us)"
      using False f Cons.prems(4) by (simp add: add.commute)
    then show ?thesis using Cons.IH [of "fst u"] Cons.prems False by auto
  qed
qed

lemma close_graceful_frames:
  assumes "qinv w" and "frames_ok w"
  shows "wp True (if conn w \<and> \<not> quic_closed w then close_graceful else io_ret ())
    (\<lambda>r w'. r \<noteq> Undef \<and> qinv w' \<and> frames_ok w') w"
proof -
  have "wp True (if conn w \<and> \<not> quic_closed w then close_graceful else io_ret ()) (qfine w) w"
    by (rule qf_if) (use close_graceful_fine [OF assms(1)] qf_ret [OF assms(1)] in auto)
  then show ?thesis
    by (rule wp_mono) (use assms(2) in \<open>auto simp: qfine_def pumped_def\<close>)
qed

lemma destroy_fine:
  assumes "qinv w" and "frames_ok w"
  shows "wp True quic_destroy (\<lambda>r w'. length (close_frames w') \<le> 1 \<and> r \<noteq> Undef \<and>
    (r = Ok () \<longrightarrow> unacked w' = [] \<and> \<not> conn w')) w"
    (is "wp True _ ?Q w")
  unfolding quic_destroy_def wp_bind [of _ "io_get _"] wp_bind [of _ "if _ then _ else _"] wp_state on_ok_simps
proof (rule wp_mono [OF close_graceful_frames [OF assms]], goal_cases)
  case (1 r w3)
  then have w3: "r \<noteq> Undef" "qinv w3" "frames_ok w3" by simp_all
  then have len: "length (close_frames w3) \<le> 1" by (simp add: frames_ok_def split: if_splits)
  let ?w4 = "w3\<lparr>conn := False\<rparr>"
  have q4: "qinv ?w4" by (rule qinv_frame [OF _ _ _ _ _ w3(2)]) simp_all
  have "wp True (io_bind zc_reset (\<lambda>_. io_modify (\<lambda>w. w\<lparr>freed := freed w @ unacked w, unacked := []\<rparr>))) ?Q ?w4"
    unfolding wp_bind
    by (rule wp_mono [OF zc_reset_fine [OF q4]]) (use len in \<open>auto simp: wp_simps\<close>)
  then show ?case using w3(1) len by (cases r) (simp_all add: wp_bind [of _ "io_modify _"] wp_state)
qed

section \<open>Properties\<close>

text \<open>The client opens the stream itself; the server learns of it from a callback.\<close>

definition with_stream :: "int \<Rightarrow> 'e quic_world_scheme \<Rightarrow> 'e quic_world_scheme" where
  "with_stream sid w = w\<lparr>stream_id := sid\<rparr>"

lemma with_stream_inv: "quic_inv (with_stream sid w) = quic_inv w" "accepted (with_stream sid w) = accepted w"
  "quic_in (with_stream sid w) = quic_in w"
  by (simp_all add: with_stream_def quic_inv_def zc_ok_def kept_def frames_ok_def quic_in_def future_def)

text \<open>C8: over a connection just made, a session that ends without a failure has put exactly the
  bytes it sent on the stream, in order and once, and got a prefix of the peer's bytes, whatever
  the library, the ring and the network do meanwhile: blocked writes, lost or refused datagrams,
  data and acknowledgements arriving in the middle of a send. No call has undefined behaviour.\<close>

theorem quic_session_exact:
  assumes "quic_fresh w0" and "run_handshake w0 = Some (Ok 0, w1)"
    and "quic_session cs (with_stream sid w1) = Some (r, w)"
  shows "r \<noteq> Undef \<and>
    (\<forall>out inn. r = Ok (out, inn) \<longrightarrow> accepted w = out \<and> quic_in w0 = inn @ quic_in w)"
proof -
  note H = handshake_inv [OF assms(1,2)]
  from wpD [OF quic_session_wp assms(3)] H show ?thesis by (simp add: with_stream_inv did_def)
qed

text \<open>C9: at any point of a session, also after a failed call, every byte the library has taken and
  the peer has not acknowledged lies unchanged in a block that is still retained, at the place the
  block's end offset says, so that a retransmission can read it.\<close>

theorem quic_unacked_retained:
  assumes "quic_fresh w0" and "run_handshake w0 = Some (Ok 0, w1)"
    and "quic_session cs (with_stream sid w1) = Some (r, w)"
    and "lib_acked w \<le> i" and "i < length (accepted w)"
  shows "\<exists>(end, block) \<in> set (unacked w). length block \<le> end \<and> end - length block \<le> i \<and> i < end \<and>
    block ! (i - (end - length block)) = accepted w ! i"
proof -
  note H = handshake_inv [OF assms(1,2)]
  from wpD [OF quic_session_wp assms(3)] H have "alive w" by (simp add: with_stream_inv did_def)
  then obtain pend s where "s \<le> lib_acked w" "drop s (accepted w) @ pend = concat (map snd (unacked w))"
    "ends_at s (unacked w)" by (auto simp: alive_def kept_def)
  from kept_covers [OF this(3,2) _ assms(5)] this(1) assms(4) show ?thesis by (auto simp: case_prod_unfold)
qed

text \<open>C11: a connection sends at most one CONNECTION_CLOSE in its life, whatever happens in its
  handshake and session and while its destructor waits for acknowledgements, and the destructor
  has no undefined behaviour; when it returns the library's connection is gone and no block is left.\<close>

theorem quic_closed_once:
  assumes "quic_fresh w0" and "run_handshake w0 = Some (Ok 0, w1)"
    and "quic_session cs (with_stream sid w1) = Some (r, w2)" and "quic_destroy w2 = Some (q, w)"
  shows "length (close_frames w) \<le> 1 \<and> q \<noteq> Undef \<and> (q = Ok () \<longrightarrow> unacked w = [] \<and> \<not> conn w)"
proof -
  note H = handshake_inv [OF assms(1,2)]
  from wpD [OF quic_session_wp assms(3)] H have a: "alive w2" by (simp add: with_stream_inv did_def)
  then have i: "qinv w2" "frames_ok w2" by (simp_all add: alive_def qinv_def dest_ok_def)
  from wpD [OF destroy_fine [OF i] assms(4)] show ?thesis .
qed

text \<open>C10: a range of a file sent over a connection and received at the peer is stored there
  unchanged, in its place and with nothing else of the file touched, whatever the libraries and
  the network did on either side; only failing is possible besides, and no access is undefined.\<close>

theorem quic_file_transfer:
  assumes "quic_inv wa" and "fds wa fa = Some ofa" and "files wa (of_path ofa) = Some ca" and "off + len \<le> length ca"
    and "quic_inv wb" and "fds wb fb = Some ofb" and "files wb (of_path ofb) = Some cb" and "off + len \<le> length cb"
    and "off < 2 ^ 64"
    and "quic_send_file fa off len wa = Some (ra, wa')" and "quic_recv_file fb off len wb = Some (rb, wb')"
    and "accepted wa' = accepted wa @ quic_in wb"
  shows "ra \<noteq> Undef \<and> rb \<noteq> Undef \<and>
    (ra = Ok () \<and> rb = Ok () \<longrightarrow> files wb' = (files wb)(of_path ofb \<mapsto> write_at cb off (region off len ca)) \<and> quic_in wb' = [])"
proof -
  from wpD [OF quic_send_file_wp [OF assms(1-4,9)] assms(10)]
  have a: "ra \<noteq> Undef" "ra = Ok () \<Longrightarrow> quic_in wb = region off len ca" using assms(12) by auto
  from wpD [OF quic_recv_file_wp [OF assms(5-8,9)] assms(11)]
  obtain k where b: "rb \<noteq> Undef" "files wb' = (files wb)(of_path ofb \<mapsto> write_at cb off (take k (quic_in wb)))"
    "drop k (quic_in wb) = quic_in wb'" "rb = Ok () \<longrightarrow> k = len" by blast
  have "take len (quic_in wb) = quic_in wb \<and> drop len (quic_in wb) = []" if "ra = Ok ()"
    using a(2) [OF that] assms(4) by simp
  then show ?thesis using a b by auto
qed

text \<open>Once the connection has ended without a FIN and \<^verbatim>\<open>errno\<close> happens to be EAGAIN from an earlier
  call, reading a message from it never returns: the wait ends at once with \<open>-1\<close> and leaves
  \<^verbatim>\<open>errno\<close> alone, and \<^verbatim>\<open>recv_exact\<close> takes it for a reason to try again.\<close>

theorem quic_recv_spins:
  fixes w :: "'a quic_world_scheme"
  assumes "quic_closed w" and "recv_buf w = []" and "\<not> stream_fin_received w" and "errno w = EAGAIN" and "0 < len"
  shows "recv_exact quic_transport len w = None"
proof -
  have recv: "quic_recv n w = Some (Ok (-1, []), w)" for n
    using assms(1-3) by (simp add: quic_recv_def await_data_def io_loop.simps io_get_def io_bind_def)
  show ?thesis
  proof (cases "recv_exact quic_transport len w")
    case (Some y)
    have run: "recv_exact_loop quic_transport len [] w = Some y" using Some by (simp add: recv_exact_def)
    let ?P = "\<lambda>(t :: 'a quic_world_scheme transport) l (b :: u8 list) v (y :: u8 list res \<times> 'a quic_world_scheme). t = quic_transport \<longrightarrow> l = len \<longrightarrow> b = [] \<longrightarrow> v \<noteq> w"
    have "?P quic_transport len [] w y"
    proof (rule recv_exact_loop.raw_induct [where P = ?P, OF _ run])
      fix g t l b w' y
      assume IH: "\<And>t l b w' y. g t l b w' = Some y \<Longrightarrow> ?P t l b w' y"
        and eq: "(if length b < l then
          Option.bind (t_recv t (l - length b) w') (\<lambda>(r, w').
          case r of
            Ok (n, bs) \<Rightarrow>
              (if n = 0 then Some (Throw (Runtime_error ''recv exact: connection closed''), w')
               else if n < 0 then
                 (if errno w' = EAGAIN then g t l b w'
                  else Some (Throw (Runtime_error ''recv exact: recv failed: ''), w'))
               else g t l (b @ bs) w')
          | Throw e \<Rightarrow> Some (Throw e, w')
          | Undef \<Rightarrow> Some (Undef, w'))
      else Some (Ok b, w')) = Some y"
      show "?P t l b w' y"
      proof (intro impI notI)
        assume a: "t = quic_transport" "l = len" "b = []" "w' = w"
        then have "g quic_transport len [] w = Some y"
          using eq assms(4,5) recv by (simp add: quic_transport_def)
        then show False using IH by blast
      qed
    qed
    then show ?thesis by simp
  qed
qed

section \<open>A sample connection\<close>

text \<open>One packet brings the stream and two bytes, another the acknowledgement of all that was sent.\<close>

definition sample_quic :: "(string \<Rightarrow> u8 list option) \<Rightarrow> (int \<Rightarrow> ofile option) \<Rightarrow> u8 list \<Rightarrow> quic_world" where
  "sample_quic fs ds inn =
     \<lparr>files = fs, fds = ds, next_fd = 4, bad_closes = 0, script = [Xfer 1, Xfer 1, Xfer 1, Xfer 1, Xfer 1, Xfer 1, Xfer 1, Xfer 1, Xfer 1, Xfer 1, Xfer 1, Xfer 1, Xfer 1, Xfer 1], errno = 0,
      page_bits = 4, conn = True, stream_id = -1, stream_fin_received = False, fin_sent = False,
      quic_closed = False, recv_buf = [], recv_dest = None, recv_dest_len = 0, recv_dest_got = 0,
      unacked = [], freed = [], stream_offset = 0, egress_init = False, egress_sendmsg = True,
      zc_setup = (0, False, []), q_zc = None, accepted = [], lib_acked = 0,
      lib_writes = [Nothing_written, Nothing_written, Wrote 50 2, Wrote 50 1, Nothing_written],
      lib_reads = [([Stream_open 0, Stream_data False inn], None), ([Acked 3], None)],
      lib_expiries = [5000, 5000, 5000, 5000, 5000, 5000, 5000, 5000], lib_timers = [], lib_ending = [False], lib_close = [30],
      lib_handshake = [False, True], clock = [1000, 1000, 1000, 1000, 1000, 1000, 1000, 1000, 1000, 1000], close_frames = []\<rparr>"

abbreviation plain_quic :: quic_world where
  "plain_quic \<equiv> sample_quic Map.empty Map.empty [7, 8]"

lemma sample_fresh: "quic_fresh (sample_quic fs ds inn)"
  by (simp add: quic_fresh_def sample_quic_def)

lemma burst_first:
  "drain_burst QUIC_MAX_BURST =
     io_bind begin_packet (\<lambda>_.
     io_bind (conn_writev_stream []) (\<lambda>x.
       case x of
         Nothing_written \<Rightarrow> io_ret None
       | Write_error _ \<Rightarrow> io_ret (Some False)
       | Wrote n _ \<Rightarrow>
           io_bind (send_packet n) (\<lambda>sr.
             if sr = Blocked then io_ret None else if sr = Failed then io_ret (Some False) else drain_burst 9)))"
  using drain_burst.simps(2) [of 9] by (simp add: QUIC_MAX_BURST_def)

lemmas quic_eval =
  run_handshake_def drain_packets_def burst_first begin_packet_def init_egress_def conn_writev_stream_def
  flush_packets_def take_answer_def io_get_def io_modify_def io_bind_def io_loop_code pump_once_def
  conn_get_handshake_completed_def conn_get_expiry_def now_ns_def sys_select_def sys_next_def sys_def
  pump_receive_def pump_timers_def pump_timeout_def sys_recvmsg_def feed_data_def run_callback_def
  on_stream_open_def on_recv_stream_data_def on_acked_stream_data_offset_def send_packet_def sys_sendmsg_def
  quic_send_def retain_def write_stream_def write_turn_def quic_recv_def await_data_def take_buffered_def
  quic_destroy_def close_graceful_def close_is_moot_def conn_is_ending_def linger_def send_close_def
  conn_write_connection_close_def zc_reset_def with_stream_def QUIC_CLOSE_LINER_NS_def
  QUIC_NO_DEADLINE_def UINT64_MAX_def QUIC_MAX_RECV_PKTLEN_def QUIC_MAX_PKTLEN_def

text \<open>The connection after its handshake, and after a session on it.\<close>

definition shook :: quic_world where
  "shook = snd (the (run_handshake plain_quic))"

definition talked :: quic_world where
  "talked = snd (the (quic_session [Do_send [1, 2, 3], Do_recv 10] (with_stream 0 shook)))"

lemma sample_shook: "run_handshake plain_quic = Some (Ok 0, shook)"
  unfolding shook_def by (simp add: sample_quic_def quic_eval del: io_bind_Ok io_bind_Throw io_bind_Undef io_bind_None)

lemma sample_talked:
  "quic_session [Do_send [1, 2, 3], Do_recv 10] (with_stream 0 shook) = Some (Ok ([1, 2, 3], [7, 8]), talked)"
  "length (accepted talked) = 3" "lib_acked talked = 0"
  "map_option (\<lambda>(q, w). (q, close_frames w)) (quic_destroy talked) = Some (Ok (), [No_error])"
  unfolding talked_def shook_def
  by (simp_all add: sample_quic_def quic_eval del: io_bind_Ok io_bind_Throw io_bind_Undef io_bind_None)

lemmas quic_file_eval = quic_send_file_def quic_recv_file_def sys_map_file_def map_load_def map_store_def padded_def
  page_size_def map_base_def map_delta_def region_def write_at_def fill_turn_def pump_or_abort_def fail_errno_def io_finally_def contents_def

abbreviation sample_file :: ofile where
  "sample_file \<equiv> \<lparr>of_path = ''a'', of_pos = 0\<rparr>"

abbreviation sending_quic :: quic_world where
  "sending_quic \<equiv> with_stream 0 (sample_quic [''a'' \<mapsto> [1, 2, 3, 4, 5]] [3 \<mapsto> sample_file] [])"

abbreviation receiving_quic :: quic_world where
  "receiving_quic \<equiv> with_stream 0 (sample_quic [''a'' \<mapsto> [0, 0, 0, 0, 0]] [3 \<mapsto> sample_file] [2, 3, 4])"

lemma sample_files:
  "\<exists>w. quic_send_file 3 1 3 sending_quic = Some (Ok (), w) \<and> accepted w = [2, 3, 4]"
  "\<exists>w. quic_recv_file 3 1 3 receiving_quic = Some (Ok (), w)"
  by (simp_all add: sample_quic_def quic_eval quic_file_eval del: io_bind_Ok io_bind_Throw io_bind_Undef io_bind_None)

lemma quic_session_exact_witness:
  "accepted talked = [1, 2, 3] \<and> quic_in plain_quic = [7, 8] @ quic_in talked"
  using quic_session_exact [OF sample_fresh sample_shook sample_talked(1)] by simp

lemma quic_unacked_retained_witness:
  "\<exists>(end, block) \<in> set (unacked talked). length block \<le> end \<and> end - length block \<le> 1 \<and> 1 < end \<and>
    block ! (1 - (end - length block)) = accepted talked ! 1"
  using quic_unacked_retained [OF sample_fresh sample_shook sample_talked(1), of 1] sample_talked(2,3) by simp

lemma quic_closed_once_witness:
  "\<exists>w. quic_destroy talked = Some (Ok (), w) \<and> close_frames w = [No_error] \<and> unacked w = [] \<and> \<not> conn w"
proof -
  obtain w where w: "quic_destroy talked = Some (Ok (), w)" "close_frames w = [No_error]"
    using sample_talked(4) by auto
  from quic_closed_once [OF sample_fresh sample_shook sample_talked(1) w(1)] w show ?thesis by simp
qed

lemma quic_file_transfer_witness:
  "\<exists>w. quic_recv_file 3 1 3 receiving_quic = Some (Ok (), w) \<and> files w ''a'' = Some [0, 2, 3, 4, 0]"
proof -
  obtain wa where a: "quic_send_file 3 1 3 sending_quic = Some (Ok (), wa)" "accepted wa = [2, 3, 4]"
    using sample_files(1) by blast
  obtain wb where b: "quic_recv_file 3 1 3 receiving_quic = Some (Ok (), wb)"
    using sample_files(2) by blast
  have i: "quic_inv sending_quic" "quic_inv receiving_quic"
    by (simp_all add: with_stream_inv fresh_inv sample_fresh)
  have acc: "accepted wa = accepted sending_quic @ quic_in receiving_quic"
    using a(2) by (simp add: sample_quic_def with_stream_def quic_in_def future_def callback_data_def)
  have "files wb = (files receiving_quic)(of_path sample_file \<mapsto> write_at [0, 0, 0, 0, 0] 1 (region 1 3 [1, 2, 3, 4, 5]))"
    using quic_file_transfer [OF i(1) _ _ _ i(2) _ _ _ _ a(1) b acc, of sample_file "[1, 2, 3, 4, 5]" sample_file "[0, 0, 0, 0, 0]"]
    by (simp add: sample_quic_def with_stream_def)
  then show ?thesis using b by (simp add: write_at_def region_def)
qed

lemma quic_recv_spins_witness:
  "recv_exact quic_transport 8 (plain_quic\<lparr>quic_closed := True, errno := EAGAIN\<rparr>) = None"
  by (rule quic_recv_spins) (simp_all add: sample_quic_def)

end
