(* ===== verification/Udp_Transport.thy ===== *)
theory Udp_Transport
  imports Tcp_Transport Factories
begin

text \<open>
  \<^verbatim>\<open>src/transport/udp_transport.hpp\<close> and \<^verbatim>\<open>udp_transport.cpp\<close>: file ranges over UDP datagrams, read
  and written through io_uring, with a byte at the start and an acknowledgement per chunk on a
  second transport, the control connection.

  The ring is modelled as its three queues. An entry is prepared, submitted, executed by the
  kernel and then reaped as a completion; which submitted operation the kernel executes next, and
  with what result, is in the script \<open>u_runs\<close>, one entry per wait. Memory is what the two
  mappings of \<open>IoUringCtx\<close> hold. Datagrams arrive in the order of \<open>net_in\<close>; the number in
  front of one says how many control messages its sender had to see before sending it.
\<close>

unbundle bit_operations_syntax

section \<open>The ring\<close>

text \<open>
  What an entry asks for: file, address, length, file offset and the registered index of a fixed
  buffer; header and data of a datagram; address and size of a receive buffer.
\<close>

datatype uop =
    Read_op int "nat \<times> nat" nat nat "nat option"
  | Send_op "u8 list" "nat \<times> nat" nat
  | Recv_op "nat \<times> nat" nat
  | Write_op int "nat \<times> nat" nat nat "nat option"

datatype kernel_run = Wait_fails | Runs "(nat \<times> sysret) list"

record udp_world = tcp_world +
  u_ring :: uring_ctx
  u_mem :: "nat \<Rightarrow> nat \<Rightarrow> u8"
  u_sq :: "(uop \<times> u64) list"
  u_flight :: "(uop \<times> u64) list"
  u_cq :: "(u64 \<times> int) list"
  u_runs :: "kernel_run list"
  u_limits :: "nat list"
  net_in :: "(nat \<times> u8 list) list"
  net_out :: "u8 list list"
  controls :: nat
  read_completed :: bool
  read_result :: int

type_synonym ('e, 'a) uio = "('e udp_world_scheme, 'a) io"

definition EFAULT :: nat where "EFAULT = 14"

definition load :: "nat \<times> nat \<Rightarrow> nat \<Rightarrow> 'e udp_world_scheme \<Rightarrow> u8 list" where
  "load a n w = map (\<lambda>i. u_mem w (fst a) (snd a + i)) [0..<n]"

definition store :: "nat \<times> nat \<Rightarrow> u8 list \<Rightarrow> 'e udp_world_scheme \<Rightarrow> 'e udp_world_scheme" where
  "store a bs w =
     w\<lparr>u_mem := \<lambda>m i. if m = fst a \<and> snd a \<le> i \<and> i < snd a + length bs then bs ! (i - snd a) else u_mem w m i\<rparr>"

text \<open>A fixed buffer must hold the access; otherwise it must stay in one of the mappings.\<close>

definition reaches :: "uring_ctx \<Rightarrow> nat option \<Rightarrow> nat \<times> nat \<Rightarrow> nat \<Rightarrow> bool" where
  "reaches u fixed a n =
     (case fixed of
        Some i \<Rightarrow> i < length (iovecs u) \<and>
          (case iovecs u ! i of (m, start, len) \<Rightarrow> fst a = m \<and> start \<le> snd a \<and> snd a + n \<le> start + len)
      | None \<Rightarrow>
          fst a = chunk_mem u \<and> snd a + n \<le> chunk_buf_count u * chunk_buf_size u \<or>
          fst a = frag_mem u \<and> snd a + n \<le> frag_buf_count u * frag_buf_size u)"

text \<open>One operation executed; \<open>None\<close> while there is no datagram to receive.\<close>

definition perform :: "sysret \<Rightarrow> uop \<Rightarrow> 'e udp_world_scheme \<Rightarrow> (int \<times> 'e udp_world_scheme) option" where
  "perform out op w =
     (case out of
        Fail e \<Rightarrow> Some (- int e, w)
      | Xfer n \<Rightarrow>
          (case op of
             Read_op fd a len off fixed \<Rightarrow>
               (case fds w fd of
                  None \<Rightarrow> Some (- int EBADF, w)
                | Some f \<Rightarrow>
                    if \<not> reaches (u_ring w) fixed a len then Some (- int EFAULT, w)
                    else let bs = region off (min n len) (contents w (of_path f))
                         in Some (int (length bs), store a bs w))
           | Send_op hdr a len \<Rightarrow>
               Some (int (length hdr + len), w\<lparr>net_out := net_out w @ [hdr @ load a len w]\<rparr>)
           | Recv_op a sz \<Rightarrow>
               (case net_in w of
                  [] \<Rightarrow> None
                | (k, d) # ds \<Rightarrow>
                    if k > controls w then None
                    else Some (int (min sz (length d)), store a (take sz d) (w\<lparr>net_in := ds\<rparr>)))
           | Write_op fd a len off fixed \<Rightarrow>
               (case fds w fd of
                  None \<Rightarrow> Some (- int EBADF, w)
                | Some f \<Rightarrow>
                    if \<not> reaches (u_ring w) fixed a len then Some (- int EFAULT, w)
                    else let bs = load a (min n len) w
                         in Some (int (length bs),
                              w\<lparr>files := (files w)(of_path f \<mapsto> write_at (contents w (of_path f)) off bs)\<rparr>))))"

definition kernel_step :: "nat \<times> sysret \<Rightarrow> 'e udp_world_scheme \<Rightarrow> 'e udp_world_scheme" where
  "kernel_step = (\<lambda>(i, out) w.
     if i < length (u_flight w) then
       (case perform out (fst (u_flight w ! i)) w of
          None \<Rightarrow> w
        | Some (res, w1) \<Rightarrow>
            w1\<lparr>u_flight := take i (u_flight w) @ drop (Suc i) (u_flight w),
               u_cq := u_cq w @ [(snd (u_flight w ! i), res)]\<rparr>)
     else w)"

text \<open>
  \<^verbatim>\<open>io_uring_wait_cqe\<close>, then \<^verbatim>\<open>io_uring_cqe_seen\<close>: \<open>None\<close> when the wait itself fails. A wait in
  which nothing completes does not return.
\<close>

definition uring_wait :: "('e udp_world_scheme, (u64 \<times> int) option) raw" where
  "uring_wait w =
     (case u_runs w of
        [] \<Rightarrow> None
      | Wait_fails # rs \<Rightarrow> Some (None, w\<lparr>u_runs := rs\<rparr>)
      | Runs es # rs \<Rightarrow>
          (let w1 = fold kernel_step es (w\<lparr>u_runs := rs\<rparr>)
           in case u_cq w1 of
                [] \<Rightarrow> None
              | c # cs \<Rightarrow> Some (Some c, w1\<lparr>u_cq := cs\<rparr>)))"

text \<open>\<^verbatim>\<open>io_uring_get_sqe\<close> with the preparation that follows it.\<close>

definition push_sqe :: "exn \<Rightarrow> uop \<Rightarrow> u64 \<Rightarrow> ('e, unit) uio" where
  "push_sqe e op ud =
     io_bind (io_get (\<lambda>w. length (u_sq w))) (\<lambda>n.
       if n \<ge> QUEUE_DEPTH then io_throw e
       else io_modify (\<lambda>w. w\<lparr>u_sq := u_sq w @ [(op, ud)]\<rparr>))"

text \<open>\<^verbatim>\<open>io_uring_submit\<close>, which may take fewer entries than there are; its result is not looked at.\<close>

definition ring_submit :: "('e, unit) uio" where
  "ring_submit =
     io_modify (\<lambda>w.
       let n = (case u_limits w of [] \<Rightarrow> length (u_sq w) | k # _ \<Rightarrow> k)
       in w\<lparr>u_flight := u_flight w @ take n (u_sq w), u_sq := drop n (u_sq w), u_limits := tl (u_limits w)\<rparr>)"

section \<open>User data\<close>

definition TAG_READ :: u8 where "TAG_READ = 1"
definition TAG_SEND :: u8 where "TAG_SEND = 2"
definition TAG_RECV :: u8 where "TAG_RECV = 3"
definition TAG_WRITE :: u8 where "TAG_WRITE = 4"

lemmas tag_defs = TAG_READ_def TAG_SEND_def TAG_RECV_def TAG_WRITE_def

definition TAG_SHIFT :: nat where "TAG_SHIFT = 56"
definition IDX_MASK :: u64 where "IDX_MASK = 0x00FFFFFFFFFFFFFF"

definition make_user_data :: "u8 \<Rightarrow> nat \<Rightarrow> u64" where
  "make_user_data tag idx = push_bit TAG_SHIFT (ucast tag) OR word_of_nat idx"

definition get_tag :: "u64 \<Rightarrow> u8" where
  "get_tag user_data = ucast (drop_bit TAG_SHIFT user_data)"

definition get_index :: "u64 \<Rightarrow> nat" where
  "get_index user_data = unat (user_data AND IDX_MASK)"

section \<open>Fragments\<close>

record frag_hdr =
  chunk_index :: u32
  frag_index :: u32
  frag_len :: u16

definition parse_frag_hdr :: "u8 list \<Rightarrow> frag_hdr" where
  "parse_frag_hdr buf =
     \<lparr>chunk_index = word_of_nat (be_dec (take 4 buf)),
      frag_index = word_of_nat (be_dec (take 4 (drop 4 buf))),
      frag_len = word_of_nat (be_dec (take 2 (drop 8 buf)))\<rparr>"

definition write_frag_hdr :: "u32 \<Rightarrow> u32 \<Rightarrow> u16 \<Rightarrow> u8 list" where
  "write_frag_hdr ci fi fl = be_enc 4 (unat ci) @ be_enc 4 (unat fi) @ be_enc 2 (unat fl)"

record recv_state =
  rs_fd :: int
  rs_offset :: nat
  rs_frag_count :: nat
  rs_received :: "bool list"
  rs_remaining :: nat

text \<open>\<^verbatim>\<open>std::bitset::test\<close>\<close>

definition bitset_test :: "bool list \<Rightarrow> nat \<Rightarrow> bool res" where
  "bitset_test bs i = (if i < length bs then Ok (bs ! i) else Throw (Out_of_range ''bitset::test''))"

text \<open>An unsigned decrement, which wraps at zero.\<close>

definition dec64 :: "nat \<Rightarrow> nat" where
  "dec64 n = (if n = 0 then 2 ^ 64 - 1 else n - 1)"

definition fixed_index :: "uring_ctx \<Rightarrow> nat \<Rightarrow> nat option" where
  "fixed_index u i = (if registered_buffers u then Some i else None)"

text \<open>True when a write was prepared, false for a fragment seen before.\<close>

definition process_fragment :: "nat \<Rightarrow> int \<Rightarrow> recv_state \<Rightarrow> ('e, bool \<times> recv_state) uio" where
  "process_fragment frag_buf_idx bytes_received st =
     (if bytes_received < int FRAG_HDR_SIZE then io_throw (Runtime_error ''process_fragment: datagram too short: '')
      else io_bind (io_get u_ring) (\<lambda>u.
           io_bind (io_lift (frag_buf u frag_buf_idx)) (\<lambda>buf.
           io_bind (io_get (load buf FRAG_HDR_SIZE)) (\<lambda>bs.
           let hdr = parse_frag_hdr bs; i = unat (frag_index hdr)
           in if i \<ge> rs_frag_count st then io_throw (Runtime_error ''process_fragment: frag_index out of range: '')
              else io_bind (io_lift (bitset_test (rs_received st) i)) (\<lambda>dup.
                if dup then io_ret (False, st)
                else
                  io_bind (push_sqe (Runtime_error ''process_fragment: io_uring_get_sqe failed (ring full)'')
                    (Write_op (rs_fd st) (fst buf, snd buf + FRAG_HDR_SIZE) (unat (frag_len hdr))
                       ((rs_offset st + i * UDP_PAYLOAD_SIZE) mod 2 ^ 64)
                       (fixed_index u (ring_index_frag u frag_buf_idx)))
                    (make_user_data TAG_WRITE frag_buf_idx)) (\<lambda>_.
                  io_ret (True, st\<lparr>rs_received := (rs_received st)[i := True],
                                   rs_remaining := dec64 (rs_remaining st)\<rparr>)))))))"

section \<open>The class\<close>

definition udp_send :: "u8 list \<Rightarrow> ('e, int) uio" where
  "udp_send buf w =
     (case sys_next w of
        None \<Rightarrow> None
      | Some (Fail e, w1) \<Rightarrow> Some (Ok (-1), w1\<lparr>errno := e\<rparr>)
      | Some (Xfer _, w1) \<Rightarrow> Some (Ok (int (length buf)), w1\<lparr>net_out := net_out w1 @ [buf]\<rparr>))"

definition udp_recv :: "nat \<Rightarrow> ('e, int \<times> u8 list) uio" where
  "udp_recv len w =
     (case sys_next w of
        None \<Rightarrow> None
      | Some (Fail e, w1) \<Rightarrow> Some (Ok (-1, []), w1\<lparr>errno := e\<rparr>)
      | Some (Xfer _, w1) \<Rightarrow>
          (case net_in w1 of
             [] \<Rightarrow> None
           | (k, d) # ds \<Rightarrow>
               if k > controls w1 then None
               else Some (Ok (int (min len (length d)), take len d), w1\<lparr>net_in := ds\<rparr>)))"

definition submit_read :: "nat \<Rightarrow> int \<Rightarrow> nat \<Rightarrow> nat \<Rightarrow> ('e, unit) uio" where
  "submit_read buf_idx file_fd offset len =
     io_bind (io_get u_ring) (\<lambda>u.
     io_bind (io_get (\<lambda>w. length (u_sq w) \<ge> QUEUE_DEPTH)) (\<lambda>full.
     if full then io_throw (Runtime_error ''submit_read: io_uring_get_sqe failed (ring full)'')
     else io_bind (io_lift (chunk_buf u buf_idx)) (\<lambda>buf.
          io_bind (push_sqe (Runtime_error ''submit_read: io_uring_get_sqe failed (ring full)'')
            (Read_op file_fd buf (len mod 2 ^ 32) offset (fixed_index u (ring_index_chunk u buf_idx)))
            (make_user_data TAG_READ buf_idx)) (\<lambda>_.
          ring_submit))))"

definition wait_read :: "('e, unit) uio" where
  "wait_read =
     io_bind (io_get read_completed) (\<lambda>done.
       if done then
         io_bind (io_modify (\<lambda>w. w\<lparr>read_completed := False\<rparr>)) (\<lambda>_.
         io_bind (io_get read_result) (\<lambda>res.
           if res < 0 then io_throw (Runtime_error ''wait_read: READ_FIXED failed: '') else io_ret ()))
       else
         io_bind (sys uring_wait) (\<lambda>c.
           case c of
             None \<Rightarrow> io_throw (Runtime_error ''wait_read: io_uring_wait_cqe failed'')
           | Some (ud, res) \<Rightarrow>
               if get_tag ud = TAG_READ then
                 (if res < 0 then io_throw (Runtime_error ''wait_read: READ_FIXED failed: '') else io_ret ())
               else io_throw (Runtime_error ''wait_read: unexpected CQE tag'')))"

text \<open>
  The two loops of \<^verbatim>\<open>send_chunk\<close> that reap completions until fewer than \<open>bound\<close> sends are
  outstanding. A read that completes meanwhile is put aside for \<^verbatim>\<open>wait_read\<close>.
\<close>

definition reap_turn :: "string \<Rightarrow> string \<Rightarrow> nat \<Rightarrow> nat \<Rightarrow> ('e, nat + nat) uio" where
  "reap_turn wait_msg send_failed bound pending_frags =
     (if pending_frags \<ge> bound then
        io_bind (sys uring_wait) (\<lambda>c.
          case c of
            None \<Rightarrow> io_throw (Runtime_error wait_msg)
          | Some (ud, res) \<Rightarrow>
              if get_tag ud = TAG_READ then
                io_bind (io_modify (\<lambda>w. w\<lparr>read_completed := True, read_result := res\<rparr>)) (\<lambda>_.
                io_ret (Inl pending_frags))
              else if get_tag ud = TAG_SEND then
                (if res < 0 then io_throw (Runtime_error send_failed) else io_ret (Inl (dec64 pending_frags)))
              else io_ret (Inl pending_frags))
      else io_ret (Inr pending_frags))"

definition frag_count_of :: "nat \<Rightarrow> nat" where
  "frag_count_of len = ((len + UDP_PAYLOAD_SIZE - 1) div UDP_PAYLOAD_SIZE) mod 2 ^ 32"

definition frag_len_of :: "nat \<Rightarrow> nat \<Rightarrow> nat" where
  "frag_len_of len i =
     (if i + 1 < frag_count_of len then UDP_PAYLOAD_SIZE else len - i * UDP_PAYLOAD_SIZE)"

text \<open>
  A message slot is written again only after everything prepared with it was submitted, so an
  entry can carry its header and its slice.
\<close>

definition send_fragment :: "nat \<times> nat \<Rightarrow> nat \<Rightarrow> nat \<Rightarrow> nat \<Rightarrow> nat \<Rightarrow> ('e, nat) uio" where
  "send_fragment chunk chunk_idx len pending_frags frag_idx =
     io_bind (if pending_frags \<ge> QUEUE_DEPTH then
                io_bind ring_submit (\<lambda>_.
                io_loop (reap_turn ''send_chunk: io_uring_wait_cqe failed'' ''send_chunk: send_msg failed: '' QUEUE_DEPTH)
                  pending_frags)
              else io_ret pending_frags) (\<lambda>pending_frags.
     io_bind (push_sqe (Runtime_error ''send_chunk: io_uring_get_sqe failed'')
       (Send_op (write_frag_hdr (word_of_nat chunk_idx) (word_of_nat frag_idx) (word_of_nat (frag_len_of len frag_idx)))
          (fst chunk, snd chunk + frag_idx * UDP_PAYLOAD_SIZE) (frag_len_of len frag_idx))
       (make_user_data TAG_SEND frag_idx)) (\<lambda>_.
     io_ret (pending_frags + 1)))"

definition send_chunk :: "nat \<Rightarrow> nat \<Rightarrow> nat \<Rightarrow> ('e, unit) uio" where
  "send_chunk buf_idx chunk_idx len =
     io_bind (io_get u_ring) (\<lambda>u.
     io_bind (io_lift (chunk_buf u buf_idx)) (\<lambda>chunk.
     io_bind (io_foldl (send_fragment chunk chunk_idx len) 0 [0..<frag_count_of len]) (\<lambda>pending_frags.
     io_bind ring_submit (\<lambda>_.
     io_bind (io_loop (reap_turn ''send_chunk: final drain failed'' ''send_chunk: final drain failed: '' 1) pending_frags) (\<lambda>_.
     io_ret ())))))"

definition chunk_count_32 :: "nat \<Rightarrow> nat" where
  "chunk_count_32 len = ((len + CHUNK_SIZE - 1) div CHUNK_SIZE) mod 2 ^ 32"

definition chunk_len_of :: "nat \<Rightarrow> nat \<Rightarrow> nat" where
  "chunk_len_of len c = min (len - c * CHUNK_SIZE) CHUNK_SIZE"

text \<open>Sending on the control connection, where the peer can see it.\<close>

definition send_control :: "'e udp_world_scheme transport \<Rightarrow> u8 list \<Rightarrow> ('e, unit) uio" where
  "send_control tcp bs =
     io_bind (send_exact tcp bs) (\<lambda>_. io_modify (\<lambda>w. w\<lparr>controls := controls w + 1\<rparr>))"

text \<open>One chunk: the next one is read into the other buffer meanwhile.\<close>

definition send_file_chunk :: "'e udp_world_scheme transport \<Rightarrow> int \<Rightarrow> nat \<Rightarrow> nat \<Rightarrow> nat \<Rightarrow> ('e, unit) uio" where
  "send_file_chunk tcp file_fd offset len c =
     io_bind (if c + 1 < chunk_count_32 len then
                submit_read ((c + 1) mod 2) file_fd ((offset + (c + 1) * CHUNK_SIZE) mod 2 ^ 64) (chunk_len_of len (c + 1))
              else io_ret ()) (\<lambda>_.
     io_bind (send_chunk (c mod 2) c (chunk_len_of len c)) (\<lambda>_.
     io_bind (recv_exact tcp 4) (\<lambda>ack.
     if be_dec ack \<noteq> c then io_throw (Runtime_error ''send_file: ACK mismatch - expected '')
     else if c + 1 < chunk_count_32 len then wait_read else io_ret ())))"

definition udp_send_file :: "'e udp_world_scheme transport \<Rightarrow> int \<Rightarrow> nat \<Rightarrow> nat \<Rightarrow> ('e, unit) uio" where
  "udp_send_file tcp file_fd offset len =
     io_bind (recv_exact tcp 1) (\<lambda>_.
     io_bind (submit_read 0 file_fd offset (min len CHUNK_SIZE)) (\<lambda>_.
     io_bind wait_read (\<lambda>_.
     io_for [0..<chunk_count_32 len] (send_file_chunk tcp file_fd offset len))))"

definition submit_recv :: "nat \<Rightarrow> ('e, unit) uio" where
  "submit_recv frag_buf_idx =
     io_bind (io_get u_ring) (\<lambda>u.
     io_bind (io_get (\<lambda>w. length (u_sq w) \<ge> QUEUE_DEPTH)) (\<lambda>full.
     if full then io_throw (Runtime_error ''submit_recv: io_uring_get_sqe failed (ring full)'')
     else io_bind (io_lift (frag_buf u frag_buf_idx)) (\<lambda>buf.
          push_sqe (Runtime_error ''submit_recv: io_uring_get_sqe failed (ring full)'')
            (Recv_op buf (frag_buf_size u)) (make_user_data TAG_RECV frag_buf_idx))))"

text \<open>Resubmitting a buffer; the submission waits until half of the buffers are with the kernel.\<close>

definition reclaim :: "nat \<Rightarrow> nat \<Rightarrow> nat \<Rightarrow> ('e, unit) uio" where
  "reclaim buf_idx pending_recvs flush_threshold =
     io_bind (submit_recv buf_idx) (\<lambda>_.
       if pending_recvs \<ge> flush_threshold then ring_submit else io_ret ())"

definition recv_turn :: "recv_state \<times> nat \<times> nat \<Rightarrow> ('e, (recv_state \<times> nat \<times> nat) + nat) uio" where
  "recv_turn = (\<lambda>(st, pending_writes, pending_recvs).
     if rs_remaining st > 0 \<or> pending_writes > 0 then
       io_bind (io_get (\<lambda>w. frag_buf_count (u_ring w) div 2)) (\<lambda>flush_threshold.
       io_bind (sys uring_wait) (\<lambda>c.
         case c of
           None \<Rightarrow> io_throw (Runtime_error ''recv_file: io_uring_wait_cqe failed'')
         | Some (ud, res) \<Rightarrow>
             if get_tag ud = TAG_RECV then
               (if res \<le> 0 then io_throw (Runtime_error ''recv_file: RECV failed: '')
                else io_bind (process_fragment (get_index ud) res st) (\<lambda>(fresh, st').
                  if fresh then
                    io_bind (if pending_writes + 1 \<ge> flush_threshold \<or> rs_remaining st' = 0
                             then ring_submit else io_ret ()) (\<lambda>_.
                    io_ret (Inl (st', pending_writes + 1, dec64 pending_recvs)))
                  else
                    io_bind (reclaim (get_index ud) (dec64 pending_recvs + 1) flush_threshold) (\<lambda>_.
                    io_ret (Inl (st', pending_writes, dec64 pending_recvs + 1)))))
             else if get_tag ud = TAG_WRITE then
               (if res < 0 then io_throw (Runtime_error ''recv_file: WRITE_FIXED failed: '')
                else io_bind (reclaim (get_index ud) (pending_recvs + 1) flush_threshold) (\<lambda>_.
                     io_ret (Inl (st, dec64 pending_writes, pending_recvs + 1))))
             else io_ret (Inl (st, pending_writes, pending_recvs))))
     else io_ret (Inr pending_recvs))"

definition recv_file_chunk ::
  "'e udp_world_scheme transport \<Rightarrow> int \<Rightarrow> nat \<Rightarrow> nat \<Rightarrow> nat \<Rightarrow> nat \<Rightarrow> ('e, nat) uio" where
  "recv_file_chunk tcp file_fd offset len pending_recvs c =
     (let count = frag_count_of (chunk_len_of len c);
          st = \<lparr>rs_fd = file_fd, rs_offset = (offset + c * CHUNK_SIZE) mod 2 ^ 64, rs_frag_count = count,
                rs_received = replicate MAX_FRAGS_PER_CHUNK False, rs_remaining = count\<rparr>
      in io_bind (io_loop recv_turn (st, 0, pending_recvs)) (\<lambda>pending_recvs.
         io_bind (send_control tcp (be_enc 4 c)) (\<lambda>_.
         io_ret pending_recvs)))"

definition udp_recv_file :: "'e udp_world_scheme transport \<Rightarrow> int \<Rightarrow> nat \<Rightarrow> nat \<Rightarrow> ('e, unit) uio" where
  "udp_recv_file tcp file_fd offset len =
     io_bind (io_get (\<lambda>w. frag_buf_count (u_ring w))) (\<lambda>count.
     io_bind (io_for [0..<count] submit_recv) (\<lambda>_.
     io_bind ring_submit (\<lambda>_.
     io_bind (send_control tcp [1]) (\<lambda>_.
     io_bind (io_foldl (recv_file_chunk tcp file_fd offset len) count [0..<chunk_count_32 len]) (\<lambda>_.
     io_ret ())))))"

definition udp_transport :: "'e udp_world_scheme transport \<Rightarrow> 'e udp_world_scheme transport" where
  "udp_transport tcp =
     \<lparr>t_send = udp_send, t_recv = udp_recv, t_send_file = udp_send_file tcp, t_recv_file = udp_recv_file tcp\<rparr>"

section \<open>User data and headers\<close>

lemma IDX_MASK_mask: "IDX_MASK = mask 56"
  by (simp add: IDX_MASK_def mask_eq_exp_minus_1)

lemma user_data_index: "idx < 2 ^ 56 \<Longrightarrow> get_index (make_user_data tag idx) = idx"
proof -
  assume i: "idx < 2 ^ 56"
  have "make_user_data tag idx AND IDX_MASK = take_bit 56 (word_of_nat idx)"
    by (rule bit_eqI)
      (auto simp: make_user_data_def TAG_SHIFT_def IDX_MASK_mask bit_simps simp flip: take_bit_eq_mask)
  also have "unat \<dots> = idx" using i by (simp add: unsigned_take_bit_eq unat_of_nat take_bit_eq_mod unat_mod)
  finally show ?thesis by (simp add: get_index_def)
qed

lemma user_data_tag: "idx < 2 ^ 56 \<Longrightarrow> get_tag (make_user_data tag idx) = tag"
proof -
  assume i: "idx < 2 ^ 56"
  have "drop_bit 56 (word_of_nat idx :: u64) = 0"
    using i by (simp add: word_unat_eq_iff unat_drop_bit_eq unat_of_nat drop_bit_eq_div unat_div)
  then have "drop_bit 56 (make_user_data tag idx) = drop_bit 56 (push_bit 56 (ucast tag :: u64))"
    by (simp add: make_user_data_def TAG_SHIFT_def)
  then show ?thesis
    by (intro bit_eqI) (simp add: get_tag_def TAG_SHIFT_def bit_simps)
qed

lemma length_write_frag_hdr [simp]: "length (write_frag_hdr ci fi fl) = FRAG_HDR_SIZE"
  by (simp add: write_frag_hdr_def FRAG_HDR_SIZE_def)

lemma parse_write_frag_hdr:
  "parse_frag_hdr (write_frag_hdr ci fi fl @ xs) = \<lparr>chunk_index = ci, frag_index = fi, frag_len = fl\<rparr>"
proof -
  have "unat ci < 256 ^ 4" "unat fi < 256 ^ 4" "unat fl < 256 ^ 2"
    using unsigned_less [of ci, where ?'a = nat] unsigned_less [of fi, where ?'a = nat]
      unsigned_less [of fl, where ?'a = nat] by simp_all
  then show ?thesis by (simp add: parse_frag_hdr_def write_frag_hdr_def)
qed

text \<open>Only the first ten bytes of a datagram are looked at, and of those not the first four.\<close>

lemma parse_frag_hdr_take: "parse_frag_hdr (take FRAG_HDR_SIZE d) = parse_frag_hdr d"
  by (simp add: parse_frag_hdr_def FRAG_HDR_SIZE_def drop_take min_def)

section \<open>Pieces of a chunk\<close>

lemma udp_sizes: "UDP_PAYLOAD_SIZE = 64990" "UDP_MTU = 65000" "FRAG_HDR_SIZE = 10" "UDP_FRAG_BUFS = 32"
  "MAX_FRAGS_PER_CHUNK = 17" "CHUNK_SIZE = 1048576" "UDP_CHUNK_BUFS = 2"
  by (simp_all add: UDP_PAYLOAD_SIZE_def UDP_MTU_def FRAG_HDR_SIZE_def UDP_FRAG_BUFS_def MAX_FRAGS_PER_CHUNK_def
      CHUNK_SIZE_def UDP_CHUNK_BUFS_def)

text \<open>The fragment \<open>i\<close> of chunk \<open>c\<close>, which holds the bytes \<open>xs\<close>, as a datagram.\<close>

definition piece :: "u8 list \<Rightarrow> nat \<Rightarrow> u8 list" where
  "piece xs i = region (i * UDP_PAYLOAD_SIZE) UDP_PAYLOAD_SIZE xs"

definition fragment :: "nat \<Rightarrow> u8 list \<Rightarrow> nat \<Rightarrow> u8 list" where
  "fragment c xs i =
     write_frag_hdr (word_of_nat c) (word_of_nat i) (word_of_nat (length (piece xs i))) @ piece xs i"

lemma frag_count_small: "n \<le> CHUNK_SIZE \<Longrightarrow> frag_count_of n = (n + UDP_PAYLOAD_SIZE - 1) div UDP_PAYLOAD_SIZE"
  by (simp add: frag_count_of_def udp_sizes)

lemma frag_count_le: "n \<le> CHUNK_SIZE \<Longrightarrow> frag_count_of n \<le> MAX_FRAGS_PER_CHUNK"
  by (simp add: frag_count_small udp_sizes)

lemma piece_start: "n \<le> CHUNK_SIZE \<Longrightarrow> i < frag_count_of n \<Longrightarrow> i * UDP_PAYLOAD_SIZE < n"
  by (simp add: frag_count_small udp_sizes)

lemma piece_index: "n \<le> CHUNK_SIZE \<Longrightarrow> k < n \<Longrightarrow> k div UDP_PAYLOAD_SIZE < frag_count_of n"
  by (simp add: frag_count_small udp_sizes)

lemma length_piece: "length (piece xs i) = min UDP_PAYLOAD_SIZE (length xs - i * UDP_PAYLOAD_SIZE)"
  by (simp add: piece_def length_region)

lemma length_piece_of: "length xs \<le> CHUNK_SIZE \<Longrightarrow> i < frag_count_of (length xs) \<Longrightarrow>
    length (piece xs i) = frag_len_of (length xs) i"
  by (simp add: length_piece frag_len_of_def frag_count_small udp_sizes)

lemma length_piece_pos: "length xs \<le> CHUNK_SIZE \<Longrightarrow> i < frag_count_of (length xs) \<Longrightarrow> 0 < length (piece xs i)"
  using piece_start [of "length xs" i] by (simp add: length_piece udp_sizes)

lemma fragment_header:
  assumes "i < MAX_FRAGS_PER_CHUNK"
  shows "unat (frag_index (parse_frag_hdr (fragment c xs i))) = i"
    "unat (frag_len (parse_frag_hdr (fragment c xs i))) = length (piece xs i)"
    "drop FRAG_HDR_SIZE (fragment c xs i) = piece xs i"
    "length (fragment c xs i) = FRAG_HDR_SIZE + length (piece xs i)"
    "length (fragment c xs i) \<le> UDP_MTU"
  using assms by (simp_all add: fragment_def parse_write_frag_hdr unat_of_nat length_piece udp_sizes)

section \<open>Memory\<close>

lemma length_load [simp]: "length (load a n w) = n"
  by (simp add: load_def)

lemma load_cong: "u_mem w' (fst a) = u_mem w (fst a) \<Longrightarrow> load a n w' = load a n w"
  by (simp add: load_def)

lemma load_store_same: "n \<le> length bs \<Longrightarrow> load a n (store a bs w) = take n bs"
  by (rule nth_equalityI) (simp_all add: load_def store_def)

lemma load_store_other:
  "fst b \<noteq> fst a \<or> snd b + n \<le> snd a \<or> snd a + length bs \<le> snd b \<Longrightarrow> load b n (store a bs w) = load b n w"
  by (auto simp: load_def store_def)

lemma load_drop: "load (fst a, snd a + k) n w = drop k (load a (k + n) w)"
  by (rule nth_equalityI) (simp_all add: load_def add.assoc)

lemma load_take: "m \<le> n \<Longrightarrow> load a m w = take m (load a n w)"
  by (rule nth_equalityI) (simp_all add: load_def)

lemma store_fields [simp]:
  "files (store a bs w) = files w" "fds (store a bs w) = fds w" "u_ring (store a bs w) = u_ring w"
  "u_sq (store a bs w) = u_sq w" "u_flight (store a bs w) = u_flight w" "u_cq (store a bs w) = u_cq w"
  "net_in (store a bs w) = net_in w" "net_out (store a bs w) = net_out w" "controls (store a bs w) = controls w"
  "u_runs (store a bs w) = u_runs w" "read_completed (store a bs w) = read_completed w"
  "read_result (store a bs w) = read_result w" "contents (store a bs w) p = contents w p"
  by (simp_all add: store_def contents_def)

end
