(* ===== verification/Udp_Control.thy ===== *)
theory Udp_Control imports Udp_Transport begin

text \<open>
  What the UDP transport needs of the control connection: its calls touch neither the files nor
  the ring. The TCP transport of the code keeps this contract.
\<close>

definition control_only :: "'e udp_world_scheme \<Rightarrow> 'e udp_world_scheme \<Rightarrow> bool" where
  "control_only w w' \<longleftrightarrow> same_os w w' \<and> tcp_world.more w' = tcp_world.more w"

lemma control_only_refl [simp]: "control_only w w"
  by (simp add: control_only_def)

lemma control_only_trans: "control_only w1 w2 \<Longrightarrow> control_only w2 w3 \<Longrightarrow> control_only w1 w3"
  by (auto simp: control_only_def intro: same_os_trans)

lemma control_only_fields:
  assumes "control_only w w'"
  shows "files w' = files w" "fds w' = fds w" "u_ring w' = u_ring w" "u_mem w' = u_mem w" "u_sq w' = u_sq w"
    "u_flight w' = u_flight w" "u_cq w' = u_cq w" "u_runs w' = u_runs w" "u_limits w' = u_limits w"
    "net_in w' = net_in w" "net_out w' = net_out w" "controls w' = controls w"
    "read_completed w' = read_completed w" "read_result w' = read_result w"
  using assms by (cases w; cases w'; simp add: control_only_def same_os_def)+

locale control_channel =
  fixes tcp :: "'e udp_world_scheme transport"
  assumes send_frame: "t_send tcp buf w = Some (rs, w') \<Longrightarrow> control_only w w' \<and> rs \<noteq> Undef"
    and recv_frame: "t_recv tcp len w = Some (rr, w') \<Longrightarrow> control_only w w' \<and> rr \<noteq> Undef"
begin

lemma send_exact_frame:
  assumes run: "send_exact tcp buf w = Some (r, w')"
  shows "control_only w w' \<and> r \<noteq> Undef"
proof -
  let ?P = "\<lambda>t (buf :: u8 list) (sent :: nat) (w :: 'e udp_world_scheme) (r :: unit res, w').
    t = tcp \<longrightarrow> control_only w w' \<and> r \<noteq> Undef"
  have "?P tcp buf 0 w (r, w')"
  proof (rule send_exact_loop.raw_induct [where P = ?P, OF _ run [unfolded send_exact_def]])
    fix g t buf sent w y
    assume IH: "\<And>t buf sent w y. g t buf sent w = Some y \<Longrightarrow> ?P t buf sent w y"
      and eq: "(if sent < length buf then
        Option.bind (t_send t (drop sent buf) w) (\<lambda>(r, w').
          case r of
            Ok n \<Rightarrow>
              (if n = 0 then Some (Throw (Runtime_error ''send exact: connection closed''), w')
               else if n < 0 then
                 (if errno w' = EAGAIN then g t buf sent w'
                  else Some (Throw (Runtime_error ''send exact: send failed: ''), w'))
               else g t buf (sent + nat n) w')
          | Throw e \<Rightarrow> Some (Throw e, w')
          | Undef \<Rightarrow> Some (Undef, w'))
      else Some (Ok (), w)) = Some y"
    obtain r w' where y: "y = (r, w')" by (cases y)
    show "?P t buf sent w y" unfolding y case_prod_conv
    proof
      assume t: "t = tcp"
      show "control_only w w' \<and> r \<noteq> Undef"
      proof (cases "t_send tcp (drop sent buf) w")
        case None
        then show ?thesis using eq t y by (auto split: if_splits)
      next
        case (Some q)
        obtain rs w1 where q: "q = (rs, w1)" by (cases q)
        have F: "control_only w w1" "rs \<noteq> Undef" using send_frame [of "drop sent buf" w] Some q by auto
        have R: "control_only w1 w' \<and> r \<noteq> Undef" if "g t buf s w1 = Some (r, w')" for s
          using IH [OF that] t by simp
        show ?thesis using eq t y Some q F R
          by (auto split: if_splits res.splits intro: control_only_trans)
      qed
    qed
  qed
  then show ?thesis by simp
qed

lemma recv_exact_frame:
  assumes run: "recv_exact tcp len w = Some (r, w')"
  shows "control_only w w' \<and> r \<noteq> Undef"
proof -
  let ?P = "\<lambda>t (len :: nat) (buf :: u8 list) (w :: 'e udp_world_scheme) (r :: u8 list res, w').
    t = tcp \<longrightarrow> control_only w w' \<and> r \<noteq> Undef"
  have "?P tcp len [] w (r, w')"
  proof (rule recv_exact_loop.raw_induct [where P = ?P, OF _ run [unfolded recv_exact_def]])
    fix g t len buf w y
    assume IH: "\<And>t len buf w y. g t len buf w = Some y \<Longrightarrow> ?P t len buf w y"
      and eq: "(if length buf < len then
        Option.bind (t_recv t (len - length buf) w) (\<lambda>(r, w').
          case r of
            Ok (n, bs) \<Rightarrow>
              (if n = 0 then Some (Throw (Runtime_error ''recv exact: connection closed''), w')
               else if n < 0 then
                 (if errno w' = EAGAIN then g t len buf w'
                  else Some (Throw (Runtime_error ''recv exact: recv failed: ''), w'))
               else g t len (buf @ bs) w')
          | Throw e \<Rightarrow> Some (Throw e, w')
          | Undef \<Rightarrow> Some (Undef, w'))
      else Some (Ok buf, w)) = Some y"
    obtain r w' where y: "y = (r, w')" by (cases y)
    show "?P t len buf w y" unfolding y case_prod_conv
    proof
      assume t: "t = tcp"
      show "control_only w w' \<and> r \<noteq> Undef"
      proof (cases "t_recv tcp (len - length buf) w")
        case None
        then show ?thesis using eq t y by (auto split: if_splits)
      next
        case (Some q)
        obtain rr w1 where q: "q = (rr, w1)" by (cases q)
        have F: "control_only w w1" "rr \<noteq> Undef" using recv_frame [of "len - length buf" w] Some q by auto
        have R: "control_only w1 w' \<and> r \<noteq> Undef" if "g t len b w1 = Some (r, w')" for b
          using IH [OF that] t by simp
        show ?thesis using eq t y Some q F R
          by (auto split: if_splits res.splits prod.splits intro: control_only_trans)
      qed
    qed
  qed
  then show ?thesis by simp
qed

lemma wp_send_control:
  assumes ok: "\<And>w'. control_only w w' \<Longrightarrow> Q (Ok ()) (w'\<lparr>controls := controls w' + 1\<rparr>)"
    and throw: "\<And>e w'. control_only w w' \<Longrightarrow> Q (Throw e) w'"
  shows "wp True (send_control tcp bs) Q w"
proof -
  have "wp True (send_exact tcp bs) (\<lambda>r w'. control_only w w' \<and> r \<noteq> Undef) w"
    by (rule wpI) (rule send_exact_frame)
  then have "wp True (send_exact tcp bs) (on_ok (\<lambda>_. wp True (io_modify (\<lambda>w. w\<lparr>controls := controls w + 1\<rparr>)) Q) Q) w"
  proof (rule wp_mono)
    fix r w' assume "control_only w w' \<and> r \<noteq> Undef"
    then show "on_ok (\<lambda>_. wp True (io_modify (\<lambda>w. w\<lparr>controls := controls w + 1\<rparr>)) Q) Q r w'"
      using ok throw by (cases r) (simp_all add: wp_state)
  qed
  then show ?thesis by (simp add: send_control_def wp_bind)
qed

lemma wp_recv_exact:
  assumes "\<And>r w'. control_only w w' \<Longrightarrow> r \<noteq> Undef \<Longrightarrow> Q r w'"
  shows "wp True (recv_exact tcp n) Q w"
  by (rule wpI) (use recv_exact_frame assms in blast)

end

lemma sys_next_control: "sys_next w = Some (x, w1) \<Longrightarrow> control_only w w1"
  by (cases w) (auto simp: sys_next_def control_only_def same_os_def split: list.splits)

lemma control_only_upd [simp]:
  "control_only w (w1\<lparr>errno := e\<rparr>) = control_only w w1"
  "control_only w (w1\<lparr>sock_out := xs\<rparr>) = control_only w w1"
  "control_only w (w1\<lparr>sock_in := xs\<rparr>) = control_only w w1"
  by (cases w1; simp add: control_only_def same_os_def)+

interpretation tcpc: control_channel TcpTransport
proof
  fix w w' :: "'e udp_world_scheme" and buf rs
  assume "t_send TcpTransport buf w = Some (rs, w')"
  then show "control_only w w' \<and> rs \<noteq> Undef"
    by (auto simp: TcpTransport_def tcp_send_def sys_iff sys_sock_send_def dest!: sys_next_control
        split: option.splits sysret.splits)
next
  fix w w' :: "'e udp_world_scheme" and len rr
  assume "t_recv TcpTransport len w = Some (rr, w')"
  then show "control_only w w' \<and> rr \<noteq> Undef"
    by (auto simp: TcpTransport_def tcp_recv_def sys_iff sys_sock_recv_def Let_def dest!: sys_next_control
        split: option.splits sysret.splits)
qed

end
