(* ===== verification/Udp_Receive.thy ===== *)
theory Udp_Receive imports Udp_Control begin

text \<open>
  The receiving side of the UDP transport is correct over any order of execution in the kernel,
  any order of the datagrams of a chunk, and duplicates of them.
\<close>

section \<open>The invariant of a transfer\<close>

text \<open>What stays fixed: the file, its contents before and after, and the ring.\<close>

record recv_job =
  j_fd :: int
  j_path :: string
  j_files :: "string \<Rightarrow> u8 list option"
  j_target :: "u8 list"
  j_ring :: uring_ctx

definition ring_ok :: "uring_ctx \<Rightarrow> bool" where
  "ring_ok u \<longleftrightarrow> chunk_buf_count u = UDP_CHUNK_BUFS \<and> chunk_buf_size u = CHUNK_SIZE \<and>
     frag_buf_count u = UDP_FRAG_BUFS \<and> frag_buf_size u = UDP_MTU \<and> chunk_mem u \<noteq> frag_mem u \<and>
     iovecs u = io_vectors (chunk_mem u) UDP_CHUNK_BUFS CHUNK_SIZE (frag_mem u) UDP_FRAG_BUFS UDP_MTU"

definition frag_addr :: "uring_ctx \<Rightarrow> nat \<Rightarrow> nat \<times> nat" where
  "frag_addr u idx = (frag_mem u, idx * UDP_MTU)"

definition recv_entry :: "uring_ctx \<Rightarrow> nat \<Rightarrow> uop \<times> u64" where
  "recv_entry u idx = (Recv_op (frag_addr u idx) UDP_MTU, make_user_data TAG_RECV idx)"

definition write_entry :: "recv_job \<Rightarrow> nat \<Rightarrow> u8 list \<Rightarrow> nat \<Rightarrow> nat \<Rightarrow> uop \<times> u64" where
  "write_entry J base xs i idx =
     (Write_op (j_fd J) (fst (frag_addr (j_ring J) idx), snd (frag_addr (j_ring J) idx) + FRAG_HDR_SIZE)
        (length (piece xs i)) (base + i * UDP_PAYLOAD_SIZE)
        (fixed_index (j_ring J) (ring_index_frag (j_ring J) idx)),
      make_user_data TAG_WRITE idx)"

text \<open>Everything outstanding, by its user data: each buffer is in exactly one place.\<close>

definition pend :: "'e udp_world_scheme \<Rightarrow> u64 multiset" where
  "pend w = mset (map snd (u_sq w)) + mset (map snd (u_flight w)) + mset (map fst (u_cq w))"

definition owned :: "'e udp_world_scheme \<Rightarrow> bool" where
  "owned w \<longleftrightarrow> image_mset get_index (pend w) = mset_set {0..<UDP_FRAG_BUFS}"

definition writes :: "'e udp_world_scheme \<Rightarrow> nat" where
  "writes w = size (filter_mset (\<lambda>ud. get_tag ud = TAG_WRITE) (pend w))"

definition entry_ok :: "recv_job \<Rightarrow> nat \<Rightarrow> u8 list \<Rightarrow> nat set \<Rightarrow> 'e udp_world_scheme \<Rightarrow> uop \<times> u64 \<Rightarrow> bool" where
  "entry_ok J base xs R w e \<longleftrightarrow>
     (\<exists>idx < UDP_FRAG_BUFS. e = recv_entry (j_ring J) idx \<or>
        (\<exists>i \<in> R. e = write_entry J base xs i idx \<and>
           drop FRAG_HDR_SIZE (load (frag_addr (j_ring J) idx) (FRAG_HDR_SIZE + length (piece xs i)) w) = piece xs i))"

definition cqe_ok :: "u64 \<times> int \<Rightarrow> bool" where
  "cqe_ok = (\<lambda>(ud, res). \<exists>idx < UDP_FRAG_BUFS.
     (ud = make_user_data TAG_RECV idx \<or> ud = make_user_data TAG_WRITE idx) \<and> res \<le> int UDP_MTU)"

text \<open>The datagrams that lie in reaped order in the completion queue.\<close>

definition has_datagram :: "u64 \<times> int \<Rightarrow> bool" where
  "has_datagram = (\<lambda>(ud, res). get_tag ud = TAG_RECV \<and> res > 0)"

definition datagram_of :: "uring_ctx \<Rightarrow> 'e udp_world_scheme \<Rightarrow> u64 \<times> int \<Rightarrow> u8 list" where
  "datagram_of u w = (\<lambda>(ud, res). load (frag_addr u (get_index ud)) (nat res) w)"

definition arrived :: "uring_ctx \<Rightarrow> 'e udp_world_scheme \<Rightarrow> u8 list list" where
  "arrived u w = map (datagram_of u w) (filter has_datagram (u_cq w))"

text \<open>A completion that carries a failed write.\<close>

definition failed_write :: "'e udp_world_scheme \<Rightarrow> bool" where
  "failed_write w \<longleftrightarrow> (\<exists>(ud, res) \<in> set (u_cq w). get_tag ud = TAG_WRITE \<and> res < 0)"

definition writing_piece :: "recv_job \<Rightarrow> nat \<Rightarrow> u8 list \<Rightarrow> nat \<Rightarrow> 'e udp_world_scheme \<Rightarrow> bool" where
  "writing_piece J base xs i w \<longleftrightarrow> (\<exists>idx. write_entry J base xs i idx \<in> set (u_sq w) \<union> set (u_flight w))"

text \<open>The file holds its final bytes at the positions \<open>S\<close>.\<close>

definition agrees :: "u8 list \<Rightarrow> u8 list \<Rightarrow> nat set \<Rightarrow> bool" where
  "agrees F T S \<longleftrightarrow> length F = length T \<and> (\<forall>k \<in> S. k < length T \<longrightarrow> F ! k = T ! k)"

definition span :: "nat \<Rightarrow> u8 list \<Rightarrow> nat \<Rightarrow> nat set" where
  "span base xs i = {base + i * UDP_PAYLOAD_SIZE ..< base + i * UDP_PAYLOAD_SIZE + length (piece xs i)}"

definition file_state :: "recv_job \<Rightarrow> nat \<Rightarrow> u8 list \<Rightarrow> nat set \<Rightarrow> nat set \<Rightarrow> 'e udp_world_scheme \<Rightarrow> bool" where
  "file_state J base xs R old w \<longleftrightarrow>
     (\<exists>F S. files w = (j_files J)(j_path J \<mapsto> F) \<and> agrees F (j_target J) S \<and> old \<subseteq> S \<and>
        (\<forall>i \<in> R. span base xs i \<subseteq> S \<or> writing_piece J base xs i w \<or> failed_write w))"

text \<open>The kernel moves whole ranges or reports an error.\<close>

definition whole_run :: "kernel_run \<Rightarrow> bool" where
  "whole_run r \<longleftrightarrow>
     (case r of
        Wait_fails \<Rightarrow> True
      | Runs es \<Rightarrow> \<forall>(i, out) \<in> set es. case out of Xfer n \<Rightarrow> CHUNK_SIZE \<le> n | Fail e \<Rightarrow> 0 < e)"

text \<open>
  In the chunk \<open>c\<close> with the bytes \<open>xs\<close>, of whose datagrams \<open>ds\<close> the list \<open>dealt\<close> was looked at
  and the pieces \<open>R\<close> were taken.
\<close>

definition arrivals ::
  "recv_job \<Rightarrow> u8 list list \<Rightarrow> u8 list list \<Rightarrow> (nat \<times> u8 list) list \<Rightarrow> 'e udp_world_scheme \<Rightarrow> bool" where
  "arrivals J ds dealt after w \<longleftrightarrow>
     (\<exists>coming. ds = dealt @ arrived (j_ring J) w @ coming \<and>
        net_in w = map (Pair (controls w)) coming @ after) \<and> (\<forall>(k, d) \<in> set after. controls w < k)"

definition recv_inv ::
  "recv_job \<Rightarrow> nat \<Rightarrow> u8 list \<Rightarrow> nat set \<Rightarrow> nat set \<Rightarrow> 'e udp_world_scheme \<Rightarrow> bool" where
  "recv_inv J base xs R old w \<longleftrightarrow>
     u_ring w = j_ring J \<and> ring_ok (j_ring J) \<and> (\<forall>r \<in> set (u_runs w). whole_run r) \<and>
     (\<exists>f. fds w (j_fd J) = Some f \<and> of_path f = j_path J) \<and>
     region base (length xs) (j_target J) = xs \<and> base + length xs \<le> length (j_target J) \<and>
     length xs \<le> CHUNK_SIZE \<and> R \<subseteq> {..<frag_count_of (length xs)} \<and>
     owned w \<and> (\<forall>e \<in> set (u_sq w) \<union> set (u_flight w). entry_ok J base xs R w e) \<and>
     (\<forall>c \<in> set (u_cq w). cqe_ok c) \<and> file_state J base xs R old w"


section \<open>The ring\<close>

lemma frag_user_data [simp]:
  assumes "idx < UDP_FRAG_BUFS"
  shows "get_tag (make_user_data tag idx) = tag" "get_index (make_user_data tag idx) = idx"
proof -
  have "idx < 2 ^ 56" using assms by (simp add: udp_sizes)
  then show "get_tag (make_user_data tag idx) = tag" "get_index (make_user_data tag idx) = idx"
    by (rule user_data_tag user_data_index)+
qed

lemma frag_buf_ok: "ring_ok u \<Longrightarrow> idx < UDP_FRAG_BUFS \<Longrightarrow> frag_buf u idx = Ok (frag_addr u idx)"
  by (simp add: frag_buf_def ring_ok_def frag_addr_def)

lemma reaches_frag:
  assumes "ring_ok u" and "idx < UDP_FRAG_BUFS" and "n \<le> UDP_PAYLOAD_SIZE"
  shows "reaches u (fixed_index u (ring_index_frag u idx)) (fst (frag_addr u idx), snd (frag_addr u idx) + FRAG_HDR_SIZE) n"
proof -
  have "iovecs u ! (UDP_CHUNK_BUFS + idx) = (frag_mem u, idx * UDP_MTU, UDP_MTU)"
    using assms(1,2) by (simp add: ring_ok_def io_vectors_def nth_append)
  moreover have "idx * UDP_MTU + UDP_MTU \<le> UDP_FRAG_BUFS * UDP_MTU"
    using mult_le_mono1 [of "Suc idx" UDP_FRAG_BUFS UDP_MTU] assms(2) by simp
  ultimately show ?thesis
    using assms by (simp add: reaches_def fixed_index_def ring_index_frag_def frag_addr_def ring_ok_def io_vectors_def udp_sizes)
qed

lemma entry_index:
  "entry_ok J base xs R w e \<Longrightarrow> get_index (snd e) < UDP_FRAG_BUFS \<and>
     (e = recv_entry (j_ring J) (get_index (snd e)) \<or> (\<exists>i \<in> R. e = write_entry J base xs i (get_index (snd e))))"
  by (auto simp: entry_ok_def recv_entry_def write_entry_def)

lemma entry_tag:
  "idx < UDP_FRAG_BUFS \<Longrightarrow> get_tag (snd (recv_entry u idx)) = TAG_RECV \<and> get_index (snd (recv_entry u idx)) = idx"
  "idx < UDP_FRAG_BUFS \<Longrightarrow> get_tag (snd (write_entry J base xs i idx)) = TAG_WRITE \<and> get_index (snd (write_entry J base xs i idx)) = idx"
  by (simp_all add: recv_entry_def write_entry_def)

lemma tag_neq [simp]: "TAG_RECV \<noteq> TAG_WRITE" "TAG_WRITE \<noteq> TAG_RECV" "TAG_READ \<noteq> TAG_SEND" "TAG_SEND \<noteq> TAG_READ"
  by (simp_all add: tag_defs)

text \<open>Nothing else outstanding is about the buffer of an entry.\<close>

lemma owned_other:
  assumes "owned w" and "pend w = add_mset ud M" and "ud' \<in># M"
  shows "get_index ud' \<noteq> get_index ud"
proof
  assume "get_index ud' = get_index ud"
  then have "get_index ud \<in># image_mset get_index M" using assms(3) by (auto simp: image_iff dest: sym)
  moreover have "mset_set {0..<UDP_FRAG_BUFS} = add_mset (get_index ud) (image_mset get_index M)"
    using assms(1,2) by (simp add: owned_def)
  ultimately have "2 \<le> count (mset_set {0..<UDP_FRAG_BUFS}) (get_index ud)"
    by (simp add: not_in_iff Suc_le_eq)
  then show False by (simp add: count_mset_set' split: if_splits)
qed

text \<open>A change inside the block of one buffer.\<close>

definition in_block :: "uring_ctx \<Rightarrow> nat \<Rightarrow> 'e udp_world_scheme \<Rightarrow> 'e udp_world_scheme \<Rightarrow> bool" where
  "in_block u a w w' \<longleftrightarrow>
     (\<forall>m i. u_mem w' m i = u_mem w m i \<or> m = frag_mem u \<and> a * UDP_MTU \<le> i \<and> i < a * UDP_MTU + UDP_MTU)"

lemma in_block_load:
  assumes "in_block u a w w'" and "b \<noteq> a" and "n \<le> UDP_MTU"
  shows "load (frag_addr u b) n w' = load (frag_addr u b) n w"
proof -
  have "b * UDP_MTU + UDP_MTU \<le> a * UDP_MTU \<or> a * UDP_MTU + UDP_MTU \<le> b * UDP_MTU"
    using assms(2) mult_le_mono1 [of "Suc b" a UDP_MTU] mult_le_mono1 [of "Suc a" b UDP_MTU] by force
  then have "u_mem w' (frag_mem u) (b * UDP_MTU + i) = u_mem w (frag_mem u) (b * UDP_MTU + i)" if "i < n" for i
    using assms(1,3) that unfolding in_block_def
    by (metis add_less_cancel_left le_add1 less_le_trans not_less order_trans)
  then show ?thesis by (simp add: load_def frag_addr_def)
qed

lemma in_block_store: "length bs \<le> UDP_MTU \<Longrightarrow> in_block u a w (store (frag_addr u a) bs w)"
  by (auto simp: in_block_def store_def frag_addr_def)

lemma in_block_same: "u_mem w' = u_mem w \<Longrightarrow> in_block u a w w'"
  by (simp add: in_block_def)

lemma agrees_write:
  assumes "agrees F T S" and "at + n \<le> length T"
  shows "agrees (write_at F at (region at n T)) T (S \<union> {at..<at + n})"
  using assms by (auto simp: agrees_def nth_write_at region_def)


section \<open>The kernel executes one operation\<close>

lemma kernel_step_cases:
  obtains "kernel_step (i, out) w = w"
  | fl1 op ud fl2 res w1 where "u_flight w = fl1 @ (op, ud) # fl2" "perform out op w = Some (res, w1)"
      "kernel_step (i, out) w = w1\<lparr>u_flight := fl1 @ fl2, u_cq := u_cq w @ [(ud, res)]\<rparr>"
proof (cases "i < length (u_flight w)")
  case True
  obtain op ud where e: "u_flight w ! i = (op, ud)" by (cases "u_flight w ! i")
  have fl: "u_flight w = take i (u_flight w) @ (op, ud) # drop (Suc i) (u_flight w)"
    using id_take_nth_drop [OF True] e by simp
  show ?thesis
  proof (cases "perform out op w")
    case None
    then show ?thesis using True e that(1) by (simp add: kernel_step_def)
  next
    case (Some y)
    then show ?thesis using True e that(2) [OF fl] by (cases y) (simp add: kernel_step_def)
  qed
qed (use that(1) in \<open>simp add: kernel_step_def\<close>)

lemma piece_fits: "FRAG_HDR_SIZE + length (piece xs i) \<le> UDP_MTU"
  by (simp add: length_piece udp_sizes)

lemma entry_ok_block:
  assumes "entry_ok J base xs R w e" and "in_block (j_ring J) a w w'" and "get_index (snd e) \<noteq> a"
  shows "entry_ok J base xs R w' e"
proof -
  obtain idx where i: "idx < UDP_FRAG_BUFS" "e = recv_entry (j_ring J) idx \<or>
        (\<exists>i \<in> R. e = write_entry J base xs i idx \<and>
           drop FRAG_HDR_SIZE (load (frag_addr (j_ring J) idx) (FRAG_HDR_SIZE + length (piece xs i)) w) = piece xs i)"
    using assms(1) by (auto simp: entry_ok_def)
  then have "idx \<noteq> a" using assms(3) by (auto simp: recv_entry_def write_entry_def)
  then have "load (frag_addr (j_ring J) idx) (FRAG_HDR_SIZE + length (piece xs i)) w' =
      load (frag_addr (j_ring J) idx) (FRAG_HDR_SIZE + length (piece xs i)) w" for i
    by (rule in_block_load [OF assms(2) _ piece_fits])
  then show ?thesis using i unfolding entry_ok_def by auto
qed

lemma arrived_block:
  assumes "\<forall>c \<in> set cs. cqe_ok c \<and> get_index (fst c) \<noteq> a" and "in_block u a w w'"
  shows "map (datagram_of u w') (filter has_datagram cs) = map (datagram_of u w) (filter has_datagram cs)"
proof (rule map_cong [OF refl])
  fix c assume "c \<in> set (filter has_datagram cs)"
  then have "cqe_ok c" "get_index (fst c) \<noteq> a" using assms(1) by auto
  moreover obtain ud res where c: "c = (ud, res)" by (cases c)
  ultimately have "get_index ud \<noteq> a" "nat res \<le> UDP_MTU" by (auto simp: cqe_ok_def)
  then show "datagram_of u w' c = datagram_of u w c"
    using in_block_load [OF assms(2)] by (simp add: datagram_of_def c)
qed

lemma entry_user_data:
  "entry_ok J base xs R w e \<Longrightarrow>
     \<exists>idx < UDP_FRAG_BUFS. snd e = make_user_data TAG_RECV idx \<or> snd e = make_user_data TAG_WRITE idx"
  by (auto simp: entry_ok_def recv_entry_def write_entry_def)

lemma write_entry_tag:
  assumes "entry_ok J base xs R w e" and "e = write_entry J base xs i idx"
  shows "get_tag (snd e) = TAG_WRITE"
proof -
  obtain b where b: "b < UDP_FRAG_BUFS" "e = recv_entry (j_ring J) b \<or> (\<exists>i \<in> R. e = write_entry J base xs i b)"
    using assms(1) by (auto simp: entry_ok_def)
  then have "snd e = make_user_data TAG_WRITE b" using assms(2) by (auto simp: recv_entry_def write_entry_def)
  then show ?thesis using b(1) by simp
qed

lemma op_done_inv:
  assumes inv: "recv_inv J base xs R old w" and fl: "u_flight w = fl1 @ e # fl2"
    and fields: "u_ring w' = u_ring w" "u_runs w' = u_runs w" "fds w' = fds w" "u_sq w' = u_sq w"
      "u_flight w' = fl1 @ fl2" "u_cq w' = u_cq w @ [(snd e, res)]"
    and blk: "in_block (j_ring J) (get_index (snd e)) w w'" and res: "res \<le> int UDP_MTU"
    and disk: "file_state J base xs R old w'"
  shows "recv_inv J base xs R old w' \<and> pend w' = pend w \<and>
    arrived (j_ring J) w' = arrived (j_ring J) w @
      (if has_datagram (snd e, res) then [datagram_of (j_ring J) w' (snd e, res)] else [])"
proof -
  let ?M = "mset (map snd (u_sq w)) + mset (map snd (fl1 @ fl2)) + mset (map fst (u_cq w))"
  have own: "owned w" and ents: "\<forall>e \<in> set (u_sq w) \<union> set (u_flight w). entry_ok J base xs R w e"
    and cqs: "\<forall>c \<in> set (u_cq w). cqe_ok c" using inv by (simp_all add: recv_inv_def)
  have pend: "pend w = add_mset (snd e) ?M" by (simp add: pend_def fl)
  have pend': "pend w' = pend w" by (simp add: pend_def fields fl)
  have other: "get_index (snd e') \<noteq> get_index (snd e)" if "e' \<in> set (u_sq w) \<union> set (fl1 @ fl2)" for e'
    by (rule owned_other [OF own pend]) (use that in auto)
  have otherc: "get_index (fst c) \<noteq> get_index (snd e)" if "c \<in> set (u_cq w)" for c
    by (rule owned_other [OF own pend]) (use that in auto)
  have "entry_ok J base xs R w' e'" if "e' \<in> set (u_sq w) \<union> set (fl1 @ fl2)" for e'
    by (rule entry_ok_block [OF _ blk other [OF that]]) (use ents that fl in auto)
  moreover have "cqe_ok (snd e, res)"
    using entry_user_data [of J base xs R w e] ents fl res by (simp add: cqe_ok_def)
  moreover have "owned w'" using own pend' by (simp add: owned_def)
  ultimately have "recv_inv J base xs R old w'"
    using inv disk fields cqs by (auto simp: recv_inv_def)
  moreover have "arrived (j_ring J) w' = arrived (j_ring J) w @
      (if has_datagram (snd e, res) then [datagram_of (j_ring J) w' (snd e, res)] else [])"
    using arrived_block [OF _ blk, of "u_cq w"] cqs otherc by (simp add: arrived_def fields(6))
  ultimately show ?thesis using pend' by simp
qed


lemma file_state_failed:
  assumes "file_state J base xs R old w" and "u_flight w = fl1 @ e # fl2"
    and "files w' = files w" "u_sq w' = u_sq w" "u_flight w' = fl1 @ fl2" "u_cq w' = u_cq w @ [(snd e, res)]"
    and "\<And>i idx. e = write_entry J base xs i idx \<Longrightarrow> i \<in> R \<Longrightarrow> get_tag (snd e) = TAG_WRITE \<and> res < 0"
  shows "file_state J base xs R old w'"
proof -
  obtain F S where F: "files w = (j_files J)(j_path J \<mapsto> F)" "agrees F (j_target J) S" "old \<subseteq> S"
    and each: "\<forall>i \<in> R. span base xs i \<subseteq> S \<or> writing_piece J base xs i w \<or> failed_write w"
    using assms(1) by (auto simp: file_state_def)
  have "span base xs i \<subseteq> S \<or> writing_piece J base xs i w' \<or> failed_write w'" if i: "i \<in> R" for i
  proof -
    have "failed_write w \<Longrightarrow> failed_write w'" using assms(6) by (auto simp: failed_write_def)
    moreover have "writing_piece J base xs i w \<Longrightarrow> writing_piece J base xs i w' \<or> failed_write w'"
    proof -
      assume "writing_piece J base xs i w"
      then obtain idx where e: "write_entry J base xs i idx \<in> set (u_sq w) \<union> set (u_flight w)"
        by (auto simp: writing_piece_def)
      show ?thesis
      proof (cases "e = write_entry J base xs i idx")
        case True
        then show ?thesis using assms(6) assms(7) [OF True i] by (auto simp: failed_write_def)
      next
        case False
        then show ?thesis using e assms(2,4,5) by (auto simp: writing_piece_def)
      qed
    qed
    ultimately show ?thesis using each i by blast
  qed
  then show ?thesis using F assms(3) unfolding file_state_def by auto
qed

lemma file_state_written:
  assumes "file_state J base xs R old w" and fl: "u_flight w = fl1 @ write_entry J base xs j idx # fl2" and j: "j \<in> R"
    and rng: "base + length xs \<le> length (j_target J)" "region base (length xs) (j_target J) = xs"
      "j * UDP_PAYLOAD_SIZE \<le> length xs"
    and f: "of_path f = j_path J"
    and w': "files w' = (files w)(of_path f \<mapsto> write_at (contents w (of_path f)) (base + j * UDP_PAYLOAD_SIZE) (piece xs j))"
      "u_sq w' = u_sq w" "u_flight w' = fl1 @ fl2" "u_cq w' = u_cq w @ [c]"
  shows "file_state J base xs R old w'"
proof -
  obtain F S where F: "files w = (j_files J)(j_path J \<mapsto> F)" "agrees F (j_target J) S" "old \<subseteq> S"
    and each: "\<forall>i \<in> R. span base xs i \<subseteq> S \<or> writing_piece J base xs i w \<or> failed_write w"
    using assms(1) by (auto simp: file_state_def)
  let ?at = "base + j * UDP_PAYLOAD_SIZE" and ?n = "length (piece xs j)"
  have n: "?n = min UDP_PAYLOAD_SIZE (length xs - j * UDP_PAYLOAD_SIZE)" by (rule length_piece)
  have "piece xs j = region ?at ?n (j_target J)"
  proof -
    have "piece xs j = region (j * UDP_PAYLOAD_SIZE) UDP_PAYLOAD_SIZE (region base (length xs) (j_target J))"
      by (simp add: piece_def rng(2))
    also have "\<dots> = region ?at ?n (j_target J)" unfolding n
      by (simp add: region_def drop_take min.commute add.commute)
    finally show ?thesis .
  qed
  moreover have "?at + ?n \<le> length (j_target J)" using rng n by simp
  ultimately have A: "agrees (write_at F ?at (piece xs j)) (j_target J) (S \<union> span base xs j)"
    using agrees_write [OF F(2), of ?at ?n] by (simp add: span_def)
  have files': "files w' = (j_files J)(j_path J \<mapsto> write_at F ?at (piece xs j))"
    using w'(1) F(1) f by (simp add: contents_def)
  have "span base xs i \<subseteq> S \<union> span base xs j \<or> writing_piece J base xs i w' \<or> failed_write w'" if i: "i \<in> R" for i
  proof -
    have "failed_write w \<Longrightarrow> failed_write w'" using w'(4) by (auto simp: failed_write_def)
    moreover have "writing_piece J base xs i w \<Longrightarrow> writing_piece J base xs i w' \<or> i = j"
    proof -
      assume "writing_piece J base xs i w"
      then obtain b where e: "write_entry J base xs i b \<in> set (u_sq w) \<union> set (u_flight w)"
        by (auto simp: writing_piece_def)
      have "i = j" if "write_entry J base xs i b = write_entry J base xs j idx"
        using that by (simp add: write_entry_def udp_sizes)
      then show ?thesis using e fl w'(2,3) by (auto simp: writing_piece_def)
    qed
    ultimately show ?thesis using each i by blast
  qed
  then show ?thesis using files' A F(3) unfolding file_state_def by (metis (no_types, lifting) sup.coboundedI1)
qed


text \<open>Every datagram of the chunk fits a buffer.\<close>

definition stepped ::
  "recv_job \<Rightarrow> nat \<Rightarrow> u8 list \<Rightarrow> nat set \<Rightarrow> nat set \<Rightarrow> u8 list list \<Rightarrow> u8 list list \<Rightarrow> (nat \<times> u8 list) list
     \<Rightarrow> 'e udp_world_scheme \<Rightarrow> 'e udp_world_scheme \<Rightarrow> bool" where
  "stepped J base xs R old ds dealt after w w' \<longleftrightarrow>
     recv_inv J base xs R old w' \<and> arrivals J ds dealt after w' \<and> pend w' = pend w \<and>
     controls w' = controls w"

lemma kernel_step_inv:
  assumes inv: "recv_inv J base xs R old w" and arr: "arrivals J ds dealt after w"
    and out: "case out of Xfer n \<Rightarrow> CHUNK_SIZE \<le> n | Fail e \<Rightarrow> 0 < e"
    and ds: "\<forall>d \<in> set ds. length d \<le> UDP_MTU \<and> 0 < length d"
  shows "stepped J base xs R old ds dealt after w (kernel_step (i, out) w)"
proof (rule kernel_step_cases [of i out w])
  assume "kernel_step (i, out) w = w"
  then show ?thesis using inv arr by (simp add: stepped_def)
next
  fix fl1 op ud fl2 res w1
  assume fl: "u_flight w = fl1 @ (op, ud) # fl2" and perf: "perform out op w = Some (res, w1)"
    and step: "kernel_step (i, out) w = w1\<lparr>u_flight := fl1 @ fl2, u_cq := u_cq w @ [(ud, res)]\<rparr>"
  let ?w' = "w1\<lparr>u_flight := fl1 @ fl2, u_cq := u_cq w @ [(ud, res)]\<rparr>"
  have e: "entry_ok J base xs R w (op, ud)" and state: "file_state J base xs R old w"
    using inv fl by (auto simp: recv_inv_def)
  show ?thesis
  proof (cases out)
    case (Fail x)
    then have w1: "w1 = w" "res = - int x" "0 < x" using perf out by (simp_all add: perform_def)
    have d: "file_state J base xs R old ?w'"
      by (rule file_state_failed [OF state fl, where res = res])
        (use w1 write_entry_tag [OF e] in simp_all)
    have "recv_inv J base xs R old ?w' \<and> pend ?w' = pend w \<and>
      arrived (j_ring J) ?w' = arrived (j_ring J) w @
        (if has_datagram (snd (op, ud), res) then [datagram_of (j_ring J) ?w' (snd (op, ud), res)] else [])"
      by (rule op_done_inv [OF inv fl _ _ _ _ _ _ _ _ d]) (use w1 in \<open>simp_all add: in_block_same\<close>)
    then show ?thesis using arr w1 unfolding step stepped_def
      by (simp add: arrivals_def has_datagram_def)
  next
    case (Xfer n)
    then have n: "CHUNK_SIZE \<le> n" using out by simp
    obtain idx where idx: "idx < UDP_FRAG_BUFS"
      and cases: "(op, ud) = recv_entry (j_ring J) idx \<or>
        (\<exists>j \<in> R. (op, ud) = write_entry J base xs j idx \<and>
           drop FRAG_HDR_SIZE (load (frag_addr (j_ring J) idx) (FRAG_HDR_SIZE + length (piece xs j)) w) = piece xs j)"
      using e by (auto simp: entry_ok_def)
    from cases show ?thesis
    proof
      assume r: "(op, ud) = recv_entry (j_ring J) idx"
      then obtain k d rest where net: "net_in w = (k, d) # rest" "k \<le> controls w"
          and p: "res = int (min UDP_MTU (length d))" "w1 = store (frag_addr (j_ring J) idx) (take UDP_MTU d) (w\<lparr>net_in := rest\<rparr>)"
        using perf Xfer by (auto simp: perform_def recv_entry_def split: list.splits if_splits)
      obtain coming where c: "ds = dealt @ arrived (j_ring J) w @ coming" "net_in w = map (Pair (controls w)) coming @ after"
        using arr by (auto simp: arrivals_def)
      have "coming \<noteq> []" using net c arr by (auto simp: arrivals_def)
      then obtain coming' where c': "coming = d # coming'" "k = controls w" "rest = map (Pair (controls w)) coming' @ after"
        using net c by (cases coming) auto
      have len: "length d \<le> UDP_MTU" "0 < length d" using ds c c' by auto
      have ud: "ud = make_user_data TAG_RECV idx" using r by (simp add: recv_entry_def)
      have d: "file_state J base xs R old ?w'"
        by (rule file_state_failed [OF state fl, where res = res])
          (use p r in \<open>auto simp: write_entry_def recv_entry_def\<close>)
      have "recv_inv J base xs R old ?w' \<and> pend ?w' = pend w \<and>
        arrived (j_ring J) ?w' = arrived (j_ring J) w @
          (if has_datagram (snd (op, ud), res) then [datagram_of (j_ring J) ?w' (snd (op, ud), res)] else [])"
      proof (rule op_done_inv [OF inv fl _ _ _ _ _ _ _ _ d])
        have "in_block (j_ring J) idx (w\<lparr>net_in := rest\<rparr>) w1" unfolding p(2) by (rule in_block_store) simp
        then show "in_block (j_ring J) (get_index (snd (op, ud))) w ?w'" using ud idx by (simp add: in_block_def)
      qed (use p in \<open>simp_all\<close>)
      moreover have "has_datagram (ud, res)" using ud idx p len by (simp add: has_datagram_def)
      moreover have "datagram_of (j_ring J) ?w' (ud, res) = d"
      proof -
        have "load (frag_addr (j_ring J) idx) (nat res) w1 = take (nat res) (take UDP_MTU d)"
          unfolding p(2) by (rule load_store_same) (use p(1) in simp)
        then show ?thesis using ud idx p(1) len by (simp add: datagram_of_def load_def)
      qed
      ultimately show ?thesis using arr c c' p(2) unfolding step stepped_def
        by (auto simp: arrivals_def)
    next
      assume "\<exists>j \<in> R. (op, ud) = write_entry J base xs j idx \<and>
           drop FRAG_HDR_SIZE (load (frag_addr (j_ring J) idx) (FRAG_HDR_SIZE + length (piece xs j)) w) = piece xs j"
      then obtain j where j: "j \<in> R" "(op, ud) = write_entry J base xs j idx"
          "drop FRAG_HDR_SIZE (load (frag_addr (j_ring J) idx) (FRAG_HDR_SIZE + length (piece xs j)) w) = piece xs j" by blast
      have I: "u_ring w = j_ring J" "ring_ok (j_ring J)" "base + length xs \<le> length (j_target J)"
          "region base (length xs) (j_target J) = xs" "length xs \<le> CHUNK_SIZE" "R \<subseteq> {..<frag_count_of (length xs)}"
        using inv by (simp_all add: recv_inv_def)
      obtain f where f: "fds w (j_fd J) = Some f" "of_path f = j_path J" using inv by (auto simp: recv_inv_def)
      have js: "j * UDP_PAYLOAD_SIZE \<le> length xs" using piece_start [OF I(5)] I(6) j(1) by force
      have small: "length (piece xs j) \<le> UDP_PAYLOAD_SIZE" by (simp add: length_piece)
      have "length (piece xs j) \<le> n" using small n by (simp add: udp_sizes)
      then have data: "load (fst (frag_addr (j_ring J) idx), snd (frag_addr (j_ring J) idx) + FRAG_HDR_SIZE)
          (min n (length (piece xs j))) w = piece xs j"
        using j(3) by (simp add: load_drop min_absorb2)
      have p: "res = int (length (piece xs j))"
          "w1 = w\<lparr>files := (files w)(of_path f \<mapsto> write_at (contents w (of_path f)) (base + j * UDP_PAYLOAD_SIZE) (piece xs j))\<rparr>"
        using perf Xfer j(2) f(1) reaches_frag [OF I(2) idx small] data I(1)
        by (simp_all add: perform_def write_entry_def Let_def)
      have ud: "ud = make_user_data TAG_WRITE idx" using j(2) by (simp add: write_entry_def)
      have d: "file_state J base xs R old ?w'"
        by (rule file_state_written [OF state _ j(1) I(3,4) js f(2), where idx = idx and c = "(ud, res)"])
          (use p fl j(2) in simp_all)
      have "recv_inv J base xs R old ?w' \<and> pend ?w' = pend w \<and>
        arrived (j_ring J) ?w' = arrived (j_ring J) w @
          (if has_datagram (snd (op, ud), res) then [datagram_of (j_ring J) ?w' (snd (op, ud), res)] else [])"
        by (rule op_done_inv [OF inv fl _ _ _ _ _ _ _ _ d]) (use p small in \<open>simp_all add: in_block_same udp_sizes\<close>)
      then show ?thesis using arr p(2) ud idx unfolding step stepped_def
        by (simp add: arrivals_def has_datagram_def)
    qed
  qed
qed


lemma stepped_refl: "recv_inv J base xs R old w \<Longrightarrow> arrivals J ds dealt after w \<Longrightarrow> stepped J base xs R old ds dealt after w w"
  by (simp add: stepped_def)

lemma kernel_steps_inv:
  assumes "recv_inv J base xs R old w" and "arrivals J ds dealt after w"
    and "\<forall>d \<in> set ds. length d \<le> UDP_MTU \<and> 0 < length d"
    and "\<forall>(i, out) \<in> set es. case out of Xfer n \<Rightarrow> CHUNK_SIZE \<le> n | Fail e \<Rightarrow> 0 < e"
  shows "stepped J base xs R old ds dealt after w (fold kernel_step es w)"
  using assms(1,2,4)
proof (induction es arbitrary: w)
  case Nil
  then show ?case by (simp add: stepped_refl)
next
  case (Cons x es)
  obtain i out where x: "x = (i, out)" by (cases x)
  have s: "stepped J base xs R old ds dealt after w (kernel_step x w)"
    unfolding x by (rule kernel_step_inv) (use Cons.prems assms(3) x in auto)
  then have "stepped J base xs R old ds dealt after (kernel_step x w) (fold kernel_step es (kernel_step x w))"
    using Cons.prems by (intro Cons.IH) (auto simp: stepped_def)
  then show ?case using s by (simp add: stepped_def)
qed

text \<open>A wait that answers: the queues after the kernel ran, with the completion at the head.\<close>

lemma wait_inv:
  assumes "recv_inv J base xs R old w" and "arrivals J ds dealt after w"
    and "\<forall>d \<in> set ds. length d \<le> UDP_MTU \<and> 0 < length d"
    and run: "uring_wait w = Some (Some (ud, res), w')"
  obtains cs w1 where "stepped J base xs R old ds dealt after w w1" "u_cq w1 = (ud, res) # cs" "w' = w1\<lparr>u_cq := cs\<rparr>"
proof -
  obtain es rs where runs: "u_runs w = Runs es # rs"
    using run by (auto simp: uring_wait_def split: list.splits kernel_run.splits)
  let ?w = "w\<lparr>u_runs := rs\<rparr>"
  have eq: "in_block u a w ?w" for u a by (simp add: in_block_def)
  have ents: "entry_ok J base xs R ?w e = entry_ok J base xs R w e" for e
    by (simp add: entry_ok_def load_def)
  have "recv_inv J base xs R old ?w"
    using assms(1) runs by (simp add: recv_inv_def owned_def pend_def ents file_state_def writing_piece_def failed_write_def)
  moreover have "arrivals J ds dealt after ?w"
    using assms(2) by (simp add: arrivals_def arrived_def datagram_of_def load_def)
  moreover have "whole_run (Runs es)" using assms(1) runs by (simp add: recv_inv_def)
  ultimately have st: "stepped J base xs R old ds dealt after ?w (fold kernel_step es ?w)"
    using assms(3) by (intro kernel_steps_inv) (auto simp: whole_run_def)
  have st': "stepped J base xs R old ds dealt after w (fold kernel_step es ?w)"
    using st by (simp add: stepped_def pend_def)
  obtain cs where "u_cq (fold kernel_step es ?w) = (ud, res) # cs" "w' = (fold kernel_step es ?w)\<lparr>u_cq := cs\<rparr>"
    using run runs by (auto simp: uring_wait_def Let_def split: list.splits)
  then show ?thesis by (rule that [OF st'])
qed

text \<open>The buffer of a reaped completion goes into a new entry.\<close>

lemma replace_inv:
  assumes inv: "recv_inv J base xs R old w" and cq: "u_cq w = (ud, res) # cs"
    and R': "R \<subseteq> R'" "R' \<subseteq> {..<frag_count_of (length xs)}"
    and e: "entry_ok J base xs R' w e" "get_index (snd e) = get_index ud"
    and new: "\<And>i. i \<in> R' - R \<Longrightarrow> \<exists>idx. e = write_entry J base xs i idx"
    and fine: "get_tag ud = TAG_WRITE \<Longrightarrow> 0 \<le> res"
  shows "recv_inv J base xs R' old (w\<lparr>u_cq := cs, u_sq := u_sq w @ [e]\<rparr>)"
proof -
  let ?w = "w\<lparr>u_cq := cs, u_sq := u_sq w @ [e]\<rparr>"
  have ents: "entry_ok J base xs R' ?w e'" if "entry_ok J base xs R w e' \<or> e' = e" for e'
  proof -
    have "entry_ok J base xs R' w e'" using that e(1) R'(1) unfolding entry_ok_def by blast
    then show ?thesis by (simp add: entry_ok_def load_def)
  qed
  have "owned ?w" using inv e(2) by (simp add: recv_inv_def owned_def pend_def cq)
  moreover have "file_state J base xs R' old ?w"
  proof -
    have "file_state J base xs R old w" using inv by (simp add: recv_inv_def)
    then obtain F S where F: "files w = (j_files J)(j_path J \<mapsto> F)" "agrees F (j_target J) S" "old \<subseteq> S"
      and each: "\<forall>i \<in> R. span base xs i \<subseteq> S \<or> writing_piece J base xs i w \<or> failed_write w"
      by (auto simp: file_state_def)
    have "failed_write w \<Longrightarrow> failed_write ?w" using fine by (auto simp: failed_write_def cq)
    moreover have "writing_piece J base xs i w \<Longrightarrow> writing_piece J base xs i ?w" for i
      by (auto simp: writing_piece_def)
    moreover have "writing_piece J base xs i ?w" if "i \<in> R' - R" for i
      using new [OF that] by (auto simp: writing_piece_def)
    ultimately have "\<forall>i \<in> R'. span base xs i \<subseteq> S \<or> writing_piece J base xs i ?w \<or> failed_write ?w"
      using each by blast
    moreover have "files ?w = (j_files J)(j_path J \<mapsto> F)" using F(1) by simp
    ultimately show ?thesis using F(2,3) unfolding file_state_def by blast
  qed
  ultimately show ?thesis using inv R' ents by (auto simp: recv_inv_def cq)
qed

lemma submitted_inv:
  assumes "recv_inv J base xs R old w" and "arrivals J ds dealt after w"
  obtains w' where "ring_submit w = Some (Ok (), w')" "stepped J base xs R old ds dealt after w w'"
proof -
  define n where "n = (case u_limits w of [] \<Rightarrow> length (u_sq w) | k # _ \<Rightarrow> k)"
  let ?w = "w\<lparr>u_flight := u_flight w @ take n (u_sq w), u_sq := drop n (u_sq w), u_limits := tl (u_limits w)\<rparr>"
  have run: "ring_submit w = Some (Ok (), ?w)"
    by (simp add: ring_submit_def io_modify_def n_def Let_def)
  have sets: "set (drop n (u_sq w)) \<union> (set (u_flight w) \<union> set (take n (u_sq w))) = set (u_sq w) \<union> set (u_flight w)"
  proof -
    have "set (u_sq w) = set (take n (u_sq w)) \<union> set (drop n (u_sq w))"
      by (metis append_take_drop_id set_append)
    then show ?thesis by auto
  qed
  have "mset (map snd (u_sq w)) = mset (map snd (take n (u_sq w))) + mset (map snd (drop n (u_sq w)))"
    by (metis append_take_drop_id map_append mset_append)
  then have pend: "pend ?w = pend w" by (simp add: pend_def)
  have ents: "entry_ok J base xs R ?w e = entry_ok J base xs R w e" for e
    by (simp add: entry_ok_def load_def)
  have wp: "writing_piece J base xs i ?w = writing_piece J base xs i w" for i
    using sets by (auto simp: writing_piece_def)
  have "recv_inv J base xs R old ?w"
    using assms(1) sets pend unfolding recv_inv_def owned_def file_state_def failed_write_def wp
    by (simp add: ents ball_Un [symmetric])
  moreover have "arrivals J ds dealt after ?w"
    using assms(2) by (simp add: arrivals_def arrived_def datagram_of_def load_def)
  ultimately show ?thesis using that [OF run] pend by (simp add: stepped_def)
qed


section \<open>One turn of the receive loop\<close>

definition st_ok :: "recv_job \<Rightarrow> nat \<Rightarrow> u8 list \<Rightarrow> nat set \<Rightarrow> recv_state \<Rightarrow> bool" where
  "st_ok J base xs R st \<longleftrightarrow>
     rs_fd st = j_fd J \<and> rs_offset st = base \<and> rs_frag_count st = frag_count_of (length xs) \<and>
     length (rs_received st) = MAX_FRAGS_PER_CHUNK \<and> (\<forall>i < MAX_FRAGS_PER_CHUNK. rs_received st ! i \<longleftrightarrow> i \<in> R) \<and>
     rs_remaining st = frag_count_of (length xs) - card R"

text \<open>The pieces among the datagrams looked at.\<close>

definition pieces_in :: "nat \<Rightarrow> u8 list \<Rightarrow> u8 list list \<Rightarrow> nat set" where
  "pieces_in c xs ds = {i. i < frag_count_of (length xs) \<and> fragment c xs i \<in> set ds}"

lemma submit_recv_result:
  assumes "u_ring w = u" and "ring_ok u" and "idx < UDP_FRAG_BUFS"
  shows "\<exists>r w'. submit_recv idx w = Some (r, w') \<and>
    (r = Ok () \<and> w' = w\<lparr>u_sq := u_sq w @ [recv_entry u idx]\<rparr> \<or> (\<exists>e. r = Throw e))"
  using assms frag_buf_ok [OF assms(2,3)]
  by (auto simp: submit_recv_def push_sqe_def io_bind_def io_get_def io_modify_def recv_entry_def frag_addr_def ring_ok_def)

lemma process_fragment_result:
  assumes w: "u_ring w = j_ring J" "ring_ok (j_ring J)" "idx < UDP_FRAG_BUFS"
    and d: "load (frag_addr (j_ring J) idx) (length d) w = d" "d = fragment c xs i"
    and i: "i < frag_count_of (length xs)" "length xs \<le> CHUNK_SIZE"
    and st: "st_ok J base xs R st" and rng: "base + length xs < 2 ^ 64"
  shows "\<exists>r w'. process_fragment idx (int (length d)) st w = Some (r, w') \<and>
    (i \<in> R \<and> r = Ok (False, st) \<and> w' = w \<or>
     i \<notin> R \<and> r = Ok (True, st\<lparr>rs_received := (rs_received st)[i := True], rs_remaining := dec64 (rs_remaining st)\<rparr>) \<and>
       w' = w\<lparr>u_sq := u_sq w @ [write_entry J base xs i idx]\<rparr> \<or>
     (\<exists>e. r = Throw e))"
proof -
  have i17: "i < MAX_FRAGS_PER_CHUNK" using i frag_count_le [OF i(2)] by simp
  note H = fragment_header [OF i17, of c xs]
  have len: "FRAG_HDR_SIZE \<le> length d" using H(4) d(2) by simp
  have "load (frag_addr (j_ring J) idx) FRAG_HDR_SIZE w = take FRAG_HDR_SIZE d"
    using load_take [OF len, of "frag_addr (j_ring J) idx" w] d(1) by simp
  then have hdr: "parse_frag_hdr (load (frag_addr (j_ring J) idx) FRAG_HDR_SIZE w) = parse_frag_hdr d"
    by (simp add: parse_frag_hdr_take)
  have "(base + i * UDP_PAYLOAD_SIZE) mod 2 ^ 64 = base + i * UDP_PAYLOAD_SIZE"
    using piece_start [OF i(2,1)] rng by simp
  then show ?thesis
    using st i i17 w len frag_buf_ok [OF w(2,3)] H(1,2) d(2)
    by (auto simp: process_fragment_def io_bind_def io_get_def io_modify_def push_sqe_def Let_def hdr bitset_test_def
        st_ok_def write_entry_def)
qed

lemma st_ok_insert:
  assumes "st_ok J base xs R st" and "i < frag_count_of (length xs)" and "i \<notin> R" and "R \<subseteq> {..<frag_count_of (length xs)}"
    and "length xs \<le> CHUNK_SIZE"
  shows "st_ok J base xs (insert i R) (st\<lparr>rs_received := (rs_received st)[i := True], rs_remaining := dec64 (rs_remaining st)\<rparr>)"
proof -
  have fin: "finite R" by (rule finite_subset [OF assms(4)]) simp
  have "insert i R \<subseteq> {..<frag_count_of (length xs)}" using assms(2,4) by simp
  then have "card (insert i R) \<le> frag_count_of (length xs)" using card_mono [of "{..<frag_count_of (length xs)}"] by fastforce
  then have "card R < frag_count_of (length xs)" "card (insert i R) = Suc (card R)" using fin assms(3) by simp_all
  moreover have "i < MAX_FRAGS_PER_CHUNK" using assms(2) frag_count_le [OF assms(5)] by simp
  ultimately show ?thesis using assms(1) by (auto simp: st_ok_def dec64_def nth_list_update)
qed

text \<open>The datagrams of a chunk: all of its pieces, any number of times, the last one being new.\<close>

definition covers :: "nat \<Rightarrow> u8 list \<Rightarrow> u8 list list \<Rightarrow> bool" where
  "covers c xs ds \<longleftrightarrow>
     set ds = fragment c xs ` {..<frag_count_of (length xs)} \<and> (ds \<noteq> [] \<longrightarrow> last ds \<notin> set (butlast ds))"

lemma fragment_inj:
  assumes "fragment c xs i = fragment c xs j" and "i < frag_count_of (length xs)" and "j < frag_count_of (length xs)"
    and "length xs \<le> CHUNK_SIZE"
  shows "i = j"
proof -
  have "i < MAX_FRAGS_PER_CHUNK" "j < MAX_FRAGS_PER_CHUNK" using frag_count_le [OF assms(4)] assms(2,3) by simp_all
  from fragment_header(1) [OF this(1), of c xs] fragment_header(1) [OF this(2), of c xs] show ?thesis
    unfolding assms(1) by simp
qed

lemma pieces_in_snoc:
  assumes "i < frag_count_of (length xs)" and "length xs \<le> CHUNK_SIZE"
  shows "pieces_in c xs (ds @ [fragment c xs i]) = insert i (pieces_in c xs ds)"
proof (rule set_eqI)
  fix j
  show "j \<in> pieces_in c xs (ds @ [fragment c xs i]) \<longleftrightarrow> j \<in> insert i (pieces_in c xs ds)"
  proof (cases "j = i")
    case False
    then have "fragment c xs j \<noteq> fragment c xs i" if "j < frag_count_of (length xs)"
      using fragment_inj [OF _ that assms] by blast
    then show ?thesis using False by (auto simp: pieces_in_def)
  qed (simp add: pieces_in_def assms(1))
qed

lemma covers_sizes:
  assumes "covers c xs ds" and "length xs \<le> CHUNK_SIZE"
  shows "\<forall>d \<in> set ds. length d \<le> UDP_MTU \<and> 0 < length d"
proof
  fix d assume "d \<in> set ds"
  then obtain i where i: "i < frag_count_of (length xs)" "d = fragment c xs i"
    using assms(1) by (auto simp: covers_def)
  then have "i < MAX_FRAGS_PER_CHUNK" using frag_count_le [OF assms(2)] by simp
  from fragment_header(4,5) [OF this, of c xs] show "length d \<le> UDP_MTU \<and> 0 < length d"
    unfolding i(2) by (simp add: udp_sizes)
qed

definition turning ::
  "recv_job \<Rightarrow> nat \<Rightarrow> nat \<Rightarrow> u8 list \<Rightarrow> nat set \<Rightarrow> u8 list list \<Rightarrow> (nat \<times> u8 list) list \<Rightarrow> nat
     \<Rightarrow> recv_state \<times> nat \<times> nat \<Rightarrow> 'e udp_world_scheme \<Rightarrow> bool" where
  "turning J c base xs old ds after k = (\<lambda>(st, pw, pr) w.
     \<exists>dealt. recv_inv J base xs (pieces_in c xs dealt) old w \<and> arrivals J ds dealt after w \<and>
       st_ok J base xs (pieces_in c xs dealt) st \<and> pw = writes w \<and> controls w = k)"

lemma turning_submit:
  assumes "turning J c base xs old ds after k s w"
  shows "wp True (if b then ring_submit else io_ret ()) (\<lambda>r w'. r = Ok () \<and> turning J c base xs old ds after k s w') w"
proof (cases b)
  case True
  obtain st pw pr dealt where s: "s = (st, pw, pr)" and t: "recv_inv J base xs (pieces_in c xs dealt) old w"
      "arrivals J ds dealt after w" "st_ok J base xs (pieces_in c xs dealt) st" "pw = writes w" "controls w = k"
    using assms by (cases s) (auto simp: turning_def)
  obtain w' where "ring_submit w = Some (Ok (), w')" "stepped J base xs (pieces_in c xs dealt) old ds dealt after w w'"
    by (rule submitted_inv [OF t(1,2)])
  then show ?thesis using True t s by (auto simp: wp_def turning_def stepped_def writes_def)
qed (use assms in \<open>simp add: wp_simps\<close>)


lemma wp_Some: "m w = Some (r, w') \<Longrightarrow> wp b m Q w = Q r w'"
  by (simp add: wp_def)

lemma wp_sys_case: "wp b (sys m) Q w = (case m w of None \<Rightarrow> b | Some (x, w') \<Rightarrow> Q (Ok x) w')"
  by (simp add: wp_def sys_def split: option.splits)

text \<open>A run that may throw, is never undefined, and on success ends in \<open>F\<close>.\<close>

definition succeeds :: "('w \<Rightarrow> bool) \<Rightarrow> 'a res \<Rightarrow> 'w \<Rightarrow> bool" where
  "succeeds F r w = (case r of Ok _ \<Rightarrow> F w | Throw _ \<Rightarrow> True | Undef \<Rightarrow> False)"

lemma succeeds_simps [simp]:
  "succeeds F (Ok x) w = F w" "succeeds F (Throw e) w" "\<not> succeeds F Undef w"
  by (simp_all add: succeeds_def)

lemma wp_reclaim:
  assumes w: "u_ring w = u" "ring_ok u" "idx < UDP_FRAG_BUFS"
    and t: "turning J c base xs old ds after k s (w\<lparr>u_sq := u_sq w @ [recv_entry u idx]\<rparr>)"
    and Q: "\<And>w'. turning J c base xs old ds after k s w' \<Longrightarrow> Q (Ok ()) w'" "\<And>e w'. Q (Throw e) w'"
  shows "wp True (reclaim idx p f) Q w"
proof -
  obtain r w1 where run: "submit_recv idx w = Some (r, w1)"
      "r = Ok () \<and> w1 = w\<lparr>u_sq := u_sq w @ [recv_entry u idx]\<rparr> \<or> (\<exists>e. r = Throw e)"
    using submit_recv_result [OF w] by blast
  have "wp True (if p \<ge> f then ring_submit else io_ret ()) Q (w\<lparr>u_sq := u_sq w @ [recv_entry u idx]\<rparr>)"
    by (rule wp_mono [OF turning_submit [OF t]]) (use Q(1) in blast)
  then show ?thesis using run(2) Q(2) by (auto simp: reclaim_def wp_bind wp_Some [where m = "submit_recv idx", OF run(1)] on_ok_def)
qed

text \<open>The counts after a completion was replaced by an entry.\<close>

lemma writes_replace:
  assumes "u_cq w = (ud, res) # cs"
  shows "writes w + (if get_tag (snd e) = TAG_WRITE then 1 else 0) =
    writes (w\<lparr>u_cq := cs, u_sq := u_sq w @ [e]\<rparr>) + (if get_tag ud = TAG_WRITE then 1 else 0)"
  by (simp add: writes_def pend_def assms)

lemma arrivals_replace:
  assumes "arrivals J ds dealt after w" and "u_cq w = x # cs"
  shows "arrivals J ds (dealt @ (if has_datagram x then [datagram_of (j_ring J) w x] else [])) after
    (w\<lparr>u_cq := cs, u_sq := u_sq w @ [e]\<rparr>)"
proof -
  have "datagram_of (j_ring J) (w\<lparr>u_cq := cs, u_sq := u_sq w @ [e]\<rparr>) = datagram_of (j_ring J) w"
    by (rule ext) (simp add: datagram_of_def load_def split: prod.split)
  then show ?thesis using assms by (auto simp: arrivals_def arrived_def)
qed

lemma cqe_index:
  assumes "cqe_ok (ud, res)"
  shows "get_index ud < UDP_FRAG_BUFS \<and> res \<le> int UDP_MTU \<and> ud = make_user_data (get_tag ud) (get_index ud)"
  using assms by (auto simp: cqe_ok_def)

lemma entry_ok_recv: "idx < UDP_FRAG_BUFS \<Longrightarrow> entry_ok J base xs R w (recv_entry (j_ring J) idx)"
  by (auto simp: entry_ok_def)


text \<open>Taking a datagram or a finished write out of the completion queue keeps the invariant.\<close>

lemma turning_fresh:
  assumes st: "stepped J base xs (pieces_in c xs dealt) old ds dealt after w w1" and cq: "u_cq w1 = (ud, res) # cs"
    and tag: "get_tag ud = TAG_RECV" "0 < res" and d: "datagram_of (j_ring J) w1 (ud, res) = fragment c xs i"
    and i: "i < frag_count_of (length xs)" "i \<notin> pieces_in c xs dealt"
    and s: "st_ok J base xs (pieces_in c xs dealt) st" and k: "controls w = k"
  shows "turning J c base xs old ds after k
    (st\<lparr>rs_received := (rs_received st)[i := True], rs_remaining := dec64 (rs_remaining st)\<rparr>, writes w1 + 1, pr)
    (w1\<lparr>u_cq := cs, u_sq := u_sq w1 @ [write_entry J base xs i (get_index ud)]\<rparr>)"
proof -
  let ?R = "pieces_in c xs dealt" and ?e = "write_entry J base xs i (get_index ud)"
  let ?w = "w1\<lparr>u_cq := cs, u_sq := u_sq w1 @ [?e]\<rparr>"
  have inv: "recv_inv J base xs ?R old w1" and arr: "arrivals J ds dealt after w1" and c: "controls w1 = k"
    using st k by (simp_all add: stepped_def)
  have len: "length xs \<le> CHUNK_SIZE" and Rs: "?R \<subseteq> {..<frag_count_of (length xs)}" and cqe: "cqe_ok (ud, res)"
    using inv cq by (simp_all add: recv_inv_def)
  note idx = cqe_index [OF cqe]
  have i17: "i < MAX_FRAGS_PER_CHUNK" using frag_count_le [OF len] i(1) by simp
  have R': "pieces_in c xs (dealt @ [fragment c xs i]) = insert i ?R" by (rule pieces_in_snoc [OF i(1) len])
  have d': "load (frag_addr (j_ring J) (get_index ud)) (nat res) w1 = fragment c xs i"
    using d by (simp add: datagram_of_def)
  have n: "nat res = FRAG_HDR_SIZE + length (piece xs i)"
    using arg_cong [OF d', of length] fragment_header(4) [OF i17] by simp
  have "drop FRAG_HDR_SIZE (load (frag_addr (j_ring J) (get_index ud)) (FRAG_HDR_SIZE + length (piece xs i)) w1) = piece xs i"
    using d' fragment_header(3) [OF i17] n by simp
  then have e: "entry_ok J base xs (insert i ?R) w1 ?e" using idx unfolding entry_ok_def by blast
  have "recv_inv J base xs (insert i ?R) old ?w"
    by (rule replace_inv [OF inv cq _ _ e]) (use Rs i idx tag in \<open>auto simp: entry_tag\<close>)
  moreover have "arrivals J ds (dealt @ [fragment c xs i]) after ?w"
    using arrivals_replace [OF arr cq, of ?e] tag d by (simp add: has_datagram_def)
  moreover have "writes ?w = writes w1 + 1"
    using writes_replace [OF cq, of ?e] tag idx by (simp add: entry_tag)
  moreover have "st_ok J base xs (insert i ?R)
      (st\<lparr>rs_received := (rs_received st)[i := True], rs_remaining := dec64 (rs_remaining st)\<rparr>)"
    by (rule st_ok_insert [OF s i Rs len])
  ultimately show ?thesis using c unfolding turning_def prod.case R' [symmetric] by auto
qed

lemma turning_reclaimed:
  assumes st: "stepped J base xs (pieces_in c xs dealt) old ds dealt after w w1" and cq: "u_cq w1 = (ud, res) # cs"
    and tag: "get_tag ud = TAG_WRITE \<and> 0 \<le> res \<and> dealt' = dealt \<and> pw + 1 = writes w1 \<or>
      get_tag ud = TAG_RECV \<and> 0 < res \<and> datagram_of (j_ring J) w1 (ud, res) \<in> set dealt \<and>
        dealt' = dealt @ [datagram_of (j_ring J) w1 (ud, res)] \<and> pw = writes w1"
    and s: "st_ok J base xs (pieces_in c xs dealt) st" and k: "controls w = k"
  shows "turning J c base xs old ds after k (st, pw, pr)
    (w1\<lparr>u_cq := cs, u_sq := u_sq w1 @ [recv_entry (j_ring J) (get_index ud)]\<rparr>)"
proof -
  let ?R = "pieces_in c xs dealt" and ?e = "recv_entry (j_ring J) (get_index ud)"
  let ?w = "w1\<lparr>u_cq := cs, u_sq := u_sq w1 @ [?e]\<rparr>"
  have inv: "recv_inv J base xs ?R old w1" and arr: "arrivals J ds dealt after w1" and c: "controls w1 = k"
    using st k by (simp_all add: stepped_def)
  have Rs: "?R \<subseteq> {..<frag_count_of (length xs)}" and cqe: "cqe_ok (ud, res)"
    using inv cq by (simp_all add: recv_inv_def)
  note idx = cqe_index [OF cqe]
  have R': "pieces_in c xs dealt' = ?R" using tag by (auto simp: pieces_in_def)
  have "recv_inv J base xs ?R old ?w"
    by (rule replace_inv [OF inv cq subset_refl Rs entry_ok_recv]) (use idx tag in \<open>auto simp: entry_tag\<close>)
  moreover have "arrivals J ds dealt' after ?w"
    using arrivals_replace [OF arr cq, of ?e] tag by (auto simp: has_datagram_def)
  moreover have "writes ?w = pw"
    using writes_replace [OF cq, of ?e] tag idx by (auto simp: entry_tag)
  ultimately show ?thesis using c s unfolding turning_def prod.case R' [symmetric] by auto
qed


lemma recv_turn_inv:
  fixes w :: "'e udp_world_scheme"
  assumes t: "turning J c base xs old ds after k s w"
    and ds: "covers c xs ds" "length xs \<le> CHUNK_SIZE" "base + length xs < 2 ^ 64"
    and fin: "\<And>st pr w. turning J c base xs old ds after k (st, 0, pr) w \<Longrightarrow> rs_remaining st = 0 \<Longrightarrow> F w"
  shows "wp True (recv_turn s) (on_turn (turning J c base xs old ds after k) (succeeds F)) w"
proof -
  let ?T = "turning J c base xs old ds after k :: _ \<Rightarrow> 'e udp_world_scheme \<Rightarrow> bool"
  let ?F = "succeeds F :: nat res \<Rightarrow> 'e udp_world_scheme \<Rightarrow> bool"
  obtain st pw pr dealt where s: "s = (st, pw, pr)"
      and inv: "recv_inv J base xs (pieces_in c xs dealt) old w" and arr: "arrivals J ds dealt after w"
      and ok: "st_ok J base xs (pieces_in c xs dealt) st" and pw: "pw = writes w" and k: "controls w = k"
    using t by (cases s) (auto simp: turning_def)
  show ?thesis
  proof (cases "rs_remaining st > 0 \<or> pw > 0")
    case False
    then show ?thesis using t fin by (simp add: recv_turn_def s wp_simps)
  next
    case True
    have sizes: "\<forall>d \<in> set ds. length d \<le> UDP_MTU \<and> 0 < length d" by (rule covers_sizes [OF ds(1,2)])
    show ?thesis
    proof (cases "uring_wait w")
      case None
      then show ?thesis using True by (simp add: recv_turn_def s wp_simps wp_sys_case)
    next
      case (Some y)
      obtain cqe w' where y: "y = (cqe, w')" by (cases y)
      show ?thesis
      proof (cases cqe)
        case None
        then show ?thesis using True Some y by (simp add: recv_turn_def s wp_simps wp_sys_case)
      next
        case (Some x)
        obtain ud res where x: "x = (ud, res)" by (cases x)
        have run: "uring_wait w = Some (Some (ud, res), w')" using \<open>uring_wait w = Some y\<close> y Some x by simp
        obtain cs w1 where st: "stepped J base xs (pieces_in c xs dealt) old ds dealt after w w1"
            and cq: "u_cq w1 = (ud, res) # cs" and w': "w' = w1\<lparr>u_cq := cs\<rparr>"
          by (rule wait_inv [OF inv arr sizes run])
        have inv1: "recv_inv J base xs (pieces_in c xs dealt) old w1" and arr1: "arrivals J ds dealt after w1"
            and pend: "pend w1 = pend w"
          using st by (simp_all add: stepped_def)
        have u: "u_ring w' = j_ring J" "ring_ok (j_ring J)" and cqe: "cqe_ok (ud, res)"
          using inv1 cq w' by (simp_all add: recv_inv_def)
        note idx = cqe_index [OF cqe]
        have writes: "writes w1 = pw" using pend pw by (simp add: writes_def)
        let ?fl = "frag_buf_count (u_ring w) div 2"
        have whole: "wp True (recv_turn s) Q w =
            wp True (if get_tag ud = TAG_RECV then
               (if res \<le> 0 then io_throw (Runtime_error ''recv_file: RECV failed: '')
                else io_bind (process_fragment (get_index ud) res st) (\<lambda>(fresh, st').
                  if fresh then
                    io_bind (if pw + 1 \<ge> ?fl \<or> rs_remaining st' = 0
                             then ring_submit else io_ret ()) (\<lambda>_.
                    io_ret (Inl (st', pw + 1, dec64 pr)))
                  else
                    io_bind (reclaim (get_index ud) (dec64 pr + 1) ?fl) (\<lambda>_.
                    io_ret (Inl (st', pw, dec64 pr + 1)))))
             else if get_tag ud = TAG_WRITE then
               (if res < 0 then io_throw (Runtime_error ''recv_file: WRITE_FIXED failed: '')
                else io_bind (reclaim (get_index ud) (pr + 1) ?fl) (\<lambda>_.
                     io_ret (Inl (st, dec64 pw, pr + 1))))
             else io_ret (Inl (st, pw, pr))) Q w'" for Q
          using True by (simp add: recv_turn_def s wp_bind wp_state wp_sys_case run)
        have cases: "get_tag ud = TAG_RECV \<or> get_tag ud = TAG_WRITE"
          using cqe by (auto simp: cqe_ok_def)
        show ?thesis
        proof (cases "get_tag ud = TAG_RECV")
          case False
          then have tag: "get_tag ud = TAG_WRITE" using cases by blast
          have "wp True (io_bind (reclaim (get_index ud) (pr + 1) ?fl) (\<lambda>_. io_ret (Inl (st, dec64 pw, pr + 1))))
              (on_turn ?T ?F) w'" if res: "\<not> res < 0"
          proof -
            have "ud \<in># pend w1" by (simp add: pend_def cq)
            then have "0 < writes w1" using tag by (auto simp: writes_def pend_def cq)
            then have "dec64 pw + 1 = writes w1" using writes by (simp add: dec64_def)
            then have "?T (st, dec64 pw, pr + 1) (w'\<lparr>u_sq := u_sq w' @ [recv_entry (j_ring J) (get_index ud)]\<rparr>)"
              using turning_reclaimed [OF st cq _ ok k, of dealt "dec64 pw" "pr + 1"] tag res w' by simp
            then show ?thesis unfolding wp_bind
              by (rule wp_reclaim [OF u(1,2) idx [THEN conjunct1]]) (simp_all add: wp_simps)
          qed
          then show ?thesis unfolding whole using False tag by (simp add: wp_simps)
        next
          case True
          note tag = this
          have frag: "wp True (io_bind (process_fragment (get_index ud) res st) (\<lambda>(fresh, st').
                  if fresh then
                    io_bind (if pw + 1 \<ge> ?fl \<or> rs_remaining st' = 0
                             then ring_submit else io_ret ()) (\<lambda>_.
                    io_ret (Inl (st', pw + 1, dec64 pr)))
                  else
                    io_bind (reclaim (get_index ud) (dec64 pr + 1) ?fl) (\<lambda>_.
                    io_ret (Inl (st', pw, dec64 pr + 1))))) (on_turn ?T ?F) w'" if res: "\<not> res \<le> 0"
          proof -
            let ?d = "datagram_of (j_ring J) w1 (ud, res)"
            have "?d \<in> set ds"
              using arr1 tag res by (auto simp: arrivals_def arrived_def cq has_datagram_def)
            then obtain i where i: "i < frag_count_of (length xs)" "?d = fragment c xs i"
              using ds(1) by (auto simp: covers_def)
            have len: "length ?d = nat res" by (simp add: datagram_of_def)
            then have res': "res = int (length ?d)" using res by simp
            have ld: "load (frag_addr (j_ring J) (get_index ud)) (length ?d) w' = ?d"
              unfolding len by (simp add: datagram_of_def w' load_def)
            obtain r w2 where p: "process_fragment (get_index ud) (int (length ?d)) st w' = Some (r, w2)"
              and r: "i \<in> pieces_in c xs dealt \<and> r = Ok (False, st) \<and> w2 = w' \<or>
               i \<notin> pieces_in c xs dealt \<and> r = Ok (True, st\<lparr>rs_received := (rs_received st)[i := True], rs_remaining := dec64 (rs_remaining st)\<rparr>) \<and>
                 w2 = w'\<lparr>u_sq := u_sq w' @ [write_entry J base xs i (get_index ud)]\<rparr> \<or> (\<exists>e. r = Throw e)"
              using process_fragment_result [OF u(1,2) _ ld i(2,1) ds(2) ok ds(3)] idx by blast
            have p': "process_fragment (get_index ud) res st w' = Some (r, w2)" using p res' by simp
            note pf = wp_Some [where m = "process_fragment (get_index ud) res st", OF p']
            from r show ?thesis
            proof (elim disjE conjE exE)
              assume "i \<in> pieces_in c xs dealt" and r2: "r = Ok (False, st)" "w2 = w'"
              then have "?d \<in> set dealt" by (simp add: pieces_in_def i(2))
              then have "?T (st, pw, dec64 pr + 1) (w'\<lparr>u_sq := u_sq w' @ [recv_entry (j_ring J) (get_index ud)]\<rparr>)"
                using turning_reclaimed [OF st cq _ ok k, of "dealt @ [?d]" pw "dec64 pr + 1"] tag res w' writes by simp
              then have "wp True (reclaim (get_index ud) (dec64 pr + 1) ?fl)
                  (on_ok (\<lambda>_. wp True (io_ret (Inl (st, pw, dec64 pr + 1))) (on_turn ?T ?F)) (on_turn ?T ?F)) w'"
                by (rule wp_reclaim [OF u(1,2) idx [THEN conjunct1]]) (simp_all add: wp_simps)
              then show ?thesis using r2 by (simp add: wp_simps pf)
            next
              let ?st = "st\<lparr>rs_received := (rs_received st)[i := True], rs_remaining := dec64 (rs_remaining st)\<rparr>"
              assume new: "i \<notin> pieces_in c xs dealt" and r2: "r = Ok (True, ?st)"
                and w2: "w2 = w'\<lparr>u_sq := u_sq w' @ [write_entry J base xs i (get_index ud)]\<rparr>"
              have "?T (?st, pw + 1, dec64 pr) w2"
                using turning_fresh [OF st cq tag res [unfolded not_le] i(2,1) new ok k, of "dec64 pr"] writes w2 w' by simp
              from turning_submit [OF this] have "wp True (if b then ring_submit else io_ret ())
                  (on_ok (\<lambda>_. wp True (io_ret (Inl (?st, pw + 1, dec64 pr))) (on_turn ?T ?F)) (on_turn ?T ?F)) w2" for b
                by (rule wp_mono) (simp add: wp_simps)
              then show ?thesis using r2 by (simp only: pf on_ok_simps prod.case if_True wp_bind)
            next
              fix e assume "r = Throw e"
              then show ?thesis by (simp add: wp_bind pf)
            qed
          qed
          then show ?thesis unfolding whole using True by (simp add: wp_simps)
        qed
      qed
    qed
  qed
qed


section \<open>A chunk\<close>

text \<open>Between chunks: every buffer waits for a datagram, and the file is final at \<open>old\<close>.\<close>

definition at_rest ::
  "recv_job \<Rightarrow> nat set \<Rightarrow> nat \<Rightarrow> (nat \<times> u8 list) list \<Rightarrow> 'e udp_world_scheme \<Rightarrow> bool" where
  "at_rest J old k arriving w \<longleftrightarrow>
     u_ring w = j_ring J \<and> ring_ok (j_ring J) \<and> (\<forall>r \<in> set (u_runs w). whole_run r) \<and>
     (\<exists>f. fds w (j_fd J) = Some f \<and> of_path f = j_path J) \<and> owned w \<and>
     (\<forall>e \<in> set (u_sq w) \<union> set (u_flight w). \<exists>idx < UDP_FRAG_BUFS. e = recv_entry (j_ring J) idx) \<and>
     (\<forall>x \<in> set (u_cq w). cqe_ok x \<and> get_tag (fst x) = TAG_RECV \<and> \<not> has_datagram x) \<and>
     net_in w = arriving \<and> controls w = k \<and>
     (\<exists>F. files w = (j_files J)(j_path J \<mapsto> F) \<and> agrees F (j_target J) old)"

lemma pieces_in_Nil [simp]: "pieces_in c xs [] = {}"
  by (simp add: pieces_in_def)

lemma no_writes:
  assumes "\<forall>e \<in> set (u_sq w) \<union> set (u_flight w). get_tag (snd e) \<noteq> TAG_WRITE"
    and "\<forall>x \<in> set (u_cq w). get_tag (fst x) \<noteq> TAG_WRITE"
  shows "writes w = 0"
  using assms by (auto simp: writes_def pend_def)

lemma writes_0:
  assumes "writes w = 0"
  shows "\<forall>e \<in> set (u_sq w) \<union> set (u_flight w). get_tag (snd e) \<noteq> TAG_WRITE"
    and "\<forall>x \<in> set (u_cq w). get_tag (fst x) \<noteq> TAG_WRITE"
proof -
  have "get_tag ud \<noteq> TAG_WRITE" if "ud \<in># pend w" for ud
    using assms that by (auto simp: writes_def filter_mset_eq_conv)
  then show "\<forall>e \<in> set (u_sq w) \<union> set (u_flight w). get_tag (snd e) \<noteq> TAG_WRITE"
    and "\<forall>x \<in> set (u_cq w). get_tag (fst x) \<noteq> TAG_WRITE"
    unfolding pend_def by auto
qed

lemma turning_start:
  assumes rest: "at_rest J old k (map (Pair k) ds @ after) w"
    and xs: "region base (length xs) (j_target J) = xs" "base + length xs \<le> length (j_target J)" "length xs \<le> CHUNK_SIZE"
    and after: "\<forall>(k', d) \<in> set after. k < k'"
  shows "turning J c base xs old ds after k
    (\<lparr>rs_fd = j_fd J, rs_offset = base, rs_frag_count = frag_count_of (length xs),
      rs_received = replicate MAX_FRAGS_PER_CHUNK False, rs_remaining = frag_count_of (length xs)\<rparr>, 0, pr) w"
proof -
  obtain F where F: "files w = (j_files J)(j_path J \<mapsto> F)" "agrees F (j_target J) old"
    using rest by (auto simp: at_rest_def)
  have ents: "\<forall>e \<in> set (u_sq w) \<union> set (u_flight w). \<exists>idx < UDP_FRAG_BUFS. e = recv_entry (j_ring J) idx"
    and cqs: "\<forall>x \<in> set (u_cq w). cqe_ok x \<and> get_tag (fst x) = TAG_RECV \<and> \<not> has_datagram x"
    and k: "controls w = k" "net_in w = map (Pair k) ds @ after"
    using rest by (simp_all add: at_rest_def)
  have "file_state J base xs {} old w" using F by (auto simp: file_state_def)
  moreover have "\<forall>e \<in> set (u_sq w) \<union> set (u_flight w). entry_ok J base xs {} w e"
    using ents by (auto simp: entry_ok_def)
  ultimately have "recv_inv J base xs {} old w" using rest xs cqs by (simp add: at_rest_def recv_inv_def)
  moreover have "arrivals J ds [] after w"
  proof -
    have "filter has_datagram (u_cq w) = []" using cqs by (auto simp: filter_empty_conv)
    then show ?thesis using k after by (simp add: arrivals_def arrived_def)
  qed
  moreover have "writes w = 0"
  proof (rule no_writes)
    show "\<forall>e \<in> set (u_sq w) \<union> set (u_flight w). get_tag (snd e) \<noteq> TAG_WRITE"
    proof
      fix e assume "e \<in> set (u_sq w) \<union> set (u_flight w)"
      then obtain idx where "idx < UDP_FRAG_BUFS" "e = recv_entry (j_ring J) idx" using ents by blast
      then show "get_tag (snd e) \<noteq> TAG_WRITE" by (simp add: entry_tag)
    qed
  qed (use cqs in simp)
  ultimately show ?thesis unfolding turning_def prod.case
    by (intro exI [of _ "[]"]) (simp add: st_ok_def k)
qed

lemma covers_all_seen:
  assumes "covers c xs ds" and "ds = dealt @ ys" and "pieces_in c xs dealt = {..<frag_count_of (length xs)}"
  shows "ys = []"
proof (rule ccontr)
  assume ys: "ys \<noteq> []"
  have "set ds \<subseteq> set dealt" using assms(1,3) by (auto simp: covers_def pieces_in_def)
  then have "last ys \<in> set dealt" using ys assms(2) by auto
  moreover have "last ys \<notin> set (dealt @ butlast ys)"
    using assms(1,2) ys by (simp add: covers_def butlast_append)
  ultimately show False by simp
qed

lemma spans_cover:
  assumes "\<forall>i < frag_count_of (length xs). span base xs i \<subseteq> S" and "length xs \<le> CHUNK_SIZE"
  shows "{base ..< base + length xs} \<subseteq> S"
proof
  fix p assume p: "p \<in> {base ..< base + length xs}"
  let ?k = "p - base"
  let ?i = "?k div UDP_PAYLOAD_SIZE"
  have k: "?k < length xs" using p by auto
  then have i: "?i < frag_count_of (length xs)" by (rule piece_index [OF assms(2)])
  have "?i * UDP_PAYLOAD_SIZE \<le> ?k" "?k < ?i * UDP_PAYLOAD_SIZE + UDP_PAYLOAD_SIZE"
    using div_mult_mod_eq [of ?k UDP_PAYLOAD_SIZE] mod_less_divisor [of UDP_PAYLOAD_SIZE ?k]
    by (simp_all add: udp_sizes)
  moreover have "p = base + ?k" using p by simp
  ultimately have "base + ?i * UDP_PAYLOAD_SIZE \<le> p" "p < base + ?i * UDP_PAYLOAD_SIZE + length (piece xs ?i)"
    using k unfolding length_piece by linarith+
  then have "p \<in> span base xs ?i" by (simp add: span_def)
  then show "p \<in> S" using assms(1) i by blast
qed

lemma turning_done:
  assumes t: "turning J c base xs old ds after k (st, 0, pr) w" and "rs_remaining st = 0"
    and ds: "covers c xs ds" "length xs \<le> CHUNK_SIZE"
  shows "at_rest J (old \<union> {base ..< base + length xs}) k after w"
proof -
  obtain dealt where inv: "recv_inv J base xs (pieces_in c xs dealt) old w" and arr: "arrivals J ds dealt after w"
    and st: "st_ok J base xs (pieces_in c xs dealt) st" and wr: "writes w = 0" and k: "controls w = k"
    using t by (auto simp: turning_def)
  let ?n = "frag_count_of (length xs)"
  have R: "pieces_in c xs dealt \<subseteq> {..<?n}" using inv by (simp add: recv_inv_def)
  have "?n \<le> card (pieces_in c xs dealt)" using st assms(2) by (simp add: st_ok_def)
  then have all: "pieces_in c xs dealt = {..<?n}"
    using R by (intro card_subset_eq) (auto dest: card_mono [rotated])
  note W = writes_0 [OF wr]
  have ents: "\<exists>idx < UDP_FRAG_BUFS. e = recv_entry (j_ring J) idx" if "e \<in> set (u_sq w) \<union> set (u_flight w)" for e
  proof -
    have "entry_ok J base xs {..<?n} w e" using inv that unfolding recv_inv_def all by blast
    moreover have "get_tag (snd e) \<noteq> TAG_WRITE" using W(1) that by blast
    ultimately show ?thesis unfolding entry_ok_def by (auto simp: entry_tag)
  qed
  have cqs: "cqe_ok x \<and> get_tag (fst x) = TAG_RECV" if "x \<in> set (u_cq w)" for x
  proof -
    have "cqe_ok x" using inv that by (simp add: recv_inv_def)
    then show ?thesis using W(2) that by (cases x) (auto simp: cqe_ok_def)
  qed
  obtain coming where c: "ds = dealt @ arrived (j_ring J) w @ coming" "net_in w = map (Pair (controls w)) coming @ after"
    using arr by (auto simp: arrivals_def)
  have "arrived (j_ring J) w @ coming = []" by (rule covers_all_seen [OF ds(1) c(1) all])
  then have none: "filter has_datagram (u_cq w) = []" "net_in w = after" using c(2) by (simp_all add: arrived_def)
  obtain F S where F: "files w = (j_files J)(j_path J \<mapsto> F)" "agrees F (j_target J) S" "old \<subseteq> S"
    and each: "\<forall>i \<in> {..<?n}. span base xs i \<subseteq> S \<or> writing_piece J base xs i w \<or> failed_write w"
    using inv by (auto simp: recv_inv_def file_state_def all)
  have "\<not> writing_piece J base xs i w" for i
    using ents W(1) by (force simp: writing_piece_def write_entry_def recv_entry_def)
  moreover have "\<not> failed_write w" using W(2) by (auto simp: failed_write_def)
  ultimately have "{base ..< base + length xs} \<subseteq> S" using each by (intro spans_cover [OF _ ds(2)]) auto
  then have "agrees F (j_target J) (old \<union> {base ..< base + length xs})"
    using F(2,3) by (auto simp: agrees_def)
  then show ?thesis using inv ents cqs none F(1) k
    by (auto simp: at_rest_def recv_inv_def filter_empty_conv)
qed

end
