(* ===== verification/Udp_File.thy ===== *)
theory Udp_File imports Udp_Receive begin

text \<open>Whole ranges: the chunks one after another, each acknowledged on the control connection.\<close>

section \<open>The layout of a range\<close>

definition chunk_bytes :: "u8 list \<Rightarrow> nat \<Rightarrow> u8 list" where
  "chunk_bytes D c = region (c * CHUNK_SIZE) CHUNK_SIZE D"

lemma length_chunk_bytes: "length (chunk_bytes D c) = chunk_len_of (length D) c"
  by (simp add: chunk_bytes_def length_region chunk_len_of_def min.commute)

lemma chunk_len_le: "chunk_len_of n c \<le> CHUNK_SIZE"
  by (simp add: chunk_len_of_def)

lemma chunk_count_exact:
  "n \<le> (2 ^ 32 - 1) * CHUNK_SIZE \<Longrightarrow> chunk_count_32 n = (n + CHUNK_SIZE - 1) div CHUNK_SIZE"
  by (simp add: chunk_count_32_def udp_sizes)

lemma chunk_start:
  "n \<le> (2 ^ 32 - 1) * CHUNK_SIZE \<Longrightarrow> c < chunk_count_32 n \<Longrightarrow> c * CHUNK_SIZE + chunk_len_of n c \<le> n"
  by (simp add: chunk_count_exact chunk_len_of_def udp_sizes)

lemma chunk_next:
  "n \<le> (2 ^ 32 - 1) * CHUNK_SIZE \<Longrightarrow> c < chunk_count_32 n \<Longrightarrow>
     c * CHUNK_SIZE + chunk_len_of n c = min n (Suc c * CHUNK_SIZE)"
  using chunk_start [of n c] by (auto simp: chunk_len_of_def min_def)

lemma chunk_last: "n \<le> (2 ^ 32 - 1) * CHUNK_SIZE \<Longrightarrow> n \<le> chunk_count_32 n * CHUNK_SIZE"
  by (simp add: chunk_count_exact udp_sizes)

section \<open>Receiving\<close>

lemma at_rest_control:
  assumes "at_rest J old k net w" and "control_only w w'"
  shows "at_rest J old (k + 1) net (w'\<lparr>controls := controls w' + 1\<rparr>)"
  using assms(1) control_only_fields [OF assms(2)]
  by (simp add: at_rest_def owned_def pend_def)

lemma at_rest_mono: "at_rest J old k net w \<Longrightarrow> new \<subseteq> old \<Longrightarrow> at_rest J new k net w"
  unfolding at_rest_def agrees_def by blast

text \<open>The datagrams of the chunks from \<open>c\<close> on, each sent once the chunk before it was acknowledged.\<close>

definition arriving :: "nat \<Rightarrow> (nat \<Rightarrow> u8 list list) \<Rightarrow> nat \<Rightarrow> nat \<Rightarrow> (nat \<times> u8 list) list" where
  "arriving k ds c n = concat (map (\<lambda>c. map (Pair (k + c)) (ds c)) [c..<n])"

lemma arriving_Suc: "c < n \<Longrightarrow> arriving k ds c n = map (Pair (k + c)) (ds c) @ arriving k ds (Suc c) n"
  by (simp add: arriving_def upt_conv_Cons)

lemma arriving_done [simp]: "arriving k ds n n = []"
  by (simp add: arriving_def)

lemma arriving_stamps: "(k', d) \<in> set (arriving k ds c n) \<Longrightarrow> k + c \<le> k'"
  by (auto simp: arriving_def)

lemma wp_bind_all: "wp b (io_bind m f) Q = wp b m (on_ok (\<lambda>x. wp b (f x) Q) Q)"
  by (rule ext) (rule wp_bind)

text \<open>Preparing the receives in an empty ring.\<close>

lemma submit_recv_ok:
  assumes "ring_ok (u_ring w)" and "idx < UDP_FRAG_BUFS" and "length (u_sq w) < QUEUE_DEPTH"
  shows "submit_recv idx w = Some (Ok (), w\<lparr>u_sq := u_sq w @ [recv_entry (u_ring w) idx]\<rparr>)"
  using assms frag_buf_ok [OF assms(1,2)]
  by (simp add: submit_recv_def push_sqe_def io_bind_def io_get_def io_modify_def recv_entry_def frag_addr_def ring_ok_def)

lemma submit_recvs:
  assumes "ring_ok (u_ring w)" and "i + n \<le> UDP_FRAG_BUFS" and "length (u_sq w) + n \<le> QUEUE_DEPTH"
  shows "io_for [i..<i + n] submit_recv w = Some (Ok (), w\<lparr>u_sq := u_sq w @ map (recv_entry (u_ring w)) [i..<i + n]\<rparr>)"
  using assms
proof (induction n arbitrary: i w)
  case 0
  then show ?case by simp
next
  case (Suc n)
  let ?w = "w\<lparr>u_sq := u_sq w @ [recv_entry (u_ring w) i]\<rparr>"
  have "submit_recv i w = Some (Ok (), ?w)"
    by (rule submit_recv_ok) (use Suc.prems in simp_all)
  moreover have "io_for [Suc i..<Suc i + n] submit_recv ?w =
      Some (Ok (), ?w\<lparr>u_sq := u_sq ?w @ map (recv_entry (u_ring ?w)) [Suc i..<Suc i + n]\<rparr>)"
    by (rule Suc.IH) (use Suc.prems in simp_all)
  ultimately show ?case by (simp add: upt_conv_Cons del: upt_Suc)
qed

lemma at_rest_submit:
  assumes "at_rest J old k net w"
  shows "wp True ring_submit (succeeds (at_rest J old k net)) w"
proof -
  define n where "n = (case u_limits w of [] \<Rightarrow> length (u_sq w) | k # _ \<Rightarrow> k)"
  let ?w = "w\<lparr>u_flight := u_flight w @ take n (u_sq w), u_sq := drop n (u_sq w), u_limits := tl (u_limits w)\<rparr>"
  have run: "ring_submit w = Some (Ok (), ?w)"
    by (simp add: ring_submit_def io_modify_def n_def Let_def)
  have sets: "set (drop n (u_sq w)) \<union> (set (u_flight w) \<union> set (take n (u_sq w))) = set (u_sq w) \<union> set (u_flight w)"
    using set_append [of "take n (u_sq w)" "drop n (u_sq w)"] by auto
  have "mset (map snd (u_sq w)) = mset (map snd (take n (u_sq w))) + mset (map snd (drop n (u_sq w)))"
    by (metis append_take_drop_id map_append mset_append)
  then have "pend ?w = pend w" by (simp add: pend_def)
  then have "at_rest J old k net ?w"
    using assms sets unfolding at_rest_def owned_def by (simp add: ball_Un [symmetric])
  then show ?thesis by (simp add: wp_def run)
qed

text \<open>A transport that was just constructed, or is otherwise quiet.\<close>

definition idle_ring :: "'e udp_world_scheme \<Rightarrow> bool" where
  "idle_ring w \<longleftrightarrow> ring_ok (u_ring w) \<and> u_sq w = [] \<and> u_flight w = [] \<and> u_cq w = []"

definition whole_runs :: "'e udp_world_scheme \<Rightarrow> bool" where
  "whole_runs w \<longleftrightarrow> (\<forall>r \<in> set (u_runs w). whole_run r)"

definition job_of :: "'e udp_world_scheme \<Rightarrow> int \<Rightarrow> string \<Rightarrow> u8 list \<Rightarrow> recv_job" where
  "job_of w fd p T = \<lparr>j_fd = fd, j_path = p, j_files = files w, j_target = T, j_ring = u_ring w\<rparr>"

lemma at_rest_start:
  assumes "idle_ring w" and "whole_runs w" and "fds w fd = Some f" and "files w (of_path f) = Some c0"
    and "agrees c0 T old"
  shows "at_rest (job_of w fd (of_path f) T) old (controls w) (net_in w)
    (w\<lparr>u_sq := map (recv_entry (u_ring w)) [0..<UDP_FRAG_BUFS]\<rparr>)"
proof -
  let ?w = "w\<lparr>u_sq := map (recv_entry (u_ring w)) [0..<UDP_FRAG_BUFS]\<rparr>"
  have "image_mset get_index (mset (map snd (map (recv_entry (u_ring w)) [0..<UDP_FRAG_BUFS]))) =
      mset (map (\<lambda>i. get_index (snd (recv_entry (u_ring w) i))) [0..<UDP_FRAG_BUFS])"
    by (simp add: comp_def multiset.map_comp)
  also have "\<dots> = mset (map (\<lambda>i. i) [0..<UDP_FRAG_BUFS])"
    by (intro arg_cong [of _ _ mset] map_cong refl) (simp add: entry_tag)
  finally have "owned ?w" using assms(1) by (simp add: owned_def pend_def idle_ring_def)
  moreover have "files w = (files w)(of_path f \<mapsto> c0)" using assms(4) by (simp add: fun_upd_idem)
  ultimately show ?thesis using assms by (auto simp: at_rest_def job_of_def idle_ring_def whole_runs_def)
qed

context control_channel
begin

lemma wp_recv_file_chunk:
  assumes rest: "at_rest J old (k + c) (arriving k ds c n @ extra) w" and c: "c < n"
    and xs: "chunk_bytes D c = xs" "region (off + c * CHUNK_SIZE) (length xs) (j_target J) = xs"
      "off + c * CHUNK_SIZE + length xs \<le> length (j_target J)" "length (j_target J) < 2 ^ 64"
    and ds: "covers c xs (ds c)" and extra: "\<forall>(k', d) \<in> set extra. k + n \<le> k'"
  shows "wp True (recv_file_chunk tcp (j_fd J) off (length D) pr c)
    (succeeds (at_rest J (old \<union> {off + c * CHUNK_SIZE ..< off + c * CHUNK_SIZE + length xs}) (k + Suc c)
       (arriving k ds (Suc c) n @ extra))) w"
proof -
  let ?base = "off + c * CHUNK_SIZE" and ?after = "arriving k ds (Suc c) n @ extra"
  let ?T = "turning J c ?base xs old (ds c) ?after (k + c) :: _ \<Rightarrow> 'e udp_world_scheme \<Rightarrow> bool"
  let ?F = "at_rest J (old \<union> {?base ..< ?base + length xs}) (k + c) ?after :: 'e udp_world_scheme \<Rightarrow> bool"
  have len: "length xs \<le> CHUNK_SIZE" "chunk_len_of (length D) c = length xs"
    using length_chunk_bytes [of D c] chunk_len_le [of "length D" c] xs(1) by simp_all
  have small: "?base + length xs < 2 ^ 64" using xs(3,4) by simp
  then have mod: "?base mod 2 ^ 64 = ?base" by simp
  have after: "\<forall>(k', d) \<in> set ?after. k + c < k'"
    using extra c arriving_stamps [of _ _ k ds "Suc c" n] by (fastforce simp: Suc_le_eq)
  have start: "?T (\<lparr>rs_fd = j_fd J, rs_offset = ?base, rs_frag_count = frag_count_of (length xs),
      rs_received = replicate MAX_FRAGS_PER_CHUNK False, rs_remaining = frag_count_of (length xs)\<rparr>, 0, pr) w"
    by (rule turning_start) (use rest xs len after arriving_Suc [OF c, of k ds] in simp_all)
  have loop: "wp True (io_loop recv_turn (\<lparr>rs_fd = j_fd J, rs_offset = ?base, rs_frag_count = frag_count_of (length xs),
      rs_received = replicate MAX_FRAGS_PER_CHUNK False, rs_remaining = frag_count_of (length xs)\<rparr>, 0, pr)) (succeeds ?F) w"
  proof (rule wp_io_loop [where I = ?T, OF start])
    fix s and w :: "'e udp_world_scheme"
    assume "?T s w"
    then show "wp True (recv_turn s) (on_turn ?T (succeeds ?F)) w"
      by (rule recv_turn_inv [OF _ ds len(1) small]) (rule turning_done [OF _ _ ds len(1)])
  qed
  show ?thesis unfolding recv_file_chunk_def Let_def len(2) mod wp_bind
  proof (rule wp_mono [OF loop])
    fix r :: "nat res" and w' :: "'e udp_world_scheme"
    assume s: "succeeds ?F r w'"
    show "on_ok (\<lambda>x. wp True (send_control tcp (be_enc 4 c))
        (on_ok (\<lambda>_. wp True (io_ret x) (succeeds (at_rest J (old \<union> {?base ..< ?base + length xs}) (k + Suc c) ?after)))
          (succeeds (at_rest J (old \<union> {?base ..< ?base + length xs}) (k + Suc c) ?after))))
      (succeeds (at_rest J (old \<union> {?base ..< ?base + length xs}) (k + Suc c) ?after)) r w'"
    proof (cases r)
      case (Ok x)
      then have "?F w'" using s by simp
      then show ?thesis unfolding Ok on_ok_simps
        by (intro wp_send_control) (auto simp: wp_return dest: at_rest_control)
    qed (use s in simp_all)
  qed
qed

lemma wp_udp_recv_file:
  assumes idle: "idle_ring w" and runs: "whole_runs w" and fd: "fds w fd = Some f" "files w (of_path f) = Some c0"
    and fits: "off + length D \<le> length c0" "length c0 < 2 ^ 63" "length D \<le> (2 ^ 32 - 1) * CHUNK_SIZE"
    and n: "n = chunk_count_32 (length D)" and ds: "\<forall>c < n. covers c (chunk_bytes D c) (ds c)"
    and net: "net_in w = arriving (controls w + 1) ds 0 n @ extra" and extra: "\<forall>(k, d) \<in> set extra. controls w + 1 + n \<le> k"
  shows "wp True (udp_recv_file tcp fd off (length D))
    (succeeds (\<lambda>w'. files w' = (files w)(of_path f \<mapsto> write_at c0 off D))) w"
proof -
  let ?T = "write_at c0 off D" and ?k = "controls w + 1"
  let ?J = "job_of w fd (of_path f) ?T"
  let ?old = "\<lambda>c. - {off + min (length D) (c * CHUNK_SIZE) ..< off + length D}"
  let ?I = "\<lambda>ys (pr :: nat) w. \<exists>c \<le> n. ys = [c..<n] \<and> at_rest ?J (?old c) (?k + c) (arriving ?k ds c n @ extra) (w :: 'e udp_world_scheme)"
  let ?Q = "succeeds (\<lambda>w'. files w' = (files w)(of_path f \<mapsto> ?T)) :: unit res \<Rightarrow> 'e udp_world_scheme \<Rightarrow> bool"
  have lenT: "length ?T = length c0" using fits(1) by simp
  have J: "j_fd ?J = fd" "j_target ?J = ?T" "j_files ?J = files w" "j_path ?J = of_path f" by (simp_all add: job_of_def)
  have bufs: "frag_buf_count (u_ring w) = UDP_FRAG_BUFS" using idle by (simp add: idle_ring_def ring_ok_def)
  have first: "io_for [0..<UDP_FRAG_BUFS] submit_recv w =
      Some (Ok (), w\<lparr>u_sq := map (recv_entry (u_ring w)) [0..<UDP_FRAG_BUFS]\<rparr>)"
    using submit_recvs [of w 0 UDP_FRAG_BUFS] idle by (simp add: idle_ring_def udp_sizes QUEUE_DEPTH_def)
  have "agrees c0 ?T (?old 0)" using fits(1) by (auto simp: agrees_def nth_write_at)
  then have start: "at_rest ?J (?old 0) (controls w) (net_in w) (w\<lparr>u_sq := map (recv_entry (u_ring w)) [0..<UDP_FRAG_BUFS]\<rparr>)"
    by (rule at_rest_start [OF idle runs fd])
  have chunk: "wp True (recv_file_chunk tcp fd off (length D) pr c) (on_ok (\<lambda>pr' w'. ?I ys pr' w') G) w1"
    if I: "?I (c # ys) pr w1" and Q': "\<And>e w'. G (Throw e) w'" for c ys pr w1 and G :: "nat res \<Rightarrow> 'e udp_world_scheme \<Rightarrow> bool"
  proof -
    obtain rest: "at_rest ?J (?old c) (?k + c) (arriving ?k ds c n @ extra) w1" and c: "c < n" and ys: "ys = [Suc c..<n]"
    proof -
      obtain b where b: "b \<le> n" "c # ys = [b..<n]" "at_rest ?J (?old b) (?k + b) (arriving ?k ds b n @ extra) w1"
        using I by blast
      then have "b < n" "c = b" "ys = [Suc b..<n]" by (auto simp: upt_conv_Cons le_less)
      then show thesis using that b(3) by simp
    qed
    let ?xs = "chunk_bytes D c"
    have in_D: "c * CHUNK_SIZE + length ?xs \<le> length D"
      using chunk_start [OF fits(3)] c n by (simp add: length_chunk_bytes)
    have "?xs = region (c * CHUNK_SIZE) (length ?xs) D"
      unfolding chunk_bytes_def by (rule region_length_same [symmetric])
    also have "\<dots> = region (c * CHUNK_SIZE) (length ?xs) (region off (length D) ?T)"
      using region_write_at_same [OF fits(1)] by simp
    also have "\<dots> = region (off + c * CHUNK_SIZE) (length ?xs) ?T"
      using in_D by (simp add: region_def drop_take add.commute min_absorb1)
    finally have xs: "region (off + c * CHUNK_SIZE) (length ?xs) ?T = ?xs" by simp
    have stamps: "\<forall>(k', d) \<in> set extra. ?k + n \<le> k'" using extra by simp
    have "wp True (recv_file_chunk tcp (j_fd ?J) off (length D) pr c)
      (succeeds (at_rest ?J (?old c \<union> {off + c * CHUNK_SIZE ..< off + c * CHUNK_SIZE + length ?xs}) (?k + Suc c)
       (arriving ?k ds (Suc c) n @ extra))) w1"
      by (rule wp_recv_file_chunk [OF rest c refl _ _ _ _ stamps])
        (use xs in_D fits lenT ds c in \<open>simp_all add: J\<close>)
    then show ?thesis unfolding J
    proof (rule wp_mono)
      fix r :: "nat res" and w2 :: "'e udp_world_scheme"
      assume s: "succeeds (at_rest ?J (?old c \<union> {off + c * CHUNK_SIZE ..< off + c * CHUNK_SIZE + length ?xs}) (?k + Suc c)
       (arriving ?k ds (Suc c) n @ extra)) r w2"
      have sub: "?old (Suc c) \<subseteq> ?old c \<union> {off + c * CHUNK_SIZE ..< off + c * CHUNK_SIZE + length ?xs}"
      proof -
        have "min (length D) (c * CHUNK_SIZE) = c * CHUNK_SIZE" using in_D by simp
        moreover have "off + c * CHUNK_SIZE + length ?xs = off + min (length D) (Suc c * CHUNK_SIZE)"
          using chunk_next [OF fits(3), of c] c n by (simp add: length_chunk_bytes)
        ultimately show ?thesis by auto
      qed
      show "on_ok (\<lambda>pr' w'. ?I ys pr' w') G r w2"
      proof (cases r)
        case (Ok x)
        then have "at_rest ?J (?old (Suc c)) (?k + Suc c) (arriving ?k ds (Suc c) n @ extra) w2"
          using s at_rest_mono [OF _ sub] by simp
        then show ?thesis using c ys unfolding Ok on_ok_simps by (intro exI [of _ "Suc c"]) simp
      qed (use s Q' in simp_all)
    qed
  qed
  have fold: "wp True (io_foldl (recv_file_chunk tcp fd off (length D)) UDP_FRAG_BUFS [0..<n])
      (on_ok (\<lambda>_. wp True (io_ret ()) ?Q) ?Q) w1"
    if "at_rest ?J (?old 0) ?k (arriving ?k ds 0 n @ extra) w1" for w1
  proof (rule wp_foldl [where I = ?I])
    show "?I [0..<n] UDP_FRAG_BUFS w1" using that by (intro exI [of _ 0]) simp
  next
    fix x ys s and w3 :: "'e udp_world_scheme"
    assume "?I (x # ys) s w3"
    then show "wp True (recv_file_chunk tcp fd off (length D) s x)
        (on_ok (\<lambda>pr' w'. ?I ys pr' w') (on_ok (\<lambda>_ :: nat. wp True (io_ret ()) ?Q) ?Q)) w3"
      by (rule chunk) simp
  next
    fix s and w2 :: "'e udp_world_scheme"
    assume "?I [] s w2"
    then obtain c where "c \<le> n" "[] = [c..<n]" and last: "at_rest ?J (?old c) (?k + c) (arriving ?k ds c n @ extra) w2"
      by blast
    then have "c = n" by (auto simp: eq_commute [of "[]"])
    then have "at_rest ?J (?old n) (?k + n) extra w2" using last by simp
    then obtain F where F: "files w2 = (files w)(of_path f \<mapsto> F)" "agrees F ?T (?old n)"
      unfolding at_rest_def J by blast
    have "?old n = UNIV" using chunk_last [OF fits(3)] n by auto
    then have "F = ?T" using F(2) by (auto simp: agrees_def intro: nth_equalityI)
    then show "on_ok (\<lambda>_. wp True (io_ret ()) ?Q) ?Q (Ok s) w2" using F(1) by (simp add: wp_return)
  qed
  have ctl: "wp True (send_control tcp [1])
      (on_ok (\<lambda>_. wp True (io_foldl (recv_file_chunk tcp fd off (length D)) UDP_FRAG_BUFS [0..<n])
        (on_ok (\<lambda>_. wp True (io_ret ()) ?Q) ?Q)) ?Q) w1"
    if "at_rest ?J (?old 0) (controls w) (net_in w) w1" for w1
  proof (rule wp_send_control)
    fix w' :: "'e udp_world_scheme" assume "control_only w1 w'"
    from at_rest_control [OF that this]
    show "on_ok (\<lambda>_. wp True (io_foldl (recv_file_chunk tcp fd off (length D)) UDP_FRAG_BUFS [0..<n])
        (on_ok (\<lambda>_. wp True (io_ret ()) ?Q) ?Q)) ?Q (Ok ()) (w'\<lparr>controls := controls w' + 1\<rparr>)"
      unfolding on_ok_simps net by (rule fold)
  qed simp
  have "wp True ring_submit (succeeds (at_rest ?J (?old 0) (controls w) (net_in w)))
      (w\<lparr>u_sq := map (recv_entry (u_ring w)) [0..<UDP_FRAG_BUFS]\<rparr>)"
    by (rule at_rest_submit [OF start])
  then have "wp True ring_submit (on_ok (\<lambda>_. wp True (send_control tcp [1])
      (on_ok (\<lambda>_. wp True (io_foldl (recv_file_chunk tcp fd off (length D)) UDP_FRAG_BUFS [0..<n])
        (on_ok (\<lambda>_. wp True (io_ret ()) ?Q) ?Q)) ?Q)) ?Q) (w\<lparr>u_sq := map (recv_entry (u_ring w)) [0..<UDP_FRAG_BUFS]\<rparr>)"
  proof (rule wp_mono)
    fix r :: "unit res" and w' :: "'e udp_world_scheme"
    assume "succeeds (at_rest ?J (?old 0) (controls w) (net_in w)) r w'"
    then show "on_ok (\<lambda>_. wp True (send_control tcp [1])
      (on_ok (\<lambda>_. wp True (io_foldl (recv_file_chunk tcp fd off (length D)) UDP_FRAG_BUFS [0..<n])
        (on_ok (\<lambda>_. wp True (io_ret ()) ?Q) ?Q)) ?Q)) ?Q r w'"
      using ctl by (cases r) simp_all
  qed
  then show ?thesis
    by (simp add: udp_recv_file_def wp_bind_all wp_state bufs wp_Some [where m = "io_for [0..<UDP_FRAG_BUFS] submit_recv", OF first] flip: n)
qed

end

end
