(* ===== verification/Udp_Send.thy ===== *)
theory Udp_Send imports Udp_File begin

text \<open>
  The sending side of the UDP transport: whatever order the ring executes its operations in, a
  chunk that was acknowledged went out as its fragments, each exactly once, and every fragment
  holds the bytes of the file. The next chunk is read into the other buffer meanwhile.
\<close>

section \<open>The invariant of a chunk being sent\<close>

record send_job =
  s_fd :: int
  s_path :: string
  s_file :: "u8 list"
  s_off :: nat
  s_len :: nat
  s_ring :: uring_ctx

definition s_chunk :: "send_job \<Rightarrow> nat \<Rightarrow> u8 list" where
  "s_chunk J c = chunk_bytes (region (s_off J) (s_len J) (s_file J)) c"

definition chunk_addr :: "send_job \<Rightarrow> nat \<Rightarrow> nat \<times> nat" where
  "chunk_addr J c = (chunk_mem (s_ring J), c mod 2 * CHUNK_SIZE)"

definition send_entry :: "send_job \<Rightarrow> nat \<Rightarrow> nat \<Rightarrow> uop \<times> u64" where
  "send_entry J c i =
     (let n = frag_len_of (length (s_chunk J c)) i
      in (Send_op (write_frag_hdr (word_of_nat c) (word_of_nat i) (word_of_nat n))
            (fst (chunk_addr J c), snd (chunk_addr J c) + i * UDP_PAYLOAD_SIZE) n, make_user_data TAG_SEND i))"

definition read_entry :: "send_job \<Rightarrow> nat \<Rightarrow> uop \<times> u64" where
  "read_entry J c =
     (Read_op (s_fd J) (chunk_addr J c) (length (s_chunk J c)) (s_off J + c * CHUNK_SIZE)
        (fixed_index (s_ring J) (ring_index_chunk (s_ring J) (c mod 2))), make_user_data TAG_READ (c mod 2))"

definition holds_chunk :: "send_job \<Rightarrow> nat \<Rightarrow> 'e udp_world_scheme \<Rightarrow> bool" where
  "holds_chunk J c w \<longleftrightarrow> load (chunk_addr J c) (length (s_chunk J c)) w = s_chunk J c"

definition sends :: "'e udp_world_scheme \<Rightarrow> nat" where
  "sends w = size (filter_mset (\<lambda>ud. get_tag ud = TAG_SEND) (pend w))"

definition reads :: "'e udp_world_scheme \<Rightarrow> nat" where
  "reads w = size (filter_mset (\<lambda>ud. get_tag ud = TAG_READ) (pend w)) + (if read_completed w then 1 else 0)"

definition failed_send :: "'e udp_world_scheme \<Rightarrow> bool" where
  "failed_send w \<longleftrightarrow> (\<exists>(ud, res) \<in> set (u_cq w). get_tag ud = TAG_SEND \<and> res < 0)"

text \<open>The fragments still to be executed, and those prepared.\<close>

definition unsent :: "send_job \<Rightarrow> nat \<Rightarrow> 'e udp_world_scheme \<Rightarrow> u8 list multiset" where
  "unsent J c w = image_mset (\<lambda>ud. fragment c (s_chunk J c) (get_index ud))
     (filter_mset (\<lambda>ud. get_tag ud = TAG_SEND) (mset (map snd (u_sq w)) + mset (map snd (u_flight w))))"

definition fragments :: "send_job \<Rightarrow> nat \<Rightarrow> nat \<Rightarrow> u8 list multiset" where
  "fragments J c m = mset (map (fragment c (s_chunk J c)) [0..<m])"

definition job_ok :: "send_job \<Rightarrow> bool" where
  "job_ok J \<longleftrightarrow> ring_ok (s_ring J) \<and> s_off J + s_len J \<le> length (s_file J)"

text \<open>The file and the ring, which stay as they are.\<close>

definition send_base :: "send_job \<Rightarrow> 'e udp_world_scheme \<Rightarrow> bool" where
  "send_base J w \<longleftrightarrow>
     u_ring w = s_ring J \<and> job_ok J \<and> (\<forall>r \<in> set (u_runs w). whole_run r) \<and>
     (\<exists>f. fds w (s_fd J) = Some f \<and> of_path f = s_path J) \<and> files w (s_path J) = Some (s_file J)"

text \<open>
  Of chunk \<open>c\<close> the first \<open>m\<close> fragments are prepared, and \<open>rd\<close> is the chunk being read, if
  any. A read that ended well left its chunk in its buffer.
\<close>

definition read_good :: "'e udp_world_scheme \<Rightarrow> bool" where
  "read_good w \<longleftrightarrow> (\<exists>(ud, res) \<in> set (u_cq w). get_tag ud = TAG_READ \<and> 0 \<le> res) \<or> read_completed w \<and> 0 \<le> read_result w"

definition send_inv ::
  "send_job \<Rightarrow> nat \<Rightarrow> nat \<Rightarrow> nat option \<Rightarrow> u8 list list \<Rightarrow> 'e udp_world_scheme \<Rightarrow> bool" where
  "send_inv J c m rd before w \<longleftrightarrow>
     send_base J w \<and> holds_chunk J c w \<and> m \<le> frag_count_of (length (s_chunk J c)) \<and>
     (\<forall>e \<in> set (u_sq w) \<union> set (u_flight w).
        (\<exists>i < m. e = send_entry J c i) \<or> (\<exists>c'. rd = Some c' \<and> e = read_entry J c')) \<and>
     (\<forall>c'. rd = Some c' \<longrightarrow> c' mod 2 \<noteq> c mod 2 \<and> (read_good w \<longrightarrow> holds_chunk J c' w)) \<and>
     reads w = (if rd = None then 0 else 1) \<and>
     (\<exists>outs. net_out w = before @ outs \<and> (failed_send w \<or> mset outs + unsent J c w = fragments J c m))"

lemma s_chunk_le: "length (s_chunk J c) \<le> CHUNK_SIZE"
  by (simp add: s_chunk_def length_chunk_bytes chunk_len_le)

lemma frag_index_small: "i < frag_count_of (length (s_chunk J c)) \<Longrightarrow> i < UDP_FRAG_BUFS"
  using frag_count_le [OF s_chunk_le, of J c] by (simp add: udp_sizes)

lemma send_entry_ud:
  "i < frag_count_of (length (s_chunk J c)) \<Longrightarrow>
     get_tag (snd (send_entry J c i)) = TAG_SEND \<and> get_index (snd (send_entry J c i)) = i"
  using frag_index_small by (simp add: send_entry_def Let_def)

lemma read_entry_ud: "get_tag (snd (read_entry J c)) = TAG_READ"
proof -
  have "c mod 2 < UDP_FRAG_BUFS" using mod_less_divisor [of 2 c] by (simp add: udp_sizes)
  then show ?thesis by (simp add: read_entry_def)
qed

lemma piece_in_chunk:
  assumes "i < frag_count_of (length (s_chunk J c))"
  shows "i * UDP_PAYLOAD_SIZE + frag_len_of (length (s_chunk J c)) i \<le> length (s_chunk J c)"
  using length_piece_of [OF s_chunk_le assms] piece_start [OF s_chunk_le assms] by (simp add: length_piece)

text \<open>What an executed send puts on the wire.\<close>

lemma sent_datagram:
  assumes "holds_chunk J c w" and i: "i < frag_count_of (length (s_chunk J c))"
    and e: "send_entry J c i = (Send_op hdr a n, ud)"
  shows "hdr @ load a n w = fragment c (s_chunk J c) i"
proof -
  let ?xs = "s_chunk J c"
  have n: "n = frag_len_of (length ?xs) i" and a: "a = (fst (chunk_addr J c), snd (chunk_addr J c) + i * UDP_PAYLOAD_SIZE)"
    and hdr: "hdr = write_frag_hdr (word_of_nat c) (word_of_nat i) (word_of_nat n)"
    using e by (auto simp: send_entry_def Let_def)
  have len: "length (piece ?xs i) = n" using length_piece_of [OF s_chunk_le i] n by simp
  have fit: "i * UDP_PAYLOAD_SIZE + n \<le> length ?xs" using piece_in_chunk [OF i] n by simp
  have "load a n w = drop (i * UDP_PAYLOAD_SIZE) (load (chunk_addr J c) (i * UDP_PAYLOAD_SIZE + n) w)"
    unfolding a by (rule load_drop)
  also have "\<dots> = drop (i * UDP_PAYLOAD_SIZE) (take (i * UDP_PAYLOAD_SIZE + n) ?xs)"
    using load_take [OF fit, of "chunk_addr J c" w] assms(1) by (simp add: holds_chunk_def)
  also have "\<dots> = piece ?xs i" using len by (simp add: piece_def region_def drop_take min_def split: if_splits)
  finally show ?thesis by (simp add: fragment_def hdr len)
qed

text \<open>What an executed read leaves in its buffer, whole reads granted.\<close>

lemma s_chunk_in_file:
  assumes "job_ok J"
  shows "region (s_off J + c * CHUNK_SIZE) (length (s_chunk J c)) (s_file J) = s_chunk J c"
proof -
  have len: "length (s_chunk J c) = min CHUNK_SIZE (s_len J - c * CHUNK_SIZE)"
  proof -
    have "length (region (s_off J) (s_len J) (s_file J)) = s_len J" using assms by (simp add: job_ok_def)
    then show ?thesis by (simp add: s_chunk_def chunk_bytes_def length_region [of "c * CHUNK_SIZE"])
  qed
  show ?thesis
  proof (cases "c * CHUNK_SIZE \<le> s_len J")
    case True
    then show ?thesis unfolding len
      by (simp add: s_chunk_def chunk_bytes_def region_def drop_take add.commute min.commute)
  next
    case False
    then show ?thesis using len by (simp add: region_def)
  qed
qed

lemma reaches_chunk:
  assumes "ring_ok u"
  shows "reaches u (fixed_index u (ring_index_chunk u (c mod 2))) (chunk_mem u, c mod 2 * CHUNK_SIZE) (length (s_chunk J c'))"
proof -
  have "c mod 2 < 2" by simp
  moreover have "iovecs u ! (c mod 2) = (chunk_mem u, c mod 2 * CHUNK_SIZE, CHUNK_SIZE)"
    using assms by (simp add: ring_ok_def io_vectors_def nth_append udp_sizes)
  moreover have "c mod 2 * CHUNK_SIZE + CHUNK_SIZE \<le> 2 * CHUNK_SIZE" by simp
  ultimately show ?thesis using assms s_chunk_le [of J c']
    by (simp add: reaches_def fixed_index_def ring_index_chunk_def ring_ok_def io_vectors_def udp_sizes)
qed

lemma holds_chunk_mem: "u_mem w' = u_mem w \<Longrightarrow> holds_chunk J c w' = holds_chunk J c w"
  by (simp add: holds_chunk_def load_def)

lemma other_buffer:
  assumes "c' mod 2 \<noteq> c mod 2" and "length bs \<le> CHUNK_SIZE"
  shows "holds_chunk J c (store (chunk_addr J c') bs w) = holds_chunk J c w"
proof -
  have "c mod 2 = 0 \<and> c' mod 2 = 1 \<or> c mod 2 = 1 \<and> c' mod 2 = 0" using assms(1) by linarith
  then have "snd (chunk_addr J c) + length (s_chunk J c) \<le> snd (chunk_addr J c') \<or>
      snd (chunk_addr J c') + length bs \<le> snd (chunk_addr J c)"
    using assms(2) s_chunk_le [of J c] by (auto simp: chunk_addr_def)
  then have "load (chunk_addr J c) (length (s_chunk J c)) (store (chunk_addr J c') bs w) =
      load (chunk_addr J c) (length (s_chunk J c)) w"
    by (intro load_store_other) blast
  then show ?thesis by (simp add: holds_chunk_def)
qed


section \<open>The kernel executes one operation\<close>

definition same_stash :: "'e udp_world_scheme \<Rightarrow> 'e udp_world_scheme \<Rightarrow> bool" where
  "same_stash w w' \<longleftrightarrow> pend w' = pend w \<and> read_completed w' = read_completed w \<and> read_result w' = read_result w"

lemma same_stash_reads: "same_stash w w' \<Longrightarrow> reads w' = reads w \<and> sends w' = sends w"
  by (simp add: same_stash_def reads_def sends_def)

lemma unsent_step:
  assumes "u_flight w = fl1 @ (op, ud) # fl2" and "u_flight w' = fl1 @ fl2" and "u_sq w' = u_sq w"
  shows "unsent J c w = (if get_tag ud = TAG_SEND then {#fragment c (s_chunk J c) (get_index ud)#} else {#}) + unsent J c w'"
  using assms by (simp add: unsent_def)

lemma send_kernel_step:
  assumes inv: "send_inv J c m rd before w" and out: "case out of Xfer n \<Rightarrow> CHUNK_SIZE \<le> n | Fail e \<Rightarrow> 0 < e"
  shows "send_inv J c m rd before (kernel_step (i, out) w) \<and> same_stash w (kernel_step (i, out) w)"
proof (rule kernel_step_cases [of i out w])
  assume "kernel_step (i, out) w = w"
  then show ?thesis using inv by (simp add: same_stash_def)
next
  fix fl1 op ud fl2 res w1
  assume fl: "u_flight w = fl1 @ (op, ud) # fl2" and perf: "perform out op w = Some (res, w1)"
    and step: "kernel_step (i, out) w = w1\<lparr>u_flight := fl1 @ fl2, u_cq := u_cq w @ [(ud, res)]\<rparr>"
  let ?w' = "w1\<lparr>u_flight := fl1 @ fl2, u_cq := u_cq w @ [(ud, res)]\<rparr>"
  let ?xs = "s_chunk J c"
  obtain outs where outs: "net_out w = before @ outs" "failed_send w \<or> mset outs + unsent J c w = fragments J c m"
    using inv by (auto simp: send_inv_def)
  have m: "m \<le> frag_count_of (length ?xs)" and base: "send_base J w" and H: "holds_chunk J c w"
    and rds: "reads w = (if rd = None then 0 else 1)"
    and nxt: "\<forall>c'. rd = Some c' \<longrightarrow> c' mod 2 \<noteq> c mod 2 \<and> (read_good w \<longrightarrow> holds_chunk J c' w)"
    using inv by (simp_all add: send_inv_def)
  have e: "(\<exists>i < m. (op, ud) = send_entry J c i) \<or> (\<exists>c'. rd = Some c' \<and> (op, ud) = read_entry J c')"
    using inv fl by (simp add: send_inv_def)
  have rest: "\<forall>e \<in> set (u_sq w) \<union> set (fl1 @ fl2).
        (\<exists>i < m. e = send_entry J c i) \<or> (\<exists>c'. rd = Some c' \<and> e = read_entry J c')"
    using inv fl by (simp add: send_inv_def)
  have fail_mono: "failed_send w \<Longrightarrow> u_cq w' = u_cq w @ [(ud, res)] \<Longrightarrow> failed_send w'" for w' :: "'a udp_world_scheme"
    by (auto simp: failed_send_def)
  show ?thesis
  proof (cases out)
    case (Fail x)
    then have w1: "w1 = w" "res = - int x" "0 < x" using perf out by (simp_all add: perform_def)
    have st: "same_stash w ?w'" using w1(1) fl by (simp add: same_stash_def pend_def)
    have "failed_send ?w' \<or> mset outs + unsent J c ?w' = fragments J c m"
    proof (cases "get_tag ud = TAG_SEND")
      case True
      then show ?thesis using w1 by (simp add: failed_send_def)
    next
      case False
      then show ?thesis using outs(2) fail_mono [of ?w'] unsent_step [OF fl, of ?w'] w1(1) by auto
    qed
    moreover have "read_good ?w' = read_good w" using w1 by (auto simp: read_good_def)
    moreover have "holds_chunk J d ?w' = holds_chunk J d w" for d using w1(1) by (intro holds_chunk_mem) simp
    ultimately show ?thesis unfolding step
      using base H m rest nxt rds same_stash_reads [OF st] outs(1) w1(1) st
      by (simp add: send_inv_def send_base_def)
  next
    case (Xfer n)
    then have n: "CHUNK_SIZE \<le> n" using out by simp
    from e show ?thesis
    proof (elim disjE exE conjE)
      fix i assume i: "i < m" "(op, ud) = send_entry J c i"
      have ic: "i < frag_count_of (length ?xs)" using i(1) m by simp
      obtain hdr a k where op: "op = Send_op hdr a k" using i(2) by (simp add: send_entry_def Let_def)
      have ud: "get_tag ud = TAG_SEND" "get_index ud = i"
        using send_entry_ud [OF ic] i(2) by (metis snd_conv)+
      have d: "hdr @ load a k w = fragment c ?xs i"
        by (rule sent_datagram [OF H ic, where ud = ud]) (use i(2) op in simp)
      have p: "res = int (length hdr + k)" "w1 = w\<lparr>net_out := net_out w @ [fragment c ?xs i]\<rparr>"
        using perf Xfer op d by (simp_all add: perform_def)
      have st: "same_stash w ?w'" using p(2) fl by (simp add: same_stash_def pend_def)
      have "failed_send ?w' \<or> mset (outs @ [fragment c ?xs i]) + unsent J c ?w' = fragments J c m"
        using outs(2) fail_mono [of ?w'] unsent_step [OF fl, of ?w'] p(2) ud by auto
      moreover have "net_out ?w' = before @ (outs @ [fragment c ?xs i])" using p(2) outs(1) by simp
      moreover have "read_good ?w' = read_good w" using p ud by (auto simp: read_good_def)
      moreover have "holds_chunk J d ?w' = holds_chunk J d w" for d using p(2) by (intro holds_chunk_mem) simp
      ultimately show ?thesis unfolding step send_inv_def
        using base H m rest nxt rds same_stash_reads [OF st] p(2) st
        by (simp add: send_base_def)
    next
      fix c' assume c': "rd = Some c'" "(op, ud) = read_entry J c'"
      have ud: "get_tag ud = TAG_READ" using read_entry_ud [of J c'] c'(2) by (metis snd_conv)
      let ?ys = "s_chunk J c'"
      obtain f where f: "fds w (s_fd J) = Some f" "of_path f = s_path J" "contents w (of_path f) = s_file J"
        using base by (auto simp: send_base_def contents_def)
      have J: "u_ring w = s_ring J" "ring_ok (s_ring J)" "job_ok J" using base by (simp_all add: send_base_def job_ok_def)
      have le: "length ?ys \<le> n" using s_chunk_le [of J c'] n by simp
      have p: "res = int (length ?ys)" "w1 = store (chunk_addr J c') ?ys w"
        using perf Xfer c'(2) f J s_chunk_in_file [OF J(3), of c'] reaches_chunk [OF J(2), of c' J c'] le
        by (simp_all add: perform_def read_entry_def chunk_addr_def min_absorb2 Let_def)
      have st: "same_stash w ?w'" using p(2) fl by (simp add: same_stash_def pend_def)
      have mem: "holds_chunk J d ?w' = holds_chunk J d w1" for d by (rule holds_chunk_mem) simp
      have "holds_chunk J c' w1" unfolding p(2) holds_chunk_def by (simp add: load_store_same)
      moreover have "holds_chunk J c w1" unfolding p(2)
        using other_buffer [of c' c ?ys J w] nxt c'(1) s_chunk_le [of J c'] H by simp
      moreover have "failed_send ?w' \<or> mset outs + unsent J c ?w' = fragments J c m"
        using outs(2) fail_mono [of ?w'] unsent_step [OF fl, of ?w'] p(2) ud by auto
      ultimately show ?thesis unfolding step send_inv_def mem
        using base m rest nxt rds same_stash_reads [OF st] p(2) st outs(1) c'(1)
        by (simp add: send_base_def)
    qed
  qed
qed


lemma send_kernel_steps:
  assumes "send_inv J c m rd before w"
    and "\<forall>(i, out) \<in> set es. case out of Xfer n \<Rightarrow> CHUNK_SIZE \<le> n | Fail e \<Rightarrow> 0 < e"
  shows "send_inv J c m rd before (fold kernel_step es w) \<and> same_stash w (fold kernel_step es w)"
  using assms
proof (induction es arbitrary: w)
  case Nil
  then show ?case by (simp add: same_stash_def)
next
  case (Cons x es)
  obtain i out where x: "x = (i, out)" by (cases x)
  have s: "send_inv J c m rd before (kernel_step x w) \<and> same_stash w (kernel_step x w)"
    unfolding x by (rule send_kernel_step) (use Cons.prems x in auto)
  then have "send_inv J c m rd before (fold kernel_step es (kernel_step x w)) \<and>
      same_stash (kernel_step x w) (fold kernel_step es (kernel_step x w))"
    using Cons.prems by (intro Cons.IH) auto
  then show ?case using s by (simp add: same_stash_def)
qed

lemma send_wait:
  assumes inv: "send_inv J c m rd before w" and run: "uring_wait w = Some (Some (ud, res), w')"
  obtains cs w1 where "send_inv J c m rd before w1" "same_stash w w1" "u_cq w1 = (ud, res) # cs" "w' = w1\<lparr>u_cq := cs\<rparr>"
proof -
  obtain es rs where runs: "u_runs w = Runs es # rs"
    using run by (auto simp: uring_wait_def split: list.splits kernel_run.splits)
  let ?w = "w\<lparr>u_runs := rs\<rparr>"
  have st0: "same_stash w ?w" by (simp add: same_stash_def pend_def)
  have "holds_chunk J d ?w = holds_chunk J d w" for d by (rule holds_chunk_mem) simp
  moreover have "read_good ?w = read_good w" "failed_send ?w = failed_send w" "unsent J c ?w = unsent J c w"
    by (simp_all add: read_good_def failed_send_def unsent_def)
  ultimately have "send_inv J c m rd before ?w"
    using inv runs same_stash_reads [OF st0] by (simp add: send_inv_def send_base_def)
  moreover have "whole_run (Runs es)" using inv runs by (simp add: send_inv_def send_base_def)
  ultimately have st: "send_inv J c m rd before (fold kernel_step es ?w) \<and> same_stash ?w (fold kernel_step es ?w)"
    by (intro send_kernel_steps) (auto simp: whole_run_def)
  then have st': "same_stash w (fold kernel_step es ?w)" using st0 by (simp add: same_stash_def)
  obtain cs where "u_cq (fold kernel_step es ?w) = (ud, res) # cs" "w' = (fold kernel_step es ?w)\<lparr>u_cq := cs\<rparr>"
    using run runs by (auto simp: uring_wait_def Let_def split: list.splits)
  then show ?thesis using that st st' by blast
qed

section \<open>Reaping\<close>

lemma reap_counts:
  assumes "u_cq w = (ud, res) # cs"
  shows "sends w = sends (w\<lparr>u_cq := cs\<rparr>) + (if get_tag ud = TAG_SEND then 1 else 0)"
    and "reads w = reads (w\<lparr>u_cq := cs\<rparr>) + (if get_tag ud = TAG_READ then 1 else 0)"
  by (simp_all add: sends_def reads_def pend_def assms)

lemma reap_other:
  assumes inv: "send_inv J c m rd before w" and cq: "u_cq w = (ud, res) # cs"
    and tag: "get_tag ud \<noteq> TAG_READ" "get_tag ud = TAG_SEND \<Longrightarrow> 0 \<le> res"
  shows "send_inv J c m rd before (w\<lparr>u_cq := cs\<rparr>)"
proof -
  let ?w = "w\<lparr>u_cq := cs\<rparr>"
  have "holds_chunk J d ?w = holds_chunk J d w" for d by (rule holds_chunk_mem) simp
  moreover have "read_good ?w = read_good w" using tag(1) by (simp add: read_good_def cq)
  moreover have "failed_send ?w = failed_send w" using tag(2) by (auto simp: failed_send_def cq)
  moreover have "unsent J c ?w = unsent J c w" by (simp add: unsent_def)
  moreover have "reads ?w = reads w" using reap_counts(2) [OF cq] tag(1) by simp
  ultimately show ?thesis using inv by (simp add: send_inv_def send_base_def)
qed

lemma reap_read:
  assumes inv: "send_inv J c m rd before w" and cq: "u_cq w = (ud, res) # cs" and tag: "get_tag ud = TAG_READ"
  shows "send_inv J c m rd before (w\<lparr>u_cq := cs, read_completed := True, read_result := res\<rparr>)"
    "sends (w\<lparr>u_cq := cs, read_completed := True, read_result := res\<rparr>) = sends w"
proof -
  let ?w = "w\<lparr>u_cq := cs, read_completed := True, read_result := res\<rparr>"
  have "0 < reads (w\<lparr>u_cq := cs\<rparr>) + 1" by simp
  have one: "reads w = 1" "rd \<noteq> None" "reads (w\<lparr>u_cq := cs\<rparr>) = 0"
    using inv reap_counts(2) [OF cq] tag by (auto simp: send_inv_def split: if_splits)
  then have "size (filter_mset (\<lambda>ud. get_tag ud = TAG_READ) (pend (w\<lparr>u_cq := cs\<rparr>))) = 0"
    by (simp add: reads_def split: if_splits)
  then have reads: "reads ?w = reads w" using one(1) by (simp add: reads_def pend_def)
  have "holds_chunk J d ?w = holds_chunk J d w" for d by (rule holds_chunk_mem) simp
  moreover have "read_good ?w \<Longrightarrow> read_good w" using tag by (auto simp: read_good_def cq)
  moreover have "failed_send ?w = failed_send w" using tag by (simp add: failed_send_def cq)
  moreover have "unsent J c ?w = unsent J c w" by (simp add: unsent_def)
  ultimately show "send_inv J c m rd before ?w" using inv reads by (auto simp: send_inv_def send_base_def)
  show "sends ?w = sends w" using reap_counts(1) [OF cq] tag by (simp add: sends_def pend_def)
qed

lemma sends_0:
  assumes "sends w = 0"
  shows "\<not> failed_send w" "unsent J c w = {#}" "\<forall>e \<in> set (u_sq w) \<union> set (u_flight w). get_tag (snd e) \<noteq> TAG_SEND"
proof -
  have none: "get_tag ud \<noteq> TAG_SEND" if "ud \<in># pend w" for ud
    using assms that by (auto simp: sends_def filter_mset_eq_conv)
  then show "\<forall>e \<in> set (u_sq w) \<union> set (u_flight w). get_tag (snd e) \<noteq> TAG_SEND"
    unfolding pend_def by auto
  have "get_tag (fst x) \<noteq> TAG_SEND" if "x \<in> set (u_cq w)" for x
    using none that unfolding pend_def by auto
  then show "\<not> failed_send w" by (auto simp: failed_send_def)
  have "filter_mset (\<lambda>ud. get_tag ud = TAG_SEND) (mset (map snd (u_sq w)) + mset (map snd (u_flight w))) = {#}"
    using none unfolding pend_def by (auto simp: filter_mset_eq_conv)
  then show "unsent J c w = {#}" by (simp add: unsent_def)
qed

definition sending :: "send_job \<Rightarrow> nat \<Rightarrow> nat \<Rightarrow> nat option \<Rightarrow> u8 list list \<Rightarrow> nat \<Rightarrow> 'e udp_world_scheme \<Rightarrow> bool" where
  "sending J c m rd before k w \<longleftrightarrow> send_inv J c m rd before w \<and> k = sends w"

lemma reap_turn_inv:
  fixes w :: "'e udp_world_scheme"
  assumes s: "sending J c m rd before k w"
    and fin: "\<And>k w. sending J c m rd before k w \<Longrightarrow> k < b \<Longrightarrow> F w"
  shows "wp True (reap_turn m1 m2 b k) (on_turn (sending J c m rd before) (succeeds F)) w"
proof (cases "k \<ge> b")
  case False
  then show ?thesis using s fin by (simp add: reap_turn_def wp_simps)
next
  case True
  have inv: "send_inv J c m rd before w" and k: "k = sends w" using s by (simp_all add: sending_def)
  show ?thesis
  proof (cases "uring_wait w")
    case None
    then show ?thesis using True by (simp add: reap_turn_def wp_bind wp_sys_case)
  next
    case (Some y)
    then show ?thesis
    proof (cases y)
      case (Pair cqe w')
      show ?thesis
      proof (cases cqe)
        case None
        then show ?thesis using True Some Pair by (simp add: reap_turn_def wp_simps wp_sys_case)
      next
        case C: (Some x)
        obtain ud res where x: "x = (ud, res)" by (cases x)
        have run: "uring_wait w = Some (Some (ud, res), w')" using Some Pair C x by simp
        obtain cs w1 where inv1: "send_inv J c m rd before w1" and st: "same_stash w w1"
            and cq: "u_cq w1 = (ud, res) # cs" and w': "w' = w1\<lparr>u_cq := cs\<rparr>"
          by (rule send_wait [OF inv run])
        have k1: "sends w1 = k" using same_stash_reads [OF st] k by simp
        have read: "sending J c m rd before k (w'\<lparr>read_completed := True, read_result := res\<rparr>)" if "get_tag ud = TAG_READ"
          using reap_read [OF inv1 cq that] k1 w' by (simp add: sending_def)
        have send: "sending J c m rd before (dec64 k) w'" if "get_tag ud = TAG_SEND" "\<not> res < 0"
          using reap_other [OF inv1 cq] reap_counts(1) [OF cq] that k1 w' by (simp add: sending_def dec64_def)
        have other: "sending J c m rd before k w'" if "get_tag ud \<noteq> TAG_READ" "get_tag ud \<noteq> TAG_SEND"
          using reap_other [OF inv1 cq] reap_counts(1) [OF cq] that k1 w' by (simp add: sending_def)
        show ?thesis using True read send other by (simp add: reap_turn_def wp_simps wp_sys_case run)
      qed
    qed
  qed
qed


section \<open>One chunk\<close>

lemma prepare_fragment:
  assumes inv: "send_inv J c m rd before w" and m: "m < frag_count_of (length (s_chunk J c))"
  shows "send_inv J c (Suc m) rd before (w\<lparr>u_sq := u_sq w @ [send_entry J c m]\<rparr>)"
    "sends (w\<lparr>u_sq := u_sq w @ [send_entry J c m]\<rparr>) = sends w + 1"
proof -
  let ?w = "w\<lparr>u_sq := u_sq w @ [send_entry J c m]\<rparr>"
  note ud = send_entry_ud [OF m]
  show "sends ?w = sends w + 1" using ud by (simp add: sends_def pend_def)
  obtain outs where outs: "net_out w = before @ outs" "failed_send w \<or> mset outs + unsent J c w = fragments J c m"
    using inv by (auto simp: send_inv_def)
  have "unsent J c ?w = add_mset (fragment c (s_chunk J c) m) (unsent J c w)"
    using ud by (simp add: unsent_def)
  moreover have "fragments J c (Suc m) = add_mset (fragment c (s_chunk J c) m) (fragments J c m)"
    by (simp add: fragments_def)
  moreover have "failed_send ?w = failed_send w" by (simp add: failed_send_def)
  ultimately have "failed_send ?w \<or> mset outs + unsent J c ?w = fragments J c (Suc m)" using outs(2) by auto
  moreover have "net_out ?w = before @ outs" using outs(1) by simp
  moreover have "reads ?w = reads w" using ud by (simp add: reads_def pend_def)
  moreover have "holds_chunk J d ?w = holds_chunk J d w" for d by (rule holds_chunk_mem) simp
  moreover have "read_good ?w = read_good w" by (simp add: read_good_def)
  moreover have "\<forall>e \<in> set (u_sq ?w) \<union> set (u_flight ?w).
      (\<exists>i < Suc m. e = send_entry J c i) \<or> (\<exists>c'. rd = Some c' \<and> e = read_entry J c')"
  proof
    fix e assume "e \<in> set (u_sq ?w) \<union> set (u_flight ?w)"
    then consider "e = send_entry J c m" | "e \<in> set (u_sq w) \<union> set (u_flight w)" by auto
    then show "(\<exists>i < Suc m. e = send_entry J c i) \<or> (\<exists>c'. rd = Some c' \<and> e = read_entry J c')"
    proof cases
      case 2
      then have "(\<exists>i < m. e = send_entry J c i) \<or> (\<exists>c'. rd = Some c' \<and> e = read_entry J c')"
        using inv by (simp add: send_inv_def)
      then show ?thesis using less_SucI by blast
    qed blast
  qed
  ultimately show "send_inv J c (Suc m) rd before ?w"
    using inv m unfolding send_inv_def by (simp add: send_base_def Suc_le_eq)
qed

lemma submit_keeps:
  assumes inv: "send_inv J c m rd before w"
  obtains w' where "ring_submit w = Some (Ok (), w')" "send_inv J c m rd before w'" "same_stash w w'"
proof -
  define n where "n = (case u_limits w of [] \<Rightarrow> length (u_sq w) | k # _ \<Rightarrow> k)"
  let ?w = "w\<lparr>u_flight := u_flight w @ take n (u_sq w), u_sq := drop n (u_sq w), u_limits := tl (u_limits w)\<rparr>"
  have run: "ring_submit w = Some (Ok (), ?w)"
    by (simp add: ring_submit_def io_modify_def n_def Let_def)
  have sets: "set (u_sq ?w) \<union> set (u_flight ?w) = set (u_sq w) \<union> set (u_flight w)"
    using set_append [of "take n (u_sq w)" "drop n (u_sq w)"] by auto
  have split: "mset (map snd (u_sq ?w)) + mset (map snd (u_flight ?w)) = mset (map snd (u_sq w)) + mset (map snd (u_flight w))"
  proof -
    have "mset (map snd (u_sq w)) = mset (map snd (take n (u_sq w))) + mset (map snd (drop n (u_sq w)))"
      by (metis append_take_drop_id map_append mset_append)
    then show ?thesis by simp
  qed
  then have st: "same_stash w ?w" by (simp add: same_stash_def pend_def)
  have "unsent J c ?w = unsent J c w" by (simp only: unsent_def split)
  moreover have "holds_chunk J d ?w = holds_chunk J d w" for d by (rule holds_chunk_mem) simp
  moreover have "read_good ?w = read_good w" "failed_send ?w = failed_send w"
    by (simp_all add: read_good_def failed_send_def)
  ultimately have "send_inv J c m rd before ?w"
    using inv same_stash_reads [OF st] unfolding send_inv_def sets by (simp add: send_base_def)
  then show ?thesis using that [OF run] st by blast
qed

lemma push_sqe_result:
  "\<exists>r w'. push_sqe e op ud w = Some (r, w') \<and>
     (r = Ok () \<and> w' = w\<lparr>u_sq := u_sq w @ [(op, ud)]\<rparr> \<or> r = Throw e)"
  by (simp add: push_sqe_def io_bind_def io_get_def io_modify_def)

lemma wp_push_sqe:
  assumes "Q (Ok ()) (w\<lparr>u_sq := u_sq w @ [(op, ud)]\<rparr>)" and "\<And>w'. Q (Throw e) w'"
  shows "wp True (push_sqe e op ud) Q w"
  using assms push_sqe_result [of e op ud w] by (auto simp: wp_def)

text \<open>At most seventeen sends are outstanding, so the pool of slots never fills.\<close>

lemma send_fragment_inv:
  assumes s: "sending J c m rd before k w" and m: "m < frag_count_of (length (s_chunk J c))" "k = m \<or> k < QUEUE_DEPTH"
    and len: "len = length (s_chunk J c)" and Q: "\<And>w'. sending J c (Suc m) rd before (k + 1) w' \<Longrightarrow> Q (Ok (k + 1)) w'"
    and thr: "\<And>e w'. Q (Throw e) w'"
  shows "wp True (send_fragment (chunk_addr J c) c len k m) Q w"
proof -
  have "m < UDP_FRAG_BUFS" by (rule frag_index_small [OF m(1)])
  then have small: "\<not> k \<ge> QUEUE_DEPTH" using m(2) by (auto simp: udp_sizes QUEUE_DEPTH_def)
  let ?w = "w\<lparr>u_sq := u_sq w @ [send_entry J c m]\<rparr>"
  have inv: "send_inv J c m rd before w" and k: "k = sends w" using s by (simp_all add: sending_def)
  have "sending J c (Suc m) rd before (k + 1) ?w"
    using prepare_fragment [OF inv m(1)] k by (simp add: sending_def)
  then have "Q (Ok (k + 1)) ?w" by (rule Q)
  then show ?thesis using small thr unfolding send_fragment_def len
    by (auto simp: wp_simps send_entry_def Let_def intro!: wp_push_sqe)
qed

definition chunk_sent :: "send_job \<Rightarrow> nat \<Rightarrow> u8 list list \<Rightarrow> 'e udp_world_scheme \<Rightarrow> bool" where
  "chunk_sent J c before w \<longleftrightarrow>
     (\<exists>outs. net_out w = before @ outs \<and> mset outs = fragments J c (frag_count_of (length (s_chunk J c))))"

definition chunk_done :: "send_job \<Rightarrow> nat \<Rightarrow> nat option \<Rightarrow> u8 list list \<Rightarrow> 'e udp_world_scheme \<Rightarrow> bool" where
  "chunk_done J c rd before w \<longleftrightarrow>
     send_inv J c (frag_count_of (length (s_chunk J c))) rd before w \<and> sends w = 0"

lemma chunk_done_sent: "chunk_done J c rd before w \<Longrightarrow> chunk_sent J c before w"
  using sends_0(1) [of w] sends_0(2) [of w J c] by (auto simp: chunk_done_def chunk_sent_def send_inv_def)

lemma send_chunk_inv:
  fixes w :: "'e udp_world_scheme"
  assumes inv: "send_inv J c 0 rd before w" and "sends w = 0" and len: "len = length (s_chunk J c)"
  shows "wp True (send_chunk (c mod 2) c len) (succeeds (chunk_done J c rd before)) w"
proof -
  let ?n = "frag_count_of len"
  let ?I = "\<lambda>ys k w. \<exists>m \<le> ?n. ys = [m..<?n] \<and> k = m \<and> sending J c m rd before k (w :: 'e udp_world_scheme)"
  let ?F = "succeeds (chunk_done J c rd before) :: unit res \<Rightarrow> 'e udp_world_scheme \<Rightarrow> bool"
  have J: "u_ring w = s_ring J" "ring_ok (s_ring J)" using inv by (simp_all add: send_inv_def send_base_def job_ok_def)
  have buf: "chunk_buf (u_ring w) (c mod 2) = Ok (chunk_addr J c)"
    using J by (simp add: chunk_buf_def chunk_addr_def ring_ok_def udp_sizes)
  have drain: "wp True (io_loop (reap_turn a b 1) k) (on_ok (\<lambda>_. wp True (io_ret ()) ?F) ?F) w2"
    if "sending J c ?n rd before k w2" for a b k w2
  proof -
    have "wp True (io_loop (reap_turn a b 1) k) (succeeds (chunk_done J c rd before)) w2"
    proof (rule wp_io_loop [where I = "sending J c ?n rd before"])
      show "sending J c ?n rd before k w2" by (rule that)
    next
      fix k and w :: "'e udp_world_scheme" assume s: "sending J c ?n rd before k w"
      show "wp True (reap_turn a b 1 k) (on_turn (sending J c ?n rd before) (succeeds (chunk_done J c rd before))) w"
        by (rule reap_turn_inv [OF s]) (simp add: sending_def chunk_done_def len)
    qed
    then show ?thesis
    proof (rule wp_mono)
      fix r :: "nat res" and w' :: "'e udp_world_scheme" assume "succeeds (chunk_done J c rd before) r w'"
      then show "on_ok (\<lambda>_. wp True (io_ret ()) ?F) ?F r w'" by (cases r) (simp_all add: wp_return)
    qed
  qed
  have submit: "wp True ring_submit (on_ok (\<lambda>_. wp True (io_loop (reap_turn a b 1) k)
      (on_ok (\<lambda>_. wp True (io_ret ()) ?F) ?F)) ?F) w2" if s: "sending J c ?n rd before k w2" for a b k w2
  proof -
    have "send_inv J c ?n rd before w2" using s by (simp add: sending_def)
    then obtain w3 where w3: "ring_submit w2 = Some (Ok (), w3)" "send_inv J c ?n rd before w3" "same_stash w2 w3"
      by (rule submit_keeps)
    have "sending J c ?n rd before k w3" using w3 same_stash_reads [OF w3(3)] s by (simp add: sending_def)
    from drain [OF this] show ?thesis by (simp add: wp_Some [where m = ring_submit, OF w3(1)])
  qed
  have "wp True (io_foldl (send_fragment (chunk_addr J c) c len) 0 [0..<?n])
      (on_ok (\<lambda>k. wp True ring_submit (on_ok (\<lambda>_. wp True (io_loop (reap_turn a b 1) k)
        (on_ok (\<lambda>_. wp True (io_ret ()) ?F) ?F)) ?F)) ?F) w" for a b
  proof (rule wp_foldl [where I = ?I])
    show "?I [0..<?n] 0 w" using inv assms(2) by (intro exI [of _ 0]) (simp add: sending_def)
  next
    fix x ys k and w2 :: "'e udp_world_scheme"
    assume "?I (x # ys) k w2"
    then obtain m where m: "m \<le> ?n" "x # ys = [m..<?n]" "k = m" "sending J c m rd before k w2" by blast
    then have x: "m < ?n" "x = m" "ys = [Suc m..<?n]" by (auto simp: upt_conv_Cons le_less)
    show "wp True (send_fragment (chunk_addr J c) c len k x) (on_ok (\<lambda>s' w'. ?I ys s' w')
        (on_ok (\<lambda>k :: nat. wp True ring_submit (on_ok (\<lambda>_. wp True (io_loop (reap_turn a b 1) k)
        (on_ok (\<lambda>_. wp True (io_ret ()) ?F) ?F)) ?F)) ?F)) w2"
      unfolding x(2)
      by (rule send_fragment_inv [OF m(4)]) (use m x len in \<open>auto intro!: exI [of _ "Suc m"]\<close>)
  next
    fix k and w2 :: "'e udp_world_scheme"
    assume "?I [] k w2"
    then obtain m where "m \<le> ?n" "[] = [m..<?n]" "k = m" and s: "sending J c m rd before k w2" by blast
    then have "m = ?n" by (auto simp: eq_commute [of "[]"])
    from submit [OF s [unfolded this]] show "on_ok (\<lambda>k. wp True ring_submit (on_ok (\<lambda>_. wp True (io_loop (reap_turn a b 1) k)
        (on_ok (\<lambda>_. wp True (io_ret ()) ?F) ?F)) ?F)) ?F (Ok k) w2" by simp
  qed
  then show ?thesis by (simp add: send_chunk_def wp_bind_all wp_state wp_return buf)
qed


section \<open>Reading ahead\<close>

lemma length_s_chunk: "job_ok J \<Longrightarrow> length (s_chunk J c) = chunk_len_of (s_len J) c"
  by (simp add: s_chunk_def length_chunk_bytes job_ok_def)

lemma reads_0_good: "reads w = 0 \<Longrightarrow> \<not> read_good w"
proof -
  assume r: "reads w = 0"
  then have none: "get_tag ud \<noteq> TAG_READ" if "ud \<in># pend w" for ud
    using that by (auto simp: reads_def filter_mset_eq_conv split: if_splits)
  have "get_tag (fst x) \<noteq> TAG_READ" if "x \<in> set (u_cq w)" for x
    using none that unfolding pend_def by auto
  then show ?thesis using r by (auto simp: read_good_def reads_def)
qed

lemma nothing_left:
  assumes "reads w = 0" and "sends w = 0"
    and "\<forall>e \<in> set (u_sq w) \<union> set (u_flight w). get_tag (snd e) = TAG_READ \<or> get_tag (snd e) = TAG_SEND"
  shows "u_sq w = []" "u_flight w = []"
proof -
  have r: "get_tag ud \<noteq> TAG_READ" if "ud \<in># pend w" for ud
    using assms(1) that by (auto simp: reads_def filter_mset_eq_conv split: if_splits)
  have s: "get_tag ud \<noteq> TAG_SEND" if "ud \<in># pend w" for ud
    using assms(2) that by (auto simp: sends_def filter_mset_eq_conv)
  have "e \<notin> set (u_sq w) \<union> set (u_flight w)" for e
  proof
    assume e: "e \<in> set (u_sq w) \<union> set (u_flight w)"
    then have "snd e \<in># pend w" unfolding pend_def by auto
    then show False using r s assms(3) e by blast
  qed
  then have "set (u_sq w) \<union> set (u_flight w) = {}" by (metis equals0I)
  then show "u_sq w = []" "u_flight w = []" by simp_all
qed

lemma submit_read_inv:
  assumes inv: "send_inv J c 0 None before w" and c': "c' mod 2 \<noteq> c mod 2" and s: "sends w = 0"
    and len: "len = length (s_chunk J c')" and off: "offset = s_off J + c' * CHUNK_SIZE"
  shows "wp True (submit_read (c' mod 2) (s_fd J) offset len)
    (succeeds (\<lambda>w'. send_inv J c 0 (Some c') before w' \<and> sends w' = 0)) w"
proof -
  let ?F = "succeeds (\<lambda>w'. send_inv J c 0 (Some c') before w' \<and> sends w' = 0) :: unit res \<Rightarrow> 'a udp_world_scheme \<Rightarrow> bool"
  let ?w = "w\<lparr>u_sq := u_sq w @ [read_entry J c']\<rparr>"
  have J: "u_ring w = s_ring J" "ring_ok (s_ring J)" using inv by (simp_all add: send_inv_def send_base_def job_ok_def)
  have buf: "chunk_buf (u_ring w) (c' mod 2) = Ok (chunk_addr J c')"
    using J by (simp add: chunk_buf_def chunk_addr_def ring_ok_def udp_sizes)
  have mod: "len mod 2 ^ 32 = length (s_chunk J c')" using s_chunk_le [of J c'] len by (simp add: udp_sizes)
  have e: "(Read_op (s_fd J) (chunk_addr J c') (len mod 2 ^ 32) offset
      (fixed_index (u_ring w) (ring_index_chunk (u_ring w) (c' mod 2))), make_user_data TAG_READ (c' mod 2)) = read_entry J c'"
    unfolding mod off by (simp add: read_entry_def J)
  note ud = read_entry_ud [of J c']
  have r0: "reads w = 0" using inv by (simp add: send_inv_def)
  have "reads ?w = reads w + 1" "sends ?w = sends w" using ud by (simp_all add: reads_def sends_def pend_def)
  moreover have "\<not> read_good ?w" using reads_0_good [OF r0] by (simp add: read_good_def)
  moreover have "failed_send ?w = failed_send w" "unsent J c ?w = unsent J c w"
    using ud by (simp_all add: failed_send_def unsent_def)
  moreover have "holds_chunk J c ?w = holds_chunk J c w" by (rule holds_chunk_mem) simp
  moreover have "\<forall>e \<in> set (u_sq ?w) \<union> set (u_flight ?w).
      (\<exists>i < 0. e = send_entry J c i) \<or> (\<exists>d. Some c' = Some d \<and> e = read_entry J d)"
    using inv by (auto simp: send_inv_def)
  ultimately have inv': "send_inv J c 0 (Some c') before ?w" "sends ?w = 0"
    using inv c' s r0 unfolding send_inv_def by (simp_all add: send_base_def)
  obtain w3 where w3: "ring_submit ?w = Some (Ok (), w3)" "send_inv J c 0 (Some c') before w3" "same_stash ?w w3"
    by (rule submit_keeps [OF inv'(1)])
  have sub: "wp True ring_submit ?F ?w"
    using w3(2) same_stash_reads [OF w3(3)] inv'(2) by (simp add: wp_Some [where m = ring_submit, OF w3(1)])
  have "wp True (push_sqe x (Read_op (s_fd J) (chunk_addr J c') (len mod 2 ^ 32) offset
      (fixed_index (u_ring w) (ring_index_chunk (u_ring w) (c' mod 2)))) (make_user_data TAG_READ (c' mod 2)))
      (on_ok (\<lambda>_. wp True ring_submit ?F) ?F) w" for x
  proof (rule wp_push_sqe)
    show "on_ok (\<lambda>_. wp True ring_submit ?F) ?F (Ok ()) (w\<lparr>u_sq := u_sq w @ [(Read_op (s_fd J) (chunk_addr J c') (len mod 2 ^ 32) offset
      (fixed_index (u_ring w) (ring_index_chunk (u_ring w) (c' mod 2))), make_user_data TAG_READ (c' mod 2))]\<rparr>)"
      unfolding e on_ok_simps by (rule sub)
  qed simp
  then show ?thesis by (simp add: submit_read_def wp_bind_all wp_simps buf)
qed

definition ready :: "send_job \<Rightarrow> nat \<Rightarrow> 'e udp_world_scheme \<Rightarrow> bool" where
  "ready J c w \<longleftrightarrow> send_inv J c 0 None (net_out w) w \<and> sends w = 0"

lemma after_read:
  assumes inv: "send_inv J c m (Some c') before w" and good: "read_good w"
    and w': "files w' = files w" "fds w' = fds w" "u_ring w' = u_ring w" "u_runs w' = u_runs w" "u_mem w' = u_mem w"
      "u_sq w' = u_sq w" "u_flight w' = u_flight w"
    and none: "reads w' = 0" "sends w' = 0"
  shows "ready J c' w'"
proof -
  have m: "m \<le> frag_count_of (length (s_chunk J c))" using inv by (simp add: send_inv_def)
  have "\<forall>e \<in> set (u_sq w') \<union> set (u_flight w'). get_tag (snd e) = TAG_READ \<or> get_tag (snd e) = TAG_SEND"
  proof
    fix e assume "e \<in> set (u_sq w') \<union> set (u_flight w')"
    then have "(\<exists>i < m. e = send_entry J c i) \<or> e = read_entry J c'" using inv w'(6,7) by (simp add: send_inv_def)
    then show "get_tag (snd e) = TAG_READ \<or> get_tag (snd e) = TAG_SEND"
    proof (elim disjE exE conjE)
      fix i assume "i < m" "e = send_entry J c i"
      then show ?thesis using send_entry_ud [of i J c] m by simp
    qed (simp add: read_entry_ud)
  qed
  note E = nothing_left [OF none this]
  have "holds_chunk J c' w" using inv good by (simp add: send_inv_def)
  then have "holds_chunk J c' w'" using holds_chunk_mem [OF w'(5)] by blast
  moreover have "unsent J c' w' = fragments J c' 0" using sends_0(2) [OF none(2)] by (simp add: fragments_def)
  moreover have "send_base J w'" using inv w' by (simp add: send_inv_def send_base_def)
  ultimately show ?thesis using none E by (simp add: ready_def send_inv_def)
qed

lemma chunk_sent_out: "chunk_sent J c before w \<Longrightarrow> net_out w' = net_out w \<Longrightarrow> chunk_sent J c before w'"
  by (simp add: chunk_sent_def)

lemma wait_read_inv:
  fixes w :: "'e udp_world_scheme"
  assumes dn: "chunk_done J c (Some c') before w"
  shows "wp True wait_read (succeeds (\<lambda>w'. chunk_sent J c before w' \<and> ready J c' w')) w"
proof -
  let ?m = "frag_count_of (length (s_chunk J c))"
  let ?F = "succeeds (\<lambda>w'. chunk_sent J c before w' \<and> ready J c' w') :: unit res \<Rightarrow> 'e udp_world_scheme \<Rightarrow> bool"
  have inv: "send_inv J c ?m (Some c') before w" and s: "sends w = 0" using dn by (simp_all add: chunk_done_def)
  have r: "reads w = 1" using inv by (simp add: send_inv_def)
  show ?thesis
  proof (cases "read_completed w")
    case True
    let ?w = "w\<lparr>read_completed := False\<rparr>"
    have "reads ?w = 0" "sends ?w = 0" using r s True by (simp_all add: reads_def sends_def pend_def)
    moreover have "read_good w" if "0 \<le> read_result w" using True that by (simp add: read_good_def)
    ultimately have "0 \<le> read_result w \<Longrightarrow> ready J c' ?w" by (intro after_read [OF inv]) simp_all
    moreover have "chunk_sent J c before ?w" by (rule chunk_sent_out [OF chunk_done_sent [OF dn]]) simp
    ultimately show ?thesis using True by (simp add: wait_read_def wp_simps)
  next
    case False
    show ?thesis
    proof (cases "uring_wait w")
      case None
      then show ?thesis using False by (simp add: wait_read_def wp_simps wp_sys_case)
    next
      case (Some y)
      obtain cqe w' where y: "y = (cqe, w')" by (cases y)
      show ?thesis
      proof (cases cqe)
        case None
        then show ?thesis using False Some y by (simp add: wait_read_def wp_simps wp_sys_case)
      next
        case C: (Some x)
        obtain ud res where x: "x = (ud, res)" by (cases x)
        have run: "uring_wait w = Some (Some (ud, res), w')" using Some y C x by simp
        obtain cs w1 where inv1: "send_inv J c ?m (Some c') before w1" and st: "same_stash w w1"
            and cq: "u_cq w1 = (ud, res) # cs" and w': "w' = w1\<lparr>u_cq := cs\<rparr>"
          by (rule send_wait [OF inv run])
        have "chunk_done J c (Some c') before w1"
          using inv1 same_stash_reads [OF st] s by (simp add: chunk_done_def)
        then have sent: "chunk_sent J c before w'" by (rule chunk_sent_out [OF chunk_done_sent]) (simp add: w')
        have "ready J c' w'" if "get_tag ud = TAG_READ" "\<not> res < 0"
        proof (rule after_read [OF inv1])
          show "read_good w1" using that by (simp add: read_good_def cq)
          show "reads w' = 0" "sends w' = 0"
            using reap_counts [OF cq] that same_stash_reads [OF st] r s w' by simp_all
        qed (simp_all add: w')
        then show ?thesis using False sent by (simp add: wait_read_def wp_simps wp_sys_case run)
      qed
    qed
  qed
qed

lemma send_inv_control:
  assumes "control_only w w'" and "send_inv J c m rd before w"
  shows "send_inv J c m rd before w'" "sends w' = sends w"
proof -
  note F = control_only_fields [OF assms(1)]
  have "holds_chunk J d w' = holds_chunk J d w" for d by (rule holds_chunk_mem) (rule F(4))
  then show "send_inv J c m rd before w'" "sends w' = sends w"
    using assms(2) F
    by (simp_all add: send_inv_def send_base_def sends_def reads_def pend_def failed_send_def unsent_def read_good_def)
qed

end
