(* ===== verification/Udp_Transfer.thy ===== *)
theory Udp_Transfer imports Udp_Send begin

text \<open>
  Whole ranges over the UDP transport: what a successful \<^verbatim>\<open>send_file\<close> put on the wire, and what
  a successful \<^verbatim>\<open>recv_file\<close> made of it.
\<close>

section \<open>Sending a range\<close>

lemma wp_for:
  assumes "I xs w"
    and "\<And>x ys w. x \<in> set xs \<Longrightarrow> I (x # ys) w \<Longrightarrow> wp b (f x) (on_ok (\<lambda>_ w'. I ys w') Q) w"
    and "\<And>w. I [] w \<Longrightarrow> Q (Ok ()) w"
  shows "wp b (io_for xs f) Q w"
  using assms(1,2)
proof (induction xs arbitrary: w)
  case Nil
  then show ?case by (simp add: wp_def assms(3))
next
  case (Cons x xs)
  have "wp b (f x) (on_ok (\<lambda>_ w'. I xs w') Q) w"
    by (rule Cons.prems(2)) (use Cons.prems(1) in auto)
  then have "wp b (f x) (on_ok (\<lambda>_. wp b (io_for xs f) Q) Q) w"
  proof (rule wp_mono)
    fix r w' assume *: "on_ok (\<lambda>_ w'. I xs w') Q r w'"
    show "on_ok (\<lambda>_. wp b (io_for xs f) Q) Q r w'"
    proof (cases r)
      case (Ok s')
      then have "wp b (io_for xs f) Q w'"
        using * by (intro Cons.IH) (auto intro: Cons.prems(2))
      then show ?thesis by (simp add: Ok)
    qed (use * in simp_all)
  qed
  then show ?case by (simp add: wp_bind)
qed

definition fragments_of :: "u8 list \<Rightarrow> nat \<Rightarrow> u8 list list" where
  "fragments_of D c = map (fragment c (chunk_bytes D c)) [0..<frag_count_of (length (chunk_bytes D c))]"

text \<open>Chunk by chunk, each as its fragments in some order.\<close>

definition sent_range :: "u8 list \<Rightarrow> nat \<Rightarrow> u8 list list \<Rightarrow> u8 list list \<Rightarrow> bool" where
  "sent_range D n before now \<longleftrightarrow>
     (\<exists>perm. now = before @ concat (map perm [0..<n]) \<and> (\<forall>c < n. mset (perm c) = mset (fragments_of D c)))"

lemma sent_range_Suc:
  assumes "sent_range D c before mid" and "now = mid @ outs" and "mset outs = mset (fragments_of D c)"
  shows "sent_range D (Suc c) before now"
proof -
  obtain perm where p: "mid = before @ concat (map perm [0..<c])" "\<forall>i < c. mset (perm i) = mset (fragments_of D i)"
    using assms(1) by (auto simp: sent_range_def)
  have "map (perm(c := outs)) [0..<c] = map perm [0..<c]" by simp
  then have "now = before @ concat (map (perm(c := outs)) [0..<Suc c])" using p(1) assms(2) by simp
  moreover have "\<forall>i < Suc c. mset ((perm(c := outs)) i) = mset (fragments_of D i)"
    using p(2) assms(3) by (simp add: less_Suc_eq)
  ultimately show ?thesis unfolding sent_range_def by blast
qed

context control_channel
begin

lemma send_file_chunk_inv:
  fixes w :: "'e udp_world_scheme"
  assumes rd: "ready J c w" and c: "c < n" and n: "n = chunk_count_32 (s_len J)"
    and fits: "length (s_file J) < 2 ^ 63" "s_len J \<le> (2 ^ 32 - 1) * CHUNK_SIZE"
  shows "wp True (send_file_chunk tcp (s_fd J) (s_off J) (s_len J) c)
    (succeeds (\<lambda>w'. chunk_sent J c (net_out w) w' \<and> (c + 1 < n \<longrightarrow> ready J (c + 1) w'))) w"
proof -
  let ?b = "net_out w"
  let ?R = "if c + 1 < n then Some (c + 1) else None"
  let ?F = "succeeds (\<lambda>w'. chunk_sent J c ?b w' \<and> (c + 1 < n \<longrightarrow> ready J (c + 1) w')) :: unit res \<Rightarrow> 'e udp_world_scheme \<Rightarrow> bool"
  have inv: "send_inv J c 0 None ?b w" and s: "sends w = 0" and job: "job_ok J"
    using rd by (simp_all add: ready_def send_inv_def send_base_def)
  have len: "chunk_len_of (s_len J) d = length (s_chunk J d)" for d using length_s_chunk [OF job] by simp
  have off: "(s_off J + (c + 1) * CHUNK_SIZE) mod 2 ^ 64 = s_off J + (c + 1) * CHUNK_SIZE" if "c + 1 < n"
  proof -
    have "(c + 1) * CHUNK_SIZE \<le> s_len J" using chunk_start [OF fits(2), of "c + 1"] that n by simp
    then have "s_off J + (c + 1) * CHUNK_SIZE < 2 ^ 63" using job fits(1) by (simp add: job_ok_def)
    then show ?thesis by simp
  qed
  have fin: "wp True (if c + 1 < n then wait_read else io_ret ()) ?F w1" if "chunk_done J c ?R ?b w1" for w1
  proof (cases "c + 1 < n")
    case True
    then show ?thesis using wait_read_inv [of J c "c + 1" ?b w1] that by simp
  next
    case False
    then show ?thesis using chunk_done_sent [OF that] by (simp add: wp_simps)
  qed
  have ack: "wp True (io_bind (recv_exact tcp 4) (\<lambda>ack.
     if be_dec ack \<noteq> c then io_throw (Runtime_error ''send_file: ACK mismatch - expected '')
     else if c + 1 < n then wait_read else io_ret ())) ?F w1" if d: "chunk_done J c ?R ?b w1" for w1
    unfolding wp_bind
  proof (rule wp_recv_exact)
    fix r :: "u8 list res" and w2 assume ctl: "control_only w1 w2" and r: "r \<noteq> Undef"
    have "send_inv J c (frag_count_of (length (s_chunk J c))) ?R ?b w1" "sends w1 = 0"
      using d by (simp_all add: chunk_done_def)
    then have "chunk_done J c ?R ?b w2" using send_inv_control [OF ctl] unfolding chunk_done_def by simp
    from fin [OF this] show "on_ok (\<lambda>ack. wp True (if be_dec ack \<noteq> c then io_throw (Runtime_error ''send_file: ACK mismatch - expected '')
     else if c + 1 < n then wait_read else io_ret ()) ?F) ?F r w2"
      using r by (cases r) (auto simp: wp_return)
  qed
  have chunk: "wp True (send_chunk (c mod 2) c (chunk_len_of (s_len J) c)) (on_ok (\<lambda>_. wp True (io_bind (recv_exact tcp 4) (\<lambda>ack.
     if be_dec ack \<noteq> c then io_throw (Runtime_error ''send_file: ACK mismatch - expected '')
     else if c + 1 < n then wait_read else io_ret ())) ?F) ?F) w1"
    if i: "send_inv J c 0 ?R ?b w1" "sends w1 = 0" for w1
  proof (rule wp_mono [OF send_chunk_inv [OF i len]])
    fix r :: "unit res" and w2 :: "'e udp_world_scheme"
    assume "succeeds (chunk_done J c ?R ?b) r w2"
    then show "on_ok (\<lambda>_. wp True (io_bind (recv_exact tcp 4) (\<lambda>ack.
     if be_dec ack \<noteq> c then io_throw (Runtime_error ''send_file: ACK mismatch - expected '')
     else if c + 1 < n then wait_read else io_ret ())) ?F) ?F r w2"
      using ack by (cases r) simp_all
  qed
  have "wp True (if c + 1 < n then
      submit_read ((c + 1) mod 2) (s_fd J) ((s_off J + (c + 1) * CHUNK_SIZE) mod 2 ^ 64) (chunk_len_of (s_len J) (c + 1))
      else io_ret ()) (succeeds (\<lambda>w'. send_inv J c 0 ?R ?b w' \<and> sends w' = 0)) w"
  proof (cases "c + 1 < n")
    case True
    have "(c + 1) mod 2 \<noteq> c mod 2" by presburger
    from submit_read_inv [OF inv this s len refl] True show ?thesis unfolding off [OF True] by simp
  next
    case False
    then show ?thesis using inv s by (simp add: wp_return)
  qed
  then have "wp True (if c + 1 < n then
      submit_read ((c + 1) mod 2) (s_fd J) ((s_off J + (c + 1) * CHUNK_SIZE) mod 2 ^ 64) (chunk_len_of (s_len J) (c + 1))
      else io_ret ()) (on_ok (\<lambda>_. wp True (send_chunk (c mod 2) c (chunk_len_of (s_len J) c)) (on_ok (\<lambda>_. wp True (io_bind (recv_exact tcp 4) (\<lambda>ack.
     if be_dec ack \<noteq> c then io_throw (Runtime_error ''send_file: ACK mismatch - expected '')
     else if c + 1 < n then wait_read else io_ret ())) ?F) ?F)) ?F) w"
  proof (rule wp_mono)
    fix r :: "unit res" and w2 :: "'e udp_world_scheme"
    assume "succeeds (\<lambda>w'. send_inv J c 0 ?R ?b w' \<and> sends w' = 0) r w2"
    then show "on_ok (\<lambda>_. wp True (send_chunk (c mod 2) c (chunk_len_of (s_len J) c)) (on_ok (\<lambda>_. wp True (io_bind (recv_exact tcp 4) (\<lambda>ack.
     if be_dec ack \<noteq> c then io_throw (Runtime_error ''send_file: ACK mismatch - expected '')
     else if c + 1 < n then wait_read else io_ret ())) ?F) ?F)) ?F r w2"
      using chunk by (cases r) simp_all
  qed
  then show ?thesis unfolding send_file_chunk_def n [symmetric] wp_bind_all .
qed

lemma wp_udp_send_file:
  fixes w :: "'e udp_world_scheme"
  assumes idle: "idle_ring w" "\<not> read_completed w" and runs: "whole_runs w"
    and fd: "fds w fd = Some f" "files w (of_path f) = Some c0"
    and fits: "off + len \<le> length c0" "length c0 < 2 ^ 63" "len \<le> (2 ^ 32 - 1) * CHUNK_SIZE"
  shows "wp True (udp_send_file tcp fd off len)
    (succeeds (\<lambda>w'. sent_range (region off len c0) (chunk_count_32 len) (net_out w) (net_out w'))) w"
proof -
  define J where "J = \<lparr>s_fd = fd, s_path = of_path f, s_file = c0, s_off = off, s_len = len, s_ring = u_ring w\<rparr>"
  let ?n = "chunk_count_32 len" and ?D = "region off len c0"
  let ?F = "succeeds (\<lambda>w'. sent_range ?D ?n (net_out w) (net_out w')) :: unit res \<Rightarrow> 'e udp_world_scheme \<Rightarrow> bool"
  let ?I = "\<lambda>ys w'. \<exists>c \<le> ?n. ys = [c..<?n] \<and> sent_range ?D c (net_out w) (net_out w') \<and> (c < ?n \<longrightarrow> ready J c (w' :: 'e udp_world_scheme))"
  have Jf: "s_fd J = fd" "s_off J = off" "s_len J = len" "s_file J = c0" "s_ring J = u_ring w" "s_path J = of_path f"
    by (simp_all add: J_def)
  have job: "job_ok J" using idle fits(1) by (simp add: job_ok_def Jf idle_ring_def)
  have chunks: "s_chunk J c = chunk_bytes ?D c" for c by (simp add: s_chunk_def Jf)
  have frags: "fragments J c (frag_count_of (length (s_chunk J c))) = mset (fragments_of ?D c)" for c
    by (simp add: fragments_def fragments_of_def chunks)
  text \<open>Before the first chunk nothing is sent: an empty chunk past the end, of odd number.\<close>
  define z where "z = 2 * len + 1"
  have "length (s_chunk J z) = 0"
    using length_s_chunk [OF job, of z] by (simp add: Jf chunk_len_of_def udp_sizes z_def)
  then have z: "s_chunk J z = []" by simp
  have odd: "0 mod 2 \<noteq> z mod 2" by (simp add: z_def)
  have len0: "min len CHUNK_SIZE = length (s_chunk J 0)"
    using length_s_chunk [OF job, of 0] by (simp add: Jf chunk_len_of_def)
  have start: "send_inv J z 0 None (net_out w1) w1 \<and> sends w1 = 0 \<and> net_out w1 = net_out w"
    if ctl: "control_only w w1" for w1
  proof -
    note F = control_only_fields [OF ctl]
    have none: "u_sq w1 = []" "u_flight w1 = []" "u_cq w1 = []" using idle F by (simp_all add: idle_ring_def)
    have "send_base J w1" using F runs fd job by (simp add: send_base_def whole_runs_def Jf)
    moreover have "holds_chunk J z w1" by (simp add: holds_chunk_def z load_def)
    moreover have "reads w1 = 0" "sends w1 = 0"
      using none F idle by (simp_all add: reads_def sends_def pend_def)
    moreover have "unsent J z w1 = fragments J z 0" using none by (simp add: unsent_def fragments_def)
    ultimately show ?thesis using none F(11) by (simp add: send_inv_def)
  qed
  have each: "wp True (send_file_chunk tcp fd off len c) (on_ok (\<lambda>_ w'. ?I ys w') ?F) w1"
    if I: "?I (c # ys) w1" for c ys w1
  proof -
    obtain d where d: "d \<le> ?n" "c # ys = [d..<?n]" and s: "sent_range ?D d (net_out w) (net_out w1)"
        and r: "d < ?n \<longrightarrow> ready J d w1" using I by blast
    then have c: "d < ?n" "c = d" "ys = [Suc d..<?n]" by (auto simp: upt_conv_Cons le_less)
    have n: "?n = chunk_count_32 (s_len J)" by (simp add: Jf)
    have "wp True (send_file_chunk tcp (s_fd J) (s_off J) (s_len J) d)
      (succeeds (\<lambda>w'. chunk_sent J d (net_out w1) w' \<and> (d + 1 < ?n \<longrightarrow> ready J (d + 1) w'))) w1"
      by (rule send_file_chunk_inv [OF _ c(1) n]) (use r c fits in \<open>simp_all add: Jf\<close>)
    then show ?thesis unfolding Jf c(2)
    proof (rule wp_mono)
      fix q :: "unit res" and w2 :: "'e udp_world_scheme"
      assume q: "succeeds (\<lambda>w'. chunk_sent J d (net_out w1) w' \<and> (d + 1 < ?n \<longrightarrow> ready J (d + 1) w')) q w2"
      show "on_ok (\<lambda>_ w'. ?I ys w') ?F q w2"
      proof (cases q)
        case (Ok u)
        then have sent: "chunk_sent J d (net_out w1) w2" and nxt: "d + 1 < ?n \<longrightarrow> ready J (d + 1) w2" using q by simp_all
        obtain outs where "net_out w2 = net_out w1 @ outs" "mset outs = mset (fragments_of ?D d)"
          using sent frags by (auto simp: chunk_sent_def)
        from sent_range_Suc [OF s this] show ?thesis
          using c nxt unfolding Ok on_ok_simps by (intro exI [of _ "Suc d"]) simp
      qed (use q in simp_all)
    qed
  qed
  have rounds: "wp True (io_for [0..<?n] (send_file_chunk tcp fd off len)) ?F w1"
    if "ready J 0 w1" "net_out w1 = net_out w" for w1
  proof (rule wp_for [where I = ?I])
    have "sent_range ?D 0 (net_out w) (net_out w1)" using that(2) by (simp add: sent_range_def)
    then show "?I [0..<?n] w1" using that(1) by blast
  next
    fix w2 :: "'e udp_world_scheme" assume "?I [] w2"
    then obtain c where "c \<le> ?n" "[] = [c..<?n]" "sent_range ?D c (net_out w) (net_out w2)" by blast
    then show "?F (Ok ()) w2" by (auto simp: eq_commute [of "[]"])
  qed (rule each)
  have wait: "wp True wait_read (on_ok (\<lambda>_. wp True (io_for [0..<?n] (send_file_chunk tcp fd off len)) ?F) ?F) w2"
    if i: "send_inv J z 0 (Some 0) (net_out w) w2" "sends w2 = 0" for w2
  proof -
    have "chunk_done J z (Some 0) (net_out w) w2"
      using i by (simp add: chunk_done_def z frag_count_small udp_sizes)
    from wait_read_inv [OF this] show ?thesis
    proof (rule wp_mono)
      fix q :: "unit res" and w3 :: "'e udp_world_scheme"
      assume q: "succeeds (\<lambda>w'. chunk_sent J z (net_out w) w' \<and> ready J 0 w') q w3"
      show "on_ok (\<lambda>_. wp True (io_for [0..<?n] (send_file_chunk tcp fd off len)) ?F) ?F q w3"
      proof (cases q)
        case (Ok u)
        then have "ready J 0 w3" "net_out w3 = net_out w"
          using q by (auto simp: chunk_sent_def z fragments_def frag_count_small udp_sizes)
        from rounds [OF this] show ?thesis by (simp add: Ok)
      qed (use q in simp_all)
    qed
  qed
  have read: "wp True (submit_read 0 fd off (min len CHUNK_SIZE))
      (on_ok (\<lambda>_. wp True wait_read (on_ok (\<lambda>_. wp True (io_for [0..<?n] (send_file_chunk tcp fd off len)) ?F) ?F)) ?F) w1"
    if ctl: "control_only w w1" for w1
  proof -
    have i: "send_inv J z 0 None (net_out w) w1" "sends w1 = 0" using start [OF ctl] by auto
    have "wp True (submit_read (0 mod 2) (s_fd J) off (min len CHUNK_SIZE))
      (succeeds (\<lambda>w'. send_inv J z 0 (Some 0) (net_out w) w' \<and> sends w' = 0)) w1"
      by (rule submit_read_inv [OF i(1) odd i(2) len0]) (simp add: Jf)
    then have "wp True (submit_read 0 fd off (min len CHUNK_SIZE))
      (succeeds (\<lambda>w'. send_inv J z 0 (Some 0) (net_out w) w' \<and> sends w' = 0)) w1" by (simp add: Jf)
    then show ?thesis
    proof (rule wp_mono)
      fix q :: "unit res" and w3 :: "'e udp_world_scheme"
      assume "succeeds (\<lambda>w'. send_inv J z 0 (Some 0) (net_out w) w' \<and> sends w' = 0) q w3"
      then show "on_ok (\<lambda>_. wp True wait_read (on_ok (\<lambda>_. wp True (io_for [0..<?n] (send_file_chunk tcp fd off len)) ?F) ?F)) ?F q w3"
        using wait by (cases q) simp_all
    qed
  qed
  show ?thesis unfolding udp_send_file_def wp_bind_all
  proof (rule wp_recv_exact)
    fix r :: "u8 list res" and w1 assume "control_only w w1" and "r \<noteq> Undef"
    then show "on_ok (\<lambda>_. wp True (submit_read 0 fd off (min len CHUNK_SIZE))
      (on_ok (\<lambda>_. wp True wait_read (on_ok (\<lambda>_. wp True (io_for [0..<?n] (send_file_chunk tcp fd off len)) ?F) ?F)) ?F)) ?F r w1"
      using read by (cases r) simp_all
  qed
qed

end


section \<open>Sample worlds\<close>

lemma tcp_send_whole:
  assumes "script w = Xfer n # s" and "buf \<noteq> []" and "length buf \<le> n"
  shows "send_exact TcpTransport buf w = Some (Ok (), w\<lparr>script := s, sock_out := sock_out w @ buf\<rparr>)"
proof -
  have "t_send TcpTransport buf w = Some (Ok (int (length buf)), w\<lparr>script := s, sock_out := sock_out w @ buf\<rparr>)"
    using assms by (simp add: TcpTransport_def tcp_send_def sys_def sys_sock_send_def sys_next_def)
  then show ?thesis unfolding send_exact_def
    by (subst send_exact_loop.simps) (use assms(2) in \<open>simp add: send_exact_loop.simps [of _ _ "length buf"]\<close>)
qed

lemma tcp_recv_whole:
  assumes "script w = Xfer n # s" and "0 < k" and "k \<le> n" and "k \<le> length (sock_in w)"
  shows "recv_exact TcpTransport k w = Some (Ok (take k (sock_in w)), w\<lparr>script := s, sock_in := drop k (sock_in w)\<rparr>)"
proof -
  have "granted n k (sock_in w) = take k (sock_in w)" using assms by (simp add: granted_exact min_def)
  then have "t_recv TcpTransport k w = Some (Ok (int k, take k (sock_in w)), w\<lparr>script := s, sock_in := drop k (sock_in w)\<rparr>)"
    using assms by (simp add: TcpTransport_def tcp_recv_def sys_def sys_sock_recv_def sys_next_def min_def)
  then show ?thesis unfolding recv_exact_def
    by (subst recv_exact_loop.simps) (use assms in \<open>simp add: recv_exact_loop.simps [of _ _ "take k (sock_in w)"]\<close>)
qed

definition sample_ring :: uring_ctx where
  "sample_ring = \<lparr>registered_buffers = False, ring_res = 0, chunk_mem = 1, frag_mem = 2,
     chunk_buf_count = UDP_CHUNK_BUFS, chunk_buf_size = CHUNK_SIZE, frag_buf_count = UDP_FRAG_BUFS, frag_buf_size = UDP_MTU,
     iovecs = io_vectors 1 UDP_CHUNK_BUFS CHUNK_SIZE 2 UDP_FRAG_BUFS UDP_MTU\<rparr>"

definition sample_udp :: "u8 list \<Rightarrow> u8 list \<Rightarrow> kernel_run list \<Rightarrow> (nat \<times> u8 list) list \<Rightarrow> udp_world" where
  "sample_udp file_bytes inn runs net =
     \<lparr>files = [''f'' \<mapsto> file_bytes], fds = [3 \<mapsto> \<lparr>of_path = ''f'', of_pos = 0\<rparr>], next_fd = 4, bad_closes = 0,
      script = [Xfer 9, Xfer 9, Xfer 9], errno = 0, sock_in = inn, sock_out = [], pipe_open = False, pipe_buf = [],
      u_ring = sample_ring, u_mem = (\<lambda>_ _. 0), u_sq = [], u_flight = [], u_cq = [], u_runs = runs, u_limits = [],
      net_in = net, net_out = [], controls = 0, read_completed = False, read_result = 0\<rparr>"

lemma sample_udp_idle:
  "idle_ring (sample_udp fb inn runs net)" "\<not> read_completed (sample_udp fb inn runs net)"
  "fds (sample_udp fb inn runs net) 3 = Some \<lparr>of_path = ''f'', of_pos = 0\<rparr>"
  "files (sample_udp fb inn runs net) ''f'' = Some fb"
  "net_in (sample_udp fb inn runs net) = net" "net_out (sample_udp fb inn runs net) = []"
  "controls (sample_udp fb inn runs net) = 0" "u_runs (sample_udp fb inn runs net) = runs"
  by (simp_all add: idle_ring_def sample_udp_def ring_ok_def sample_ring_def)

abbreviation sending_udp :: udp_world where
  "sending_udp \<equiv> sample_udp [1, 2, 3] [1, 0, 0, 0, 0] [Runs [(0, Xfer CHUNK_SIZE)], Runs [(0, Xfer CHUNK_SIZE)]] []"

lemmas udp_eval =
  udp_send_file_def send_file_chunk_def submit_read_def wait_read_def send_chunk_def send_fragment_def reap_turn_def
  push_sqe_def ring_submit_def uring_wait_def kernel_step_def perform_def io_bind_def io_get_def io_modify_def sys_def
  io_loop_code tcp_recv_whole tcp_send_whole chunk_buf_def reaches_def fixed_index_def

lemma sample_sent: "\<exists>w'. udp_send_file TcpTransport 3 0 3 sending_udp = Some (Ok (), w') \<and>
   net_out w' = [write_frag_hdr 0 0 3 @ [1, 2, 3]]"
  by (simp add: udp_eval sample_udp_def sample_ring_def udp_sizes QUEUE_DEPTH_def chunk_count_32_def chunk_len_of_def
     frag_count_of_def frag_len_of_def load_def store_def region_def contents_def upt_conv_Cons Let_def
     user_data_tag user_data_index be_dec_def dec64_def del: io_bind_Ok io_bind_Throw io_bind_Undef io_bind_None)

abbreviation receiving_udp :: udp_world where
  "receiving_udp \<equiv> sample_udp [0, 0, 0, 0] [] [Runs [(0, Xfer CHUNK_SIZE)], Runs [(31, Xfer CHUNK_SIZE)]]
     [(1, [0, 0, 0, 0, 0, 0, 0, 0, 0, 3, 1, 2, 3])]"

lemma submit_all:
  "ring_ok (u_ring w) \<Longrightarrow> u_sq w = [] \<Longrightarrow>
     io_for [0..<32] submit_recv w = Some (Ok (), w\<lparr>u_sq := map (recv_entry (u_ring w)) [0..<32]\<rparr>)"
  using submit_recvs [of w 0 32] by (simp add: udp_sizes QUEUE_DEPTH_def)

lemma be_enc_4: "be_enc 4 x \<noteq> []"
  using length_be_enc [of 4 x] by fastforce

lemma sample_received: "\<exists>w'. udp_recv_file TcpTransport 3 1 3 receiving_udp = Some (Ok (), w')"
proof -
  have "ring_ok sample_ring" using sample_udp_idle(1) [of "[]" "[]" "[]" "[]"] by (simp add: idle_ring_def sample_udp_def)
  then show ?thesis
  by (simp add: udp_recv_file_def submit_all send_control_def recv_file_chunk_def recv_turn_def process_fragment_def
     frag_buf_def reclaim_def submit_recv_def be_enc_4 bitset_test_def parse_frag_hdr_def recv_entry_def frag_addr_def
     udp_eval sample_udp_def sample_ring_def udp_sizes QUEUE_DEPTH_def chunk_count_32_def chunk_len_of_def
     frag_count_of_def frag_len_of_def load_def store_def region_def contents_def upt_conv_Cons Let_def
     user_data_tag user_data_index be_dec_def dec64_def del: io_bind_Ok io_bind_Throw io_bind_Undef io_bind_None)
qed


section \<open>What a transfer does\<close>



lemma covers_permuted:
  assumes "mset ds = mset (fragments_of D c)"
  shows "covers c (chunk_bytes D c) ds"
proof -
  let ?xs = "chunk_bytes D c"
  have le: "length ?xs \<le> CHUNK_SIZE" by (simp add: length_chunk_bytes chunk_len_le)
  have set: "set ds = fragment c ?xs ` {..<frag_count_of (length ?xs)}"
    using mset_eq_setD [OF assms] by (auto simp: fragments_of_def)
  have "inj_on (fragment c ?xs) {0..<frag_count_of (length ?xs)}"
    by (rule inj_onI) (use fragment_inj [OF _ _ _ le] in simp)
  then have "distinct (fragments_of D c)" by (simp add: fragments_of_def distinct_map)
  then have "distinct ds" using assms mset_eq_imp_distinct_iff by blast
  then have "ds \<noteq> [] \<longrightarrow> last ds \<notin> set (butlast ds)"
    by (cases ds rule: rev_cases) simp_all
  then show ?thesis using set by (simp add: covers_def)
qed



text \<open>The fragment header reads back, in network order, whatever follows it.
\<close>

theorem udp_header_roundtrip:
  "parse_frag_hdr (write_frag_hdr ci fi fl @ payload) = \<lparr>chunk_index = ci, frag_index = fi, frag_len = fl\<rparr>"
  by (rule parse_write_frag_hdr)

text \<open>
  A fragment is taken for the current chunk whatever chunk its header names: a piece of another
  chunk, whose index is still missing in this one, is written into this one and counted.
\<close>

theorem udp_stale_fragment_taken:
  assumes "ring_ok (u_ring w)" and "idx < UDP_FRAG_BUFS" and "length (u_sq w) < QUEUE_DEPTH"
    and "load (frag_addr (u_ring w) idx) (length d) w = d" and "d = fragment c xs i"
    and "i < MAX_FRAGS_PER_CHUNK" and "i < rs_frag_count st" and "length (rs_received st) = MAX_FRAGS_PER_CHUNK"
    and "\<not> rs_received st ! i"
  shows "\<exists>w'. process_fragment idx (int (length d)) st w =
      Some (Ok (True, st\<lparr>rs_received := (rs_received st)[i := True], rs_remaining := dec64 (rs_remaining st)\<rparr>), w') \<and>
    u_sq w' = u_sq w @ [(Write_op (rs_fd st) (frag_mem (u_ring w), idx * UDP_MTU + FRAG_HDR_SIZE) (length (piece xs i))
      ((rs_offset st + i * UDP_PAYLOAD_SIZE) mod 2 ^ 64) (fixed_index (u_ring w) (ring_index_frag (u_ring w) idx)),
      make_user_data TAG_WRITE idx)]"
proof -
  note H = fragment_header [OF assms(6), of c xs]
  have len: "FRAG_HDR_SIZE \<le> length d" using H(4) assms(5) by simp
  have "load (frag_addr (u_ring w) idx) FRAG_HDR_SIZE w = take FRAG_HDR_SIZE d"
    using load_take [OF len, of "frag_addr (u_ring w) idx" w] assms(4) by simp
  then have hdr: "parse_frag_hdr (load (frag_addr (u_ring w) idx) FRAG_HDR_SIZE w) = parse_frag_hdr d"
    by (simp add: parse_frag_hdr_take)
  note hdr' = hdr [unfolded frag_addr_def]
  show ?thesis using assms(3,6-9) len frag_buf_ok [OF assms(1,2)] H(1,2) assms(5)
    by (simp add: process_fragment_def io_bind_def io_get_def io_modify_def push_sqe_def Let_def hdr' bitset_test_def frag_addr_def)
qed

text \<open>
  A read that delivers less than asked for is taken as complete: the rest of the datagram is
  whatever the buffer held.
\<close>

theorem udp_short_read_unnoticed:
  "\<exists>w'. udp_send_file TcpTransport 3 0 3
       (sample_udp [1, 2, 3] [1, 0, 0, 0, 0] [Runs [(0, Xfer 1)], Runs [(0, Xfer CHUNK_SIZE)]] []) = Some (Ok (), w') \<and>
     net_out w' = [write_frag_hdr 0 0 3 @ [1, 0, 0]]"
  by (simp add: udp_eval sample_udp_def sample_ring_def udp_sizes QUEUE_DEPTH_def chunk_count_32_def chunk_len_of_def
     frag_count_of_def frag_len_of_def load_def store_def region_def contents_def upt_conv_Cons Let_def
     user_data_tag user_data_index be_dec_def dec64_def del: io_bind_Ok io_bind_Throw io_bind_Undef io_bind_None)

text \<open>
  Called again on the same object, \<^verbatim>\<open>recv_file\<close> queues a second receive on every buffer, while
  the first one is still outstanding.
\<close>

theorem udp_second_recv_shares_buffers:
  assumes "at_rest J old k net w" and "length (u_sq w) + UDP_FRAG_BUFS \<le> QUEUE_DEPTH"
  shows "\<exists>w'. io_for [0..<UDP_FRAG_BUFS] submit_recv w = Some (Ok (), w') \<and>
     count (image_mset get_index (pend w')) 0 = 2"
proof -
  have u: "ring_ok (u_ring w)" and own: "image_mset get_index (pend w) = mset_set {0..<UDP_FRAG_BUFS}"
    using assms(1) by (simp_all add: at_rest_def owned_def)
  let ?es = "map (recv_entry (u_ring w)) [0..<UDP_FRAG_BUFS]"
  have "map (\<lambda>i. get_index (snd (recv_entry (u_ring w) i))) [0..<UDP_FRAG_BUFS] = map (\<lambda>i. i) [0..<UDP_FRAG_BUFS]"
    by (intro map_cong refl) (simp add: entry_tag)
  then have "image_mset get_index (mset (map snd ?es)) = mset_set {0..<UDP_FRAG_BUFS}"
    by (simp add: multiset.map_comp comp_def flip: mset_map)
  then have "image_mset get_index (pend (w\<lparr>u_sq := u_sq w @ ?es\<rparr>)) = mset_set {0..<UDP_FRAG_BUFS} + mset_set {0..<UDP_FRAG_BUFS}"
    using own by (simp add: pend_def ac_simps)
  moreover have "count (mset_set {0..<UDP_FRAG_BUFS}) 0 = 1" by (simp add: udp_sizes)
  ultimately show ?thesis using submit_recvs [OF u, of 0 UDP_FRAG_BUFS] assms(2) by simp
qed

section \<open>Witnesses\<close>


lemma sample_header: "write_frag_hdr 0 0 3 @ [1, 2, 3] = ([0, 0, 0, 0, 0, 0, 0, 0, 0, 3, 1, 2, 3] :: u8 list)"
proof -
  have "be_enc (Suc (Suc (Suc (Suc 0)))) 0 = [0, 0, 0, 0]" "be_enc (Suc (Suc 0)) 3 = [0, 3]"
    by (simp_all add: be_enc_def)
  then have "be_enc 4 0 = [0, 0, 0, 0]" "be_enc 2 3 = [0, 3]"
    by (simp_all only: numeral_eq_Suc pred_numeral_simps BitM.simps numeral_One One_nat_def)
  then show ?thesis by (simp add: write_frag_hdr_def)
qed

lemma sample_fragment: "fragment 0 (chunk_bytes [1, 2, 3] 0) 0 = [0, 0, 0, 0, 0, 0, 0, 0, 0, 3, 1, 2, 3]"
  using sample_header by (simp add: fragment_def chunk_bytes_def piece_def region_def udp_sizes)




end
