(* ===== verification/Command_Line.thy ===== *)
theory Command_Line
  imports Tcp_Transfer Tracker_Client Factories Quic_Transport
begin

text \<open>
  The command line: \<^verbatim>\<open>src/main.cpp\<close>, the four commands under \<^verbatim>\<open>src/cli/\<close> that it dispatches to,
  and \<^verbatim>\<open>src/util/config_tracker.hpp\<close>. The world of a process is put together from those of its
  parts: files and the TCP connection, the QUIC connection, the sockets and other resources that
  the factories make, the environment, and \<open>'h\<close>, whatever the HTTP library talks to. Output to
  the terminal is left out.
\<close>

section \<open>A process\<close>

record 'h embr_world =
  sys_tcp :: tcp_world
  sys_quic :: quic_world
  sys_net :: sysw
  sys_web :: 'h
  sys_env :: "string \<Rightarrow> string option"

type_synonym ('h, 'a) cio = "('h embr_world, 'a) io"

definition on_tcp :: "(tcp_world, 'a) io \<Rightarrow> ('h, 'a) cio" where
  "on_tcp m w = (case m (sys_tcp w) of None \<Rightarrow> None | Some (r, t) \<Rightarrow> Some (r, w\<lparr>sys_tcp := t\<rparr>))"

definition on_net :: "(sysw, 'a) io \<Rightarrow> ('h, 'a) cio" where
  "on_net m w = (case m (sys_net w) of None \<Rightarrow> None | Some (r, t) \<Rightarrow> Some (r, w\<lparr>sys_net := t\<rparr>))"

definition on_web :: "('h, 'a) io \<Rightarrow> ('h, 'a) cio" where
  "on_web m w = (case m (sys_web w) of None \<Rightarrow> None | Some (r, t) \<Rightarrow> Some (r, w\<lparr>sys_web := t\<rparr>))"

text \<open>Files and descriptors are the same for both connections.\<close>

definition share :: "'e world_scheme \<Rightarrow> 'f world_scheme \<Rightarrow> 'f world_scheme" where
  "share w t = t\<lparr>files := files w, fds := fds w, next_fd := next_fd w, bad_closes := bad_closes w,
     script := script w, errno := errno w\<rparr>"

definition on_quic :: "(quic_world, 'a) io \<Rightarrow> ('h, 'a) cio" where
  "on_quic m w =
     (case m (share (sys_tcp w) (sys_quic w)) of
        None \<Rightarrow> None
      | Some (r, q) \<Rightarrow> Some (r, w\<lparr>sys_quic := q, sys_tcp := share q (sys_tcp w)\<rparr>))"

text \<open>\<^verbatim>\<open>catch (const std::exception&)\<close>\<close>

definition io_catch :: "('w, 'a) io \<Rightarrow> ('w, 'a) io \<Rightarrow> ('w, 'a) io" where
  "io_catch m h w = (case m w of Some (Throw e, w') \<Rightarrow> h w' | r \<Rightarrow> r)"

text \<open>The destructor of a local variable, which may itself take time.\<close>

definition io_scope :: "('w, 'a) io \<Rightarrow> ('w, unit) io \<Rightarrow> ('w, 'a) io" where
  "io_scope m c w = (case m w of None \<Rightarrow> None | Some (r, w') \<Rightarrow> (case c w' of None \<Rightarrow> None | Some (_, w2) \<Rightarrow> Some (r, w2)))"

section \<open>The saved tracker\<close>

text \<open>\<^verbatim>\<open>operator/\<close> of \<^verbatim>\<open>std::filesystem::path\<close>, for a relative right side.\<close>

definition path_join :: "string \<Rightarrow> string \<Rightarrow> string" where
  "path_join a b = (if a \<noteq> [] \<and> last a = CHR ''/'' then a @ b else a @ ''/'' @ b)"

definition get_config_path :: "(string \<Rightarrow> string option) \<Rightarrow> string" where
  "get_config_path env =
     (case env ''HOME'' of
        None \<Rightarrow> []
      | Some home \<Rightarrow> if home = [] then [] else path_join (path_join (path_join home ''.config'') ''embr'') ''tracker'')"

text \<open>\<^verbatim>\<open>std::getline\<close> on a stream: empty when the file cannot be opened.\<close>

definition getline :: "string \<Rightarrow> ('e world_scheme, string) io" where
  "getline p =
     io_bind (sys (sys_open p False False)) (\<lambda>fd.
       if fd < 0 then io_ret []
       else with_fd fd (io_get (\<lambda>w. takeWhile (\<lambda>c. c \<noteq> CHR 0x0A) (string_of_bytes (contents w p)))))"

definition file_exists :: "string \<Rightarrow> ('e world_scheme, bool) io" where
  "file_exists p =
     (if p = [] then io_ret False
      else io_bind (sys sys_next) (\<lambda>r.
        case r of
          Fail e \<Rightarrow> if e = ENOENT then io_ret False else io_throw (Runtime_error ''filesystem error: status'')
        | Xfer _ \<Rightarrow> io_get (\<lambda>w. files w p \<noteq> None)))"

definition remove_file :: "string \<Rightarrow> ('e world_scheme, unit) io" where
  "remove_file p =
     io_bind (sys sys_next) (\<lambda>r.
       case r of
         Fail _ \<Rightarrow> io_throw (Runtime_error ''filesystem error: cannot remove'')
       | Xfer _ \<Rightarrow> io_modify (\<lambda>w. w\<lparr>files := (files w)(p := None)\<rparr>))"

definition read_tracker_url :: "(string \<Rightarrow> string option) \<Rightarrow> ('e world_scheme, string) io" where
  "read_tracker_url env =
     (let p = get_config_path env
      in io_bind (file_exists p) (\<lambda>ex. if \<not> ex then io_ret [] else getline p))"

text \<open>A stream that fails to open or to write says nothing.\<close>

definition write_line :: "string \<Rightarrow> string \<Rightarrow> ('e world_scheme, unit) io" where
  "write_line p s =
     io_bind (sys (sys_open p True True)) (\<lambda>fd.
       if fd < 0 then io_ret ()
       else with_fd fd (io_swallow (write_exact fd (bytes_of_string (s @ [CHR 0x0A])))))"

definition create_directories :: "('e world_scheme, unit) io" where
  "create_directories =
     io_bind (sys sys_next) (\<lambda>r.
       case r of Fail _ \<Rightarrow> io_throw (Runtime_error ''filesystem error: cannot create directories'') | Xfer _ \<Rightarrow> io_ret ())"

definition write_tracker_url :: "(string \<Rightarrow> string option) \<Rightarrow> string \<Rightarrow> ('e world_scheme, unit) io" where
  "write_tracker_url env url =
     (let p = get_config_path env
      in if p = [] then io_throw (Runtime_error ''write_tracker_url: HOME not set'')
         else io_bind create_directories (\<lambda>_. write_line p url))"

definition resolve_tracker_url :: "(string \<Rightarrow> string option) \<Rightarrow> string \<Rightarrow> ('e world_scheme, string) io" where
  "resolve_tracker_url env flag_value =
     (if flag_value \<noteq> [] then io_ret flag_value
      else case env ''EMBR_TRACKER'' of
             Some e \<Rightarrow> if e \<noteq> [] then io_ret e else read_tracker_url env
           | None \<Rightarrow> read_tracker_url env)"

definition run_trust_cli :: "(string \<Rightarrow> string option) \<Rightarrow> string list \<Rightarrow> ('e world_scheme, int) io" where
  "run_trust_cli env argv =
     (case argv of
        _ # arg # _ \<Rightarrow>
          (if arg = ''--list'' then io_bind (read_tracker_url env) (\<lambda>_. io_ret 0)
           else if arg = ''--clear'' then
             io_bind (file_exists (get_config_path env)) (\<lambda>ex.
               if ex then io_bind (remove_file (get_config_path env)) (\<lambda>_. io_ret 0) else io_ret 0)
           else if arg = ''--help'' then io_ret 0
           else io_bind (write_tracker_url env arg) (\<lambda>_. io_ret 0))
      | _ \<Rightarrow> io_ret 1)"

section \<open>Flags\<close>

text \<open>
  A loop over the flags goes on with the options so far, or leaves with an exit code. A flag that
  takes a value is not recognised as the last argument.
\<close>

record push_opts =
  p_port :: u16
  p_tracker :: string
  p_ip :: string
  p_transport :: string
  p_cert :: string
  p_key :: string

definition push_defaults :: push_opts where
  "push_defaults = \<lparr>p_port = EMBR_PORT, p_tracker = [], p_ip = [], p_transport = ''tcp'',
     p_cert = ''cert.pem'', p_key = ''key.pem''\<rparr>"

text \<open>\<^verbatim>\<open>static_cast<uint16_t>(std::stoi(v))\<close>\<close>

definition port_of :: "string \<Rightarrow> u16 res" where
  "port_of v = res_bind (stoi v) (\<lambda>n. Ok (word_of_int n))"

fun push_flags :: "push_opts \<Rightarrow> string list \<Rightarrow> (push_opts + int) res" where
  "push_flags opts [] = Ok (Inl opts)"
| "push_flags opts [flag] = Ok (Inr (if flag = ''--help'' then 0 else 1))"
| "push_flags opts (flag # v # args) =
     (if flag = ''--port'' then res_bind (port_of v) (\<lambda>p. push_flags (opts\<lparr>p_port := p\<rparr>) args)
      else if flag = ''--tracker'' then push_flags (opts\<lparr>p_tracker := v\<rparr>) args
      else if flag = ''--ip'' then push_flags (opts\<lparr>p_ip := v\<rparr>) args
      else if flag = ''--help'' then Ok (Inr 0)
      else if flag = ''--transport'' then push_flags (opts\<lparr>p_transport := v\<rparr>) args
      else if flag = ''--cert'' then push_flags (opts\<lparr>p_cert := v\<rparr>) args
      else if flag = ''--key'' then push_flags (opts\<lparr>p_key := v\<rparr>) args
      else Ok (Inr 1))"

record pull_opts =
  l_port :: u16
  l_tracker :: string
  l_out :: string
  l_transport :: string

definition pull_defaults :: pull_opts where
  "pull_defaults = \<lparr>l_port = EMBR_PORT, l_tracker = [], l_out = [], l_transport = ''tcp''\<rparr>"

fun pull_flags :: "pull_opts \<Rightarrow> string list \<Rightarrow> (pull_opts + int) res" where
  "pull_flags opts [] = Ok (Inl opts)"
| "pull_flags opts [flag] = Ok (Inr (if flag = ''--help'' then 0 else 1))"
| "pull_flags opts (flag # v # args) =
     (if flag = ''--port'' then res_bind (port_of v) (\<lambda>p. pull_flags (opts\<lparr>l_port := p\<rparr>) args)
      else if flag = ''--tracker'' then pull_flags (opts\<lparr>l_tracker := v\<rparr>) args
      else if flag = ''--out'' then pull_flags (opts\<lparr>l_out := v\<rparr>) args
      else if flag = ''--help'' then Ok (Inr 0)
      else if flag = ''--transport'' then pull_flags (opts\<lparr>l_transport := v\<rparr>) args
      else Ok (Inr 1))"

record tracker_config =
  bind_addr :: string
  bind_port :: u16
  ttl :: int

definition tracker_defaults :: tracker_config where
  "tracker_defaults = \<lparr>bind_addr = ''0.0.0.0'', bind_port = TRACKER_PORT, ttl = 10\<rparr>"

fun tracker_flags :: "tracker_config \<Rightarrow> string list \<Rightarrow> (tracker_config + int) res" where
  "tracker_flags cfg [] = Ok (Inl cfg)"
| "tracker_flags cfg [flag] = Ok (Inr (if flag = ''--help'' then 0 else 1))"
| "tracker_flags cfg (flag # v # args) =
     (if flag = ''--bind'' then tracker_flags (cfg\<lparr>bind_addr := v\<rparr>) args
      else if flag = ''--port'' then res_bind (port_of v) (\<lambda>p. tracker_flags (cfg\<lparr>bind_port := p\<rparr>) args)
      else if flag = ''--ttl'' then res_bind (stoi v) (\<lambda>n. tracker_flags (cfg\<lparr>ttl := n\<rparr>) args)
      else if flag = ''--help'' then Ok (Inr 0)
      else Ok (Inr 1))"

section \<open>Connections\<close>

datatype connection = Tcp_connection nat | Quic_connection quic_handle

primrec conn_resources :: "connection \<Rightarrow> Factories.resource list" where
  "conn_resources (Tcp_connection fd) = [(Socket_fd, fd)]"
| "conn_resources (Quic_connection q) = quic_resources q"

text \<open>\<^verbatim>\<open>unique_ptr<Transport>\<close> going out of scope. A QUIC connection is closed first.\<close>

definition close_resources :: "Factories.resource list \<Rightarrow> 'h embr_world \<Rightarrow> 'h embr_world" where
  "close_resources xs w = w\<lparr>sys_net := releases xs (sys_net w)\<rparr>"

definition close_connection :: "connection \<Rightarrow> ('h, unit) cio" where
  "close_connection c =
     io_finally
       (case c of
          Tcp_connection _ \<Rightarrow> on_tcp (io_modify (\<lambda>w. w\<lparr>pipe_open := False, pipe_buf := []\<rparr>))
        | Quic_connection _ \<Rightarrow> on_quic quic_destroy)
       (close_resources (conn_resources c))"

definition close_socket :: "nat \<Rightarrow> 'h embr_world \<Rightarrow> 'h embr_world" where
  "close_socket fd = close_resources [(Socket_fd, fd)]"

definition close_file :: "int \<Rightarrow> 'h embr_world \<Rightarrow> 'h embr_world" where
  "close_file fd w = w\<lparr>sys_tcp := sys_close fd (sys_tcp w)\<rparr>"

definition push_on :: "connection \<Rightarrow> int \<Rightarrow> file_meta \<Rightarrow> ('h, unit) cio" where
  "push_on c fd meta =
     (case c of
        Tcp_connection _ \<Rightarrow> on_tcp (run_push TcpTransport fd meta)
      | Quic_connection _ \<Rightarrow> on_quic (run_push quic_transport fd meta))"

definition pull_on :: "evp \<Rightarrow> connection \<Rightarrow> string \<Rightarrow> ('h, unit) cio" where
  "pull_on E c out =
     (case c of
        Tcp_connection _ \<Rightarrow> on_tcp (run_pull E TcpTransport out)
      | Quic_connection _ \<Rightarrow> on_quic (run_pull E quic_transport out))"

section \<open>Push\<close>

text \<open>What a command finds on its machine: hash library, cores, schedule of the workers, file times, HTTP.\<close>

record 'h machine =
  m_evp :: evp
  m_cores :: u32
  m_sched :: "nat list"
  m_mtime :: "string \<Rightarrow> u64 \<times> u64"
  m_http :: "'h http"

definition hex_digit :: "nat \<Rightarrow> char" where
  "hex_digit n = ''0123456789abcdef'' ! n"

definition derive_token :: "evp \<Rightarrow> u8 list list \<Rightarrow> string res" where
  "derive_token E hs =
     res_bind (sha256_buf E (concat hs)) (\<lambda>digest.
       if length digest < 8 then Undef
       else Ok (concat (map (\<lambda>b. [hex_digit (unat b div 16), hex_digit (unat b mod 16)]) (take 8 digest))))"

definition push_listen :: "push_opts \<Rightarrow> ('h, nat) cio" where
  "push_listen opts =
     on_net (if p_transport opts = ''quic'' then quic_listen (p_port opts) else tcp_listen (p_port opts))"

definition push_accept :: "push_opts \<Rightarrow> nat \<Rightarrow> ('h, connection) cio" where
  "push_accept opts listen_fd =
     (if p_transport opts = ''quic''
      then io_bind (on_net (quic_accept listen_fd (p_cert opts) (p_key opts))) (\<lambda>q. io_ret (Quic_connection q))
      else io_bind (on_net (tcp_accept listen_fd)) (\<lambda>fd. io_ret (Tcp_connection fd)))"

text \<open>
  The file belongs to this function until \<^verbatim>\<open>run_push\<close> takes it over; the listening socket is closed
  by its owner whatever happens, after the connection.
\<close>

definition push_open :: "'h machine \<Rightarrow> push_opts \<Rightarrow> string \<Rightarrow> file_meta \<Rightarrow> ('h, string \<times> nat \<times> connection) cio" where
  "push_open M opts url meta =
     io_bind (io_lift (derive_token (m_evp M) (chunk_hashes meta))) (\<lambda>tok.
     io_bind (push_listen opts) (\<lambda>listen_fd.
     io_catch_rethrow
       (io_bind (if url \<noteq> [] then on_web (tracker_register (m_http M) url tok (p_port opts)) else io_ret ()) (\<lambda>_.
        io_bind (push_accept opts listen_fd) (\<lambda>c. io_ret (tok, listen_fd, c))))
       (close_socket listen_fd)))"

definition push_session ::
    "'h machine \<Rightarrow> string \<Rightarrow> int \<Rightarrow> file_meta \<Rightarrow> string \<times> nat \<times> connection \<Rightarrow> ('h, unit) cio" where
  "push_session M url file_fd meta s =
     (case s of (tok, listen_fd, c) \<Rightarrow>
        io_finally
          (io_scope
            (io_bind (push_on c file_fd meta) (\<lambda>_.
             if url \<noteq> [] then on_web (tracker_unregister (m_http M) url tok) else io_ret ()))
            (close_connection c))
          (close_socket listen_fd))"

definition push_serve :: "'h machine \<Rightarrow> push_opts \<Rightarrow> string \<Rightarrow> int \<Rightarrow> file_meta \<Rightarrow> ('h, unit) cio" where
  "push_serve M opts url file_fd meta =
     io_bind (io_catch_rethrow (push_open M opts url meta) (close_file file_fd))
       (push_session M url file_fd meta)"

definition run_push_cli :: "'h machine \<Rightarrow> string list \<Rightarrow> ('h, int) cio" where
  "run_push_cli M argv =
     (case argv of
        _ # file_path # args \<Rightarrow>
          io_bind (io_lift (push_flags push_defaults args)) (\<lambda>parsed.
            case parsed of
              Inr code \<Rightarrow> io_ret code
            | Inl opts \<Rightarrow>
                if p_transport opts \<noteq> ''tcp'' \<and> p_transport opts \<noteq> ''quic'' then io_ret 1
                else io_bind (io_get sys_env) (\<lambda>env.
                     io_bind (on_tcp (resolve_tracker_url env (p_tracker opts))) (\<lambda>url.
                     io_catch
                       (io_bind (on_tcp (precompute_meta (m_evp M) (m_cores M) (m_sched M) (m_mtime M) file_path)) (\<lambda>meta.
                        io_bind (on_tcp (sys (sys_open file_path False False))) (\<lambda>fd.
                        io_bind (io_lift (SocketFd fd)) (\<lambda>file_fd.
                        io_bind (push_serve M opts url file_fd meta) (\<lambda>_. io_ret 0)))))
                       (io_ret 1))))
      | _ \<Rightarrow> io_ret 1)"

section \<open>Pull\<close>

text \<open>What \<^verbatim>\<open>inet_pton\<close> takes for an IPv4 address: four decimal bytes without leading zeros.\<close>

fun split_dots :: "string \<Rightarrow> string list" where
  "split_dots [] = [[]]"
| "split_dots (c # cs) =
     (if c = CHR ''.'' then [] # split_dots cs
      else case split_dots cs of [] \<Rightarrow> [[c]] | x # xs \<Rightarrow> (c # x) # xs)"

definition octet_ok :: "string \<Rightarrow> bool" where
  "octet_ok s \<longleftrightarrow> s \<noteq> [] \<and> list_all is_digit s \<and> digits_val s \<le> 255 \<and> (length s > 1 \<longrightarrow> hd s \<noteq> CHR ''0'')"

definition is_ipv4 :: "string \<Rightarrow> bool" where
  "is_ipv4 arg \<longleftrightarrow> length (split_dots arg) = 4 \<and> list_all octet_ok (split_dots arg)"

definition is_token :: "string \<Rightarrow> bool" where
  "is_token arg \<longleftrightarrow> length arg = TOKEN_SIZE \<and>
     list_all (\<lambda>c. CHR ''0'' \<le> c \<and> c \<le> CHR ''9'' \<or> CHR ''a'' \<le> c \<and> c \<le> CHR ''f'') arg"

text \<open>The sender's address: given, or asked from the tracker; no address is exit code 1.\<close>

definition find_sender :: "'h machine \<Rightarrow> pull_opts \<Rightarrow> string \<Rightarrow> string \<Rightarrow> ('h, (string \<times> u16) option) cio" where
  "find_sender M opts url arg =
     (if is_ipv4 arg then io_ret (Some (arg, l_port opts))
      else if is_token arg then
        (if url = [] then io_ret None
         else io_bind (on_web (tracker_resolve (m_http M) url arg)) (\<lambda>a. io_ret (Some a)))
      else io_ret None)"

definition pull_connect :: "pull_opts \<Rightarrow> string \<times> u16 \<Rightarrow> ('h, connection) cio" where
  "pull_connect opts sender =
     (if l_transport opts = ''quic''
      then io_bind (on_net (quic_connect (fst sender) (snd sender))) (\<lambda>q. io_ret (Quic_connection q))
      else io_bind (on_net (tcp_connect (fst sender) (snd sender))) (\<lambda>fd. io_ret (Tcp_connection fd)))"

definition run_pull_cli :: "'h machine \<Rightarrow> string list \<Rightarrow> ('h, int) cio" where
  "run_pull_cli M argv =
     (case argv of
        _ # arg # args \<Rightarrow>
          io_bind (io_lift (pull_flags pull_defaults args)) (\<lambda>parsed.
            case parsed of
              Inr code \<Rightarrow> io_ret code
            | Inl opts \<Rightarrow>
                if l_transport opts \<noteq> ''tcp'' \<and> l_transport opts \<noteq> ''quic'' then io_ret 1
                else io_bind (io_get sys_env) (\<lambda>env.
                     io_bind (on_tcp (resolve_tracker_url env (l_tracker opts))) (\<lambda>url.
                     io_catch
                       (io_bind (find_sender M opts url arg) (\<lambda>sender.
                          case sender of
                            None \<Rightarrow> io_ret 1
                          | Some address \<Rightarrow>
                              io_bind (pull_connect opts address) (\<lambda>c.
                              io_bind (io_scope (pull_on (m_evp M) c (l_out opts)) (close_connection c)) (\<lambda>_.
                              io_ret 0))))
                       (io_ret 1))))
      | _ \<Rightarrow> io_ret 1)"

section \<open>Main\<close>

text \<open>The tracker command ends in serving with a configuration, the others in an exit code.\<close>

datatype outcome = Exit int | Serve tracker_config

definition run_tracker_cli :: "string list \<Rightarrow> outcome res" where
  "run_tracker_cli argv =
     res_bind (tracker_flags tracker_defaults (tl argv)) (\<lambda>parsed.
       case parsed of Inl cfg \<Rightarrow> Ok (Serve cfg) | Inr code \<Rightarrow> Ok (Exit code))"

definition embr_main :: "'h machine \<Rightarrow> string list \<Rightarrow> ('h, outcome) cio" where
  "embr_main M argv =
     (case argv of
        _ # verb # args \<Rightarrow>
          (if verb = ''push'' then io_bind (run_push_cli M (verb # args)) (\<lambda>n. io_ret (Exit n))
           else if verb = ''pull'' then io_bind (run_pull_cli M (verb # args)) (\<lambda>n. io_ret (Exit n))
           else if verb = ''tracker'' then io_lift (run_tracker_cli (verb # args))
           else if verb = ''trust'' then
             io_bind (io_get sys_env) (\<lambda>env.
             io_bind (on_tcp (run_trust_cli env (verb # args))) (\<lambda>n. io_ret (Exit n)))
           else io_ret (Exit 1))
      | _ \<Rightarrow> io_ret (Exit 1))"

end
