(* ===== verification/Command_Sockets.thy ===== *)
theory Command_Sockets
  imports Command_Line
begin

text \<open>
  The sockets of the push and pull commands: with the ledgers of the factories and the destructors
  of the connections, every socket is closed exactly once, except by push over QUIC.
\<close>

section \<open>Rules for the parts of the world\<close>

lemma wp_parts:
  "wp b (on_tcp m) Q w = wp b m (\<lambda>r t. Q r (w\<lparr>sys_tcp := t\<rparr>)) (sys_tcp w)"
  "wp b (on_net n) R w = wp b n (\<lambda>r t. R r (w\<lparr>sys_net := t\<rparr>)) (sys_net w)"
  by (simp_all add: wp_def on_tcp_def on_net_def split: option.split prod.split)

lemma wp_io_catch: "wp b (io_catch m h) Q w = wp b m (\<lambda>r w'. case r of Throw e \<Rightarrow> wp b h Q w' | _ \<Rightarrow> Q r w') w"
  by (simp add: wp_def io_catch_def split: option.split prod.split res.split)

lemma wp_io_scope:
  "wp True (io_scope m c) Q w = wp True m (\<lambda>r w'. wp True c (\<lambda>_ w2. Q r w2) w') w"
  by (simp add: wp_def io_scope_def split: option.split prod.split)

definition sockets :: "Factories.resource multiset \<Rightarrow> nat \<Rightarrow> 'h embr_world \<Rightarrow> bool" where
  "sockets H b w \<longleftrightarrow> mset (held (sys_net w)) = H \<and> bad_frees (sys_net w) = b"

lemma sockets_same: "sys_net w' = sys_net w \<Longrightarrow> sockets H b w' = sockets H b w"
  by (simp add: sockets_def)

lemma sockets_file [simp]: "sockets H b (close_file fd w) = sockets H b w"
  by (simp add: sockets_def close_file_def)

lemma sockets_release:
  assumes "sockets (mset xs + H) b w"
  shows "sockets H b (close_resources xs w)"
proof -
  have h: "mset (held (sys_net w)) = mset xs + H" and b: "bad_frees (sys_net w) = b"
    using assms unfolding sockets_def by blast+
  have sub: "mset xs \<subseteq># mset (held (sys_net w))" unfolding h by (rule mset_subset_eq_add_left)
  show ?thesis unfolding sockets_def close_resources_def
    using releases_held [OF sub] h b by simp
qed

lemma sockets_close: "sockets (add_mset (Socket_fd, fd) H) b w \<Longrightarrow> sockets H b (close_socket fd w)"
  unfolding close_socket_def by (rule sockets_release) simp

lemma sockets_bad:
  assumes "sockets {#} b w"
  shows "sockets {#} (b + 1) (close_socket fd w)"
proof -
  have h: "held (sys_net w) = []" and b: "bad_frees (sys_net w) = b"
    using assms unfolding sockets_def by simp_all
  have "release (Socket_fd, fd) (sys_net w) = (sys_net w)\<lparr>bad_frees := b + 1\<rparr>" by (simp add: release_def h b)
  then show ?thesis unfolding sockets_def close_socket_def close_resources_def by (simp add: releases_def h)
qed

text \<open>Parts of a command that leave the sockets alone.\<close>

definition calm :: "('h, 'a) cio \<Rightarrow> bool" where
  "calm m \<longleftrightarrow> (\<forall>w r w'. m w = Some (r, w') \<longrightarrow> sys_net w' = sys_net w)"

lemma wp_calm:
  assumes "calm m" and "sockets H b w" and "\<And>r w'. sockets H b w' \<Longrightarrow> Q r w'"
  shows "wp True m Q w"
proof (rule wpI)
  fix r w' assume "m w = Some (r, w')"
  with assms(1) have "sys_net w' = sys_net w" unfolding calm_def by blast
  from sockets_same [OF this] assms(2,3) show "Q r w'" by simp
qed

lemma calm_parts: "calm (on_tcp m)" "calm (on_web m')" "calm (on_quic m'')" "calm (io_lift x)" "calm (io_get f)" "calm (io_ret y)"
  by (auto simp: calm_def io_get_def on_tcp_def on_web_def on_quic_def split: option.splits prod.splits)

lemma calm_bind:
  assumes "calm m" and "\<And>x. calm (f x)"
  shows "calm (io_bind m f)"
  unfolding calm_def
proof (intro allI impI)
  fix w r w' assume run: "io_bind m f w = Some (r, w')"
  then obtain q v where m: "m w = Some (q, v)" by (cases "m w") (auto simp: io_bind_def)
  with assms(1) have v: "sys_net v = sys_net w" unfolding calm_def by blast
  show "sys_net w' = sys_net w"
  proof (cases q)
    case (Ok x)
    then have "f x v = Some (r, w')" using run m by (simp add: io_bind_def)
    with assms(2) [of x] have "sys_net w' = sys_net v" unfolding calm_def by blast
    then show ?thesis by (simp add: v)
  qed (use run m v in \<open>simp_all add: io_bind_def\<close>)
qed

lemma calm_push_on: "calm (push_on c fd meta)" "calm (pull_on E c out)"
  by (cases c; simp add: push_on_def pull_on_def calm_parts)+

lemmas calm_rules = calm_parts calm_bind calm_push_on

lemma wp_close_connection:
  assumes "sockets (mset (conn_resources c) + H) b w" and Q: "\<And>r w'. sockets H b w' \<Longrightarrow> Q r w'"
  shows "wp True (close_connection c) Q w"
proof -
  have fin: "Q r (close_resources (conn_resources c) w')" if "sys_net w' = sys_net w" for r w'
  proof -
    have "sockets (mset (conn_resources c) + H) b w'" using assms(1) sockets_same [OF that] by simp
    from Q [OF sockets_release [OF this]] show ?thesis .
  qed
  have "calm (case c of Tcp_connection _ \<Rightarrow> on_tcp (io_modify (\<lambda>w. w\<lparr>pipe_open := False, pipe_buf := []\<rparr>))
      | Quic_connection _ \<Rightarrow> on_quic quic_destroy)"
    by (cases c) (simp_all add: calm_parts)
  then show ?thesis unfolding close_connection_def wp_finally calm_def by (intro wpI fin) blast
qed

lemma wp_factory:
  assumes "books T mk own" and "sockets (T + H) b w"
    and ok: "\<And>x w'. sockets (own x + H) b w' \<Longrightarrow> Q (Ok x) w'" and bad: "\<And>e w'. sockets H b w' \<Longrightarrow> Q (Throw e) w'"
  shows "wp True (on_net mk) Q w"
  unfolding wp_parts
proof (rule wpI)
  fix r s assume run: "mk (sys_net w) = Some (r, s)"
  have w: "mset (held (sys_net w)) = T + H" "bad_frees (sys_net w) = b" using assms(2) by (simp_all add: sockets_def)
  have "T \<subseteq># mset (held (sys_net w))" by (simp add: w)
  note B = booksD [OF assms(1) run this]
  show "Q r (w\<lparr>sys_net := s\<rparr>)"
  proof (cases r)
    case (Ok x)
    have "sockets (own x + H) b (w\<lparr>sys_net := s\<rparr>)" using B by (simp add: Ok settled_def w sockets_def)
    then show ?thesis unfolding Ok by (rule ok)
  next
    case (Throw e)
    have "sockets H b (w\<lparr>sys_net := s\<rparr>)" using B by (simp add: Throw settled_def w sockets_def)
    then show ?thesis unfolding Throw by (rule bad)
  qed (use B in simp)
qed

section \<open>Pull leaves no socket behind\<close>

lemma find_sender_calm: "calm (find_sender M opts url arg)"
  unfolding find_sender_def by (auto intro!: calm_rules)

lemma pull_connect_wp:
  assumes "sockets H b w" and "\<And>c w'. sockets (mset (conn_resources c) + H) b w' \<Longrightarrow> Q (Ok c) w'"
    and "\<And>e w'. sockets H b w' \<Longrightarrow> Q (Throw e) w'"
  shows "wp True (pull_connect opts sender) Q w"
proof -
  have w: "sockets ({#} + H) b w" using assms(1) by simp
  have q: "wp True (io_bind (on_net (quic_connect ip port)) (\<lambda>q. io_ret (Quic_connection q))) Q w" for ip port
    unfolding wp_bind
    by (rule wp_factory [OF quic_connects.made [unfolded mset.simps] w])
      (simp_all add: on_ok_def wp_simps assms(2,3))
  have t: "wp True (io_bind (on_net (tcp_connect ip port)) (\<lambda>fd. io_ret (Tcp_connection fd))) Q w" for ip port
    unfolding wp_bind
    by (rule wp_factory [OF tcp_connects.made [unfolded mset.simps] w])
      (simp_all add: on_ok_def wp_simps assms(2,3))
  show ?thesis unfolding pull_connect_def using q t by simp
qed

text \<open>After the flags, whatever happens.\<close>

lemma wp_swallowed:
  assumes "wp True m (\<lambda>_. sockets H b) w"
  shows "wp True (io_catch m (io_ret n)) (\<lambda>_. sockets H b) w"
  unfolding wp_io_catch by (rule wp_mono [OF assms]) (simp add: wp_simps split: res.split)

lemma pull_session_wp:
  assumes "sockets (mset (conn_resources c) + H) b w"
  shows "wp True (io_bind (io_scope (pull_on E c out) (close_connection c)) (\<lambda>_. io_ret n)) (\<lambda>_. sockets H b) w"
  unfolding wp_bind wp_io_scope
  by (intro wp_calm [OF calm_push_on(2) assms] wp_close_connection) (auto simp: on_ok_def wp_simps split: res.split)

lemma run_pull_cli_wp:
  assumes "sockets H b w"
  shows "wp True (run_pull_cli M argv) (\<lambda>_. sockets H b) w"
proof -
  have c: "wp True (io_bind (pull_connect opts a)
      (\<lambda>c. io_bind (io_scope (pull_on E c out) (close_connection c)) (\<lambda>_. io_ret n))) (\<lambda>_. sockets H b) w1"
    if "sockets H b w1" for opts a E out n w1
    unfolding wp_bind [of _ "pull_connect _ _"]
    by (rule pull_connect_wp [OF that]) (simp_all add: pull_session_wp)
  have t: "wp True (io_bind (find_sender M opts url arg) (\<lambda>sender.
      case sender of None \<Rightarrow> io_ret 1
      | Some address \<Rightarrow> io_bind (pull_connect opts address)
          (\<lambda>c. io_bind (io_scope (pull_on E c out) (close_connection c)) (\<lambda>_. io_ret 0)))) (\<lambda>_. sockets H b) w1"
    if "sockets H b w1" for opts url arg E out w1
    unfolding wp_bind [of _ "find_sender _ _ _ _"]
    by (rule wp_calm [OF find_sender_calm that])
      (auto simp: on_ok_def wp_return split: res.split option.split intro!: c)
  have r: "wp True (io_bind (on_tcp (resolve_tracker_url env f)) (\<lambda>url. io_catch (g url) (io_ret 1)))
      (\<lambda>_. sockets H b) w" if "\<And>url w1. sockets H b w1 \<Longrightarrow> wp True (g url) (\<lambda>_. sockets H b) w1"
    for env f and g :: "string \<Rightarrow> ('a, int) cio"
    unfolding wp_bind [of _ "on_tcp _"]
    by (rule wp_calm [OF calm_parts(1) assms]) (auto simp: on_ok_def split: res.split intro!: wp_swallowed that)
  show ?thesis
    unfolding run_pull_cli_def
    by (auto simp: wp_return wp_state wp_bind [of _ "io_lift _"] wp_bind [of _ "io_get _"] on_ok_def assms
        split: list.split res.split sum.split intro!: r t)
qed

section \<open>Push and its sockets\<close>

text \<open>The connection and the listening socket, one after the other.\<close>

lemma push_session_calm: "calm (io_bind (push_on c file_fd meta) (\<lambda>_.
    if url \<noteq> [] then on_web (tracker_unregister (m_http M) url tok) else io_ret ()))"
  by (auto intro!: calm_rules)

lemma push_session_wp:
  assumes "sockets (mset (conn_resources c) + H) b w"
    and "\<And>r w'. sockets H b w' \<Longrightarrow> Q r (close_socket listen_fd w')"
  shows "wp True (push_session M url file_fd meta (tok, listen_fd, c)) Q w"
  unfolding push_session_def prod.case wp_finally wp_io_scope
  by (intro wp_calm [OF push_session_calm assms(1)] wp_close_connection assms(2))

lemma push_listen_wp:
  assumes "sockets H b w" and "\<And>fd w'. sockets (add_mset (Socket_fd, fd) H) b w' \<Longrightarrow> Q (Ok fd) w'"
    and "\<And>e w'. sockets H b w' \<Longrightarrow> Q (Throw e) w'"
  shows "wp True (push_listen opts) Q w"
proof -
  have w: "sockets ({#} + H) b w" using assms(1) by simp
  have q: "wp True (on_net (quic_listen port)) Q w" for port
    by (rule wp_factory [OF quic_listens.made [unfolded mset.simps] w]) (simp_all add: assms(2,3))
  have t: "wp True (on_net (tcp_listen port)) Q w" for port
    by (rule wp_factory [OF tcp_listens.made [unfolded mset.simps] w]) (simp_all add: assms(2,3))
  show ?thesis unfolding push_listen_def using q t by simp
qed

lemma tcp_accept_wp:
  assumes "p_transport opts \<noteq> ''quic''" and "sockets H b w"
    and "\<And>c w'. sockets (mset (conn_resources c) + H) b w' \<Longrightarrow> Q (Ok c) w'"
    and "\<And>e w'. sockets H b w' \<Longrightarrow> Q (Throw e) w'"
  shows "wp True (push_accept opts listen_fd) Q w"
proof -
  have w: "sockets ({#} + H) b w" using assms(2) by simp
  show ?thesis unfolding push_accept_def if_not_P [OF assms(1)] wp_bind
    by (rule wp_factory [OF tcp_accepts.made [unfolded mset.simps] w])
      (simp_all add: on_ok_def wp_simps assms(3,4))
qed

lemma quic_accept_wp:
  assumes "p_transport opts = ''quic''" and "sockets (add_mset (Socket_fd, listen_fd) H) b w"
    and "\<And>c w'. sockets (mset (conn_resources c) + H) b w' \<Longrightarrow> Q (Ok c) w'"
    and "\<And>e w'. sockets H b w' \<Longrightarrow> Q (Throw e) w'"
  shows "wp True (push_accept opts listen_fd) Q w"
proof -
  have w: "sockets ({#(Socket_fd, listen_fd)#} + H) b w" using assms(2) by simp
  show ?thesis unfolding push_accept_def if_P [OF assms(1)] wp_bind
    by (rule wp_factory [OF quic_accepts.made [unfolded mset.simps] w])
      (simp_all add: on_ok_def wp_simps assms(3,4))
qed

definition settles :: "Factories.resource multiset \<Rightarrow> nat \<Rightarrow> 'b res \<Rightarrow> 'h embr_world \<Rightarrow> bool" where
  "settles H b r w \<longleftrightarrow> r \<noteq> Undef \<longrightarrow> sockets H b w"

lemma calm_register: "calm (if url \<noteq> [] then on_web m else io_ret ())"
  by (auto intro!: calm_rules)

text \<open>What the opened push owns: the listening socket and the connection.\<close>

lemma push_open_wp:
  fixes w :: "'e embr_world"
  assumes w: "sockets H b w"
    and acc: "\<And>fd (w1 :: 'e embr_world) Q. sockets (add_mset (Socket_fd, fd) H) b w1 \<Longrightarrow>
      (\<And>c w'. sockets (mset (conn_resources c) + K fd) b w' \<Longrightarrow> Q (Ok c) w') \<Longrightarrow>
      (\<And>e w'. sockets (K fd) b w' \<Longrightarrow> Q (Throw e) w') \<Longrightarrow> wp True (push_accept opts fd) Q w1"
    and ok: "\<And>tok fd c w'. sockets (mset (conn_resources c) + K fd) b w' \<Longrightarrow> Q (Ok (tok, fd, c)) w'"
    and bad: "\<And>e w'. sockets H b w' \<Longrightarrow> Q (Throw e) w'"
    and late: "\<And>e fd w'. sockets (K fd) b w' \<Longrightarrow> Q (Throw e) (close_socket fd w')"
    and undef: "\<And>w'. Q Undef w'"
  shows "wp True (push_open M opts url meta) Q w"
proof -
  have reg: "wp True (io_bind (if url \<noteq> [] then on_web m else io_ret ()) (\<lambda>_.
        io_bind (push_accept opts fd) (\<lambda>c. io_ret (tok, fd, c)))) (on_throw (close_socket fd) Q) w1"
    if w1: "sockets (add_mset (Socket_fd, fd) H) b w1" for fd w1 tok and m :: "('e, unit) io"
    unfolding wp_bind [of _ "if _ then _ else _"]
  proof (rule wp_calm [OF calm_register w1])
    fix r :: "unit res" and w2 :: "'e embr_world" assume w2: "sockets (add_mset (Socket_fd, fd) H) b w2"
    have go: "wp True (io_bind (push_accept opts fd) (\<lambda>c. io_ret (tok, fd, c))) (on_throw (close_socket fd) Q) w2"
      unfolding wp_bind by (rule acc [OF w2]) (simp_all add: on_ok_def wp_return on_throw_def ok late)
    show "on_ok (\<lambda>_. wp True (io_bind (push_accept opts fd) (\<lambda>c. io_ret (tok, fd, c)))
        (on_throw (close_socket fd) Q)) (on_throw (close_socket fd) Q) r w2"
    proof (cases r)
      case (Throw e)
      then show ?thesis using bad [OF sockets_close [OF w2]] by (simp add: on_ok_def on_throw_def)
    qed (simp_all add: go on_ok_def on_throw_def undef)
  qed
  show ?thesis
    unfolding push_open_def wp_bind [of _ "io_lift _"] wp_return
  proof (cases "derive_token (m_evp M) (chunk_hashes meta)")
    case (Ok tok)
    show "on_ok (\<lambda>tok. wp True (io_bind (push_listen opts) (\<lambda>listen_fd. io_catch_rethrow
       (io_bind (if url \<noteq> [] then on_web (tracker_register (m_http M) url tok (p_port opts)) else io_ret ()) (\<lambda>_.
        io_bind (push_accept opts listen_fd) (\<lambda>c. io_ret (tok, listen_fd, c)))) (close_socket listen_fd))) Q) Q
       (derive_token (m_evp M) (chunk_hashes meta)) w"
      unfolding Ok on_ok_simps wp_bind [of _ "push_listen _"]
      by (rule push_listen_wp [OF w]) (simp_all add: on_ok_def wp_catch_rethrow reg bad)
  qed (simp_all add: on_ok_def undef bad w)
qed

lemma push_serve_wp:
  fixes w :: "'e embr_world"
  assumes w: "sockets H b w"
    and acc: "\<And>fd (w1 :: 'e embr_world) Q. sockets (add_mset (Socket_fd, fd) H) b w1 \<Longrightarrow>
      (\<And>c w'. sockets (mset (conn_resources c) + K fd) b w' \<Longrightarrow> Q (Ok c) w') \<Longrightarrow>
      (\<And>e w'. sockets (K fd) b w' \<Longrightarrow> Q (Throw e) w') \<Longrightarrow> wp True (push_accept opts fd) Q w1"
    and ok: "\<And>r fd w'. sockets (K fd) b w' \<Longrightarrow> Q r (close_socket fd w')"
    and bad: "\<And>e w'. sockets H b w' \<Longrightarrow> Q (Throw e) w'"
    and late: "\<And>e fd w'. sockets (K fd) b w' \<Longrightarrow> Q (Throw e) (close_file file_fd (close_socket fd w'))"
    and undef: "\<And>w'. Q Undef w'"
  shows "wp True (push_serve M opts url file_fd meta) Q w"
  unfolding push_serve_def wp_bind wp_catch_rethrow
proof (rule push_open_wp [OF w acc])
  show "on_throw (close_file file_fd) (on_ok (\<lambda>x. wp True (push_session M url file_fd meta x) Q) Q)
      (Ok (tok, fd, c)) w'" if "sockets (mset (conn_resources c) + K fd) b w'" for tok fd c w'
    unfolding on_throw_def res.case on_ok_simps 
    by (rule push_session_wp [where H = "K fd", OF that]) (rule ok)
  show "on_throw (close_file file_fd) (on_ok (\<lambda>x. wp True (push_session M url file_fd meta x) Q) Q)
      (Throw e) (close_socket fd w')" if "sockets (K fd) b w'" for e fd w'
    using late [OF that] by (simp add: on_throw_def on_ok_def)
qed (simp_all add: on_throw_def on_ok_def undef bad)

lemma push_serve_tcp:
  assumes "p_transport opts \<noteq> ''quic''" and "sockets H b w"
  shows "wp True (push_serve M opts url file_fd meta) (settles H b) w"
proof (rule push_serve_wp [where K = "\<lambda>fd. add_mset (Socket_fd, fd) H", OF assms(2)])
  show "wp True (push_accept opts fd) Q w1"
    if "sockets (add_mset (Socket_fd, fd) H) b w1"
      and "\<And>c w'. sockets (mset (conn_resources c) + add_mset (Socket_fd, fd) H) b w' \<Longrightarrow> Q (Ok c) w'"
      and "\<And>e w'. sockets (add_mset (Socket_fd, fd) H) b w' \<Longrightarrow> Q (Throw e) w'"
    for fd Q and w1 :: "'a embr_world"
    by (rule tcp_accept_wp [OF assms(1) that])
  show "settles H b r (close_socket fd w')" if "sockets (add_mset (Socket_fd, fd) H) b w'" for r fd w'
    using sockets_close [OF that] by (simp add: settles_def)
  show "settles H b (Throw e) (close_file file_fd (close_socket fd w'))"
    if "sockets (add_mset (Socket_fd, fd) H) b w'" for e fd w'
    using sockets_close [OF that] by (simp add: settles_def)
qed (simp_all add: settles_def)

text \<open>Whatever a successful push over QUIC did, its last act is to close a descriptor it does not own.\<close>

theorem push_quic_double_close:
  fixes w :: "'e embr_world"
  assumes "push_serve M opts url file_fd meta w = Some (Ok (), w')" and "p_transport opts = ''quic''"
    and "held (sys_net w) = []"
  shows "held (sys_net w') = [] \<and> bad_frees (sys_net w') = bad_frees (sys_net w) + 1"
proof -
  have w: "sockets {#} (bad_frees (sys_net w)) w" by (simp add: sockets_def assms(3))
  let ?Q = "\<lambda>(r :: unit res) (w' :: 'e embr_world). r = Ok () \<longrightarrow> sockets {#} (bad_frees (sys_net w) + 1) w'"
  have "wp True (push_serve M opts url file_fd meta) ?Q w"
  proof (rule push_serve_wp [where K = "\<lambda>fd. {#}", OF w])
    show "wp True (push_accept opts fd) Q w1"
      if "sockets {#(Socket_fd, fd)#} (bad_frees (sys_net w)) w1"
        and "\<And>c w'. sockets (mset (conn_resources c) + {#}) (bad_frees (sys_net w)) w' \<Longrightarrow> Q (Ok c) w'"
        and "\<And>e w'. sockets {#} (bad_frees (sys_net w)) w' \<Longrightarrow> Q (Throw e) w'"
      for fd Q and w1 :: "'e embr_world"
      by (rule quic_accept_wp [OF assms(2) that])
    show "?Q r (close_socket fd w')" if "sockets {#} (bad_frees (sys_net w)) w'" for r fd w'
      using sockets_bad [OF that] by simp
  qed simp_all
  from wpD [OF this assms(1)] show ?thesis by (simp add: sockets_def)
qed

lemma push_cli_wp:
  assumes "sockets H b w" and "\<And>f a args opts. argv = f # a # args \<Longrightarrow>
    push_flags push_defaults args = Ok (Inl opts) \<Longrightarrow> p_transport opts \<noteq> ''quic''"
  shows "wp True (run_push_cli M argv) (settles H b) w"
proof -
  have s: "settles H b r w1" if "sockets H b w1" for r :: "'b res" and w1 :: "'a embr_world"
    using that by (simp add: settles_def)
  have c: "wp True (io_catch m (io_ret n)) (settles H b) w1" if "wp True m (settles H b) w1" for m n and w1 :: "'a embr_world"
    unfolding wp_io_catch by (rule wp_mono [OF that]) (auto simp: wp_return settles_def split: res.split)
  have g: "wp True (io_bind (on_tcp m) f) (settles H b) w1"
    if "sockets H b w1" and "\<And>x w2. sockets H b w2 \<Longrightarrow> wp True (f x) (settles H b) w2"
    for w1 :: "'a embr_world" and m :: "(tcp_world, 'c) io" and f :: "'c \<Rightarrow> ('a, 'd) cio"
    unfolding wp_bind by (rule wp_calm [OF calm_parts(1) that(1)]) (auto simp: on_ok_def settles_def that(2) split: res.split)
  have serve: "wp True (io_bind (io_lift x) (\<lambda>fd. io_bind (push_serve M opts url fd meta) (\<lambda>_. io_ret n))) (settles H b) w1"
    if "p_transport opts \<noteq> ''quic''" and "sockets H b w1" for opts x url meta n and w1 :: "'a embr_world"
  proof -
    have "wp True (push_serve M opts url fd meta) (on_ok (\<lambda>_. wp True (io_ret n) (settles H b)) (settles H b)) w1" for fd
      by (rule wp_mono [OF push_serve_tcp [OF that]]) (auto simp: on_ok_def settles_def wp_return split: res.split)
    then show ?thesis using that(2) by (cases x) (simp_all add: wp_bind wp_return s settles_def)
  qed
  show ?thesis
    unfolding run_push_cli_def
    using assms
    by (auto simp: wp_return wp_state wp_bind [of _ "io_lift _"] wp_bind [of _ "io_get _"] on_ok_def s
        split: list.split res.split sum.split intro!: g c serve)
qed

end
