(* ===== verification/Command_Main.thy ===== *)
theory Command_Main
  imports Command_Sockets Quic_Session
begin

text \<open>
  What the commands promise: the token that push registers is one the tracker and pull accept, a
  tracker that was trusted is the one that is used, and a failed transfer is an exit code.
\<close>

section \<open>Tokens\<close>

lemma hex_digit_lower: "n < 16 \<Longrightarrow> hex_lower (hex_digit n)"
  unfolding hex_lower_def hex_digit_def by (rule nth_mem) simp

lemma is_token_valid: "is_token t = valid_token t"
proof -
  have "CHR ''0'' \<le> c \<and> c \<le> CHR ''9'' \<or> CHR ''a'' \<le> c \<and> c \<le> CHR ''f'' \<longleftrightarrow> hex_lower c" for c
  proof -
    have "c = char_of (of_char c :: nat)" by simp
    moreover have "CHR ''0'' \<le> c \<and> c \<le> CHR ''9'' \<or> CHR ''a'' \<le> c \<and> c \<le> CHR ''f'' \<longleftrightarrow>
        (of_char c :: nat) \<in> set [48, 49, 50, 51, 52, 53, 54, 55, 56, 57, 97, 98, 99, 100, 101, 102]"
      unfolding less_eq_char_def by simp presburger
    moreover have "hex_lower c \<longleftrightarrow>
        (of_char c :: nat) \<in> set (map of_char ''0123456789abcdef'')"
      unfolding hex_lower_def set_map by (rule inj_image_mem_iff [OF inj_of_char, symmetric])
    ultimately show ?thesis by simp
  qed
  then show ?thesis by (simp add: is_token_def valid_token_def)
qed

lemma hex_pairs:
  "list_all hex_lower (concat (map (\<lambda>b :: u8. [hex_digit (unat b div 16), hex_digit (unat b mod 16)]) bs)) \<and>
   length (concat (map (\<lambda>b :: u8. [hex_digit (unat b div 16), hex_digit (unat b mod 16)]) bs)) = 2 * length bs"
proof (induction bs)
  case (Cons b bs)
  have "unat b < 256" using unsigned_less [of b] by simp
  then have "unat b div 16 < 16" by linarith
  then show ?case using Cons by (simp add: hex_digit_lower)
qed simp

text \<open>C20: the token that push derives from the chunk hashes is one the tracker accepts in all three
  requests and pull takes for a token, whatever the digest is.\<close>

theorem derived_token_accepted:
  assumes "derive_token E hs = Ok t"
  shows "is_token t \<and> valid_token t"
proof -
  obtain digest where d: "8 \<le> length digest"
    "t = concat (map (\<lambda>b :: u8. [hex_digit (unat b div 16), hex_digit (unat b mod 16)]) (take 8 digest))"
  proof (cases "sha256_buf E (concat hs)")
    case (Ok digest)
    then show ?thesis using assms by (intro that [of digest]) (auto simp: derive_token_def split: if_splits)
  qed (use assms in \<open>simp_all add: derive_token_def\<close>)
  then have "valid_token t" using hex_pairs [of "take 8 digest"] by (simp add: valid_token_def TOKEN_SIZE_def)
  then show ?thesis by (simp add: is_token_valid)
qed

section \<open>Exit codes\<close>

text \<open>What a command may let escape: numbers that do not parse, and the saved tracker.\<close>

definition cli_errors :: "exn set" where
  "cli_errors = {Invalid_argument ''stoi'', Out_of_range ''stoi'', Runtime_error ''filesystem error: status'',
     Runtime_error ''filesystem error: cannot remove'', Runtime_error ''filesystem error: cannot create directories'',
     Runtime_error ''write_tracker_url: HOME not set''}"

definition gives :: "('a \<Rightarrow> bool) \<Rightarrow> 'a res \<Rightarrow> bool" where
  "gives A r = (case r of Ok x \<Rightarrow> A x | Throw e \<Rightarrow> e \<in> cli_errors | Undef \<Rightarrow> True)"

definition yields :: "('a \<Rightarrow> bool) \<Rightarrow> ('w, 'a) io \<Rightarrow> bool" where
  "yields A m \<longleftrightarrow> (\<forall>w. wp True m (\<lambda>r _. gives A r) w)"

definition ends_in :: "('a \<Rightarrow> bool) \<Rightarrow> ('w, 'a) io \<Rightarrow> bool" where
  "ends_in A m \<longleftrightarrow> (\<forall>w. wp True m (\<lambda>r _. \<forall>x. r = Ok x \<longrightarrow> A x) w)"

lemma gives_simps [simp]:
  "gives A (Ok x) = A x" "gives A (Throw e) = (e \<in> cli_errors)" "gives A Undef"
  by (simp_all add: gives_def)

lemma yields_simps:
  "yields A (io_ret x) = A x" "yields A (io_lift r) = gives A r" "yields A (io_throw e) = (e \<in> cli_errors)"
  by (simp_all add: yields_def wp_return)

lemma yields_bind:
  assumes "yields B m" and "\<And>x. B x \<Longrightarrow> yields A (f x)"
  shows "yields A (io_bind m f)"
  unfolding yields_def wp_bind
proof
  fix w
  have "wp True m (\<lambda>r _. gives B r) w" using assms(1) by (simp add: yields_def)
  then show "wp True m (on_ok (\<lambda>x. wp True (f x) (\<lambda>r _. gives A r)) (\<lambda>r _. gives A r)) w"
    by (rule wp_mono) (auto simp: on_ok_def assms(2) [unfolded yields_def] split: res.split)
qed

lemma yields_any: "yields (\<lambda>_. True) m \<Longrightarrow> (\<And>x. yields A (f x)) \<Longrightarrow> yields A (io_bind m f)"
  by (rule yields_bind)

lemma yields_get: "yields (\<lambda>_. True) (io_get f)" "yields (\<lambda>_. True) (io_modify g)" "yields (\<lambda>_. True) (sys h)"
  by (simp_all add: yields_def wp_def io_get_def io_modify_def sys_def split: option.split prod.split)

lemma yields_part: "yields A m \<Longrightarrow> yields A (on_tcp m)"
  by (simp add: yields_def wp_parts)

lemma yields_finally: "yields A m \<Longrightarrow> yields A (io_finally m c)"
  by (simp add: yields_def wp_finally)

lemma yields_catch: "ends_in A m \<Longrightarrow> A n \<Longrightarrow> yields A (io_catch m (io_ret n))"
  by (auto simp: yields_def ends_in_def wp_io_catch wp_return split: res.split elim!: allE wp_mono)

lemma ends_in_bind: "(\<And>x. ends_in A (f x)) \<Longrightarrow> ends_in A (io_bind m f)"
  by (auto simp: ends_in_def wp_bind on_ok_def intro!: wpI split: res.split)

lemma ends_in_ret: "A x \<Longrightarrow> ends_in A (io_ret x)"
  by (simp add: ends_in_def wp_return)

lemma gives_bind: "gives (\<lambda>_. True) r \<Longrightarrow> (\<And>x. gives A (f x)) \<Longrightarrow> gives A (res_bind r f)"
  by (cases r) simp_all

lemma stoi_gives: "gives (\<lambda>_. True) (stoi v)"
  by (cases "number_text v") (simp add: stoi_def Let_def cli_errors_def)

lemma port_of_gives: "gives (\<lambda>_. True) (port_of v)"
  unfolding port_of_def by (rule gives_bind [OF stoi_gives]) simp

definition code_ok :: "('o + int) \<Rightarrow> bool" where
  "code_ok p \<longleftrightarrow> (\<forall>n. p = Inr n \<longrightarrow> n = 0 \<or> n = 1)"

lemma code_ok_simps [simp]: "code_ok (Inl x)" "code_ok (Inr n) = (n = 0 \<or> n = 1)"
  by (auto simp: code_ok_def)

lemma gives_if: "(c \<Longrightarrow> gives A x) \<Longrightarrow> (\<not> c \<Longrightarrow> gives A y) \<Longrightarrow> gives A (if c then x else y)"
  by simp

lemma push_flags_give: "gives code_ok (push_flags opts args)"
proof (induction args arbitrary: opts rule: induct_list012)
  case (3 flag v args)
  show ?case unfolding push_flags.simps
    by (intro gives_bind [OF port_of_gives] gives_if) (rule 3 | simp only: gives_simps code_ok_simps simp_thms)+
qed simp_all

lemma pull_flags_give: "gives code_ok (pull_flags opts args)"
proof (induction args arbitrary: opts rule: induct_list012)
  case (3 flag v args)
  show ?case unfolding pull_flags.simps
    by (intro gives_bind [OF port_of_gives] gives_if) (rule 3 | simp only: gives_simps code_ok_simps simp_thms)+
qed simp_all

lemma tracker_flags_give: "gives code_ok (tracker_flags cfg args)"
proof (induction args arbitrary: cfg rule: induct_list012)
  case (3 flag v args)
  show ?case unfolding tracker_flags.simps
    by (intro gives_bind [OF port_of_gives] gives_bind [OF stoi_gives] gives_if) (rule 3 | simp only: gives_simps code_ok_simps simp_thms)+
qed simp_all

lemma with_fd_yields: "yields A m \<Longrightarrow> yields A (with_fd fd m)"
  unfolding with_fd_def by (rule yields_finally)

lemma swallow_yields: "yields (\<lambda>_. True) (io_swallow m)"
  by (auto simp: yields_def io_swallow_def gives_def wp_def split: option.split prod.split res.split)

lemma tracker_file_yields:
  "yields (\<lambda>_. True) (file_exists p)" "yields (\<lambda>_. True) (remove_file p)" "yields (\<lambda>_. True) (getline p)"
  "yields (\<lambda>_. True) (write_line p s)" "yields (\<lambda>_. True) create_directories"
  unfolding file_exists_def remove_file_def getline_def write_line_def create_directories_def
  by (auto simp: yields_simps cli_errors_def yields_get split: sysret.split
      intro!: yields_any [OF yields_get(3)] with_fd_yields swallow_yields)

lemma resolve_yields: "yields (\<lambda>_. True) (read_tracker_url env)" "yields (\<lambda>_. True) (resolve_tracker_url env v)"
  unfolding resolve_tracker_url_def read_tracker_url_def Let_def
  by (auto simp: yields_simps tracker_file_yields split: option.split
      intro!: yields_any [OF tracker_file_yields(1)])

lemma yields_if: "(c \<Longrightarrow> yields A m) \<Longrightarrow> (\<not> c \<Longrightarrow> yields A n) \<Longrightarrow> yields A (if c then m else n)"
  by simp

lemma write_tracker_yields: "yields (\<lambda>_. True) (write_tracker_url env url)"
  unfolding write_tracker_url_def Let_def
  by (intro yields_if yields_any [OF tracker_file_yields(5)] tracker_file_yields(4)) (simp add: yields_simps cli_errors_def)

lemma trust_yields: "yields (\<lambda>n. n = 0 \<or> n = 1) (run_trust_cli env argv)"
proof -
  have two: "yields (\<lambda>n. n = 0 \<or> n = 1) (run_trust_cli env (x # arg # xs))" for x arg xs
    unfolding run_trust_cli_def list.case
    by (intro yields_if yields_any [OF resolve_yields(1)] yields_any [OF tracker_file_yields(1)]
        yields_any [OF tracker_file_yields(2)] yields_any [OF write_tracker_yields]) (simp_all add: yields_simps)
  show ?thesis
  proof (cases argv rule: remdups_adj.cases)
    case (3 x y xs)
    show ?thesis unfolding 3 by (rule two)
  qed (simp_all add: run_trust_cli_def yields_simps)
qed

lemma push_yields: "yields (\<lambda>n. n = 0 \<or> n = 1) (run_push_cli M argv)"
  unfolding run_push_cli_def
  by (auto simp: yields_simps push_flags_give code_ok_def split: list.split sum.split
      intro!: yields_bind [where B = code_ok and m = "io_lift _"] yields_any [OF yields_get(1)]
        yields_any [OF yields_part [OF resolve_yields(2)]] yields_catch ends_in_bind ends_in_ret)

lemma pull_yields: "yields (\<lambda>n. n = 0 \<or> n = 1) (run_pull_cli M argv)"
  unfolding run_pull_cli_def
  by (auto simp: yields_simps pull_flags_give code_ok_def split: list.split sum.split option.split
      intro!: yields_bind [where B = code_ok and m = "io_lift _"] yields_any [OF yields_get(1)]
        yields_any [OF yields_part [OF resolve_yields(2)]] yields_catch ends_in_bind ends_in_ret)


section \<open>Trusting a tracker\<close>

lemma wp_next:
  assumes "ready b w (Suc n)" and "\<And>e w1. b \<Longrightarrow> tidy w w1 \<Longrightarrow> files w1 = files w \<Longrightarrow> Q (Ok (Fail e)) w1"
    and "\<And>k w1. tidy w w1 \<Longrightarrow> files w1 = files w \<Longrightarrow> ready b w1 n \<Longrightarrow> Q (Ok (Xfer k)) w1"
  shows "wp b (sys sys_next) Q w"
proof (rule sys_next_cases [OF assms(1)])
  show ?thesis if "sys_next w = None" "b" using that by (simp add: wp_def sys_def)
  show ?thesis if "sys_next w = Some (Fail e, w1)" "b" "same_os w w1" "later w w1" for e w1
    using that assms(2) [of w1 e] by (simp add: wp_def sys_def tidy_same_os) (simp add: same_os_def)
  show ?thesis if "sys_next w = Some (Xfer k, w1)" "same_os w w1" "later w w1" "ready b w1 n" for k w1
    using that assms(3) [of w1 k] by (simp add: wp_def sys_def tidy_same_os) (simp add: same_os_def)
qed

lemma wp_swallow: "wp b (io_swallow m) Q w = wp b m (\<lambda>r. Q (case r of Throw _ \<Rightarrow> Ok () | _ \<Rightarrow> r)) w"
  by (simp add: wp_def io_swallow_def split: option.split prod.split res.split)

lemma write_line_wp:
  assumes "wf_fds w" and "ready b w (Suc (Suc (length s) + n))"
    and ok: "\<And>w'. tidy w w' \<Longrightarrow> files w' = (files w)(p \<mapsto> bytes_of_string (s @ [CHR 0x0A])) \<Longrightarrow> ready b w' n \<Longrightarrow> Q (Ok ()) w'"
    and bad: "\<And>w'. b \<Longrightarrow> tidy w w' \<Longrightarrow> (\<And>q. q \<noteq> p \<Longrightarrow> files w' q = files w q) \<Longrightarrow> Q (Ok ()) w'"
  shows "wp b (write_line p s) Q w"
  unfolding write_line_def wp_bind
proof (rule wp_open [OF assms(1,2)], goal_cases)
  case (1 w')
  then show ?case by (simp add: wp_return bad)
next
  case (2 w' fd)
  have e: "at_end fd p [] w w'" if "world.more w' = world.more w" using 2 that by (simp add: at_end_def)
  have "\<not> fd < 0" using 2(2) by (simp add: holds_def)
  moreover have "wp b (write_exact fd (bytes_of_string (s @ [CHR 0x0A])))
      (\<lambda>r w'. Q (case r of Throw _ \<Rightarrow> Ok () | _ \<Rightarrow> r) (if 0 \<le> fd then sys_close fd w' else w')) w'"
  proof (rule wp_append [OF e, where n = n], goal_cases)
    case 1
    then show ?case using 2 by simp
  next
    case 2
    then show ?case using \<open>ready b w' (Suc (length s) + n)\<close> by simp
  next
    case (3 w1)
    then show ?case using at_end_close [OF 3(1)] \<open>\<not> fd < 0\<close> by (simp add: ok)
  next
    case (4 w1 e)
    then show ?case using \<open>\<not> fd < 0\<close> by (simp add: bad)
  qed
  ultimately show ?case by (simp add: with_fd_def wp_finally wp_swallow)
qed

lemma getline_wp:
  assumes "wf_fds w" and "ready False w (Suc n)" and "files w p = Some (bytes_of_string (s @ [CHR 0x0A]))"
    and "CHR 0x0A \<notin> set s" and "\<And>w'. tidy w w' \<Longrightarrow> files w' = files w \<Longrightarrow> Q (Ok s) w'"
  shows "wp False (getline p) Q w"
  unfolding getline_def wp_bind
proof (rule wp_open [OF assms(1,2)], goal_cases)
  case (1 w')
  then show ?case using assms(3) by simp
next
  case (2 w' fd)
  have f: "files w' = files w" using 2(3) assms(3) by (simp add: contents_def fun_upd_idem)
  have fd: "\<not> fd < 0" using 2(2) by (simp add: holds_def)
  have "string_of_bytes (contents w' p) = s @ [CHR 0x0A]" by (simp add: contents_def f assms(3))
  moreover have "takeWhile (\<lambda>c. c \<noteq> CHR 0x0A) (s @ [CHR 0x0A]) = s"
    using assms(4) by (subst takeWhile_append2) auto
  moreover have "Q (Ok s) (sys_close fd w')" using assms(5) [OF holds_close [OF 2(2)]] f by simp
  ultimately show ?case using fd by (simp add: with_fd_def wp_finally wp_state)
qed

lemma read_tracker_wp:
  assumes "wf_fds w" and "ready False w (Suc (Suc n))" and "get_config_path env \<noteq> []"
    and "files w (get_config_path env) = Some (bytes_of_string (s @ [CHR 0x0A]))" and "CHR 0x0A \<notin> set s"
    and Q: "\<And>w'. tidy w w' \<Longrightarrow> files w' = files w \<Longrightarrow> Q (Ok s) w'"
  shows "wp False (read_tracker_url env) Q w"
  unfolding read_tracker_url_def Let_def wp_bind [of _ "file_exists _"]
  unfolding file_exists_def if_not_P [OF assms(3)] wp_bind [of _ "sys sys_next"]
proof (rule wp_next [OF assms(2)], goal_cases)
  case (2 k w1)
  have "wp False (getline (get_config_path env)) Q w1"
    by (rule getline_wp [OF wf_fds_tidy [OF assms(1) 2(1)] 2(3)])
      (use 2 assms(4,5) in \<open>auto intro: Q tidy_trans\<close>)
  then show ?case using 2(2) assms(4) by (simp add: wp_state)
qed simp

lemma io_bind_assoc: "io_bind (io_bind m f) g = io_bind m (\<lambda>x. io_bind (f x) g)"
  by (rule ext) (simp add: io_bind_def split: option.split prod.split res.split)

text \<open>C21: the tracker given to \<^verbatim>\<open>embr trust\<close> is the one push and pull use from then on, unless a
  flag or the environment names another.\<close>

theorem trusted_tracker_used:
  assumes "wf_fds w" and "ready False w (length url + 5)" and "get_config_path env \<noteq> []"
    and "env ''EMBR_TRACKER'' \<in> {None, Some []}" and "CHR 0x0A \<notin> set url"
    and "url \<notin> {''--list'', ''--clear'', ''--help''}"
  shows "wp False (io_bind (run_trust_cli env [verb, url]) (\<lambda>_. resolve_tracker_url env []))
    (\<lambda>r w'. r = Ok url \<and> tidy w w' \<and>
       files w' = (files w)(get_config_path env \<mapsto> bytes_of_string (url @ [CHR 0x0A]))) w"
    (is "wp False _ ?Q w")
proof -
  let ?p = "get_config_path env"
  have res: "resolve_tracker_url env [] = (read_tracker_url env :: ('a world_scheme, string) io)"
    using assms(4) by (auto simp: resolve_tracker_url_def)
  have rd: "ready False w (Suc (Suc (Suc (length url) + 2)))" by (rule ready_mono [OF assms(2)]) simp
  have trust: "run_trust_cli env [verb, url] =
      (io_bind create_directories (\<lambda>_. io_bind (write_line ?p url) (\<lambda>_. io_ret 0)) :: ('a world_scheme, int) io)"
    using assms(3,6) by (simp add: run_trust_cli_def write_tracker_url_def Let_def io_bind_assoc)
  have go: "wp False (io_bind (write_line ?p url) (\<lambda>_. io_bind (io_ret (0 :: int)) (\<lambda>_. read_tracker_url env))) ?Q w1"
    if w1: "tidy w w1" "files w1 = files w" "ready False w1 (Suc (Suc (length url) + 2))" for w1
    unfolding wp_bind [of _ "write_line _ _"]
  proof (rule write_line_wp [OF wf_fds_tidy [OF assms(1) w1(1)] w1(3)], goal_cases)
    case (1 w2)
    have t: "tidy w w2" by (rule tidy_trans [OF w1(1) 1(1)])
    have "wp False (read_tracker_url env) ?Q w2"
      by (rule read_tracker_wp [where n = 0 and s = url, OF wf_fds_tidy [OF assms(1) t]])
        (use 1 assms(3,5) w1(2) t in \<open>auto intro: tidy_trans simp: numeral_2_eq_2\<close>)
    then show ?case by (simp add: wp_bind wp_return)
  qed simp
  show ?thesis
    unfolding trust res create_directories_def
    unfolding io_bind_assoc wp_bind [of _ "sys sys_next"]
    by (rule wp_next [OF rd]) (use go in \<open>simp_all add: wp_bind [of _ "io_ret ()"] wp_return\<close>)
qed

section \<open>Witnesses\<close>

definition sample_machine :: "unit machine" where
  "sample_machine = \<lparr>m_evp = toy_evp, m_cores = 1, m_sched = [0, 0, 0], m_mtime = (\<lambda>_. (0, 0)),
     m_http = (\<lambda>_ _ _ _ _ w. Some (None, w))\<rparr>"

definition sample_process :: "int list \<Rightarrow> unit embr_world" where
  "sample_process as = \<lparr>sys_tcp = pull_end, sys_quic = sample_quic Map.empty Map.empty [],
     sys_net = \<lparr>held = [], bad_frees = 0, next_id = 7, calls = [], answers = as\<rparr>, sys_web = (), sys_env = Map.empty\<rparr>"

lemma derived_token_accepted_witness:
  "\<exists>t. derive_token toy_evp [replicate 32 171, replicate 32 5] = Ok t \<and> t = ''abababababababab'' \<and> valid_token t"
proof -
  have run: "derive_token toy_evp [replicate 32 171, replicate 32 5] = Ok ''abababababababab''"
  proof -
    have "replicate 8 x = [x, x, x, x, x, x, x, x]" for x :: string by (simp add: numeral_eq_Suc)
    then have eight: "concat (replicate 8 x) = x @ x @ x @ x @ x @ x @ x @ x" for x :: string by simp
    have digit: "[hex_digit (unat (171 :: u8) div 16), hex_digit (unat (171 :: u8) mod 16)] = ''ab''" by (simp add: hex_digit_def)
    show ?thesis
      by (simp only: derive_token_def toy_evp res_bind.simps) (simp add: HASH_SIZE_def eight digit [simplified])
  qed
  from derived_token_accepted [OF this] run show ?thesis by simp
qed


lemma sample_process [simp]: "sys_tcp (sample_process as) = pull_end" "sys_env (sample_process as) = Map.empty"
  "held (sys_net (sample_process as)) = []" "bad_frees (sys_net (sample_process as)) = 0"
  by (simp_all add: sample_process_def)

lemma trusted_tracker_used_witness:
  "\<exists>w'. io_bind (run_trust_cli [''HOME'' \<mapsto> ''/root''] [''trust'', ''t.io:80''])
      (\<lambda>_. resolve_tracker_url [''HOME'' \<mapsto> ''/root''] []) (sample_world Map.empty) = Some (Ok ''t.io:80'', w')"
proof -
  have "wp False (io_bind (run_trust_cli [''HOME'' \<mapsto> ''/root''] [''trust'', ''t.io:80'']) (\<lambda>_. resolve_tracker_url [''HOME'' \<mapsto> ''/root''] []))
    (\<lambda>r w'. r = Ok ''t.io:80'' \<and> tidy (sample_world Map.empty) w' \<and> files w' =
       (files (sample_world Map.empty))(get_config_path [''HOME'' \<mapsto> ''/root''] \<mapsto> bytes_of_string (''t.io:80'' @ [CHR 0x0A]))) (sample_world Map.empty)"
    by (rule trusted_tracker_used) (simp_all add: get_config_path_def path_join_def sample_ready)
  then show ?thesis by (auto simp: wp_total)
qed

end
