(* ===== verification/Command_Transfer.thy ===== *)
theory Command_Transfer
  imports Command_Main
begin

text \<open>
  \<^verbatim>\<open>embr push\<close> and \<^verbatim>\<open>embr pull\<close> as wholes: from the arguments to the exit code, over TCP.
\<close>

section \<open>A push from the command line\<close>

lemma hashed_unique: "hashed E data hs \<Longrightarrow> hashed E data hs' \<Longrightarrow> hs' = hs"
  by (rule nth_equalityI) (auto simp: hashed_def)

text \<open>The metadata of the file.\<close>

lemma file_described:
  assumes src: "f \<noteq> []" "files w f = Some data" "data \<noteq> []" "length data \<le> 2 ^ 46" "length f < 2 ^ 30"
    and E: "evp_sha256 E" "\<forall>d. \<exists>h. sha256_buf E d = Ok h" "hashed E data hs"
    and sz: "sz = word_of_nat (length data)" and meta: "meta = meta_of f sz hs"
    and sched: "enough_rounds (chunk_count_of sz) (num_workers (chunk_count_of sz) hw) sched"
    and cache: "\<forall>hs. cached w f sz (mtime_of (mtim f)) (chunk_count_of sz) = Some hs \<longrightarrow> hashed E data hs"
    and wf: "wf_fds w" and env: "fair w" "precompute_cost (chunk_count_of sz) + n \<le> fuel w"
  obtains w1 where "precompute_meta E hw sched mtim f w = Some (Ok meta, w1)" "describes meta data"
    "tidy w w1" "world.more w1 = world.more w" "ready False w1 n" "files w1 f = Some data"
    "\<forall>q. q \<noteq> sibling ''.embr.hash'' f \<longrightarrow> files w1 q = files w q"
proof -
  have d50: "length data < 2 ^ 50" using src(4) by simp
  have "wp False (precompute_meta E hw sched mtim f) (meta_post False E f data (mtime_of (mtim f)) n w) w"
    by (rule precompute_meta_wp [OF wf src(1-3) d50 E(1) sz]) (use sched E(2) env in \<open>simp_all add: ready_def\<close>)
  then obtain r w1 where run1: "precompute_meta E hw sched mtim f w = Some (r, w1)"
    and post: "meta_post False E f data (mtime_of (mtim f)) n w r w1" by (auto simp: wp_total)
  then obtain m where r: "r = Ok m" by (cases r) (auto simp: meta_post_def)
  obtain hs' where m: "m = meta_of f sz hs'" and h: "length hs' = chunk_total (length data)" "\<forall>h \<in> set hs'. length h = HASH_SIZE"
      "hashed E data hs'" using post r cache sz by (auto simp: meta_post_def)
  have "hs' = hs" by (rule hashed_unique [OF E(3) h(3)])
  then have mm: "m = meta" by (simp add: m meta)
  have w1: "tidy w w1" "world.more w1 = world.more w" "ready False w1 n"
      "\<forall>q. q \<noteq> sibling ''.embr.hash'' f \<longrightarrow> files w1 q = files w q"
    using post r by (simp_all add: meta_post_def)
  have desc: "describes meta data" unfolding meta sz
    by (rule meta_of_describes [OF d50]) (use h \<open>hs' = hs\<close> src in simp_all)
  have "files w1 f = Some data" using w1(4) sibling_other [of "''.embr.hash''" f] src(2) by fastforce
  then show ?thesis using that run1 r mm desc w1 by blast
qed

text \<open>The file, the metadata and the transfer, without the sockets.\<close>

lemma push_parts:
  fixes w :: tcp_world
  assumes src: "f \<noteq> []" "files w f = Some data" "data \<noteq> []" "length data \<le> 2 ^ 46" "length f < 2 ^ 30"
    and E: "evp_sha256 E" "\<forall>d. \<exists>h. sha256_buf E d = Ok h" "hashed E data hs"
    and sz: "sz = word_of_nat (length data)" and meta: "meta = meta_of f sz hs"
    and sched: "enough_rounds (chunk_count_of sz) (num_workers (chunk_count_of sz) hw) sched"
    and cache: "\<forall>hs. cached w f sz (mtime_of (mtim f)) (chunk_count_of sz) = Some hs \<longrightarrow> hashed E data hs"
    and w: "tcp_inv w" "wf_fds w" and peer: "sock_in w = frame (hs_msg []) @ requests idxs" "\<forall>i \<in> set idxs. i < chunk_count meta"
    and env: "fair w" "precompute_cost (chunk_count_of sz) + Suc (push_cost meta [] (length idxs)) \<le> fuel w"
  obtains w1 w2 w3 fd where "precompute_meta E hw sched mtim f w = Some (Ok meta, w1)"
    "sys (sys_open f False False) w1 = Some (Ok fd, w2)" "0 \<le> fd" "run_push TcpTransport fd meta w2 = Some (Ok (), w3)"
    "sock_out w3 = sock_out w @ Push.answers data meta idxs" "sock_in w3 = []" "tidy w w3"
    "\<forall>q. q \<noteq> sibling ''.embr.hash'' f \<longrightarrow> files w3 q = files w q"
proof -
  let ?n = "push_cost meta [] (length idxs)"
  have d50: "length data < 2 ^ 63" using src(4) by simp
  obtain w1 where run1: "precompute_meta E hw sched mtim f w = Some (Ok meta, w1)" and desc: "describes meta data"
    and w1: "tidy w w1" "world.more w1 = world.more w" "ready False w1 (Suc ?n)"
      "\<forall>q. q \<noteq> sibling ''.embr.hash'' f \<longrightarrow> files w1 q = files w q" and f1: "files w1 f = Some data"
    by (rule file_described [where mtim = mtim, OF src E sz meta sched cache w(2) env])
  have "wp False (sys (sys_open f False False))
      (\<lambda>r w2. \<exists>fd. r = Ok fd \<and> holds fd \<lparr>of_path = f, of_pos = 0\<rparr> w1 w2 \<and> files w2 = files w1 \<and>
         world.more w2 = world.more w1 \<and> ready False w2 ?n) w1"
    by (rule wp_open [OF wf_fds_tidy [OF w(2) w1(1)] w1(3)]) (use f1 in \<open>auto simp: contents_def fun_upd_idem\<close>)
  then obtain fd w2 where run2: "sys (sys_open f False False) w1 = Some (Ok fd, w2)"
    and h2: "holds fd \<lparr>of_path = f, of_pos = 0\<rparr> w1 w2" "files w2 = files w1" "world.more w2 = world.more w1" "ready False w2 ?n"
    by (auto simp: wp_total)
  have own: "sock_in w2 = sock_in w \<and> sock_out w2 = sock_out w \<and> tcp_inv w2 = tcp_inv w"
    using tcp.own_state [of w2 w] h2(3) w1(2) by simp
  let ?Q = "\<lambda>r w'. r = Ok () \<and> sock_out w' = sock_out w @ Push.answers data meta idxs \<and> sock_in w' = [] \<and> tidy w1 w' \<and> files w' = files w1"
  have "wp False (run_push TcpTransport fd meta) ?Q w2"
  proof (rule tcp.run_push_wp [OF _ h2(1) _ desc, where tok = "[]" and js = idxs and n = 0 and s = "[]"], goal_cases)
    case 1
    then show ?case using own w(1) by simp
  next
    case 2
    then show ?case using h2(2) f1 by simp
  next
    case 3
    then show ?case using h2(4) by simp
  next
    case 4
    then show ?case using d50 own peer by (simp add: str_ok_def)
  next
    case (5 w3 js)
    then have "js = idxs" "sock_in w3 = []" by simp_all
    then show ?case using tcp.pushed_outbox [OF 5(1)] tcp.pushed_tidy [OF 5(1)] holds_close [OF holds_tidy [OF h2(1)]] own h2(2)
      by simp
  qed simp
  then obtain w3 where run3: "run_push TcpTransport fd meta w2 = Some (Ok (), w3)" and q: "?Q (Ok ()) w3"
    by (auto simp: wp_total)
  show ?thesis
    by (rule that [OF run1 run2 _ run3])
      (use q w1(1,4) h2(1) in \<open>auto simp: holds_def intro: tidy_trans\<close>)
qed

text \<open>C3: \<^verbatim>\<open>embr push FILE\<close> serves: when a puller connects that requests chunks in range and completes, the
  program ends with exit code 0, having sent the file's metadata with the hashes of its chunks and
  exactly the requested chunks; no file changes but the hash cache, every descriptor is as before
  and both sockets are closed once.\<close>

theorem embr_push_serves:
  assumes url: "resolve_tracker_url (sys_env w) [] (sys_tcp w) = Some (Ok [], sys_tcp w)"
    and src: "f \<noteq> []" "files (sys_tcp w) f = Some data" "data \<noteq> []" "length data \<le> 2 ^ 46" "length f < 2 ^ 30"
    and E: "evp_sha256 (m_evp M)" "\<forall>d. \<exists>h. sha256_buf (m_evp M) d = Ok h" "hashed (m_evp M) data hs"
    and sz: "sz = word_of_nat (length data)" and meta: "meta = meta_of f sz hs"
    and sched: "enough_rounds (chunk_count_of sz) (num_workers (chunk_count_of sz) (m_cores M)) (m_sched M)"
    and cache: "\<forall>hs. cached (sys_tcp w) f sz (mtime_of (m_mtime M f)) (chunk_count_of sz) = Some hs \<longrightarrow>
        hashed (m_evp M) data hs"
    and inv: "tcp_inv (sys_tcp w)" "wf_fds (sys_tcp w)"
    and peer: "sock_in (sys_tcp w) = frame (hs_msg []) @ requests idxs" "\<forall>i \<in> set idxs. i < chunk_count meta"
    and env: "fair (sys_tcp w)" "precompute_cost (chunk_count_of sz) + Suc (push_cost meta [] (length idxs)) \<le> fuel (sys_tcp w)"
    and net: "tcp_listen EMBR_PORT (sys_net w) = Some (Ok l, n1)" "tcp_accept l n1 = Some (Ok c, n2)" "held (sys_net w) = []"
  shows "\<exists>w'. embr_main M [prog, ''push'', f] w = Some (Ok (Exit 0), w') \<and>
    sock_out (sys_tcp w') = sock_out (sys_tcp w) @ Push.answers data meta idxs \<and> tidy (sys_tcp w) (sys_tcp w') \<and>
    (\<forall>q. q \<noteq> sibling ''.embr.hash'' f \<longrightarrow> files (sys_tcp w') q = files (sys_tcp w) q) \<and>
    held (sys_net w') = [] \<and> bad_frees (sys_net w') = bad_frees (sys_net w)"
proof -
  obtain w1 w2 w3 fd where r: "precompute_meta (m_evp M) (m_cores M) (m_sched M) (m_mtime M) f (sys_tcp w) = Some (Ok meta, w1)"
    "sys (sys_open f False False) w1 = Some (Ok fd, w2)" "0 \<le> fd" "run_push TcpTransport fd meta w2 = Some (Ok (), w3)"
    and w3: "sock_out w3 = sock_out (sys_tcp w) @ Push.answers data meta idxs" "tidy (sys_tcp w) w3"
    "\<forall>q. q \<noteq> sibling ''.embr.hash'' f \<longrightarrow> files w3 q = files (sys_tcp w) q"
    by (rule push_parts [where mtim = "m_mtime M", OF src E sz meta sched cache inv peer env])
  obtain d where d: "sha256_buf (m_evp M) (concat (chunk_hashes meta)) = Ok d" using E(2) by blast
  have "8 \<le> length d" using sha256_buf_length [OF E(1) d] by (simp add: HASH_SIZE_def)
  then obtain tok where tok: "derive_token (m_evp M) (chunk_hashes meta) = Ok tok" using d by (simp add: derive_token_def)
  let ?w4 = "w\<lparr>sys_net := n2, sys_tcp := w3\<lparr>pipe_open := False, pipe_buf := []\<rparr>\<rparr>"
  let ?w5 = "close_socket l (close_resources [(Socket_fd, c)] ?w4)"
  have cli: "run_push_cli M [''push'', f] w = Some (Ok 0, ?w5)"
    using r url net tok
    by (simp add: run_push_cli_def push_defaults_def io_bind_def io_lift_def io_get_def io_ret_def io_modify_def io_catch_def
        on_tcp_def on_net_def push_serve_def push_open_def push_session_def push_listen_def push_accept_def io_scope_def push_on_def
        close_connection_def io_finally_def io_catch_rethrow_def SocketFd_def)
  then have "embr_main M [prog, ''push'', f] w = Some (Ok (Exit 0), ?w5)"
    by (simp add: embr_main_def io_bind_def io_ret_def)
  moreover have s0: "sockets {#} (bad_frees (sys_net w)) w" using net(3) by (simp add: sockets_def)
  have np: "p_transport opts \<noteq> ''quic''" if "[''push'', f] = g # a # args" "push_flags push_defaults args = Ok (Inl opts)"
    for g a args opts using that by (auto simp: push_defaults_def)
  from wpD [OF push_cli_wp [OF s0 np] cli]
  have "held (sys_net ?w5) = [] \<and> bad_frees (sys_net ?w5) = bad_frees (sys_net w)"
    by (simp add: settles_def sockets_def)
  moreover have "sys_tcp ?w5 = w3\<lparr>pipe_open := False, pipe_buf := []\<rparr>"
    by (simp add: close_socket_def close_resources_def)
  ultimately show ?thesis using w3 by (intro exI [of _ ?w5]) (simp add: tidy_def later_def)
qed

section \<open>A pull from the command line\<close>

text \<open>C2: \<^verbatim>\<open>embr pull IP --out p\<close> delivers: with the sender reachable and answering as push does, the
  program ends with exit code 0, the file at \<open>p\<close> is the sender's byte for byte, no partial file is
  left, every descriptor is as before and the socket that was opened is closed once.\<close>

theorem embr_pull_delivers:
  assumes ip: "is_ipv4 ip" and p: "p \<noteq> []"
    and url: "resolve_tracker_url (sys_env w) [] (sys_tcp w) = Some (Ok url, sys_tcp w)"
    and dial: "tcp_connect ip EMBR_PORT (sys_net w) = Some (Ok fd, net)" and "held (sys_net w) = []"
    and meta: "describes meta data" "msg_ok (meta_msg meta)" "hashed (m_evp M) data (chunk_hashes meta)"
    and data: "data \<noteq> []" "length data < 2 ^ 63"
    and pull: "tcp_inv (sys_tcp w)" "wf_fds (sys_tcp w)" "resume_sound (sys_tcp w) p meta data"
    and peer: "sock_in (sys_tcp w) = Push.answers data meta (needed_chunks (start_cm (sys_tcp w) p meta))"
    and env: "fair (sys_tcp w)" "run_pull_cost meta (length (needed_chunks (start_cm (sys_tcp w) p meta))) \<le> fuel (sys_tcp w)"
  shows "\<exists>w'. embr_main M [prog, ''pull'', ip, ''--out'', p] w = Some (Ok (Exit 0), w') \<and>
    files (sys_tcp w') p = Some data \<and> files (sys_tcp w') (path_for p) = None \<and> only_output p (sys_tcp w) (sys_tcp w') \<and>
    held (sys_net w') = [] \<and> bad_frees (sys_net w') = bad_frees (sys_net w)"
proof -
  let ?wr = "sys_tcp w" and ?idxs = "needed_chunks (start_cm (sys_tcp w) p meta)"
  let ?Q = "\<lambda>r w'. r = Ok () \<and> only_output p ?wr w' \<and> files w' p = Some data \<and> files w' (path_for p) = None"
  have "wp False (run_pull (m_evp M) TcpTransport p) ?Q ?wr"
  proof (rule tcp.run_pull_wp [OF pull(1,2), where ?meta0.0 = meta and n = 0 and s = "[]" and data = data], goal_cases)
    case 1
    then show ?case using env p by (simp add: ready_def target_def)
  next
    case 2
    then show ?case using meta data peer p by (simp add: target_def)
  next
    case (3 w1 msg m s' c cm c')
    have t: "target p x = p" for x using p by (simp add: target_def)
    have m: "m = meta" "cm = start_cm ?wr p meta" "\<forall>i \<in> set (needed_chunks cm). part meta c' i = part meta data i"
      using 3(9) t by auto
    show ?case using pulled_all [OF meta(1,3) pull(3) 3(6) [unfolded t m(1)] 3(7) [unfolded t m(1)] m(3)] 3(5) t m by simp
  qed simp_all
  then obtain t where run: "run_pull (m_evp M) TcpTransport p ?wr = Some (Ok (), t)" and t: "?Q (Ok ()) t"
    by (auto simp: wp_total)
  let ?w1 = "w\<lparr>sys_net := net, sys_tcp := t\<lparr>pipe_open := False, pipe_buf := []\<rparr>\<rparr>"
  let ?w2 = "close_resources [(Socket_fd, fd)] ?w1"
  have flags: "pull_flags pull_defaults [''--out'', p] = Ok (Inl (pull_defaults\<lparr>l_out := p\<rparr>))" by simp
  have "run_pull_cli M [''pull'', ip, ''--out'', p] w = Some (Ok 0, ?w2)"
    using dial run url ip
    by (simp add: run_pull_cli_def flags pull_defaults_def io_bind_def io_lift_def io_get_def io_ret_def io_modify_def io_catch_def
        on_tcp_def on_net_def find_sender_def pull_connect_def io_scope_def pull_on_def close_connection_def io_finally_def)
  note cli = this
  then have "embr_main M [prog, ''pull'', ip, ''--out'', p] w = Some (Ok (Exit 0), ?w2)"
    by (simp add: embr_main_def io_bind_def io_ret_def)
  moreover have "sockets {#} (bad_frees (sys_net w)) w" using assms(5) by (simp add: sockets_def)
  from wpD [OF run_pull_cli_wp [OF this] cli]
  have "held (sys_net ?w2) = [] \<and> bad_frees (sys_net ?w2) = bad_frees (sys_net w)" by (simp add: sockets_def)
  ultimately show ?thesis using t by (intro exI [of _ ?w2]) (auto simp: close_resources_def only_output_def tidy_def later_def)
qed

text \<open>C17: every socket that pull opens, over TCP or QUIC, is closed exactly once, however it ends.\<close>

theorem pull_closes_sockets:
  assumes "run_pull_cli M argv w = Some (r, w')"
  shows "mset (held (sys_net w')) = mset (held (sys_net w)) \<and> bad_frees (sys_net w') = bad_frees (sys_net w)"
proof -
  have w: "sockets (mset (held (sys_net w))) (bad_frees (sys_net w)) w" by (simp add: sockets_def)
  from wpD [OF run_pull_cli_wp [OF w] assms] show ?thesis by (simp add: sockets_def)
qed

text \<open>C18: every socket that push opens over TCP is closed exactly once, however it ends.\<close>

theorem push_tcp_closes_sockets:
  assumes "run_push_cli M (cmd # path # args) w = Some (r, w')" and "r \<noteq> Undef"
    and "\<forall>opts. push_flags push_defaults args = Ok (Inl opts) \<longrightarrow> p_transport opts = ''tcp''"
  shows "mset (held (sys_net w')) = mset (held (sys_net w)) \<and> bad_frees (sys_net w') = bad_frees (sys_net w)"
proof -
  have w: "sockets (mset (held (sys_net w))) (bad_frees (sys_net w)) w" by (simp add: sockets_def)
  have "wp True (run_push_cli M (cmd # path # args)) (settles (mset (held (sys_net w))) (bad_frees (sys_net w))) w"
    by (rule push_cli_wp [OF w]) (use assms(3) in auto)
  from wpD [OF this assms(1)] show ?thesis using assms(2) by (simp add: settles_def sockets_def)
qed

section \<open>Witnesses\<close>

lemma sample_dial:
  "tcp_connect ''10.0.0.1'' EMBR_PORT (sys_net (sample_process [5, 1, 0])) =
     Some (Ok 7, \<lparr>held = [(Socket_fd, 7)], bad_frees = 0, next_id = 8,
       calls = [Socket_stream, No_delay 7, Inet_pton ''10.0.0.1'', Connect_to 7 ''10.0.0.1'' EMBR_PORT], answers = []\<rparr>)"
  by (simp add: sample_process_def tcp_connect_def factory_eval io_ret_def)

lemma sample_ip: "is_ipv4 ''10.0.0.1''"
  by (simp add: is_ipv4_def octet_ok_def digits_val_def is_digit_def digit_val_def)

lemma pull_end_facts: "tcp_inv pull_end" "wf_fds pull_end" "fair pull_end" "fuel pull_end = 2 ^ 27"
  by (simp_all add: pull_end_def)

lemma embr_pull_delivers_witness:
  "\<exists>w'. embr_main sample_machine [''embr'', ''pull'', ''10.0.0.1'', ''--out'', ''o''] (sample_process [5, 1, 0]) =
       Some (Ok (Exit 0), w') \<and> files (sys_tcp w') ''o'' = Some abc"
proof -
  have "\<exists>w'. embr_main sample_machine [''embr'', ''pull'', ''10.0.0.1'', ''--out'', ''o''] (sample_process [5, 1, 0]) =
       Some (Ok (Exit 0), w') \<and> files (sys_tcp w') ''o'' = Some abc \<and> files (sys_tcp w') (path_for ''o'') = None \<and>
       only_output ''o'' (sys_tcp (sample_process [5, 1, 0])) (sys_tcp w') \<and> held (sys_net w') = [] \<and>
       bad_frees (sys_net w') = bad_frees (sys_net (sample_process [5, 1, 0]))"
  proof (rule embr_pull_delivers [OF sample_ip _ _ sample_dial, where meta = abc_meta and data = abc and url = "[]"], goal_cases)
    case 2
    show ?case by (simp add: resolve_tracker_url_def read_tracker_url_def file_exists_def get_config_path_def io_bind_def io_ret_def)
  next
    case 12
    show ?case using pull_end_start one_needed by (simp add: pull_end_def)
  next
    case 14
    show ?case using pull_end_start one_needed costs(2) pull_end_facts by simp
  qed (use abc abc_meta pull_end_start pull_end_facts in \<open>simp_all add: sample_machine_def\<close>)
  then show ?thesis by blast
qed

lemma sample_refused:
  "run_pull_cli sample_machine [''pull'', ''10.0.0.1''] (sample_process [5, 1, -1]) =
     Some (Ok 1, (sample_process [5, 1, -1])\<lparr>sys_net := \<lparr>held = [], bad_frees = 0, next_id = 8,
       calls = [Socket_stream, No_delay 7, Inet_pton ''10.0.0.1'', Connect_to 7 ''10.0.0.1'' EMBR_PORT], answers = []\<rparr>\<rparr>)"
  using sample_ip
  by (simp add: run_pull_cli_def io_catch_def on_net_def on_tcp_def find_sender_def pull_connect_def pull_defaults_def
      resolve_tracker_url_def read_tracker_url_def file_exists_def get_config_path_def io_get_def io_lift_def io_ret_def
      sample_process_def tcp_connect_def factory_eval)

lemma pull_closes_sockets_witness:
  "\<exists>w'. run_pull_cli sample_machine [''pull'', ''10.0.0.1''] (sample_process [5, 1, -1]) = Some (Ok 1, w') \<and>
     length (calls (sys_net w')) = 4 \<and> held (sys_net w') = []"
  using pull_closes_sockets [OF sample_refused] sample_refused by simp

definition serving_process :: "int list \<Rightarrow> unit embr_world" where
  "serving_process as = (sample_process as)\<lparr>sys_tcp := push_end\<rparr>"

lemma serving_process [simp]: "sys_tcp (serving_process as) = push_end" "sys_env (serving_process as) = Map.empty"
  "held (sys_net (serving_process as)) = []" "bad_frees (sys_net (serving_process as)) = 0"
  by (simp_all add: serving_process_def)

lemma serving:
  "chunk_count_of 3 = 1" "abc_meta = meta_of ''f'' 3 (chunk_hashes abc_meta)" "tcp_inv push_end" "wf_fds push_end" "fair push_end"
  "files push_end ''f'' = Some abc" "sock_in push_end = frame (hs_msg []) @ requests [0]" "sock_out push_end = []"
  "cached push_end ''f'' x y z = None" "precompute_cost 1 + Suc (push_cost abc_meta [] 1) \<le> fuel push_end"
proof -
  show cnt: "chunk_count_of 3 = 1" by (simp add: chunk_count_of_def CHUNK_SIZE_def)
  show "abc_meta = meta_of ''f'' 3 (chunk_hashes abc_meta)"
    by (simp add: abc_meta_def meta_of_def cnt path_filename_def CHUNK_SIZE_def)
  have "sibling ''.embr.hash'' ''f'' \<noteq> ''f''" by (rule sibling_other)
  then show "cached push_end ''f'' x y z = None" by (simp add: cached_def push_end_def)
  show "precompute_cost 1 + Suc (push_cost abc_meta [] 1) \<le> fuel push_end"
    using abc_meta_ok(2)
    by (simp add: push_cost_def request_cost_def precompute_cost_def cache_load_cost_def cache_save_cost_def push_end_def
        HEADER_SIZE_def CHUNK_SIZE_def HASH_SIZE_def)
qed (simp_all add: push_end_def)

lemma serving_parts:
  obtains w1 w2 w3 fd where "precompute_meta toy_evp 1 [0, 0, 0] (\<lambda>_. (0, 0)) ''f'' push_end = Some (Ok abc_meta, w1)"
    "sys (sys_open ''f'' False False) w1 = Some (Ok fd, w2)" "0 \<le> fd" "run_push TcpTransport fd abc_meta w2 = Some (Ok (), w3)"
proof (rule push_parts [where data = abc and hs = "chunk_hashes abc_meta" and sz = 3 and meta = abc_meta and idxs = "[0]"
        and f = "''f''" and w = push_end and E = toy_evp and hw = 1 and sched = "[0, 0, 0]" and mtim = "\<lambda>_. (0, 0)"], goal_cases)
  case 10
  show ?case by (rule serving(2))
next
  case 11
  then show ?case using one_chunk by (simp add: serving(1))
next
  case 16
  then show ?case by (simp add: abc_meta_def)
next
  case 18
  then show ?case using serving(1,10) by simp
qed (use serving(3-9) abc abc_meta(3) toy_evp in simp_all)

lemma push_tcp_closes_sockets_witness:
  "\<exists>r w'. run_push_cli sample_machine [''push'', ''f''] (serving_process [5, 0, 0, -1]) = Some (r, w') \<and>
     length (calls (sys_net w')) = 5 \<and> held (sys_net w') = []"
proof -
  obtain w1 w2 w3 fd where r: "precompute_meta toy_evp 1 [0, 0, 0] (\<lambda>_. (0, 0)) ''f'' push_end = Some (Ok abc_meta, w1)"
    "sys (sys_open ''f'' False False) w1 = Some (Ok fd, w2)" "0 \<le> fd" by (rule serving_parts)
  have l: "tcp_listen EMBR_PORT (sys_net (serving_process [5, 0, 0, -1])) = Some (Ok 7, \<lparr>held = [(Socket_fd, 7)], bad_frees = 0,
      next_id = 8, calls = [Socket_stream, Reuse_addr 7, Bind_any 7 EMBR_PORT, Listen 7], answers = [-1]\<rparr>)"
    by (simp add: serving_process_def sample_process_def tcp_listen_def factory_eval io_ret_def)
  obtain tok where tok: "derive_token toy_evp (chunk_hashes abc_meta) = Ok tok"
    by (simp add: derive_token_def toy_evp abc_meta_def HASH_SIZE_def)
  obtain w' where run: "run_push_cli sample_machine [''push'', ''f''] (serving_process [5, 0, 0, -1]) = Some (Ok 1, w')"
      "length (calls (sys_net w')) = 5"
    using r l tok
    by (simp add: run_push_cli_def push_defaults_def io_bind_def io_lift_def io_get_def io_ret_def io_catch_def
        on_tcp_def on_net_def push_serve_def push_open_def push_listen_def push_accept_def sample_machine_def
        io_catch_rethrow_def SocketFd_def resolve_tracker_url_def read_tracker_url_def file_exists_def get_config_path_def
        tcp_accept_def acquire_def obtained_def do_call_def io_throw_def close_file_def close_socket_def close_resources_def
        releases_def release_def)
  have "mset (held (sys_net w')) = mset (held (sys_net (serving_process [5, 0, 0, -1]))) \<and>
      bad_frees (sys_net w') = bad_frees (sys_net (serving_process [5, 0, 0, -1]))"
    by (rule push_tcp_closes_sockets [OF run(1)]) (simp_all add: push_defaults_def)
  then show ?thesis using run by simp
qed

lemma embr_push_serves_witness:
  "\<exists>w'. embr_main sample_machine [''embr'', ''push'', ''f''] (serving_process [5, 0, 0, 9]) = Some (Ok (Exit 0), w') \<and>
     sock_out (sys_tcp w') = Push.answers abc abc_meta [0]"
proof -
  let ?w = "serving_process [5, 0, 0, 9]"
  have net: "tcp_listen EMBR_PORT (sys_net ?w) = Some (Ok 7, \<lparr>held = [(Socket_fd, 7)], bad_frees = 0,
      next_id = 8, calls = [Socket_stream, Reuse_addr 7, Bind_any 7 EMBR_PORT, Listen 7], answers = [9]\<rparr>)"
    "tcp_accept 7 \<lparr>held = [(Socket_fd, 7)], bad_frees = 0,
      next_id = 8, calls = [Socket_stream, Reuse_addr 7, Bind_any 7 EMBR_PORT, Listen 7], answers = [9]\<rparr> =
      Some (Ok 8, \<lparr>held = [(Socket_fd, 8), (Socket_fd, 7)], bad_frees = 0, next_id = 9,
        calls = [Socket_stream, Reuse_addr 7, Bind_any 7 EMBR_PORT, Listen 7, Accept 7, No_delay 8], answers = []\<rparr>)"
    by (simp_all add: serving_process_def sample_process_def tcp_listen_def tcp_accept_def factory_eval io_ret_def)
  have "\<exists>w'. embr_main sample_machine [''embr'', ''push'', ''f''] ?w = Some (Ok (Exit 0), w') \<and>
    sock_out (sys_tcp w') = sock_out (sys_tcp ?w) @ Push.answers abc abc_meta [0] \<and> tidy (sys_tcp ?w) (sys_tcp w') \<and>
    (\<forall>q. q \<noteq> sibling ''.embr.hash'' ''f'' \<longrightarrow> files (sys_tcp w') q = files (sys_tcp ?w) q) \<and>
    held (sys_net w') = [] \<and> bad_frees (sys_net w') = bad_frees (sys_net ?w)"
  proof (rule embr_push_serves [where hs = "chunk_hashes abc_meta" and sz = 3 and data = abc and l = 7 and c = 8, OF _ _ _ _ _ _ _ _ _ _ _ _ _ _ _ _ _ _ _ net], goal_cases)
    case 1
    then show ?case by (simp add: resolve_tracker_url_def read_tracker_url_def file_exists_def get_config_path_def io_bind_def io_ret_def)
  next
    case 11
    show ?case by (rule serving(2))
  next
    case 12
    then show ?case using one_chunk by (simp add: serving(1) sample_machine_def)
  next
    case 17
    then show ?case by (simp add: abc_meta_def)
  next
    case 19
    then show ?case using serving(1,10) by simp
  qed (use serving(3-9) abc abc_meta(3) toy_evp in \<open>simp_all add: sample_machine_def\<close>)
  then show ?thesis using serving(8) by auto
qed

end
