(* ===== verification/Erasure_Cost.thy ===== *)
theory Erasure_Cost
  imports Ownership
begin

text \<open>
  \<^verbatim>\<open>bench/erasure_cost.cpp\<close>: \<^verbatim>\<open>RawBuf\<close>, the owner with a function pointer that the benchmark compares
  with \<^verbatim>\<open>Buffer\<close>, the self-test both go through, and the loops that are timed. \<^verbatim>\<open>RawBuf\<close> is another
  instance of \<open>unique_owner\<close>, and any program does the same with either.
\<close>

section \<open>The pool\<close>

text \<open>The indices returned to the pool, and whether a null pool was used.\<close>

record pool =
  free_list :: "u32 list"
  null_pool :: bool

definition pool_release :: "u32 \<Rightarrow> pool \<Rightarrow> pool" where
  "pool_release i pool = pool\<lparr>free_list := free_list pool @ [i]\<rparr>"

record release_ctx =
  c_pool :: "unit option"
  c_index :: u32

definition no_ctx :: release_ctx where
  "no_ctx = \<lparr>c_pool = None, c_index = 0\<rparr>"

definition pool_rel :: "release_ctx \<Rightarrow> nat \<Rightarrow> pool \<Rightarrow> pool" where
  "pool_rel c p w =
     (case c_pool c of Some _ \<Rightarrow> pool_release (c_index c) w | None \<Rightarrow> w\<lparr>null_pool := True\<rparr>)"

section \<open>The owner with a function pointer\<close>

record 'w raw_buf =
  r_ptr :: "nat option"
  r_size :: nat
  r_rel :: "(release_ctx \<Rightarrow> nat \<Rightarrow> 'w \<Rightarrow> 'w) option"
  r_ctx :: release_ctx

definition Raw_none :: "'w raw_buf" where
  "Raw_none = \<lparr>r_ptr = None, r_size = 0, r_rel = None, r_ctx = no_ctx\<rparr>"

definition RawBuf :: "nat option \<Rightarrow> nat \<Rightarrow> (release_ctx \<Rightarrow> nat \<Rightarrow> 'w \<Rightarrow> 'w) option \<Rightarrow> release_ctx \<Rightarrow> 'w raw_buf" where
  "RawBuf p n r c = \<lparr>r_ptr = p, r_size = n, r_rel = r, r_ctx = c\<rparr>"

definition raw_release :: "'w raw_buf \<Rightarrow> 'w \<Rightarrow> 'w" where
  "raw_release b w = (case (r_ptr b, r_rel b) of (Some p, Some r) \<Rightarrow> r (r_ctx b) p w | _ \<Rightarrow> w)"

definition raw_reset :: "'w raw_buf \<Rightarrow> 'w \<Rightarrow> 'w raw_buf \<times> 'w" where
  "raw_reset b w = (b\<lparr>r_ptr := None, r_size := 0, r_rel := None, r_ctx := no_ctx\<rparr>, raw_release b w)"

text \<open>The taker and what is left of the other object.\<close>

definition raw_take :: "'w raw_buf \<Rightarrow> 'w raw_buf \<Rightarrow> 'w raw_buf \<times> 'w raw_buf" where
  "raw_take this other =
     (this\<lparr>r_ptr := r_ptr other, r_size := r_size other, r_rel := r_rel other, r_ctx := r_ctx other\<rparr>,
      other\<lparr>r_ptr := None, r_size := 0, r_rel := None, r_ctx := no_ctx\<rparr>)"

definition raw_move :: "'w raw_buf \<Rightarrow> 'w raw_buf \<times> 'w raw_buf" where
  "raw_move other = raw_take Raw_none other"

definition raw_assign :: "'w raw_buf \<Rightarrow> 'w raw_buf \<Rightarrow> 'w \<Rightarrow> 'w raw_buf \<times> 'w raw_buf \<times> 'w" where
  "raw_assign this other w =
     (let (this, w) = raw_reset this w; (this, other) = raw_take this other in (this, other, w))"

definition raw_destroy :: "'w raw_buf \<Rightarrow> 'w \<Rightarrow> 'w" where
  "raw_destroy b w = snd (raw_reset b w)"

section \<open>The self-test\<close>

text \<open>What the template uses of an owner: construction, moves, destruction.\<close>

record ('o, 'w) owner_type =
  o_none :: 'o
  o_make :: "u32 \<Rightarrow> 'o"
  o_move :: "'o \<Rightarrow> 'o \<times> 'o"
  o_assign :: "'o \<Rightarrow> 'o \<Rightarrow> 'w \<Rightarrow> 'o \<times> 'o \<times> 'w"
  o_destroy :: "'o \<Rightarrow> 'w \<Rightarrow> 'w"

text \<open>\<^verbatim>\<open>abort\<close> is \<open>None\<close>.\<close>

definition expect_releases :: "pool \<Rightarrow> u32 list \<Rightarrow> pool option" where
  "expect_releases pool expected = (if free_list pool = expected then Some pool else None)"

text \<open>\<^verbatim>\<open>dst = Owner{}\<close>: the temporary is destroyed at the end of the statement.\<close>

definition retire :: "('o, 'w) owner_type \<Rightarrow> 'o \<Rightarrow> 'w \<Rightarrow> 'o \<times> 'w" where
  "retire T dst w = (let (dst, tmp, w) = o_assign T dst (o_none T) w in (dst, o_destroy T tmp w))"

definition replace_by :: "('o, 'w) owner_type \<Rightarrow> 'o \<Rightarrow> 'o \<Rightarrow> 'w \<Rightarrow> 'o \<times> 'w" where
  "replace_by T dst new w = (let (dst, tmp, w) = o_assign T dst new w in (dst, o_destroy T tmp w))"

definition check_lifetime :: "('o, pool) owner_type \<Rightarrow> pool \<Rightarrow> pool option" where
  "check_lifetime T pool =
     (let pool = pool\<lparr>free_list := []\<rparr>; dst = o_make T 2; src = o_make T 7; (moved, src) = o_move T src
      in Option.bind (expect_releases pool []) (\<lambda>pool.
      let (dst, moved, pool) = o_assign T dst moved pool
      in Option.bind (expect_releases pool [2]) (\<lambda>pool.
      let pool = o_destroy T src (o_destroy T moved pool)
      in Option.bind (expect_releases pool [2]) (\<lambda>pool.
      let (dst, pool) = retire T dst pool
      in Option.bind (expect_releases pool [2, 7]) (\<lambda>pool.
      let (dst, pool) = retire T dst pool
      in Option.bind (expect_releases pool [2, 7]) (\<lambda>pool.
      let pool = o_destroy T dst pool
      in Option.bind (expect_releases pool [2, 7]) (\<lambda>pool.
      let owner = o_make T 9
      in Option.bind (expect_releases pool [2, 7]) (\<lambda>pool.
      let pool = o_destroy T owner pool
      in Option.bind (expect_releases pool [2, 7, 9]) (\<lambda>pool.
      Some (pool\<lparr>free_list := []\<rparr>))))))))))"

text \<open>The two owners, with the lambda capturing the index and the context holding it.\<close>

definition make_buffer :: "nat \<Rightarrow> u32 \<Rightarrow> u32 buffer" where
  "make_buffer slot i = Buffer_pool (Some slot) 1154 (Some i)"

definition make_raw :: "nat \<Rightarrow> u32 \<Rightarrow> pool raw_buf" where
  "make_raw slot i = RawBuf (Some slot) 1154 (Some pool_rel) \<lparr>c_pool = Some (), c_index = i\<rparr>"

definition buffer_type :: "nat \<Rightarrow> (u32 buffer, pool) owner_type" where
  "buffer_type slot = \<lparr>o_none = Buffer_none, o_make = make_buffer slot, o_move = buf_move,
     o_assign = buf_assign (\<lambda>i _. pool_release i) (\<lambda>_ w. w), o_destroy = buf_destroy (\<lambda>i _. pool_release i) (\<lambda>_ w. w)\<rparr>"

definition raw_type :: "nat \<Rightarrow> (pool raw_buf, pool) owner_type" where
  "raw_type slot = \<lparr>o_none = Raw_none, o_make = make_raw slot, o_move = raw_move, o_assign = raw_assign, o_destroy = raw_destroy\<rparr>"

section \<open>The timed loops\<close>

text \<open>One lifetime in place \<open>k AND 63\<close> of the table, and a run of them.\<close>

definition lifetime :: "('o, pool) owner_type \<Rightarrow> nat \<Rightarrow> 'o list \<times> pool \<Rightarrow> 'o list \<times> pool" where
  "lifetime T k s =
     (let i = k mod 64; (tab, pool) = s;
          (x, pool) = replace_by T (tab ! i) (o_make T (word_of_nat i)) pool;
          tab = tab[i := x];
          (x, pool) = retire T (tab ! i) pool
      in (tab[i := x], pool\<lparr>free_list := []\<rparr>))"

definition bench_loop :: "('o, pool) owner_type \<Rightarrow> nat \<Rightarrow> 'o list \<times> pool \<Rightarrow> 'o list \<times> pool" where
  "bench_loop T iters s = fold (lifetime T) [0..<iters] s"

text \<open>
  The program: a wrong command line is exit code 2, a failed self-test aborts; a round times both
  owners, in alternating order. The tables live as long as the program.
\<close>

definition erasure_round ::
    "nat \<Rightarrow> nat \<Rightarrow> nat \<Rightarrow> u32 buffer list \<times> pool raw_buf list \<times> pool \<Rightarrow> u32 buffer list \<times> pool raw_buf list \<times> pool" where
  "erasure_round slot iters k s =
     (case s of (inflight, rawfl, pool) \<Rightarrow>
        if even k
        then (let (inflight, pool) = bench_loop (buffer_type slot) iters (inflight, pool);
                  (rawfl, pool) = bench_loop (raw_type slot) iters (rawfl, pool) in (inflight, rawfl, pool))
        else (let (rawfl, pool) = bench_loop (raw_type slot) iters (rawfl, pool);
                  (inflight, pool) = bench_loop (buffer_type slot) iters (inflight, pool) in (inflight, rawfl, pool)))"

definition erasure_main :: "nat \<Rightarrow> string list \<Rightarrow> pool \<Rightarrow> (int \<times> pool) option" where
  "erasure_main slot argv pool =
     (let check_only = length argv = 2 \<and> argv ! 1 = ''--check-only''
      in if length argv \<noteq> 1 \<and> \<not> check_only then Some (2, pool)
         else Option.bind (check_lifetime (buffer_type slot) pool) (\<lambda>pool.
              Option.bind (check_lifetime (raw_type slot) pool) (\<lambda>pool.
              if check_only then Some (0, pool)
              else (let s = erasure_round slot 1000000 0 (replicate 64 Buffer_none, replicate 64 Raw_none, pool);
                        (inflight, rawfl, pool) = fold (erasure_round slot 20000000) [0..<10] s
                    in Some (0, pool)))))"

section \<open>The contract of an owner\<close>

definition log_rel :: "release_ctx \<Rightarrow> nat \<Rightarrow> u32 list \<Rightarrow> u32 list" where
  "log_rel c p l = l @ [c_index c]"

definition logged :: "u32 list raw_buf \<Rightarrow> bool" where
  "logged b \<longleftrightarrow> r_rel b = None \<or> r_rel b = Some log_rel"

definition raw_drop :: "u32 list raw_buf \<Rightarrow> u32 list" where
  "raw_drop b = raw_destroy b []"

definition raw_replace :: "u32 list raw_buf \<Rightarrow> u32 list raw_buf \<Rightarrow> u32 list raw_buf \<times> u32 list raw_buf \<times> u32 list" where
  "raw_replace this other = raw_assign this other []"

lemmas raw_defs = raw_drop_def raw_destroy_def raw_reset_def raw_release_def raw_replace_def raw_assign_def raw_take_def
  raw_move_def Raw_none_def RawBuf_def

interpretation raws: unique_owner raw_drop raw_move raw_replace logged
proof (unfold_locales, goal_cases)
  case (2 x y z)
  then show ?case by (auto simp: raw_defs split: option.splits)
next
  case (4 d x d' x' out)
  then show ?case by (auto simp: raw_defs Let_def split: option.splits)
qed (auto simp: raw_defs logged_def)

section \<open>Programs over an owner\<close>

datatype owner_step = New u32 | New_empty | Move_from nat | Assign nat nat | Drop nat

text \<open>Objects have numbers; \<open>None\<close> is a use of a number without an object.\<close>

fun owner_do :: "('o, 'w) owner_type \<Rightarrow> owner_step \<Rightarrow> 'o option list \<times> 'w \<Rightarrow> ('o option list \<times> 'w) option" where
  "owner_do T (New i) (xs, w) = Some (xs @ [Some (o_make T i)], w)"
| "owner_do T New_empty (xs, w) = Some (xs @ [Some (o_none T)], w)"
| "owner_do T (Move_from k) (xs, w) =
     (if k < length xs then
        case xs ! k of None \<Rightarrow> None | Some x \<Rightarrow> (let (y, z) = o_move T x in Some (xs[k := Some z] @ [Some y], w))
      else None)"
| "owner_do T (Assign j k) (xs, w) =
     (if j < length xs \<and> k < length xs then
        case (xs ! j, xs ! k) of
          (Some d, Some x) \<Rightarrow>
            if j = k then Some (xs, w)
            else (let (d', x', w) = o_assign T d x w in Some (xs[j := Some d', k := Some x'], w))
        | _ \<Rightarrow> None
      else None)"
| "owner_do T (Drop k) (xs, w) =
     (if k < length xs then
        case xs ! k of None \<Rightarrow> None | Some x \<Rightarrow> Some (xs[k := None], o_destroy T x w)
      else None)"

primrec owner_run :: "('o, 'w) owner_type \<Rightarrow> owner_step list \<Rightarrow> 'o option list \<times> 'w \<Rightarrow> ('o option list \<times> 'w) option" where
  "owner_run T [] s = Some s"
| "owner_run T (p # ps) s = Option.bind (owner_do T p s) (owner_run T ps)"

text \<open>The \<^verbatim>\<open>RawBuf\<close> that stands for a \<^verbatim>\<open>Buffer\<close> over a foreign pointer.\<close>

definition raw_of :: "u32 buffer \<Rightarrow> pool raw_buf" where
  "raw_of b = RawBuf (b_ptr b) (b_size b) (map_option (\<lambda>_. pool_rel) (b_release b))
     (case b_release b of None \<Rightarrow> no_ctx | Some i \<Rightarrow> \<lparr>c_pool = Some (), c_index = i\<rparr>)"

definition foreign :: "u32 buffer option \<Rightarrow> bool" where
  "foreign x \<longleftrightarrow> (\<forall>b. x = Some b \<longrightarrow> b_owned b = None)"

lemma raw_of_ops:
  assumes "b_owned d = None" and "b_owned x = None"
  shows "raw_destroy (raw_of x) w = buf_destroy (\<lambda>i _. pool_release i) (\<lambda>_ w. w) x w"
    and "raw_move (raw_of x) = (raw_of (fst (buf_move x)), raw_of (snd (buf_move x)))"
    and "raw_assign (raw_of d) (raw_of x) w =
      (let (d', x', w) = buf_assign (\<lambda>i _. pool_release i) (\<lambda>_ w. w) d x w in (raw_of d', raw_of x', w))"
  using assms
  by (auto simp: raw_defs raw_of_def buf_destroy_def buf_move_def buf_assign_def free_owned_def run_release_def Let_def
      pool_rel_def split: option.split)

lemma raw_of_made: "raw_of (make_buffer slot i) = make_raw slot i" "raw_of Buffer_none = Raw_none"
  by (simp_all add: raw_of_def make_buffer_def make_raw_def Buffer_pool_def Buffer_none_def Raw_none_def RawBuf_def)

lemma foreign_ops:
  assumes "foreign (Some d)" and "foreign (Some x)"
  shows "foreign (Some (fst (buf_move x)))" "foreign (Some (snd (buf_move x)))"
    "buf_assign r f d x w = (d', x', w') \<Longrightarrow> foreign (Some d') \<and> foreign (Some x')"
  using assms by (auto simp: foreign_def buf_move_def buf_assign_def Let_def)

definition mirrored :: "(u32 buffer option list \<times> pool) option \<Rightarrow> (pool raw_buf option list \<times> pool) option" where
  "mirrored s = map_option (\<lambda>(xs, w). (map (map_option raw_of) xs, w)) s"

lemma foreign_update:
  assumes "\<forall>x \<in> set xs. foreign x" and "foreign y"
  shows "\<forall>x \<in> set (xs[k := y]). foreign x"
  using set_update_subset_insert [of xs k y] assms by blast

lemma owner_do_mirrored:
  assumes xs: "\<forall>x \<in> set xs. foreign x"
  shows "owner_do (raw_type slot) p (map (map_option raw_of) xs, w) = mirrored (owner_do (buffer_type slot) p (xs, w))"
    and "owner_do (buffer_type slot) p (xs, w) = Some (ys, v) \<Longrightarrow> \<forall>y \<in> set ys. foreign y"
proof -
  have f: "b_owned b = None" if "k < length xs" "xs ! k = Some b" for k b
    using nth_mem [OF that(1)] xs that(2) by (auto simp: foreign_def)
  have n: "foreign None" by (simp add: foreign_def)
  show "owner_do (raw_type slot) p (map (map_option raw_of) xs, w) = mirrored (owner_do (buffer_type slot) p (xs, w))"
  proof (cases p)
    case (Move_from k)
    show ?thesis
    proof (cases "k < length xs \<and> xs ! k \<noteq> None")
      case True
      then obtain x where k: "k < length xs" "xs ! k = Some x" by blast
      note mv = raw_of_ops(2) [OF f [OF k] f [OF k]]
      show ?thesis using k Move_from mv
        by (simp add: mirrored_def raw_type_def buffer_type_def map_update case_prod_unfold Let_def)
    next
      case False
      then show ?thesis using Move_from by (auto simp: mirrored_def)
    qed
  next
    case (Assign j k)
    show ?thesis
    proof (cases "j < length xs \<and> k < length xs \<and> xs ! j \<noteq> None \<and> xs ! k \<noteq> None")
      case True
      then obtain d x where k: "j < length xs" "xs ! j = Some d" "k < length xs" "xs ! k = Some x" by blast
      note as = raw_of_ops(3) [OF f [OF k(1,2)] f [OF k(3,4)], of w]
      show ?thesis using k Assign as
        by (simp add: mirrored_def raw_type_def buffer_type_def map_update case_prod_unfold Let_def)
    next
      case False
      then show ?thesis using Assign by (auto simp: mirrored_def split: option.split)
    qed
  next
    case (Drop k)
    show ?thesis
    proof (cases "k < length xs \<and> xs ! k \<noteq> None")
      case True
      then obtain x where k: "k < length xs" "xs ! k = Some x" by blast
      show ?thesis using k Drop raw_of_ops(1) [OF f [OF k] f [OF k], of w]
        by (simp add: mirrored_def raw_type_def buffer_type_def map_update)
    next
      case False
      then show ?thesis using Drop by (auto simp: mirrored_def)
    qed
  qed (simp_all add: mirrored_def raw_type_def buffer_type_def raw_of_made)
  assume run: "owner_do (buffer_type slot) p (xs, w) = Some (ys, v)"
  show "\<forall>y \<in> set ys. foreign y"
  proof (cases p)
    case (New i)
    then show ?thesis using run xs by (auto simp: buffer_type_def make_buffer_def Buffer_pool_def foreign_def)
  next
    case New_empty
    then show ?thesis using run xs by (auto simp: buffer_type_def Buffer_none_def foreign_def)
  next
    case (Move_from k)
    then obtain x where k: "k < length xs" "xs ! k = Some x"
        "ys = xs[k := Some (snd (buf_move x))] @ [Some (fst (buf_move x))]"
      using run by (auto simp: buffer_type_def buf_move_def Let_def split: if_splits option.splits)
    have x: "foreign (Some x)" using f [OF k(1,2)] by (simp add: foreign_def)
    show ?thesis unfolding k(3) using foreign_update [OF xs foreign_ops(2) [OF x x]] foreign_ops(1) [OF x x]
      by (simp add: ball_Un)
  next
    case (Assign j k)
    show ?thesis
    proof (cases "j = k")
      case True
      then show ?thesis using run xs Assign by (auto split: if_splits option.splits)
    next
      case False
      then obtain d x d' x' where k: "j < length xs" "xs ! j = Some d" "k < length xs" "xs ! k = Some x"
          "buf_assign (\<lambda>i _. pool_release i) (\<lambda>_ w. w) d x w = (d', x', v)" "ys = xs[j := Some d', k := Some x']"
        using run Assign by (auto simp: buffer_type_def Let_def split: if_splits option.splits prod.splits)
      have "foreign (Some d')" "foreign (Some x')"
        using foreign_ops(3) [of d x, OF _ _ k(5)] f [OF k(1,2)] f [OF k(3,4)] by (simp_all add: foreign_def)
      then show ?thesis unfolding k(6) by (intro foreign_update xs)
    qed
  next
    case (Drop k)
    then obtain x where "ys = xs[k := None]" using run by (auto split: if_splits option.splits)
    then show ?thesis using foreign_update [OF xs n] by simp
  qed
qed

text \<open>C40: Any program that makes, moves, assigns, empties and destroys owners of pool slots returns the
  same indices to the pool in the same order whether the owner is a \<^verbatim>\<open>Buffer\<close> with a callback or a
  \<^verbatim>\<open>RawBuf\<close> with a function pointer, and leaves corresponding objects.\<close>

theorem raw_buf_equals_buffer:
  "owner_run (raw_type slot) ps ([], w) = mirrored (owner_run (buffer_type slot) ps ([], w))"
proof -
  have "owner_run (raw_type slot) ps (map (map_option raw_of) xs, w) = mirrored (owner_run (buffer_type slot) ps (xs, w))"
    if "\<forall>x \<in> set xs. foreign x" for xs
    using that
  proof (induction ps arbitrary: xs w)
    case Nil
    then show ?case by (simp add: mirrored_def)
  next
    case (Cons p ps)
    show ?case
    proof (cases "owner_do (buffer_type slot) p (xs, w)")
      case None
      then show ?thesis using owner_do_mirrored(1) [OF Cons.prems, of slot p w] by (simp add: mirrored_def)
    next
      case (Some s)
      obtain ys v where s: "s = (ys, v)" by (cases s)
      have "\<forall>y \<in> set ys. foreign y" using owner_do_mirrored(2) [OF Cons.prems] Some s by blast
      from Cons.IH [OF this, of v] show ?thesis
        using owner_do_mirrored(1) [OF Cons.prems, of slot p w] Some s by (simp add: mirrored_def)
    qed
  qed
  from this [of "[]"] show ?thesis by simp
qed

section \<open>The self-test and the loops\<close>

lemmas erasure_eval = check_lifetime_def buffer_type_def raw_type_def retire_def replace_by_def expect_releases_def
  make_buffer_def make_raw_def Buffer_pool_def Buffer_none_def buf_move_def buf_assign_def buf_destroy_def
  run_release_def free_owned_def pool_release_def pool_rel_def raw_move_def raw_assign_def raw_destroy_def raw_reset_def
  raw_release_def raw_take_def Raw_none_def RawBuf_def Let_def

text \<open>The self-test passes for both owners, and no null pool is ever used.\<close>

lemma check_lifetime_passes:
  "check_lifetime (buffer_type slot) pool = Some (pool\<lparr>free_list := []\<rparr>) \<and>
   check_lifetime (raw_type slot) pool = Some (pool\<lparr>free_list := []\<rparr>)"
  by (simp add: erasure_eval)

text \<open>The timed loops leave the table and the pool as they were, however long they run.\<close>

lemma bench_loop_neutral:
  "bench_loop (buffer_type slot) n (replicate 64 Buffer_none, pool\<lparr>free_list := []\<rparr>) =
     (replicate 64 Buffer_none, pool\<lparr>free_list := []\<rparr>) \<and>
   bench_loop (raw_type slot) n (replicate 64 Raw_none, pool\<lparr>free_list := []\<rparr>) =
     (replicate 64 Raw_none, pool\<lparr>free_list := []\<rparr>)"
proof -
  have b: "lifetime (buffer_type slot) k (replicate 64 Buffer_none, pool\<lparr>free_list := []\<rparr>) =
      (replicate 64 Buffer_none, pool\<lparr>free_list := []\<rparr>)" for k
    by (simp add: lifetime_def erasure_eval list_update_same_conv)
  have r: "lifetime (raw_type slot) k (replicate 64 Raw_none, pool\<lparr>free_list := []\<rparr>) =
      (replicate 64 Raw_none, pool\<lparr>free_list := []\<rparr>)" for k
    by (simp add: lifetime_def erasure_eval list_update_same_conv)
  have "fold (lifetime (buffer_type slot)) ks (replicate 64 Buffer_none, pool\<lparr>free_list := []\<rparr>) =
      (replicate 64 Buffer_none, pool\<lparr>free_list := []\<rparr>)" for ks
    by (induction ks) (simp_all add: b)
  moreover have "fold (lifetime (raw_type slot)) ks (replicate 64 Raw_none, pool\<lparr>free_list := []\<rparr>) =
      (replicate 64 Raw_none, pool\<lparr>free_list := []\<rparr>)" for ks
    by (induction ks) (simp_all add: r)
  ultimately show ?thesis by (simp add: bench_loop_def)
qed

text \<open>The program never aborts: it refuses a wrong command line with exit code 2 and ends with exit code 0
  otherwise, with the pool empty and no null pool used, however many lifetimes it runs.\<close>

theorem erasure_main_passes:
  "erasure_main slot argv pool =
     (if length argv = 1 \<or> length argv = 2 \<and> argv ! 1 = ''--check-only'' then Some (0, pool\<lparr>free_list := []\<rparr>)
      else Some (2, pool))"
proof -
  let ?s = "(replicate 64 Buffer_none, replicate 64 Raw_none, pool\<lparr>free_list := []\<rparr>)"
  have r: "erasure_round slot n k ?s = ?s" for n k
    using bench_loop_neutral [of slot n pool] by (simp add: erasure_round_def)
  have "fold (erasure_round slot n) ks ?s = ?s" for n ks
    by (induction ks) (simp_all add: r)
  then show ?thesis using check_lifetime_passes [of slot pool] check_lifetime_passes [of slot "pool\<lparr>free_list := []\<rparr>"] r
    by (simp add: erasure_main_def Let_def)
qed

end
