(* ===== verification/Latency_Stats.thy ===== *)
theory Latency_Stats
  imports Embr_Prelude
begin

text \<open>
  The statistics of \<^verbatim>\<open>src/bench/latency.hpp\<close> and the reports of \<^verbatim>\<open>src/bench/latency.cpp\<close>: the
  histogram with logarithmic buckets, and the percentiles of a sorted sample. Times are in
  nanoseconds; what the reports print is given as numbers, without the scaling to other units.
\<close>

section \<open>Doubles\<close>

text \<open>
  \<^verbatim>\<open>static_cast<size_t>(p * static_cast<double>(n))\<close> with \<open>p\<close> below 1: \<open>p\<close> stands for the double
  \<open>p / 2 ^ 53\<close>, and \<open>round53\<close> rounds to 53 significant bits, to nearest, ties to even.
\<close>

fun bit_count :: "nat \<Rightarrow> nat" where
  "bit_count n = (if n = 0 then 0 else Suc (bit_count (n div 2)))"

declare bit_count.simps [simp del]

definition round53 :: "nat \<Rightarrow> nat" where
  "round53 x =
     (let e = bit_count x - 53; q = x div 2 ^ e; r = x mod 2 ^ e
      in (if 2 ^ e < 2 * r \<or> 2 * r = 2 ^ e \<and> odd q then q + 1 else q) * 2 ^ e)"

definition trunc_mul :: "nat \<Rightarrow> nat \<Rightarrow> nat" where
  "trunc_mul p n = round53 (p * round53 n) div 2 ^ 53"

text \<open>The doubles nearest to 0.50, 0.90, 0.99 and 0.999.\<close>

definition P50 :: nat where "P50 = 4503599627370496"
definition P90 :: nat where "P90 = 8106479329266893"
definition P99 :: nat where "P99 = 8917127262193582"
definition P999 :: nat where "P999 = 8998192055486251"

lemmas percents = P50_def P90_def P99_def P999_def

text \<open>
  \<^verbatim>\<open>std::log(v) / std::log(1.02)\<close> truncated, and \<^verbatim>\<open>std::pow(1.02, i)\<close> truncated, with exact arithmetic.
  For the buckets of a histogram doubles give the same: of the boundaries up to \<open>1.02 ^ 512\<close> the one
  nearest to an integer, \<open>1.02 ^ 35\<close>, is \<open>0.0001\<close> away from it, far more than what rounding moves it.
\<close>

definition log_floor :: "nat \<Rightarrow> nat" where
  "log_floor v = length (takeWhile (\<lambda>i. 102 ^ i \<le> v * 100 ^ i) [1..<4096])"

definition pow_floor :: "nat \<Rightarrow> nat" where
  "pow_floor i = 102 ^ i div 100 ^ i"

section \<open>The histogram\<close>

definition NUM_BUCKETS :: nat where "NUM_BUCKETS = 512"

record histogram =
  counts :: "u64 list"
  total :: u64
  sum_ns :: u64

definition Histogram :: histogram where
  "Histogram = \<lparr>counts = replicate NUM_BUCKETS 0, total = 0, sum_ns = 0\<rparr>"

definition bucket_of :: "u64 \<Rightarrow> nat" where
  "bucket_of value_ns =
     (if value_ns > 0
      then let bucket = log_floor (unat value_ns) in if bucket \<ge> NUM_BUCKETS then NUM_BUCKETS - 1 else bucket
      else 0)"

definition hist_record :: "histogram \<Rightarrow> u64 \<Rightarrow> histogram" where
  "hist_record h value_ns =
     (let b = bucket_of value_ns
      in h\<lparr>counts := (counts h)[b := counts h ! b + 1], total := total h + 1, sum_ns := sum_ns h + value_ns\<rparr>)"

primrec percentile_scan :: "u64 \<Rightarrow> u64 \<Rightarrow> nat \<Rightarrow> u64 list \<Rightarrow> u64" where
  "percentile_scan goal cumulative i [] = word_of_nat (pow_floor (NUM_BUCKETS - 1))"
| "percentile_scan goal cumulative i (c # cs) =
     (let cumulative = cumulative + c
      in if cumulative > goal then word_of_nat (pow_floor i) else percentile_scan goal cumulative (Suc i) cs)"

definition percentile :: "histogram \<Rightarrow> nat \<Rightarrow> u64" where
  "percentile h p =
     (if total h = 0 then 0
      else percentile_scan (word_of_nat (trunc_mul p (unat (total h)))) 0 0 (counts h))"

definition hist_mean :: "histogram \<Rightarrow> u64" where
  "hist_mean h = (if total h > 0 then sum_ns h div total h else 0)"

section \<open>The reports\<close>

record short_results =
  peer_connect_ns :: "u64 list"
  ttfc_ns :: "u64 list"
  s_file_size :: u64
  s_chunk_count :: u32

record full_results =
  completion_ns :: "u64 list"
  verify_ns :: histogram
  f_file_size :: u64
  f_chunk_count :: u32

definition sorted_pct :: "u64 list \<Rightarrow> nat \<Rightarrow> u64" where
  "sorted_pct v p = (if v = [] then 0 else sort v ! min (trunc_mul p (length v)) (length v - 1))"

text \<open>\<^verbatim>\<open>*std::max_element\<close> and \<^verbatim>\<open>back()\<close>: undefined for an empty vector.\<close>

definition max_element :: "u64 list \<Rightarrow> u64 res" where
  "max_element v = (if v = [] then Undef else Ok (Max (set v)))"

definition vec_back :: "u64 list \<Rightarrow> u64 res" where
  "vec_back v = (if v = [] then Undef else Ok (last v))"

text \<open>The numbers printed, in the order of the lines.\<close>

definition print_short_results :: "short_results \<Rightarrow> u64 list res" where
  "print_short_results results =
     res_bind (max_element (peer_connect_ns results)) (\<lambda>m.
     res_bind (max_element (ttfc_ns results)) (\<lambda>n.
     Ok [sorted_pct (peer_connect_ns results) P50, sorted_pct (peer_connect_ns results) P99, m,
         sorted_pct (ttfc_ns results) P50, sorted_pct (ttfc_ns results) P99, n]))"

definition print_full_results :: "full_results \<Rightarrow> u64 list res" where
  "print_full_results results =
     (let completion = sort (completion_ns results)
      in res_bind (vec_back completion) (\<lambda>m.
         Ok [sorted_pct (completion_ns results) P50, sorted_pct (completion_ns results) P90, m,
             percentile (verify_ns results) P50, percentile (verify_ns results) P99, hist_mean (verify_ns results)]))"

section \<open>Rounding\<close>

lemma bit_count_bound: "n < 2 ^ k \<Longrightarrow> bit_count n \<le> k"
proof (induction k arbitrary: n)
  case 0
  then show ?case by (simp add: bit_count.simps)
next
  case (Suc k)
  then have "n div 2 < 2 ^ k" by simp
  from Suc.IH [OF this] show ?case by (subst bit_count.simps) simp
qed

lemma bit_count_1 [simp]: "bit_count (Suc 0) = 1"
  by (subst bit_count.simps) (simp add: bit_count.simps [of 0])

lemma bit_count_large: "n \<noteq> 0 \<Longrightarrow> 2 ^ bit_count n \<le> 2 * n"
proof (induction n rule: bit_count.induct)
  case (1 n)
  show ?case
  proof (cases "n div 2 = 0")
    case True
    then have "n = 1" using 1(2) by (simp add: div_eq_0_iff)
    then show ?thesis by simp
  next
    case False
    from 1(1) [OF 1(2) this] have "2 ^ bit_count (n div 2) \<le> 2 * (n div 2)" .
    then show ?thesis using 1(2) by (subst bit_count.simps) simp
  qed
qed

lemma round53_small [simp]: "x < 2 ^ 53 \<Longrightarrow> round53 x = x"
  using bit_count_bound [of x 53] by (simp add: round53_def Let_def)

text \<open>Rounding errs by less than one part in \<open>2 ^ 52\<close>.\<close>

lemma round53_near: "2 ^ 52 * round53 x \<le> (2 ^ 52 + 1) * x" "(2 ^ 52 - 1) * x \<le> 2 ^ 52 * round53 x"
proof -
  define e where "e = bit_count x - 53"
  define q r where "q = x div 2 ^ e" and "r = x mod 2 ^ e"
  have x: "x = q * 2 ^ e + r" "r < 2 ^ e" unfolding q_def r_def by (simp_all only: div_mult_mod_eq) simp
  have R: "round53 x = (if 2 ^ e < 2 * r \<or> 2 * r = 2 ^ e \<and> odd q then q + 1 else q) * 2 ^ e"
    by (simp add: round53_def Let_def e_def q_def r_def)
  then have d: "2 * round53 x \<le> 2 * x + 2 ^ e" "2 * x \<le> 2 * round53 x + 2 ^ e"
    using x by (auto simp: algebra_simps)
  show "2 ^ 52 * round53 x \<le> (2 ^ 52 + 1) * x" "(2 ^ 52 - 1) * x \<le> 2 ^ 52 * round53 x"
  proof (atomize (full), cases "e = 0")
    case True
    then have "round53 x = x" using x R by simp
    then show "2 ^ 52 * round53 x \<le> (2 ^ 52 + 1) * x \<and> (2 ^ 52 - 1) * x \<le> 2 ^ 52 * round53 x" by simp
  next
    case False
    then have e: "bit_count x = 53 + e" by (simp add: e_def)
    then have "x \<noteq> 0" using bit_count_bound [of 0 0] by (cases "x = 0") simp_all
    from bit_count_large [OF this] have "2 ^ 52 * 2 ^ e \<le> x" by (simp add: e power_add)
    then show "2 ^ 52 * round53 x \<le> (2 ^ 52 + 1) * x \<and> (2 ^ 52 - 1) * x \<le> 2 ^ 52 * round53 x" using d by auto
  qed
qed

text \<open>The rank stays inside the sample, and a larger share gives no smaller rank.\<close>

lemma rank_less:
  assumes "0 < n" and "n < 2 ^ 53" and "p \<le> P999"
  shows "trunc_mul p n < n"
proof -
  have "2 ^ 52 * round53 (p * n) \<le> (2 ^ 52 + 1) * (p * n)" by (rule round53_near)
  also have "\<dots> \<le> (2 ^ 52 + 1) * (P999 * n)" using assms(3) by simp
  also have "\<dots> < 2 ^ 52 * (n * 2 ^ 53)" using assms(1) by (simp add: P999_def)
  finally have "round53 (p * n) < n * 2 ^ 53" by simp
  then show ?thesis using assms(2) by (simp add: trunc_mul_def less_mult_imp_div_less)
qed

lemma rank_mono:
  assumes "n < 2 ^ 53" and "p * (2 ^ 52 + 1) \<le> q * (2 ^ 52 - 1)"
  shows "trunc_mul p n \<le> trunc_mul q n"
proof -
  have "2 ^ 52 * round53 (p * n) \<le> (2 ^ 52 + 1) * (p * n)" by (rule round53_near)
  also have "\<dots> \<le> (2 ^ 52 - 1) * (q * n)" using mult_right_mono [OF assms(2), of n] by (simp add: ac_simps)
  also have "\<dots> \<le> 2 ^ 52 * round53 (q * n)" by (rule round53_near)
  finally have "round53 (p * n) \<le> round53 (q * n)" by simp
  then show ?thesis using assms(1) by (simp add: trunc_mul_def div_le_mono)
qed

section \<open>Buckets\<close>

lemma pow_floor_mono: "i \<le> j \<Longrightarrow> pow_floor i \<le> pow_floor j"
proof (induction j)
  case (Suc j)
  have "102 ^ j div 100 ^ j = (100 * 102 ^ j) div (100 * 100 ^ j :: nat)" by (simp only: div_mult_mult1 [of 100])
  also have "\<dots> \<le> (102 * 102 ^ j) div (100 * 100 ^ j)" by (rule div_le_mono) simp
  finally have "pow_floor j \<le> pow_floor (Suc j)" by (simp add: pow_floor_def)
  then show ?case using Suc by (cases "i = Suc j") auto
qed simp

text \<open>The last boundaries, by squaring in fixed-point arithmetic.\<close>

lemma power_square:
  fixes l u l' u' :: nat
  assumes "l * 100 ^ i \<le> 102 ^ i * 10 ^ 12 \<and> 102 ^ i * 10 ^ 12 \<le> u * 100 ^ i"
    and "l' * 10 ^ 12 \<le> l * l" and "u * u \<le> u' * 10 ^ 12" and "j = 2 * i"
  shows "l' * 100 ^ j \<le> 102 ^ j * 10 ^ 12 \<and> 102 ^ j * 10 ^ 12 \<le> u' * (100 :: nat) ^ j"
proof -
  have p: "100 ^ j = 100 ^ i * (100 :: nat) ^ i" "102 ^ j = 102 ^ i * (102 :: nat) ^ i"
    unfolding assms(4) by (simp_all only: mult_2 power_add)
  have "(l' * 10 ^ 12) * 100 ^ j \<le> (l * l) * 100 ^ j" by (rule mult_le_mono1 [OF assms(2)])
  also have "\<dots> = (l * 100 ^ i) * (l * 100 ^ i)" by (simp only: p ac_simps)
  also have "\<dots> \<le> (102 ^ i * 10 ^ 12) * (102 ^ i * 10 ^ 12)" by (rule mult_le_mono) (use assms(1) in blast)+
  finally have l: "l' * 100 ^ j \<le> 102 ^ j * 10 ^ 12" by (simp add: p)
  have "(102 ^ j * 10 ^ 12) * 10 ^ 12 = (102 ^ i * 10 ^ 12) * (102 ^ i * (10 :: nat) ^ 12)" by (simp only: p ac_simps)
  also have "\<dots> \<le> (u * 100 ^ i) * (u * 100 ^ i)" by (rule mult_le_mono) (use assms(1) in blast)+
  also have "\<dots> = (u * u) * 100 ^ j" by (simp only: p ac_simps)
  also have "\<dots> \<le> (u' * 10 ^ 12) * 100 ^ j" by (rule mult_le_mono1 [OF assms(3)])
  finally show ?thesis using l by simp
qed

lemma last_powers:
  "25309 * 100 ^ 512 < (102 :: nat) ^ 512" "24813 * 100 ^ 511 \<le> (102 :: nat) ^ 511" "(102 :: nat) ^ 511 < 24814 * 100 ^ 511"
proof -
  have b1: "1020000000000 * 100 ^ 1 \<le> (102 :: nat) ^ 1 * 10 ^ 12 \<and> 102 ^ 1 * 10 ^ 12 \<le> 1020000000000 * (100 :: nat) ^ 1" by simp
  have b2: "1040400000000 * 100 ^ 2 \<le> (102 :: nat) ^ 2 * 10 ^ 12 \<and> 102 ^ 2 * 10 ^ 12 \<le> 1040400000000 * (100 :: nat) ^ 2"
    by (rule power_square [OF b1]) simp_all
  have b4: "1082432160000 * 100 ^ 4 \<le> (102 :: nat) ^ 4 * 10 ^ 12 \<and> 102 ^ 4 * 10 ^ 12 \<le> 1082432160000 * (100 :: nat) ^ 4"
    by (rule power_square [OF b2]) simp_all
  have b8: "1171659381002 * 100 ^ 8 \<le> (102 :: nat) ^ 8 * 10 ^ 12 \<and> 102 ^ 8 * 10 ^ 12 \<le> 1171659381003 * (100 :: nat) ^ 8"
    by (rule power_square [OF b4]) simp_all
  have b16: "1372785705089 * 100 ^ 16 \<le> (102 :: nat) ^ 16 * 10 ^ 12 \<and> 102 ^ 16 * 10 ^ 12 \<le> 1372785705093 * (100 :: nat) ^ 16"
    by (rule power_square [OF b8]) simp_all
  have b32: "1884540592096 * 100 ^ 32 \<le> (102 :: nat) ^ 32 * 10 ^ 12 \<and> 102 ^ 32 * 10 ^ 12 \<le> 1884540592108 * (100 :: nat) ^ 32"
    by (rule power_square [OF b16]) simp_all
  have b64: "3551493243257 * 100 ^ 64 \<le> (102 :: nat) ^ 64 * 10 ^ 12 \<and> 102 ^ 64 * 10 ^ 12 \<le> 3551493243303 * (100 :: nat) ^ 64"
    by (rule power_square [OF b32]) simp_all
  have b128: "12613104256900 * 100 ^ 128 \<le> (102 :: nat) ^ 128 * 10 ^ 12 \<and> 102 ^ 128 * 10 ^ 12 \<le> 12613104257227 * (100 :: nat) ^ 128"
    by (rule power_square [OF b64]) simp_all
  have b256: "159090398995428 * 100 ^ 256 \<le> (102 :: nat) ^ 256 * 10 ^ 12 \<and> 102 ^ 256 * 10 ^ 12 \<le> 159090399003678 * (100 :: nat) ^ 256"
    by (rule power_square [OF b128]) simp_all
  have b512: "25309755052524478 * 100 ^ 512 \<le> (102 :: nat) ^ 512 * 10 ^ 12 \<and> 102 ^ 512 * 10 ^ 12 \<le> 25309755055149470 * (100 :: nat) ^ 512"
    by (rule power_square [OF b256]) simp_all
  have "102 ^ 512 = 102 * (102 :: nat) ^ 511" "100 ^ 512 = 100 * (100 :: nat) ^ 511"
    using power_Suc [of "102 :: nat" 511] power_Suc [of "100 :: nat" 511] by (simp_all only: Suc_numeral semiring_norm)
  then have top: "25309755052524478 * (100 * 100 ^ 511) \<le> 102 * 102 ^ 511 * (10 :: nat) ^ 12"
      "102 * 102 ^ 511 * 10 ^ 12 \<le> 25309755055149470 * (100 * (100 :: nat) ^ 511)"
    using b512 by (simp_all only:)
  have pos: "0 < (100 :: nat) ^ 511" by (rule zero_less_power) simp
  note P = \<open>102 ^ 512 = 102 * (102 :: nat) ^ 511\<close> \<open>100 ^ 512 = 100 * (100 :: nat) ^ 511\<close>
  have gen: "25309 * (100 * y) < 102 * x \<and> 24813 * y \<le> x \<and> x < 24814 * y"
    if "25309755052524478 * (100 * y) \<le> 102 * x * 10 ^ 12" "102 * x * 10 ^ 12 \<le> 25309755055149470 * (100 * y)" "0 < y"
    for x y :: nat
    using that by simp
  from gen [OF top pos]
  show "25309 * 100 ^ 512 < (102 :: nat) ^ 512" "24813 * 100 ^ 511 \<le> (102 :: nat) ^ 511" "(102 :: nat) ^ 511 < 24814 * 100 ^ 511"
    unfolding P by blast+
qed

lemma pow_floor_last: "pow_floor 511 = 24813"
  unfolding pow_floor_def by (rule div_nat_eqI) (use last_powers(2,3) in \<open>simp_all only: mult.commute Suc_numeral semiring_norm\<close>)

lemma ratio_mono: "i \<le> j \<Longrightarrow> 102 ^ j \<le> v * 100 ^ j \<Longrightarrow> 102 ^ i \<le> v * 100 ^ (i :: nat)" for v :: nat
proof (induction j)
  case (Suc j)
  have "100 * 102 ^ j \<le> 102 * (102 :: nat) ^ j" by simp
  also have "\<dots> \<le> 100 * (v * 100 ^ j)" using Suc.prems(2) by (simp add: ac_simps)
  finally have "102 ^ j \<le> v * 100 ^ j" by simp
  then show ?case using Suc by (cases "i = Suc j") auto
qed simp

text \<open>The logarithm, by its two inequalities.\<close>

lemma log_floor_le: "log_floor v \<le> 4095"
  unfolding log_floor_def using length_takeWhile_le [of _ "[1..<4096]"] by (rule order_trans) simp

lemma log_floor_spec:
  assumes "0 < v"
  shows "102 ^ log_floor v \<le> v * 100 ^ log_floor v"
    and "log_floor v < 4095 \<Longrightarrow> v * 100 ^ Suc (log_floor v) < 102 ^ Suc (log_floor v)"
proof -
  let ?P = "\<lambda>i. 102 ^ i \<le> v * 100 ^ i" and ?xs = "[1..<4096]"
  show "?P (log_floor v)"
  proof (cases "log_floor v")
    case (Suc k)
    then have "?xs ! k \<in> set (takeWhile ?P ?xs)"
      unfolding log_floor_def by (metis lessI nth_mem takeWhile_nth)
    then have "?P (?xs ! k)" by (rule set_takeWhileD [THEN conjunct2])
    moreover have "?xs ! k = Suc k" using log_floor_le [of v] Suc by simp
    ultimately show ?thesis using Suc by simp
  qed (use assms in simp)
  show "v * 100 ^ Suc (log_floor v) < 102 ^ Suc (log_floor v)" if "log_floor v < 4095"
  proof -
    have "\<not> ?P (?xs ! log_floor v)"
      unfolding log_floor_def by (rule nth_length_takeWhile) (use that in \<open>simp add: log_floor_def\<close>)
    then show ?thesis using that by simp
  qed
qed

lemma log_floor_mono:
  assumes "0 < v" and "v \<le> v'"
  shows "log_floor v \<le> log_floor v'"
proof (rule ccontr)
  assume "\<not> log_floor v \<le> log_floor v'"
  then have less: "Suc (log_floor v') \<le> log_floor v" by simp
  have "v' * 100 ^ Suc (log_floor v') < 102 ^ Suc (log_floor v')"
    using log_floor_spec(2) [of v'] log_floor_le [of v] assms less by simp
  moreover have "102 ^ Suc (log_floor v') \<le> v * 100 ^ Suc (log_floor v')"
    by (rule ratio_mono [OF less log_floor_spec(1) [OF assms(1)]])
  moreover have "v * 100 ^ Suc (log_floor v') \<le> v' * 100 ^ Suc (log_floor v')" using assms(2) by simp
  ultimately show False by linarith
qed

lemma bucket_less: "bucket_of v < NUM_BUCKETS"
  by (simp add: bucket_of_def NUM_BUCKETS_def Let_def)

lemma bucket_mono: "v \<le> v' \<Longrightarrow> bucket_of v \<le> bucket_of v'"
  using log_floor_mono [of "unat v" "unat v'"]
  by (auto simp: bucket_of_def Let_def NUM_BUCKETS_def word_le_nat_alt word_less_nat_alt)

text \<open>What a bucket stands for, up to the start of the bucket after the last one.\<close>

lemma bucket_value:
  assumes "0 < v" and "unat v \<le> 25309"
  shows "pow_floor (bucket_of v) \<le> unat v" and "100 * unat v < 102 * (pow_floor (bucket_of v) + 1)"
proof -
  define b where "b = log_floor (unat v)"
  have v: "0 < unat v" using assms(1) by (simp add: word_less_nat_alt)
  note S = log_floor_spec [OF v, folded b_def]
  have b: "b < 512"
  proof (rule ccontr)
    assume "\<not> b < 512"
    from ratio_mono [OF this [unfolded not_less] S(1)] have "102 ^ 512 \<le> unat v * 100 ^ 512" .
    also have "\<dots> \<le> 25309 * 100 ^ 512" by (rule mult_le_mono1 [OF assms(2)])
    finally show False using last_powers(1) by linarith
  qed
  then have B: "bucket_of v = b" using assms(1) by (simp add: bucket_of_def b_def Let_def NUM_BUCKETS_def)
  have "102 ^ b div 100 ^ b \<le> unat v * 100 ^ b div 100 ^ b" by (rule div_le_mono [OF S(1)])
  then show "pow_floor (bucket_of v) \<le> unat v" by (simp add: B pow_floor_def)
  have "102 ^ b < (pow_floor b + 1) * (100 :: nat) ^ b"
    unfolding pow_floor_def by (metis Suc_eq_plus1 dividend_less_div_times mult.commute mult_Suc_right zero_less_numeral zero_less_power add.commute)
  then have less: "102 * (102 :: nat) ^ b < 102 * ((pow_floor b + 1) * 100 ^ b)" by simp
  have "(100 * unat v) * 100 ^ b = unat v * 100 ^ Suc b" by simp
  also have "\<dots> < 102 ^ Suc b" using S(2) b by linarith
  also have "\<dots> = 102 * 102 ^ b" by simp
  also note less
  also have "102 * ((pow_floor b + 1) * 100 ^ b) = (102 * (pow_floor b + 1)) * (100 :: nat) ^ b" by (simp only: mult.assoc)
  finally have "100 * unat v < 102 * (pow_floor b + 1)" by (rule mult_less_cancel2 [THEN iffD1, THEN conjunct2])
  then show "100 * unat v < 102 * (pow_floor (bucket_of v) + 1)" by (simp add: B)
qed

lemma bucket_top: "24814 \<le> unat v \<Longrightarrow> bucket_of v = 511"
proof -
  assume v: "24814 \<le> unat v"
  have "(102 :: nat) ^ 511 \<le> 24814 * 100 ^ 511" using last_powers(3) by (rule less_imp_le)
  also have "\<dots> \<le> unat v * 100 ^ 511" by (rule mult_le_mono1 [OF v])
  finally have le: "102 ^ 511 \<le> unat v * 100 ^ 511" .
  have "511 \<le> log_floor (unat v)"
  proof (rule ccontr)
    assume n: "\<not> 511 \<le> log_floor (unat v)"
    then have "unat v * 100 ^ Suc (log_floor (unat v)) < 102 ^ Suc (log_floor (unat v))"
      using log_floor_spec(2) [of "unat v"] v by simp
    moreover have "102 ^ Suc (log_floor (unat v)) \<le> unat v * 100 ^ Suc (log_floor (unat v))"
      by (rule ratio_mono [OF _ le]) (use n in simp)
    ultimately show False by simp
  qed
  then show ?thesis using v by (auto simp: bucket_of_def Let_def NUM_BUCKETS_def word_less_nat_alt)
qed

section \<open>What the histogram holds\<close>

definition tally :: "u64 list \<Rightarrow> nat \<Rightarrow> nat" where
  "tally xs i = length (filter (\<lambda>x. bucket_of x = i) xs)"

lemma hist_fold:
  "foldl hist_record Histogram xs =
     \<lparr>counts = map (\<lambda>i. word_of_nat (tally xs i)) [0..<NUM_BUCKETS], total = word_of_nat (length xs), sum_ns = sum_list xs\<rparr>"
proof (induction xs rule: rev_induct)
  case Nil
  show ?case by (simp add: Histogram_def tally_def map_replicate_const)
next
  case (snoc x xs)
  let ?c = "\<lambda>xs. map (\<lambda>i. word_of_nat (tally xs i) :: u64) [0..<NUM_BUCKETS]"
  have "(?c xs)[bucket_of x := ?c xs ! bucket_of x + 1] = ?c (xs @ [x])"
    by (rule nth_equalityI) (auto simp: nth_list_update tally_def bucket_less)
  then show ?case unfolding foldl_append foldl.simps snoc by (simp add: hist_record_def Let_def)
qed

lemma sum_tally: "(\<Sum>j<i. tally xs j) = length (filter (\<lambda>x. bucket_of x < i) xs)"
proof (induction i)
  case (Suc i)
  have "length (filter (\<lambda>x. bucket_of x < Suc i) xs) =
      length (filter (\<lambda>x. bucket_of x < i) xs) + length (filter (\<lambda>x. bucket_of x = i) xs)"
    by (induction xs) (auto simp: less_Suc_eq)
  then show ?case using Suc by (simp add: tally_def)
qed simp

lemma word_nat_less: "a < 2 ^ 64 \<Longrightarrow> b < 2 ^ 64 \<Longrightarrow> (word_of_nat a :: u64) < word_of_nat b \<longleftrightarrow> a < b"
  by (simp add: word_less_nat_alt unat_of_nat)

lemma percentile_scan_at:
  assumes "i \<le> m" and "m < n" and "(\<Sum>j<m. f j) \<le> k" and "k < (\<Sum>j<Suc m. f j)" and "(\<Sum>j<n. f j) < 2 ^ 64"
  shows "percentile_scan (word_of_nat k) (word_of_nat (\<Sum>j<i. f j)) i (map (\<lambda>j. word_of_nat (f j)) [i..<n]) =
    word_of_nat (pow_floor m)"
  using assms(1)
proof (induction i rule: inc_induct)
  case base
  have "(\<Sum>j<Suc m. f j) \<le> (\<Sum>j<n. f j)" by (rule sum_mono2) (use assms(2) in auto)
  then have "(word_of_nat k :: u64) < word_of_nat (\<Sum>j<Suc m. f j)"
    using assms(4,5) by (intro word_nat_less [THEN iffD2]) linarith+
  moreover have "[m..<n] = m # [Suc m..<n]" using assms(2) by (rule upt_conv_Cons)
  ultimately show ?case by (simp add: Let_def add.commute)
next
  case (step i)
  have "(\<Sum>j<Suc i. f j) \<le> (\<Sum>j<m. f j)" by (rule sum_mono2) (use step in auto)
  moreover have "(\<Sum>j<m. f j) \<le> (\<Sum>j<n. f j)" "(\<Sum>j<Suc m. f j) \<le> (\<Sum>j<n. f j)"
    by (rule sum_mono2; use assms(2) in auto)+
  ultimately have "\<not> (word_of_nat k :: u64) < word_of_nat (\<Sum>j<Suc i. f j)"
    using assms(3-5) by (subst word_nat_less) linarith+
  moreover have "[i..<n] = i # [Suc i..<n]" using step assms(2) by (intro upt_conv_Cons) simp
  ultimately show ?case using step.IH by (simp add: Let_def add.commute)
qed

text \<open>The rank of an element of a sorted list, counted by a monotone key.\<close>

lemma rank_count:
  assumes "sorted ys" and "k < length ys" and "\<And>x y. x \<le> y \<Longrightarrow> f x \<le> (f y :: nat)"
  shows "length (filter (\<lambda>y. f y < f (ys ! k)) ys) \<le> k" and "k < length (filter (\<lambda>y. f y < Suc (f (ys ! k))) ys)"
proof -
  have up: "f (ys ! k) \<le> f y" if "y \<in> set (drop k ys)" for y
  proof -
    from that obtain j where "j < length (drop k ys)" "y = drop k ys ! j" by (auto simp: in_set_conv_nth)
    then have "k + j < length ys" "y = ys ! (k + j)" by simp_all
    then show ?thesis using sorted_nth_mono [OF assms(1), of k "k + j"] assms(3) by simp
  qed
  have down: "f y \<le> f (ys ! k)" if y: "y \<in> set (take (Suc k) ys)" for y
  proof -
    from y obtain j where "j < length (take (Suc k) ys)" "y = take (Suc k) ys ! j" by (auto simp: in_set_conv_nth)
    then have "j \<le> k" "y = ys ! j" by simp_all
    then show ?thesis using sorted_nth_mono [OF assms(1), of j k] assms(2,3) by simp
  qed
  have "filter (\<lambda>y. f y < f (ys ! k)) (drop k ys) = []" by (rule filter_False) (use up in \<open>auto simp: not_less\<close>)
  then have "filter (\<lambda>y. f y < f (ys ! k)) ys = filter (\<lambda>y. f y < f (ys ! k)) (take k ys)"
    by (metis append_Nil2 append_take_drop_id filter_append)
  then show "length (filter (\<lambda>y. f y < f (ys ! k)) ys) \<le> k"
    using length_filter_le [of "\<lambda>y. f y < f (ys ! k)" "take k ys"] by simp
  have "filter (\<lambda>y. f y < Suc (f (ys ! k))) (take (Suc k) ys) = take (Suc k) ys"
    by (rule filter_True) (use down in \<open>auto simp: less_Suc_eq_le\<close>)
  then have "take (Suc k) ys @ filter (\<lambda>y. f y < Suc (f (ys ! k))) (drop (Suc k) ys) = filter (\<lambda>y. f y < Suc (f (ys ! k))) ys"
    by (metis append_take_drop_id filter_append)
  from arg_cong [OF this, of length] show "k < length (filter (\<lambda>y. f y < Suc (f (ys ! k))) ys)" using assms(2) by simp
qed

lemma length_filter_sort: "length (filter P (sort xs)) = length (filter P xs)"
  by (simp add: filter_sort)

text \<open>A percentile is the value of the bucket of the sample of that rank.\<close>

lemma percentile_rank:
  assumes "xs \<noteq> []" and "length xs < 2 ^ 53" and "p \<le> P999"
  shows "percentile (foldl hist_record Histogram xs) p = word_of_nat (pow_floor (bucket_of (sort xs ! trunc_mul p (length xs))))"
proof -
  let ?k = "trunc_mul p (length xs)" and ?f = "tally xs"
  let ?m = "bucket_of (sort xs ! ?k)"
  have n: "0 < length xs" "unat (word_of_nat (length xs) :: u64) = length xs" using assms(1,2) by (simp_all add: unat_of_nat)
  then have t: "(word_of_nat (length xs) :: u64) \<noteq> 0" by (metis less_irrefl unat_0)
  have k: "?k < length (sort xs)" using rank_less [OF n(1) assms(2,3)] by simp
  have R: "length (filter (\<lambda>x. bucket_of x < ?m) xs) \<le> ?k" "?k < length (filter (\<lambda>x. bucket_of x < Suc ?m) xs)"
    using rank_count [where f = bucket_of, OF sorted_sort k bucket_mono] by (simp_all only: length_filter_sort)
  have all: "(\<Sum>j<NUM_BUCKETS. ?f j) < 2 ^ 64"
    unfolding sum_tally by (rule order_le_less_trans [OF length_filter_le]) (use assms(2) in simp)
  have "percentile_scan (word_of_nat ?k) (word_of_nat (\<Sum>j<0. ?f j)) 0 (map (\<lambda>j. word_of_nat (?f j)) [0..<NUM_BUCKETS]) =
      word_of_nat (pow_floor ?m)"
    by (rule percentile_scan_at [OF le0 bucket_less _ _ all]) (simp_all only: sum_tally R)
  then show ?thesis using t by (simp add: hist_fold percentile_def n(2))
qed

section \<open>Properties\<close>

text \<open>C25: A percentile of the histogram: for fewer than \<open>2 ^ 53\<close> samples, the rank \<open>p * n\<close> computed in
  doubles lies inside the sample, and what is answered stands for the bucket of the sample of that
  rank: never above it (1 ns for 0), less than two percent and one nanosecond below it as long as it
  is under 25.3 microseconds, and always 24813 ns for anything from 24.8 microseconds on.\<close>

theorem histogram_percentile:
  assumes "xs \<noteq> []" and "length xs < 2 ^ 53" and "p \<in> {P50, P90, P99, P999}"
    and rank: "x = sort xs ! trunc_mul p (length xs)" and r: "r = percentile (foldl hist_record Histogram xs) p"
  shows "trunc_mul p (length xs) < length xs \<and> unat r \<le> max 1 (unat x) \<and>
    (unat x \<le> 25309 \<longrightarrow> 100 * unat x < 102 * (unat r + 1)) \<and> (24814 \<le> unat x \<longrightarrow> unat r = 24813)"
proof -
  have p: "p \<le> P999" using assms(3) by (auto simp: percents)
  define b where "b = bucket_of x"
  have "pow_floor b \<le> 24813"
    using pow_floor_mono [of b 511] bucket_less [of x] pow_floor_last by (simp add: b_def NUM_BUCKETS_def)
  then have ur: "unat r = pow_floor b"
    unfolding r percentile_rank [OF assms(1,2) p] rank [symmetric] b_def [symmetric] by (simp add: unat_of_nat)
  have z: "x = 0 \<Longrightarrow> pow_floor b = 1" by (simp add: b_def bucket_of_def pow_floor_def)
  have "pow_floor b \<le> max 1 (unat x)" "unat x \<le> 25309 \<Longrightarrow> 100 * unat x < 102 * (pow_floor b + 1)"
    if "unat x \<le> 25309"
    using bucket_value [of x] that z by (cases "x = 0"; force simp: b_def word_gt_0)+
  moreover have "pow_floor b = 24813" if "24814 \<le> unat x"
    using bucket_top [OF that] pow_floor_last by (simp add: b_def)
  moreover have "trunc_mul p (length xs) < length xs" using rank_less [OF _ assms(2) p] assms(1) by simp
  ultimately show ?thesis unfolding ur using \<open>pow_floor b \<le> 24813\<close> by (cases "unat x \<le> 25309") auto
qed

lemma histogram_percentile_witness:
  "trunc_mul P99 1 < 1 \<and> unat (percentile (foldl hist_record Histogram [1000000]) P99) = 24813"
  using histogram_percentile [of "[1000000]" P99 1000000] rank_less [of 1 P99] by (simp add: percents)

text \<open>The reports: without samples the maximum of an empty vector is read; with samples the printed
  values are samples, in ascending order up to the maximum.\<close>

lemma sorted_pct_sample:
  assumes "v \<noteq> []"
  shows "sorted_pct v p \<in> set v" and "trunc_mul p (length v) \<le> trunc_mul q (length v) \<Longrightarrow> sorted_pct v p \<le> sorted_pct v q"
    and "sorted_pct v p \<le> Max (set v)"
proof -
  have n: "min (trunc_mul p (length v)) (length v - 1) < length (sort v)" for p
    using assms by (cases v) (simp_all add: less_Suc_eq_le)
  show s: "sorted_pct v p \<in> set v" using nth_mem [OF n [of p]] assms by (simp add: sorted_pct_def)
  show "sorted_pct v p \<le> Max (set v)" by (rule Max_ge [OF _ s]) simp
  show "sorted_pct v p \<le> sorted_pct v q" if "trunc_mul p (length v) \<le> trunc_mul q (length v)"
    using sorted_nth_mono [OF sorted_sort, of "min (trunc_mul p (length v)) (length v - 1)" "min (trunc_mul q (length v)) (length v - 1)" v]
      n [of q] that assms by (simp add: sorted_pct_def min_def)
qed

theorem short_report:
  assumes "length (peer_connect_ns r) < 2 ^ 53" and "length (ttfc_ns r) < 2 ^ 53"
  shows "if peer_connect_ns r = [] \<or> ttfc_ns r = [] then print_short_results r = Undef
    else \<exists>a b c d e f. print_short_results r = Ok [a, b, c, d, e, f] \<and> a \<le> b \<and> b \<le> c \<and> d \<le> e \<and> e \<le> f \<and>
      {a, b, c} \<subseteq> set (peer_connect_ns r) \<and> {d, e, f} \<subseteq> set (ttfc_ns r)"
proof -
  have mono: "trunc_mul P50 n \<le> trunc_mul P99 n" if "n < 2 ^ 53" for n
    by (rule rank_mono [OF that]) (simp add: percents)
  have m: "Max (set v) \<in> set v" if "v \<noteq> []" for v :: "u64 list" by (rule Max_in) (use that in simp_all)
  show ?thesis
    using sorted_pct_sample(1) sorted_pct_sample(3) sorted_pct_sample(2) [OF _ mono] assms m
    by (auto simp: print_short_results_def max_element_def)
qed

theorem full_report:
  assumes "length (completion_ns r) < 2 ^ 53"
  shows "if completion_ns r = [] then print_full_results r = Undef
    else \<exists>a b c d. print_full_results r = Ok (a # b # c # d) \<and> a \<le> b \<and> b \<le> c \<and> {a, b, c} \<subseteq> set (completion_ns r)"
proof (cases "completion_ns r = []")
  case True
  then show ?thesis by (simp add: print_full_results_def vec_back_def Let_def)
next
  case False
  let ?v = "completion_ns r"
  have mono: "trunc_mul P50 (length ?v) \<le> trunc_mul P90 (length ?v)"
    by (rule rank_mono [OF assms]) (simp add: percents)
  have n: "length (sort ?v) - 1 < length (sort ?v)" "sort ?v \<noteq> []"
    using False by (simp, metis set_empty set_sort)
  have l: "last (sort ?v) = sort ?v ! (length ?v - 1)" using last_conv_nth [OF n(2)] by simp
  have "last (sort ?v) \<in> set ?v" using last_in_set [OF n(2)] by simp
  moreover have "sorted_pct ?v P90 \<le> last (sort ?v)" unfolding l
    using sorted_nth_mono [OF sorted_sort, of "min (trunc_mul P90 (length ?v)) (length ?v - 1)" "length ?v - 1" ?v] n False
    by (simp add: sorted_pct_def)
  ultimately show ?thesis using False n(2) sorted_pct_sample(1) [OF False] sorted_pct_sample(2) [OF False mono]
    by (simp add: print_full_results_def vec_back_def Let_def)
qed

end
