(* ===== verification/Latency.thy ===== *)
theory Latency
  imports Latency_Stats Tcp_Transfer Factories
begin

text \<open>
  \<^verbatim>\<open>src/bench/latency.cpp\<close>: the receiving side of the latency benchmark. The short loop connects,
  asks for one chunk and hangs up at its header; the full loop transfers and verifies whole files.
  Here are the definitions; \<open>Latency_Runs\<close> has the theorems.
\<close>

section \<open>The world of the benchmark\<close>

text \<open>
  The connection in use and the files, the sockets, what each peer still to be connected to will
  send, what was sent on the connections that are closed, the clock (seconds and nanoseconds at
  each reading), and the name that \<^verbatim>\<open>mkstemp\<close> makes up.
\<close>

record bench_world =
  b_tcp :: tcp_world
  b_net :: sysw
  b_peers :: "u8 list list"
  b_sent :: "u8 list list"
  b_clock :: "nat \<Rightarrow> u64 \<times> u64"
  b_ticks :: nat
  b_tmp :: string

type_synonym 'a bio = "(bench_world, 'a) io"

definition at_tcp :: "(tcp_world, 'a) io \<Rightarrow> 'a bio" where
  "at_tcp m w = (case m (b_tcp w) of None \<Rightarrow> None | Some (r, t) \<Rightarrow> Some (r, w\<lparr>b_tcp := t\<rparr>))"

definition at_net :: "(sysw, 'a) io \<Rightarrow> 'a bio" where
  "at_net m w = (case m (b_net w) of None \<Rightarrow> None | Some (r, t) \<Rightarrow> Some (r, w\<lparr>b_net := t\<rparr>))"

definition now_ns :: "u64 bio" where
  "now_ns w =
     (case b_clock w (b_ticks w) of (tv_sec, tv_nsec) \<Rightarrow>
        Some (Ok (tv_sec * 1000000000 + tv_nsec), w\<lparr>b_ticks := Suc (b_ticks w)\<rparr>))"

section \<open>Connections\<close>

record bench_config =
  sender_host :: string
  sender_port :: u16
  sndbuf_bytes :: int
  c_warmup :: u32
  runs_short :: u32
  runs_full :: u32

text \<open>The buffer size is only set for a sweep point; what the kernel made of it is printed.\<close>

definition make_connection_fd :: "string \<Rightarrow> u16 \<Rightarrow> int \<Rightarrow> (sysw, nat) io" where
  "make_connection_fd host port sndbuf =
     io_bind (acquire Socket_fd Socket_stream (Runtime_error ''bench: socket failed: '')) (\<lambda>fd.
     io_bind (note_call (No_delay fd)) (\<lambda>_.
     io_bind (if sndbuf > 0 then note_call (Sndbuf fd (nat sndbuf)) else io_ret ()) (\<lambda>_.
     io_bind (require (Inet_pton host) is_one [(Socket_fd, fd)] (Runtime_error ''bench: invalid sender address: '')) (\<lambda>_.
     io_bind (require (Connect_to fd host port) not_neg [(Socket_fd, fd)] (Runtime_error ''bench: connect failed: '')) (\<lambda>_.
     io_ret fd)))))"

text \<open>A new connection has the next peer at its other end; its transport has no pipe yet.\<close>

definition attach_peer :: "bench_world \<Rightarrow> bench_world" where
  "attach_peer w =
     w\<lparr>b_peers := tl (b_peers w),
       b_tcp := (b_tcp w)\<lparr>sock_in := (case b_peers w of [] \<Rightarrow> [] | p # _ \<Rightarrow> p), sock_out := [], pipe_open := False, pipe_buf := []\<rparr>\<rparr>"

definition bench_dial :: "bench_config \<Rightarrow> nat bio" where
  "bench_dial cfg =
     io_bind (at_net (make_connection_fd (sender_host cfg) (sender_port cfg) (sndbuf_bytes cfg))) (\<lambda>fd.
     io_bind (io_modify attach_peer) (\<lambda>_. io_ret fd))"

text \<open>The destructor of the transport.\<close>

definition hang_up :: "nat \<Rightarrow> bench_world \<Rightarrow> bench_world" where
  "hang_up fd w =
     w\<lparr>b_sent := b_sent w @ [sock_out (b_tcp w)], b_tcp := (b_tcp w)\<lparr>pipe_open := False, pipe_buf := []\<rparr>,
       b_net := releases [(Socket_fd, fd)] (b_net w)\<rparr>"

text \<open>The pull side initiates.\<close>

definition bench_hello :: "string \<Rightarrow> (tcp_world, file_meta) io" where
  "bench_hello err =
     io_bind (io_bind (io_lift (make_handshake \<lparr>token = []\<rparr>)) (send_msg TcpTransport)) (\<lambda>_.
     io_bind (recv_msg TcpTransport) (\<lambda>meta_msg.
       if m_type meta_msg \<noteq> FILE_META then io_throw (Runtime_error err) else io_lift (parse_filemeta meta_msg)))"

definition upto_u32 :: "u32 \<Rightarrow> u32 list" where
  "upto_u32 n = map word_of_nat [0..<unat n]"

section \<open>The short loop\<close>

definition short_session :: "bool \<Rightarrow> short_results \<Rightarrow> (short_results \<times> u64) bio" where
  "short_session is_warmup results =
     io_bind (at_tcp (bench_hello ''bench short: expected FILE_META'')) (\<lambda>meta.
     let results =
       (if \<not> is_warmup \<and> s_file_size results = 0
        then results\<lparr>s_file_size := file_size meta, s_chunk_count := chunk_count meta\<rparr> else results)
     in io_bind (at_tcp (request_chunks TcpTransport [0])) (\<lambda>_.
        io_bind now_ns (\<lambda>t_req_sent.
        io_bind (at_tcp (recv_msg TcpTransport)) (\<lambda>hdr_msg.
        io_bind now_ns (\<lambda>t_first_chunk.
          if m_type hdr_msg \<noteq> CHUNK_HDR then io_throw (Runtime_error ''bench short: expected CHUNK_HDR'')
          else io_ret (results, t_first_chunk - t_req_sent))))))"

definition short_run :: "bench_config \<Rightarrow> short_results \<Rightarrow> u32 \<Rightarrow> short_results bio" where
  "short_run cfg results run =
     (let is_warmup = run < c_warmup cfg
      in io_bind now_ns (\<lambda>t_connect_start.
         io_bind (bench_dial cfg) (\<lambda>raw_fd.
         io_bind now_ns (\<lambda>t_connect_end.
         io_bind (io_finally (short_session is_warmup results) (hang_up raw_fd)) (\<lambda>(results, ttfc).
         io_ret
           (if is_warmup then results
            else results\<lparr>peer_connect_ns := peer_connect_ns results @ [t_connect_end - t_connect_start],
                         ttfc_ns := ttfc_ns results @ [ttfc]\<rparr>))))))"

text \<open>The number of runs is a sum of \<^verbatim>\<open>uint32_t\<close>, which wraps.\<close>

definition run_short_loop :: "bench_config \<Rightarrow> short_results bio" where
  "run_short_loop cfg =
     io_foldl (short_run cfg) \<lparr>peer_connect_ns = [], ttfc_ns = [], s_file_size = 0, s_chunk_count = 0\<rparr>
       (upto_u32 (runs_short cfg + c_warmup cfg))"

section \<open>The full loop\<close>

text \<open>
  \<^verbatim>\<open>mkstemp\<close> opens a new file. Unlinking it takes its name away, while whoever has it open keeps
  it: its contents go on under a name that no call uses.
\<close>

definition deleted :: "string \<Rightarrow> string" where
  "deleted p = p @ '' (deleted)''"

definition EEXIST :: nat where "EEXIST = 17"

definition sys_mkstemp :: "string \<Rightarrow> ('e world_scheme, int) raw" where
  "sys_mkstemp p w =
     (if files w p = None then sys_open p True True w
      else case sys_next w of None \<Rightarrow> None | Some (_, w1) \<Rightarrow> Some (-1, w1\<lparr>errno := EEXIST\<rparr>))"

definition sys_unlink_open :: "string \<Rightarrow> ('e world_scheme, unit) raw" where
  "sys_unlink_open p w =
     (case sys_next w of
        None \<Rightarrow> None
      | Some (Fail e, w1) \<Rightarrow> Some ((), w1\<lparr>errno := e\<rparr>)
      | Some (Xfer _, w1) \<Rightarrow>
          Some ((), w1\<lparr>files := (files w1)(p := None, deleted p := files w1 p),
            fds := (\<lambda>fd. map_option (\<lambda>f. if of_path f = p then f\<lparr>of_path := deleted p\<rparr> else f) (fds w1 fd))\<rparr>))"

definition full_recv :: "int \<Rightarrow> file_meta \<Rightarrow> u32 \<Rightarrow> (tcp_world, unit) io" where
  "full_recv out_fd meta i =
     io_bind (recv_msg TcpTransport) (\<lambda>hdr_msg.
       if m_type hdr_msg \<noteq> CHUNK_HDR then io_throw (Runtime_error ''bench full: expected CHUNK_HDR at chunk '')
       else t_recv_file TcpTransport out_fd (unat (chunk_off i)) (unat (chunk_len (file_size meta) i)))"

definition full_chunk :: "evp \<Rightarrow> int \<Rightarrow> file_meta \<Rightarrow> bool \<Rightarrow> histogram \<Rightarrow> u32 \<Rightarrow> histogram bio" where
  "full_chunk E out_fd meta is_warmup verify i =
     io_bind (at_tcp (full_recv out_fd meta i)) (\<lambda>_.
     io_bind now_ns (\<lambda>t_verify_start.
     io_bind (at_tcp (hash_range ''bench full: mmap for verify failed at chunk '' E out_fd (unat (chunk_off i))
                (unat (chunk_len (file_size meta) i)))) (\<lambda>computed.
     io_bind now_ns (\<lambda>t_verify_end.
     io_bind (io_lift (vec_at (chunk_hashes meta) (unat i))) (\<lambda>expected.
       if computed \<noteq> expected then io_throw (Runtime_error ''bench full: hash mismatch at chunk '')
       else io_ret (if is_warmup then verify else hist_record verify (t_verify_end - t_verify_start)))))))"

definition full_session :: "evp \<Rightarrow> int \<Rightarrow> bool \<Rightarrow> full_results \<Rightarrow> full_results bio" where
  "full_session E out_fd is_warmup results =
     io_bind (at_tcp (bench_hello ''bench full: expected FILE_META'')) (\<lambda>meta.
     let results =
           (if \<not> is_warmup \<and> f_file_size results = 0
            then results\<lparr>f_file_size := file_size meta, f_chunk_count := chunk_count meta\<rparr> else results);
         chunks = upto_u32 (chunk_count meta)
     in io_bind (at_tcp (sys (sys_ftruncate out_fd (unat (file_size meta))))) (\<lambda>_.
        io_bind (at_tcp (request_chunks TcpTransport chunks)) (\<lambda>_.
        io_bind now_ns (\<lambda>t_transfer_start.
        io_bind (io_foldl (full_chunk E out_fd meta is_warmup) (verify_ns results) chunks) (\<lambda>verify.
        io_bind now_ns (\<lambda>t_transfer_end.
        let results = results\<lparr>verify_ns := verify\<rparr>
        in io_ret
             (if is_warmup then results
              else results\<lparr>completion_ns := completion_ns results @ [t_transfer_end - t_transfer_start]\<rparr>)))))))"

definition full_run :: "evp \<Rightarrow> bench_config \<Rightarrow> int \<Rightarrow> full_results \<Rightarrow> u32 \<Rightarrow> full_results bio" where
  "full_run E cfg out_fd results run =
     io_bind (bench_dial cfg) (\<lambda>raw_fd.
       io_finally (full_session E out_fd (run < c_warmup cfg) results) (hang_up raw_fd))"

definition run_full_loop :: "evp \<Rightarrow> bench_config \<Rightarrow> full_results bio" where
  "run_full_loop E cfg =
     io_bind (io_get b_tmp) (\<lambda>tmp1.
     io_bind (at_tcp (sys (sys_mkstemp tmp1))) (\<lambda>out_fd.
       if out_fd < 0 then io_throw (Runtime_error ''bench full: mkstemp() failed'')
       else io_bind (at_tcp (sys (sys_unlink_open tmp1))) (\<lambda>_.
         io_bind
           (io_foldl (full_run E cfg out_fd) \<lparr>completion_ns = [], verify_ns = Histogram, f_file_size = 0, f_chunk_count = 0\<rparr>
              (upto_u32 (runs_full cfg + c_warmup cfg))) (\<lambda>results.
         io_bind (at_tcp (io_close out_fd)) (\<lambda>_. io_ret results)))))"

section \<open>Rules for the parts of the world\<close>

lemma wp_bench_parts [wp_simps]:
  "wp b (at_tcp m) Q w = wp b m (\<lambda>r t. Q r (w\<lparr>b_tcp := t\<rparr>)) (b_tcp w)"
  "wp b (at_net n) R w = wp b n (\<lambda>r t. R r (w\<lparr>b_net := t\<rparr>)) (b_net w)"
  by (simp_all add: wp_def at_tcp_def at_net_def split: option.split prod.split)

lemma wp_now_ns: "(\<And>t. Q (Ok t) (w\<lparr>b_ticks := Suc (b_ticks w)\<rparr>)) \<Longrightarrow> wp b now_ns Q w"
  by (simp add: wp_def now_ns_def split: prod.split)

interpretation bench_connects: resource_factory "make_connection_fd host port n" "[]" "\<lambda>fd. [(Socket_fd, fd)]" for host port n
  by unfold_locales (auto simp: make_connection_fd_def intro!: books_rules books_ret)

end
