(* ===== verification/Latency_Runs.thy ===== *)
theory Latency_Runs
  imports Latency
begin

text \<open>
  What the loops of the latency benchmark promise: against any peer and any behaviour of the system
  calls, and against a sender that serves.
\<close>

section \<open>One connection\<close>

definition only_file :: "string \<Rightarrow> tcp_world \<Rightarrow> tcp_world \<Rightarrow> bool" where
  "only_file p w w' \<longleftrightarrow> tidy w w' \<and> (\<forall>q. q \<noteq> p \<longrightarrow> files w' q = files w q)"

lemma only_file_refl [simp]: "only_file p w w"
  by (simp add: only_file_def)

lemma only_file_trans: "only_file p w w1 \<Longrightarrow> only_file p w1 w2 \<Longrightarrow> only_file p w w2"
  by (auto simp: only_file_def intro: tidy_trans)

lemma only_file_same: "tidy w w' \<Longrightarrow> files w' = files w \<Longrightarrow> only_file p w w'"
  by (simp add: only_file_def)

lemma only_file_os: "same_os w w' \<Longrightarrow> later w w' \<Longrightarrow> only_file p w w'"
  by (simp add: only_file_def tidy_same_os same_os_def)

definition output_open :: "string \<Rightarrow> int \<Rightarrow> tcp_world \<Rightarrow> bool" where
  "output_open p fd w \<longleftrightarrow> (\<exists>f. fds w fd = Some f \<and> of_path f = p) \<and> files w p \<noteq> None"

text \<open>The peer's metadata, once the handshake is sent.\<close>

definition hello_cost :: "file_meta \<Rightarrow> nat" where
  "hello_cost meta = (HEADER_SIZE + 4) + (HEADER_SIZE + length (filemeta_enc meta))"

definition greeted :: "tcp_world \<Rightarrow> file_meta \<Rightarrow> message \<Rightarrow> tcp_world \<Rightarrow> bool" where
  "greeted w meta msg w' \<longleftrightarrow> msg_ok msg \<and> parse_filemeta msg = Ok meta \<and> same_os w w' \<and> later w w' \<and> tcp_inv w' \<and>
     sock_in w = frame msg @ sock_in w' \<and> sock_out w' = sock_out w @ frame (hs_msg [])"

lemma bench_hello_wp:
  fixes w :: tcp_world
  assumes inv: "tcp_inv w" and rd: "ready b w (hello_cost meta0 + n)"
    and src: "b \<or> msg_ok (meta_msg meta0) \<and> filemeta_ok meta0 \<and> sock_in w = frame (meta_msg meta0) @ s"
    and ok: "\<And>w' msg meta. greeted w meta msg w' \<Longrightarrow> b \<or> meta = meta0 \<and> sock_in w' = s \<Longrightarrow> ready b w' n \<Longrightarrow> Q (Ok meta) w'"
    and fail: "\<And>w' e. b \<Longrightarrow> tidy w w' \<Longrightarrow> files w' = files w \<Longrightarrow> Q (Throw e) w'"
  shows "wp b (bench_hello err) Q w"
proof -
  have hs: "make_handshake \<lparr>token = []\<rparr> = Ok (hs_msg [])"
    by (simp add: make_handshake_Ok str_ok_def hs_msg_def)
  show ?thesis unfolding bench_hello_def hs io_bind_lift_Ok
  proof (subst wp_bind, rule tcp.wp_send_msg [OF inv, where n = "(HEADER_SIZE + length (filemeta_enc meta0)) + n"], goal_cases)
    case 1 then show ?case by (simp add: hs_msg_def)
  next
    case 2
    show ?case by (rule ready_mono [OF rd]) (simp add: hello_cost_def hs_msg_def)
  next
    case (4 w' e)
    then show ?case using fail by (simp add: tcp.broken_def)
  next
    case (3 w1)
    then have t1: "tcp_inv w1" "same_os w w1" "later w w1" "sock_in w1 = sock_in w" "sock_out w1 = sock_out w @ frame (hs_msg [])"
      by (simp_all add: tcp.moved_out_def)
    show ?case unfolding on_ok_simps
    proof (subst wp_bind, rule tcp.wp_recv_msg [OF t1(1) 3(2)], goal_cases)
      case 1
      then show ?case using src t1(4) by (auto simp: meta_msg_def)
    next
      case (3 w' e)
      then have "tidy w w'" "files w' = files w"
        using tidy_trans [OF tidy_same_os [OF t1(2,3)]] t1(2) by (simp_all add: tcp.broken_def same_os_def)
      then show ?case using fail 3(1) by simp
    next
      case (2 w2 msg)
      have t2: "tcp_inv w2" "same_os w w2" "later w w2" "sock_in w = frame msg @ sock_in w2"
        "sock_out w2 = sock_out w @ frame (hs_msg [])"
        using 2(2) t1 by (auto simp: tcp.moved_in_def intro: same_os_trans later_trans)
      have quit: "b \<Longrightarrow> Q (Throw e) w2" for e 
        by (rule fail [OF _ tidy_same_os [OF t2(2,3)]]) (use t2(2) in \<open>simp_all add: same_os_def\<close>)
      have plen: "length (m_payload msg) < 2 ^ 63" using msg_ok_length [OF 2(1)] by simp
      have known: "b \<or> parse_filemeta msg = Ok meta0 \<and> sock_in w2 = s"
      proof (cases b)
        case False
        then have S: "msg_ok (meta_msg meta0)" "filemeta_ok meta0" "frame msg @ sock_in w2 = frame (meta_msg meta0) @ s"
          using src t2(4) by simp_all
        from frame_ok_prefix [OF S(3) 2(1) S(1)] have m: "msg = meta_msg meta0" "sock_in w2 = s" by simp_all
        have "parse_filemeta msg = Ok meta0"
          using parse_filemeta_complete [of msg meta0 "[]"] plen S(2) m(1) by (simp add: meta_msg_def)
        then show ?thesis using m(2) by simp
      qed simp
      show ?case
      proof (cases "parse_filemeta msg")
        case (Ok meta)
        then have "m_type msg = FILE_META" using parse_filemeta_sound [OF plen] by blast
        moreover have "greeted w meta msg w2" using 2(1) Ok t2 by (simp add: greeted_def)
        ultimately show ?thesis using ok known Ok 2(3) by (auto simp: wp_simps)
      next
        case (Throw e)
        then have b using known by simp
        then show ?thesis using quit Throw by (simp add: wp_simps)
      next
        case Undef
        then show ?thesis using parse_no_Undef(1) [OF plen] by simp
      qed
    qed
  qed
qed

section \<open>One chunk of the full loop\<close>

definition block_ok :: "evp \<Rightarrow> file_meta \<Rightarrow> u8 list \<Rightarrow> u32 \<Rightarrow> bool" where
  "block_ok E meta blk i \<longleftrightarrow>
     (\<exists>hdr bs. msg_ok hdr \<and> m_type hdr = CHUNK_HDR \<and> blk = frame hdr @ bs \<and> length bs = unat (chunk_len (file_size meta) i) \<and>
        sha256_buf E bs = Ok (chunk_hashes meta ! unat i))"

definition block_cost :: nat where
  "block_cost = (HEADER_SIZE + 4) + (2 * CHUNK_SIZE + 2) + 1"

text \<open>What a step of the full loop keeps: it works on the connection and the file \<open>p\<close> alone.\<close>

definition bench_step :: "string \<Rightarrow> bench_world \<Rightarrow> bench_world \<Rightarrow> bool" where
  "bench_step p w w' \<longleftrightarrow> only_file p (b_tcp w) (b_tcp w') \<and> b_net w' = b_net w \<and> b_peers w' = b_peers w \<and> b_sent w' = b_sent w"

lemma bench_step_refl [simp]: "bench_step p w w"
  by (simp add: bench_step_def)

lemma bench_step_trans: "bench_step p w w1 \<Longrightarrow> bench_step p w1 w2 \<Longrightarrow> bench_step p w w2"
  by (auto simp: bench_step_def intro: only_file_trans)

lemma bench_step_upd [simp]:
  "bench_step p w (w1\<lparr>b_ticks := k\<rparr>) = bench_step p w w1" "bench_step p (w\<lparr>b_ticks := k\<rparr>) w1 = bench_step p w w1"
  by (simp_all add: bench_step_def)

lemma bench_upd_comm: "w\<lparr>b_ticks := k, b_tcp := t\<rparr> = w\<lparr>b_tcp := t, b_ticks := k\<rparr>" for w :: bench_world
  by simp

lemma bench_step_tcp: "only_file p (b_tcp w) t \<Longrightarrow> bench_step p w (w\<lparr>b_tcp := t\<rparr>)"
  by (simp add: bench_step_def)

definition got_block :: "evp \<Rightarrow> file_meta \<Rightarrow> string \<Rightarrow> int \<Rightarrow> bench_world \<Rightarrow> u32 \<Rightarrow> u8 list \<Rightarrow> bench_world \<Rightarrow> bool" where
  "got_block E meta p fd w i blk w' \<longleftrightarrow>
     bench_step p w w' \<and> tcp_inv (b_tcp w') \<and> output_open p fd (b_tcp w') \<and> sock_out (b_tcp w') = sock_out (b_tcp w) \<and>
     sock_in (b_tcp w) = blk @ sock_in (b_tcp w') \<and> block_ok E meta blk i"

lemma full_recv_wp:
  fixes w :: tcp_world
  assumes inv: "tcp_inv w" and fd: "fds w fd = Some f" "of_path f = p" "files w p = Some c"
    and rd: "ready b w ((HEADER_SIZE + 4) + (2 * CHUNK_SIZE + 2) + n)"
    and src: "b \<or> sock_in w = frame (hdr_msg i) @ bs0 @ s \<and> length bs0 = unat (chunk_len (file_size meta) i)"
    and ok: "\<And>w' hdr bs. only_file p w w' \<Longrightarrow> msg_ok hdr \<Longrightarrow> m_type hdr = CHUNK_HDR \<Longrightarrow>
      sock_in w = frame hdr @ bs @ sock_in w' \<Longrightarrow> length bs = unat (chunk_len (file_size meta) i) \<Longrightarrow>
      files w' p = Some (write_at c (unat (chunk_off i)) bs) \<Longrightarrow> sock_out w' = sock_out w \<Longrightarrow> tcp_inv w' \<Longrightarrow>
      b \<or> bs = bs0 \<and> sock_in w' = s \<Longrightarrow> ready b w' n \<Longrightarrow> Q (Ok ()) w'"
    and fail: "\<And>w' e. b \<Longrightarrow> only_file p w w' \<Longrightarrow> Q (Throw e) w'"
  shows "wp b (full_recv fd meta i) Q w"
proof -
  let ?off = "unat (chunk_off i)" and ?len = "unat (chunk_len (file_size meta) i)"
  have hok: "msg_ok (hdr_msg i)" by (simp add: msg_ok_def unat_MAX_PAYLOAD_SIZE)
  have off63: "?off + ?len < 2 ^ 63"
    using unsigned_less [of i, where ?'a = nat] unat_chunk_len_le [of "file_size meta" i]
    by (simp add: unat_chunk_off CHUNK_SIZE_def)
  show ?thesis unfolding full_recv_def wp_bind
  proof (rule tcp.wp_recv_msg [OF inv, where k = 4 and n = "2 * CHUNK_SIZE + 2 + n"], goal_cases)
    case 1
    show ?case using rd by (simp add: add.assoc)
  next
    case 2
    then show ?case using src hok by (metis hdr_msg_len(1) order_refl)
  next
    case (4 w' e)
    then show ?case using fail by (simp add: tcp.broken_def only_file_same)
  next
    case (3 w1 msg)
    have t1: "tcp_inv w1" "only_file p w w1" "files w1 = files w" "fds w1 = fds w" "sock_in w = frame msg @ sock_in w1"
        "sock_out w1 = sock_out w"
      using 3(2) by (simp_all add: tcp.moved_in_def only_file_os) (simp_all add: same_os_def)
    have known: "b \<or> msg = hdr_msg i \<and> sock_in w1 = bs0 @ s \<and> length bs0 = ?len"
    proof (cases b)
      case False
      then have "frame msg @ sock_in w1 = frame (hdr_msg i) @ bs0 @ s" using src t1(5) by simp
      from frame_ok_prefix [OF this 3(1) hok] show ?thesis using src False by blast
    qed simp
    have len: "?len \<le> CHUNK_SIZE" by (rule unat_chunk_len_le)
    have "wp b (t_recv_file TcpTransport fd ?off ?len) Q w1" if ty: "m_type msg = CHUNK_HDR"
    proof (rule tcp.wp_recv_file [OF t1(1), where f = f and c = c and n = n], goal_cases)
      case 1 then show ?case using fd t1(4) by simp
    next
      case 2 then show ?case using fd t1(3) by simp
    next
      case 3 then show ?case using known off63 by auto
    next
      case 4
      show ?case by (rule ready_mono [OF \<open>ready b w1 _\<close>]) (use len in simp)
    next
      case (5 w2)
      define bs where "bs = take ?len (sock_in w1)"
      have bs: "length bs = ?len" "sock_in w1 = bs @ sock_in w2" using 5(3,4) by (simp_all add: bs_def)
      have "only_file p w1 w2" using 5(1,2) fd(2) by (simp add: only_file_def)
      then have o2: "only_file p w w2" by (rule only_file_trans [OF t1(2)])
      have out: "b \<or> bs = bs0 \<and> sock_in w2 = s" using known 5(4) by (auto simp: bs_def)
      have "files w2 p = Some (write_at c ?off bs)" using 5(2) fd(2) by (simp add: bs_def)
      moreover have "sock_in w = frame msg @ bs @ sock_in w2" using t1(5) bs(2) by simp
      moreover have "sock_out w2 = sock_out w" using 5(5) t1(6) by simp
      ultimately show ?case using ok [OF o2 3(1) ty _ bs(1)] 5(6,7) out by blast
    next
      case (6 w2 e k)
      then have "only_file p w1 w2" using fd(2) by (simp add: only_file_def)
      then show ?case using fail [OF 6(1)] only_file_trans [OF t1(2)] by blast
    qed
    then show ?case using fail [OF _ t1(2)] known by (auto simp: wp_simps)
  qed
qed

text \<open>The part after the chunk has arrived.\<close>

definition chunk_verify :: "evp \<Rightarrow> int \<Rightarrow> file_meta \<Rightarrow> bool \<Rightarrow> histogram \<Rightarrow> u32 \<Rightarrow> histogram bio" where
  "chunk_verify E fd meta warm h i =
     io_bind now_ns (\<lambda>t0.
     io_bind (at_tcp (hash_range ''bench full: mmap for verify failed at chunk '' E fd (unat (chunk_off i))
                (unat (chunk_len (file_size meta) i)))) (\<lambda>computed.
     io_bind now_ns (\<lambda>t1.
     io_bind (io_lift (vec_at (chunk_hashes meta) (unat i))) (\<lambda>expected.
       if computed \<noteq> expected then io_throw (Runtime_error ''bench full: hash mismatch at chunk '')
       else io_ret (if warm then h else hist_record h (t1 - t0))))))"

lemma full_chunk_split:
  "full_chunk E fd meta warm h i = io_bind (at_tcp (full_recv fd meta i)) (\<lambda>_. chunk_verify E fd meta warm h i)"
  unfolding full_chunk_def chunk_verify_def by (rule refl)

lemma chunk_verify_wp:
  fixes w :: bench_world
  assumes fd: "fds (b_tcp w) fd = Some f" "files (b_tcp w) (of_path f) = Some (write_at c (unat (chunk_off i)) bs)"
    and len: "length bs = unat (chunk_len (file_size meta) i)" and meta: "filemeta_ok meta" "i < chunk_count meta"
    and rd: "ready b (b_tcp w) (Suc n)"
    and src: "b \<or> bs \<noteq> [] \<and> sha256_buf E bs = Ok (chunk_hashes meta ! unat i)"
    and ok: "\<And>t k ds. same_os (b_tcp w) t \<Longrightarrow> later (b_tcp w) t \<Longrightarrow> world.more t = world.more (b_tcp w) \<Longrightarrow> ready b t n \<Longrightarrow>
      sha256_buf E bs = Ok (chunk_hashes meta ! unat i) \<Longrightarrow> length ds = (if warm then 0 else 1) \<Longrightarrow>
      Q (Ok (foldl hist_record h ds)) (w\<lparr>b_tcp := t, b_ticks := k\<rparr>)"
    and fail: "\<And>t k e. b \<Longrightarrow> same_os (b_tcp w) t \<Longrightarrow> later (b_tcp w) t \<Longrightarrow> Q (Throw e) (w\<lparr>b_tcp := t, b_ticks := k\<rparr>)"
  shows "wp b (chunk_verify E fd meta warm h i) Q w"
proof -
  have hash: "vec_at (chunk_hashes meta) (unat i) = Ok (chunk_hashes meta ! unat i)"
    using meta by (simp add: vec_at_def filemeta_ok_def word_less_nat_alt)
  show ?thesis unfolding chunk_verify_def hash io_bind_lift_Ok
  proof (subst wp_bind, rule wp_now_ns, unfold on_ok_simps, subst wp_bind, subst wp_bench_parts,
      rule tcp.hash_range_wp [where f = f and c = c and bs = bs and n = n], goal_cases)
    case 1 then show ?case using rd by simp
  next
    case 2 then show ?case using fd by simp
  next
    case 3 then show ?case using fd by simp
  next
    case 4 then show ?case using len by simp
  next
    case 5 then show ?case using src by blast
  next
    case (6 t0 t e)
    then show ?case using fail [OF 6(1), of t] by (simp add: bench_upd_comm)
  next
    case (7 t0 t d)
    then have t: "same_os (b_tcp w) t" "later (b_tcp w) t" "world.more t = world.more (b_tcp w)" by simp_all
    show ?case unfolding on_ok_simps wp_bind
    proof (rule wp_now_ns, unfold on_ok_simps, goal_cases)
      case (1 t1)
      show ?case
      proof (cases "d = chunk_hashes meta ! unat i")
        case False
        then have b using src 7(6) by auto
        then show ?thesis using False fail [OF _ t(1,2)] by (simp add: wp_simps)
      next
        case True
        then show ?thesis using ok [OF t 7(5), of "if warm then [] else [t1 - t0]"] 7(6)
          by (cases warm) (simp_all add: wp_simps)
      qed
    qed
  qed
qed

lemma full_chunk_wp:
  fixes w :: bench_world
  assumes inv: "tcp_inv (b_tcp w)" "output_open p fd (b_tcp w)" and meta: "filemeta_ok meta" "i < chunk_count meta"
    and rd: "ready b (b_tcp w) (block_cost + n)"
    and src: "b \<or> sock_in (b_tcp w) = frame (hdr_msg i) @ bs0 @ s \<and> length bs0 = unat (chunk_len (file_size meta) i) \<and>
      bs0 \<noteq> [] \<and> sha256_buf E bs0 = Ok (chunk_hashes meta ! unat i)"
    and ok: "\<And>w' blk ds. got_block E meta p fd w i blk w' \<Longrightarrow> length ds = (if warm then 0 else 1) \<Longrightarrow>
      b \<or> sock_in (b_tcp w') = s \<Longrightarrow> ready b (b_tcp w') n \<Longrightarrow> Q (Ok (foldl hist_record h ds)) w'"
    and fail: "\<And>w' e. b \<Longrightarrow> bench_step p w w' \<Longrightarrow> Q (Throw e) w'"
  shows "wp b (full_chunk E fd meta warm h i) Q w"
proof -
  obtain f c where fd: "fds (b_tcp w) fd = Some f" "of_path f = p" "files (b_tcp w) p = Some c"
    using inv(2) by (auto simp: output_open_def)
  show ?thesis unfolding full_chunk_split
  proof (subst wp_bind, subst wp_bench_parts,
      rule full_recv_wp [OF inv(1) fd, where ?bs0.0 = bs0 and s = s and n = "Suc n"], goal_cases)
    case 1
    show ?case by (rule ready_mono [OF rd]) (simp add: block_cost_def)
  next
    case 2
    then show ?case using src by blast
  next
    case (4 t e)
    then show ?case using fail bench_step_tcp by simp
  next
    case (3 t hdr bs)
    have ft: "fds t fd = Some f" "files t (of_path f) = Some (write_at c (unat (chunk_off i)) bs)"
      using 3(1,6) fd by (simp_all add: only_file_def tidy_def)
    have known: "b \<or> bs \<noteq> [] \<and> sha256_buf E bs = Ok (chunk_hashes meta ! unat i)" using 3(9) src by auto
    show ?case unfolding on_ok_simps
    proof (rule chunk_verify_wp [where f = f and c = c and bs = bs and n = n], goal_cases)
      case (8 u k ds)
      then have u: "same_os t u" "later t u" "world.more u = world.more t" by simp_all
      have own: "sock_in u = sock_in t \<and> sock_out u = sock_out t \<and> tcp_inv u = tcp_inv t"
        by (rule tcp.own_state) (rule u(3))
      have "only_file p (b_tcp w) u" by (rule only_file_trans [OF 3(1) only_file_os [OF u(1,2)]])
      moreover have "block_ok E meta (frame hdr @ bs) i" unfolding block_ok_def using 3(2,3,5) 8(5) by blast
      moreover have "output_open p fd u" using ft fd(2) u(1) by (simp add: output_open_def same_os_def)
      ultimately have "got_block E meta p fd w i (frame hdr @ bs) (w\<lparr>b_tcp := u, b_ticks := k\<rparr>)"
        using own 3(4,7,8) by (simp add: got_block_def bench_step_def)
      from ok [OF this 8(6)] show ?case using own 3(9) 8(4) by auto
    next
      case (9 u k e)
      then have "only_file p (b_tcp w) u" using only_file_trans [OF 3(1) only_file_os] by simp
      then show ?case using fail [OF 9(1)] by (simp add: bench_step_def)
    qed (use 3 ft known meta in simp_all)
  qed
qed

section \<open>One run of the full loop\<close>

definition got_blocks :: "evp \<Rightarrow> file_meta \<Rightarrow> string \<Rightarrow> int \<Rightarrow> bench_world \<Rightarrow> u32 list \<Rightarrow> u8 list list \<Rightarrow> bench_world \<Rightarrow> bool" where
  "got_blocks E meta p fd w idxs blks w' \<longleftrightarrow>
     bench_step p w w' \<and> tcp_inv (b_tcp w') \<and> output_open p fd (b_tcp w') \<and> sock_out (b_tcp w') = sock_out (b_tcp w) \<and>
     sock_in (b_tcp w) = concat blks @ sock_in (b_tcp w') \<and> list_all2 (block_ok E meta) blks idxs"

lemma got_blocks_Cons:
  "got_block E meta p fd w i blk w1 \<Longrightarrow> got_blocks E meta p fd w1 idxs blks w' \<Longrightarrow>
    got_blocks E meta p fd w (i # idxs) (blk # blks) w'"
  by (auto simp: got_block_def got_blocks_def intro: bench_step_trans)

lemma answer_good:
  assumes "describes meta data" and "hashed E data (chunk_hashes meta)" and "i < chunk_count meta"
  shows "\<exists>bs. answer data (file_size meta) i = frame (hdr_msg i) @ bs \<and> length bs = unat (chunk_len (file_size meta) i) \<and>
    bs \<noteq> [] \<and> sha256_buf E bs = Ok (chunk_hashes meta ! unat i)"
proof -
  have D: "unat (file_size meta) = length data" "unat i < chunk_total (length data)"
    using assms(1,3) by (simp_all add: describes_def word_less_nat_alt)
  note R = chunk_region [OF D]
  have "sha256_buf E (chunk_of data (unat i)) = Ok (chunk_hashes meta ! unat i)"
    using assms(2) D(2) by (auto simp: hashed_def)
  moreover have "length (chunk_of data (unat i)) = unat (chunk_len (file_size meta) i)"
    unfolding R(4) [symmetric] using R(3) by (rule length_region_le)
  ultimately show ?thesis using R(2,4) by (auto simp: answer_def)
qed

lemma full_chunks_wp:
  fixes w :: bench_world
  assumes inv: "tcp_inv (b_tcp w)" "output_open p fd (b_tcp w)" and meta: "filemeta_ok meta" "\<forall>i \<in> set idxs. i < chunk_count meta"
    and rd: "ready b (b_tcp w) (length idxs * block_cost + n)"
    and src: "b \<or> sock_in (b_tcp w) = concat (map (answer data (file_size meta)) idxs) @ s \<and> describes meta data \<and>
      hashed E data (chunk_hashes meta)"
    and ok: "\<And>w' blks ds. got_blocks E meta p fd w idxs blks w' \<Longrightarrow> length ds = (if warm then 0 else length idxs) \<Longrightarrow>
      b \<or> sock_in (b_tcp w') = s \<Longrightarrow> ready b (b_tcp w') n \<Longrightarrow> Q (Ok (foldl hist_record h ds)) w'"
    and fail: "\<And>w' e. b \<Longrightarrow> bench_step p w w' \<Longrightarrow> Q (Throw e) w'"
  shows "wp b (io_foldl (full_chunk E fd meta warm) h idxs) Q w"
  using assms
proof (induction idxs arbitrary: w h)
  case Nil
  have "got_blocks E meta p fd w [] [] w" using Nil by (simp add: got_blocks_def)
  from Nil.prems(7) [OF this, of "[]"] Nil.prems(5,6) show ?case by (auto simp: wp_simps)
next
  case (Cons i idxs)
  have i: "i < chunk_count meta" using Cons.prems(4) by simp
  obtain bs0 where bs0: "b \<or> sock_in (b_tcp w) = frame (hdr_msg i) @ bs0 @ (concat (map (answer data (file_size meta)) idxs) @ s) \<and>
      length bs0 = unat (chunk_len (file_size meta) i) \<and> bs0 \<noteq> [] \<and> sha256_buf E bs0 = Ok (chunk_hashes meta ! unat i)"
  proof (cases b)
    case False
    with Cons.prems(6) have S: "sock_in (b_tcp w) = concat (map (answer data (file_size meta)) (i # idxs)) @ s"
      "describes meta data" "hashed E data (chunk_hashes meta)" by blast+
    obtain bs where "answer data (file_size meta) i = frame (hdr_msg i) @ bs" "length bs = unat (chunk_len (file_size meta) i)"
        "bs \<noteq> []" "sha256_buf E bs = Ok (chunk_hashes meta ! unat i)"
      using answer_good [OF S(2,3) i] by blast
    then show ?thesis using that [of bs] S(1) by simp
  qed (use that in blast)
  show ?case unfolding io_foldl.simps
  proof (subst wp_bind, rule full_chunk_wp [OF Cons.prems(1-3) i _ bs0, where n = "length idxs * block_cost + n"], goal_cases)
    case 1
    then show ?case using Cons.prems(5) by (simp add: add.assoc)
  next
    case (2 w1 blk d)
    then have g: "got_block E meta p fd w i blk w1" and inv1: "tcp_inv (b_tcp w1)" "output_open p fd (b_tcp w1)"
      by (simp_all add: got_block_def)
    show ?case unfolding on_ok_simps
    proof (rule Cons.IH [OF inv1 Cons.prems(3) _ 2(4)], goal_cases)
      case 1 then show ?case using Cons.prems(4) by simp
    next
      case 2 then show ?case using \<open>b \<or> sock_in (b_tcp w1) = _\<close> Cons.prems(6) by blast
    next
      case (3 blks w' ds)
      have "Q (Ok (foldl hist_record h (d @ ds))) w'"
        by (rule Cons.prems(7) [OF got_blocks_Cons [OF g 3(1)]]) (use 2(2) 3 in simp_all)
      then show ?case by simp
    next
      case (4 w' e)
      then have "bench_step p w w'" using g by (auto simp: got_block_def intro: bench_step_trans)
      then show ?case using Cons.prems(8) 4(1) by blast
    qed
  next
    case (3 w' e)
    then show ?case using Cons.prems(8) by simp
  qed
qed

definition verified :: "evp \<Rightarrow> file_meta \<Rightarrow> u8 list \<Rightarrow> bool" where
  "verified E meta bytes \<longleftrightarrow>
     (\<exists>msg blks rest. msg_ok msg \<and> parse_filemeta msg = Ok meta \<and> bytes = frame msg @ concat blks @ rest \<and>
        list_all2 (block_ok E meta) blks (upto_u32 (chunk_count meta)))"

definition all_requests :: "file_meta \<Rightarrow> u8 list" where
  "all_requests meta = frame (hs_msg []) @ requests (upto_u32 (chunk_count meta))"

definition session_done :: "evp \<Rightarrow> string \<Rightarrow> int \<Rightarrow> bench_world \<Rightarrow> file_meta \<Rightarrow> bench_world \<Rightarrow> bool" where
  "session_done E p fd w meta w' \<longleftrightarrow>
     bench_step p w w' \<and> tcp_inv (b_tcp w') \<and> output_open p fd (b_tcp w') \<and> verified E meta (sock_in (b_tcp w)) \<and>
     sock_out (b_tcp w') = sock_out (b_tcp w) @ all_requests meta"

definition measured :: "bool \<Rightarrow> full_results \<Rightarrow> file_meta \<Rightarrow> full_results \<Rightarrow> bool" where
  "measured warm res meta res' \<longleftrightarrow>
     (if warm then completion_ns res' = completion_ns res \<and> verify_ns res' = verify_ns res
      else \<exists>d ds. completion_ns res' = completion_ns res @ [d] \<and> verify_ns res' = foldl hist_record (verify_ns res) ds \<and>
             length ds = unat (chunk_count meta))"

definition session_cost :: "file_meta \<Rightarrow> nat" where
  "session_cost meta =
     hello_cost meta + Suc ((unat (chunk_count meta) * (HEADER_SIZE + 4) + HEADER_SIZE) + unat (chunk_count meta) * block_cost)"

lemma upto_u32 [simp]: "length (upto_u32 n) = unat n" "i \<in> set (upto_u32 n) \<longleftrightarrow> i < n"
proof -
  show "length (upto_u32 n) = unat n" by (simp add: upto_u32_def)
  have "\<exists>k<unat n. i = word_of_nat k" if "i < n"
    by (rule exI [of _ "unat i"]) (use that in \<open>simp add: word_less_nat_alt\<close>)
  moreover have "(word_of_nat k :: u32) < n" if "k < unat n" for k
    using that unsigned_less [of n, where ?'a = nat] by (simp add: word_less_nat_alt unat_of_nat)
  ultimately show "i \<in> set (upto_u32 n) \<longleftrightarrow> i < n" by (auto simp: upto_u32_def)
qed

text \<open>The output made as long as announced, or left as it was.\<close>

lemma bench_ftruncate_wp:
  fixes w :: tcp_world
  assumes open': "output_open p fd w" and rd: "ready b w (Suc n)" and len: "b \<or> len < 2 ^ 63"
    and ok: "\<And>r w'. only_file p w w' \<Longrightarrow> output_open p fd w' \<Longrightarrow> world.more w' = world.more w \<Longrightarrow> ready b w' n \<Longrightarrow> Q (Ok r) w'"
  shows "wp b (sys (sys_ftruncate fd len)) Q w"
proof -
  obtain f c where fd: "fds w fd = Some f" "of_path f = p" "files w p = Some c"
    using open' by (auto simp: output_open_def)
  show ?thesis
  proof (rule wp_ftruncate [where f = f and c = c and n = n], goal_cases)
    case (4 w')
    then have "output_open p fd w'" using open' by (simp add: output_open_def same_os_def)
    moreover have "ready b w' n" using 4(1) len by auto
    ultimately show ?case by (intro ok only_file_os 4)
  next
    case (5 w')
    then show ?case by (intro ok) (use fd in \<open>auto simp: only_file_def output_open_def tidy_def\<close>)
  qed (use rd fd in simp_all)
qed

lemma full_session_wp:
  fixes w :: bench_world
  assumes inv: "tcp_inv (b_tcp w)" "output_open p fd (b_tcp w)" and rd: "ready b (b_tcp w) (session_cost meta0 + n)"
    and src: "b \<or> msg_ok (meta_msg meta0) \<and> describes meta0 data \<and> hashed E data (chunk_hashes meta0) \<and> length data < 2 ^ 63 \<and>
      sock_in (b_tcp w) = Push.answers data meta0 (upto_u32 (chunk_count meta0)) @ s"
    and ok: "\<And>w' meta res'. session_done E p fd w meta w' \<Longrightarrow> measured warm res meta res' \<Longrightarrow> b \<or> meta = meta0 \<Longrightarrow>
      ready b (b_tcp w') n \<Longrightarrow> Q (Ok res') w'"
    and fail: "\<And>w' e. b \<Longrightarrow> bench_step p w w' \<Longrightarrow> Q (Throw e) w'"
  shows "wp b (full_session E fd warm res) Q w"
proof -
  let ?k = "unat (chunk_count meta0)"
  let ?n3 = "?k * block_cost + n"
  let ?n2 = "(?k * (HEADER_SIZE + 4) + HEADER_SIZE) + ?n3"
  show ?thesis unfolding full_session_def
  proof (subst wp_bind, subst wp_bench_parts,
      rule bench_hello_wp [OF inv(1), where ?meta0.0 = meta0 and n = "Suc ?n2" and
        s = "concat (map (answer data (file_size meta0)) (upto_u32 (chunk_count meta0))) @ s"], goal_cases)
    case 1
    show ?case by (rule ready_mono [OF rd]) (simp add: session_cost_def)
  next
    case 2
    then show ?case using src by (auto simp: Push.answers_def describes_def)
  next
    case (4 t e)
    then show ?case using fail bench_step_tcp only_file_same by simp
  next
    case (3 t msg meta)
    then have g: "greeted (b_tcp w) meta msg t" by simp
    then have t: "tcp_inv t" "same_os (b_tcp w) t" "later (b_tcp w) t" "sock_in (b_tcp w) = frame msg @ sock_in t"
      "sock_out t = sock_out (b_tcp w) @ frame (hs_msg [])" "msg_ok msg" "parse_filemeta msg = Ok meta"
      by (simp_all add: greeted_def)
    have mok: "filemeta_ok meta" using meta_small_of_msg [OF t(6,7)] by simp
    have op: "output_open p fd t" using inv(2) t(2) by (simp add: output_open_def same_os_def)
    have o1: "only_file p (b_tcp w) t" by (rule only_file_os [OF t(2,3)])
    have len: "b \<or> unat (file_size meta) < 2 ^ 63" using src 3(2) by (auto simp: describes_def)
    define res1 where "res1 = (if \<not> warm \<and> f_file_size res = 0
      then res\<lparr>f_file_size := file_size meta, f_chunk_count := chunk_count meta\<rparr> else res)"
    have same: "completion_ns res1 = completion_ns res" "verify_ns res1 = verify_ns res" by (simp_all add: res1_def)
    let ?idxs = "upto_u32 (chunk_count meta)"
    show ?case unfolding on_ok_simps Let_def res1_def [symmetric]
    proof (subst wp_bind, subst wp_bench_parts,
        rule bench_ftruncate_wp [where p = p and fd = fd and n = ?n2], goal_cases)
      case (4 r t2)
      then have own: "sock_in t2 = sock_in t \<and> sock_out t2 = sock_out t \<and> tcp_inv t2 = tcp_inv t"
        by (intro tcp.own_state) simp
      have o2: "only_file p (b_tcp w) t2" using only_file_trans [OF o1] 4(1) by simp
      show ?case unfolding on_ok_simps
      proof (subst wp_bind, subst wp_bench_parts, rule tcp.request_chunks_wp [where n = ?n3], goal_cases)
        case 1 then show ?case using own t(1) by simp
      next
        case 2 then show ?case using 4(4) \<open>b \<or> meta = meta0 \<and> _\<close> by (cases b) (simp_all add: upto_u32)
      next
        case (4 t3 e)
        then have "only_file p t2 t3" by (simp add: tcp.broken_def only_file_same)
        then have "only_file p (b_tcp w) t3" by (rule only_file_trans [OF o2])
        then show ?case using fail [OF 4(1)] by (simp add: bench_step_def)
      next
        case (3 t3)
        then have m: "same_os t2 t3" "later t2 t3" "sock_in t3 = sock_in t2" "sock_out t3 = sock_out t2 @ requests ?idxs" "tcp_inv t3"
          by (simp_all add: tcp.moved_out_def)
        have o3: "only_file p (b_tcp w) t3" by (rule only_file_trans [OF o2 only_file_os [OF m(1,2)]])
        have op3: "output_open p fd t3" using \<open>output_open p fd t2\<close> m(1) by (simp add: output_open_def same_os_def)
        have rd3: "ready b t3 (unat (chunk_count meta) * block_cost + n)" using 3(2) \<open>b \<or> meta = meta0 \<and> _\<close> by (cases b) simp_all
        show ?case unfolding on_ok_simps
        proof (subst wp_bind, rule wp_now_ns, unfold on_ok_simps, subst wp_bind,
            rule full_chunks_wp [where p = p and n = n and s = s and data = data and meta = meta], goal_cases)
          case (7 t0 v blks ds)
          have gb: "concat blks @ sock_in (b_tcp v) = sock_in t" "list_all2 (block_ok E meta) blks ?idxs"
            "sock_out (b_tcp v) = sock_out (b_tcp w) @ all_requests meta" "bench_step p w v"
            "tcp_inv (b_tcp v)" "output_open p fd (b_tcp v)"
            using 7(1) own m o3 t(5)
            by (auto simp: got_blocks_def all_requests_def bench_step_def intro: only_file_trans)
          have ver: "verified E meta (sock_in (b_tcp w))" unfolding verified_def
            using t(4,6,7) gb(1,2) by (metis append_assoc)
          have done': "session_done E p fd w meta (v\<lparr>b_ticks := k\<rparr>)" for k
            using gb ver by (simp add: session_done_def)
          show ?case unfolding on_ok_simps
          proof (subst wp_bind, rule wp_now_ns, unfold on_ok_simps, goal_cases)
            case (1 t1)
            have "measured warm res meta (if warm then res1\<lparr>verify_ns := foldl hist_record (verify_ns res1) ds\<rparr>
                else res1\<lparr>verify_ns := foldl hist_record (verify_ns res1) ds,
                  completion_ns := completion_ns (res1\<lparr>verify_ns := foldl hist_record (verify_ns res1) ds\<rparr>) @ [t1 - t0]\<rparr>)"
              using 7(2) same by (auto simp: measured_def)
            from ok [OF done' this] show ?case using 3(1) 7(4) \<open>b \<or> meta = meta0 \<and> _\<close> by (auto simp: wp_return)
          qed
        next
          case (8 t0 v e)
          then have "only_file p t3 (b_tcp v)" "b_net v = b_net w" "b_peers v = b_peers w" "b_sent v = b_sent w"
            by (simp_all add: bench_step_def)
          then have "bench_step p w v" using only_file_trans [OF o3] by (simp add: bench_step_def)
          then show ?case using fail 8(1) by simp
        next
          case (6 t0)
          then show ?case using src \<open>b \<or> meta = meta0 \<and> _\<close> own m(3) by (cases b) simp_all
        qed (use m op3 mok rd3 in simp_all)
      qed
    qed (use op 3(3) len in simp_all)
  qed
qed

section \<open>Connecting and hanging up\<close>

definition net_kept :: "bench_world \<Rightarrow> bench_world \<Rightarrow> bool" where
  "net_kept w w' \<longleftrightarrow> mset (held (b_net w')) = mset (held (b_net w)) \<and> bad_frees (b_net w') = bad_frees (b_net w)"

definition run_kept :: "string \<Rightarrow> bench_world \<Rightarrow> bench_world \<Rightarrow> bool" where
  "run_kept p w w' \<longleftrightarrow> only_file p (b_tcp w) (b_tcp w') \<and> net_kept w w'"

lemma run_kept_refl [simp]: "run_kept p w w"
  by (simp add: run_kept_def net_kept_def)

lemma run_kept_trans: "run_kept p w w1 \<Longrightarrow> run_kept p w1 w2 \<Longrightarrow> run_kept p w w2"
  by (auto simp: run_kept_def net_kept_def intro: only_file_trans)

text \<open>A connection that is made: the next peer is at the other end, and its socket is held.\<close>

definition dialled :: "bench_world \<Rightarrow> nat \<Rightarrow> bench_world \<Rightarrow> bool" where
  "dialled w sock w' \<longleftrightarrow>
     tcp_inv (b_tcp w') \<and> same_os (b_tcp w) (b_tcp w') \<and> later (b_tcp w) (b_tcp w') \<and> b_sent w' = b_sent w \<and> b_tmp w' = b_tmp w \<and>
     sock_in (b_tcp w') = (case b_peers w of [] \<Rightarrow> [] | x # _ \<Rightarrow> x) \<and> sock_out (b_tcp w') = [] \<and> b_peers w' = tl (b_peers w) \<and>
     mset (held (b_net w')) = add_mset (Socket_fd, sock) (mset (held (b_net w))) \<and> bad_frees (b_net w') = bad_frees (b_net w)"

lemma make_connection_wp:
  assumes src: "b \<or> (\<exists>as. sysw.answers n = 0 # 1 # 0 # as)"
    and ok: "\<And>sock n'. mset (held n') = add_mset (Socket_fd, sock) (mset (held n)) \<Longrightarrow> bad_frees n' = bad_frees n \<Longrightarrow>
      b \<or> sysw.answers n' = drop 3 (sysw.answers n) \<Longrightarrow> Q (Ok sock) n'"
    and fail: "\<And>n' e. b \<Longrightarrow> mset (held n') = mset (held n) \<Longrightarrow> bad_frees n' = bad_frees n \<Longrightarrow> Q (Throw e) n'"
  shows "wp b (make_connection_fd host port sz) Q n"
proof (cases b)
  case True
  have "wp True (make_connection_fd host port sz) Q n"
  proof (rule wpI)
    fix r n' assume run: "make_connection_fd host port sz n = Some (r, n')"
    from bench_connects.make_settles [OF run]
    have "r \<noteq> Undef \<and> bad_frees n' = bad_frees n \<and> mset (held n') = mset (held n) +
        (case r of Ok fd \<Rightarrow> {#(Socket_fd, fd)#} | _ \<Rightarrow> {#})" by (simp cong: res.case_cong)
    then show "Q r n'" using ok fail True by (cases r) auto
  qed
  then show ?thesis using True by simp
next
  case False
  then obtain as where a: "sysw.answers n = 0 # 1 # 0 # as" using src by blast
  have "\<exists>sock n'. make_connection_fd host port sz n = Some (Ok sock, n') \<and> sysw.answers n' = as"
    by (cases "sz > 0") (simp_all add: make_connection_fd_def acquire_def require_def io_bind_def do_call_def note_call_def
        obtained_def a is_one_def not_neg_def io_ret_def)
  then obtain sock n' where run: "make_connection_fd host port sz n = Some (Ok sock, n')" and a': "sysw.answers n' = as" by blast
  from bench_connects.make_settles [OF run]
  have "mset (held n') = add_mset (Socket_fd, sock) (mset (held n))" "bad_frees n' = bad_frees n" by simp_all
  then have "Q (Ok sock) n'" by (rule ok) (simp add: a a')
  then show ?thesis using False run by (simp add: wp_def)
qed

lemma bench_dial_wp:
  assumes "b \<or> (\<exists>as. sysw.answers (b_net w) = 0 # 1 # 0 # as)" and rd: "ready b (b_tcp w) n"
    and ok: "\<And>sock w'. dialled w sock w' \<Longrightarrow> b \<or> sysw.answers (b_net w') = drop 3 (sysw.answers (b_net w)) \<Longrightarrow>
      ready b (b_tcp w') n \<Longrightarrow> Q (Ok sock) w'"
    and fail: "\<And>w' e. b \<Longrightarrow> b_tcp w' = b_tcp w \<Longrightarrow> net_kept w w' \<Longrightarrow> b_tmp w' = b_tmp w \<Longrightarrow> Q (Throw e) w'"
  shows "wp b (bench_dial cfg) Q w"
  unfolding bench_dial_def
proof (subst wp_bind, subst wp_bench_parts, rule make_connection_wp [OF assms(1)], goal_cases)
  case (1 sock n')
  let ?t = "(b_tcp w)\<lparr>sock_in := (case b_peers w of [] \<Rightarrow> [] | p # _ \<Rightarrow> p), sock_out := [], pipe_open := False, pipe_buf := []\<rparr>"
  have "ready b ?t n" using rd by (simp add: ready_def fair_def fuel_def)
  then have "Q (Ok sock) (attach_peer (w\<lparr>b_net := n'\<rparr>))"
    by (intro ok) (use 1 in \<open>simp_all add: dialled_def attach_peer_def tcp_inv_def\<close>)
  then show ?case by (simp add: wp_simps)
next
  case (2 n' e)
  then show ?case using fail by (simp add: net_kept_def)
qed

lemma hang_up_net:
  assumes d: "dialled w sock w1" and "b_net w2 = b_net w1"
  shows "net_kept w (hang_up sock w2)"
proof -
  have h: "mset (held (b_net w2)) = add_mset (Socket_fd, sock) (mset (held (b_net w)))" "bad_frees (b_net w2) = bad_frees (b_net w)"
    using d assms(2) by (simp_all add: dialled_def)
  have "mset [(Socket_fd, sock)] \<subseteq># mset (held (b_net w2))" unfolding h by simp
  from releases_held [OF this] show ?thesis by (simp add: h net_kept_def hang_up_def)
qed

lemma hang_up_kept:
  assumes d: "dialled w sock w1" and "b_net w2 = b_net w1" and o: "only_file p (b_tcp w1) (b_tcp w2)"
  shows "run_kept p w (hang_up sock w2)"
proof -
  have "only_file p (b_tcp w) (b_tcp w1)" using d by (simp add: dialled_def only_file_os)
  from only_file_trans [OF this o] have "only_file p (b_tcp w) (b_tcp (hang_up sock w2))"
    by (simp add: only_file_def tidy_def later_def hang_up_def)
  then show ?thesis using hang_up_net [OF assms(1,2)] by (simp add: run_kept_def)
qed

lemma answers_release: "sysw.answers (releases xs n) = sysw.answers n"
proof (induction xs arbitrary: n)
  case (Cons x xs)
  have "sysw.answers (release x n) = sysw.answers n" by (simp add: release_def)
  then show ?case using Cons by (simp add: releases_def)
qed (simp add: releases_def)

definition run_done :: "evp \<Rightarrow> string \<Rightarrow> int \<Rightarrow> bench_world \<Rightarrow> file_meta \<Rightarrow> bench_world \<Rightarrow> bool" where
  "run_done E p fd w meta w' \<longleftrightarrow>
     run_kept p w w' \<and> output_open p fd (b_tcp w') \<and> b_sent w' = b_sent w @ [all_requests meta] \<and>
     (\<exists>x. b_peers w = x # b_peers w' \<and> verified E meta x)"

lemma verified_not_Nil: "\<not> verified E meta []"
  by (auto simp: verified_def frame_def)

lemma full_run_wp:
  assumes op: "output_open p fd (b_tcp w)" and rd: "ready b (b_tcp w) (session_cost meta0 + n)"
    and src: "b \<or> msg_ok (meta_msg meta0) \<and> describes meta0 data \<and> hashed E data (chunk_hashes meta0) \<and> length data < 2 ^ 63 \<and>
      (\<exists>as. sysw.answers (b_net w) = 0 # 1 # 0 # as) \<and>
      (\<exists>xs. b_peers w = Push.answers data meta0 (upto_u32 (chunk_count meta0)) # xs)"
    and ok: "\<And>w' meta res'. run_done E p fd w meta w' \<Longrightarrow> measured (run < c_warmup cfg) res meta res' \<Longrightarrow>
      b \<or> meta = meta0 \<and> sysw.answers (b_net w') = drop 3 (sysw.answers (b_net w)) \<Longrightarrow> ready b (b_tcp w') n \<Longrightarrow> Q (Ok res') w'"
    and fail: "\<And>w' e. b \<Longrightarrow> run_kept p w w' \<Longrightarrow> Q (Throw e) w'"
  shows "wp b (full_run E cfg fd res run) Q w"
  unfolding full_run_def
proof (subst wp_bind, rule bench_dial_wp [OF _ rd], goal_cases)
  case 1
  then show ?case using src by blast
next
  case (3 w' e)
  then show ?case using fail by (simp add: run_kept_def)
next
  case (2 sock w1)
  then have d: "tcp_inv (b_tcp w1)" "same_os (b_tcp w) (b_tcp w1)" "b_sent w1 = b_sent w" "b_peers w1 = tl (b_peers w)"
    "sock_out (b_tcp w1) = []" "sock_in (b_tcp w1) = (case b_peers w of [] \<Rightarrow> [] | x # _ \<Rightarrow> x)"
    by (simp_all add: dialled_def)
  have op1: "output_open p fd (b_tcp w1)" using op d(2) by (simp add: output_open_def same_os_def)
  show ?case unfolding on_ok_simps wp_finally
  proof (rule full_session_wp [OF d(1) op1 2(3), where data = data and s = "[]"], goal_cases)
    case 1
    then show ?case using src d(6) by auto
  next
    case (3 w2 e)
    then show ?case using fail hang_up_kept [OF 2(1)] by (simp add: bench_step_def)
  next
    case (2 w2 meta res')
    then have s: "only_file p (b_tcp w1) (b_tcp w2)" "b_net w2 = b_net w1" "b_peers w2 = b_peers w1" "b_sent w2 = b_sent w1"
      "output_open p fd (b_tcp w2)" "verified E meta (sock_in (b_tcp w1))" "sock_out (b_tcp w2) = all_requests meta"
      using d(5) by (simp_all add: session_done_def bench_step_def)
    have "b_peers w \<noteq> []" using s(6) d(6) verified_not_Nil by auto
    then obtain x xs where x: "b_peers w = x # xs" by (cases "b_peers w") auto
    have "run_done E p fd w meta (hang_up sock w2)"
      unfolding run_done_def
      using hang_up_kept [OF \<open>dialled w sock w1\<close> s(2,1)] s d x
      by (simp add: hang_up_def output_open_def)
    moreover have "ready b (b_tcp (hang_up sock w2)) n" using 2(4) by (simp add: hang_up_def ready_def fair_def fuel_def)
    moreover have "sysw.answers (b_net (hang_up sock w2)) = sysw.answers (b_net w1)"
      using s(2) by (simp add: hang_up_def answers_release)
    ultimately show ?case using ok 2(2,3) \<open>b \<or> sysw.answers (b_net w1) = _\<close> by auto
  qed
qed

section \<open>The full loop\<close>

definition runs_done ::
    "evp \<Rightarrow> nat \<Rightarrow> string \<Rightarrow> int \<Rightarrow> bench_world \<Rightarrow> file_meta list \<Rightarrow> full_results \<Rightarrow> bench_world \<Rightarrow> bool" where
  "runs_done E W p fd w ms res w' \<longleftrightarrow>
     run_kept p w w' \<and> output_open p fd (b_tcp w') \<and> b_sent w' = b_sent w @ map all_requests ms \<and>
     (\<exists>xs. b_peers w = xs @ b_peers w' \<and> list_all2 (verified E) ms xs) \<and> length (completion_ns res) = length ms - W \<and>
     (\<exists>ds. verify_ns res = foldl hist_record Histogram ds \<and> length ds = (\<Sum>m \<leftarrow> drop W ms. unat (chunk_count m)))"

lemma runs_done_step:
  assumes R: "runs_done E W p fd w ms res w1" and d: "run_done E p fd w1 meta w'"
    and m: "measured (length ms < W) res meta res'"
  shows "runs_done E W p fd w (ms @ [meta]) res' w'"
proof -
  obtain xs ds where R': "run_kept p w w1" "b_sent w1 = b_sent w @ map all_requests ms" "b_peers w = xs @ b_peers w1"
    "list_all2 (verified E) ms xs" "length (completion_ns res) = length ms - W"
    "verify_ns res = foldl hist_record Histogram ds" "length ds = (\<Sum>m \<leftarrow> drop W ms. unat (chunk_count m))"
    using R unfolding runs_done_def by blast
  obtain x where D: "run_kept p w1 w'" "output_open p fd (b_tcp w')" "b_sent w' = b_sent w1 @ [all_requests meta]"
    "b_peers w1 = x # b_peers w'" "verified E meta x"
    using d unfolding run_done_def by blast
  have "\<exists>xs. b_peers w = xs @ b_peers w' \<and> list_all2 (verified E) (ms @ [meta]) xs"
    by (rule exI [of _ "xs @ [x]"]) (use R'(3,4) D(4,5) in \<open>simp add: list_all2_appendI\<close>)
  moreover have "length (completion_ns res') = length (ms @ [meta]) - W"
    using m R'(5) by (auto simp: measured_def split: if_splits)
  moreover have "\<exists>ds. verify_ns res' = foldl hist_record Histogram ds \<and> length ds = (\<Sum>m \<leftarrow> drop W (ms @ [meta]). unat (chunk_count m))"
  proof (cases "length ms < W")
    case True
    then show ?thesis using m R'(6,7) by (intro exI [of _ ds]) (simp add: measured_def)
  next
    case False
    then obtain ds' where "verify_ns res' = foldl hist_record (verify_ns res) ds'" "length ds' = unat (chunk_count meta)"
      using m by (auto simp: measured_def)
    then show ?thesis using False R'(6,7) by (intro exI [of _ "ds @ ds'"]) simp
  qed
  ultimately show ?thesis using run_kept_trans [OF R'(1) D(1)] R'(2) D(2,3) by (simp add: runs_done_def)
qed

text \<open>A sender that sends \<open>reply\<close> on each of the next connections, and the answers of the system that let each connection be made.\<close>

definition sender_ready :: "u8 list \<Rightarrow> nat \<Rightarrow> bench_world \<Rightarrow> bool" where
  "sender_ready reply k w \<longleftrightarrow>
     (\<exists>xs. b_peers w = replicate k reply @ xs) \<and>
     (\<exists>as. sysw.answers (b_net w) = concat (replicate k [0, 1, 0]) @ as)"

definition full_reply :: "u8 list \<Rightarrow> file_meta \<Rightarrow> u8 list" where
  "full_reply data meta = Push.answers data meta (upto_u32 (chunk_count meta))"

definition sender_good :: "evp \<Rightarrow> file_meta \<Rightarrow> u8 list \<Rightarrow> bool" where
  "sender_good E meta data \<longleftrightarrow> msg_ok (meta_msg meta) \<and> describes meta data \<and> hashed E data (chunk_hashes meta) \<and> length data < 2 ^ 63"

lemma upto_u32_drop: "k < unat n \<Longrightarrow> drop k (upto_u32 n) = word_of_nat k # drop (Suc k) (upto_u32 n)"
  by (subst Cons_nth_drop_Suc [symmetric]) (simp_all add: upto_u32_def)

lemma u32_index_less: "k < unat n \<Longrightarrow> (word_of_nat k :: u32) < m \<longleftrightarrow> k < unat m" for n m :: u32
  using unsigned_less [of n, where ?'a = nat] by (simp add: word_less_nat_alt unat_of_nat)

lemma full_runs_wp:
  fixes w :: bench_world
  assumes op: "output_open p fd (b_tcp w)" and n: "n = runs_full cfg + c_warmup cfg"
    and rd: "ready b (b_tcp w) (unat n * session_cost meta0)"
    and src: "b \<or> sender_good E meta0 data \<and> sender_ready (full_reply data meta0) (unat n) w"
    and ok: "\<And>w' ms res. runs_done E (unat (c_warmup cfg)) p fd w ms res w' \<Longrightarrow> length ms = unat n \<Longrightarrow>
      b \<or> set ms \<subseteq> {meta0} \<Longrightarrow> Q (Ok res) w'"
    and fail: "\<And>w' e. b \<Longrightarrow> run_kept p w w' \<Longrightarrow> Q (Throw e) w'"
  shows "wp b (io_foldl (full_run E cfg fd) \<lparr>completion_ns = [], verify_ns = Histogram, f_file_size = 0, f_chunk_count = 0\<rparr>
    (upto_u32 n)) Q w"
proof -
  let ?W = "unat (c_warmup cfg)" and ?C = "session_cost meta0"
  define I where "I = (\<lambda>ys res w'. \<exists>ms. length ms \<le> unat n \<and> ys = drop (length ms) (upto_u32 n) \<and> runs_done E ?W p fd w ms res w' \<and>
    (b \<or> set ms \<subseteq> {meta0} \<and> sender_good E meta0 data \<and> sender_ready (full_reply data meta0) (unat n - length ms) w') \<and>
    ready b (b_tcp w') ((unat n - length ms) * ?C))"
  show ?thesis
  proof (rule wp_foldl [where I = I], goal_cases)
    case 1
    have "runs_done E ?W p fd w [] \<lparr>completion_ns = [], verify_ns = Histogram, f_file_size = 0, f_chunk_count = 0\<rparr> w"
      using op by (simp add: runs_done_def)
    then show ?case unfolding I_def by (intro exI [of _ "[]"]) (use src rd in auto)
  next
    case (3 res w')
    then obtain ms where ms: "length ms \<le> unat n" "[] = drop (length ms) (upto_u32 n)" "runs_done E ?W p fd w ms res w'"
      "b \<or> set ms \<subseteq> {meta0}" unfolding I_def by blast
    have "length ms = unat n" using ms(1) arg_cong [OF ms(2), of length] by simp
    then show ?case using ok ms(3,4) by blast
  next
    case (2 x ys res w1)
    then obtain ms where ms: "length ms \<le> unat n" "x # ys = drop (length ms) (upto_u32 n)" "runs_done E ?W p fd w ms res w1"
      "b \<or> set ms \<subseteq> {meta0} \<and> sender_good E meta0 data \<and> sender_ready (full_reply data meta0) (unat n - length ms) w1"
      "ready b (b_tcp w1) ((unat n - length ms) * ?C)" unfolding I_def by blast
    have k: "length ms < unat n" using ms(1) arg_cong [OF ms(2), of length] by simp
    then have x: "x = word_of_nat (length ms)" "ys = drop (Suc (length ms)) (upto_u32 n)"
      using ms(2) upto_u32_drop by simp_all
    have warm: "x < c_warmup cfg \<longleftrightarrow> length ms < ?W" unfolding x(1) by (rule u32_index_less [OF k])
    have suc: "unat n - length ms = Suc (unat n - Suc (length ms))" using k by simp
    have op1: "output_open p fd (b_tcp w1)" "run_kept p w w1" using ms(3) by (simp_all add: runs_done_def)
    show ?case
    proof (rule full_run_wp [OF op1(1), where ?meta0.0 = meta0 and data = data and n = "(unat n - Suc (length ms)) * ?C"], goal_cases)
      case 1
      then show ?case using ms(5) by (simp only: suc mult_Suc)
    next
      case 2
      then show ?case using ms(4) unfolding suc by (auto simp: sender_good_def sender_ready_def full_reply_def)
    next
      case (4 w' e)
      then show ?case using fail run_kept_trans [OF op1(2)] by simp
    next
      case (3 w' meta res')
      have R: "runs_done E ?W p fd w (ms @ [meta]) res' w'"
        by (rule runs_done_step [OF ms(3) 3(1) 3(2) [unfolded warm]])
      have "b \<or> sender_ready (full_reply data meta0) (unat n - length (ms @ [meta])) w'"
      proof (cases b)
        case False
        obtain y where "b_peers w1 = y # b_peers w'" using 3(1) unfolding run_done_def by blast
        then show ?thesis using False ms(4) 3(3) unfolding suc sender_ready_def by auto
      qed simp
      then have "I ys res' w'" unfolding I_def
        by (intro exI [of _ "ms @ [meta]"]) (use R k x ms(4) 3(3,4) in auto)
      then show ?case by simp
    qed
  qed
qed

text \<open>The output file: made under a name that is new, and then without a name.\<close>

definition fresh_tmp :: "string \<Rightarrow> tcp_world \<Rightarrow> bool" where
  "fresh_tmp p w \<longleftrightarrow> wf_fds w \<and> files w p = None \<and> files w (deleted p) = None \<and> (\<forall>fd f. fds w fd = Some f \<longrightarrow> of_path f \<noteq> p)"

definition others_kept :: "string \<Rightarrow> tcp_world \<Rightarrow> tcp_world \<Rightarrow> bool" where
  "others_kept p w w' \<longleftrightarrow> (\<forall>q. q \<noteq> p \<longrightarrow> q \<noteq> deleted p \<longrightarrow> files w' q = files w q) \<and> bad_closes w' = bad_closes w"

lemma deleted_other [simp]: "deleted p \<noteq> p" "p \<noteq> deleted p"
  by (simp_all add: deleted_def)

lemma sys_mkstemp_wp:
  fixes w :: tcp_world
  assumes new: "fresh_tmp p w" and rd: "ready b w (Suc n)"
    and ok: "\<And>fd w'. holds fd \<lparr>of_path = p, of_pos = 0\<rparr> w w' \<Longrightarrow> files w' = (files w)(p \<mapsto> []) \<Longrightarrow>
      world.more w' = world.more w \<Longrightarrow> ready b w' n \<Longrightarrow> Q (Ok fd) w'"
    and fail: "\<And>w'. b \<Longrightarrow> tidy w w' \<Longrightarrow> files w' = files w \<Longrightarrow> Q (Ok (-1)) w'"
  shows "wp b (sys (sys_mkstemp p)) Q w"
proof -
  have "files w p = None" and wf: "wf_fds w" using new by (simp_all add: fresh_tmp_def)
  then have "wp b (sys (sys_mkstemp p)) Q w = wp b (sys (sys_open p True True)) Q w"
    by (simp add: wp_def sys_def sys_mkstemp_def)
  moreover have "wp b (sys (sys_open p True True)) Q w"
    by (rule wp_open [OF wf rd]) (use ok fail in auto)
  ultimately show ?thesis by simp
qed

lemma sys_unlink_open_wp:
  fixes w :: tcp_world
  assumes h: "holds fd \<lparr>of_path = p, of_pos = 0\<rparr> w0 w" and fl: "files w = (files w0)(p \<mapsto> [])" and new: "fresh_tmp p w0"
    and rd: "ready b w (Suc n)"
    and ok: "\<And>q w'. q = p \<or> q = deleted p \<Longrightarrow> holds fd \<lparr>of_path = q, of_pos = 0\<rparr> w0 w' \<Longrightarrow> files w' q \<noteq> None \<Longrightarrow>
      others_kept p w0 w' \<Longrightarrow> ready b w' n \<Longrightarrow> Q (Ok ()) w'"
  shows "wp b (sys (sys_unlink_open p)) Q w"
proof (rule sys_next_cases [OF rd])
  assume "sys_next w = None" "b"
  then show ?thesis by (simp add: wp_def sys_def sys_unlink_open_def)
next
  fix e w1 assume *: "sys_next w = Some (Fail e, w1)" "b" "same_os w w1" "later w w1"
  have "Q (Ok ()) (w1\<lparr>errno := e\<rparr>)"
    by (rule ok [of p]) (use * h fl in \<open>auto simp: holds_def same_os_def later_def others_kept_def\<close>)
  then show ?thesis using * by (simp add: wp_def sys_def sys_unlink_open_def)
next
  fix k w1 assume *: "sys_next w = Some (Xfer k, w1)" "same_os w w1" "later w w1" "ready b w1 n"
  let ?fds = "\<lambda>x. map_option (\<lambda>f. if of_path f = p then f\<lparr>of_path := deleted p\<rparr> else f) (fds w1 x)"
  let ?w = "w1\<lparr>files := (files w1)(p := None, deleted p := files w1 p), fds := ?fds\<rparr>"
  have old: "map_option (\<lambda>f. if of_path f = p then f\<lparr>of_path := deleted p\<rparr> else f) (fds w0 x) = fds w0 x" for x
    using new by (cases "fds w0 x") (auto simp: fresh_tmp_def)
  have "fds w1 = (fds w0)(fd \<mapsto> \<lparr>of_path = p, of_pos = 0\<rparr>)" using * h by (simp add: same_os_def holds_def)
  then have f: "?fds = (fds w0)(fd \<mapsto> \<lparr>of_path = deleted p, of_pos = 0\<rparr>)" by (intro ext) (simp add: old)
  have "Q (Ok ()) ?w"
  proof (rule ok [of "deleted p"])
    show "holds fd \<lparr>of_path = deleted p, of_pos = 0\<rparr> w0 ?w"
      using h * unfolding f by (auto simp: holds_def same_os_def later_def)
    show "others_kept p w0 ?w" using h * fl by (auto simp: others_kept_def same_os_def holds_def)
    show "files ?w (deleted p) \<noteq> None" using * fl by (simp add: same_os_def)
    show "ready b ?w n" using *(4) by (simp add: ready_def fair_def fuel_def)
  qed simp
  then show ?thesis using * by (simp add: wp_def sys_def sys_unlink_open_def)
qed

text \<open>What the whole loop leaves when it returns, and when an exception leaves it.\<close>

definition full_returned :: "evp \<Rightarrow> bench_config \<Rightarrow> bench_world \<Rightarrow> file_meta list \<Rightarrow> full_results \<Rightarrow> bench_world \<Rightarrow> bool" where
  "full_returned E cfg w ms res w' \<longleftrightarrow>
     length ms = unat (runs_full cfg + c_warmup cfg) \<and> b_sent w' = b_sent w @ map all_requests ms \<and>
     (\<exists>xs. b_peers w = xs @ b_peers w' \<and> list_all2 (verified E) ms xs) \<and>
     length (completion_ns res) = length ms - unat (c_warmup cfg) \<and>
     total (verify_ns res) = word_of_nat (\<Sum>m \<leftarrow> drop (unat (c_warmup cfg)) ms. unat (chunk_count m))"

lemma run_full_loop_wp:
  fixes w :: bench_world
  assumes new: "fresh_tmp (b_tmp w) (b_tcp w)" and n: "n = runs_full cfg + c_warmup cfg"
    and rd: "ready b (b_tcp w) (2 + unat n * session_cost meta0)"
    and src: "b \<or> sender_good E meta0 data \<and> sender_ready (full_reply data meta0) (unat n) w"
    and ok: "\<And>w' ms res. full_returned E cfg w ms res w' \<Longrightarrow> b \<or> set ms \<subseteq> {meta0} \<Longrightarrow>
      tidy (b_tcp w) (b_tcp w') \<Longrightarrow> others_kept (b_tmp w) (b_tcp w) (b_tcp w') \<Longrightarrow> net_kept w w' \<Longrightarrow> Q (Ok res) w'"
    and fail: "\<And>w' e. b \<Longrightarrow> tidy (b_tcp w) (b_tcp w') \<or> (\<exists>fd f. holds fd f (b_tcp w) (b_tcp w')) \<Longrightarrow>
      others_kept (b_tmp w) (b_tcp w) (b_tcp w') \<Longrightarrow> net_kept w w' \<Longrightarrow> Q (Throw e) w'"
  shows "wp b (run_full_loop E cfg) Q w"
proof -
  let ?p = "b_tmp w" and ?t = "b_tcp w"
  show ?thesis unfolding run_full_loop_def
  proof (subst wp_bind, subst wp_state, unfold on_ok_simps, subst wp_bind, subst wp_bench_parts,
      rule sys_mkstemp_wp [OF new, where n = "Suc (unat n * session_cost meta0)"], goal_cases)
    case 1
    then show ?case using rd by simp
  next
    case (3 t)
    then have "others_kept ?p ?t t" by (simp add: others_kept_def tidy_def)
    then show ?case using fail [of "w\<lparr>b_tcp := t\<rparr>"] 3 by (simp add: wp_simps net_kept_def)
  next
    case (2 fd t)
    then have pos: "(fd < 0) = False" by (simp add: holds_def)
    show ?case unfolding on_ok_simps pos if_False
    proof (subst wp_bind, subst wp_bench_parts,
        intro sys_unlink_open_wp [OF _ _ new, where fd = fd and n = "unat n * session_cost meta0"], goal_cases)
      case (4 q u)
      then have 4: "q = ?p \<or> q = deleted ?p" "holds fd \<lparr>of_path = q, of_pos = 0\<rparr> ?t u" "files u q \<noteq> None" "others_kept ?p ?t u"
          "ready b u (unat n * session_cost meta0)" by simp_all
      let ?v = "w\<lparr>b_tcp := t, b_tcp := u\<rparr>"
      have op: "output_open q fd (b_tcp ?v)" using 4(2,3) by (auto simp: output_open_def holds_def)
      show ?case unfolding on_ok_simps n [symmetric]
      proof (subst wp_bind, rule full_runs_wp [OF op n, where ?meta0.0 = meta0 and data = data], goal_cases)
        case 1
        then show ?case using 4(5) by simp
      next
        case 2
        then show ?case using src by (simp add: sender_ready_def)
      next
        case (3 w' ms res)
        then have k: "only_file q u (b_tcp w')" "net_kept w w'"
          by (simp_all add: runs_done_def run_kept_def net_kept_def)
        have others: "others_kept ?p ?t (b_tcp w')" using k(1) 4(1,4) by (auto simp: others_kept_def only_file_def tidy_def)
        have "holds fd \<lparr>of_path = q, of_pos = 0\<rparr> ?t (b_tcp w')" using holds_tidy [OF 4(2)] k(1) by (simp add: only_file_def)
        note cl = holds_close [OF this]
        obtain ds where ds: "verify_ns res = foldl hist_record Histogram ds"
          "length ds = (\<Sum>m \<leftarrow> drop (unat (c_warmup cfg)) ms. unat (chunk_count m))" using 3(1) unfolding runs_done_def by blast
        have "full_returned E cfg w ms res (w'\<lparr>b_tcp := sys_close fd (b_tcp w')\<rparr>)"
          using 3(1,2) n ds by (simp add: full_returned_def runs_done_def hist_fold)
        then have "Q (Ok res) (w'\<lparr>b_tcp := sys_close fd (b_tcp w')\<rparr>)"
          by (rule ok) (use cl others k(2) 3(3) in \<open>simp_all add: others_kept_def net_kept_def tidy_def\<close>)
        then show ?case by (simp add: wp_simps)
      next
        case (4 w' e)
        then have b and k: "only_file q u (b_tcp w')" "net_kept w w'" by (simp_all add: run_kept_def net_kept_def)
        have "others_kept ?p ?t (b_tcp w')" using k(1) \<open>q = ?p \<or> _\<close> \<open>others_kept ?p ?t u\<close>
          by (auto simp: others_kept_def only_file_def tidy_def)
        moreover have "holds fd \<lparr>of_path = q, of_pos = 0\<rparr> ?t (b_tcp w')"
          using holds_tidy [OF \<open>holds fd _ _ u\<close>] k(1) by (simp add: only_file_def)
        ultimately show ?case using fail [OF \<open>b\<close>] k(2) by auto
      qed
    qed (use 2 in simp_all)
  qed
qed

section \<open>The short loop\<close>

definition short_sent :: "u8 list" where
  "short_sent = frame (hs_msg []) @ requests [0]"

definition short_cost :: "file_meta \<Rightarrow> nat" where
  "short_cost meta = hello_cost meta + (((HEADER_SIZE + 4) + HEADER_SIZE) + (HEADER_SIZE + 4))"

definition unchanged :: "tcp_world \<Rightarrow> tcp_world \<Rightarrow> bool" where
  "unchanged w w' \<longleftrightarrow> tidy w w' \<and> files w' = files w"

lemma unchanged_os: "same_os w w' \<Longrightarrow> later w w' \<Longrightarrow> unchanged w w'"
  by (simp add: unchanged_def tidy_same_os same_os_def)

lemma unchanged_trans: "unchanged w w1 \<Longrightarrow> unchanged w1 w2 \<Longrightarrow> unchanged w w2"
  by (auto simp: unchanged_def intro: tidy_trans)

lemma short_session_wp:
  fixes w :: bench_world
  assumes inv: "tcp_inv (b_tcp w)" and rd: "ready b (b_tcp w) (short_cost meta0 + n)"
    and src: "b \<or> msg_ok (meta_msg meta0) \<and> filemeta_ok meta0 \<and> sock_in (b_tcp w) = frame (meta_msg meta0) @ frame (hdr_msg 0) @ s"
    and ok: "\<And>t k res' d. unchanged (b_tcp w) t \<Longrightarrow> sock_in (b_tcp w) \<noteq> [] \<Longrightarrow>
      sock_out t = sock_out (b_tcp w) @ short_sent \<Longrightarrow> peer_connect_ns res' = peer_connect_ns res \<Longrightarrow> ttfc_ns res' = ttfc_ns res \<Longrightarrow>
      ready b t n \<Longrightarrow> Q (Ok (res', d)) (w\<lparr>b_tcp := t, b_ticks := k\<rparr>)"
    and fail: "\<And>t k e. b \<Longrightarrow> unchanged (b_tcp w) t \<Longrightarrow> Q (Throw e) (w\<lparr>b_tcp := t, b_ticks := k\<rparr>)"
  shows "wp b (short_session warm res) Q w"
proof -
  let ?n2 = "(HEADER_SIZE + 4) + n"
  have fl: "Q (Throw e) (w\<lparr>b_tcp := t\<rparr>)" if "b" "unchanged (b_tcp w) t" for t e
    using fail [OF that, of e "b_ticks w"] by simp
  have hok: "msg_ok (hdr_msg 0)" by (simp add: msg_ok_def unat_MAX_PAYLOAD_SIZE)
  show ?thesis unfolding short_session_def
  proof (subst wp_bind, subst wp_bench_parts,
      rule bench_hello_wp [OF inv, where ?meta0.0 = meta0 and s = "frame (hdr_msg 0) @ s" and
        n = "length [0 :: u32] * (HEADER_SIZE + 4) + HEADER_SIZE + ?n2"], goal_cases)
    case 1
    show ?case by (rule ready_mono [OF rd]) (simp add: short_cost_def)
  next
    case 2
    then show ?case using src by auto
  next
    case (4 t e)
    then show ?case using fl by (simp add: unchanged_def)
  next
    case (3 t msg meta)
    then have t: "tcp_inv t" "same_os (b_tcp w) t" "later (b_tcp w) t" "sock_in (b_tcp w) = frame msg @ sock_in t"
      "sock_out t = sock_out (b_tcp w) @ frame (hs_msg [])" by (simp_all add: greeted_def)
    have u1: "unchanged (b_tcp w) t" by (rule unchanged_os [OF t(2,3)])
    define res1 where "res1 = (if \<not> warm \<and> s_file_size res = 0
      then res\<lparr>s_file_size := file_size meta, s_chunk_count := chunk_count meta\<rparr> else res)"
    have same: "peer_connect_ns res1 = peer_connect_ns res" "ttfc_ns res1 = ttfc_ns res" by (simp_all add: res1_def)
    show ?case unfolding on_ok_simps Let_def res1_def [symmetric]
    proof (subst wp_bind, subst wp_bench_parts, rule tcp.request_chunks_wp [where n = ?n2], goal_cases)
      case 1 then show ?case using t(1) by simp
    next
      case 2 then show ?case using 3(3) by simp
    next
      case (4 v e)
      then have "unchanged t v" by (simp add: tcp.broken_def unchanged_def)
      then show ?case using fl [OF 4(1) unchanged_trans [OF u1]] by simp
    next
      case (3 v)
      then have v: "unchanged t v" "sock_in v = sock_in t" "sock_out v = sock_out t @ requests [0]" "tcp_inv v"
        by (simp_all add: tcp.moved_out_def unchanged_os)
      have u2: "unchanged (b_tcp w) v" by (rule unchanged_trans [OF u1 v(1)])
      show ?case unfolding on_ok_simps
      proof (subst wp_bind, rule wp_now_ns, unfold on_ok_simps, subst wp_bind, subst wp_bench_parts,
          rule tcp.wp_recv_msg [where k = 4 and n = n], goal_cases)
        case 1 then show ?case using v(4) by simp
      next
        case 2 then show ?case using 3(2) by simp
      next
        case 3
        show ?case
        proof (cases b)
          case False
          then have "sock_in v = frame (hdr_msg 0) @ s" using \<open>b \<or> meta = meta0 \<and> _\<close> v(2) by simp
          then show ?thesis using hok by (intro disjI2 exI [of _ "hdr_msg 0"] exI [of _ s]) simp
        qed simp
      next
        case (5 t0 x e)
        then have "unchanged v x" by (simp add: tcp.broken_def unchanged_def)
        from fail [OF 5(1) unchanged_trans [OF u2 this], of e "Suc (b_ticks w)"] show ?case by (simp add: bench_upd_comm)
      next
        case (4 t0 x hdr)
        then have x: "unchanged v x" "sock_in v = frame hdr @ sock_in x" "sock_out x = sock_out v"
          by (simp_all add: tcp.moved_in_def unchanged_os)
        have u3: "unchanged (b_tcp w) x" by (rule unchanged_trans [OF u2 x(1)])
        have ne: "sock_in (b_tcp w) \<noteq> []" using t(4) by (simp add: frame_def)
        have sent: "sock_out x = sock_out (b_tcp w) @ short_sent" using x(3) v(3) t(5) by (simp add: short_sent_def)
        have ty: "b \<or> m_type hdr = CHUNK_HDR"
        proof (cases b)
          case False
          then have "frame hdr @ sock_in x = frame (hdr_msg 0) @ s" using \<open>b \<or> meta = meta0 \<and> _\<close> v(2) x(2) by simp
          from frame_ok_prefix [OF this 4(1) hok] show ?thesis by simp
        qed simp
        show ?case unfolding on_ok_simps wp_bind
        proof (rule wp_now_ns, unfold on_ok_simps, goal_cases)
          case (1 t1)
          show ?case
          proof (cases "m_type hdr = CHUNK_HDR")
            case True
            from ok [OF u3 ne sent same 4(3), of "t1 - t0" "Suc (Suc (b_ticks w))"] True show ?thesis by (simp add: wp_simps)
          next
            case False
            then have b using ty by blast
            from fail [OF this u3] False show ?thesis by (simp add: wp_simps)
          qed
        qed
      qed
    qed
  qed
qed

definition short_done :: "nat \<Rightarrow> bench_world \<Rightarrow> bench_world \<Rightarrow> bool" where
  "short_done k w w' \<longleftrightarrow>
     unchanged (b_tcp w) (b_tcp w') \<and> net_kept w w' \<and> b_tmp w' = b_tmp w \<and> b_sent w' = b_sent w @ replicate k short_sent \<and>
     b_peers w' = drop k (b_peers w) \<and> k \<le> length (b_peers w)"

definition short_kept :: "bench_world \<Rightarrow> bench_world \<Rightarrow> bool" where
  "short_kept w w' \<longleftrightarrow> unchanged (b_tcp w) (b_tcp w') \<and> net_kept w w' \<and> b_tmp w' = b_tmp w"

lemma short_done_step:
  assumes "short_done k w w1" and "short_done 1 w1 w'"
  shows "short_done (Suc k) w w'"
proof -
  have "replicate k short_sent @ [short_sent] = replicate (Suc k) short_sent" by (simp add: replicate_append_same)
  then show ?thesis using assms by (auto simp: short_done_def net_kept_def intro: unchanged_trans)
qed

lemma hang_up_short:
  assumes d: "dialled w sock w1" and "unchanged (b_tcp w1) t"
  shows "short_kept w (hang_up sock (w1\<lparr>b_tcp := t, b_ticks := k\<rparr>))"
proof -
  have "unchanged (b_tcp w) t"
    using unchanged_trans [OF unchanged_os assms(2)] d by (simp add: dialled_def)
  then show ?thesis using d hang_up_net [OF d, of "w1\<lparr>b_tcp := t, b_ticks := k\<rparr>"]
    by (simp add: dialled_def short_kept_def unchanged_def hang_up_def tidy_def later_def)
qed

lemma short_run_wp:
  assumes rd: "ready b (b_tcp w) (short_cost meta0 + n)"
    and src: "b \<or> msg_ok (meta_msg meta0) \<and> filemeta_ok meta0 \<and> reply = frame (meta_msg meta0) @ frame (hdr_msg 0) @ s \<and>
      sender_ready reply (Suc k) w"
    and ok: "\<And>w' res'. short_done 1 w w' \<Longrightarrow>
      length (peer_connect_ns res') = length (peer_connect_ns res) + (if run < c_warmup cfg then 0 else 1) \<Longrightarrow>
      length (ttfc_ns res') = length (ttfc_ns res) + (if run < c_warmup cfg then 0 else 1) \<Longrightarrow>
      b \<or> sender_ready reply k w' \<and> sysw.answers (b_net w') = drop 3 (sysw.answers (b_net w)) \<Longrightarrow>
      ready b (b_tcp w') n \<Longrightarrow> Q (Ok res') w'"
    and fail: "\<And>w' e. b \<Longrightarrow> short_kept w w' \<Longrightarrow> Q (Throw e) w'"
  shows "wp b (short_run cfg res run) Q w"
  unfolding short_run_def Let_def
proof (subst wp_bind, rule wp_now_ns, unfold on_ok_simps, subst wp_bind,
    rule bench_dial_wp [where n = "short_cost meta0 + n"], goal_cases)
  case 1
  then show ?case using src by (auto simp: sender_ready_def)
next
  case 2
  then show ?case using rd by simp
next
  case (4 t0 w' e)
  then have "short_kept w w'" by (simp add: short_kept_def unchanged_def net_kept_def)
  then show ?case using fail 4(1) by simp
next
  case (3 t0 sock w1)
  then have d: "dialled w sock w1" by (simp add: dialled_def)
  then have D: "tcp_inv (b_tcp w1)" "same_os (b_tcp w) (b_tcp w1)" "b_sent w1 = b_sent w" "b_peers w1 = tl (b_peers w)"
    "sock_out (b_tcp w1) = []" "sock_in (b_tcp w1) = (case b_peers w of [] \<Rightarrow> [] | x # _ \<Rightarrow> x)"
    by (simp_all add: dialled_def)
  have d2: "dialled w sock (w1\<lparr>b_ticks := m\<rparr>)" for m using d by (simp add: dialled_def)
  show ?case unfolding on_ok_simps
  proof (subst wp_bind, rule wp_now_ns, unfold on_ok_simps, subst wp_bind, subst wp_finally,
      rule short_session_wp [where ?meta0.0 = meta0 and n = n and s = s], goal_cases)
    case 1 then show ?case using D(1) by simp
  next
    case 2 then show ?case using 3(3) by simp
  next
    case 3
    then show ?case using src D(6) by (auto simp: sender_ready_def)
  next
    case (5 t1 t m e)
    have "unchanged (b_tcp (w1\<lparr>b_ticks := Suc (b_ticks w1)\<rparr>)) t" using 5(2) by simp
    from hang_up_short [OF d2 this] show ?case using fail 5(1) by simp
  next
    case (4 t1 t m res' x)
    have u: "unchanged (b_tcp (w1\<lparr>b_ticks := Suc (b_ticks w1)\<rparr>)) t" using 4(1) by simp
    let ?w = "hang_up sock (w1\<lparr>b_ticks := Suc (b_ticks w1), b_tcp := t, b_ticks := m\<rparr>)"
    have "b_peers w \<noteq> []" using 4(2) D(6) by auto
    then obtain y ys where y: "b_peers w = y # ys" by (cases "b_peers w") auto
    have "short_done 1 w ?w"
      using hang_up_short [OF d2 u, of m] 4(3) D(3-5) y by (simp add: short_done_def short_kept_def hang_up_def)
    moreover have "b \<or> sender_ready reply k ?w \<and> sysw.answers (b_net ?w) = drop 3 (sysw.answers (b_net w))"
    proof (cases b)
      case False
      then show ?thesis using src 3(2) D(4) by (auto simp: sender_ready_def hang_up_def answers_release)
    qed simp
    moreover have "ready b (b_tcp ?w) n" using 4(6) by (simp add: hang_up_def ready_def fair_def fuel_def)
    ultimately show ?case using 4(4,5) by (auto simp: wp_return intro!: ok)
  qed
qed

lemma short_runs_wp:
  fixes w :: bench_world
  assumes n: "n = runs_short cfg + c_warmup cfg" and rd: "ready b (b_tcp w) (unat n * short_cost meta0 + m)"
    and src: "b \<or> msg_ok (meta_msg meta0) \<and> filemeta_ok meta0 \<and> reply = frame (meta_msg meta0) @ frame (hdr_msg 0) @ s \<and>
      sender_ready reply (unat n) w"
    and ok: "\<And>w' res. short_done (unat n) w w' \<Longrightarrow> length (peer_connect_ns res) = unat n - unat (c_warmup cfg) \<Longrightarrow>
      length (ttfc_ns res) = unat n - unat (c_warmup cfg) \<Longrightarrow>
      b \<or> sysw.answers (b_net w') = drop (3 * unat n) (sysw.answers (b_net w)) \<Longrightarrow> ready b (b_tcp w') m \<Longrightarrow> Q (Ok res) w'"
    and fail: "\<And>w' e. b \<Longrightarrow> short_kept w w' \<Longrightarrow> Q (Throw e) w'"
  shows "wp b (run_short_loop cfg) Q w"
proof -
  let ?W = "unat (c_warmup cfg)" and ?C = "short_cost meta0"
  define I where "I = (\<lambda>ys (res :: short_results) w'. \<exists>k \<le> unat n. ys = drop k (upto_u32 n) \<and> short_done k w w' \<and>
    length (peer_connect_ns res) = k - ?W \<and> length (ttfc_ns res) = k - ?W \<and>
    (b \<or> sender_ready reply (unat n - k) w' \<and> sysw.answers (b_net w') = drop (3 * k) (sysw.answers (b_net w))) \<and>
    ready b (b_tcp w') ((unat n - k) * ?C + m))"
  show ?thesis unfolding run_short_loop_def n [symmetric]
  proof (rule wp_foldl [where I = I], goal_cases)
    case 1
    have "short_done 0 w w" by (simp add: short_done_def unchanged_def net_kept_def)
    then show ?case unfolding I_def by (intro exI [of _ 0]) (use src rd in auto)
  next
    case (3 res w')
    then obtain k where k: "k \<le> unat n" "[] = drop k (upto_u32 n)" "short_done k w w'"
      "length (peer_connect_ns res) = k - ?W" "length (ttfc_ns res) = k - ?W"
      "b \<or> sysw.answers (b_net w') = drop (3 * k) (sysw.answers (b_net w))" "ready b (b_tcp w') ((unat n - k) * ?C + m)"
      unfolding I_def by blast
    have kn: "k = unat n" using k(1) arg_cong [OF k(2), of length] by simp
    have "ready b (b_tcp w') m" using k(7) kn by simp
    then show ?case using ok k(3-6) unfolding kn by blast
  next
    case (2 x ys res w1)
    then obtain k where k: "k \<le> unat n" "x # ys = drop k (upto_u32 n)" "short_done k w w1"
      "length (peer_connect_ns res) = k - ?W" "length (ttfc_ns res) = k - ?W"
      "b \<or> sender_ready reply (unat n - k) w1 \<and> sysw.answers (b_net w1) = drop (3 * k) (sysw.answers (b_net w))"
      "ready b (b_tcp w1) ((unat n - k) * ?C + m)" unfolding I_def by blast
    have less: "k < unat n" using k(1) arg_cong [OF k(2), of length] by simp
    then have x: "x = word_of_nat k" "ys = drop (Suc k) (upto_u32 n)" using k(2) upto_u32_drop by simp_all
    have warm: "x < c_warmup cfg \<longleftrightarrow> k < ?W" unfolding x(1) by (rule u32_index_less [OF less])
    have suc: "unat n - k = Suc (unat n - Suc k)" using less by simp
    show ?case
    proof (rule short_run_wp [where ?meta0.0 = meta0 and reply = reply and s = s and k = "unat n - Suc k" and
          n = "(unat n - Suc k) * ?C + m"], goal_cases)
      case 1 then show ?case using k(7) by (simp only: suc mult_Suc add.assoc)
    next
      case 2 then show ?case using src k(6) unfolding suc by blast
    next
      case (4 w' e)
      then have "short_kept w w'" using k(3)
        by (auto simp: short_kept_def short_done_def net_kept_def intro: unchanged_trans)
      then show ?case using fail 4(1) by simp
    next
      case (3 w' res')
      have "I ys res' w'" unfolding I_def
        by (rule exI [of _ "Suc k"]) (use short_done_step [OF k(3) 3(1)] 3(2-5) k(4-6) warm less x(2) in auto)
      then show ?case by simp
    qed
  qed
qed

end
