(* ===== verification/Latency_Results.thy ===== *)
theory Latency_Results
  imports Latency_Runs
begin

text \<open>
  The properties of the latency benchmark: what its loops have checked when they return, that they
  complete against a sender that serves, and what they leave behind.
\<close>

section \<open>Against any peer\<close>

text \<open>C24: Whatever the peers send and however the calls fail, the full loop changes no file but its
  temporary one, closes every socket once and stays defined. If it returns, every run was verified:
  its peer's metadata parsed, it was sent the handshake and the requests of all chunks, and it
  answered each with a header and bytes of the announced hash; there is one completion time
  for each run after the warm-up and one verification time for each of their chunks, and the
  descriptor of the output is closed.\<close>

theorem full_loop_verifies:
  assumes run: "run_full_loop E cfg w = Some (r, w')" and new: "fresh_tmp (b_tmp w) (b_tcp w)"
  shows "r \<noteq> Undef \<and> others_kept (b_tmp w) (b_tcp w) (b_tcp w') \<and> net_kept w w' \<and>
    (\<forall>res. r = Ok res \<longrightarrow> fds (b_tcp w') = fds (b_tcp w) \<and>
       (\<exists>ms xs. length ms = unat (runs_full cfg + c_warmup cfg) \<and> b_peers w = xs @ b_peers w' \<and> list_all2 (verified E) ms xs \<and>
          b_sent w' = b_sent w @ map all_requests ms \<and> length (completion_ns res) = length ms - unat (c_warmup cfg) \<and>
          total (verify_ns res) = word_of_nat (\<Sum>m \<leftarrow> drop (unat (c_warmup cfg)) ms. unat (chunk_count m))))"
proof -
  let ?Q = "\<lambda>r w'. r \<noteq> Undef \<and> others_kept (b_tmp w) (b_tcp w) (b_tcp w') \<and> net_kept w w' \<and>
    (\<forall>res. r = Ok res \<longrightarrow> fds (b_tcp w') = fds (b_tcp w) \<and>
       (\<exists>ms xs. length ms = unat (runs_full cfg + c_warmup cfg) \<and> b_peers w = xs @ b_peers w' \<and> list_all2 (verified E) ms xs \<and>
          b_sent w' = b_sent w @ map all_requests ms \<and> length (completion_ns res) = length ms - unat (c_warmup cfg) \<and>
          total (verify_ns res) = word_of_nat (\<Sum>m \<leftarrow> drop (unat (c_warmup cfg)) ms. unat (chunk_count m))))"
  have "wp True (run_full_loop E cfg) ?Q w"
  proof (rule run_full_loop_wp [OF new refl, where ?meta0.0 = sample_meta and data = "[]"], goal_cases)
    case (3 w1 ms res)
    then have "fds (b_tcp w1) = fds (b_tcp w)" by (simp add: tidy_def)
    then show ?case using 3 unfolding full_returned_def by auto
  qed simp_all
  from wpD [OF this run] show ?thesis .
qed

text \<open>The short loop: no file changes, every socket is closed once, and when it returns there are as many
  samples of each kind as runs after the warm-up, each run having sent a handshake, one request and
  the end mark.\<close>

theorem short_loop_samples:
  assumes run: "run_short_loop cfg w = Some (r, w')"
  shows "r \<noteq> Undef \<and> unchanged (b_tcp w) (b_tcp w') \<and> net_kept w w' \<and>
    (\<forall>res. r = Ok res \<longrightarrow> b_sent w' = b_sent w @ replicate (unat (runs_short cfg + c_warmup cfg)) short_sent \<and>
       length (peer_connect_ns res) = unat (runs_short cfg + c_warmup cfg) - unat (c_warmup cfg) \<and>
       length (ttfc_ns res) = length (peer_connect_ns res))"
proof -
  let ?Q = "\<lambda>r w'. r \<noteq> Undef \<and> unchanged (b_tcp w) (b_tcp w') \<and> net_kept w w' \<and>
    (\<forall>res. r = Ok res \<longrightarrow> b_sent w' = b_sent w @ replicate (unat (runs_short cfg + c_warmup cfg)) short_sent \<and>
       length (peer_connect_ns res) = unat (runs_short cfg + c_warmup cfg) - unat (c_warmup cfg) \<and>
       length (ttfc_ns res) = length (peer_connect_ns res))"
  have "wp True (run_short_loop cfg) ?Q w"
    by (rule short_runs_wp [OF refl, where ?meta0.0 = sample_meta and reply = "[]" and s = "[]" and m = 0])
      (simp_all add: short_done_def short_kept_def)
  from wpD [OF this run] show ?thesis .
qed

section \<open>Against a sender that serves\<close>

lemma runs_sum: "unat a + unat b < 2 ^ 32 \<Longrightarrow> unat (a + b) = unat a + unat b" for a b :: u32
  by (simp add: unat_add_lem [THEN iffD1])

lemma sum_same: "set ms \<subseteq> {m} \<Longrightarrow> (\<Sum>x \<leftarrow> drop k ms. f x) = (length ms - k) * f m" for f :: "'a \<Rightarrow> nat"
proof -
  assume "set ms \<subseteq> {m}"
  then have "ms = replicate (length ms) m" by (simp add: replicate_eqI subset_singleton_iff insert_subset subset_iff)
  then have "drop k ms = replicate (length ms - k) m" by (metis drop_replicate)
  then show ?thesis by (simp add: sum_list_replicate)
qed

text \<open>The full loop against \<^verbatim>\<open>run_push\<close>: in fair environments, with a sender listening that has the
  file, the loop returns; it took one completion time for each measured run and one verification
  time for each of their chunks. On every connection it sent exactly what makes the sender's push
  complete, and received exactly what that push sends.\<close>

theorem full_loop_completes:
  assumes new: "fresh_tmp (b_tmp w) (b_tcp w)" and good: "sender_good E meta data"
    and n: "unat (runs_full cfg) + unat (c_warmup cfg) = N" "N < 2 ^ 32" and peers: "sender_ready (full_reply data meta) N w"
    and env: "fair (b_tcp w)" "2 + N * session_cost meta \<le> fuel (b_tcp w)"
    and push: "tcp_inv ws" "holds fd f w0 ws" "files ws (of_path f) = Some data" "sock_in ws = all_requests meta"
      "fair ws" "push_cost meta [] (unat (chunk_count meta)) \<le> fuel ws"
  shows "\<exists>w' res ws'. run_full_loop E cfg w = Some (Ok res, w') \<and> length (completion_ns res) = unat (runs_full cfg) \<and>
    total (verify_ns res) = word_of_nat (unat (runs_full cfg) * unat (chunk_count meta)) \<and>
    b_sent w' = b_sent w @ replicate N (sock_in ws) \<and> tidy (b_tcp w) (b_tcp w') \<and> net_kept w w' \<and>
    run_push TcpTransport fd meta ws = Some (Ok (), ws') \<and> sock_out ws' = sock_out ws @ full_reply data meta"
proof -
  let ?Q = "\<lambda>r w'. \<exists>res. r = Ok res \<and> length (completion_ns res) = unat (runs_full cfg) \<and>
    total (verify_ns res) = word_of_nat (unat (runs_full cfg) * unat (chunk_count meta)) \<and>
    b_sent w' = b_sent w @ replicate N (sock_in ws) \<and> tidy (b_tcp w) (b_tcp w') \<and> net_kept w w'"
  have N: "unat (runs_full cfg + c_warmup cfg) = N" using runs_sum n by simp
  have "wp False (run_full_loop E cfg) ?Q w"
  proof (rule run_full_loop_wp [OF new refl, where ?meta0.0 = meta and data = data], goal_cases)
    case 1
    then show ?case using env N by (simp add: ready_def)
  next
    case 2
    then show ?case using good peers N by simp
  next
    case (3 w' ms res)
    then have ms: "set ms \<subseteq> {meta}" "length ms = N" "b_sent w' = b_sent w @ map all_requests ms"
      "length (completion_ns res) = length ms - unat (c_warmup cfg)"
      "total (verify_ns res) = word_of_nat (\<Sum>m \<leftarrow> drop (unat (c_warmup cfg)) ms. unat (chunk_count m))"
      using N by (simp_all add: full_returned_def)
    have "map all_requests ms = replicate N (all_requests meta)"
      using ms(1,2) by (intro replicate_eqI) auto
    moreover have k: "length ms - unat (c_warmup cfg) = unat (runs_full cfg)" using ms(2) n(1) by simp
    moreover have "total (verify_ns res) = word_of_nat (unat (runs_full cfg) * unat (chunk_count meta))"
      by (simp only: ms(5) sum_same [OF ms(1)] k)
    ultimately show ?case using ms(3,4) 3(3,5) push(4) by simp
  qed simp
  then obtain w' res where full: "run_full_loop E cfg w = Some (Ok res, w')" "?Q (Ok res) w'" by (auto simp: wp_total)
  have G: "describes meta data" "length data < 2 ^ 63" using good by (simp_all add: sender_good_def)
  obtain ws' where "run_push TcpTransport fd meta ws = Some (Ok (), ws')" "sock_out ws' = sock_out ws @ full_reply data meta"
    using push_completes [OF push(1-3) G, of "[]" "upto_u32 (chunk_count meta)" "[]"] push(4-6)
    by (auto simp: all_requests_def full_reply_def)
  then show ?thesis using full by blast
qed

section \<open>What an exception leaves\<close>

text \<open>When a run fails, here because no socket can be had, the exception passes the \<^verbatim>\<open>close\<close> of the
  output: its descriptor stays open.\<close>

theorem full_loop_leaks:
  assumes new: "fresh_tmp (b_tmp w) (b_tcp w)" and runs: "runs_full cfg + c_warmup cfg \<noteq> 0"
    and env: "script (b_tcp w) = Xfer i # Xfer j # sc" "sysw.answers (b_net w) = -1 # as"
  shows "\<exists>e w' fd. run_full_loop E cfg w = Some (Throw e, w') \<and> fds (b_tcp w) fd = None \<and> fds (b_tcp w') fd \<noteq> None"
proof -
  let ?t = "b_tcp w" and ?p = "b_tmp w"
  let ?fd = "next_fd ?t"
  have new': "files ?t ?p = None" "fds ?t ?fd = None" "0 \<le> ?fd" using new by (simp_all add: fresh_tmp_def wf_fds_def)
  obtain ys where up: "upto_u32 (runs_full cfg + c_warmup cfg) = 0 # ys"
    using upto_u32_drop [of 0 "runs_full cfg + c_warmup cfg"] runs by (simp add: unat_gt_0)
  have net: "make_connection_fd h p n (b_net w) = Some (Throw (Runtime_error ''bench: socket failed: ''),
      (b_net w)\<lparr>answers := as, calls := calls (b_net w) @ [Socket_stream]\<rparr>)" for h p n
    using env(2) by (simp add: make_connection_fd_def acquire_def do_call_def io_bind_def io_throw_def)
  obtain t1 where t1: "sys (sys_mkstemp ?p) ?t = Some (Ok ?fd, t1)" "script t1 = Xfer j # sc" "fds t1 ?fd \<noteq> None"
    using env(1) new' by (simp add: sys_def sys_mkstemp_def sys_open_def sys_next_def)
  obtain t2 where t2: "sys (sys_unlink_open ?p) t1 = Some (Ok (), t2)" "fds t2 ?fd \<noteq> None"
    using t1(2,3) by (simp add: sys_def sys_unlink_open_def sys_next_def)
  let ?w = "w\<lparr>b_tcp := t2, b_net := (b_net w)\<lparr>answers := as, calls := calls (b_net w) @ [Socket_stream]\<rparr>\<rparr>"
  have "run_full_loop E cfg w = Some (Throw (Runtime_error ''bench: socket failed: ''), ?w)"
    unfolding run_full_loop_def up using t1(1) t2(1) net new'(3)
    by (simp add: io_bind_def io_get_def at_tcp_def at_net_def full_run_def bench_dial_def)
  then show ?thesis using new'(2) t2(2) by (intro exI [of _ "Runtime_error ''bench: socket failed: ''"] exI [of _ ?w] exI [of _ ?fd]) simp
qed

section \<open>Witnesses\<close>

text \<open>A benchmark of one measured run after one for warming up, with two connections to the sender of \<open>abc\<close>.\<close>

definition bench_cfg :: bench_config where
  "bench_cfg = \<lparr>sender_host = ''127.0.0.1'', sender_port = 10007, sndbuf_bytes = 0, c_warmup = 1, runs_short = 1, runs_full = 1\<rparr>"

definition bench_start :: "int list \<Rightarrow> u8 list \<Rightarrow> bench_world" where
  "bench_start as reply =
     \<lparr>b_tcp = tcp_sample Map.empty [], b_net = \<lparr>held = [], bad_frees = 0, next_id = 0, calls = [], answers = as\<rparr>,
      b_peers = [reply, reply], b_sent = [], b_clock = (\<lambda>n. (0, word_of_nat n)), b_ticks = 0, b_tmp = ''t''\<rparr>"

lemma bench_start [simp]:
  "fresh_tmp (b_tmp (bench_start as x)) (b_tcp (bench_start as x))" "fair (b_tcp (bench_start as x))"
  "fuel (b_tcp (bench_start as x)) = 2 ^ 27" "b_sent (bench_start as x) = []" "runs_full bench_cfg + c_warmup bench_cfg = 2"
  "sysw.answers (b_net (bench_start as x)) = as"
proof -
  show "fresh_tmp (b_tmp (bench_start as x)) (b_tcp (bench_start as x))"
    unfolding fresh_tmp_def by (simp add: bench_start_def) (simp add: tcp_sample_def)
qed (simp_all add: bench_start_def bench_cfg_def)

lemma two_connections: "sender_ready x 2 (bench_start [0, 1, 0, 0, 1, 0] x)"
  by (simp add: sender_ready_def bench_start_def numeral_2_eq_2)

lemma abc_sender: "sender_good toy_evp abc_meta abc" "unat (chunk_count abc_meta) = 1"
  using abc_meta abc by (simp_all add: sender_good_def) (simp add: abc_meta_def)

lemma bench_costs: "2 + 2 * session_cost abc_meta \<le> 2 ^ 27" "2 * short_cost abc_meta \<le> 2 ^ 27"
  using abc_meta_ok(2) abc_sender(2)
  by (simp_all add: session_cost_def hello_cost_def block_cost_def short_cost_def HEADER_SIZE_def CHUNK_SIZE_def)

lemma bench_runs:
  "\<exists>res w'. run_full_loop toy_evp bench_cfg (bench_start [0, 1, 0, 0, 1, 0] (full_reply abc abc_meta)) = Some (Ok res, w')"
proof -
  let ?w = "bench_start [0, 1, 0, 0, 1, 0] (full_reply abc abc_meta)"
  have "wp False (run_full_loop toy_evp bench_cfg) (\<lambda>r w'. \<exists>res. r = Ok res) ?w"
    by (rule run_full_loop_wp [OF bench_start(1) refl, where ?meta0.0 = abc_meta and data = abc])
      (use bench_costs(1) abc_sender(1) two_connections in \<open>simp_all add: ready_def\<close>)
  then show ?thesis by (auto simp: wp_total)
qed

lemma full_loop_verifies_witness:
  "\<exists>res w'. run_full_loop toy_evp bench_cfg (bench_start [0, 1, 0, 0, 1, 0] (full_reply abc abc_meta)) = Some (Ok res, w') \<and>
     length (completion_ns res) = 1"
proof -
  obtain res w' where run: "run_full_loop toy_evp bench_cfg (bench_start [0, 1, 0, 0, 1, 0] (full_reply abc abc_meta)) = Some (Ok res, w')"
    using bench_runs by blast
  from full_loop_verifies [OF run bench_start(1)] have "length (completion_ns res) = 1" by (auto simp: bench_cfg_def)
  then show ?thesis using run by blast
qed

lemma full_loop_completes_witness:
  "\<exists>w' res. run_full_loop toy_evp bench_cfg (bench_start [0, 1, 0, 0, 1, 0] (full_reply abc abc_meta)) = Some (Ok res, w') \<and>
     length (completion_ns res) = 1 \<and> total (verify_ns res) = 1"
proof -
  have "upto_u32 (chunk_count abc_meta) = [0]" by (simp add: upto_u32_def abc_sender(2))
  then have p: "sock_in push_end = all_requests abc_meta" by (simp add: push_end_def all_requests_def)
  have "\<exists>w' res ws'. run_full_loop toy_evp bench_cfg (bench_start [0, 1, 0, 0, 1, 0] (full_reply abc abc_meta)) = Some (Ok res, w') \<and>
      length (completion_ns res) = unat (runs_full bench_cfg) \<and>
      total (verify_ns res) = word_of_nat (unat (runs_full bench_cfg) * unat (chunk_count abc_meta)) \<and>
      b_sent w' = b_sent (bench_start [0, 1, 0, 0, 1, 0] (full_reply abc abc_meta)) @ replicate 2 (sock_in push_end) \<and>
      tidy (b_tcp (bench_start [0, 1, 0, 0, 1, 0] (full_reply abc abc_meta))) (b_tcp w') \<and>
      net_kept (bench_start [0, 1, 0, 0, 1, 0] (full_reply abc abc_meta)) w' \<and>
      run_push TcpTransport 3 abc_meta push_end = Some (Ok (), ws') \<and> sock_out ws' = sock_out push_end @ full_reply abc abc_meta"
    by (rule full_loop_completes [OF bench_start(1) abc_sender(1) _ _ two_connections _ _ _ push_end_holds _ p])
      (use bench_costs(1) costs(1) abc_sender(2) in \<open>simp_all add: push_end_def bench_cfg_def\<close>)
  then show ?thesis using abc_sender(2) by (auto simp: bench_cfg_def)
qed

lemma full_loop_leaks_witness:
  "\<exists>e w' fd. run_full_loop toy_evp bench_cfg (bench_start [-1] []) = Some (Throw e, w') \<and>
     fds (b_tcp (bench_start [-1] [])) fd = None \<and> fds (b_tcp w') fd \<noteq> None"
proof -
  have "script (b_tcp (bench_start [-1] [])) = Xfer 1 # Xfer 1 # replicate (2 ^ 27 - 2) (Xfer 1)"
    unfolding bench_start_def tcp_sample_def long_script_def
    by (simp only: bench_world.simps tcp_world.simps world.simps replicate_Suc [symmetric]) simp
  from full_loop_leaks [OF bench_start(1) _ this] show ?thesis by simp
qed

lemma short_loop_samples_witness:
  "\<exists>res w'. run_short_loop bench_cfg (bench_start [0, 1, 0, 0, 1, 0] (Push.answers abc abc_meta [0])) = Some (Ok res, w') \<and>
     length (ttfc_ns res) = 1"
proof -
  let ?w = "bench_start [0, 1, 0, 0, 1, 0] (Push.answers abc abc_meta [0])"
  let ?s = "region (unat (chunk_off 0)) (unat (chunk_len (file_size abc_meta) 0)) abc"
  have "wp False (run_short_loop bench_cfg) (\<lambda>r w'. \<exists>res. r = Ok res) ?w"
    by (rule short_runs_wp [where n = 2 and ?meta0.0 = abc_meta and reply = "Push.answers abc abc_meta [0]" and s = ?s and m = 0])
      (use bench_costs(2) abc_meta(2) abc_meta_ok(1) two_connections in
        \<open>simp_all add: ready_def bench_cfg_def Push.answers_def answer_def\<close>)
  then obtain res w' where run: "run_short_loop bench_cfg ?w = Some (Ok res, w')" by (auto simp: wp_total)
  from short_loop_samples [OF run] have "length (ttfc_ns res) = 1" by (simp add: bench_cfg_def)
  then show ?thesis using run by blast
qed

end
