(* ===== verification/Bench_Command.thy ===== *)
theory Bench_Command
  imports Latency_Results Command_Transfer
begin

text \<open>
  \<^verbatim>\<open>src/cli/bench.cpp\<close>: the two roles of the benchmark. The sender offers its file to one
  receiver after the other until something fails; the receiver runs both loops and reports.
\<close>

section \<open>Flags\<close>

record bench_opts =
  o_role :: string
  o_file :: string
  o_host :: string
  o_port :: u16
  o_sndbuf :: int
  o_warmup :: u32
  o_short :: u32
  o_full :: u32

definition bench_defaults :: bench_opts where
  "bench_defaults = \<lparr>o_role = [], o_file = [], o_host = [], o_port = EMBR_PORT, o_sndbuf = 0, o_warmup = 5,
     o_short = 1000, o_full = 50\<rparr>"

text \<open>\<^verbatim>\<open>static_cast<uint32_t>(std::stoi(v))\<close>: a negative number wraps.\<close>

definition count_of :: "string \<Rightarrow> u32 res" where
  "count_of v = res_bind (stoi v) (\<lambda>n. Ok (word_of_int n))"

fun bench_flags :: "bench_opts \<Rightarrow> string list \<Rightarrow> (bench_opts + int) res" where
  "bench_flags opts [] = Ok (Inl opts)"
| "bench_flags opts [flag] = Ok (Inr (if flag = ''--help'' then 0 else 1))"
| "bench_flags opts (flag # v # args) =
     (if flag = ''--role'' then bench_flags (opts\<lparr>o_role := v\<rparr>) args
      else if flag = ''--file'' then bench_flags (opts\<lparr>o_file := v\<rparr>) args
      else if flag = ''--host'' then bench_flags (opts\<lparr>o_host := v\<rparr>) args
      else if flag = ''--port'' then res_bind (port_of v) (\<lambda>p. bench_flags (opts\<lparr>o_port := p\<rparr>) args)
      else if flag = ''--sndbuf-bytes'' then res_bind (stoi v) (\<lambda>n. bench_flags (opts\<lparr>o_sndbuf := n\<rparr>) args)
      else if flag = ''--warmup'' then res_bind (count_of v) (\<lambda>n. bench_flags (opts\<lparr>o_warmup := n\<rparr>) args)
      else if flag = ''--runs-short'' then res_bind (count_of v) (\<lambda>n. bench_flags (opts\<lparr>o_short := n\<rparr>) args)
      else if flag = ''--runs-full'' then res_bind (count_of v) (\<lambda>n. bench_flags (opts\<lparr>o_full := n\<rparr>) args)
      else if flag = ''--help'' then Ok (Inr 0)
      else Ok (Inr 1))"

section \<open>The sender\<close>

text \<open>
  One receiver: its connection ends with the turn, whatever \<^verbatim>\<open>run_push\<close> throws. The constructor of
  \<^verbatim>\<open>SocketFd\<close> throws for a negative descriptor, so the test that follows it is never true.
\<close>

definition send_turn :: "string \<Rightarrow> nat \<Rightarrow> file_meta \<Rightarrow> unit bio" where
  "send_turn file_path listen_fd meta =
     io_bind (at_net (tcp_accept listen_fd)) (\<lambda>conn.
     io_bind (io_modify attach_peer) (\<lambda>_.
       io_finally
         (io_bind (at_tcp (sys (sys_open file_path False False))) (\<lambda>fd.
          io_bind (io_lift (SocketFd fd)) (\<lambda>file_fd.
            if file_fd < 0 then io_ret ()
            else io_catch (at_tcp (run_push TcpTransport file_fd meta)) (io_ret ()))))
         (hang_up conn)))"

definition drop_socket :: "nat \<Rightarrow> bench_world \<Rightarrow> bench_world" where
  "drop_socket fd w = w\<lparr>b_net := releases [(Socket_fd, fd)] (b_net w)\<rparr>"

definition run_send :: "'h machine \<Rightarrow> string \<Rightarrow> u16 \<Rightarrow> int bio" where
  "run_send M file_path port =
     io_bind (at_tcp (precompute_meta (m_evp M) (m_cores M) (m_sched M) (m_mtime M) file_path)) (\<lambda>meta.
     io_bind (at_net (tcp_listen port)) (\<lambda>listen_fd.
       io_finally
         (io_loop (\<lambda>_. io_bind (send_turn file_path listen_fd meta) (\<lambda>_. io_ret (Inl ()))) ())
         (drop_socket listen_fd)))"

section \<open>The receiver and the command\<close>

definition run_recv :: "evp \<Rightarrow> bench_config \<Rightarrow> int bio" where
  "run_recv E cfg =
     io_bind (run_short_loop cfg) (\<lambda>short_r.
     io_bind (io_lift (print_short_results short_r)) (\<lambda>_.
     io_bind (run_full_loop E cfg) (\<lambda>full_r.
     io_bind (io_lift (print_full_results full_r)) (\<lambda>_.
     io_ret 0))))"

definition config_of :: "bench_opts \<Rightarrow> bench_config" where
  "config_of opts = \<lparr>sender_host = o_host opts, sender_port = o_port opts, sndbuf_bytes = o_sndbuf opts,
     c_warmup = o_warmup opts, runs_short = o_short opts, runs_full = o_full opts\<rparr>"

definition run_role :: "'h machine \<Rightarrow> bench_opts \<Rightarrow> int bio" where
  "run_role M opts =
     (if o_role opts = ''send'' then if o_file opts = [] then io_ret 1 else run_send M (o_file opts) (o_port opts)
      else if o_role opts = ''recv'' then if o_host opts = [] then io_ret 1 else run_recv (m_evp M) (config_of opts)
      else io_ret 1)"

definition run_bench_cli :: "'h machine \<Rightarrow> string list \<Rightarrow> int bio" where
  "run_bench_cli M argv =
     (case argv of
        _ # flag # args \<Rightarrow>
          io_bind (io_lift (bench_flags bench_defaults (flag # args))) (\<lambda>parsed.
            case parsed of
              Inr code \<Rightarrow> io_ret code
            | Inl opts \<Rightarrow> if o_role opts = [] then io_ret 1 else io_catch (run_role M opts) (io_ret 1))
      | _ \<Rightarrow> io_ret 1)"

end
