(* ===== verification/Bench_Results.thy ===== *)
theory Bench_Results
  imports Bench_Command
begin

text \<open>
  What \<^verbatim>\<open>embr bench\<close> promises: its exit codes, that it closes every socket once, and that a
  sender and a receiver running together get through all runs.
\<close>

section \<open>One receiver\<close>

lemma accept_wp:
  assumes src: "b \<or> (\<exists>x as. sysw.answers n = x # as \<and> 0 \<le> x)"
    and ok: "\<And>sock n'. mset (held n') = add_mset (Socket_fd, sock) (mset (held n)) \<Longrightarrow> bad_frees n' = bad_frees n \<Longrightarrow>
      b \<or> sysw.answers n' = tl (sysw.answers n) \<Longrightarrow> Q (Ok sock) n'"
    and fail: "\<And>n' e. b \<Longrightarrow> mset (held n') = mset (held n) \<Longrightarrow> bad_frees n' = bad_frees n \<Longrightarrow> Q (Throw e) n'"
  shows "wp b (tcp_accept listen_fd) Q n"
proof (cases b)
  case True
  have "wp True (tcp_accept listen_fd) Q n"
  proof (rule wpI)
    fix r n' assume run: "tcp_accept listen_fd n = Some (r, n')"
    from tcp_accepts.make_settles [OF run]
    have "r \<noteq> Undef \<and> bad_frees n' = bad_frees n \<and> mset (held n') = mset (held n) +
        (case r of Ok fd \<Rightarrow> {#(Socket_fd, fd)#} | _ \<Rightarrow> {#})" by (simp cong: res.case_cong)
    then show "Q r n'" using ok fail True by (cases r) auto
  qed
  then show ?thesis using True by simp
next
  case False
  then obtain x as where a: "sysw.answers n = x # as" "0 \<le> x" using src by blast
  have "\<exists>sock n'. tcp_accept listen_fd n = Some (Ok sock, n') \<and> sysw.answers n' = as"
    using a(2) by (simp add: tcp_accept_def acquire_def io_bind_def do_call_def note_call_def obtained_def a(1) io_ret_def)
  then obtain sock n' where run: "tcp_accept listen_fd n = Some (Ok sock, n')" and a': "sysw.answers n' = as" by blast
  from tcp_accepts.make_settles [OF run]
  have "mset (held n') = add_mset (Socket_fd, sock) (mset (held n))" "bad_frees n' = bad_frees n" by simp_all
  then have "Q (Ok sock) n'" by (rule ok) (simp add: a(1) a')
  then show ?thesis using False run by (simp add: wp_def)
qed

text \<open>What a turn leaves: files, descriptors and sockets as they were and, if nothing failed, the reply
  to what the receiver asked.\<close>

definition turn_done :: "u8 list \<Rightarrow> bench_world \<Rightarrow> bench_world \<Rightarrow> bool" where
  "turn_done reply w w' \<longleftrightarrow> b_sent w' = b_sent w @ [reply] \<and> b_peers w' = tl (b_peers w) \<and>
     sysw.answers (b_net w') = tl (sysw.answers (b_net w))"

lemma hang_up_turn:
  assumes d: "dialled w sock w1" and "unchanged (b_tcp w1) t"
  shows "short_kept w (hang_up sock (w1\<lparr>b_tcp := t\<rparr>))"
  using hang_up_short [OF assms, of "b_ticks w1"] by simp

text \<open>The part of a turn after the connection is made.\<close>

lemma push_file_wp:
  fixes w :: bench_world
  assumes d: "dialled w sock w1" and wf: "wf_fds (b_tcp w)" and src_file: "files (b_tcp w) p = Some data" and meta: "describes meta data"
    and rd: "ready b (b_tcp w1) (Suc (push_cost meta [] (length js) + n))"
    and src: "b \<or> length data < 2 ^ 63 \<and> (\<forall>i \<in> set js. i < chunk_count meta) \<and>
      b_peers w \<noteq> [] \<and> hd (b_peers w) = frame (hs_msg []) @ requests js"
    and ok: "\<And>t. unchanged (b_tcp w1) t \<Longrightarrow> b \<or> sock_out t = Push.answers data meta js \<Longrightarrow> ready b t n \<Longrightarrow> Q (Ok ()) (w1\<lparr>b_tcp := t\<rparr>)"
    and fail: "\<And>t e. b \<Longrightarrow> unchanged (b_tcp w1) t \<Longrightarrow> Q (Throw e) (w1\<lparr>b_tcp := t\<rparr>)"
  shows "wp b (io_bind (at_tcp (sys (sys_open p False False))) (\<lambda>fd. io_bind (io_lift (SocketFd fd)) (\<lambda>file_fd.
      if file_fd < 0 then io_ret () else io_catch (at_tcp (run_push TcpTransport file_fd meta)) (io_ret ())))) Q w1"
proof -
  have D: "tcp_inv (b_tcp w1)" "same_os (b_tcp w) (b_tcp w1)" "sock_out (b_tcp w1) = []"
    "sock_in (b_tcp w1) = (case b_peers w of [] \<Rightarrow> [] | x # _ \<Rightarrow> x)" using d by (simp_all add: dialled_def)
  have wf1: "wf_fds (b_tcp w1)" and f1: "files (b_tcp w1) p = Some data"
    using wf src_file D(2) by (simp_all add: wf_fds_def same_os_def)
  show ?thesis
  proof (subst wp_bind, subst wp_bench_parts, rule wp_open [OF wf1 rd], goal_cases)
    case (1 v)
    then show ?case using f1 fail [of v] by (simp add: SocketFd_def wp_simps unchanged_def)
  next
    case (2 v fd)
    then have h: "holds fd \<lparr>of_path = p, of_pos = 0\<rparr> (b_tcp w1) v" and fl: "files v = files (b_tcp w1)"
      using f1 by (auto simp: contents_def)
    have own: "sock_in v = sock_in (b_tcp w1) \<and> sock_out v = sock_out (b_tcp w1) \<and> tcp_inv v = tcp_inv (b_tcp w1)"
      using tcp.own_state [of v "b_tcp w1"] 2(4) by simp
    have fd: "\<not> fd < 0" using holds_lookup [OF h] by simp
    have closed: "unchanged (b_tcp w1) (sys_close fd v')" if "tidy v v'" "files v' = files v" for v'
      using holds_close [OF holds_tidy [OF h that(1)]] that(2) fl by (simp add: unchanged_def)
    have "wp b (run_push TcpTransport fd meta)
        (\<lambda>r v'. case r of Throw e \<Rightarrow> Q (Ok ()) (w1\<lparr>b_tcp := v'\<rparr>) | _ \<Rightarrow> Q r (w1\<lparr>b_tcp := v'\<rparr>)) v"
    proof (rule tcp.run_push_wp [OF _ h _ meta, where tok = "[]" and js = js and n = n and s = "[]"], goal_cases)
      case 4
      then show ?case using src own D(4) by (auto simp: str_ok_def neq_Nil_conv)
    next
      case (5 v' idxs)
      then have "b \<or> sock_out (sys_close fd v') = Push.answers data meta js"
        using tcp.pushed_outbox [OF 5(1)] own D(3) by auto
      then show ?case using tcp.pushed_tidy [OF 5(1)] 5(3) by (auto intro!: ok closed simp: ready_def fair_def fuel_def)
    next
      case (6 v' e)
      then show ?case using closed [of v'] by (auto intro!: ok simp: tcp.broken_def)
    qed (use own D(1) fl f1 2(5) in simp_all)
    then show ?case using fd by (simp add: SocketFd_def wp_return wp_io_catch wp_bench_parts wp_bind cong: res.case_cong)
  qed
qed

lemma send_turn_wp:
  fixes w :: bench_world
  assumes wf: "wf_fds (b_tcp w)" and src_file: "files (b_tcp w) p = Some data" and meta: "describes meta data"
    and rd: "ready b (b_tcp w) (Suc (push_cost meta [] (length js) + n))"
    and src: "b \<or> length data < 2 ^ 63 \<and> (\<forall>i \<in> set js. i < chunk_count meta) \<and>
      b_peers w \<noteq> [] \<and> hd (b_peers w) = frame (hs_msg []) @ requests js \<and>
      (\<exists>x as. sysw.answers (b_net w) = x # as \<and> 0 \<le> x)"
    and ok: "\<And>w'. short_kept w w' \<Longrightarrow> b \<or> turn_done (Push.answers data meta js) w w' \<Longrightarrow>
      ready b (b_tcp w') n \<Longrightarrow> Q (Ok ()) w'"
    and fail: "\<And>w' e. b \<Longrightarrow> short_kept w w' \<Longrightarrow> Q (Throw e) w'"
  shows "wp b (send_turn p listen_fd meta) Q w"
  unfolding send_turn_def
proof (subst wp_bind, subst wp_bench_parts, rule accept_wp, goal_cases)
  case 1
  then show ?case using src by blast
next
  case (3 n' e)
  then show ?case using fail by (simp add: short_kept_def unchanged_def net_kept_def)
next
  case (2 sock n')
  define w1 where "w1 = attach_peer (w\<lparr>b_net := n'\<rparr>)"
  have d: "dialled w sock w1" using 2 by (simp add: w1_def dialled_def attach_peer_def tcp_inv_def)
  have t: "b_sent w1 = b_sent w" "b_peers w1 = tl (b_peers w)" "b_net w1 = n'" by (simp_all add: w1_def attach_peer_def)
  have rd1: "ready b (b_tcp w1) (Suc (push_cost meta [] (length js) + n))"
    using rd by (simp add: w1_def attach_peer_def ready_def fair_def fuel_def)
  note k = hang_up_turn [OF d]
  have "wp b (io_bind (at_tcp (sys (sys_open p False False))) (\<lambda>fd. io_bind (io_lift (SocketFd fd)) (\<lambda>file_fd.
      if file_fd < 0 then io_ret () else io_catch (at_tcp (run_push TcpTransport file_fd meta)) (io_ret ()))))
      (\<lambda>r w2. Q r (hang_up sock w2)) w1"
  proof (rule push_file_wp [OF d wf src_file meta rd1], goal_cases)
    case 1
    then show ?case using src by blast
  next
    case (2 v)
    have "b \<or> turn_done (Push.answers data meta js) w (hang_up sock (w1\<lparr>b_tcp := v\<rparr>))"
      using 2(2) t \<open>b \<or> sysw.answers n' = _\<close> by (auto simp: turn_done_def hang_up_def answers_release)
    moreover have "ready b (b_tcp (hang_up sock (w1\<lparr>b_tcp := v\<rparr>))) n"
      using 2(3) by (simp add: hang_up_def ready_def fair_def fuel_def)
    ultimately show ?case by (rule ok [OF k [OF 2(1)]])
  next
    case (3 v e)
    then show ?case using fail k by blast
  qed
  then show ?case by (simp add: wp_simps w1_def)
qed

section \<open>The sender\<close>

abbreviation serving :: "string \<Rightarrow> nat \<Rightarrow> file_meta \<Rightarrow> int bio" where
  "serving p l meta \<equiv> io_loop (\<lambda>_. io_bind (send_turn p l meta) (\<lambda>_. io_ret (Inl ()))) ()"

lemma short_kept_refl [simp]: "short_kept w w"
  by (simp add: short_kept_def unchanged_def net_kept_def)

lemma short_kept_trans: "short_kept w w1 \<Longrightarrow> short_kept w1 w2 \<Longrightarrow> short_kept w w2"
  by (auto simp: short_kept_def net_kept_def intro: unchanged_trans)

text \<open>The loop ends only with an exception.\<close>

lemma serving_safe:
  fixes w :: bench_world
  assumes wf: "wf_fds (b_tcp w)" and src: "files (b_tcp w) p = Some data" and meta: "describes meta data"
  shows "wp True (serving p l meta) (\<lambda>r w'. (\<exists>e. r = Throw e) \<and> short_kept w w') w"
proof (rule wp_io_loop [where I = "\<lambda>_. short_kept w"])
  fix u v assume k: "short_kept w v"
  then have v: "wf_fds (b_tcp v)" "files (b_tcp v) p = Some data"
    using wf src wf_fds_tidy by (auto simp: short_kept_def unchanged_def)
  show "wp True (io_bind (send_turn p l meta) (\<lambda>_. io_ret (Inl ())))
      (on_turn (\<lambda>_. short_kept w) (\<lambda>r w'. (\<exists>e. r = Throw e) \<and> short_kept w w')) v"
    by (subst wp_bind, rule send_turn_wp [OF v meta, where js = "[]" and n = 0])
      (use k short_kept_trans in \<open>auto simp: wp_return on_turn_def\<close>)
qed simp

text \<open>Receivers are served one after the other, until a connection cannot be accepted.\<close>

definition wants :: "u32 list \<Rightarrow> u8 list" where
  "wants js = frame (hs_msg []) @ requests js"

lemma serving_all:
  fixes w :: bench_world
  assumes "wf_fds (b_tcp w)" and "files (b_tcp w) p = Some data" and meta: "describes meta data" "length data < 2 ^ 63"
    and "b_peers w = map wants reqs @ ps" and reqs: "\<forall>js \<in> set reqs. \<forall>i \<in> set js. i < chunk_count meta"
    and "sysw.answers (b_net w) = xs @ -1 # as" and "length xs = length reqs" and "\<forall>x \<in> set xs. 0 \<le> x"
    and "ready False (b_tcp w) (\<Sum>js \<leftarrow> reqs. Suc (push_cost meta [] (length js)))"
  shows "\<exists>e w'. serving p l meta w = Some (Throw e, w') \<and> short_kept w w' \<and>
    b_sent w' = b_sent w @ map (Push.answers data meta) reqs"
  using assms
proof (induction reqs arbitrary: w xs)
  case Nil
  have "\<exists>e w'. tcp_accept l (b_net w) = Some (Throw e, w')"
    using Nil(7,8) by (simp add: tcp_accept_def acquire_def io_bind_def do_call_def io_throw_def)
  then obtain e n' where run: "tcp_accept l (b_net w) = Some (Throw e, n')" by blast
  from tcp_accepts.make_settles [OF run] have "net_kept w (w\<lparr>b_net := n'\<rparr>)" by (simp add: net_kept_def)
  moreover have "serving p l meta w = Some (Throw e, w\<lparr>b_net := n'\<rparr>)"
    using run by (subst io_loop.simps) (simp add: send_turn_def io_bind_def at_net_def)
  ultimately show ?case
    by (intro exI [of _ e] exI [of _ "w\<lparr>b_net := n'\<rparr>"]) (simp only: short_kept_def unchanged_def, simp)
next
  case (Cons js reqs)
  obtain x xs' where xs: "xs = x # xs'" "0 \<le> x" "length xs' = length reqs" "\<forall>x \<in> set xs'. 0 \<le> x"
    using Cons.prems(8,9) by (cases xs) auto
  let ?n = "\<Sum>js \<leftarrow> reqs. Suc (push_cost meta [] (length js))"
  have "wp False (send_turn p l meta) (\<lambda>r w'. r = Ok () \<and> short_kept w w' \<and> turn_done (Push.answers data meta js) w w' \<and>
      ready False (b_tcp w') ?n) w"
    by (rule send_turn_wp [OF Cons.prems(1-3), where js = js and n = ?n])
      (use Cons.prems(4-7,10) xs in \<open>simp_all add: wants_def\<close>)
  then obtain w1 where run: "send_turn p l meta w = Some (Ok (), w1)" and k: "short_kept w w1"
    and t: "turn_done (Push.answers data meta js) w w1" and rd: "ready False (b_tcp w1) ?n"
    by (auto simp: wp_total)
  have w1: "wf_fds (b_tcp w1)" "files (b_tcp w1) p = Some data"
    using k Cons.prems(1,2) wf_fds_tidy by (auto simp: short_kept_def unchanged_def)
  have "\<exists>e w'. serving p l meta w1 = Some (Throw e, w') \<and> short_kept w1 w' \<and>
      b_sent w' = b_sent w1 @ map (Push.answers data meta) reqs"
    by (rule Cons.IH [OF w1 meta _ _ _ xs(3,4) rd]) (use t Cons.prems(5-7) xs(1) in \<open>simp_all add: turn_done_def\<close>)
  then obtain e w' where rest: "serving p l meta w1 = Some (Throw e, w')" "short_kept w1 w'"
    "b_sent w' = b_sent w1 @ map (Push.answers data meta) reqs" by blast
  have "serving p l meta w = serving p l meta w1"
    using run by (subst io_loop.simps) (simp add: io_bind_def io_ret_def)
  moreover have "b_sent w' = b_sent w @ map (Push.answers data meta) (js # reqs)"
    using rest(3) t by (simp add: turn_done_def)
  ultimately show ?case using rest(1) short_kept_trans [OF k rest(2)] by metis
qed

lemma listen_wp:
  assumes "\<And>l n'. tcp_listen port n = Some (Ok l, n') \<Longrightarrow> mset (held n') = add_mset (Socket_fd, l) (mset (held n)) \<Longrightarrow>
      bad_frees n' = bad_frees n \<Longrightarrow> Q (Ok l) n'"
    and "\<And>n' e. mset (held n') = mset (held n) \<Longrightarrow> bad_frees n' = bad_frees n \<Longrightarrow> Q (Throw e) n'"
  shows "wp True (tcp_listen port) Q n"
proof (rule wpI)
  fix r n' assume run: "tcp_listen port n = Some (r, n')"
  from tcp_listens.make_settles [OF run]
  have "r \<noteq> Undef \<and> bad_frees n' = bad_frees n \<and> mset (held n') = mset (held n) +
      (case r of Ok fd \<Rightarrow> {#(Socket_fd, fd)#} | _ \<Rightarrow> {#})" by (simp cong: res.case_cong)
  then show "Q r n'" using assms run by (cases r) auto
qed

lemma drop_socket_net:
  assumes h: "mset (held (b_net w1)) = add_mset (Socket_fd, l) (mset (held (b_net w)))" "bad_frees (b_net w1) = bad_frees (b_net w)"
    and "net_kept w1 w2"
  shows "net_kept w (drop_socket l w2)"
proof -
  have h2: "mset (held (b_net w2)) = add_mset (Socket_fd, l) (mset (held (b_net w)))" "bad_frees (b_net w2) = bad_frees (b_net w)"
    using assms by (simp_all add: net_kept_def)
  have "mset [(Socket_fd, l)] \<subseteq># mset (held (b_net w2))" unfolding h2 by simp
  from releases_held [OF this] show ?thesis by (simp add: h2 net_kept_def drop_socket_def)
qed

text \<open>Sockets, without any assumption about the file: a turn may do anything to the other parts.\<close>

lemma wp_any: "(\<And>r w'. Q r w') \<Longrightarrow> wp True m Q w"
  by (rule wpI) blast

lemma send_turn_net: "wp True (send_turn p l meta) (\<lambda>r w'. net_kept w w') w"
  unfolding send_turn_def
proof (subst wp_bind, subst wp_bench_parts, rule accept_wp, goal_cases)
  case (3 n' e)
  then show ?case by (simp add: net_kept_def)
next
  case (2 sock n')
  let ?w = "attach_peer (w\<lparr>b_net := n'\<rparr>)"
  have d: "dialled w sock ?w" using 2 by (simp add: dialled_def attach_peer_def tcp_inv_def)
  have k: "net_kept w (hang_up sock (?w\<lparr>b_tcp := t\<rparr>))" for t by (rule hang_up_net [OF d]) simp
  have pushing: "wp True (io_catch (at_tcp (run_push TcpTransport fd meta)) (io_ret ())) (\<lambda>r w2. net_kept w (hang_up sock w2)) (?w\<lparr>b_tcp := t\<rparr>)"
    for fd t unfolding wp_io_catch wp_bench_parts by (rule wp_any) (use k in \<open>auto simp: wp_return split: res.split\<close>)
  have "wp True (io_bind (at_tcp (sys (sys_open p False False))) (\<lambda>fd. io_bind (io_lift (SocketFd fd)) (\<lambda>file_fd.
      if file_fd < 0 then io_ret () else io_catch (at_tcp (run_push TcpTransport file_fd meta)) (io_ret ()))))
      (\<lambda>r w2. net_kept w (hang_up sock w2)) ?w"
    unfolding wp_bind [of _ "at_tcp _"] wp_bench_parts
    by (rule wp_any) (use k pushing in \<open>auto simp: on_ok_def wp_bind wp_return SocketFd_def split: res.split\<close>)
  then show ?case by (simp add: wp_simps)
qed simp

lemma serving_net: "wp True (serving p l meta) (\<lambda>r w'. (\<forall>n. r \<noteq> Ok n) \<and> net_kept w w') w"
proof (rule wp_io_loop [where I = "\<lambda>_. net_kept w"])
  fix u v assume k: "net_kept w v"
  show "wp True (io_bind (send_turn p l meta) (\<lambda>_. io_ret (Inl ()))) (on_turn (\<lambda>_. net_kept w) (\<lambda>r w'. (\<forall>n. r \<noteq> Ok n) \<and> net_kept w w')) v"
    unfolding wp_bind by (rule wp_mono [OF send_turn_net]) (use k in \<open>auto simp: on_ok_def wp_return net_kept_def split: res.split\<close>)
qed (simp add: net_kept_def)

lemma run_send_net: "wp True (run_send M p port) (\<lambda>r w'. (\<forall>n. r \<noteq> Ok n) \<and> net_kept w w') w"
  unfolding run_send_def
proof (subst wp_bind, subst wp_bench_parts, rule wp_any)
  fix r t
  have l: "wp True (io_bind (at_net (tcp_listen port)) (\<lambda>l. io_finally (serving p l meta) (drop_socket l))) (\<lambda>r w'. (\<forall>n. r \<noteq> Ok n) \<and> net_kept w w')
      (w\<lparr>b_tcp := t\<rparr>)" for meta
  proof (subst wp_bind, subst wp_bench_parts, rule listen_wp, goal_cases)
    case (1 l n')
    let ?w = "w\<lparr>b_tcp := t, b_net := n'\<rparr>"
    have "net_kept w (drop_socket l w2)" if "net_kept ?w w2" for w2
      by (rule drop_socket_net [OF _ _ that]) (use 1 in simp_all)
    then show ?case unfolding on_ok_simps wp_finally by (auto intro: wp_mono [OF serving_net])
  qed (simp add: net_kept_def)
  show "on_ok (\<lambda>meta. wp True (io_bind (at_net (tcp_listen port)) (\<lambda>l. io_finally (serving p l meta) (drop_socket l)))
      (\<lambda>r w'. (\<forall>n. r \<noteq> Ok n) \<and> net_kept w w')) (\<lambda>r w'. (\<forall>n. r \<noteq> Ok n) \<and> net_kept w w') r (w\<lparr>b_tcp := t\<rparr>)"
    using l by (cases r) (simp_all add: net_kept_def)
qed

text \<open>The whole sender.\<close>

lemma bench_serves:
  fixes w :: bench_world
  assumes src: "f \<noteq> []" "files (b_tcp w) f = Some data" "data \<noteq> []" "length data \<le> 2 ^ 46" "length f < 2 ^ 30"
    and E: "evp_sha256 (m_evp M)" "\<forall>d. \<exists>h. sha256_buf (m_evp M) d = Ok h" "hashed (m_evp M) data hs"
    and sz: "sz = word_of_nat (length data)" and meta: "meta = meta_of f sz hs"
    and sched: "enough_rounds (chunk_count_of sz) (num_workers (chunk_count_of sz) (m_cores M)) (m_sched M)"
    and cache: "\<forall>hs. cached (b_tcp w) f sz (mtime_of (m_mtime M f)) (chunk_count_of sz) = Some hs \<longrightarrow> hashed (m_evp M) data hs"
    and wf: "wf_fds (b_tcp w)"
    and peers: "b_peers w = map wants reqs @ ps" "\<forall>js \<in> set reqs. \<forall>i \<in> set js. i < chunk_count meta"
    and env: "fair (b_tcp w)" "precompute_cost (chunk_count_of sz) + (\<Sum>js \<leftarrow> reqs. Suc (push_cost meta [] (length js))) \<le> fuel (b_tcp w)"
    and net: "tcp_listen port (b_net w) = Some (Ok l, n1)" "sysw.answers n1 = xs @ -1 # as" "length xs = length reqs" "\<forall>x \<in> set xs. 0 \<le> x"
  shows "\<exists>e w'. run_send M f port w = Some (Throw e, w') \<and> b_sent w' = b_sent w @ map (Push.answers data meta) reqs \<and>
    tidy (b_tcp w) (b_tcp w') \<and> (\<forall>q. q \<noteq> sibling ''.embr.hash'' f \<longrightarrow> files (b_tcp w') q = files (b_tcp w) q) \<and> net_kept w w'"
proof -
  let ?n = "\<Sum>js \<leftarrow> reqs. Suc (push_cost meta [] (length js))"
  have d63: "length data < 2 ^ 63" using src(4) by simp
  obtain t where run1: "precompute_meta (m_evp M) (m_cores M) (m_sched M) (m_mtime M) f (b_tcp w) = Some (Ok meta, t)"
    and desc: "describes meta data" and t: "tidy (b_tcp w) t" "ready False t ?n"
      "\<forall>q. q \<noteq> sibling ''.embr.hash'' f \<longrightarrow> files t q = files (b_tcp w) q" and f1: "files t f = Some data"
    by (rule file_described [where mtim = "m_mtime M", OF src E sz meta sched cache wf env])
  let ?w1 = "w\<lparr>b_tcp := t, b_net := n1\<rparr>"
  have "\<exists>e w'. serving f l meta ?w1 = Some (Throw e, w') \<and> short_kept ?w1 w' \<and>
      b_sent w' = b_sent ?w1 @ map (Push.answers data meta) reqs"
    by (rule serving_all [OF _ _ desc d63 _ peers(2) _ net(3,4)])
      (use wf_fds_tidy [OF wf t(1)] f1 peers(1) net(2) t(2) in simp_all)
  then obtain e w' where run2: "serving f l meta ?w1 = Some (Throw e, w')" and k: "short_kept ?w1 w'"
    and sent: "b_sent w' = b_sent w @ map (Push.answers data meta) reqs" by auto
  have run: "run_send M f port w = Some (Throw e, drop_socket l w')"
    using run1 net(1) run2 by (simp add: run_send_def io_bind_def at_tcp_def at_net_def io_finally_def)
  from wpD [OF run_send_net run] have "net_kept w (drop_socket l w')" by blast
  then show ?thesis
    using run k sent t(1,3) by (auto simp: drop_socket_def short_kept_def unchanged_def intro: tidy_trans)
qed

section \<open>The receiver\<close>

definition no_samples :: "bench_config \<Rightarrow> bool" where
  "no_samples cfg \<longleftrightarrow> unat (runs_short cfg + c_warmup cfg) \<le> unat (c_warmup cfg) \<or>
     unat (runs_full cfg + c_warmup cfg) \<le> unat (c_warmup cfg)"

lemma short_print: "print_short_results r \<noteq> Throw e" "peer_connect_ns r \<noteq> [] \<Longrightarrow> ttfc_ns r \<noteq> [] \<Longrightarrow> \<exists>x. print_short_results r = Ok x"
  by (simp_all add: print_short_results_def max_element_def)

lemma full_print: "print_full_results r \<noteq> Throw e" "completion_ns r \<noteq> [] \<Longrightarrow> \<exists>x. print_full_results r = Ok x"
proof -
  have "sort (completion_ns r) \<noteq> []" if "completion_ns r \<noteq> []" using that by (metis set_empty set_sort)
  then show "print_full_results r \<noteq> Throw e" "completion_ns r \<noteq> [] \<Longrightarrow> \<exists>x. print_full_results r = Ok x"
    by (auto simp: print_full_results_def vec_back_def Let_def)
qed

lemma fresh_tmp_unchanged: "fresh_tmp p w \<Longrightarrow> unchanged w w' \<Longrightarrow> fresh_tmp p w'"
  using wf_fds_tidy by (auto simp: fresh_tmp_def unchanged_def tidy_def)

lemma net_kept_trans: "net_kept w w1 \<Longrightarrow> net_kept w1 w2 \<Longrightarrow> net_kept w w2"
  by (simp add: net_kept_def)

lemma drop_rounds: "drop (3 * k) (concat (replicate (k + m) [0, 1, 0]) @ as) = concat (replicate m [0, 1, 0]) @ (as :: int list)"
proof -
  have "length (concat (replicate k [0, 1, 0 :: int])) = 3 * k" by (induction k) simp_all
  then show ?thesis by (simp add: replicate_add)
qed

text \<open>What a receiver with these numbers of runs is to be sent, and what it sends.\<close>

definition bench_peers :: "u8 list \<Rightarrow> file_meta \<Rightarrow> nat \<Rightarrow> nat \<Rightarrow> u8 list list" where
  "bench_peers data meta S F = replicate S (Push.answers data meta [0]) @ replicate F (full_reply data meta)"

definition bench_asks :: "file_meta \<Rightarrow> nat \<Rightarrow> nat \<Rightarrow> u8 list list" where
  "bench_asks meta S F = replicate S short_sent @ replicate F (all_requests meta)"

text \<open>The second half, with its report.\<close>

lemma recv_full_wp:
  fixes w :: bench_world
  assumes new: "fresh_tmp (b_tmp w) (b_tcp w)" and F: "F = unat (runs_full cfg + c_warmup cfg)"
    and rd: "ready b (b_tcp w) (2 + F * session_cost meta)"
    and src: "b \<or> sender_good E meta data \<and> unat (c_warmup cfg) < F \<and> sender_ready (full_reply data meta) F w"
    and ok: "\<And>w'. net_kept w w' \<Longrightarrow> tidy (b_tcp w) (b_tcp w') \<Longrightarrow> others_kept (b_tmp w) (b_tcp w) (b_tcp w') \<Longrightarrow>
      b \<or> b_sent w' = b_sent w @ replicate F (all_requests meta) \<Longrightarrow> Q (Ok 0) w'"
    and undef: "\<And>w'. b \<Longrightarrow> F \<le> unat (c_warmup cfg) \<Longrightarrow> net_kept w w' \<Longrightarrow> others_kept (b_tmp w) (b_tcp w) (b_tcp w') \<Longrightarrow> Q Undef w'"
    and fail: "\<And>w' e. b \<Longrightarrow> net_kept w w' \<Longrightarrow> others_kept (b_tmp w) (b_tcp w) (b_tcp w') \<Longrightarrow> Q (Throw e) w'"
  shows "wp b (io_bind (run_full_loop E cfg) (\<lambda>full_r. io_bind (io_lift (print_full_results full_r)) (\<lambda>_. io_ret 0))) Q w"
proof (subst wp_bind, rule run_full_loop_wp [OF new refl, where ?meta0.0 = meta and data = data], goal_cases)
  case (3 w' ms res)
  then have n: "length ms = F" "b_sent w' = b_sent w @ map all_requests ms" "length (completion_ns res) = F - unat (c_warmup cfg)"
    by (simp_all add: full_returned_def F)
  have "map all_requests ms = replicate F (all_requests meta)" if "set ms \<subseteq> {meta}"
    using that n(1) by (intro replicate_eqI) auto
  then have sent: "b \<or> b_sent w' = b_sent w @ replicate F (all_requests meta)" using 3(2) n(2) by auto
  show ?case
  proof (cases "completion_ns res = []")
    case True
    then have few: "F \<le> unat (c_warmup cfg)" using n(3) by simp
    with src have b by auto
    then show ?thesis using undef [OF _ few 3(5,4)] True by (simp add: wp_simps print_full_results_def vec_back_def Let_def)
  next
    case False
    then obtain x where "print_full_results res = Ok x" using full_print(2) by blast
    then show ?thesis using ok [OF 3(5,3,4) sent] by (simp add: wp_simps)
  qed
qed (use rd src fail in \<open>auto simp: F\<close>)

lemma run_recv_wp:
  fixes w :: bench_world
  assumes new: "fresh_tmp (b_tmp w) (b_tcp w)"
    and S: "S = unat (runs_short cfg + c_warmup cfg)" and F: "F = unat (runs_full cfg + c_warmup cfg)"
    and rd: "ready b (b_tcp w) (S * short_cost meta + (2 + F * session_cost meta))"
    and src: "b \<or> sender_good E meta data \<and> \<not> no_samples cfg \<and> b_peers w = bench_peers data meta S F @ ps \<and>
      sysw.answers (b_net w) = concat (replicate (S + F) [0, 1, 0]) @ as"
    and ok: "\<And>w'. net_kept w w' \<Longrightarrow> tidy (b_tcp w) (b_tcp w') \<Longrightarrow> others_kept (b_tmp w) (b_tcp w) (b_tcp w') \<Longrightarrow>
      b \<or> b_sent w' = b_sent w @ bench_asks meta S F \<Longrightarrow> Q (Ok 0) w'"
    and undef: "\<And>w'. b \<Longrightarrow> no_samples cfg \<Longrightarrow> net_kept w w' \<Longrightarrow> others_kept (b_tmp w) (b_tcp w) (b_tcp w') \<Longrightarrow> Q Undef w'"
    and fail: "\<And>w' e. b \<Longrightarrow> net_kept w w' \<Longrightarrow> others_kept (b_tmp w) (b_tcp w) (b_tcp w') \<Longrightarrow> Q (Throw e) w'"
  shows "wp b (run_recv E cfg) Q w"
  unfolding run_recv_def
proof (subst wp_bind, rule short_runs_wp [OF refl, where ?meta0.0 = meta and reply = "Push.answers data meta [0]" and
      m = "2 + F * session_cost meta" and s = "region (unat (chunk_off 0)) (unat (chunk_len (file_size meta) 0)) data"], goal_cases)
  case 1
  then show ?case using rd by (simp add: S)
next
  case 2
  have "sender_ready (Push.answers data meta [0]) S w" if "\<not> b"
    unfolding sender_ready_def using src that
    by (auto simp: bench_peers_def replicate_add intro!: exI [of _ "concat (replicate F [0, 1, 0]) @ as"])
  then show ?case using src by (auto simp: sender_good_def describes_def Push.answers_def answer_def S)
next
  case (4 w' e)
  then show ?case using fail by (simp add: short_kept_def unchanged_def others_kept_def tidy_def)
next
  case (3 w1 res)
  then have k: "ready b (b_tcp w1) (2 + F * session_cost meta)"
    "b \<or> sysw.answers (b_net w1) = drop (3 * S) (sysw.answers (b_net w))"
    "length (peer_connect_ns res) = S - unat (c_warmup cfg)" "length (ttfc_ns res) = S - unat (c_warmup cfg)"
    unfolding S by blast+
  have d: "unchanged (b_tcp w) (b_tcp w1)" "net_kept w w1" "b_tmp w1 = b_tmp w" "b_sent w1 = b_sent w @ replicate S short_sent"
    "b_peers w1 = drop S (b_peers w)" using 3(1) by (simp_all add: short_done_def S)
  have o: "others_kept (b_tmp w) (b_tcp w) v" if "others_kept (b_tmp w) (b_tcp w1) v" for v
    using that d(1) by (simp add: others_kept_def unchanged_def tidy_def)
  have peers: "drop S (replicate S x @ xs) = xs" for x :: "u8 list" and xs by simp
  have ready: "sender_ready (full_reply data meta) F w1" if "\<not> b"
    unfolding sender_ready_def using src that d(5) k(2) by (auto simp only: bench_peers_def drop_rounds append_assoc peers)
  have "wp b (io_bind (run_full_loop E cfg) (\<lambda>full_r. io_bind (io_lift (print_full_results full_r)) (\<lambda>_. io_ret 0))) Q w1"
    by (rule recv_full_wp [OF _ F k(1), where data = data])
      (use fresh_tmp_unchanged [OF new d(1)] src ready o net_kept_trans [OF d(2)] d(1,3,4) in
        \<open>auto simp: no_samples_def F bench_asks_def unchanged_def intro: ok undef fail tidy_trans\<close>)
  moreover have "print_short_results res = Undef \<and> no_samples cfg \<or> (\<exists>x. print_short_results res = Ok x)"
    using short_print(2) [of res] k(3,4) by (cases "peer_connect_ns res = []")
      (auto simp: print_short_results_def max_element_def no_samples_def S)
  moreover have "Q Undef w1" if "no_samples cfg"
    by (rule undef [OF _ that d(2) o]) (use src that in \<open>auto simp: others_kept_def\<close>)
  ultimately show ?case by (auto simp: wp_bind wp_return)
qed

section \<open>The command\<close>

text \<open>The flags: options, an exit code, or a number that \<^verbatim>\<open>std::stoi\<close> refuses.\<close>

definition flags_ok :: "('o + int) res \<Rightarrow> bool" where
  "flags_ok r = (case r of Ok p \<Rightarrow> code_ok p | Throw e \<Rightarrow> e = Invalid_argument ''stoi'' \<or> e = Out_of_range ''stoi'' | Undef \<Rightarrow> False)"

lemma flags_ok_simps [simp]: "flags_ok (Ok (Inl x))" "flags_ok (Ok (Inr n)) = (n = 0 \<or> n = 1)"
  by (simp_all add: flags_ok_def)

lemma flags_ok_number:
  assumes "\<And>n. flags_ok (f n)"
  shows "flags_ok (res_bind (stoi v) f)"
  using assms by (cases "number_text v") (simp add: stoi_def Let_def flags_ok_def)

lemma flags_ok_if: "(c \<Longrightarrow> flags_ok x) \<Longrightarrow> (\<not> c \<Longrightarrow> flags_ok y) \<Longrightarrow> flags_ok (if c then x else y)"
  by simp

lemma bench_flags_ok: "flags_ok (bench_flags opts args)"
proof (induction args arbitrary: opts rule: induct_list012)
  case (3 flag v args)
  have numbers: "res_bind (port_of v) f = res_bind (stoi v) (\<lambda>n. f (word_of_int n))"
    "res_bind (count_of v) h = res_bind (stoi v) (\<lambda>n. h (word_of_int n))" for f h
    by (cases "stoi v"; simp add: port_of_def count_of_def)+
  show ?case unfolding bench_flags.simps numbers
    by (intro flags_ok_if flags_ok_number) (rule 3 | simp only: flags_ok_simps simp_thms)+
qed simp_all

lemma run_role_wp:
  fixes w :: bench_world
  assumes new: "fresh_tmp (b_tmp w) (b_tcp w)"
  shows "wp True (run_role M opts) (\<lambda>r w'. net_kept w w' \<and>
    (r = Undef \<longrightarrow> o_role opts = ''send'' \<or> o_role opts = ''recv'' \<and> no_samples (config_of opts)) \<and> (\<forall>n. r = Ok n \<longrightarrow> n = 0 \<or> n = 1)) w"
proof -
  let ?Q = "\<lambda>r w'. net_kept w w' \<and> (r = Undef \<longrightarrow> o_role opts = ''send'' \<or> o_role opts = ''recv'' \<and> no_samples (config_of opts)) \<and> (\<forall>n. r = Ok n \<longrightarrow> n = 0 \<or> n = 1)"
  have recv: "wp True (run_recv E (config_of opts)) ?Q w" if "o_role opts = ''recv''" for E
    by (rule run_recv_wp [OF new refl refl, where meta = sample_meta and data = "[]" and ps = "[]" and as = "[]"]) (use that in simp_all)
  have idle: "?Q (Ok 1) w" by (simp add: net_kept_def)
  have send: "wp True (run_send M p port) ?Q w" if "o_role opts = ''send''" for p port
    by (rule wp_mono [OF run_send_net]) (use that in auto)
  show ?thesis unfolding run_role_def using recv send idle by (auto simp: wp_return)
qed


text \<open>When the file cannot be opened, the exception of \<^verbatim>\<open>SocketFd\<close> ends the loop: the sender does not go on
  to the next receiver.\<close>

theorem open_failure_ends:
  assumes acc: "tcp_accept l (b_net w) = Some (Ok c, n1)" and env: "script (b_tcp w) = Fail e # sc"
  shows "\<exists>w'. serving p l meta w = Some (Throw (Runtime_error ''invalid socket fd''), w')"
proof -
  have "\<exists>w'. send_turn p l meta w = Some (Throw (Runtime_error ''invalid socket fd''), w')"
    using acc env
    by (simp add: send_turn_def io_bind_def at_net_def at_tcp_def io_modify_def attach_peer_def io_finally_def sys_def sys_open_def
        sys_next_def SocketFd_def io_lift_def)
  then show ?thesis by (subst io_loop.simps) (auto simp: io_bind_def)
qed



section \<open>Witnesses\<close>

definition bench_sender :: bench_world where
  "bench_sender = (bench_start [5, 0, 0, 9, 9, 9, 9, -1] [])\<lparr>b_tcp := push_end, b_peers := bench_asks abc_meta 2 2\<rparr>"

definition bench_receiver :: bench_world where
  "bench_receiver = (bench_start (concat (replicate 4 [0, 1, 0])) [])\<lparr>b_peers := bench_peers abc abc_meta 2 2\<rparr>"

definition pair_opts :: bench_opts where
  "pair_opts = bench_defaults\<lparr>o_role := ''recv'', o_host := ''127.0.0.1'', o_warmup := 1, o_short := 1, o_full := 1\<rparr>"

lemma one_digit: "stoi ''1'' = Ok 1"
  by (simp add: stoi_def number_text_def digits_val_def is_digit_def is_space_def digit_val_def)

lemma pair_flags:
  "bench_flags bench_defaults [''--role'', ''send'', ''--file'', ''f''] =
     Ok (Inl (bench_defaults\<lparr>o_role := ''send'', o_file := ''f''\<rparr>))"
  "bench_flags bench_defaults [''--role'', ''recv'', ''--host'', ''127.0.0.1'', ''--warmup'', ''1'', ''--runs-short'', ''1'', ''--runs-full'', ''1''] =
     Ok (Inl pair_opts)"
  by (simp_all add: pair_opts_def count_of_def one_digit bench_defaults_def)



lemma pair_costs:
  "precompute_cost 1 + (2 * Suc (push_cost abc_meta [] 1) + 2 * Suc (push_cost abc_meta [] 1)) \<le> 2 ^ 27"
  "2 * short_cost abc_meta + (2 + 2 * session_cost abc_meta) \<le> 2 ^ 27"
  using abc_meta_ok(2) abc_sender(2)
  by (simp_all add: push_cost_def request_cost_def precompute_cost_def cache_load_cost_def cache_save_cost_def
      session_cost_def hello_cost_def block_cost_def short_cost_def HEADER_SIZE_def CHUNK_SIZE_def HASH_SIZE_def)

lemma pair_world:
  "b_tcp bench_sender = push_end" "b_peers bench_sender = bench_asks abc_meta 2 2" "b_sent bench_sender = []"
  "b_peers bench_receiver = bench_peers abc abc_meta 2 2" "b_sent bench_receiver = []"
  "fresh_tmp (b_tmp bench_receiver) (b_tcp bench_receiver)" "fair (b_tcp bench_receiver)" "fuel (b_tcp bench_receiver) = 2 ^ 27"
  "sysw.answers (b_net bench_receiver) = concat (replicate 4 [0, 1, 0])"
  "fuel push_end = 2 ^ 27"
  using bench_start(1-3,6) by (simp_all add: push_end_def bench_sender_def bench_receiver_def bench_start_def)

lemma pair_listen:
  "\<exists>l n1. tcp_listen EMBR_PORT (b_net bench_sender) = Some (Ok l, n1) \<and> sysw.answers n1 = [9, 9, 9, 9, -1]"
  by (simp add: bench_sender_def bench_start_def tcp_listen_def factory_eval io_ret_def)


end
